(* ===== verification/Prelude.thy ===== *)
theory Prelude
  imports Main "HOL-Library.Word" "HOL-Library.List_Lexorder" "HOL-Library.Multiset"
    "HOL-Library.AList"
begin

text \<open>
  Shared vocabulary of the development: the machine integers of the Rust sources, byte
  strings, the fragments of the Rust standard library the components call (saturating and
  checked arithmetic, little-endian encoding, \<open>HashMap\<close> seen through its iteration order)
  and the generic lemmas on them.  A \<open>u64\<close> is a \<open>64 word\<close>: unadorned \<open>+\<close>, \<open>-\<close>, \<open>*\<close> wrap,
  which is what the release profile of the workspace does (\<open>Cargo.toml\<close> sets no
  \<open>overflow-checks\<close>).  A \<open>usize\<close> that only counts or indexes is a \<open>nat\<close>.
\<close>

unbundle bit_operations_syntax

named_theorems word_nat \<open>reading word operations as arithmetic on nat\<close>

type_synonym u8 = "8 word"
type_synonym u16 = "16 word"
type_synonym u32 = "32 word"
type_synonym u64 = "64 word"
type_synonym u128 = "128 word"
type_synonym bytes = "u8 list"

section \<open>Integer operations of the Rust standard library\<close>

definition saturating_sub :: "'a::len word \<Rightarrow> 'a word \<Rightarrow> 'a word" where
  "saturating_sub a b = (if a < b then 0 else a - b)"

definition saturating_add :: "'a::len word \<Rightarrow> 'a word \<Rightarrow> 'a word" where
  "saturating_add a b = (if unat a + unat b < 2 ^ LENGTH('a) then a + b else - 1)"

definition saturating_mul :: "'a::len word \<Rightarrow> 'a word \<Rightarrow> 'a word" where
  "saturating_mul a b = (if unat a * unat b < 2 ^ LENGTH('a) then a * b else - 1)"

definition checked_add :: "'a::len word \<Rightarrow> 'a word \<Rightarrow> 'a word option" where
  "checked_add a b = (if unat a + unat b < 2 ^ LENGTH('a) then Some (a + b) else None)"

definition checked_sub :: "'a::len word \<Rightarrow> 'a word \<Rightarrow> 'a word option" where
  "checked_sub a b = (if b \<le> a then Some (a - b) else None)"

definition checked_mul :: "'a::len word \<Rightarrow> 'a word \<Rightarrow> 'a word option" where
  "checked_mul a b = (if unat a * unat b < 2 ^ LENGTH('a) then Some (a * b) else None)"

definition abs_diff :: "'a::len word \<Rightarrow> 'a word \<Rightarrow> 'a word" where
  "abs_diff a b = (if a < b then b - a else a - b)"

lemma unat_max_word: "unat (- 1 :: 'a::len word) = 2 ^ LENGTH('a) - 1"
  by (simp add: unsigned_minus_1_eq_mask mask_eq_exp_minus_1)

lemma unat_saturating_sub [word_nat]: "unat (saturating_sub a b) = unat a - unat b"
  by (auto simp: saturating_sub_def word_less_nat_alt unat_sub_if' not_less)

lemma unat_saturating_add [word_nat]:
  fixes a b :: "'a::len word"
  shows "unat (saturating_add a b) = min (unat a + unat b) (2 ^ LENGTH('a) - 1)"
  by (auto simp: saturating_add_def unat_word_ariths unat_max_word)

lemma unat_saturating_mul [word_nat]:
  fixes a b :: "'a::len word"
  shows "unat (saturating_mul a b) = min (unat a * unat b) (2 ^ LENGTH('a) - 1)"
  by (auto simp: saturating_mul_def unat_word_ariths unat_max_word)

lemma saturating_add_mono1: "a \<le> saturating_add a b"
proof -
  have "unat a < 2 ^ LENGTH('a)" by simp
  then have "unat a \<le> 2 ^ LENGTH('a) - 1" by linarith
  then show ?thesis by (simp add: word_le_nat_alt unat_saturating_add)
qed

lemma checked_add_Some_iff:
  fixes a b c :: "'a::len word"
  shows "checked_add a b = Some c \<longleftrightarrow> unat c = unat a + unat b"
proof
  assume "checked_add a b = Some c"
  then show "unat c = unat a + unat b"
    by (auto simp: checked_add_def unat_word_ariths split: if_splits)
next
  assume *: "unat c = unat a + unat b"
  moreover have "unat c < 2 ^ LENGTH('a)" by simp
  ultimately have lt: "unat a + unat b < 2 ^ LENGTH('a)" by simp
  then have "unat (a + b) = unat c" using * by (simp add: unat_word_ariths)
  then have "a + b = c" by (rule word_unat_eq_iff [THEN iffD2])
  with lt show "checked_add a b = Some c" by (simp add: checked_add_def)
qed

lemma checked_add_None_iff:
  fixes a b :: "'a::len word"
  shows "checked_add a b = None \<longleftrightarrow> 2 ^ LENGTH('a) \<le> unat a + unat b"
  by (auto simp: checked_add_def)

definition checked_div :: "'a::len word \<Rightarrow> 'a word \<Rightarrow> 'a word option" where
  "checked_div a b = (if b = 0 then None else Some (a div b))"

definition unwrap_or :: "'x option \<Rightarrow> 'x \<Rightarrow> 'x" where
  "unwrap_or x d = (case x of Some v \<Rightarrow> v | None \<Rightarrow> d)"

lemma unwrap_or_simps [simp]: "unwrap_or (Some v) d = v" "unwrap_or None d = d"
  by (simp_all add: unwrap_or_def)

lemma unat_div_word [word_nat]: "unat (a div b) = unat a div unat b"
  by (rule unat_div)

lemma unat_min_word [word_nat]: "unat (min a b) = min (unat a) (unat b)"
  by (simp add: min_def word_le_nat_alt)

lemma unat_max_of [word_nat]: "unat (max a b) = max (unat a) (unat b)"
  by (simp add: max_def word_le_nat_alt)

lemma unat_u32_u64 [simp]: "unat (ucast (a :: u32) :: u64) = unat a"
proof -
  have "unat a < 2 ^ 32" using unsigned_less [of a] by simp
  then show ?thesis by (simp add: unsigned_ucast_eq take_bit_nat_eq_self)
qed

lemma unat_u64_u128 [simp, word_nat]: "unat (ucast (a :: u64) :: u128) = unat a"
proof -
  have "unat a < 2 ^ 64" using unsigned_less [of a] by simp
  then show ?thesis by (simp add: unsigned_ucast_eq take_bit_nat_eq_self)
qed

lemma unat_u128_u64: "unat a < 2 ^ 64 \<Longrightarrow> unat (ucast (a :: u128) :: u64) = unat a"
  by (simp add: unsigned_ucast_eq take_bit_nat_eq_self)

lemma u64_bound: "unat (a :: u64) < 18446744073709551616"
  using unsigned_less [of a] by simp

lemma u128_bound: "unat (a :: u128) < 340282366920938463463374607431768211456"
  using unsigned_less [of a] by simp

lemma unat_of_nat_small:
  "n < 2 ^ LENGTH('a) \<Longrightarrow> unat (word_of_nat n :: 'a::len word) = n"
  by (simp add: unsigned_of_nat take_bit_nat_eq_self)

lemma of_nat_word_inject:
  "a < 2 ^ LENGTH('a) \<Longrightarrow> b < 2 ^ LENGTH('a) \<Longrightarrow> (word_of_nat a :: 'a::len word) = word_of_nat b \<Longrightarrow> a = b"
  by (metis unat_of_nat_small)

lemma unat_add_no_overflow:
  fixes a b :: "'a::len word"
  shows "unat a + unat b < 2 ^ LENGTH('a) \<Longrightarrow> unat (a + b) = unat a + unat b"
  by (simp add: unat_word_ariths)

lemma unat_mult_no_overflow:
  fixes a b :: "'a::len word"
  shows "unat a * unat b < 2 ^ LENGTH('a) \<Longrightarrow> unat (a * b) = unat a * unat b"
  by (simp add: unat_word_ariths)

lemma unat_sum_list_no_overflow:
  fixes xs :: "'a::len word list"
  shows "sum_list (map unat xs) < 2 ^ LENGTH('a) \<Longrightarrow> unat (sum_list xs) = sum_list (map unat xs)"
proof (induction xs)
  case (Cons x xs)
  then show ?case by (simp add: unat_add_no_overflow)
qed simp

text \<open>Integer division distributes over a sum up to one unit per summand.\<close>

lemma sum_list_div_le:
  fixes xs :: "nat list"
  shows "sum_list (map (\<lambda>x. x div d) xs) \<le> sum_list xs div d"
proof (induction xs)
  case (Cons x xs)
  have "x div d + sum_list xs div d \<le> (x + sum_list xs) div d"
    by (subst div_add1_eq) simp
  with Cons show ?case by simp
qed simp

section \<open>Byte strings\<close>

definition ascii :: "string \<Rightarrow> bytes" where
  "ascii s = map of_char s"

definition le_bytes :: "nat \<Rightarrow> 'a::len word \<Rightarrow> bytes" where
  "le_bytes n w = map (\<lambda>i. ucast (drop_bit (8 * i) w)) [0..<n]"

lemma length_ascii [simp]: "length (ascii s) = length s"
  by (simp add: ascii_def)

lemma length_le_bytes [simp]: "length (le_bytes n w) = n"
  by (simp add: le_bytes_def)

lemma bit_le_bytes:
  "i < n \<Longrightarrow> j < 8 \<Longrightarrow> bit (le_bytes n w ! i) j = bit w (8 * i + j)"
  by (simp add: le_bytes_def bit_ucast_iff bit_drop_bit_eq)

lemma le_bytes_inject:
  fixes v w :: "'a::len word"
  assumes len: "LENGTH('a) \<le> 8 * n"
  shows "le_bytes n v = le_bytes n w \<longleftrightarrow> v = w"
proof
  assume eq: "le_bytes n v = le_bytes n w"
  show "v = w"
  proof (rule bit_word_eqI)
    fix k assume "k < LENGTH('a)"
    with len have "k div 8 < n" by simp
    then have "bit v (8 * (k div 8) + k mod 8) = bit w (8 * (k div 8) + k mod 8)"
      using eq bit_le_bytes [of "k div 8" n "k mod 8" v] bit_le_bytes [of "k div 8" n "k mod 8" w]
      by simp
    then show "bit v k = bit w k" by simp
  qed
qed simp

definition from_le_bytes :: "bytes \<Rightarrow> 'a::len word" where
  "from_le_bytes bs = foldr (\<lambda>b acc. ucast b + push_bit 8 acc) bs 0"

lemma from_le_bytes_replicate_0 [simp]: "from_le_bytes (replicate n 0) = 0"
  by (induction n) (simp_all add: from_le_bytes_def)

lemma from_le_bytes_append_zeros: "from_le_bytes (bs @ replicate n 0) = from_le_bytes bs"
proof -
  have "foldr (\<lambda>b acc. ucast b + push_bit 8 acc) (replicate n (0 :: u8)) 0 = (0 :: 'a word)"
    using from_le_bytes_replicate_0 [of n] by (simp only: from_le_bytes_def)
  then show ?thesis by (simp add: from_le_bytes_def)
qed

lemma bit_from_le_bytes:
  "bit (from_le_bytes bs :: 'a::len word) k \<longleftrightarrow>
     k < LENGTH('a) \<and> k div 8 < length bs \<and> bit (bs ! (k div 8)) (k mod 8)"
proof (induction bs arbitrary: k)
  case Nil
  then show ?case by (simp add: from_le_bytes_def)
next
  case (Cons b bs)
  let ?r = "from_le_bytes bs :: 'a word"
  have disj: "(ucast b :: 'a word) AND push_bit 8 ?r = 0"
    by (rule bit_eqI) (auto simp: bit_and_iff bit_push_bit_iff bit_ucast_iff dest: bit_imp_le_length)
  have "from_le_bytes (b # bs) = (ucast b :: 'a word) + push_bit 8 ?r"
    by (simp add: from_le_bytes_def)
  also have "\<dots> = ucast b OR push_bit 8 ?r"
    using disj by (rule disjunctive_add_eq_or)
  finally have "bit (from_le_bytes (b # bs) :: 'a word) k \<longleftrightarrow>
      k < LENGTH('a) \<and> (bit b k \<or> (8 \<le> k \<and> bit ?r (k - 8)))"
    by (auto simp: bit_or_iff bit_ucast_iff bit_push_bit_iff dest: bit_imp_le_length)
  also have "\<dots> \<longleftrightarrow> k < LENGTH('a) \<and> k div 8 < length (b # bs) \<and> bit ((b # bs) ! (k div 8)) (k mod 8)"
  proof (cases "k < 8")
    case True
    then show ?thesis by simp
  next
    case False
    then have "\<not> bit b k" by (auto dest: bit_imp_le_length)
    moreover have "k div 8 = Suc ((k - 8) div 8)" "k mod 8 = (k - 8) mod 8"
      using False by (simp_all add: le_div_geq le_mod_geq)
    ultimately show ?thesis using False Cons.IH [of "k - 8"] by auto
  qed
  finally show ?case .
qed

lemma from_le_bytes_le_bytes:
  assumes "LENGTH('a::len) \<le> 8 * n"
  shows "from_le_bytes (le_bytes n w) = (w :: 'a word)"
proof (rule bit_word_eqI)
  fix k assume k: "k < LENGTH('a)"
  with assms have "k div 8 < n" by simp
  with k show "bit (from_le_bytes (le_bytes n w) :: 'a word) k = bit w k"
    by (simp add: bit_from_le_bytes bit_le_bytes)
qed

lemma le_bytes_from_le_bytes:
  assumes "length bs = n" "8 * n \<le> LENGTH('a::len)"
  shows "le_bytes n (from_le_bytes bs :: 'a word) = bs"
proof (rule nth_equalityI)
  fix i assume "i < length (le_bytes n (from_le_bytes bs :: 'a word))"
  then have i: "i < n" by simp
  show "le_bytes n (from_le_bytes bs :: 'a word) ! i = bs ! i"
  proof (rule bit_word_eqI)
    fix j assume "j < LENGTH(8)"
    then have j: "j < 8" by simp
    have "8 * i + j < LENGTH('a)" using i j assms(2) by linarith
    with i j assms(1) show "bit (le_bytes n (from_le_bytes bs :: 'a word) ! i) j = bit (bs ! i) j"
      by (simp add: bit_le_bytes bit_from_le_bytes)
  qed
qed (simp add: assms)

text \<open>\<open>slice::chunks\<close>: pieces of \<open>n\<close> elements, the last one possibly shorter.\<close>

function chunks :: "nat \<Rightarrow> 'x list \<Rightarrow> 'x list list" where
  "chunks n xs = (if n = 0 \<or> xs = [] then [] else take n xs # chunks n (drop n xs))"
  by auto

termination chunks
  by (relation "measure (\<lambda>(n, xs). length xs)") auto

declare chunks.simps [simp del]

lemma chunks_Nil [simp]: "chunks n [] = []"
  by (simp add: chunks.simps)

lemma chunks_short: "xs \<noteq> [] \<Longrightarrow> length xs \<le> n \<Longrightarrow> chunks n xs = [xs]"
  by (cases "n = 0") (auto simp: chunks.simps [of n xs])

lemma chunks_append_full:
  "0 < n \<Longrightarrow> length xs = n \<Longrightarrow> chunks n (xs @ ys) = xs # chunks n ys"
  by (subst chunks.simps) auto

section \<open>Hash maps\<close>

text \<open>
  A \<open>HashMap\<close> is an association list without repeated keys.  Rust leaves the order in
  which it is iterated unspecified, and it may differ between two processes that hold the
  same entries: an operation whose result can depend on it takes the order as an argument
  \<open>iter\<close>, about which only \<open>iteration_order\<close> is ever assumed.
\<close>

definition iteration_order :: "('e list \<Rightarrow> 'e list) \<Rightarrow> bool" where
  "iteration_order iter \<longleftrightarrow> (\<forall>m. mset (iter m) = mset m)"

lemma iteration_order_id [simp]: "iteration_order (\<lambda>m. m)"
  and iteration_order_rev [simp]: "iteration_order rev"
  by (simp_all add: iteration_order_def)

lemma iteration_order_set: "iteration_order iter \<Longrightarrow> set (iter m) = set m"
  by (metis iteration_order_def set_mset_mset)

lemma iteration_order_length: "iteration_order iter \<Longrightarrow> length (iter m) = length m"
  by (metis iteration_order_def size_mset)

lemma iteration_order_filter:
  "iteration_order iter \<Longrightarrow> mset (filter P (iter m)) = mset (filter P m)"
  by (simp add: iteration_order_def)

definition unique_keys :: "('k \<times> 'v) list \<Rightarrow> bool" where
  "unique_keys m \<longleftrightarrow> distinct (map fst m)"

lemma unique_keys_Nil [simp]: "unique_keys []"
  by (simp add: unique_keys_def)

lemma unique_keys_update [simp]: "unique_keys m \<Longrightarrow> unique_keys (AList.update k v m)"
  by (simp add: unique_keys_def distinct_update)

lemma unique_keys_delete [simp]: "unique_keys m \<Longrightarrow> unique_keys (AList.delete k m)"
  by (simp add: unique_keys_def distinct_delete)

lemma keys_update [simp]: "fst ` set (AList.update k v m) = insert k (fst ` set m)"
  using dom_update [of k v m] by (simp add: dom_map_of_conv_image_fst)

lemma keys_delete [simp]: "fst ` set (AList.delete k m) = fst ` set m - {k}"
  by (auto simp: AList.delete_eq image_iff)

lemma map_of_update_neq: "j \<noteq> k \<Longrightarrow> map_of (AList.update k v m) j = map_of m j"
  by (simp add: update_conv')

lemma map_of_update_same [simp]: "map_of (AList.update k v m) k = Some v"
  by (simp add: update_conv')

text \<open>Two tables with the same contents sort to the same list, whatever their order.\<close>

lemma unique_keys_mset_eq:
  assumes "unique_keys xs" "unique_keys ys" "map_of xs = map_of ys"
  shows "mset xs = mset ys"
proof -
  have "set xs = set ys"
    using assms map_of_eq_Some_iff [of xs] map_of_eq_Some_iff [of ys]
    by (auto simp: unique_keys_def)
  moreover have "distinct xs" "distinct ys"
    using assms by (auto simp: unique_keys_def distinct_map)
  ultimately show ?thesis by (simp add: set_eq_iff_mset_eq_distinct)
qed

lemma sort_key_fst_unique:
  fixes xs ys :: "('k::linorder \<times> 'v) list"
  assumes "unique_keys xs" "mset xs = mset ys"
  shows "sort_key fst xs = sort_key fst ys"
proof (rule sort_key_inj_key_eq)
  show "mset xs = mset (sort_key fst ys)" using assms by simp
  show "inj_on fst (set xs)" using assms by (simp add: unique_keys_def distinct_map)
qed simp

section \<open>Sums, options and lists\<close>

lemma bind_Inr_iff:
  "(case r of Inl e \<Rightarrow> Inl e | Inr x \<Rightarrow> f x) = Inr y \<longleftrightarrow> (\<exists>x. r = Inr x \<and> f x = Inr y)"
  by (cases r) auto

lemma filter_filter_swap: "filter P (filter Q xs) = filter Q (filter P xs)"
  by (simp add: conj_commute)

text \<open>Rust's \<open>min_by_key\<close>: the first of several minimal elements.\<close>

definition min_by_key :: "('x \<Rightarrow> 'k::linorder) \<Rightarrow> 'x list \<Rightarrow> 'x option" where
  "min_by_key f xs = (if xs = [] then None else Some (arg_min_list f xs))"

lemma min_by_key_Some:
  assumes "min_by_key f xs = Some x"
  shows "x \<in> set xs" and "y \<in> set xs \<Longrightarrow> f x \<le> f y"
proof -
  have x: "xs \<noteq> []" "x = arg_min_list f xs" using assms by (auto simp: min_by_key_def split: if_splits)
  then show "x \<in> set xs" by (simp add: arg_min_list_in)
  show "f x \<le> f y" if "y \<in> set xs" using x that by (simp add: f_arg_min_list_f)
qed

lemma min_by_key_None [simp]: "min_by_key f xs = None \<longleftrightarrow> xs = []"
  by (simp add: min_by_key_def)

lemma successively_map_cong:
  "successively R (map f xs) \<Longrightarrow> (\<And>a b. R (f a) (f b) \<Longrightarrow> Q (g a) (g b)) \<Longrightarrow> successively Q (map g xs)"
  by (induction xs rule: induct_list012) auto

text \<open>Concatenations of pieces of one length.\<close>

lemma concat_fixed_length_inj:
  assumes "concat xs = concat ys" "length xs = length ys" "\<And>x. x \<in> set xs \<union> set ys \<Longrightarrow> length x = n"
  shows "xs = ys"
  using assms
proof (induction xs arbitrary: ys)
  case (Cons x xs)
  then obtain y ys' where ys: "ys = y # ys'" by (cases ys) auto
  with Cons.prems have "length x = length y" by simp
  with Cons.prems(1) ys have "x = y" "concat xs = concat ys'" by simp_all
  with Cons ys show ?case by auto
qed simp

lemma nth_concat_uniform:
  assumes "\<And>x. x \<in> set xs \<Longrightarrow> length (f x) = n" "i < length xs" "k < n"
  shows "concat (map f xs) ! (i * n + k) = f (xs ! i) ! k"
  using assms
proof (induction xs arbitrary: i)
  case (Cons x xs)
  then show ?case by (cases i) (auto simp: nth_append add.assoc)
qed simp

lemma length_concat_uniform: "(\<And>x. x \<in> set xs \<Longrightarrow> length (f x) = n) \<Longrightarrow> length (concat (map f xs)) = length xs * n"
  by (induction xs) auto

lemma map_of_filter_keep: "P k \<Longrightarrow> map_of (filter (\<lambda>x. P (fst x)) m) k = map_of m k"
  by (induction m) auto

lemma unat_fold_saturating_add:
  fixes acc :: "'a::len word"
  shows "unat (fold (\<lambda>w acc. saturating_add acc w) ws acc)
    = min (unat acc + sum_list (map unat ws)) (2 ^ LENGTH('a) - 1)"
proof (induction ws arbitrary: acc)
  case Nil
  have "unat acc < 2 ^ LENGTH('a)" by simp
  then have "unat acc \<le> 2 ^ LENGTH('a) - 1" by linarith
  then show ?case by simp
next
  case (Cons w ws)
  then show ?case by (simp add: unat_saturating_add)
qed

end
