(* ===== verification/Nullifier_SMT.thy ===== *)
theory Nullifier_SMT
  imports Prelude
begin

text \<open>
  The sparse Merkle tree of \<open>core/scalar-nullifier/src/smt.rs\<close>, which holds the active layer
  of the nullifier set: the table of leaves, the root recomputed after every change, sibling
  paths and their verification.  BLAKE3 is third-party code and is the argument \<open>blake3\<close> of
  every definition that hashes; feeding a hasher in pieces hashes the concatenation.
\<close>

section \<open>Constants and hashing\<close>

definition DOMAIN_SMT_ACTIVE :: bytes where
  "DOMAIN_SMT_ACTIVE = ascii ''scalar_smt_active''"

definition DOMAIN_SMT_ARCHIVED :: bytes where
  "DOMAIN_SMT_ARCHIVED = ascii ''scalar_smt_archived''"

definition SMT_DEPTH :: nat where
  "SMT_DEPTH = 32"

definition MAX_NULLIFIERS_PER_CHECKPOINT :: nat where
  "MAX_NULLIFIERS_PER_CHECKPOINT = 200000"

definition EMPTY_ROOT :: bytes where
  "EMPTY_ROOT = replicate 32 0"

definition internal_preimage :: "bytes \<Rightarrow> bytes \<Rightarrow> bytes" where
  "internal_preimage left right = DOMAIN_SMT_ACTIVE @ left @ right"

definition leaf_preimage :: "bytes \<Rightarrow> u64 \<Rightarrow> bytes" where
  "leaf_preimage nullifier epoch_id =
     DOMAIN_SMT_ACTIVE @ ascii ''leaf'' @ nullifier @ le_bytes 8 epoch_id"

definition hash_internal :: "(bytes \<Rightarrow> bytes) \<Rightarrow> bytes \<Rightarrow> bytes \<Rightarrow> bytes" where
  "hash_internal blake3 left right = blake3 (internal_preimage left right)"

definition hash_leaf :: "(bytes \<Rightarrow> bytes) \<Rightarrow> bytes \<Rightarrow> u64 \<Rightarrow> bytes" where
  "hash_leaf blake3 nullifier epoch_id = blake3 (leaf_preimage nullifier epoch_id)"

definition bit_at :: "bytes \<Rightarrow> nat \<Rightarrow> bool" where
  "bit_at key depth =
     (let byte_idx = depth div 8; bit_idx = 7 - depth mod 8
      in drop_bit bit_idx (key ! byte_idx) AND 1 = 1)"

section \<open>Subtree roots\<close>

type_synonym leaf = "bytes \<times> u64"

text \<open>
  The recursion of \<open>subtree_root\<close>.  The callers pass \<open>start_depth \<le> max_depth\<close>, where
  \<open>max_depth \<le> start_depth\<close> is the source's \<open>start_depth == max_depth\<close>.  The leaf level
  hashes \<open>leaves[0]\<close> whatever the number of leaves: the check that there is only one is a
  \<open>debug_assert\<close>, absent from a release build.
\<close>

function subtree_root :: "(bytes \<Rightarrow> bytes) \<Rightarrow> leaf list \<Rightarrow> nat \<Rightarrow> nat \<Rightarrow> bytes" where
  "subtree_root blake3 leaves start_depth max_depth =
     (if leaves = [] then EMPTY_ROOT
      else if max_depth \<le> start_depth then hash_leaf blake3 (fst (hd leaves)) (snd (hd leaves))
      else
        let left_leaves = filter (\<lambda>(k, _). \<not> bit_at k start_depth) leaves;
            right_leaves = filter (\<lambda>(k, _). bit_at k start_depth) leaves;
            left_root = subtree_root blake3 left_leaves (Suc start_depth) max_depth;
            right_root = subtree_root blake3 right_leaves (Suc start_depth) max_depth
        in if left_root = EMPTY_ROOT \<and> right_root = EMPTY_ROOT then EMPTY_ROOT
           else hash_internal blake3 left_root right_root)"
  by pat_completeness auto
termination
  by (relation "measure (\<lambda>(_, _, start_depth, max_depth). max_depth - start_depth)") auto

declare subtree_root.simps [simp del]

definition prefix_matches_except :: "bytes \<Rightarrow> bytes \<Rightarrow> nat \<Rightarrow> bool" where
  "prefix_matches_except key target depth = (\<forall>d\<in>set [0..<depth]. bit_at key d = bit_at target d)"

section \<open>The tree\<close>

record sparse_merkle_tree =
  smt_root :: bytes
  smt_leaves :: "leaf list"

definition smt_new :: sparse_merkle_tree where
  "smt_new = \<lparr>smt_root = replicate 32 0, smt_leaves = []\<rparr>"

definition smt_entries_sorted :: "sparse_merkle_tree \<Rightarrow> leaf list" where
  "smt_entries_sorted t = sort_key fst (smt_leaves t)"

definition smt_recompute_root ::
  "(bytes \<Rightarrow> bytes) \<Rightarrow> sparse_merkle_tree \<Rightarrow> sparse_merkle_tree" where
  "smt_recompute_root blake3 t =
     (if smt_leaves t = [] then t\<lparr>smt_root := replicate 32 0\<rparr>
      else t\<lparr>smt_root := subtree_root blake3 (smt_entries_sorted t) 0 SMT_DEPTH\<rparr>)"

definition smt_insert ::
  "(bytes \<Rightarrow> bytes) \<Rightarrow> sparse_merkle_tree \<Rightarrow> bytes \<Rightarrow> u64 \<Rightarrow> sparse_merkle_tree" where
  "smt_insert blake3 t nullifier epoch_id =
     smt_recompute_root blake3 (t\<lparr>smt_leaves := AList.update nullifier epoch_id (smt_leaves t)\<rparr>)"

definition smt_remove ::
  "(bytes \<Rightarrow> bytes) \<Rightarrow> sparse_merkle_tree \<Rightarrow> bytes \<Rightarrow> sparse_merkle_tree" where
  "smt_remove blake3 t nullifier =
     smt_recompute_root blake3 (t\<lparr>smt_leaves := AList.delete nullifier (smt_leaves t)\<rparr>)"

definition smt_contains :: "sparse_merkle_tree \<Rightarrow> bytes \<Rightarrow> bool" where
  "smt_contains t nullifier = (map_of (smt_leaves t) nullifier \<noteq> None)"

definition smt_len :: "sparse_merkle_tree \<Rightarrow> nat" where
  "smt_len t = length (smt_leaves t)"

definition smt_is_empty :: "sparse_merkle_tree \<Rightarrow> bool" where
  "smt_is_empty t = (smt_leaves t = [])"

definition smt_epoch_of :: "sparse_merkle_tree \<Rightarrow> bytes \<Rightarrow> u64 option" where
  "smt_epoch_of t nullifier = map_of (smt_leaves t) nullifier"

definition nullifiers_older_than ::
  "(leaf list \<Rightarrow> leaf list) \<Rightarrow> sparse_merkle_tree \<Rightarrow> u64 \<Rightarrow> u64 \<Rightarrow> bytes list" where
  "nullifiers_older_than iter t current_epoch max_epochs =
     map fst (filter (\<lambda>(_, epoch). saturating_sub current_epoch epoch > max_epochs)
       (iter (smt_leaves t)))"

section \<open>Proofs\<close>

record smt_proof =
  sp_siblings :: "bytes list"
  sp_is_member :: bool
  sp_key :: bytes

definition smt_combine ::
  "(bytes \<Rightarrow> bytes) \<Rightarrow> bytes \<Rightarrow> nat \<Rightarrow> bytes \<Rightarrow> bytes \<Rightarrow> bytes" where
  "smt_combine blake3 key depth sibling current =
     (if current = EMPTY_ROOT \<and> sibling = EMPTY_ROOT then EMPTY_ROOT
      else if bit_at key depth then hash_internal blake3 sibling current
      else hash_internal blake3 current sibling)"

definition smt_climb ::
  "(bytes \<Rightarrow> bytes) \<Rightarrow> bytes \<Rightarrow> bytes list \<Rightarrow> nat list \<Rightarrow> bytes \<Rightarrow> bytes" where
  "smt_climb blake3 key siblings depths start =
     foldr (\<lambda>depth current. smt_combine blake3 key depth (siblings ! depth) current) depths start"

definition smt_proof_verify :: "(bytes \<Rightarrow> bytes) \<Rightarrow> smt_proof \<Rightarrow> bytes \<Rightarrow> bool" where
  "smt_proof_verify blake3 p root =
     (if length (sp_siblings p) \<noteq> SMT_DEPTH then False
      else smt_climb blake3 (sp_key p) (sp_siblings p) [0..<SMT_DEPTH] EMPTY_ROOT = root)"

definition smt_proof_verify_non_membership ::
  "(bytes \<Rightarrow> bytes) \<Rightarrow> smt_proof \<Rightarrow> bytes \<Rightarrow> bool" where
  "smt_proof_verify_non_membership blake3 p root =
     (if length (sp_siblings p) \<noteq> SMT_DEPTH then False
      else if sp_is_member p then False
      else smt_proof_verify blake3 p root)"

definition smt_sibling :: "(bytes \<Rightarrow> bytes) \<Rightarrow> leaf list \<Rightarrow> bytes \<Rightarrow> nat \<Rightarrow> bytes" where
  "smt_sibling blake3 sorted_leaves target depth =
     (let sibling_bit = (\<not> bit_at target depth)
      in subtree_root blake3
           (filter (\<lambda>(k, _). bit_at k depth = sibling_bit)
             (filter (\<lambda>(k, _). prefix_matches_except k target depth) sorted_leaves))
           (depth + 1) SMT_DEPTH)"

definition smt_compute_siblings ::
  "(bytes \<Rightarrow> bytes) \<Rightarrow> sparse_merkle_tree \<Rightarrow> bytes \<Rightarrow> bytes list" where
  "smt_compute_siblings blake3 t target =
     map (smt_sibling blake3 (smt_entries_sorted t) target) [0..<SMT_DEPTH]"

definition smt_generate_proof ::
  "(bytes \<Rightarrow> bytes) \<Rightarrow> sparse_merkle_tree \<Rightarrow> bytes \<Rightarrow> smt_proof" where
  "smt_generate_proof blake3 t nullifier =
     \<lparr>sp_siblings = smt_compute_siblings blake3 t nullifier,
      sp_is_member = smt_contains t nullifier,
      sp_key = nullifier\<rparr>"

definition smt_verify_non_membership ::
  "(bytes \<Rightarrow> bytes) \<Rightarrow> sparse_merkle_tree \<Rightarrow> bytes \<Rightarrow> bool" where
  "smt_verify_non_membership blake3 t nullifier =
     (if smt_contains t nullifier then False
      else smt_proof_verify_non_membership blake3 (smt_generate_proof blake3 t nullifier)
             (smt_root t))"

definition compute_archived_root :: "(bytes \<Rightarrow> bytes) \<Rightarrow> bytes \<Rightarrow> bytes list \<Rightarrow> bytes" where
  "compute_archived_root blake3 prev_archived_root new_nullifiers =
     blake3 (DOMAIN_SMT_ARCHIVED @ prev_archived_root @ concat (sort new_nullifiers))"

section \<open>Invariant\<close>

text \<open>The table has one leaf per nullifier and the stored root is the root of the table.\<close>

definition smt_wf :: "(bytes \<Rightarrow> bytes) \<Rightarrow> sparse_merkle_tree \<Rightarrow> bool" where
  "smt_wf blake3 t \<longleftrightarrow>
     unique_keys (smt_leaves t) \<and>
     smt_root t = subtree_root blake3 (smt_entries_sorted t) 0 SMT_DEPTH"

definition smt_keys :: "sparse_merkle_tree \<Rightarrow> bytes set" where
  "smt_keys t = fst ` set (smt_leaves t)"

text \<open>The first 32 bits of a key, which are all the tree looks at.\<close>

definition same_path :: "bytes \<Rightarrow> bytes \<Rightarrow> bool" where
  "same_path a b \<longleftrightarrow> prefix_matches_except a b SMT_DEPTH"

lemma subtree_root_Nil [simp]: "subtree_root blake3 [] d m = EMPTY_ROOT"
  by (simp add: subtree_root.simps)

lemma smt_contains_iff: "smt_contains t n \<longleftrightarrow> n \<in> smt_keys t"
  by (simp add: smt_contains_def smt_keys_def map_of_eq_None_iff)

lemma smt_entries_sorted_Nil_iff [simp]: "smt_entries_sorted t = [] \<longleftrightarrow> smt_leaves t = []"
  by (simp add: smt_entries_sorted_def) (metis set_empty set_sort)

lemma smt_recompute_root_leaves [simp]: "smt_leaves (smt_recompute_root b t) = smt_leaves t"
  by (simp add: smt_recompute_root_def)

lemma smt_recompute_root_root [simp]:
  "smt_root (smt_recompute_root b t) = subtree_root b (smt_entries_sorted t) 0 SMT_DEPTH"
  by (simp add: smt_recompute_root_def EMPTY_ROOT_def smt_entries_sorted_def)

lemma smt_entries_sorted_recompute [simp]:
  "smt_entries_sorted (smt_recompute_root b t) = smt_entries_sorted t"
  by (simp add: smt_entries_sorted_def)

lemma smt_wf_new [simp]: "smt_wf blake3 smt_new"
  by (simp add: smt_wf_def smt_new_def smt_entries_sorted_def EMPTY_ROOT_def)

lemma smt_wf_insert [simp]: "smt_wf blake3 t \<Longrightarrow> smt_wf blake3 (smt_insert blake3 t n e)"
  by (simp add: smt_wf_def smt_insert_def)

lemma smt_wf_remove [simp]: "smt_wf blake3 t \<Longrightarrow> smt_wf blake3 (smt_remove blake3 t n)"
  by (simp add: smt_wf_def smt_remove_def)

lemma smt_keys_new [simp]: "smt_keys smt_new = {}"
  by (simp add: smt_keys_def smt_new_def)

lemma smt_keys_insert [simp]: "smt_keys (smt_insert blake3 t n e) = insert n (smt_keys t)"
  by (simp add: smt_keys_def smt_insert_def)

lemma smt_keys_remove [simp]: "smt_keys (smt_remove blake3 t n) = smt_keys t - {n}"
  by (simp add: smt_keys_def smt_remove_def)

lemma smt_epoch_of_insert:
  "smt_epoch_of (smt_insert blake3 t n e) m = (if m = n then Some e else smt_epoch_of t m)"
  by (simp add: smt_epoch_of_def smt_insert_def update_conv')

section \<open>Paths from the root to a key\<close>

definition on_path :: "bytes \<Rightarrow> nat \<Rightarrow> leaf list \<Rightarrow> leaf list" where
  "on_path target depth leaves = filter (\<lambda>(k, _). prefix_matches_except k target depth) leaves"

definition subtree_node :: "(bytes \<Rightarrow> bytes) \<Rightarrow> bytes \<Rightarrow> bytes \<Rightarrow> bytes" where
  "subtree_node blake3 l r =
     (if l = EMPTY_ROOT \<and> r = EMPTY_ROOT then EMPTY_ROOT else hash_internal blake3 l r)"

lemma prefix_matches_except_0 [simp]: "prefix_matches_except k target 0"
  by (simp add: prefix_matches_except_def)

lemma prefix_matches_except_Suc:
  "prefix_matches_except k target (Suc d) \<longleftrightarrow>
     prefix_matches_except k target d \<and> bit_at k d = bit_at target d"
  by (auto simp: prefix_matches_except_def less_Suc_eq)

lemma on_path_0 [simp]: "on_path target 0 leaves = leaves"
  by (simp add: on_path_def split_def)

lemma on_path_Suc:
  "on_path target (Suc d) leaves =
     filter (\<lambda>(k, _). bit_at k d = bit_at target d) (on_path target d leaves)"
  by (auto simp: on_path_def prefix_matches_except_Suc intro!: filter_cong)

lemma on_path_mono: "on_path target d leaves = [] \<Longrightarrow> d \<le> d' \<Longrightarrow> on_path target d' leaves = []"
  by (induction d') (auto simp: on_path_Suc le_Suc_eq)

lemma on_path_depth_empty_iff:
  "on_path target SMT_DEPTH leaves = [] \<longleftrightarrow> (\<forall>k\<in>fst ` set leaves. \<not> same_path k target)"
  by (auto simp: on_path_def same_path_def filter_empty_conv)

lemma subtree_root_step:
  assumes "d < m"
  shows "subtree_root b leaves d m =
    subtree_node b (subtree_root b (filter (\<lambda>(k, _). \<not> bit_at k d) leaves) (Suc d) m)
      (subtree_root b (filter (\<lambda>(k, _). bit_at k d) leaves) (Suc d) m)"
  using assms by (simp add: subtree_root.simps [of b leaves d m] subtree_node_def Let_def)

lemma subtree_root_code [code]:
  "subtree_root b leaves d m =
     (if leaves = [] then EMPTY_ROOT
      else if m \<le> d then hash_leaf b (fst (hd leaves)) (snd (hd leaves))
      else subtree_node b (subtree_root b (filter (\<lambda>(k, _). \<not> bit_at k d) leaves) (Suc d) m)
        (subtree_root b (filter (\<lambda>(k, _). bit_at k d) leaves) (Suc d) m))"
  by (simp add: subtree_root_step not_le) (simp add: subtree_root.simps)

lemma subtree_root_leaf:
  "leaves \<noteq> [] \<Longrightarrow> subtree_root b leaves m m = hash_leaf b (fst (hd leaves)) (snd (hd leaves))"
  by (simp add: subtree_root.simps)

lemma smt_combine_node:
  "smt_combine b key d sib cur =
     (if bit_at key d then subtree_node b sib cur else subtree_node b cur sib)"
  by (auto simp: smt_combine_def subtree_node_def)

lemma smt_sibling_alt:
  "smt_sibling b leaves target d =
     subtree_root b (filter (\<lambda>(k, _). bit_at k d \<noteq> bit_at target d) (on_path target d leaves))
       (Suc d) SMT_DEPTH"
  by (auto simp: smt_sibling_def on_path_def Let_def intro!: arg_cong [where f = "\<lambda>xs. subtree_root b xs (Suc d) SMT_DEPTH"] filter_cong)

lemma subtree_root_on_path_step:
  assumes "d < SMT_DEPTH"
  shows "subtree_root b (on_path target d leaves) d SMT_DEPTH =
    smt_combine b target d (smt_sibling b leaves target d)
      (subtree_root b (on_path target (Suc d) leaves) (Suc d) SMT_DEPTH)"
  by (simp add: subtree_root_step [OF assms] smt_combine_node smt_sibling_alt on_path_Suc
      cong: filter_cong)

lemma smt_climb_Cons:
  "smt_climb b key sibs (d # ds) start =
     smt_combine b key d (sibs ! d) (smt_climb b key sibs ds start)"
  by (simp add: smt_climb_def)

lemma smt_climb_Nil [simp]: "smt_climb b key sibs [] start = start"
  by (simp add: smt_climb_def)

lemma subtree_root_climb:
  assumes "d \<le> SMT_DEPTH"
  shows "subtree_root b (on_path target d leaves) d SMT_DEPTH =
    smt_climb b target (map (smt_sibling b leaves target) [0..<SMT_DEPTH]) [d..<SMT_DEPTH]
      (subtree_root b (on_path target SMT_DEPTH leaves) SMT_DEPTH SMT_DEPTH)"
  using assms
proof (induction d rule: inc_induct)
  case base
  show ?case by simp
next
  case (step d)
  then show ?case
    by (simp add: subtree_root_on_path_step smt_climb_Cons upt_conv_Cons [of d])
qed

lemma smt_proof_verify_generated:
  assumes "smt_wf b t"
  shows "smt_proof_verify b (smt_generate_proof b t n) (smt_root t) \<longleftrightarrow>
    smt_climb b n (smt_compute_siblings b t n) [0..<SMT_DEPTH] EMPTY_ROOT =
    smt_climb b n (smt_compute_siblings b t n) [0..<SMT_DEPTH]
      (subtree_root b (on_path n SMT_DEPTH (smt_entries_sorted t)) SMT_DEPTH SMT_DEPTH)"
  using assms subtree_root_climb [of 0 b n "smt_entries_sorted t"]
  by (simp add: smt_proof_verify_def smt_generate_proof_def smt_compute_siblings_def smt_wf_def)

lemma smt_entries_sorted_keys [simp]: "fst ` set (smt_entries_sorted t) = smt_keys t"
  by (simp add: smt_entries_sorted_def smt_keys_def)

lemma smt_verify_non_membership_complete:
  assumes "smt_wf b t" "\<forall>k\<in>smt_keys t. \<not> same_path k n"
  shows "smt_verify_non_membership b t n"
proof -
  have "on_path n SMT_DEPTH (smt_entries_sorted t) = []"
    using assms(2) by (simp add: on_path_depth_empty_iff)
  then have "smt_proof_verify b (smt_generate_proof b t n) (smt_root t)"
    using assms(1) by (simp add: smt_proof_verify_generated)
  moreover have "\<not> smt_contains t n"
    using assms(2) by (auto simp: smt_contains_iff same_path_def prefix_matches_except_def)
  ultimately show ?thesis
    by (simp add: smt_verify_non_membership_def smt_proof_verify_non_membership_def
        smt_proof_verify_def smt_generate_proof_def split: if_splits)
qed

section \<open>Soundness of non-membership proofs\<close>

text \<open>
  What the tree needs of BLAKE3 is stated on the byte strings that are really hashed, since
  no function with 32-byte results is injective on all of them: \<open>subtree_preimages\<close> are the
  inputs hashed when a root is computed, \<open>climb_preimages\<close> those hashed by a verifier, and
  \<open>hash_safe\<close> says of a set of inputs that their digests are 32 bytes long, pairwise
  different, and never the all-zero digest that stands for an empty subtree.
\<close>

function subtree_preimages :: "(bytes \<Rightarrow> bytes) \<Rightarrow> leaf list \<Rightarrow> nat \<Rightarrow> nat \<Rightarrow> bytes list" where
  "subtree_preimages blake3 leaves d m =
     (if leaves = [] then []
      else if m \<le> d then [leaf_preimage (fst (hd leaves)) (snd (hd leaves))]
      else
        let l = filter (\<lambda>(k, _). \<not> bit_at k d) leaves;
            r = filter (\<lambda>(k, _). bit_at k d) leaves
        in internal_preimage (subtree_root blake3 l (Suc d) m) (subtree_root blake3 r (Suc d) m)
           # subtree_preimages blake3 l (Suc d) m @ subtree_preimages blake3 r (Suc d) m)"
  by pat_completeness auto
termination
  by (relation "measure (\<lambda>(_, _, d, m). m - d)") auto

declare subtree_preimages.simps [simp del]

fun climb_preimages :: "(bytes \<Rightarrow> bytes) \<Rightarrow> bytes \<Rightarrow> bytes list \<Rightarrow> nat list \<Rightarrow> bytes list" where
  "climb_preimages blake3 key sibs [] = []"
| "climb_preimages blake3 key sibs (d # ds) =
     (let cur = smt_climb blake3 key sibs ds EMPTY_ROOT; sib = sibs ! d
      in (if cur = EMPTY_ROOT \<and> sib = EMPTY_ROOT then []
          else [if bit_at key d then internal_preimage sib cur else internal_preimage cur sib])
         @ climb_preimages blake3 key sibs ds)"

definition hash_safe :: "(bytes \<Rightarrow> bytes) \<Rightarrow> bytes set \<Rightarrow> bool" where
  "hash_safe blake3 S \<longleftrightarrow>
     (\<forall>x\<in>S. length (blake3 x) = 32 \<and> blake3 x \<noteq> EMPTY_ROOT) \<and> inj_on blake3 S"

lemma hash_safe_mono: "hash_safe b S \<Longrightarrow> T \<subseteq> S \<Longrightarrow> hash_safe b T"
  by (auto simp: hash_safe_def intro: inj_on_subset)

lemma hash_safe_insertD: "hash_safe b (insert x S) \<Longrightarrow> hash_safe b S"
  and hash_safe_UnD1: "hash_safe b (S \<union> T) \<Longrightarrow> hash_safe b S"
  and hash_safe_UnD2: "hash_safe b (S \<union> T) \<Longrightarrow> hash_safe b T"
  by (auto intro: hash_safe_mono)

lemmas hash_safe_subD = hash_safe_insertD hash_safe_UnD1 hash_safe_UnD2

lemma hash_safeD:
  "hash_safe b S \<Longrightarrow> x \<in> S \<Longrightarrow> length (b x) = 32"
  "hash_safe b S \<Longrightarrow> x \<in> S \<Longrightarrow> b x \<noteq> EMPTY_ROOT"
  "hash_safe b S \<Longrightarrow> x \<in> S \<Longrightarrow> y \<in> S \<Longrightarrow> b x = b y \<longleftrightarrow> x = y"
  by (auto simp: hash_safe_def dest: inj_onD)

lemma length_EMPTY_ROOT [simp]: "length EMPTY_ROOT = 32"
  by (simp add: EMPTY_ROOT_def)

lemma internal_preimage_inject:
  "length l = length l' \<Longrightarrow> internal_preimage l r = internal_preimage l' r' \<longleftrightarrow> l = l' \<and> r = r'"
  by (simp add: internal_preimage_def)

lemma subtree_root_nonempty:
  assumes "leaves \<noteq> []" "hash_safe b (set (subtree_preimages b leaves d m))"
  shows "subtree_root b leaves d m \<noteq> EMPTY_ROOT \<and> length (subtree_root b leaves d m) = 32"
  using assms
proof (induction b leaves d m rule: subtree_root.induct)
  case (1 b leaves d m)
  show ?case
  proof (cases "m \<le> d")
    case True
    with "1.prems" show ?thesis
      by (simp add: subtree_root.simps subtree_preimages.simps hash_leaf_def hash_safe_def)
  next
    case False
    let ?l = "filter (\<lambda>(k, _). \<not> bit_at k d) leaves"
    let ?r = "filter (\<lambda>(k, _). bit_at k d) leaves"
    let ?rl = "subtree_root b ?l (Suc d) m" and ?rr = "subtree_root b ?r (Suc d) m"
    have pre: "set (subtree_preimages b leaves d m) =
      insert (internal_preimage ?rl ?rr)
        (set (subtree_preimages b ?l (Suc d) m) \<union> set (subtree_preimages b ?r (Suc d) m))"
      using False "1.prems" by (simp add: subtree_preimages.simps [of b leaves d m] Let_def)
    have "?l \<noteq> [] \<or> ?r \<noteq> []"
      using "1.prems"(1) by (cases leaves) auto
    moreover have "?l \<noteq> [] \<Longrightarrow> ?rl \<noteq> EMPTY_ROOT"
      using "1.IH"(1) [OF "1.prems"(1) False refl refl] "1.prems"(2)
      unfolding pre by (blast dest: hash_safe_subD)
    moreover have "?r \<noteq> [] \<Longrightarrow> ?rr \<noteq> EMPTY_ROOT"
      using "1.IH"(2) [OF "1.prems"(1) False refl refl refl] "1.prems"(2)
      unfolding pre by (blast dest: hash_safe_subD)
    ultimately have "subtree_root b leaves d m = b (internal_preimage ?rl ?rr)"
      using False by (auto simp: subtree_root_step subtree_node_def hash_internal_def)
    then show ?thesis
      using "1.prems"(2) by (simp add: pre hash_safe_def)
  qed
qed

lemma subtree_root_length:
  "hash_safe b (set (subtree_preimages b leaves d m)) \<Longrightarrow> length (subtree_root b leaves d m) = 32"
  using subtree_root_nonempty by (cases "leaves = []") auto

lemma smt_climb_length:
  "hash_safe b (set (climb_preimages b key sibs ds)) \<Longrightarrow>
     length (smt_climb b key sibs ds EMPTY_ROOT) = 32"
  by (cases ds)
    (auto simp: smt_climb_Cons smt_combine_def hash_internal_def Let_def hash_safe_def)

lemma subtree_preimages_step:
  assumes "d < m" "leaves \<noteq> []"
  shows "subtree_preimages b leaves d m =
    internal_preimage (subtree_root b (filter (\<lambda>(k, _). \<not> bit_at k d) leaves) (Suc d) m)
      (subtree_root b (filter (\<lambda>(k, _). bit_at k d) leaves) (Suc d) m)
    # subtree_preimages b (filter (\<lambda>(k, _). \<not> bit_at k d) leaves) (Suc d) m
    @ subtree_preimages b (filter (\<lambda>(k, _). bit_at k d) leaves) (Suc d) m"
  using assms by (simp add: subtree_preimages.simps [of b leaves d m] Let_def)

text \<open>One level: a verified node and a tree node with the same digest agree on the path.\<close>

lemma climb_step_agrees:
  assumes d: "d < m" and ne: "leaves \<noteq> []"
    and safe: "hash_safe b (set (subtree_preimages b leaves d m) \<union>
      set (climb_preimages b key sibs (d # ds)))"
    and sib: "length (sibs ! d) = 32"
    and eq: "smt_climb b key sibs (d # ds) EMPTY_ROOT = subtree_root b leaves d m"
  shows "smt_climb b key sibs ds EMPTY_ROOT =
    subtree_root b (filter (\<lambda>(k, _). bit_at k d = bit_at key d) leaves) (Suc d) m"
proof -
  let ?l = "filter (\<lambda>(k, _). \<not> bit_at k d) leaves" and ?r = "filter (\<lambda>(k, _). bit_at k d) leaves"
  let ?rl = "subtree_root b ?l (Suc d) m" and ?rr = "subtree_root b ?r (Suc d) m"
  let ?cur = "smt_climb b key sibs ds EMPTY_ROOT" and ?sib = "sibs ! d"
  have root_ne: "subtree_root b leaves d m \<noteq> EMPTY_ROOT"
    using subtree_root_nonempty [OF ne] safe by (blast intro: hash_safe_mono)
  then have root: "subtree_root b leaves d m = b (internal_preimage ?rl ?rr)"
    by (auto simp: subtree_root_step [OF d, of b leaves] subtree_node_def hash_internal_def
        split: if_splits)
  have not_empty: "\<not> (?cur = EMPTY_ROOT \<and> ?sib = EMPTY_ROOT)"
    using eq root_ne by (auto simp: smt_climb_Cons smt_combine_def)
  let ?pre = "if bit_at key d then internal_preimage ?sib ?cur else internal_preimage ?cur ?sib"
  have "b ?pre = b (internal_preimage ?rl ?rr)"
    using eq root not_empty by (auto simp: smt_climb_Cons smt_combine_def hash_internal_def)
  moreover have "?pre \<in> set (climb_preimages b key sibs (d # ds))"
    using not_empty by (auto simp: Let_def)
  moreover have "internal_preimage ?rl ?rr \<in> set (subtree_preimages b leaves d m)"
    by (simp add: subtree_preimages_step [OF d ne])
  ultimately have "?pre = internal_preimage ?rl ?rr"
    using hash_safeD(3) [OF safe] by blast
  moreover have "length ?cur = 32"
    using safe by (intro smt_climb_length) (auto simp: Let_def dest: hash_safe_subD)
  moreover have "length ?rl = 32"
    using safe by (intro subtree_root_length) (auto simp: subtree_preimages_step [OF d ne] dest: hash_safe_subD)
  ultimately have "?cur = (if bit_at key d then ?rr else ?rl)"
    using sib by (auto simp: internal_preimage_inject split: if_splits)
  then show ?thesis by (cases "bit_at key d") (auto cong: filter_cong)
qed

lemma climb_sound:
  assumes "d \<le> SMT_DEPTH"
    and "hash_safe b (set (subtree_preimages b (on_path key d leaves) d SMT_DEPTH) \<union>
      set (climb_preimages b key sibs [d..<SMT_DEPTH]))"
    and "\<forall>s\<in>set sibs. length s = 32" and "length sibs = SMT_DEPTH"
    and "smt_climb b key sibs [d..<SMT_DEPTH] EMPTY_ROOT =
      subtree_root b (on_path key d leaves) d SMT_DEPTH"
  shows "on_path key SMT_DEPTH leaves = []"
  using assms
proof (induction d rule: inc_induct)
  case base
  then show ?case
    using subtree_root_nonempty [of "on_path key SMT_DEPTH leaves" b SMT_DEPTH SMT_DEPTH] by auto
next
  case (step d)
  show ?case
  proof (cases "on_path key d leaves = []")
    case True
    with step.hyps show ?thesis by (auto intro: on_path_mono)
  next
    case False
    have upt: "[d..<SMT_DEPTH] = d # [Suc d..<SMT_DEPTH]"
      using step.hyps by (simp add: upt_conv_Cons)
    have "set (subtree_preimages b (on_path key (Suc d) leaves) (Suc d) SMT_DEPTH)
        \<subseteq> set (subtree_preimages b (on_path key d leaves) d SMT_DEPTH)"
      using step.hyps False
      by (cases "bit_at key d") (auto simp: subtree_preimages_step on_path_Suc)
    moreover have "smt_climb b key sibs [Suc d..<SMT_DEPTH] EMPTY_ROOT =
      subtree_root b (on_path key (Suc d) leaves) (Suc d) SMT_DEPTH"
      unfolding on_path_Suc
      by (rule climb_step_agrees [OF _ False])
        (use step.prems step.hyps upt in auto)
    ultimately show ?thesis
      using step.prems by (intro step.IH) (auto simp: upt Let_def elim!: hash_safe_mono)
  qed
qed

section \<open>Keys that share a path\<close>

lemma subtree_root_shadowed:
  assumes "(k, e) \<in> set xs" "\<forall>i\<in>{d..<m}. bit_at k i = bit_at k' i"
  shows "subtree_root b (xs @ (k', e') # ys) d m = subtree_root b (xs @ ys) d m"
  using assms
proof (induction "m - d" arbitrary: d xs ys)
  case 0
  then obtain x xs' where "xs = x # xs'" by (cases xs) auto
  with 0 show ?case by (simp add: subtree_root.simps)
next
  case (Suc n)
  then have d: "d < m" by simp
  have bit: "bit_at k d = bit_at k' d" using Suc.prems(2) d by simp
  have IH: "subtree_root b (zs @ (k', e') # ws) (Suc d) m = subtree_root b (zs @ ws) (Suc d) m"
    if "(k, e) \<in> set zs" for zs ws
    using that Suc.prems(2) by (intro Suc.hyps(1)) (use Suc.hyps(2) in auto)
  show ?case
    using bit Suc.prems(1) by (cases "bit_at k d") (simp_all add: subtree_root_step [OF d] IH)
qed

lemma sort_key_fst_snoc:
  fixes x :: "'k::linorder \<times> 'v"
  assumes "unique_keys (xs @ [x])"
  shows "sort_key fst (xs @ [x]) =
    takeWhile (\<lambda>y. fst y < fst x) (sort_key fst xs) @ x #
    dropWhile (\<lambda>y. fst y < fst x) (sort_key fst xs)"
    (is "_ = ?take @ x # ?drop")
proof (rule sort_key_inj_key_eq)
  have "mset (?take @ x # ?drop) = add_mset x (mset (?take @ ?drop))"
    by (simp only: mset_append mset.simps add_mset_add_single [of x "mset ?take + mset ?drop"]) simp
  then show "mset (xs @ [x]) = mset (?take @ x # ?drop)"
    by simp
  show "inj_on fst (set (xs @ [x]))"
    using assms by (auto simp: unique_keys_def distinct_map)
  have "sorted (map fst (?take @ ?drop))"
    by (simp only: takeWhile_dropWhile_id sorted_sort_key)
  then have "sorted (map fst ?take)" and dr: "sorted (map fst ?drop)"
    by (simp_all only: map_append sorted_append)
  moreover have "fst x \<le> fst y" if "y \<in> set ?drop" for y
  proof (cases "?drop")
    case Nil
    with that show ?thesis by simp
  next
    case (Cons z zs)
    then have "\<not> fst z < fst x" using hd_dropWhile [of "\<lambda>y. fst y < fst x" "sort_key fst xs"] by simp
    then show ?thesis using that dr Cons by auto
  qed
  moreover have "fst y < fst x" if "y \<in> set ?take" for y
    using that by (rule set_takeWhileD [THEN conjunct2])
  ultimately show "sorted (map fst (?take @ x # ?drop))"
    by (auto simp: sorted_append intro: order_trans less_imp_le) (meson le_less_trans less_imp_le order.trans)+
qed

lemma update_fresh: "k \<notin> fst ` set m \<Longrightarrow> AList.update k v m = m @ [(k, v)]"
  by (induction m) auto

lemma smt_entries_sorted_insert_fresh:
  assumes "smt_wf b t" "n \<notin> smt_keys t"
  shows "smt_entries_sorted (smt_insert b t n e) =
    takeWhile (\<lambda>y. fst y < n) (smt_entries_sorted t) @ (n, e) #
    dropWhile (\<lambda>y. fst y < n) (smt_entries_sorted t)"
proof -
  have "unique_keys (smt_leaves t @ [(n, e)])"
    using assms by (auto simp: smt_wf_def unique_keys_def smt_keys_def)
  then show ?thesis
    using assms sort_key_fst_snoc [of "smt_leaves t" "(n, e)"]
    by (simp add: smt_insert_def smt_entries_sorted_def update_fresh smt_keys_def)
qed

lemma takeWhile_sorted_mem:
  fixes xs :: "('k::linorder \<times> 'v) list"
  assumes "sorted (map fst xs)" "x \<in> set xs" "fst x < n"
  shows "x \<in> set (takeWhile (\<lambda>y. fst y < n) xs)"
  using assms by (induction xs) auto

lemma smt_entries_sorted_cong:
  assumes "unique_keys (smt_leaves s)" "unique_keys (smt_leaves t)"
    and "smt_epoch_of s = smt_epoch_of t"
  shows "smt_entries_sorted s = smt_entries_sorted t"
  unfolding smt_entries_sorted_def
  using assms by (intro sort_key_fst_unique unique_keys_mset_eq) (auto simp: smt_epoch_of_def [abs_def])

section \<open>Properties\<close>

text \<open>C1. 
  Soundness of non-membership proofs: whatever sibling digests a prover supplies, a proof that
  \<open>verify_non_membership\<close> accepts against the root of a well-formed tree rules out every
  nullifier of the tree that has the same 32-bit path as the proof's key, so in particular the
  key itself is not in the tree.  Assumed of BLAKE3: no collision and no all-zero digest among
  the strings hashed by the tree and by the verifier.
\<close>

theorem smt_non_membership_sound:
  assumes "smt_wf blake3 t"
    and "hash_safe blake3 (set (subtree_preimages blake3 (smt_entries_sorted t) 0 SMT_DEPTH) \<union>
      set (climb_preimages blake3 (sp_key p) (sp_siblings p) [0..<SMT_DEPTH]))"
    and "\<forall>s\<in>set (sp_siblings p). length s = 32"
    and "smt_proof_verify_non_membership blake3 p (smt_root t)"
  shows "(\<forall>k\<in>smt_keys t. \<not> same_path k (sp_key p)) \<and> \<not> smt_contains t (sp_key p)"
proof -
  have "on_path (sp_key p) SMT_DEPTH (smt_entries_sorted t) = []"
    using assms
    by (intro climb_sound [of 0 blake3 "sp_key p" "smt_entries_sorted t" "sp_siblings p"])
      (auto simp: smt_proof_verify_non_membership_def smt_proof_verify_def smt_wf_def split: if_splits)
  then have "\<forall>k\<in>smt_keys t. \<not> same_path k (sp_key p)"
    by (simp add: on_path_depth_empty_iff)
  then show ?thesis
    by (auto simp: smt_contains_iff same_path_def prefix_matches_except_def)
qed

text \<open>
  A small function in place of BLAKE3 that has no collision on the tree of one leaf at the
  all-zero key: the digest counts the levels above the leaf.
\<close>

definition toy_hash :: "bytes \<Rightarrow> bytes" where
  "toy_hash bs = (1 + bs ! 17) # replicate 31 0"

definition toy_digest :: "nat \<Rightarrow> bytes" where
  "toy_digest d = word_of_nat (141 - d) # replicate 31 0"

definition toy_tree :: sparse_merkle_tree where
  "toy_tree = smt_insert toy_hash smt_new (replicate 32 0) 5"

lemma bit_at_zeros [simp]: "d < SMT_DEPTH \<Longrightarrow> \<not> bit_at (replicate 32 0) d"
  by (simp add: bit_at_def SMT_DEPTH_def Let_def)

lemma toy_digest_inject:
  "i \<le> 32 \<Longrightarrow> j \<le> 32 \<Longrightarrow> toy_digest i = toy_digest j \<longleftrightarrow> i = j"
  by (simp add: toy_digest_def word_of_nat_eq_iff take_bit_eq_mod)

lemma toy_digest_ne_EMPTY [simp]: "i \<le> 32 \<Longrightarrow> toy_digest i \<noteq> EMPTY_ROOT"
  proof -
  assume "i \<le> 32"
  then have "word_of_nat (141 - i) \<noteq> (0 :: u8)"
    by (simp add: word_of_nat_eq_0_iff nat_dvd_not_less del: of_nat_diff)
  then show ?thesis by (simp add: toy_digest_def EMPTY_ROOT_def Cons_replicate_eq)
qed

lemma toy_hash_internal:
  "i < 32 \<Longrightarrow> toy_hash (internal_preimage (toy_digest (Suc i)) r) = toy_digest i"
  by (simp add: toy_hash_def internal_preimage_def DOMAIN_SMT_ACTIVE_def nth_append toy_digest_def
      flip: of_nat_Suc)

lemma toy_hash_leaf: "toy_hash (leaf_preimage k e) = toy_digest 32"
  by (simp add: toy_hash_def leaf_preimage_def DOMAIN_SMT_ACTIVE_def nth_append toy_digest_def ascii_def)

lemma toy_subtree_root:
  "d \<le> SMT_DEPTH \<Longrightarrow> subtree_root toy_hash [(replicate 32 0, e)] d SMT_DEPTH = toy_digest d"
proof (induction d rule: inc_induct)
  case base
  then show ?case by (simp add: subtree_root_leaf hash_leaf_def toy_hash_leaf) (simp add: SMT_DEPTH_def)
next
  case (step d)
  then show ?case
    by (simp add: subtree_root_step subtree_node_def hash_internal_def SMT_DEPTH_def
        toy_hash_internal bit_at_zeros [unfolded SMT_DEPTH_def])
qed

lemma toy_subtree_preimages:
  "d \<le> SMT_DEPTH \<Longrightarrow> set (subtree_preimages toy_hash [(replicate 32 0, e)] d SMT_DEPTH) =
     insert (leaf_preimage (replicate 32 0) e)
       ((\<lambda>i. internal_preimage (toy_digest (Suc i)) EMPTY_ROOT) ` {d..<SMT_DEPTH})"
proof (induction d rule: inc_induct)
  case base
  then show ?case by (simp add: subtree_preimages.simps)
next
  case (step d)
  then have "{d..<SMT_DEPTH} = insert d {Suc d..<SMT_DEPTH}" by auto
  with step show ?case
    by (simp add: subtree_preimages_step toy_subtree_root subtree_preimages.simps [of toy_hash "[]"]) blast
qed

lemma toy_hash_safe:
  "hash_safe toy_hash (insert (leaf_preimage k e)
     ((\<lambda>i. internal_preimage (toy_digest (Suc i)) EMPTY_ROOT) ` {0..<SMT_DEPTH}))"
  unfolding hash_safe_def
  by (auto simp: toy_hash_leaf toy_hash_internal SMT_DEPTH_def toy_digest_inject inj_on_def
      length_ascii) (simp_all add: toy_digest_def)

lemma smt_climb_empty:
  "\<forall>d\<in>set ds. sibs ! d = EMPTY_ROOT \<Longrightarrow> smt_climb b key sibs ds EMPTY_ROOT = EMPTY_ROOT"
  by (induction ds) (auto simp: smt_climb_Cons smt_combine_def)

lemma climb_preimages_empty:
  "\<forall>d\<in>set ds. sibs ! d = EMPTY_ROOT \<Longrightarrow> climb_preimages b key sibs ds = []"
  by (induction ds) (auto simp: smt_climb_empty)

lemma toy_wf: "smt_wf toy_hash toy_tree"
  by (simp add: toy_tree_def)

lemma toy_entries: "smt_entries_sorted toy_tree = [(replicate 32 0, 5)]"
  by (simp add: toy_tree_def smt_insert_def smt_new_def smt_entries_sorted_def)

lemma toy_root: "smt_root toy_tree = toy_digest 0"
  using toy_wf by (simp add: smt_wf_def toy_entries toy_subtree_root)

lemma toy_keys: "smt_keys toy_tree = {replicate 32 0}"
  by (simp add: toy_tree_def)

definition toy_siblings :: "bytes list" where
  "toy_siblings = toy_digest 1 # replicate 31 EMPTY_ROOT"

lemma toy_upt: "[0..<SMT_DEPTH] = 0 # [1..<SMT_DEPTH]"
  by (simp add: SMT_DEPTH_def upt_conv_Cons)

lemma toy_rest: "\<forall>d\<in>set [1..<SMT_DEPTH]. toy_siblings ! d = EMPTY_ROOT"
  by (auto simp: SMT_DEPTH_def toy_siblings_def nth_Cons')

lemma toy_bit: "bit_at (128 # ks) 0"
  by (simp add: bit_at_def)

lemma toy_climb_safe:
  "hash_safe toy_hash
     (set (subtree_preimages toy_hash (smt_entries_sorted toy_tree) 0 SMT_DEPTH) \<union>
      set (climb_preimages toy_hash (128 # ks) toy_siblings [0..<SMT_DEPTH]))"
proof -
  have "set (climb_preimages toy_hash (128 # ks) toy_siblings [0..<SMT_DEPTH])
      \<subseteq> (\<lambda>i. internal_preimage (toy_digest (Suc i)) EMPTY_ROOT) ` {0..<SMT_DEPTH}"
    unfolding toy_upt climb_preimages.simps climb_preimages_empty [OF toy_rest] smt_climb_empty [OF toy_rest]
    by (simp add: Let_def toy_bit toy_siblings_def) (rule image_eqI [where x = 0]; simp add: SMT_DEPTH_def)
  then show ?thesis
    by (intro hash_safe_mono [OF toy_hash_safe [of "replicate 32 0" 5]])
      (auto simp: toy_entries toy_subtree_preimages)
qed

theorem smt_non_membership_sound_witness:
  "\<not> smt_contains toy_tree (128 # replicate 31 0)"
proof -
  let ?p = "\<lparr>sp_siblings = toy_siblings, sp_is_member = False, sp_key = 128 # replicate 31 0\<rparr>"
  have "smt_climb toy_hash (128 # replicate 31 0) toy_siblings [0..<SMT_DEPTH] EMPTY_ROOT = toy_digest 0"
    using toy_hash_internal [of 0]
    by (simp add: toy_upt smt_climb_Cons smt_climb_empty [OF toy_rest] smt_combine_def toy_bit
        hash_internal_def) (simp add: toy_siblings_def)
  then have ok: "smt_proof_verify_non_membership toy_hash ?p (smt_root toy_tree)"
    by (simp add: toy_root smt_proof_verify_non_membership_def smt_proof_verify_def)
      (simp add: SMT_DEPTH_def toy_siblings_def)
  have len: "\<forall>s\<in>set (sp_siblings ?p). length s = 32"
    by (simp add: toy_siblings_def toy_digest_def)
  from smt_non_membership_sound [of toy_hash toy_tree ?p, OF toy_wf _ len ok] show ?thesis
    by (simp add: toy_climb_safe)
qed

text \<open>
  Exactness of the tree's own check: on a well-formed tree, \<open>verify_non_membership\<close> accepts a
  nullifier exactly when no nullifier of the tree has the same first 32 bits.  It never accepts
  a nullifier that is present, and it rejects an absent one only when a present one shares its
  32-bit path.
\<close>

theorem smt_verify_non_membership_iff:
  assumes "smt_wf blake3 t" "\<forall>x. length (blake3 x) = 32"
    and "hash_safe blake3 (set (subtree_preimages blake3 (smt_entries_sorted t) 0 SMT_DEPTH) \<union>
      set (climb_preimages blake3 n (smt_compute_siblings blake3 t n) [0..<SMT_DEPTH]))"
  shows "smt_verify_non_membership blake3 t n \<longleftrightarrow> (\<forall>k\<in>smt_keys t. \<not> same_path k n)"
proof
  assume ok: "smt_verify_non_membership blake3 t n"
  have root_len: "length (subtree_root blake3 ls d m) = 32" for ls d m
    using assms(2)
    by (induction blake3 ls d m rule: subtree_root.induct)
      (auto simp: subtree_root.simps Let_def hash_leaf_def hash_internal_def)
  have "\<forall>s\<in>set (smt_compute_siblings blake3 t n). length s = 32"
    by (simp add: smt_compute_siblings_def smt_sibling_def Let_def root_len)
  then have "on_path n SMT_DEPTH (smt_entries_sorted t) = []"
    using assms(1,3) ok
    by (intro climb_sound [of 0 blake3 n "smt_entries_sorted t" "smt_compute_siblings blake3 t n"])
      (auto simp: smt_verify_non_membership_def smt_proof_verify_non_membership_def
        smt_proof_verify_def smt_generate_proof_def smt_wf_def split: if_splits)
  then show "\<forall>k\<in>smt_keys t. \<not> same_path k n" by (simp add: on_path_depth_empty_iff)
qed (rule smt_verify_non_membership_complete [OF assms(1)])

lemma toy_compute_siblings: "smt_compute_siblings toy_hash toy_tree (128 # replicate 31 0) = toy_siblings"
proof -
  let ?n = "128 # replicate 31 0 :: bytes"
  have one: "on_path ?n (Suc 0) [(replicate 32 0, 5)] = []"
    using bit_at_zeros [of 0] toy_bit [of "replicate 31 0"] by (simp add: on_path_Suc SMT_DEPTH_def)
  have sib: "smt_sibling toy_hash [(replicate 32 0, 5)] ?n d =
    (if d = 0 then toy_digest 1 else EMPTY_ROOT)" for d
    using on_path_mono [OF one, of d] bit_at_zeros [of 0] toy_bit [of "replicate 31 0"]
      toy_subtree_root [of 1 5]
    by (cases d) (simp_all add: smt_sibling_alt SMT_DEPTH_def)
  show ?thesis
    by (rule nth_equalityI)
      (auto simp: smt_compute_siblings_def toy_entries toy_siblings_def sib nth_Cons' SMT_DEPTH_def)
qed

theorem smt_verify_non_membership_iff_witness:
  "smt_verify_non_membership toy_hash toy_tree (128 # replicate 31 0)"
proof -
  have "\<forall>x. length (toy_hash x) = 32" by (simp add: toy_hash_def)
  moreover have "\<not> same_path (replicate 32 0) (128 # replicate 31 0)"
    using bit_at_zeros [of 0] toy_bit [of "replicate 31 0"]
    by (auto simp: same_path_def prefix_matches_except_def SMT_DEPTH_def)
  ultimately show ?thesis
    using smt_verify_non_membership_iff [OF toy_wf, of "128 # replicate 31 0"] toy_climb_safe
    by (simp add: toy_compute_siblings toy_keys)
qed

text \<open>
  The root does not commit to every leaf.  If a nullifier is inserted whose first 32 bits are
  those of a smaller nullifier already in the tree, the leaf table gains it but the root stays
  what it was: only the first leaf of a 32-bit path is hashed.
\<close>

theorem smt_insert_shadowed_root_unchanged:
  assumes "smt_wf blake3 t" "k \<in> smt_keys t" "n \<notin> smt_keys t" "same_path k n" "k < n"
  shows "smt_root (smt_insert blake3 t n e) = smt_root t \<and>
    smt_contains (smt_insert blake3 t n e) n"
proof -
  obtain e' where k: "(k, e') \<in> set (smt_entries_sorted t)"
    using assms(2) by (auto simp: smt_keys_def smt_entries_sorted_def)
  have "sorted (map fst (smt_entries_sorted t))" by (simp add: smt_entries_sorted_def)
  then have mem: "(k, e') \<in> set (takeWhile (\<lambda>y. fst y < n) (smt_entries_sorted t))"
    using k assms(5) by (auto intro: takeWhile_sorted_mem)
  have "\<forall>i\<in>{0..<SMT_DEPTH}. bit_at k i = bit_at n i"
    using assms(4) by (simp add: same_path_def prefix_matches_except_def)
  from subtree_root_shadowed [OF mem this]
  have "subtree_root blake3 (smt_entries_sorted (smt_insert blake3 t n e)) 0 SMT_DEPTH =
    subtree_root blake3 (smt_entries_sorted t) 0 SMT_DEPTH"
    unfolding smt_entries_sorted_insert_fresh [OF assms(1,3)] by simp
  then show ?thesis
    using assms(1) smt_wf_insert [OF assms(1), of n e]
    by (simp add: smt_wf_def [of _ t] smt_wf_def [of _ "smt_insert blake3 t n e"] smt_contains_iff)
qed

theorem smt_insert_shadowed_root_unchanged_witness:
  "smt_root (smt_insert toy_hash toy_tree (replicate 31 0 @ [1]) 6) = smt_root toy_tree"
proof -
  have "same_path (replicate 32 0) (replicate 31 0 @ [1])"
    by (auto simp: same_path_def prefix_matches_except_def bit_at_def SMT_DEPTH_def nth_append Let_def)
  moreover have "replicate 32 (0::u8) < replicate 31 0 @ [1]"
    by (simp add: numeral_eq_Suc)
  ultimately show ?thesis
    using smt_insert_shadowed_root_unchanged [OF toy_wf, of "replicate 32 0" "replicate 31 0 @ [1]" 6]
    by (auto simp: toy_keys)
qed

text \<open>
  Determinism of the root: two nodes whose trees hold the same nullifiers with the same epochs
  have the same root, whatever the order of the insertions and removals that led there and
  whatever the iteration order of their hash maps.
\<close>

theorem smt_root_deterministic:
  assumes "smt_wf blake3 s" "smt_wf blake3 t" "\<forall>n. smt_epoch_of s n = smt_epoch_of t n"
  shows "smt_root s = smt_root t"
proof -
  have "smt_entries_sorted s = smt_entries_sorted t"
    using assms by (intro smt_entries_sorted_cong) (auto simp: smt_wf_def fun_eq_iff)
  with assms show ?thesis by (simp add: smt_wf_def)
qed

theorem smt_root_deterministic_witness:
  "smt_root (smt_insert toy_hash (smt_insert toy_hash smt_new (replicate 32 1) 7) (replicate 32 2) 8) =
   smt_root (smt_remove toy_hash (smt_insert toy_hash (smt_insert toy_hash (smt_insert toy_hash
     smt_new (replicate 32 2) 8) (replicate 32 3) 9) (replicate 32 1) 7) (replicate 32 3))"
proof (rule smt_root_deterministic [of toy_hash])
  show "\<forall>n. smt_epoch_of (smt_insert toy_hash (smt_insert toy_hash smt_new (replicate 32 1) 7)
      (replicate 32 2) 8) n = smt_epoch_of (smt_remove toy_hash (smt_insert toy_hash (smt_insert
      toy_hash (smt_insert toy_hash smt_new (replicate 32 2) 8) (replicate 32 3) 9)
      (replicate 32 1) 7) (replicate 32 3)) n"
    by (simp add: smt_epoch_of_def smt_insert_def smt_remove_def smt_new_def)
qed simp_all

end
