(* ===== verification/Nullifier_Set.thy ===== *)
theory Nullifier_Set
  imports Nullifier_SMT
begin

text \<open>
  The two-layer nullifier set of \<open>core/scalar-nullifier/src/nullifier_set.rs\<close> and the runtime
  assertions of \<open>formal.rs\<close>: the active sparse Merkle tree, the archive of older nullifiers,
  the write-ahead log behind the \<open>WalBackend\<close> trait, and the checkpoint that moves nullifiers
  from the first layer to the second.  The trait object is a value of \<open>wal_vtable\<close> (its three
  methods) together with the backend's own state.
\<close>

section \<open>Constants, errors, write-ahead log\<close>

definition CHECKPOINT_INTERVAL_EPOCHS :: u64 where
  "CHECKPOINT_INTERVAL_EPOCHS = - 1"

definition NS_ACTIVE_WINDOW_EPOCHS :: u64 where
  "NS_ACTIVE_WINDOW_EPOCHS = 3"

datatype checkpoint_error = ProofGenerationFailed | ProofVerificationFailed | WalWriteFailed

datatype wal_status = WS_Preparing | WS_Committed

record wal_entry =
  we_epoch :: u64
  we_status :: wal_status
  we_nullifiers_to_archive :: "bytes list"

record 'w wal_vtable =
  wv_write :: "'w \<Rightarrow> wal_entry \<Rightarrow> 'w \<times> (checkpoint_error + unit)"
  wv_commit :: "'w \<Rightarrow> u64 \<Rightarrow> 'w \<times> (checkpoint_error + unit)"
  wv_load_pending :: "'w \<Rightarrow> wal_entry option"

record in_memory_wal =
  imw_entry :: "wal_entry option"

definition imw_new :: in_memory_wal where
  "imw_new = \<lparr>imw_entry = None\<rparr>"

definition imw_write :: "in_memory_wal \<Rightarrow> wal_entry \<Rightarrow> in_memory_wal \<times> (checkpoint_error + unit)" where
  "imw_write w entry = (w\<lparr>imw_entry := Some entry\<rparr>, Inr ())"

definition imw_commit :: "in_memory_wal \<Rightarrow> u64 \<Rightarrow> in_memory_wal \<times> (checkpoint_error + unit)" where
  "imw_commit w epoch =
     (case imw_entry w of
        Some e \<Rightarrow>
          (if we_epoch e = epoch then w\<lparr>imw_entry := Some (e\<lparr>we_status := WS_Committed\<rparr>)\<rparr> else w)
      | None \<Rightarrow> w, Inr ())"

definition imw_load_pending :: "in_memory_wal \<Rightarrow> wal_entry option" where
  "imw_load_pending w =
     (case imw_entry w of
        Some e \<Rightarrow> if we_status e = WS_Preparing then Some e else None
      | None \<Rightarrow> None)"

definition in_memory_vtable :: "in_memory_wal wal_vtable" where
  "in_memory_vtable = \<lparr>wv_write = imw_write, wv_commit = imw_commit, wv_load_pending = imw_load_pending\<rparr>"

section \<open>Checkpoint state\<close>

record checkpoint_proof =
  cp_archived_smt_root :: bytes
  cp_smt_depth :: u8
  cp_from_epoch :: u64
  cp_to_epoch :: u64
  cp_total_archived_count :: u64

definition cp_genesis :: checkpoint_proof where
  "cp_genesis = \<lparr>cp_archived_smt_root = replicate 32 0, cp_smt_depth = 32, cp_from_epoch = 0,
     cp_to_epoch = 0, cp_total_archived_count = 0\<rparr>"

definition cp_is_valid :: "checkpoint_proof \<Rightarrow> bool" where
  "cp_is_valid p =
     (if cp_total_archived_count p = 0 then True else cp_archived_smt_root p \<noteq> replicate 32 0)"

section \<open>The nullifier set\<close>

record 'w nullifier_set =
  ns_active :: sparse_merkle_tree
  ns_active_since_epoch :: u64
  ns_checkpoint_proof :: checkpoint_proof
  ns_checkpoint_epoch :: u64
  ns_archived :: "bytes set"
  ns_wal :: 'w

definition ns_new_with_wal :: "'w \<Rightarrow> 'w nullifier_set" where
  "ns_new_with_wal wal = \<lparr>ns_active = smt_new, ns_active_since_epoch = 0,
     ns_checkpoint_proof = cp_genesis, ns_checkpoint_epoch = 0, ns_archived = {}, ns_wal = wal\<rparr>"

definition ns_new :: "in_memory_wal nullifier_set" where
  "ns_new = ns_new_with_wal imw_new"

definition ns_is_spent :: "'w nullifier_set \<Rightarrow> bytes \<Rightarrow> bool" where
  "ns_is_spent ns nullifier = (smt_contains (ns_active ns) nullifier \<or> nullifier \<in> ns_archived ns)"

definition ns_insert ::
  "(bytes \<Rightarrow> bytes) \<Rightarrow> 'w nullifier_set \<Rightarrow> bytes \<Rightarrow> u64 \<Rightarrow> 'w nullifier_set" where
  "ns_insert blake3 ns nullifier epoch_id =
     (if smt_contains (ns_active ns) nullifier \<or> nullifier \<in> ns_archived ns then ns
      else ns\<lparr>ns_active := smt_insert blake3 (ns_active ns) nullifier epoch_id\<rparr>)"

text \<open>
  The state changes of \<open>checkpoint\<close> between the two WAL calls, one by one: the loop of step
  4a, the assignments of step 4b, the loop of step 4c.
\<close>

datatype ckpt_op = ArchiveOne bytes | UpdateProof bytes u64 | RemoveActive bytes

fun ckpt_exec :: "(bytes \<Rightarrow> bytes) \<Rightarrow> 'w nullifier_set \<Rightarrow> ckpt_op \<Rightarrow> 'w nullifier_set" where
  "ckpt_exec blake3 ns (ArchiveOne n) = ns\<lparr>ns_archived := insert n (ns_archived ns)\<rparr>"
| "ckpt_exec blake3 ns (UpdateProof new_archived_root current_epoch) =
     ns\<lparr>ns_checkpoint_proof :=
          \<lparr>cp_archived_smt_root = new_archived_root, cp_smt_depth = 32,
           cp_from_epoch = ns_checkpoint_epoch ns, cp_to_epoch = current_epoch,
           cp_total_archived_count = of_nat (card (ns_archived ns))\<rparr>,
        ns_checkpoint_epoch := current_epoch,
        ns_active_since_epoch := current_epoch\<rparr>"
| "ckpt_exec blake3 ns (RemoveActive n) = ns\<lparr>ns_active := smt_remove blake3 (ns_active ns) n\<rparr>"

definition ckpt_ops :: "bytes list \<Rightarrow> bytes \<Rightarrow> u64 \<Rightarrow> ckpt_op list" where
  "ckpt_ops to_archive new_archived_root current_epoch =
     map ArchiveOne to_archive @ [UpdateProof new_archived_root current_epoch] @
     map RemoveActive to_archive"

definition ckpt_selection ::
  "(leaf list \<Rightarrow> leaf list) \<Rightarrow> 'w nullifier_set \<Rightarrow> u64 \<Rightarrow> bytes list" where
  "ckpt_selection iter ns current_epoch =
     sort (take MAX_NULLIFIERS_PER_CHECKPOINT
       (nullifiers_older_than iter (ns_active ns) current_epoch NS_ACTIVE_WINDOW_EPOCHS))"

definition ns_checkpoint ::
  "(leaf list \<Rightarrow> leaf list) \<Rightarrow> 'w wal_vtable \<Rightarrow> (bytes \<Rightarrow> bytes) \<Rightarrow> 'w nullifier_set \<Rightarrow> u64 \<Rightarrow>
   'w nullifier_set \<times> (checkpoint_error + nat)" where
  "ns_checkpoint iter vt blake3 ns current_epoch =
     (let to_archive = ckpt_selection iter ns current_epoch
      in if to_archive = [] then (ns, Inr 0)
         else
           let wal_entry = \<lparr>we_epoch = current_epoch, we_status = WS_Preparing,
                 we_nullifiers_to_archive = to_archive\<rparr>;
               (w1, r1) = wv_write vt (ns_wal ns) wal_entry;
               ns1 = ns\<lparr>ns_wal := w1\<rparr>
           in case r1 of
                Inl err \<Rightarrow> (ns1, Inl err)
              | Inr _ \<Rightarrow>
                  let new_archived_root = compute_archived_root blake3
                        (cp_archived_smt_root (ns_checkpoint_proof ns1)) to_archive;
                      ns2 = foldl (ckpt_exec blake3) ns1
                        (ckpt_ops to_archive new_archived_root current_epoch);
                      (w2, r2) = wv_commit vt (ns_wal ns2) current_epoch;
                      ns3 = ns2\<lparr>ns_wal := w2\<rparr>
                  in case r2 of
                       Inl err \<Rightarrow> (ns3, Inl err)
                     | Inr _ \<Rightarrow> (ns3, Inr (length to_archive)))"

definition ns_wal_pending :: "'w wal_vtable \<Rightarrow> 'w nullifier_set \<Rightarrow> wal_entry option" where
  "ns_wal_pending vt ns = wv_load_pending vt (ns_wal ns)"

definition ns_active_count :: "'w nullifier_set \<Rightarrow> nat" where
  "ns_active_count ns = smt_len (ns_active ns)"

definition ns_archived_count :: "'w nullifier_set \<Rightarrow> nat" where
  "ns_archived_count ns = card (ns_archived ns)"

section \<open>Runtime assertions\<close>

datatype non_membership_status = NonMember | Member

record cc_invariant_violation =
  ccv_nullifier :: bytes
  ccv_in_active :: bool
  ccv_in_checkpoint :: bool

definition assert_cc_invariant ::
  "bytes \<Rightarrow> bool \<Rightarrow> bool \<Rightarrow> cc_invariant_violation + non_membership_status" where
  "assert_cc_invariant nullifier in_active in_checkpoint =
     (if in_active \<or> in_checkpoint
      then Inl \<lparr>ccv_nullifier = nullifier, ccv_in_active = in_active,
                ccv_in_checkpoint = in_checkpoint\<rparr>
      else Inr NonMember)"

section \<open>Abstraction and invariant\<close>

text \<open>Abstractly the structure is one growing set of spent nullifiers.\<close>

definition ns_spent :: "'w nullifier_set \<Rightarrow> bytes set" where
  "ns_spent ns = smt_keys (ns_active ns) \<union> ns_archived ns"

definition ns_wf :: "(bytes \<Rightarrow> bytes) \<Rightarrow> 'w nullifier_set \<Rightarrow> bool" where
  "ns_wf blake3 ns \<longleftrightarrow>
     smt_wf blake3 (ns_active ns) \<and> finite (ns_archived ns) \<and>
     smt_keys (ns_active ns) \<inter> ns_archived ns = {} \<and>
     cp_total_archived_count (ns_checkpoint_proof ns) = of_nat (card (ns_archived ns)) \<and>
     cp_to_epoch (ns_checkpoint_proof ns) = ns_checkpoint_epoch ns"

lemma ns_is_spent_iff: "ns_is_spent ns n \<longleftrightarrow> n \<in> ns_spent ns"
  by (simp add: ns_is_spent_def ns_spent_def smt_contains_iff)

lemma ns_wf_new: "ns_wf blake3 (ns_new_with_wal w)"
  by (simp add: ns_wf_def ns_new_with_wal_def cp_genesis_def)

lemma ns_spent_new [simp]: "ns_spent (ns_new_with_wal w) = {}"
  by (simp add: ns_spent_def ns_new_with_wal_def)

lemma ns_wf_insert: "ns_wf blake3 ns \<Longrightarrow> ns_wf blake3 (ns_insert blake3 ns n e)"
  by (auto simp: ns_wf_def ns_insert_def smt_contains_iff)

lemma ns_spent_insert [simp]: "ns_spent (ns_insert blake3 ns n e) = insert n (ns_spent ns)"
  by (auto simp: ns_spent_def ns_insert_def smt_contains_iff)

lemma ckpt_exec_archive_all:
  "foldl (ckpt_exec blake3) ns (map ArchiveOne xs) = ns\<lparr>ns_archived := ns_archived ns \<union> set xs\<rparr>"
  by (induction xs arbitrary: ns) auto

definition smt_remove_all ::
  "(bytes \<Rightarrow> bytes) \<Rightarrow> sparse_merkle_tree \<Rightarrow> bytes list \<Rightarrow> sparse_merkle_tree" where
  "smt_remove_all blake3 t xs = foldl (smt_remove blake3) t xs"

lemma smt_keys_remove_all [simp]: "smt_keys (smt_remove_all b t xs) = smt_keys t - set xs"
  unfolding smt_remove_all_def by (induction xs arbitrary: t) auto

lemma smt_wf_remove_all [simp]: "smt_wf b t \<Longrightarrow> smt_wf b (smt_remove_all b t xs)"
  unfolding smt_remove_all_def by (induction xs arbitrary: t) auto

lemma smt_epoch_of_remove_all:
  "smt_epoch_of (smt_remove_all b t xs) n = (if n \<in> set xs then None else smt_epoch_of t n)"
  unfolding smt_remove_all_def
  by (induction xs arbitrary: t) (auto simp: smt_epoch_of_def smt_remove_def delete_conv')

lemma ckpt_exec_remove_all:
  "foldl (ckpt_exec blake3) ns (map RemoveActive xs) =
     ns\<lparr>ns_active := smt_remove_all blake3 (ns_active ns) xs\<rparr>"
  unfolding smt_remove_all_def by (induction xs arbitrary: ns) auto

lemma ckpt_ops_run:
  "foldl (ckpt_exec blake3) ns (ckpt_ops xs root e) =
     ns\<lparr>ns_archived := ns_archived ns \<union> set xs,
        ns_checkpoint_proof := \<lparr>cp_archived_smt_root = root, cp_smt_depth = 32,
           cp_from_epoch = ns_checkpoint_epoch ns, cp_to_epoch = e,
           cp_total_archived_count = of_nat (card (ns_archived ns \<union> set xs))\<rparr>,
        ns_checkpoint_epoch := e, ns_active_since_epoch := e,
        ns_active := smt_remove_all blake3 (ns_active ns) xs\<rparr>"
  by (simp add: ckpt_ops_def ckpt_exec_archive_all ckpt_exec_remove_all)

lemma set_nullifiers_older_than:
  "iteration_order iter \<Longrightarrow> set (nullifiers_older_than iter t c w) =
     {n. \<exists>e. (n, e) \<in> set (smt_leaves t) \<and> saturating_sub c e > w}"
  by (force simp: nullifiers_older_than_def iteration_order_set)

lemma set_ckpt_selection:
  "iteration_order iter \<Longrightarrow> set (ckpt_selection iter ns e) \<subseteq> smt_keys (ns_active ns)"
  by (force simp: ckpt_selection_def smt_keys_def set_nullifiers_older_than dest!: in_set_takeD)

text \<open>The final state of a checkpoint that got past the WAL write, whatever the commit says.\<close>

definition ckpt_moved ::
  "(bytes \<Rightarrow> bytes) \<Rightarrow> 'w nullifier_set \<Rightarrow> bytes list \<Rightarrow> u64 \<Rightarrow> 'w \<Rightarrow> 'w nullifier_set" where
  "ckpt_moved blake3 ns xs e w =
     ns\<lparr>ns_archived := ns_archived ns \<union> set xs,
        ns_checkpoint_proof := \<lparr>cp_archived_smt_root = compute_archived_root blake3
             (cp_archived_smt_root (ns_checkpoint_proof ns)) xs, cp_smt_depth = 32,
           cp_from_epoch = ns_checkpoint_epoch ns, cp_to_epoch = e,
           cp_total_archived_count = of_nat (card (ns_archived ns \<union> set xs))\<rparr>,
        ns_checkpoint_epoch := e, ns_active_since_epoch := e,
        ns_active := smt_remove_all blake3 (ns_active ns) xs,
        ns_wal := w\<rparr>"

definition ckpt_entry :: "bytes list \<Rightarrow> u64 \<Rightarrow> wal_entry" where
  "ckpt_entry xs e = \<lparr>we_epoch = e, we_status = WS_Preparing, we_nullifiers_to_archive = xs\<rparr>"

lemma ns_checkpoint_cases:
  assumes "ns_checkpoint iter vt blake3 ns e = (ns', r)"
  obtains (idle) "ckpt_selection iter ns e = []" "ns' = ns" "r = Inr 0"
  | (write_failed) w err where "ckpt_selection iter ns e \<noteq> []"
      "wv_write vt (ns_wal ns) (ckpt_entry (ckpt_selection iter ns e) e) = (w, Inl err)"
      "ns' = ns\<lparr>ns_wal := w\<rparr>" "r = Inl err"
  | (moved) w w' u c where "ckpt_selection iter ns e \<noteq> []"
      "wv_write vt (ns_wal ns) (ckpt_entry (ckpt_selection iter ns e) e) = (w, Inr u)"
      "wv_commit vt w e = (w', c)"
      "ns' = ckpt_moved blake3 ns (ckpt_selection iter ns e) e w'"
      "r = (case c of Inl err \<Rightarrow> Inl err | Inr _ \<Rightarrow> Inr (length (ckpt_selection iter ns e)))"
proof -
  obtain w r1 where w: "wv_write vt (ns_wal ns) (ckpt_entry (ckpt_selection iter ns e) e) = (w, r1)"
    by force
  obtain w' c where c: "wv_commit vt w e = (w', c)" by force
  show thesis
  proof (cases "ckpt_selection iter ns e = []")
    case True
    with assms have "ns' = ns" "r = Inr 0" by (simp_all add: ns_checkpoint_def)
    then show thesis using True idle by blast
  next
    case False
    note eqs = assms w c False
    show thesis
    proof (cases r1)
      case (Inl err)
      with eqs write_failed [of w err] show thesis
        by (simp add: ns_checkpoint_def Let_def ckpt_entry_def)
    next
      case (Inr u)
      with eqs moved [of w u w' c] show thesis
        by (simp add: ns_checkpoint_def Let_def ckpt_ops_run ckpt_moved_def ckpt_entry_def
            split: sum.splits)
    qed
  qed
qed

lemma ns_spent_moved:
  "set xs \<subseteq> smt_keys (ns_active ns) \<Longrightarrow> ns_spent (ckpt_moved b ns xs e w) = ns_spent ns"
  by (auto simp: ns_spent_def ckpt_moved_def)

lemma ns_wf_moved: "ns_wf b ns \<Longrightarrow> ns_wf b (ckpt_moved b ns xs e w)"
  by (auto simp: ns_wf_def ckpt_moved_def)

lemma ns_spent_wal [simp]: "ns_spent (ns\<lparr>ns_wal := w\<rparr>) = ns_spent ns"
  by (simp add: ns_spent_def)

lemma ns_wf_wal [simp]: "ns_wf b (ns\<lparr>ns_wal := w\<rparr>) \<longleftrightarrow> ns_wf b ns"
  by (simp add: ns_wf_def)

lemma ns_spent_checkpoint:
  assumes "iteration_order iter"
  shows "ns_spent (fst (ns_checkpoint iter vt blake3 ns e)) = ns_spent ns"
proof -
  obtain ns' r where c: "ns_checkpoint iter vt blake3 ns e = (ns', r)" by force
  then show ?thesis
    by (cases rule: ns_checkpoint_cases)
      (simp_all add: c ns_spent_moved set_ckpt_selection [OF assms])
qed

lemma ns_wf_checkpoint:
  assumes "ns_wf blake3 ns"
  shows "ns_wf blake3 (fst (ns_checkpoint iter vt blake3 ns e))"
proof -
  obtain ns' r where c: "ns_checkpoint iter vt blake3 ns e = (ns', r)" by force
  then show ?thesis
    using assms by (cases rule: ns_checkpoint_cases) (simp_all add: c ns_wf_moved)
qed

section \<open>The contract of a WAL backend\<close>

locale wal_backend =
  fixes vt :: "'w wal_vtable"
  assumes write_pending:
      "wv_write vt w e = (w', Inr u) \<Longrightarrow> we_status e = WS_Preparing \<Longrightarrow>
       wv_load_pending vt w' = Some e"
    and commit_clears:
      "wv_load_pending vt w = Some e \<Longrightarrow> wv_commit vt w (we_epoch e) = (w', Inr u) \<Longrightarrow>
       wv_load_pending vt w' = None"
    and commit_failure:
      "wv_commit vt w ep = (w', Inl err) \<Longrightarrow> wv_load_pending vt w' = wv_load_pending vt w"
begin

lemma pending_after_move:
  assumes "wv_write vt w0 (ckpt_entry xs e) = (w, Inr u)" "wv_commit vt w e = (w', c)"
  shows "wv_load_pending vt w' = (case c of Inl err \<Rightarrow> Some (ckpt_entry xs e) | Inr _ \<Rightarrow> None)"
proof -
  have p: "wv_load_pending vt w = Some (ckpt_entry xs e)"
    using write_pending [OF assms(1)] by (simp add: ckpt_entry_def)
  then show ?thesis
    using assms(2) commit_clears [OF p] commit_failure [of w e]
    by (auto simp: ckpt_entry_def split: sum.splits)
qed

end

interpretation imw: wal_backend in_memory_vtable
  by unfold_locales
    (auto simp: in_memory_vtable_def imw_write_def imw_commit_def imw_load_pending_def
      split: option.splits if_splits)

text \<open>The in-memory log never fails, so neither does a checkpoint that uses it.\<close>

lemma ns_checkpoint_in_memory:
  obtains ns' k where "ns_checkpoint iter in_memory_vtable blake3 ns e = (ns', Inr k)"
proof -
  obtain ns' r where c: "ns_checkpoint iter in_memory_vtable blake3 ns e = (ns', r)" by force
  moreover from this have "\<exists>k. r = Inr k"
    by (cases rule: ns_checkpoint_cases)
      (auto simp: in_memory_vtable_def imw_write_def imw_commit_def)
  ultimately show thesis using that by blast
qed

section \<open>Properties\<close>

text \<open>C3. 
  Zero gap.  Stop a checkpoint after any number of its individual state changes: every
  nullifier that was spent before is reported spent in that intermediate state, and no other
  one is.  So no reader can see a nullifier in neither layer.
\<close>

theorem checkpoint_zero_gap:
  assumes "iteration_order iter"
  shows "ns_is_spent (foldl (ckpt_exec blake3) ns
      (take i (ckpt_ops (ckpt_selection iter ns e) root e))) n \<longleftrightarrow> ns_is_spent ns n"
proof -
  let ?xs = "ckpt_selection iter ns e"
  have sub: "set ?xs \<subseteq> smt_keys (ns_active ns)" by (rule set_ckpt_selection [OF assms])
  consider "i \<le> length ?xs" | "i = Suc (length ?xs)" | j where "i = Suc (length ?xs) + Suc j"
    by (metis add_Suc_right le_add_diff_inverse less_eq_Suc_le not_less_eq_eq antisym less_iff_Suc_add)
  then show ?thesis
  proof cases
    case 1
    then have "take i (ckpt_ops ?xs root e) = map ArchiveOne (take i ?xs)"
      by (simp add: ckpt_ops_def take_map)
    with sub show ?thesis
      by (auto simp: ckpt_exec_archive_all ns_is_spent_def smt_contains_iff dest: in_set_takeD)
  next
    case 2
    with sub show ?thesis
      by (auto simp: ckpt_ops_def ckpt_exec_archive_all ns_is_spent_def smt_contains_iff)
  next
    case 3
    then have "take i (ckpt_ops ?xs root e) =
        map ArchiveOne ?xs @ [UpdateProof root e] @ map RemoveActive (take (Suc j) ?xs)"
      by (simp add: ckpt_ops_def take_map)
    with sub show ?thesis
      by (auto simp: ckpt_exec_archive_all ckpt_exec_remove_all ns_is_spent_def smt_contains_iff
          dest: in_set_takeD)
  qed
qed

theorem checkpoint_zero_gap_witness:
  "ns_is_spent (foldl (ckpt_exec toy_hash) (ns_insert toy_hash ns_new (replicate 32 0) 1)
     (take 1 (ckpt_ops (ckpt_selection (\<lambda>m. m) (ns_insert toy_hash ns_new (replicate 32 0) 1) 9)
       EMPTY_ROOT 9))) (replicate 32 0)"
  using checkpoint_zero_gap [of "\<lambda>m. m" toy_hash "ns_insert toy_hash ns_new (replicate 32 0) 1" 1 9 EMPTY_ROOT
      "replicate 32 0"]
  by (simp add: ns_is_spent_iff)

text \<open>C2. 
  Refinement: seen through \<open>ns_spent\<close>, the two layers are one set of spent nullifiers.  A new
  set is empty, \<open>is_spent\<close> decides membership, \<open>insert\<close> adds exactly its nullifier, and
  \<open>checkpoint\<close> changes nothing on any of its outcomes, success, WAL write failure or WAL commit
  failure, for any WAL backend.
\<close>

theorem nullifier_set_refines_set:
  assumes "iteration_order iter"
  shows "ns_spent (ns_new_with_wal w) = {} \<and>
    (ns_is_spent ns n \<longleftrightarrow> n \<in> ns_spent ns) \<and>
    ns_spent (ns_insert blake3 ns n e) = insert n (ns_spent ns) \<and>
    ns_spent (fst (ns_checkpoint iter vt blake3 ns e)) = ns_spent ns"
  using ns_spent_checkpoint [OF assms] by (simp add: ns_is_spent_iff)

theorem nullifier_set_refines_set_witness:
  "ns_spent (fst (ns_checkpoint rev in_memory_vtable toy_hash
     (ns_insert toy_hash ns_new (replicate 32 7) 1) 9)) = {replicate 32 7}"
  using nullifier_set_refines_set [of rev imw_new
      "ns_insert toy_hash ns_new (replicate 32 7) 1" EMPTY_ROOT toy_hash 9 in_memory_vtable]
  by (simp add: ns_new_def)

text \<open>
  Outcomes of a checkpoint over any WAL backend that meets the contract.  Success with a
  non-zero count means that exactly that many nullifiers moved to the archive and no log entry
  is pending; an error means either that the log write failed and no layer changed, or that the
  commit failed after the whole move and the entry naming the moved nullifiers is still pending
  for recovery.
\<close>

theorem checkpoint_outcomes:
  assumes "wal_backend vt" "ns_wf blake3 ns" "iteration_order iter"
    and "ns_checkpoint iter vt blake3 ns e = (ns', r)" "r \<noteq> Inr 0"
  defines "sel \<equiv> ckpt_selection iter ns e"
  shows "(\<exists>err. r = Inl err \<and> ns' = ns\<lparr>ns_wal := ns_wal ns'\<rparr>) \<or>
    ns_archived ns' = ns_archived ns \<union> set sel \<and>
    smt_keys (ns_active ns') = smt_keys (ns_active ns) - set sel \<and>
    (r = Inr (card (set sel)) \<and> ns_wal_pending vt ns' = None \<or>
     (\<exists>err. r = Inl err) \<and> ns_wal_pending vt ns' = Some (ckpt_entry sel e))"
  using assms(4)
proof (cases rule: ns_checkpoint_cases)
  case (moved w w' u c)
  have "distinct (map fst (iter (smt_leaves (ns_active ns))))"
  proof -
    have "mset (map fst (iter (smt_leaves (ns_active ns)))) = mset (map fst (smt_leaves (ns_active ns)))"
      using assms(3) by (simp add: iteration_order_def)
    then show ?thesis
      using assms(2) by (metis mset_eq_imp_distinct_iff ns_wf_def smt_wf_def unique_keys_def)
  qed
  then have "distinct (nullifiers_older_than iter (ns_active ns) e NS_ACTIVE_WINDOW_EPOCHS)"
    by (simp add: nullifiers_older_than_def distinct_map_filter)
  then have "distinct sel" by (simp add: sel_def ckpt_selection_def distinct_take)
  then have "card (set sel) = length sel" by (rule distinct_card)
  moreover have "wv_load_pending vt w' = (case c of Inl err \<Rightarrow> Some (ckpt_entry sel e) | Inr _ \<Rightarrow> None)"
    unfolding sel_def by (rule wal_backend.pending_after_move [OF assms(1) moved(2,3)])
  ultimately show ?thesis
    using moved by (simp add: sel_def [symmetric] ckpt_moved_def ns_wal_pending_def split: sum.splits)
qed (use assms(5) in auto)

theorem checkpoint_outcomes_witness:
  "snd (ns_checkpoint rev in_memory_vtable toy_hash (ns_insert toy_hash ns_new (replicate 32 7) 1) 9)
     = Inr 1"
proof -
  let ?ns = "ns_insert toy_hash ns_new (replicate 32 7) 1"
  obtain ns' r where c: "ns_checkpoint rev in_memory_vtable toy_hash ?ns 9 = (ns', r)" by force
  have sel: "ckpt_selection rev ?ns 9 = [replicate 32 7]"
    by (simp add: ckpt_selection_def nullifiers_older_than_def ns_insert_def ns_new_def
        ns_new_with_wal_def smt_insert_def smt_new_def smt_contains_def saturating_sub_def
        NS_ACTIVE_WINDOW_EPOCHS_def MAX_NULLIFIERS_PER_CHECKPOINT_def)
  have r: "r = Inr 1" using c
    by (simp add: ns_checkpoint_def sel in_memory_vtable_def imw_write_def imw_commit_def Let_def)
  have "ns_wf toy_hash ?ns" by (simp add: ns_wf_insert ns_new_def ns_wf_new)
  from checkpoint_outcomes [OF imw.wal_backend_axioms this iteration_order_rev c] r
  show ?thesis by (simp add: c)
qed

text \<open>
  Completeness and window: when no more than \<open>MAX_NULLIFIERS_PER_CHECKPOINT\<close> nullifiers are
  eligible, a checkpoint that does not fail leaves in the active layer only nullifiers whose
  age is within the window of three epochs, and every nullifier it moved was older than that.
\<close>

theorem checkpoint_window:
  assumes "iteration_order iter" "ns_wf blake3 ns"
    and "length (nullifiers_older_than iter (ns_active ns) e NS_ACTIVE_WINDOW_EPOCHS)
      \<le> MAX_NULLIFIERS_PER_CHECKPOINT"
    and "ns_checkpoint iter vt blake3 ns e = (ns', Inr k)"
  shows "(\<forall>n ep. smt_epoch_of (ns_active ns') n = Some ep \<longrightarrow>
            unat e - unat ep \<le> 3 \<and> smt_epoch_of (ns_active ns) n = Some ep) \<and>
    (\<forall>n\<in>ns_archived ns' - ns_archived ns.
       \<exists>ep. smt_epoch_of (ns_active ns) n = Some ep \<and> unat e - unat ep > 3)"
proof -
  have uk: "unique_keys (smt_leaves (ns_active ns))"
    using assms(2) by (simp add: ns_wf_def smt_wf_def)
  have age: "saturating_sub e ep > NS_ACTIVE_WINDOW_EPOCHS \<longleftrightarrow> unat e - unat ep > 3" for ep
    by (simp add: NS_ACTIVE_WINDOW_EPOCHS_def word_less_nat_alt unat_saturating_sub)
  have sel: "set (ckpt_selection iter ns e) =
      {n. \<exists>ep. smt_epoch_of (ns_active ns) n = Some ep \<and> unat e - unat ep > 3}"
    using assms(3) uk
    by (simp add: ckpt_selection_def set_nullifiers_older_than [OF assms(1)] age smt_epoch_of_def
        unique_keys_def map_of_eq_Some_iff)
  from assms(4) show ?thesis
  proof (cases rule: ns_checkpoint_cases)
    case idle
    then show ?thesis using sel by (auto simp: not_less)
  next
    case (moved w w' u c)
    then show ?thesis
      using sel by (auto simp: ckpt_moved_def smt_epoch_of_remove_all not_less split: if_splits)
  qed simp
qed

theorem checkpoint_window_witness:
  "smt_epoch_of (ns_active (fst (ns_checkpoint rev in_memory_vtable toy_hash
      (ns_insert toy_hash ns_new (replicate 32 7) 1) 9))) (replicate 32 7) = None"
proof -
  let ?ns = "ns_insert toy_hash ns_new (replicate 32 7) 1"
  have wf: "ns_wf toy_hash ?ns" by (simp add: ns_wf_insert ns_new_def ns_wf_new)
  have len: "length (nullifiers_older_than rev (ns_active ?ns) 9 NS_ACTIVE_WINDOW_EPOCHS)
      \<le> MAX_NULLIFIERS_PER_CHECKPOINT"
    by (simp add: nullifiers_older_than_def ns_insert_def ns_new_def ns_new_with_wal_def
        smt_insert_def smt_new_def smt_contains_def MAX_NULLIFIERS_PER_CHECKPOINT_def)
  obtain ns' k where c: "ns_checkpoint rev in_memory_vtable toy_hash ?ns 9 = (ns', Inr k)"
    by (rule ns_checkpoint_in_memory)
  have old: "smt_epoch_of (ns_active ?ns) (replicate 32 7) = Some 1"
    by (simp add: ns_insert_def ns_new_def ns_new_with_wal_def smt_contains_iff smt_epoch_of_insert)
  from checkpoint_window [OF iteration_order_rev wf len c]
  have "smt_epoch_of (ns_active ns') (replicate 32 7) \<noteq> Some ep" if "unat ep < 6" for ep
    using that by fastforce
  moreover from checkpoint_window [OF iteration_order_rev wf len c] old
  have "ep = 1" if "smt_epoch_of (ns_active ns') (replicate 32 7) = Some ep" for ep
    using that by fastforce
  ultimately have "smt_epoch_of (ns_active ns') (replicate 32 7) = None"
    by (cases "smt_epoch_of (ns_active ns') (replicate 32 7)") force+
  then show ?thesis by (simp add: c)
qed

text \<open>
  Determinism: as long as at most \<open>MAX_NULLIFIERS_PER_CHECKPOINT\<close> nullifiers are eligible, the
  result of a checkpoint, its new state with both roots included, does not depend on the order
  in which the hash map of leaves is iterated.
\<close>

theorem checkpoint_order_independent:
  assumes "iteration_order iter" "iteration_order iter'"
    and "length (nullifiers_older_than iter (ns_active ns) e NS_ACTIVE_WINDOW_EPOCHS)
      \<le> MAX_NULLIFIERS_PER_CHECKPOINT"
  shows "ns_checkpoint iter vt blake3 ns e = ns_checkpoint iter' vt blake3 ns e"
proof -
  let ?old = "\<lambda>it. nullifiers_older_than it (ns_active ns) e NS_ACTIVE_WINDOW_EPOCHS"
  have m: "mset (?old iter) = mset (?old iter')"
    using assms(1,2) by (simp add: nullifiers_older_than_def iteration_order_def)
  then have "length (?old iter') = length (?old iter)" by (metis size_mset)
  with assms(3) m have "ckpt_selection iter ns e = ckpt_selection iter' ns e"
    by (simp add: ckpt_selection_def flip: sorted_list_of_multiset_mset)
  then show ?thesis by (simp add: ns_checkpoint_def)
qed

theorem checkpoint_order_independent_witness:
  "ns_checkpoint (\<lambda>m. m) in_memory_vtable toy_hash
     (ns_insert toy_hash (ns_insert toy_hash ns_new (replicate 32 7) 1) (replicate 32 8) 2) 9 =
   ns_checkpoint rev in_memory_vtable toy_hash
     (ns_insert toy_hash (ns_insert toy_hash ns_new (replicate 32 7) 1) (replicate 32 8) 2) 9"
  by (rule checkpoint_order_independent)
    (simp_all add: nullifiers_older_than_def ns_insert_def ns_new_def ns_new_with_wal_def
        smt_insert_def smt_new_def smt_contains_def MAX_NULLIFIERS_PER_CHECKPOINT_def)

lemma take_rev_hd_notin:
  assumes "distinct xs" "k < length xs" "xs = x # ys"
  shows "x \<notin> set (take k (rev xs))"
proof
  assume "x \<in> set (take k (rev xs))"
  moreover have "rev xs = rev ys @ [x]" using assms(3) by simp
  moreover have "take k (rev ys @ [x]) = take k (rev ys)" using assms(2,3) by simp
  ultimately have "x \<in> set ys" by (auto dest: in_set_takeD)
  with assms(1,3) show False by simp
qed

text \<open>
  Beyond that bound determinism is lost: if more than \<open>MAX_NULLIFIERS_PER_CHECKPOINT\<close>
  nullifiers are eligible, the cut is made in hash-map order before the sort, and there are two
  iteration orders under which the same node state archives different nullifiers.
\<close>

theorem checkpoint_order_dependent:
  assumes "ns_wf blake3 ns"
    and "length (nullifiers_older_than (\<lambda>m. m) (ns_active ns) e NS_ACTIVE_WINDOW_EPOCHS)
      > MAX_NULLIFIERS_PER_CHECKPOINT"
  shows "\<exists>iter iter'. iteration_order iter \<and> iteration_order iter' \<and>
    ns_archived (fst (ns_checkpoint iter in_memory_vtable blake3 ns e)) \<noteq>
    ns_archived (fst (ns_checkpoint iter' in_memory_vtable blake3 ns e))"
proof -
  let ?P = "\<lambda>(_, ep). saturating_sub e ep > NS_ACTIVE_WINDOW_EPOCHS"
  define old where "old = map fst (filter ?P (smt_leaves (ns_active ns)))"
  have long: "length old > MAX_NULLIFIERS_PER_CHECKPOINT"
    using assms(2) by (simp add: old_def nullifiers_older_than_def)
  have pos: "MAX_NULLIFIERS_PER_CHECKPOINT \<noteq> 0" by (simp add: MAX_NULLIFIERS_PER_CHECKPOINT_def)
  obtain x xs where x: "old = x # xs" using long by (cases old) auto
  have dist: "distinct old"
    using assms(1) by (auto simp: old_def ns_wf_def smt_wf_def unique_keys_def distinct_map_filter)
  have "x \<in> set old" using x by simp
  then have "x \<in> smt_keys (ns_active ns)" by (auto simp: old_def smt_keys_def)
  then have fresh: "x \<notin> ns_archived ns" using assms(1) by (auto simp: ns_wf_def)
  have sel: "ckpt_selection (\<lambda>m. m) ns e = sort (take MAX_NULLIFIERS_PER_CHECKPOINT old)"
      "ckpt_selection rev ns e = sort (take MAX_NULLIFIERS_PER_CHECKPOINT (rev old))"
    by (simp_all add: ckpt_selection_def nullifiers_older_than_def old_def rev_map rev_filter)
  have arch: "ns_archived (fst (ns_checkpoint it in_memory_vtable blake3 ns e)) =
      ns_archived ns \<union> set (ckpt_selection it ns e)" for it
  proof -
    obtain ns' r where c: "ns_checkpoint it in_memory_vtable blake3 ns e = (ns', r)" by force
    then have "ns_archived ns' = ns_archived ns \<union> set (ckpt_selection it ns e)"
      by (cases rule: ns_checkpoint_cases)
        (auto simp: ckpt_moved_def in_memory_vtable_def imw_write_def)
    with c show ?thesis by simp
  qed
  have "x \<in> set (ckpt_selection (\<lambda>m. m) ns e)"
    using x pos by (simp add: sel take_Cons' set_insort_key)
  moreover have "x \<notin> set (ckpt_selection rev ns e)"
    using take_rev_hd_notin [OF dist long x] by (simp add: sel)
  ultimately have "ns_archived (fst (ns_checkpoint (\<lambda>m. m) in_memory_vtable blake3 ns e)) \<noteq>
      ns_archived (fst (ns_checkpoint rev in_memory_vtable blake3 ns e))"
    using fresh by (auto simp: arch)
  then show ?thesis using iteration_order_id iteration_order_rev by blast
qed

definition many_leaves :: "leaf list" where
  "many_leaves = map (\<lambda>i. (le_bytes 8 (word_of_nat i :: u64) @ replicate 24 0, 0)) [0..<200001]"

lemma many_leaves_unique: "unique_keys many_leaves"
proof -
  have "inj_on (\<lambda>i. word_of_nat i :: u64) {0..<200001}"
    by (auto simp: inj_on_def word_of_nat_eq_iff take_bit_nat_eq_self)
  then show ?thesis
    by (auto simp: unique_keys_def many_leaves_def distinct_map comp_def inj_on_def
        le_bytes_inject dest: inj_onD)
qed

theorem checkpoint_order_dependent_witness:
  "\<exists>iter iter'. iteration_order iter \<and> iteration_order iter' \<and>
     ns_archived (fst (ns_checkpoint iter in_memory_vtable toy_hash
       (ns_new\<lparr>ns_active := smt_recompute_root toy_hash (smt_new\<lparr>smt_leaves := many_leaves\<rparr>)\<rparr>) 9)) \<noteq>
     ns_archived (fst (ns_checkpoint iter' in_memory_vtable toy_hash
       (ns_new\<lparr>ns_active := smt_recompute_root toy_hash (smt_new\<lparr>smt_leaves := many_leaves\<rparr>)\<rparr>) 9))"
proof (rule checkpoint_order_dependent)
  show "ns_wf toy_hash
      (ns_new\<lparr>ns_active := smt_recompute_root toy_hash (smt_new\<lparr>smt_leaves := many_leaves\<rparr>)\<rparr>)"
    by (simp add: ns_wf_def ns_new_def ns_new_with_wal_def cp_genesis_def smt_wf_def many_leaves_unique)
  have "filter (\<lambda>(_, ep). saturating_sub 9 ep > NS_ACTIVE_WINDOW_EPOCHS) many_leaves = many_leaves"
    by (auto simp: many_leaves_def saturating_sub_def NS_ACTIVE_WINDOW_EPOCHS_def intro!: filter_True)
  then show "MAX_NULLIFIERS_PER_CHECKPOINT < length (nullifiers_older_than (\<lambda>m. m)
      (ns_active (ns_new\<lparr>ns_active := smt_recompute_root toy_hash (smt_new\<lparr>smt_leaves := many_leaves\<rparr>)\<rparr>))
      9 NS_ACTIVE_WINDOW_EPOCHS)"
    by (simp add: nullifiers_older_than_def many_leaves_def MAX_NULLIFIERS_PER_CHECKPOINT_def)
qed

end
