(* ===== verification/Checkpoint_WAL.thy ===== *)
theory Checkpoint_WAL
  imports Prelude
begin

text \<open>
  The three-phase checkpoint log of \<open>core/scalar-node/src/wal.rs\<close>: \<open>prepare\<close>, \<open>inserted\<close>,
  \<open>commit\<close> over a table of entries keyed by checkpoint id, and the queries on it.  Every call
  returns the new table with either a \<open>WalResult\<close> or a \<open>WalError\<close>.
\<close>

section \<open>Data\<close>

datatype wal_phase = Preparing | Inserted | Committed

record checkpoint_snapshot =
  cs_epoch_id :: u64
  cs_imt_frontier_root :: bytes
  cs_imt_count :: u64
  cs_utxo_set_root :: bytes
  cs_nullifier_active_root :: bytes
  cs_nullifier_archived_root :: bytes
  cs_total_supply_sscl :: u64

record checkpoint_wal_entry =
  cwe_checkpoint_id :: u64
  cwe_phase :: wal_phase
  cwe_snapshot :: checkpoint_snapshot
  cwe_written_at_ms :: u64
  cwe_smt_root :: bytes
  cwe_smt_data_path :: string

datatype wal_result = Applied | AlreadyInState

datatype wal_error =
    MissingPrepare u64
  | InvalidTransition u64 wal_phase wal_phase

record checkpoint_wal =
  cw_entries :: "(u64 \<times> checkpoint_wal_entry) list"

section \<open>Operations\<close>

definition wal_new :: checkpoint_wal where
  "wal_new = \<lparr>cw_entries = []\<rparr>"

definition wal_put :: "checkpoint_wal \<Rightarrow> u64 \<Rightarrow> checkpoint_wal_entry \<Rightarrow> checkpoint_wal" where
  "wal_put w checkpoint_id entry = w\<lparr>cw_entries := AList.update checkpoint_id entry (cw_entries w)\<rparr>"

definition wal_get :: "checkpoint_wal \<Rightarrow> u64 \<Rightarrow> checkpoint_wal_entry option" where
  "wal_get w checkpoint_id = map_of (cw_entries w) checkpoint_id"

definition wal_prepare ::
  "checkpoint_wal \<Rightarrow> u64 \<Rightarrow> checkpoint_snapshot \<Rightarrow> u64 \<Rightarrow> checkpoint_wal \<times> (wal_error + wal_result)" where
  "wal_prepare w checkpoint_id snapshot now_ms =
     (case wal_get w checkpoint_id of
        Some existing \<Rightarrow>
          (w, case cwe_phase existing of
                Preparing \<Rightarrow> Inr AlreadyInState
              | _ \<Rightarrow> Inl (InvalidTransition checkpoint_id (cwe_phase existing) Preparing))
      | None \<Rightarrow>
          (wal_put w checkpoint_id
             \<lparr>cwe_checkpoint_id = checkpoint_id, cwe_phase = Preparing, cwe_snapshot = snapshot,
              cwe_written_at_ms = now_ms, cwe_smt_root = replicate 32 0, cwe_smt_data_path = ''''\<rparr>,
           Inr Applied))"

definition wal_inserted ::
  "checkpoint_wal \<Rightarrow> u64 \<Rightarrow> bytes \<Rightarrow> string \<Rightarrow> u64 \<Rightarrow> checkpoint_wal \<times> (wal_error + wal_result)" where
  "wal_inserted w checkpoint_id smt_root smt_data_path now_ms =
     (case wal_get w checkpoint_id of
        None \<Rightarrow> (w, Inl (MissingPrepare checkpoint_id))
      | Some entry \<Rightarrow>
          (case cwe_phase entry of
             Inserted \<Rightarrow> (w, Inr AlreadyInState)
           | Committed \<Rightarrow> (w, Inl (InvalidTransition checkpoint_id Committed Inserted))
           | Preparing \<Rightarrow>
               (wal_put w checkpoint_id
                  (entry\<lparr>cwe_phase := Inserted, cwe_smt_root := smt_root,
                         cwe_smt_data_path := smt_data_path, cwe_written_at_ms := now_ms\<rparr>),
                Inr Applied)))"

definition wal_commit ::
  "checkpoint_wal \<Rightarrow> u64 \<Rightarrow> u64 \<Rightarrow> checkpoint_wal \<times> (wal_error + wal_result)" where
  "wal_commit w checkpoint_id now_ms =
     (case wal_get w checkpoint_id of
        None \<Rightarrow> (w, Inl (MissingPrepare checkpoint_id))
      | Some entry \<Rightarrow>
          (case cwe_phase entry of
             Committed \<Rightarrow> (w, Inr AlreadyInState)
           | Preparing \<Rightarrow> (w, Inl (InvalidTransition checkpoint_id Preparing Committed))
           | Inserted \<Rightarrow>
               (wal_put w checkpoint_id (entry\<lparr>cwe_phase := Committed, cwe_written_at_ms := now_ms\<rparr>),
                Inr Applied)))"

definition wal_is_committed :: "checkpoint_wal \<Rightarrow> u64 \<Rightarrow> bool" where
  "wal_is_committed w checkpoint_id =
     (case wal_get w checkpoint_id of Some e \<Rightarrow> cwe_phase e = Committed | None \<Rightarrow> False)"

definition wal_get_snapshot :: "checkpoint_wal \<Rightarrow> u64 \<Rightarrow> checkpoint_snapshot option" where
  "wal_get_snapshot w checkpoint_id = map_option cwe_snapshot (wal_get w checkpoint_id)"

definition wal_all_entries :: "checkpoint_wal \<Rightarrow> checkpoint_wal_entry list" where
  "wal_all_entries w = map snd (cw_entries w)"

definition wal_count_by_phase :: "checkpoint_wal \<Rightarrow> wal_phase \<Rightarrow> nat" where
  "wal_count_by_phase w phase = length (filter (\<lambda>e. cwe_phase e = phase) (wal_all_entries w))"

section \<open>The log as a state machine\<close>

datatype wal_op =
    OpPrepare u64 checkpoint_snapshot u64
  | OpInserted u64 bytes string u64
  | OpCommit u64 u64

fun wal_call :: "wal_op \<Rightarrow> checkpoint_wal \<Rightarrow> checkpoint_wal \<times> (wal_error + wal_result)" where
  "wal_call (OpPrepare i s now) w = wal_prepare w i s now"
| "wal_call (OpInserted i r p now) w = wal_inserted w i r p now"
| "wal_call (OpCommit i now) w = wal_commit w i now"

definition wal_run :: "checkpoint_wal \<Rightarrow> wal_op list \<Rightarrow> checkpoint_wal" where
  "wal_run w ops = foldl (\<lambda>w op. fst (wal_call op w)) w ops"

text \<open>The only changes of one entry: its creation and the two forward transitions.\<close>

inductive phase_step ::
  "checkpoint_wal_entry option \<Rightarrow> wal_op \<Rightarrow> checkpoint_wal_entry option \<Rightarrow> bool" where
  to_preparing: "phase_step None (OpPrepare i s now)
     (Some \<lparr>cwe_checkpoint_id = i, cwe_phase = Preparing, cwe_snapshot = s,
        cwe_written_at_ms = now, cwe_smt_root = replicate 32 0, cwe_smt_data_path = ''''\<rparr>)"
| to_inserted: "cwe_phase e = Preparing \<Longrightarrow> phase_step (Some e) (OpInserted i r p now)
     (Some (e\<lparr>cwe_phase := Inserted, cwe_smt_root := r, cwe_smt_data_path := p,
              cwe_written_at_ms := now\<rparr>))"
| to_committed: "cwe_phase e = Inserted \<Longrightarrow> phase_step (Some e) (OpCommit i now)
     (Some (e\<lparr>cwe_phase := Committed, cwe_written_at_ms := now\<rparr>))"

inductive_cases phase_stepE: "phase_step a op b"

fun op_id :: "wal_op \<Rightarrow> u64" where
  "op_id (OpPrepare i _ _) = i"
| "op_id (OpInserted i _ _ _) = i"
| "op_id (OpCommit i _) = i"

definition wal_phase_of :: "checkpoint_wal \<Rightarrow> u64 \<Rightarrow> wal_phase option" where
  "wal_phase_of w i = map_option cwe_phase (wal_get w i)"

lemma wal_get_put: "wal_get (wal_put w i e) j = (if j = i then Some e else wal_get w j)"
  by (simp add: wal_get_def wal_put_def update_conv')

lemma wal_run_Nil [simp]: "wal_run w [] = w"
  by (simp add: wal_run_def)

lemma wal_run_snoc [simp]: "wal_run w (ops @ [op]) = fst (wal_call op (wal_run w ops))"
  by (simp add: wal_run_def)

lemmas wal_op_defs = wal_prepare_def wal_inserted_def wal_commit_def

lemma wal_call_other: "i \<noteq> op_id op \<Longrightarrow> wal_get (fst (wal_call op w)) i = wal_get w i"
  by (cases op) (auto simp: wal_op_defs wal_get_put split: option.splits wal_phase.splits)

text \<open>Every call does one of three things: a step with \<open>Applied\<close>, or no change at all.\<close>

lemma wal_call_cases:
  "snd (wal_call op w) = Inr Applied \<and>
     phase_step (wal_get w (op_id op)) op (wal_get (fst (wal_call op w)) (op_id op)) \<or>
   snd (wal_call op w) = Inr AlreadyInState \<and> fst (wal_call op w) = w \<or>
   (\<exists>err. snd (wal_call op w) = Inl err \<and> fst (wal_call op w) = w)"
  by (cases op)
    (auto simp: wal_op_defs wal_get_put intro: phase_step.intros split: option.splits wal_phase.splits)

lemma wal_call_step_or_same:
  "wal_get (fst (wal_call op w)) i = wal_get w i \<or>
   i = op_id op \<and> phase_step (wal_get w i) op (wal_get (fst (wal_call op w)) i)"
  using wal_call_cases [of op w] by (cases "i = op_id op") (auto simp: wal_call_other)

text \<open>
  What the table says about a checkpoint is explained by the calls made so far: the first
  \<open>prepare\<close> gave the snapshot, a later \<open>inserted\<close> the root and path, a later \<open>commit\<close> the end.
\<close>

fun wal_explains :: "u64 \<Rightarrow> wal_op list \<Rightarrow> checkpoint_wal_entry option \<Rightarrow> bool" where
  "wal_explains i ops None \<longleftrightarrow> (\<forall>s n. OpPrepare i s n \<notin> set ops)"
| "wal_explains i ops (Some e) \<longleftrightarrow>
     (\<exists>xs ys s n. ops = xs @ OpPrepare i s n # ys \<and> (\<forall>s n. OpPrepare i s n \<notin> set xs) \<and>
        cwe_snapshot e = s \<and>
        (case cwe_phase e of
           Preparing \<Rightarrow> True
         | Inserted \<Rightarrow> (\<exists>us vs r p m. ys = us @ OpInserted i r p m # vs \<and>
             cwe_smt_root e = r \<and> cwe_smt_data_path e = p)
         | Committed \<Rightarrow> (\<exists>us vs ws r p m k. ys = us @ OpInserted i r p m # vs @ OpCommit i k # ws \<and>
             cwe_smt_root e = r \<and> cwe_smt_data_path e = p \<and> cwe_written_at_ms e = k)))"

lemma wal_explains_later:
  assumes "wal_explains i ops (Some e)"
  shows "wal_explains i (ops @ [op]) (Some e)"
proof -
  from assms obtain xs ys s n where *: "ops = xs @ OpPrepare i s n # ys"
      "\<forall>s n. OpPrepare i s n \<notin> set xs" "cwe_snapshot e = s"
    and ph: "case cwe_phase e of
           Preparing \<Rightarrow> True
         | Inserted \<Rightarrow> (\<exists>us vs r p m. ys = us @ OpInserted i r p m # vs \<and>
             cwe_smt_root e = r \<and> cwe_smt_data_path e = p)
         | Committed \<Rightarrow> (\<exists>us vs ws r p m k. ys = us @ OpInserted i r p m # vs @ OpCommit i k # ws \<and>
             cwe_smt_root e = r \<and> cwe_smt_data_path e = p \<and> cwe_written_at_ms e = k)"
    by auto
  show ?thesis
    using * ph
    by (simp split: wal_phase.splits) (intro exI [of _ xs] exI [of _ "ys @ [op]"], force)+
qed

lemma wal_explains_step:
  assumes "wal_explains (op_id op) ops a" "phase_step a op b"
  shows "wal_explains (op_id op) (ops @ [op]) b"
  using assms(2)
proof (cases rule: phase_step.cases)
  case (to_preparing i s now)
  with assms(1) show ?thesis
    by (simp, intro exI [of _ ops] exI [of _ "[]"]) simp
next
  case (to_inserted e i r p now)
  with assms(1) obtain xs ys s n where "ops = xs @ OpPrepare i s n # ys"
      "\<forall>s n. OpPrepare i s n \<notin> set xs" "cwe_snapshot e = s" by auto
  with to_inserted show ?thesis
    by (simp, intro exI [of _ xs] exI [of _ "ys @ [op]"]) auto
next
  case (to_committed e i now)
  with assms(1) obtain xs us vs s n r p m where
      "ops = xs @ OpPrepare i s n # us @ OpInserted i r p m # vs"
      "\<forall>s n. OpPrepare i s n \<notin> set xs" "cwe_snapshot e = s" "cwe_smt_root e = r"
      "cwe_smt_data_path e = p" by auto
  with to_committed show ?thesis
    by (simp, intro exI [of _ xs] exI [of _ "us @ OpInserted i r p m # vs @ [op]"]) auto
qed

lemma wal_explains_run: "wal_explains i ops (wal_get (wal_run wal_new ops) i)"
proof (induction ops rule: rev_induct)
  case Nil
  show ?case by (simp add: wal_get_def wal_new_def)
next
  case (snoc op ops)
  let ?w = "wal_run wal_new ops"
  consider (step) "i = op_id op" "phase_step (wal_get ?w i) op (wal_get (fst (wal_call op ?w)) i)"
    | (same) "wal_get (fst (wal_call op ?w)) i = wal_get ?w i"
    using wal_call_step_or_same by blast
  then show ?case
  proof cases
    case step
    with snoc.IH wal_explains_step show ?thesis by simp
  next
    case same
    show ?thesis
    proof (cases "wal_get ?w i")
      case None
      with same have "\<forall>s n. op \<noteq> OpPrepare i s n"
        by (auto simp: wal_prepare_def wal_get_put)
      with None same snoc.IH show ?thesis by auto
    next
      case (Some e)
      with same snoc.IH wal_explains_later [of i ops e op] show ?thesis by (simp del: wal_explains.simps)
    qed
  qed
qed

lemma phase_step_snapshot:
  "phase_step (Some e) op b \<Longrightarrow> \<exists>e'. b = Some e' \<and> cwe_snapshot e' = cwe_snapshot e"
  by (auto elim!: phase_stepE)

lemma phase_step_not_from_committed: "phase_step (Some e) op b \<Longrightarrow> cwe_phase e \<noteq> Committed"
  by (auto elim!: phase_stepE)

section \<open>Properties\<close>

text \<open>
  Protocol order: starting from an empty log, whatever calls are made in whatever order, a
  checkpoint is committed only if the calls contain a \<open>prepare\<close>, after it an \<open>inserted\<close> and
  after that a \<open>commit\<close> for it; the stored snapshot is that of the first \<open>prepare\<close> and the
  stored root and path are those of that \<open>inserted\<close>.
\<close>

theorem wal_committed_history:
  assumes "wal_get (wal_run wal_new ops) i = Some e" "wal_is_committed (wal_run wal_new ops) i"
  shows "\<exists>xs ys zs ws n m.
    ops = xs @ OpPrepare i (cwe_snapshot e) n # ys @ OpInserted i (cwe_smt_root e) (cwe_smt_data_path e) m
            # zs @ OpCommit i (cwe_written_at_ms e) # ws \<and>
    (\<forall>s n. OpPrepare i s n \<notin> set xs)"
proof -
  have "cwe_phase e = Committed" using assms by (simp add: wal_is_committed_def)
  with wal_explains_run [of i ops] assms(1)
  obtain xs ys s n us vs ws r p m k where "ops = xs @ OpPrepare i s n # ys"
      "\<forall>s n. OpPrepare i s n \<notin> set xs" "cwe_snapshot e = s"
      "ys = us @ OpInserted i r p m # vs @ OpCommit i k # ws"
      "cwe_smt_root e = r" "cwe_smt_data_path e = p" "cwe_written_at_ms e = k"
    by auto
  then show ?thesis
    by (intro exI [of _ xs] exI [of _ us] exI [of _ vs] exI [of _ ws] exI [of _ n] exI [of _ m]) simp
qed

definition demo_snapshot :: checkpoint_snapshot where
  "demo_snapshot = \<lparr>cs_epoch_id = 5, cs_imt_frontier_root = replicate 32 1, cs_imt_count = 42,
     cs_utxo_set_root = replicate 32 2, cs_nullifier_active_root = replicate 32 3,
     cs_nullifier_archived_root = replicate 32 4, cs_total_supply_sscl = 1890000000000000\<rparr>"

theorem wal_committed_history_witness:
  "\<exists>xs ys zs ws n m.
    [OpCommit 5 1, OpPrepare 5 demo_snapshot 2, OpInserted 5 (replicate 32 9) ''smt'' 3, OpCommit 5 4] =
      xs @ OpPrepare 5 demo_snapshot n # ys @ OpInserted 5 (replicate 32 9) ''smt'' m # zs @ OpCommit 5 4 # ws"
proof -
  let ?ops = "[OpCommit 5 1, OpPrepare 5 demo_snapshot 2, OpInserted 5 (replicate 32 9) ''smt'' 3, OpCommit 5 4]"
  have "wal_get (wal_run wal_new ?ops) 5 = Some \<lparr>cwe_checkpoint_id = 5, cwe_phase = Committed,
      cwe_snapshot = demo_snapshot, cwe_written_at_ms = 4, cwe_smt_root = replicate 32 9,
      cwe_smt_data_path = ''smt''\<rparr>"
    by (simp add: wal_run_def wal_op_defs wal_get_def wal_put_def wal_new_def)
  moreover from this have "wal_is_committed (wal_run wal_new ?ops) 5"
    by (simp add: wal_is_committed_def)
  ultimately show ?thesis using wal_committed_history [of ?ops 5] by fastforce
qed

text \<open>
  Idempotence: a call that succeeds, whether it was applied or found the log already in the
  state, can be repeated at once: the repetition reports \<open>AlreadyInState\<close> and changes nothing.
\<close>

theorem wal_call_idempotent:
  assumes "wal_call op w = (w', Inr res)"
  shows "wal_call op w' = (w', Inr AlreadyInState)"
  using assms
  by (cases op) (auto simp: wal_op_defs wal_get_put split: option.splits wal_phase.splits)

theorem wal_call_idempotent_witness:
  "wal_call (OpPrepare 5 demo_snapshot 2) (fst (wal_call (OpPrepare 5 demo_snapshot 2) wal_new)) =
     (fst (wal_call (OpPrepare 5 demo_snapshot 2) wal_new), Inr AlreadyInState)"
proof (rule wal_call_idempotent)
  show "wal_call (OpPrepare 5 demo_snapshot 2) wal_new =
      (fst (wal_call (OpPrepare 5 demo_snapshot 2) wal_new), Inr Applied)"
    by (simp add: wal_prepare_def wal_get_def wal_new_def)
qed

text \<open>
  Durability: whatever calls follow, a committed entry is never changed again, and the snapshot
  taken at \<open>prepare\<close> is never changed from the moment it is recorded.
\<close>

theorem wal_entries_durable:
  assumes "wal_get w i = Some e"
  shows "\<exists>e'. wal_get (wal_run w ops) i = Some e' \<and> cwe_snapshot e' = cwe_snapshot e \<and>
    (cwe_phase e = Committed \<longrightarrow> e' = e)"
proof (induction ops rule: rev_induct)
  case Nil
  with assms show ?case by simp
next
  case (snoc op ops)
  then obtain e' where e': "wal_get (wal_run w ops) i = Some e'" "cwe_snapshot e' = cwe_snapshot e"
      "cwe_phase e = Committed \<longrightarrow> e' = e" by blast
  from wal_call_step_or_same [of op "wal_run w ops" i] show ?case
  proof
    assume "wal_get (fst (wal_call op (wal_run w ops))) i = wal_get (wal_run w ops) i"
    with e' show ?thesis by simp
  next
    assume "i = op_id op \<and> phase_step (wal_get (wal_run w ops) i) op
        (wal_get (fst (wal_call op (wal_run w ops))) i)"
    with e' show ?thesis
      using phase_step_snapshot phase_step_not_from_committed by fastforce
  qed
qed

theorem wal_entries_durable_witness:
  "\<exists>e'. wal_get (wal_run (fst (wal_call (OpPrepare 5 demo_snapshot 2) wal_new)) [OpCommit 5 3]) 5 = Some e' \<and>
     cwe_snapshot e' = demo_snapshot"
  using wal_entries_durable [of "fst (wal_call (OpPrepare 5 demo_snapshot 2) wal_new)" 5 _ "[OpCommit 5 3]"]
  by (simp add: wal_prepare_def wal_get_def wal_new_def wal_put_def)

end
