(* ===== verification/Emission.thy ===== *)
theory Emission
  imports Prelude
begin

text \<open>
  The proof-of-uptime emission of \<open>core/scalar-emission/src\<close>: the emission accumulator with
  its quadratic formula and the fee accumulator (\<open>accumulator.rs\<close>), the uptime weight
  (\<open>pou.rs\<close>), the deferred emission pool and the accounting state (\<open>accounting.rs\<close>).  Amounts
  are \<open>u64\<close> in sSCL and the intermediate products \<open>u128\<close>, as in the source.
\<close>

section \<open>Constants and errors\<close>

definition S_E_SSCL :: u64 where
  "S_E_SSCL = 18900000 * 100000000"

definition E0_SSCL :: u64 where
  "E0_SSCL = 126000 * 100000000"

definition S_MAX_SSCL :: u64 where
  "S_MAX_SSCL = 21000000 * 100000000"

datatype emission_error =
    Overflow
  | SupplyCapExceeded u64 u64 u64
  | ZeroTotalWeight
  | BelowUptimeThreshold
  | AlreadyClaimed u64
  | NodeAuthorizationFailed
  | RewardNotInManifest

section \<open>Emission accumulator\<close>

record emission_accumulator =
  ea_total_minted :: u64

definition ea_new :: emission_accumulator where
  "ea_new = \<lparr>ea_total_minted = 0\<rparr>"

definition rho_fp :: "emission_accumulator \<Rightarrow> u128" where
  "rho_fp ea =
     unwrap_or (checked_div (saturating_mul (ucast (ea_total_minted ea)) 1000000000) (ucast S_E_SSCL))
       1000000000"

definition emission_this_epoch :: "emission_accumulator \<Rightarrow> u64" where
  "emission_this_epoch ea =
     (let rho = rho_fp ea;
          one_minus_rho = saturating_sub 1000000000 rho;
          omr_sq = unwrap_or (checked_div (saturating_mul one_minus_rho one_minus_rho) 1000000000) 0
      in ucast (unwrap_or (checked_div (saturating_mul (ucast E0_SSCL) omr_sq) 1000000000) (0 :: u128)))"

definition check_supply_cap :: "emission_accumulator \<Rightarrow> u64 \<Rightarrow> emission_error + unit" where
  "check_supply_cap ea reward =
     (case checked_add (ea_total_minted ea) reward of
        None \<Rightarrow> Inl Overflow
      | Some new_total \<Rightarrow>
          if new_total > S_E_SSCL
          then Inl (SupplyCapExceeded (ea_total_minted ea) reward S_E_SSCL)
          else Inr ())"

definition commit_epoch ::
  "emission_accumulator \<Rightarrow> u64 \<Rightarrow> emission_accumulator \<times> (emission_error + unit)" where
  "commit_epoch ea emission_amount =
     (case check_supply_cap ea emission_amount of
        Inl err \<Rightarrow> (ea, Inl err)
      | Inr _ \<Rightarrow>
          (case checked_add (ea_total_minted ea) emission_amount of
             None \<Rightarrow> (ea, Inl Overflow)
           | Some t \<Rightarrow> (ea\<lparr>ea_total_minted := t\<rparr>, Inr ())))"

definition reward_for_node :: "u64 \<Rightarrow> u64 \<Rightarrow> u64 \<Rightarrow> emission_error + u64" where
  "reward_for_node e_k w_i_fp w_total_fp =
     (if w_total_fp = 0 then Inl ZeroTotalWeight
      else if w_i_fp = 0 then Inl BelowUptimeThreshold
      else Inr (ucast (unwrap_or
             (checked_div (saturating_mul (ucast e_k) (ucast w_i_fp)) (ucast w_total_fp)) (0 :: u128))))"

section \<open>Fee accumulator and uptime weight\<close>

record fee_accumulator =
  fa_total_fee :: u64

definition fa_new :: fee_accumulator where
  "fa_new = \<lparr>fa_total_fee = 0\<rparr>"

definition add_fee :: "fee_accumulator \<Rightarrow> u64 \<Rightarrow> fee_accumulator \<times> (emission_error + unit)" where
  "add_fee fa fee =
     (case checked_add (fa_total_fee fa) fee of
        None \<Rightarrow> (fa, Inl Overflow)
      | Some t \<Rightarrow> (fa\<lparr>fa_total_fee := t\<rparr>, Inr ()))"

definition fee_distribution :: "fee_accumulator \<Rightarrow> u64 \<times> u64" where
  "fee_distribution fa =
     (let t = ucast (fa_total_fee fa) :: u128;
          node_pool = ucast (t * 95 div 100) :: u64;
          security_fund = saturating_sub (fa_total_fee fa) node_pool
      in (node_pool, security_fund))"

definition fa_reset :: "fee_accumulator \<Rightarrow> fee_accumulator" where
  "fa_reset fa = fa\<lparr>fa_total_fee := 0\<rparr>"

definition FIXED_POINT_BASIS :: u64 where
  "FIXED_POINT_BASIS = 1000000"

definition compute_uptime_weight :: "u64 \<Rightarrow> u64 \<Rightarrow> u64" where
  "compute_uptime_weight uptime_ratio_fp root_alignment_fp =
     (let component_uptime = (uptime_ratio_fp * 700000) div FIXED_POINT_BASIS;
          component_align = (root_alignment_fp * 300000) div FIXED_POINT_BASIS
      in component_uptime + component_align)"

section \<open>Deferred emission pool\<close>

definition DEFERRED_POOL_MAX_RELEASE_PER_EPOCH :: u64 where
  "DEFERRED_POOL_MAX_RELEASE_PER_EPOCH = E0_SSCL div 10"

definition DEFERRED_POOL_MAX_EPOCHS :: u64 where
  "DEFERRED_POOL_MAX_EPOCHS = 12"

record deferred_entry =
  de_deferred_epoch :: u64
  de_amount_sscl :: u64

record deferred_emission_pool =
  dp_entries :: "deferred_entry list"
  dp_total_sscl :: u64
  dp_total_released_sscl :: u64
  dp_total_deposited_sscl :: u64

definition dp_new :: deferred_emission_pool where
  "dp_new = \<lparr>dp_entries = [], dp_total_sscl = 0, dp_total_released_sscl = 0, dp_total_deposited_sscl = 0\<rparr>"

definition dp_deposit :: "deferred_emission_pool \<Rightarrow> u64 \<Rightarrow> u64 \<Rightarrow> deferred_emission_pool" where
  "dp_deposit p amount_sscl epoch =
     (if amount_sscl = 0 then p
      else
        let new_total = saturating_add (dp_total_sscl p) amount_sscl;
            capped = min new_total S_E_SSCL;
            actual = saturating_sub capped (dp_total_sscl p)
        in if actual = 0 then p
           else p\<lparr>dp_entries := dp_entries p @ [\<lparr>de_deferred_epoch = epoch, de_amount_sscl = actual\<rparr>],
                  dp_total_sscl := saturating_add (dp_total_sscl p) actual,
                  dp_total_deposited_sscl := saturating_add (dp_total_deposited_sscl p) actual\<rparr>)"

text \<open>The \<open>while\<close> loop of \<open>release\<close>, which walks the entries from the oldest on.\<close>

fun dp_drain :: "u64 \<Rightarrow> deferred_entry list \<Rightarrow> deferred_entry list" where
  "dp_drain remaining [] = []"
| "dp_drain remaining (e # es) =
     (if remaining > 0 then
        if de_amount_sscl e \<le> remaining
        then e\<lparr>de_amount_sscl := 0\<rparr> # dp_drain (saturating_sub remaining (de_amount_sscl e)) es
        else e\<lparr>de_amount_sscl := saturating_sub (de_amount_sscl e) remaining\<rparr> # es
      else e # es)"

definition dp_expire :: "u64 \<Rightarrow> deferred_entry list \<Rightarrow> deferred_entry list" where
  "dp_expire current_epoch es =
     filter (\<lambda>e. saturating_sub current_epoch (de_deferred_epoch e) \<le> DEFERRED_POOL_MAX_EPOCHS) es"

definition dp_release :: "deferred_emission_pool \<Rightarrow> u64 \<Rightarrow> deferred_emission_pool \<times> u64" where
  "dp_release p current_epoch =
     (let kept = dp_expire current_epoch (dp_entries p);
          total = sum_list (map de_amount_sscl kept);
          release_amount = min total DEFERRED_POOL_MAX_RELEASE_PER_EPOCH
      in if release_amount = 0 then (p\<lparr>dp_entries := kept, dp_total_sscl := total\<rparr>, 0)
         else
           (p\<lparr>dp_entries := filter (\<lambda>e. de_amount_sscl e > 0) (dp_drain release_amount kept),
              dp_total_sscl := saturating_sub total release_amount,
              dp_total_released_sscl := saturating_add (dp_total_released_sscl p) release_amount\<rparr>,
            release_amount))"

definition dp_entry_count :: "deferred_emission_pool \<Rightarrow> nat" where
  "dp_entry_count p = length (dp_entries p)"

definition dp_verify_invariant :: "deferred_emission_pool \<Rightarrow> u64 \<Rightarrow> bool" where
  "dp_verify_invariant p release_this_epoch =
     (dp_total_sscl p \<le> S_E_SSCL \<and> release_this_epoch \<le> DEFERRED_POOL_MAX_RELEASE_PER_EPOCH)"

section \<open>Accounting state\<close>

datatype accounting_error = AccOverflow | AccSupplyCapExceeded u64 u64 u64

record accounting_state =
  as_total_pou_minted_sscl :: u64
  as_security_fund_accumulator_sscl :: u64
  as_total_reserve_released_sscl :: u64
  as_deferred_emission_pool_sscl :: u64

definition as_genesis :: accounting_state where
  "as_genesis = \<lparr>as_total_pou_minted_sscl = 0, as_security_fund_accumulator_sscl = 0,
     as_total_reserve_released_sscl = 0, as_deferred_emission_pool_sscl = 0\<rparr>"

definition record_mint :: "accounting_state \<Rightarrow> u64 \<Rightarrow> accounting_state \<times> (accounting_error + unit)" where
  "record_mint s amount_sscl =
     (case checked_add (as_total_pou_minted_sscl s) amount_sscl of
        None \<Rightarrow> (s, Inl AccOverflow)
      | Some new_total \<Rightarrow>
          if new_total > S_E_SSCL
          then (s, Inl (AccSupplyCapExceeded (as_total_pou_minted_sscl s) amount_sscl S_E_SSCL))
          else (s\<lparr>as_total_pou_minted_sscl := new_total\<rparr>, Inr ()))"

definition record_security_fund :: "accounting_state \<Rightarrow> u64 \<Rightarrow> accounting_state" where
  "record_security_fund s amount_sscl =
     s\<lparr>as_security_fund_accumulator_sscl :=
         saturating_add (as_security_fund_accumulator_sscl s) amount_sscl\<rparr>"

definition record_reserve_release :: "accounting_state \<Rightarrow> u64 \<Rightarrow> accounting_state" where
  "record_reserve_release s amount_sscl =
     s\<lparr>as_total_reserve_released_sscl :=
         saturating_add (as_total_reserve_released_sscl s) amount_sscl\<rparr>"

definition update_deferred_pool :: "accounting_state \<Rightarrow> deferred_emission_pool \<Rightarrow> accounting_state" where
  "update_deferred_pool s pool = s\<lparr>as_deferred_emission_pool_sscl := dp_total_sscl pool\<rparr>"

definition supply_cap_ok :: "accounting_state \<Rightarrow> bool" where
  "supply_cap_ok s = (as_total_pou_minted_sscl s \<le> S_E_SSCL)"

section \<open>The emission formula on natural numbers\<close>

lemma unat_consts [simp]:
  "unat S_E_SSCL = 1890000000000000" "unat E0_SSCL = 12600000000000"
  "unat DEFERRED_POOL_MAX_RELEASE_PER_EPOCH = 1260000000000" "unat DEFERRED_POOL_MAX_EPOCHS = 12"
  by (simp_all add: S_E_SSCL_def E0_SSCL_def DEFERRED_POOL_MAX_RELEASE_PER_EPOCH_def
      DEFERRED_POOL_MAX_EPOCHS_def)

definition emission_nat :: "nat \<Rightarrow> nat" where
  "emission_nat m =
     12600000000000 * ((1000000000 - m * 1000000000 div 1890000000000000)\<^sup>2 div 1000000000)
       div 1000000000"

lemma checked_div_unat:
  "unat b \<noteq> 0 \<Longrightarrow> unat (unwrap_or (checked_div a b) d) = unat a div unat b"
  by (auto simp: checked_div_def word_nat)

lemma unat_rho_fp: "unat (rho_fp ea) = unat (ea_total_minted ea) * 1000000000 div 1890000000000000"
  using u64_bound [of "ea_total_minted ea"]
  by (simp add: rho_fp_def checked_div_unat unat_saturating_mul)

lemma emission_nat_le: "emission_nat m \<le> 12600000000000"
proof -
  have "(1000000000 - m * 1000000000 div 1890000000000000)\<^sup>2 \<le> (1000000000 :: nat)\<^sup>2"
    by (rule power_mono) simp_all
  then have "(1000000000 - m * 1000000000 div 1890000000000000)\<^sup>2 div 1000000000 \<le> (1000000000 :: nat)"
    by (simp add: power2_eq_square div_le_mono [of _ "1000000000 * 1000000000", THEN order_trans])
  then show ?thesis unfolding emission_nat_def by linarith
qed

lemma unat_emission_this_epoch:
  "unat (emission_this_epoch ea) = emission_nat (unat (ea_total_minted ea))"
proof -
  let ?omr = "saturating_sub 1000000000 (rho_fp ea)"
  let ?sq = "unwrap_or (checked_div (saturating_mul ?omr ?omr) 1000000000) 0 :: u128"
  have omr: "unat ?omr = 1000000000 - unat (ea_total_minted ea) * 1000000000 div 1890000000000000"
    by (simp add: unat_saturating_sub unat_rho_fp)
  have omr_le: "unat ?omr * unat ?omr \<le> 1000000000 * 1000000000"
    by (rule mult_le_mono) (simp_all add: omr)
  then have sq: "unat ?sq = (unat ?omr)\<^sup>2 div 1000000000"
    by (simp add: checked_div_unat unat_saturating_mul power2_eq_square)
  then have sq_le: "unat ?sq \<le> 1000000000"
    using omr_le by (simp add: power2_eq_square)
  let ?e = "unwrap_or (checked_div (saturating_mul (ucast E0_SSCL) ?sq) 1000000000) 0 :: u128"
  have "unat ?e = emission_nat (unat (ea_total_minted ea))"
    using sq_le by (simp add: checked_div_unat unat_saturating_mul sq emission_nat_def omr)
  moreover have "emission_nat (unat (ea_total_minted ea)) < 2 ^ 64"
    using emission_nat_le [of "unat (ea_total_minted ea)"] by simp
  ultimately show ?thesis
    by (simp add: emission_this_epoch_def Let_def unat_u128_u64)
qed

lemma emission_nat_antimono: "m \<le> m' \<Longrightarrow> emission_nat m' \<le> emission_nat m"
  unfolding emission_nat_def
  by (intro div_le_mono mult_le_mono power_mono diff_le_mono2 le_refl) simp_all

text \<open>What is still to be minted always covers the next epoch's emission.\<close>

lemma emission_nat_within_cap:
  assumes "m \<le> 1890000000000000"
  shows "m + emission_nat m \<le> 1890000000000000"
proof -
  define r where "r = 1000000000 - m * 1000000000 div 1890000000000000"
  have r_le: "r \<le> 1000000000" by (simp add: r_def)
  have m_bound: "m * 1000000000 < (1000000000 - r + 1) * 1890000000000000"
  proof -
    have "m * 1000000000 div 1890000000000000 = 1000000000 - r"
      using assms by (simp add: r_def)
    then show ?thesis
      by (metis Suc_eq_plus1 dividend_less_times_div mult.commute mult_Suc_right add.commute
          zero_less_numeral mult_Suc)
  qed
  show ?thesis
  proof (cases "r \<le> 1")
    case True
    then have "r\<^sup>2 \<le> 1\<^sup>2" by (rule power_mono) simp
    then have "emission_nat m = 0" unfolding emission_nat_def r_def [symmetric] by simp
    with assms show ?thesis by simp
  next
    case False
    have "r\<^sup>2 div 1000000000 \<le> r"
      using r_le by (simp add: power2_eq_square div_le_mono [THEN order_trans, of _ "r * 1000000000"])
    then have "emission_nat m \<le> 12600 * r"
      unfolding emission_nat_def r_def [symmetric] by linarith
    moreover have "m < (1000000000 - r + 1) * 1890000"
      using m_bound by linarith
    ultimately show ?thesis using False r_le by (simp add: diff_mult_distrib)
  qed
qed

lemma supply_cap_room:
  assumes "ea_total_minted ea \<le> S_E_SSCL" "r \<le> emission_this_epoch ea"
  shows "check_supply_cap ea r = Inr ()"
    "\<exists>ea'. commit_epoch ea r = (ea', Inr ()) \<and> unat (ea_total_minted ea') = unat (ea_total_minted ea) + unat r
      \<and> ea_total_minted ea' \<le> S_E_SSCL"
proof -
  let ?t = "unat (ea_total_minted ea)"
  have t: "?t \<le> 1890000000000000" using assms(1) by (simp add: word_le_nat_alt S_E_SSCL_def)
  moreover have "unat r \<le> emission_nat ?t" using assms(2) by (simp add: word_le_nat_alt unat_emission_this_epoch)
  ultimately have sum: "?t + unat r \<le> 1890000000000000" using emission_nat_within_cap [OF t] by linarith
  then have u: "unat (ea_total_minted ea + r) = ?t + unat r" by (simp add: unat_add_no_overflow)
  then have add: "checked_add (ea_total_minted ea) r = Some (ea_total_minted ea + r)" by (simp add: checked_add_Some_iff)
  have cap: "ea_total_minted ea + r \<le> S_E_SSCL" using u sum by (simp add: word_le_nat_alt S_E_SSCL_def)
  show chk: "check_supply_cap ea r = Inr ()" using add cap by (simp add: check_supply_cap_def not_less)
  show "\<exists>ea'. commit_epoch ea r = (ea', Inr ()) \<and> unat (ea_total_minted ea') = ?t + unat r \<and> ea_total_minted ea' \<le> S_E_SSCL"
    using add cap u chk by (simp add: commit_epoch_def)
qed

section \<open>Runs of the accumulator and of the accounting state\<close>

definition commit_all :: "emission_accumulator \<Rightarrow> u64 list \<Rightarrow> emission_accumulator" where
  "commit_all ea amounts = foldl (\<lambda>ea a. fst (commit_epoch ea a)) ea amounts"

lemma commit_epoch_result:
  "commit_epoch ea a =
     (if unat (ea_total_minted ea) + unat a \<le> 1890000000000000
      then (ea\<lparr>ea_total_minted := ea_total_minted ea + a\<rparr>, Inr ())
      else (ea, if unat (ea_total_minted ea) + unat a < 2 ^ 64
                then Inl (SupplyCapExceeded (ea_total_minted ea) a S_E_SSCL) else Inl Overflow))"
  by (auto simp: commit_epoch_def check_supply_cap_def checked_add_def word_less_nat_alt
      unat_word_ariths)

lemma commit_all_bound:
  "unat (ea_total_minted ea) \<le> 1890000000000000 \<Longrightarrow>
   unat (ea_total_minted (commit_all ea amounts)) \<le> 1890000000000000"
  unfolding commit_all_def
  by (induction amounts arbitrary: ea) (auto simp: commit_epoch_result unat_word_ariths)

text \<open>Minting exactly the emission of every epoch.\<close>

fun mint_epochs :: "nat \<Rightarrow> emission_accumulator \<Rightarrow> emission_accumulator" where
  "mint_epochs 0 ea = ea"
| "mint_epochs (Suc n) ea = mint_epochs n (fst (commit_epoch ea (emission_this_epoch ea)))"

section \<open>Deferred pool lemmas\<close>

abbreviation pool_sum :: "deferred_entry list \<Rightarrow> nat" where
  "pool_sum es \<equiv> sum_list (map (\<lambda>e. unat (de_amount_sscl e)) es)"

definition dp_wf :: "deferred_emission_pool \<Rightarrow> bool" where
  "dp_wf p \<longleftrightarrow>
     unat (dp_total_sscl p) = pool_sum (dp_entries p) \<and>
     pool_sum (dp_entries p) \<le> 1890000000000000 \<and>
     (\<forall>e\<in>set (dp_entries p). de_amount_sscl e > 0)"

lemma pool_sum_filter_pos: "pool_sum (filter (\<lambda>e. de_amount_sscl e > 0) es) = pool_sum es"
  by (induction es) (auto simp: word_less_nat_alt)

lemma pool_sum_filter_le: "pool_sum (filter P es) \<le> pool_sum es"
  by (induction es) auto

lemma pool_sum_filter_split: "pool_sum es = pool_sum (filter P es) + pool_sum (filter (\<lambda>e. \<not> P e) es)"
  by (induction es) auto

lemma unat_pool_total:
  "pool_sum es \<le> 1890000000000000 \<Longrightarrow> unat (sum_list (map de_amount_sscl es)) = pool_sum es"
  using unat_sum_list_no_overflow [of "map de_amount_sscl es"] by (simp add: comp_def)

lemma pool_sum_drain:
  "unat remaining \<le> pool_sum es \<Longrightarrow> pool_sum (dp_drain remaining es) = pool_sum es - unat remaining"
  by (induction remaining es rule: dp_drain.induct)
    (auto simp: unat_saturating_sub word_less_nat_alt word_le_nat_alt)

lemma pool_sum_drain_filter:
  "unat remaining \<le> pool_sum es \<Longrightarrow>
   pool_sum (filter (\<lambda>e. de_amount_sscl e > 0) (dp_drain remaining es)) = pool_sum es - unat remaining"
  by (simp only: pool_sum_filter_pos pool_sum_drain)

lemma dp_wf_new: "dp_wf dp_new"
  by (simp add: dp_wf_def dp_new_def)

lemma dp_wf_deposit:
  assumes "dp_wf p"
  shows "dp_wf (dp_deposit p a ep)"
proof -
  let ?act = "saturating_sub (min (saturating_add (dp_total_sscl p) a) S_E_SSCL) (dp_total_sscl p)"
  have "unat (dp_total_sscl p) + unat ?act \<le> 1890000000000000"
    using assms by (simp add: dp_wf_def unat_saturating_sub unat_min_word unat_saturating_add)
  then show ?thesis
    using assms
    by (auto simp: dp_wf_def dp_deposit_def Let_def unat_saturating_add word_gt_0)
qed

lemma dp_release_spec:
  fixes p :: deferred_emission_pool and ep :: u64
  assumes "dp_wf p"
  defines "kept \<equiv> dp_expire ep (dp_entries p)"
  shows "unat (snd (dp_release p ep)) = min (pool_sum kept) 1260000000000"
    and "pool_sum (dp_entries (fst (dp_release p ep))) = pool_sum kept - unat (snd (dp_release p ep))"
    and "dp_wf (fst (dp_release p ep))"
proof -
  have le: "pool_sum kept \<le> 1890000000000000"
    using assms pool_sum_filter_le [of _ "dp_entries p"]
    by (auto simp: dp_wf_def kept_def dp_expire_def intro: order_trans)
  let ?total = "sum_list (map de_amount_sscl kept)"
  have tot: "unat ?total = pool_sum kept" using le by (rule unat_pool_total)
  have rel: "unat (min ?total DEFERRED_POOL_MAX_RELEASE_PER_EPOCH) = min (pool_sum kept) 1260000000000"
    by (simp add: unat_min_word tot)
  have zero: "min ?total DEFERRED_POOL_MAX_RELEASE_PER_EPOCH = 0 \<longleftrightarrow> pool_sum kept = 0"
  proof -
    have "min n (1260000000000 :: nat) = 0 \<longleftrightarrow> n = 0" for n by (cases "n = 0") auto
    then show ?thesis unfolding unat_eq_zero [symmetric] rel .
  qed
  show 1: "unat (snd (dp_release p ep)) = min (pool_sum kept) 1260000000000"
    using rel zero by (auto simp: dp_release_def Let_def kept_def [symmetric])
  show 2: "pool_sum (dp_entries (fst (dp_release p ep))) = pool_sum kept - unat (snd (dp_release p ep))"
    using rel zero
    by (auto simp: dp_release_def Let_def kept_def [symmetric] pool_sum_drain_filter)
  have pos: "\<forall>e\<in>set (dp_entries (fst (dp_release p ep))). de_amount_sscl e > 0"
    using assms(1)
    by (auto simp: dp_release_def Let_def dp_wf_def dp_expire_def kept_def [symmetric])
  have "unat (dp_total_sscl (fst (dp_release p ep))) = pool_sum kept - unat (snd (dp_release p ep))"
    using rel zero tot
    by (auto simp: dp_release_def Let_def kept_def [symmetric] unat_saturating_sub)
  with 2 pos le show "dp_wf (fst (dp_release p ep))" by (simp add: dp_wf_def)
qed

section \<open>Properties\<close>

text \<open>
  The emission formula, exactly: for every reachable and unreachable amount minted so far, the
  \<open>u128\<close> computation of \<open>emission_this_epoch\<close> neither overflows nor saturates and its result,
  cast to \<open>u64\<close>, is \<open>E0 * floor((10^9 - rho)^2 / 10^9) / 10^9\<close> with \<open>rho\<close> the minted share of
  \<open>S_E\<close> in parts of \<open>10^9\<close>; it starts at \<open>E0\<close>, never grows with the amount minted, and is zero
  once the pool is exhausted.
\<close>

theorem emission_formula:
  "unat (emission_this_epoch ea) =
     unat E0_SSCL *
       ((10 ^ 9 - unat (ea_total_minted ea) * 10 ^ 9 div unat S_E_SSCL)\<^sup>2 div 10 ^ 9) div 10 ^ 9 \<and>
   emission_this_epoch ea_new = E0_SSCL \<and>
   (ea_total_minted ea \<le> ea_total_minted ea' \<longrightarrow> emission_this_epoch ea' \<le> emission_this_epoch ea) \<and>
   (S_E_SSCL \<le> ea_total_minted ea \<longrightarrow> emission_this_epoch ea = 0)"
proof (intro conjI impI)
  show "unat (emission_this_epoch ea) = unat E0_SSCL *
      ((10 ^ 9 - unat (ea_total_minted ea) * 10 ^ 9 div unat S_E_SSCL)\<^sup>2 div 10 ^ 9) div 10 ^ 9"
    by (simp add: unat_emission_this_epoch emission_nat_def)
  have "unat (emission_this_epoch ea_new) = unat E0_SSCL"
    by (simp add: unat_emission_this_epoch ea_new_def emission_nat_def)
  then show "emission_this_epoch ea_new = E0_SSCL" by (simp only: word_unat_eq_iff)
next
  assume "ea_total_minted ea \<le> ea_total_minted ea'"
  then show "emission_this_epoch ea' \<le> emission_this_epoch ea"
    by (simp add: word_le_nat_alt unat_emission_this_epoch emission_nat_antimono)
next
  assume "S_E_SSCL \<le> ea_total_minted ea"
  then have "emission_nat (unat (ea_total_minted ea)) \<le> emission_nat 1890000000000000"
    by (simp add: word_le_nat_alt emission_nat_antimono)
  moreover have "emission_nat 1890000000000000 = 0" by (simp add: emission_nat_def)
  ultimately have "unat (emission_this_epoch ea) = 0" by (simp add: unat_emission_this_epoch)
  then show "emission_this_epoch ea = 0" by (simp only: unat_eq_zero)
qed

theorem emission_formula_witness:
  "emission_this_epoch \<lparr>ea_total_minted = 945000000000000\<rparr> \<le> emission_this_epoch ea_new \<and>
   emission_this_epoch \<lparr>ea_total_minted = 1900000000000000\<rparr> = 0"
  using emission_formula [of ea_new "\<lparr>ea_total_minted = 945000000000000\<rparr>"]
    emission_formula [of "\<lparr>ea_total_minted = 1900000000000000\<rparr>" ea_new]
  by (auto simp: ea_new_def S_E_SSCL_def)

text \<open>C4. 
  Supply cap under any sequence of epochs: whatever amounts are offered to \<open>commit_epoch\<close>, the
  total minted never passes \<open>S_E\<close>; and minting exactly the computed emission of every epoch is
  never refused, for any number of epochs, so the cap check never blocks the protocol's own
  schedule.
\<close>

theorem emission_supply_cap:
  "unat (ea_total_minted (commit_all ea_new amounts)) \<le> unat S_E_SSCL \<and>
   snd (commit_epoch (mint_epochs n ea_new) (emission_this_epoch (mint_epochs n ea_new))) = Inr ()"
proof
  show "unat (ea_total_minted (commit_all ea_new amounts)) \<le> unat S_E_SSCL"
    using commit_all_bound [of ea_new amounts] by (simp add: ea_new_def)
  have "unat (ea_total_minted (mint_epochs n ea)) \<le> 1890000000000000"
    if "unat (ea_total_minted ea) \<le> 1890000000000000" for ea
    using that
  proof (induction n arbitrary: ea)
    case (Suc n)
    then have "unat (ea_total_minted ea) + unat (emission_this_epoch ea) \<le> 1890000000000000"
      by (simp add: unat_emission_this_epoch emission_nat_within_cap)
    then have "unat (ea_total_minted (fst (commit_epoch ea (emission_this_epoch ea)))) \<le> 1890000000000000"
      by (simp add: commit_epoch_result unat_word_ariths)
    then show ?case using Suc.IH by simp
  qed simp
  then have "unat (ea_total_minted (mint_epochs n ea_new)) \<le> 1890000000000000"
    by (simp add: ea_new_def)
  then show "snd (commit_epoch (mint_epochs n ea_new) (emission_this_epoch (mint_epochs n ea_new))) = Inr ()"
    by (simp add: commit_epoch_result unat_emission_this_epoch emission_nat_within_cap)
qed

lemma reward_for_node_value:
  assumes "w \<noteq> 0" "unat w \<le> unat W"
  shows "reward_for_node e w W = Inr (word_of_nat (unat e * unat w div unat W))"
    and "unat e * unat w div unat W \<le> unat e"
proof -
  have tot: "unat W \<noteq> 0" "W \<noteq> 0"
    using assms by (auto simp: unat_eq_zero)
  have "unat e * unat w \<le> unat e * unat W" using assms(2) by simp
  then show le: "unat e * unat w div unat W \<le> unat e"
    using tot by (metis div_le_mono nonzero_mult_div_cancel_right)
  have "unat e * unat w < 340282366920938463463374607431768211456"
    using mult_strict_mono' [OF u64_bound [of e] u64_bound [of w]] by simp
  then have "unat (unwrap_or (checked_div (saturating_mul (ucast e) (ucast w)) (ucast W)) (0 :: u128)) =
      unat e * unat w div unat W"
    using tot by (simp add: checked_div_unat unat_saturating_mul)
  then have "unat (ucast (unwrap_or (checked_div (saturating_mul (ucast e) (ucast w)) (ucast W)) (0 :: u128)) :: u64) =
      unat (word_of_nat (unat e * unat w div unat W) :: u64)"
    using le u64_bound [of e] by (simp add: unat_u128_u64 unat_of_nat_small)
  then show "reward_for_node e w W = Inr (word_of_nat (unat e * unat w div unat W))"
    using assms(1) tot by (simp add: reward_for_node_def word_unat_eq_iff)
qed

lemma div_add_le_Suc:
  fixes a b d :: nat
  assumes "d > 0"
  shows "(a + b) div d \<le> a div d + b div d + 1"
proof -
  have "a mod d + b mod d < 2 * d"
    using assms by (metis add_less_mono mod_less_divisor mult_2)
  then have "(a mod d + b mod d) div d < 2" by (simp add: less_mult_imp_div_less)
  then show ?thesis by (subst div_add1_eq) simp
qed

lemma sum_div_dust:
  fixes ws :: "nat list"
  assumes "d > 0"
  shows "e * sum_list ws div d \<le> sum_list (map (\<lambda>w. e * w div d) ws) + length ws - (if ws = [] then 0 else 1)"
proof (induction ws)
  case (Cons w ws)
  have "e * (w + sum_list ws) div d \<le> e * w div d + e * sum_list ws div d + 1"
    using div_add_le_Suc [OF assms, of "e * w" "e * sum_list ws"] by (simp add: distrib_left)
  with Cons show ?case by (cases ws) auto
qed simp

text \<open>
  Node rewards: for non-zero node weights whose sum is the total weight, every node gets a
  reward, the rewards add up to at most the epoch's emission, and less than one sSCL per node
  is left over by rounding.
\<close>

theorem node_rewards_sum:
  assumes "ws \<noteq> []" "\<forall>w\<in>set ws. w \<noteq> 0" "sum_list (map unat ws) = unat W"
  shows "\<exists>rs. map (\<lambda>w. reward_for_node e w W) ws = map Inr rs \<and>
    sum_list (map unat rs) \<le> unat e \<and> unat e - sum_list (map unat rs) < length ws"
proof -
  let ?rs = "map (\<lambda>w. word_of_nat (unat e * unat w div unat W) :: u64) ws"
  have le: "unat w \<le> unat W" if "w \<in> set ws" for w
    using that member_le_sum_list [of "unat w" "map unat ws"] assms(3) by simp
  have pos: "unat W > 0"
    using assms le by (metis gr0I le_zero_eq list.set_sel(1) unat_eq_zero)
  have eq: "map (\<lambda>w. reward_for_node e w W) ws = map Inr ?rs"
    using assms(2) le by (simp add: reward_for_node_value)
  have "map unat ?rs = map (\<lambda>w. unat e * unat w div unat W) ws"
  proof (simp, intro ballI)
    fix w assume "w \<in> set ws"
    then have "unat e * unat w div unat W \<le> unat e"
      using assms(2) le reward_for_node_value(2) by blast
    then show "unat (word_of_nat (unat e * unat w div unat W) :: u64) = unat e * unat w div unat W"
      using u64_bound [of e] by (simp add: unat_of_nat_small)
  qed
  then have rs: "sum_list (map unat ?rs) = sum_list (map (\<lambda>w. unat e * w div unat W) (map unat ws))"
    by (simp only: map_map comp_def)
  have full: "unat e * sum_list (map unat ws) div unat W = unat e"
    using pos assms(3) by simp
  have "sum_list (map (\<lambda>x. x div unat W) (map (\<lambda>w. unat e * w) (map unat ws)))
      \<le> sum_list (map (\<lambda>w. unat e * w) (map unat ws)) div unat W"
    by (rule sum_list_div_le)
  then have "sum_list (map unat ?rs) \<le> unat e"
    using full rs by (simp add: comp_def sum_list_const_mult)
  moreover have "unat e - sum_list (map unat ?rs) < length ws"
    using sum_div_dust [OF pos, of "unat e" "map unat ws"] full rs assms(1)
    by (cases ws) auto
  ultimately show ?thesis using eq by blast
qed

theorem node_rewards_sum_witness:
  "\<exists>rs. map (\<lambda>w. reward_for_node 100 w 7) [1, 2, 4] = map Inr rs \<and>
     sum_list (map unat rs) \<le> 100 \<and> 100 - sum_list (map unat rs) < 3"
  using node_rewards_sum [of "[1, 2, 4]" 7 100] by (simp add: numeral_3_eq_3)

text \<open>
  Fee split: the two shares always add up to the fees collected, without overflow or
  saturation, the node pool is the floor of 95 per cent, and the security fund gets the rest.
\<close>

theorem fee_distribution_exact:
  "case fee_distribution fa of (node_pool, security_fund) \<Rightarrow>
     unat node_pool = unat (fa_total_fee fa) * 95 div 100 \<and>
     unat node_pool + unat security_fund = unat (fa_total_fee fa)"
proof -
  have "unat (ucast (fa_total_fee fa) * 95 :: u128) = unat (fa_total_fee fa) * 95"
    using u64_bound [of "fa_total_fee fa"] by (simp add: unat_mult_no_overflow)
  then have pool: "unat (ucast (ucast (fa_total_fee fa) * 95 div 100 :: u128) :: u64) =
      unat (fa_total_fee fa) * 95 div 100"
    using u64_bound [of "fa_total_fee fa"] by (simp add: unat_u128_u64 unat_div_word)
  then show ?thesis
    by (simp add: fee_distribution_def Let_def unat_saturating_sub)
qed

text \<open>
  Deferred pool: on a pool whose stored total is the sum of its entries and at most \<open>S_E\<close>,
  \<open>deposit\<close> and \<open>release\<close> keep that; \<open>release\<close> pays out exactly the smaller of the unexpired sum
  and ten per cent of \<open>E0\<close>, and the payment, what stays in the pool and what expired (older
  than twelve epochs) add up to the pool before the call.
\<close>

theorem deferred_pool_conservation:
  assumes "dp_wf p"
  shows "dp_wf (dp_deposit p amount ep) \<and> dp_wf (fst (dp_release p ep)) \<and>
    unat (snd (dp_release p ep)) = min (pool_sum (dp_expire ep (dp_entries p))) 1260000000000 \<and>
    dp_verify_invariant (fst (dp_release p ep)) (snd (dp_release p ep)) \<and>
    unat (dp_total_sscl p) =
      unat (snd (dp_release p ep)) + unat (dp_total_sscl (fst (dp_release p ep))) +
      pool_sum (filter (\<lambda>e. unat ep - unat (de_deferred_epoch e) > 12) (dp_entries p))"
proof -
  note rel = dp_release_spec [OF assms, of ep]
  have wf: "dp_wf (fst (dp_release p ep))" by (rule rel)
  have old: "saturating_sub ep x \<le> DEFERRED_POOL_MAX_EPOCHS \<longleftrightarrow> \<not> unat ep - unat x > 12" for x
    by (simp add: word_le_nat_alt unat_saturating_sub not_less)
  have split: "pool_sum (dp_entries p) = pool_sum (dp_expire ep (dp_entries p)) +
      pool_sum (filter (\<lambda>e. unat ep - unat (de_deferred_epoch e) > 12) (dp_entries p))"
    unfolding dp_expire_def old
    using pool_sum_filter_split [of "dp_entries p" "\<lambda>e. \<not> unat ep - unat (de_deferred_epoch e) > 12"]
    by simp
  have inv: "dp_verify_invariant (fst (dp_release p ep)) (snd (dp_release p ep))"
    using wf rel(1) by (simp add: dp_verify_invariant_def word_le_nat_alt dp_wf_def)
  have tot: "unat (dp_total_sscl p) = pool_sum (dp_entries p)"
    "unat (dp_total_sscl (fst (dp_release p ep))) = pool_sum (dp_entries (fst (dp_release p ep)))"
    using assms wf by (simp_all add: dp_wf_def)
  have "unat (snd (dp_release p ep)) \<le> pool_sum (dp_expire ep (dp_entries p))"
    unfolding rel(1) by (rule min.cobounded1)
  then have "unat (dp_total_sscl p) =
      unat (snd (dp_release p ep)) + unat (dp_total_sscl (fst (dp_release p ep))) +
      pool_sum (filter (\<lambda>e. unat ep - unat (de_deferred_epoch e) > 12) (dp_entries p))"
    unfolding tot split rel(2) by simp
  with wf inv rel(1) dp_wf_deposit [OF assms] show ?thesis by blast
qed

theorem deferred_pool_conservation_witness:
  "dp_wf (dp_deposit dp_new 500 0) \<and> snd (dp_release (dp_deposit dp_new 500 0) 13) = 0 \<and>
   dp_total_sscl (fst (dp_release (dp_deposit dp_new 500 0) 13)) = 0 \<and>
   pool_sum (filter (\<lambda>e. unat (13 :: u64) - unat (de_deferred_epoch e) > 12)
     (dp_entries (dp_deposit dp_new 500 0))) = 500"
proof -
  let ?p = "dp_deposit dp_new 500 0"
  have wf: "dp_wf ?p" by (simp add: dp_wf_deposit dp_wf_new)
  have tot: "unat (dp_total_sscl ?p) = 500" and ent: "dp_entries ?p = [\<lparr>de_deferred_epoch = 0, de_amount_sscl = 500\<rparr>]"
    by (simp_all add: dp_deposit_def dp_new_def saturating_add_def saturating_sub_def S_E_SSCL_def)
  from deferred_pool_conservation [OF wf, of 0 13] wf show ?thesis
    by (simp add: tot ent unat_eq_zero)
qed

lemma floor_bounds:
  fixes n :: nat
  shows "n div 1000000 * 1000000 \<le> n \<and> n < n div 1000000 * 1000000 + 1000000"
  using div_mult_mod_eq [of n 1000000] mod_less_divisor [of 1000000 n] by linarith

text \<open>
  The uptime weight: for inputs in the fixed-point range the weight stays in that range, is
  monotone in both inputs, and differs from the exact weighted mean by less than two units of
  rounding.
\<close>

theorem uptime_weight_bounds:
  assumes "u \<le> FIXED_POINT_BASIS" "r \<le> FIXED_POINT_BASIS"
  shows "compute_uptime_weight u r \<le> FIXED_POINT_BASIS \<and>
    unat (compute_uptime_weight u r) * 1000000 \<le> unat u * 700000 + unat r * 300000 \<and>
    unat u * 700000 + unat r * 300000 < unat (compute_uptime_weight u r) * 1000000 + 2000000 \<and>
    (u' \<le> u \<and> r' \<le> r \<longrightarrow> compute_uptime_weight u' r' \<le> compute_uptime_weight u r)"
proof -
  have val: "unat (compute_uptime_weight a b) = unat a * 700000 div 1000000 + unat b * 300000 div 1000000"
    if "unat a \<le> 1000000" "unat b \<le> 1000000" for a b
  proof -
    have "unat (a * 700000) = unat a * 700000" "unat (b * 300000) = unat b * 300000"
      using that by (simp_all add: unat_mult_no_overflow)
    then show ?thesis
      using that by (simp add: compute_uptime_weight_def Let_def unat_add_no_overflow unat_div_word FIXED_POINT_BASIS_def)
  qed
  have ur: "unat u \<le> 1000000" "unat r \<le> 1000000"
    using assms by (simp_all add: word_le_nat_alt FIXED_POINT_BASIS_def)
  have mono: "compute_uptime_weight u' r' \<le> compute_uptime_weight u r" if "u' \<le> u" "r' \<le> r"
  proof -
    have "unat u' \<le> unat u" "unat r' \<le> unat r" using that by (simp_all add: word_le_nat_alt)
    then show ?thesis
      using ur by (simp add: word_le_nat_alt val add_mono div_le_mono)
  qed
  have "unat (compute_uptime_weight u r) \<le> 1000000"
    using ur by (simp add: val)
  moreover have "unat (compute_uptime_weight u r) * 1000000 \<le> unat u * 700000 + unat r * 300000"
    "unat u * 700000 + unat r * 300000 < unat (compute_uptime_weight u r) * 1000000 + 2000000"
    using floor_bounds [of "unat u * 700000"] floor_bounds [of "unat r * 300000"]
    unfolding val [OF ur] add_mult_distrib by linarith+
  ultimately show ?thesis
    using mono by (simp add: word_le_nat_alt FIXED_POINT_BASIS_def)
qed

theorem uptime_weight_bounds_witness:
  "compute_uptime_weight 900000 500000 \<le> FIXED_POINT_BASIS"
  using uptime_weight_bounds [of 900000 500000 0 0] by (simp add: FIXED_POINT_BASIS_def)

end
