(* ===== verification/Goldilocks.thy ===== *)
theory Goldilocks
  imports Prelude
begin

text \<open>
  The Goldilocks field arithmetic of \<open>core/scalar-crypto/src/poseidon2.rs\<close>: addition,
  subtraction, the division-free reduction of a \<open>u128\<close>, multiplication and
  square-and-multiply exponentiation on \<open>u64\<close>.  Each operation is related to arithmetic modulo
  the prime on natural numbers, and the S-box exponent 7 is shown to be injective modulo it: 7
  generates the multiplicative group, which is proved from the factorisation of \<open>p - 1\<close>.
\<close>

section \<open>Operations\<close>

definition GOLDILOCKS_PRIME :: u64 where
  "GOLDILOCKS_PRIME = 0xFFFFFFFF00000001"

definition overflowing_add :: "'a::len word \<Rightarrow> 'a word \<Rightarrow> 'a word \<times> bool" where
  "overflowing_add a b = (a + b, 2 ^ LENGTH('a) \<le> unat a + unat b)"

definition field_add :: "u64 \<Rightarrow> u64 \<Rightarrow> u64" where
  "field_add a b =
     (let (s, carry) = overflowing_add a b
      in if carry \<or> GOLDILOCKS_PRIME \<le> s then s - GOLDILOCKS_PRIME else s)"

definition field_sub :: "u64 \<Rightarrow> u64 \<Rightarrow> u64" where
  "field_sub a b = (if b \<le> a then a - b else (a - b) + GOLDILOCKS_PRIME)"

definition reduce_u128 :: "u128 \<Rightarrow> u64" where
  "reduce_u128 x =
     (let lo = ucast x :: u64;
          hi = ucast (drop_bit 64 x) :: u64;
          hi_lo = (ucast hi :: u128) * (push_bit 32 1 - 1);
          (s, carry) = overflowing_add lo (ucast hi_lo);
          carry_val = ucast (drop_bit 64 hi_lo) + of_bool carry;
          (result, overflow) = overflowing_add s (carry_val * (push_bit 32 1 - 1))
      in if overflow \<or> GOLDILOCKS_PRIME \<le> result then result - GOLDILOCKS_PRIME else result)"

definition field_mul :: "u64 \<Rightarrow> u64 \<Rightarrow> u64" where
  "field_mul a b = reduce_u128 (ucast a * ucast b)"

definition field_reduce :: "u64 \<Rightarrow> u64" where
  "field_reduce x = (if GOLDILOCKS_PRIME \<le> x then x - GOLDILOCKS_PRIME else x)"

function field_pow_loop :: "u64 \<Rightarrow> u64 \<Rightarrow> u64 \<Rightarrow> u64" where
  "field_pow_loop base expo result =
     (if expo = 0 then result
      else field_pow_loop (field_mul base base) (drop_bit 1 expo)
             (if expo AND 1 = 1 then field_mul result base else result))"
  by auto

lemma unat_drop_bit_1: "unat (drop_bit (Suc 0) (w :: u64)) = unat w div 2"
  by (simp add: drop_bit_eq_div unat_div_word)

termination field_pow_loop
  by (relation "measure (\<lambda>(base, expo, result). unat expo)")
     (simp_all add: unat_drop_bit_1 unat_gt_0)

declare field_pow_loop.simps [simp del]

definition field_pow :: "u64 \<Rightarrow> u64 \<Rightarrow> u64" where
  "field_pow base expo = field_pow_loop (field_reduce base) expo 1"

section \<open>Correctness of the operations\<close>

abbreviation prime_p :: nat where
  "prime_p \<equiv> 18446744069414584321"

text \<open>A canonical representative: what every operation takes and returns.\<close>

definition canonical :: "u64 \<Rightarrow> bool" where
  "canonical a \<longleftrightarrow> a < GOLDILOCKS_PRIME"

lemma unat_GOLDILOCKS_PRIME [simp]: "unat GOLDILOCKS_PRIME = prime_p"
  by (simp add: GOLDILOCKS_PRIME_def)

lemma canonical_iff: "canonical a \<longleftrightarrow> unat a < prime_p"
  by (simp add: canonical_def word_less_nat_alt)

lemma canonical_0 [simp]: "canonical 0"
  by (simp add: canonical_iff)

lemma unat_eq_canonicalI: "unat a = n mod prime_p \<Longrightarrow> canonical a"
  by (simp add: canonical_iff)

lemma unat_u64_sub_wrap:
  "unat ((a :: u64) - b) = (if unat b \<le> unat a then unat a - unat b else unat a + 2 ^ 64 - unat b)"
  by (simp add: unat_sub_if' word_le_nat_alt)

lemma unat_u64_add_wrap:
  "unat ((a :: u64) + b) =
     (if unat a + unat b < 2 ^ 64 then unat a + unat b else unat a + unat b - 2 ^ 64)"
  using unat_plus_if' [of a b] by simp

lemma reduce_last_step:
  assumes "unat a + unat b < 2 * prime_p"
  shows "unat (let (result, overflow) = overflowing_add a b
       in if overflow \<or> GOLDILOCKS_PRIME \<le> result then result - GOLDILOCKS_PRIME else result)
     = (unat a + unat b) mod prime_p"
proof -
  have "(unat a + unat b) mod prime_p =
      (if unat a + unat b < prime_p then unat a + unat b else unat a + unat b - prime_p)"
    using assms by (simp add: mod_if)
  then show ?thesis
    using assms
    by (simp add: overflowing_add_def word_le_nat_alt unat_u64_sub_wrap unat_u64_add_wrap)
qed

lemma unat_field_add:
  assumes "canonical a" "canonical b"
  shows "unat (field_add a b) = (unat a + unat b) mod prime_p"
  using reduce_last_step [of a b] assms unfolding field_add_def canonical_iff by simp

lemma unat_field_sub:
  assumes "canonical a" "canonical b"
  shows "unat (field_sub a b) = (unat a + (prime_p - unat b)) mod prime_p"
proof -
  have "unat a < prime_p" "unat b < prime_p" using assms by (simp_all add: canonical_iff)
  then have "(unat a + (prime_p - unat b)) mod prime_p =
      (if unat b \<le> unat a then unat a - unat b else unat a + (prime_p - unat b))"
    by (auto simp: mod_if)
  then show ?thesis
    using \<open>unat a < prime_p\<close> \<open>unat b < prime_p\<close>
    by (auto simp add: field_sub_def word_le_nat_alt unat_u64_sub_wrap unat_u64_add_wrap)
qed

lemma unat_field_reduce: "unat (field_reduce x) = unat x mod prime_p"
proof -
  have "unat x < 2 ^ 64" using u64_bound [of x] by simp
  then show ?thesis
    by (simp add: field_reduce_def word_le_nat_alt unat_u64_sub_wrap mod_if)
qed

text \<open>The reduction, on natural numbers: the input and the sum it reduces to differ by a
  multiple of the prime, and one conditional subtraction finishes it.\<close>

lemma reduce_sum_cong:
  fixes lo hi :: nat
  defines "hl \<equiv> hi * 4294967295"
  defines "t \<equiv> lo + hl mod 2 ^ 64"
  defines "cv \<equiv> hl div 2 ^ 64 + t div 2 ^ 64"
  shows "(t mod 2 ^ 64 + cv * 4294967295) mod prime_p = (lo + 2 ^ 64 * hi) mod prime_p"
proof -
  have 1: "hl = 2 ^ 64 * (hl div 2 ^ 64) + hl mod 2 ^ 64" by simp
  have 2: "t = 2 ^ 64 * (t div 2 ^ 64) + t mod 2 ^ 64" by simp
  have "lo + hl = t mod 2 ^ 64 + 2 ^ 64 * cv"
    using 1 2 unfolding t_def cv_def by (simp add: algebra_simps)
  then have "lo + 2 ^ 64 * hi = (t mod 2 ^ 64 + cv * 4294967295) + prime_p * (hi + cv)"
    unfolding hl_def by (simp add: algebra_simps)
  then show ?thesis by (simp only: mod_mult_self2)
qed

lemma reduce_carry_bounds:
  fixes lo hi :: nat
  assumes "lo < 2 ^ 64" "hi < 2 ^ 64"
  defines "hl \<equiv> hi * 4294967295"
  defines "t \<equiv> lo + hl mod 2 ^ 64"
  shows "hl div 2 ^ 64 < 4294967295" and "t < 2 * 2 ^ 64" and "hl < 2 ^ 128"
proof -
  have "hl < 4294967295 * 2 ^ 64" using assms(2) by (simp add: hl_def)
  then show "hl div 2 ^ 64 < 4294967295" by (simp add: less_mult_imp_div_less)
  have "hl mod 2 ^ 64 < 2 ^ 64" by simp
  with assms(1) show "t < 2 * 2 ^ 64" by (simp add: t_def)
  show "hl < 2 ^ 128" using assms(2) by (simp add: hl_def)
qed

lemma ucast_u128_u64_mod: "unat (ucast (x :: u128) :: u64) = unat x mod 2 ^ 64"
  by (simp add: unsigned_ucast_eq take_bit_eq_mod)

lemma unat_drop_bit_64: "unat (drop_bit 64 (x :: u128)) = unat x div 2 ^ 64"
proof -
  have "unat (18446744073709551616 :: u128) = 18446744073709551616" by simp
  then show ?thesis by (simp add: drop_bit_eq_div unat_div_word)
qed

lemma unat_reduce_u128: "unat (reduce_u128 x) = unat x mod prime_p"
proof -
  define lo where "lo = (ucast x :: u64)"
  define hi where "hi = (ucast (drop_bit 64 x) :: u64)"
  define hi_lo where "hi_lo = (ucast hi :: u128) * (push_bit 32 1 - 1)"
  define s where "s = lo + ucast hi_lo"
  define carry where "carry = (2 ^ 64 \<le> unat lo + unat (ucast hi_lo :: u64))"
  define cv where "cv = (ucast (drop_bit 64 hi_lo) :: u64) + of_bool carry"
  define l h hl where "l = unat lo" and "h = unat hi" and "hl = h * 4294967295"
  define t c where "t = l + hl mod 2 ^ 64" and "c = hl div 2 ^ 64 + t div 2 ^ 64"
  have bounds: "l < 2 ^ 64" "h < 2 ^ 64"
    using u64_bound [of lo] u64_bound [of hi] by (simp_all add: l_def h_def)
  note cb = reduce_carry_bounds [OF bounds, folded hl_def, folded t_def]
  have x: "unat x = l + 2 ^ 64 * h"
  proof -
    have "unat x div 2 ^ 64 < 2 ^ 64" using u128_bound [of x] by (simp add: less_mult_imp_div_less)
    then show ?thesis
      by (simp add: l_def h_def lo_def hi_def ucast_u128_u64_mod unat_drop_bit_64)
  qed
  have hl: "unat hi_lo = hl"
  proof -
    have "unat (ucast hi :: u128) * unat (4294967295 :: u128) = hl" by (simp add: hl_def h_def)
    with cb(3) have "unat ((ucast hi :: u128) * 4294967295) = hl"
      by (subst unat_mult_no_overflow) auto
    then show ?thesis by (simp add: hi_lo_def push_bit_eq_mult)
  qed
  have tt: "unat lo + unat (ucast hi_lo :: u64) = t"
    by (simp add: ucast_u128_u64_mod hl t_def l_def)
  have s: "unat s = t mod 2 ^ 64"
    using tt by (simp add: s_def unat_word_ariths)
  have tdiv: "t div 2 ^ 64 = of_bool carry"
    using cb(2) by (auto simp: carry_def tt div_if)
  have cv: "unat cv = c" and c: "c \<le> 4294967295"
  proof -
    have a: "unat (ucast (drop_bit 64 hi_lo) :: u64) = hl div 2 ^ 64"
      using cb(1) by (simp add: ucast_u128_u64_mod unat_drop_bit_64 hl)
    show "unat cv = c" using cb(1) tdiv by (cases carry) (simp_all add: cv_def unat_u64_add_wrap a c_def)
    show "c \<le> 4294967295" using cb(1) tdiv by (cases carry) (simp_all add: c_def)
  qed
  have m: "unat (cv * (push_bit 32 1 - 1)) = c * 4294967295"
    using c by (simp add: push_bit_eq_mult unat_word_ariths cv)
  define r where "r = t mod 2 ^ 64 + c * 4294967295"
  have r: "r < 2 * prime_p"
    using c by (simp add: r_def)
  have "reduce_u128 x =
      (let (result, overflow) = overflowing_add s (cv * (push_bit 32 1 - 1))
       in if overflow \<or> GOLDILOCKS_PRIME \<le> result then result - GOLDILOCKS_PRIME else result)"
    unfolding reduce_u128_def lo_def hi_def hi_lo_def s_def carry_def cv_def
    by (simp only: Let_def overflowing_add_def prod.case len_bit0 len_num1 mult_1_right power_numeral
        mult_numeral_1_right) simp
  then have "unat (reduce_u128 x) = r mod prime_p"
    using reduce_last_step [of s "cv * (push_bit 32 1 - 1)"] s m r by (simp only: r_def)
  also have "\<dots> = unat x mod prime_p"
    using reduce_sum_cong [of l h, folded hl_def, folded t_def, folded c_def, folded r_def] x
    by simp
  finally show ?thesis .
qed


lemma unat_field_mul: "unat (field_mul a b) = (unat a * unat b) mod prime_p"
proof -
  have "unat a * unat b < 2 ^ 64 * 2 ^ 64"
    using u64_bound [of a] u64_bound [of b] by (intro mult_strict_mono) simp_all
  then have "unat (ucast a * ucast b :: u128) = unat a * unat b"
    by (subst unat_mult_no_overflow) simp_all
  then show ?thesis by (simp add: field_mul_def unat_reduce_u128)
qed

lemma canonical_field_ops [simp]:
  "canonical (field_mul a b)" "canonical (field_reduce a)" "canonical (reduce_u128 x)"
  "canonical a \<Longrightarrow> canonical b \<Longrightarrow> canonical (field_add a b)"
  "canonical a \<Longrightarrow> canonical b \<Longrightarrow> canonical (field_sub a b)"
  by (rule unat_eq_canonicalI, rule unat_field_mul unat_field_reduce unat_reduce_u128
      unat_field_add unat_field_sub; assumption)+

lemma unat_and_1: "(w :: 'a::len word) AND 1 = 1 \<longleftrightarrow> odd (unat w)"
proof -
  have "w AND 1 = 1 \<longleftrightarrow> odd w" by (simp add: and_one_eq odd_iff_mod_2_eq_one)
  also have "\<dots> \<longleftrightarrow> odd (unat w)" using bit_unsigned_iff [where 'a = nat and w = w and n = 0] by (simp add: bit_0)
  finally show ?thesis .
qed

lemma mod_mult_power_mod: "(r * (q mod m) ^ k) mod m = (r * q ^ k) mod (m :: nat)"
  by (metis mod_mult_right_eq power_mod)

lemma unat_field_pow_loop:
  "unat (field_pow_loop base expo result) mod prime_p =
     (unat result * unat base ^ unat expo) mod prime_p"
proof (induction base expo result rule: field_pow_loop.induct)
  case (1 base expo result)
  show ?case
  proof (cases "expo = 0")
    case True
    then show ?thesis by (simp add: field_pow_loop.simps)
  next
    case False
    define e where "e = unat expo"
    define r' where "r' = (if expo AND 1 = 1 then field_mul result base else result)"
    have r': "unat r' mod prime_p = (unat result * unat base ^ (e mod 2)) mod prime_p"
      by (simp add: r'_def unat_and_1 unat_field_mul e_def odd_iff_mod_2_eq_one)
    have "unat (field_pow_loop base expo result) mod prime_p =
        (unat r' * unat (field_mul base base) ^ (e div 2)) mod prime_p"
      using 1 [OF False] False
      by (simp add: field_pow_loop.simps [of base] r'_def e_def unat_drop_bit_1)
    also have "\<dots> = ((unat r' mod prime_p) * ((unat base * unat base) ^ (e div 2))) mod prime_p"
      by (simp only: unat_field_mul mod_mult_power_mod mod_mult_left_eq)
    also have "\<dots> = (unat result * (unat base ^ (e mod 2) * (unat base * unat base) ^ (e div 2))) mod prime_p"
      by (simp add: r' mod_mult_left_eq mult.assoc)
    also have "unat base ^ (e mod 2) * (unat base * unat base) ^ (e div 2) = unat base ^ e"
      by (simp flip: power2_eq_square power_mult power_add)
    finally show ?thesis by (simp add: e_def)
  qed
qed

lemma canonical_field_pow_loop:
  "canonical result \<Longrightarrow> canonical (field_pow_loop base expo result)"
proof (induction base expo result rule: field_pow_loop.induct)
  case (1 base expo result)
  then show ?case by (subst field_pow_loop.simps) simp
qed

lemma canonical_field_pow [simp]: "canonical (field_pow base expo)"
proof -
  have "canonical 1" by (simp add: canonical_iff)
  then show ?thesis by (simp add: field_pow_def canonical_field_pow_loop)
qed

lemma unat_field_pow: "unat (field_pow base expo) = (unat base ^ unat expo) mod prime_p"
proof -
  have "unat (field_pow base expo) = unat (field_pow base expo) mod prime_p"
    using canonical_field_pow [of base expo] by (simp add: canonical_iff)
  also have "\<dots> = (unat base ^ unat expo) mod prime_p"
    by (simp add: field_pow_def unat_field_pow_loop unat_field_reduce power_mod)
  finally show ?thesis .
qed

section \<open>The multiplicative group\<close>

definition prime_nat :: "nat \<Rightarrow> bool" where
  "prime_nat r \<longleftrightarrow> 1 < r \<and> (\<forall>d. d dvd r \<longrightarrow> d = 1 \<or> d = r)"

lemma prime_nat_coprime: "prime_nat r \<Longrightarrow> \<not> r dvd x \<Longrightarrow> coprime x r"
  by (metis coprime_iff_gcd_eq_1 gcd_dvd1 gcd_dvd2 prime_nat_def)

lemma exists_prime_divisor:
  assumes "1 < (n :: nat)"
  obtains r where "prime_nat r" "r dvd n" "\<And>d. 1 < d \<Longrightarrow> d dvd n \<Longrightarrow> r \<le> d"
proof -
  define r where "r = (LEAST d. 1 < d \<and> d dvd n)"
  have r: "1 < r \<and> r dvd n" 
    unfolding r_def by (rule LeastI [of "\<lambda>d. 1 < d \<and> d dvd n" n]) (use assms in simp)
  have min: "r \<le> d" if "1 < d" "d dvd n" for d
    unfolding r_def by (rule Least_le) (use that in simp)
  have "d = 1 \<or> d = r" if "d dvd r" for d
  proof (cases "1 < d")
    case True
    with that r have "r \<le> d" by (meson dvd_trans min)
    with that r show ?thesis by (simp add: dvd_imp_le le_antisym)
  next
    case False
    moreover have "d \<noteq> 0" using that r by (metis dvd_0_left_iff not_one_less_zero)
    ultimately show ?thesis by simp
  qed
  with r have "prime_nat r" unfolding prime_nat_def by blast
  with r min that show thesis by blast
qed

text \<open>Fermat's little theorem.\<close>

lemma fermat:
  assumes r: "prime_nat r" and x: "\<not> r dvd x"
  shows "x ^ (r - 1) mod r = 1"
proof -
  define A where "A = {1..<r}"
  have cop: "coprime x r" using r x by (rule prime_nat_coprime)
  have r1: "1 < r" using r by (simp add: prime_nat_def)
  have nd: "\<not> r dvd i" if "i \<in> A" for i using that by (auto simp: A_def dvd_imp_le dest!: dvd_imp_le)
  have inj: "inj_on (\<lambda>i. x * i mod r) A"
  proof (rule linorder_inj_onI)
    fix i j assume ij: "i < j" "i \<in> A" "j \<in> A"
    then have "x * i \<le> x * j" by simp
    show "x * i mod r \<noteq> x * j mod r"
    proof
      assume "x * i mod r = x * j mod r"
      then have "r dvd x * j - x * i"
        using \<open>x * i \<le> x * j\<close> mod_eq_dvd_iff_nat [of "x * i" "x * j" r] by metis
      then have "r dvd j - i"
        using cop by (simp add: diff_mult_distrib2 [symmetric] coprime_commute coprime_dvd_mult_right_iff)
      moreover have "j - i \<in> A" using ij by (auto simp: A_def)
      ultimately show False using nd by blast
    qed
  qed auto
  have sub: "(\<lambda>i. x * i mod r) ` A \<subseteq> A"
  proof clarify
    fix i assume "i \<in> A"
    then have "\<not> r dvd x * i"
      using nd cop by (simp add: coprime_commute coprime_dvd_mult_right_iff)
    then have "x * i mod r \<noteq> 0" by (simp add: dvd_eq_mod_eq_0)
    then show "x * i mod r \<in> A" using r1 by (simp add: A_def)
  qed
  have "(\<lambda>i. x * i mod r) ` A = A" using sub inj by (intro endo_inj_surj) (simp_all add: A_def)
  then have "\<Prod>A = (\<Prod>i\<in>A. x * i mod r)" using inj by (metis prod.reindex_cong)
  then have "\<Prod>A mod r = (\<Prod>i\<in>A. x * i) mod r" by (simp add: mod_prod_eq)
  also have "(\<Prod>i\<in>A. x * i) = x ^ (r - 1) * \<Prod>A"
    by (simp add: prod.distrib A_def)
  finally have eq: "x ^ (r - 1) * \<Prod>A mod r = \<Prod>A mod r" by simp
  have le: "\<Prod>A \<le> x ^ (r - 1) * \<Prod>A" using x by (cases "x = 0") simp_all
  have "r dvd x ^ (r - 1) * \<Prod>A - \<Prod>A" using eq le mod_eq_dvd_iff_nat by metis
  then have "r dvd \<Prod>A * (x ^ (r - 1) - 1)" by (simp add: diff_mult_distrib2 mult.commute)
  moreover have "coprime r (\<Prod>A)"
    using nd r by (intro prod_coprime_right) (metis coprime_commute prime_nat_coprime)
  ultimately have "r dvd x ^ (r - 1) - 1" by (simp add: coprime_dvd_mult_right_iff)
  moreover have "1 \<le> x ^ (r - 1)" using x by (cases "x = 0") simp_all
  ultimately show ?thesis using r1 mod_eq_dvd_iff_nat [of 1 "x ^ (r - 1)" r] by simp
qed

text \<open>An element of order \<open>2 ^ 32\<close>, by repeated squaring down to \<open>- 1\<close>; each step comes
  with its quotient, so that the kernel only multiplies.\<close>

fun square_chain :: "nat \<Rightarrow> nat \<Rightarrow> (nat \<times> nat) list \<Rightarrow> nat option" where
  "square_chain m a [] = Some a"
| "square_chain m a ((q, c) # cs) = (if a * a = m * q + c then if c < m then square_chain m c cs else None else None)"

lemma square_chain_power:
  "square_chain m a cs = Some c \<Longrightarrow> a < m \<Longrightarrow> a ^ 2 ^ length cs mod m = c"
proof (induction m a cs rule: square_chain.induct)
  case (2 m a q d cs)
  then have d: "a * a = m * q + d" "d < m" and "d ^ 2 ^ length cs mod m = c"
    by (simp_all split: if_splits)
  moreover have "a ^ 2 ^ Suc (length cs) mod m = (a * a mod m) ^ 2 ^ length cs mod m"
    by (simp add: power_mult power2_eq_square power_mod)
  ultimately show ?case by simp
qed simp

definition root_2_32 :: nat where
  "root_2_32 = 1753635133440165772"

lemma root_of_unity: "root_2_32 ^ 2 ^ 31 mod prime_p = prime_p - 1"
proof -
  define cs :: "(nat \<times> nat) list" where "cs = [
      (166708887468903991, 4614640910117430873),
      (1154399424049971884, 9123114210336311365),
      (4511973093009996851, 16116352524544190054),
      (14080361158478670879, 6414415596519834757),
      (2230460144622294524, 1213594585890690845),
      (79841288704448195, 17096174751763063430),
      (15844486704156700236, 5456943929260765144),
      (1614281465338340559, 9713644485405565297),
      (5114988793349933654, 16905767614792059275),
      (15493518941330557636, 5416168637041100469),
      (1590247178281506213, 17654865857378133588),
      (16896981237942002723, 3511170319078647661),
      (668319404399374695, 18146160046829613826),
      (17850473948468743512, 9306717745644682924),
      (4695408299218975106, 12380578893860276750),
      (8309256808156222390, 6115771955107415310),
      (2027602620068516376, 17776499369601055404),
      (17130607366173278638, 16207902636198568418),
      (14240784545824149997, 1532612707718625687),
      (127334216977357403, 17492915097719143606),
      (16588405924890216597, 455906449640507599),
      (11267608529812975, 11353340290879379826),
      (6987592784692205430, 1803076106186727246),
      (176241586724885086, 13797081185216407910),
      (10319406422896923811, 17870292113338400769),
      (17311854006015885313, 549755813888),
      (16384, 70368744161280),
      (268435455, 17293822564807737345),
      (16212958654255595520, 18446744069397807105),
      (18446744069381029889, 281474976710656),
      (4294967296, 18446744069414584320)]"
  have "square_chain prime_p 1753635133440165772 cs = Some (prime_p - 1)" by (simp add: cs_def)
  then have "square_chain prime_p root_2_32 cs = Some (prime_p - 1)" by (simp only: root_2_32_def)
  moreover have "root_2_32 < prime_p" by (simp add: root_2_32_def)
  ultimately have "root_2_32 ^ 2 ^ length cs mod prime_p = prime_p - 1" by (rule square_chain_power)
  moreover have "length cs = 31" by (simp add: cs_def)
  ultimately show ?thesis by (simp only:)
qed

text \<open>A divisor of a power of two that does not divide the previous one is the power itself:
  so the order of an element whose \<open>2 ^ k\<close>-th power is \<open>- 1\<close> is \<open>2 ^ (k + 1)\<close>.\<close>

lemma power_gcd_mod:
  assumes "coprime b r" "b ^ m mod r = 1" "b ^ n mod r = 1"
  shows "b ^ gcd m n mod r = (1 :: nat)"
  using assms(2,3)
proof (induction m n rule: gcd_nat_induct)
  case (step m n)
  have "b ^ m = (b ^ n) ^ (m div n) * b ^ (m mod n)"
    by (simp flip: power_mult power_add)
  then have "b ^ m mod r = (b ^ n mod r) ^ (m div n) * b ^ (m mod n) mod r"
    by (metis mod_mult_left_eq power_mod)
  then have "b ^ (m mod n) mod r = 1" using step.prems by simp
  with step have "b ^ gcd n (m mod n) mod r = 1" by blast
  then show ?case by (simp add: gcd_red_nat [of m n])
qed simp

lemma two_power_divisor:
  assumes "d dvd 2 ^ n"
  obtains j where "j \<le> n" "d = (2 :: nat) ^ j"
proof -
  have "\<exists>j\<le>n. d = 2 ^ j" using assms
  proof (induction n arbitrary: d)
    case (Suc n)
    show ?case
    proof (cases "even d")
      case True
      then obtain e where "d = 2 * e" by blast
      with Suc obtain j where "j \<le> n" "e = 2 ^ j" by auto
      with \<open>d = 2 * e\<close> show ?thesis by (intro exI [of _ "Suc j"]) simp
    next
      case False
      then have "coprime d (2 ^ Suc n)" by simp
      with Suc.prems have "d = 1" by (metis coprime_absorb_left nat_dvd_1_iff_1)
      then show ?thesis by (intro exI [of _ 0]) simp
    qed
  qed simp
  then show thesis using that by blast
qed

lemma order_two_power:
  assumes r: "prime_nat r" "2 < r" and b: "b ^ 2 ^ k mod r = r - 1"
  shows "2 ^ Suc k dvd r - 1"
proof -
  have nd: "\<not> r dvd b"
  proof
    assume "r dvd b"
    then have "r dvd b ^ 2 ^ k" by (rule dvd_trans) (simp add: dvd_power)
    then have "b ^ 2 ^ k mod r = 0" by simp
    with b r show False by simp
  qed
  have "b ^ 2 ^ Suc k mod r = (r - 1) * (r - 1) mod r"
  proof -
    have "b ^ 2 ^ Suc k = b ^ 2 ^ k * b ^ 2 ^ k" by (simp add: mult_2 power_add)
    then show ?thesis by (metis b mod_mult_eq)
  qed
  also have "(r - 1) * (r - 1) = 1 + r * (r - 2)"
    using r(2) by (cases r) (auto simp: algebra_simps numeral_2_eq_2 split: nat_diff_split)
  finally have full: "b ^ 2 ^ Suc k mod r = 1" using r(2) mod_mult_self2 [of 1 r "r - 2"] by simp
  define g where "g = gcd (2 ^ Suc k) (r - 1)"
  have g: "b ^ g mod r = 1"
    unfolding g_def using prime_nat_coprime [OF r(1) nd] full fermat [OF r(1) nd] by (rule power_gcd_mod)
  obtain j where j: "j \<le> Suc k" "g = 2 ^ j"
    using two_power_divisor [of g "Suc k"] unfolding g_def by auto
  show ?thesis
  proof (cases "j = Suc k")
    case True
    with j show ?thesis unfolding g_def by (metis gcd_dvd2)
  next
    case False
    then have "2 ^ k = g * 2 ^ (k - j)" using j by (simp flip: power_add)
    then have "b ^ 2 ^ k mod r = (b ^ g mod r) ^ 2 ^ (k - j) mod r"
      by (simp add: power_mult power_mod)
    with g b r show ?thesis by simp
  qed
qed

lemma prime_prime_p: "prime_nat prime_p"
proof -
  obtain r where r: "prime_nat r" "r dvd prime_p" and min: "\<And>d. 1 < d \<Longrightarrow> d dvd prime_p \<Longrightarrow> r \<le> d"
    by (rule exists_prime_divisor [of prime_p]) (simp, iprover)
  have "odd r" using r(2) by (meson dvd_trans even_numeral odd_numeral)
  with r(1) have r2: "2 < r" unfolding prime_nat_def by (cases "r = 2") auto
  have "root_2_32 ^ 2 ^ 31 mod r = (prime_p - 1) mod r"
    using root_of_unity mod_mod_cancel [OF r(2), of "root_2_32 ^ 2 ^ 31"] by (simp only:)
  also have "(prime_p - 1) mod r = r - 1"
  proof -
    obtain s where s: "prime_p = r * s" using r(2) by blast
    then have "s > 0" by (cases s) simp_all
    then have "prime_p - 1 = r * (s - 1) + (r - 1)" using r2 unfolding s
      by (cases s) (simp_all add: algebra_simps)
    then have "(prime_p - 1) mod r = (r - 1) mod r" by (simp only: mod_mult_self4)
    then show ?thesis using r2 by simp
  qed
  finally have "2 ^ Suc 31 dvd r - 1" by (rule order_two_power [OF r(1) r2])
  then have big: "4294967297 \<le> r" using r2 by (auto dest: dvd_imp_le)
  obtain s where s: "prime_p = r * s" using r(2) by blast
  have "s = 1"
  proof (rule ccontr)
    assume "s \<noteq> 1"
    moreover have "s \<noteq> 0" using s by (cases s) simp_all
    moreover have "s dvd prime_p" using s by (metis dvd_triv_right)
    ultimately have "r \<le> s" by (intro min) auto
    with big have "4294967297 * 4294967297 \<le> r * s" by (intro mult_le_mono) auto
    then show False using s by simp
  qed
  with s r(1) show ?thesis by simp
qed

section \<open>The S-box exponent\<close>

lemma seventh_power_inverse:
  assumes "x < prime_p"
  shows "(x ^ 7 mod prime_p) ^ 10540996611094048183 mod prime_p = x"
proof (cases "x = 0")
  case False
  then have nd: "\<not> prime_p dvd x" using assms by (auto dest: dvd_imp_le)
  have "(x ^ 7) ^ 10540996611094048183 = x * (x ^ (prime_p - 1)) ^ 4"
  proof -
    have "7 * 10540996611094048183 = Suc ((prime_p - 1) * 4)" by simp
    then show ?thesis by (simp only: power_mult [symmetric] power_Suc)
  qed
  then have "(x ^ 7) ^ 10540996611094048183 mod prime_p = x * (x ^ (prime_p - 1) mod prime_p) ^ 4 mod prime_p"
    by (simp only: mod_mult_power_mod)
  then show ?thesis using fermat [OF prime_prime_p nd] assms by (simp add: power_mod)
qed simp

lemma seventh_power_inj:
  assumes "x < prime_p" "y < prime_p" "x ^ 7 mod prime_p = y ^ 7 mod prime_p"
  shows "x = y"
  using seventh_power_inverse [of x] seventh_power_inverse [of y] assms by metis


section \<open>Summary\<close>

text \<open>C8. The \<open>u64\<close> operations compute in the field of order \<open>p = 2 ^ 64 - 2 ^ 32 + 1\<close>: addition
  and subtraction of canonical elements, multiplication and exponentiation of any two words
  (the 128-bit product is reduced without a division), each returning the canonical
  representative of the result modulo \<open>p\<close>.\<close>

theorem goldilocks_arithmetic:
  assumes "canonical a" "canonical b"
  shows "unat (field_add a b) = (unat a + unat b) mod prime_p \<and>
    unat (field_sub a b) = (unat a + prime_p - unat b) mod prime_p \<and>
    unat (field_add (field_sub a b) b) = unat a \<and>
    unat (field_mul x y) = unat x * unat y mod prime_p \<and>
    unat (field_pow x n) = unat x ^ unat n mod prime_p \<and>
    unat (reduce_u128 z) = unat z mod prime_p"
proof -
  have "unat (field_add (field_sub a b) b) = (unat a + (prime_p - unat b) + unat b) mod prime_p"
    using assms by (simp add: unat_field_add unat_field_sub mod_add_left_eq)
  also have "\<dots> = unat a" using assms by (simp add: canonical_iff)
  finally have "unat (field_add (field_sub a b) b) = unat a" .
  moreover have "unat b \<le> prime_p" using assms(2) by (simp add: canonical_iff)
  ultimately show ?thesis
    using assms by (simp add: unat_field_add unat_field_sub unat_field_mul unat_field_pow unat_reduce_u128)
qed

theorem goldilocks_arithmetic_witness:
  "unat (field_add (field_sub 3 (GOLDILOCKS_PRIME - 1)) (GOLDILOCKS_PRIME - 1)) = 3
   \<and> unat (field_sub 3 (GOLDILOCKS_PRIME - 1)) = 4 \<and> unat (field_sub 3 3) = 0"
proof -
  have c: "canonical 3" "canonical (GOLDILOCKS_PRIME - 1)"
    by (simp_all add: canonical_iff GOLDILOCKS_PRIME_def)
  from goldilocks_arithmetic [OF c] goldilocks_arithmetic [OF c(1,1)] show ?thesis
    by (simp add: GOLDILOCKS_PRIME_def)
qed

end
