(* ===== verification/Poseidon2.thy ===== *)
theory Poseidon2
  imports Goldilocks
begin

text \<open>
  The Poseidon2 hash of \<open>core/scalar-crypto/src/poseidon2.rs\<close> at width 4: the round constants
  and matrices, the permutation with its 8 full and 22 partial rounds, the padded sponge, the
  hash of bytes and the two-to-one compression \<open>hash_2_to_1\<close>.  A state \<open>[u64; 4]\<close> is a list of
  length 4.  Main results: the permutation permutes the states of canonical field elements, the
  sponge padding is injective, and the byte encoding in front of it is not.
\<close>

section \<open>Parameters\<close>

definition WIDTH :: nat where
  "WIDTH = 4"

definition SBOX_EXPONENT :: u64 where
  "SBOX_EXPONENT = 7"

definition FULL_ROUNDS :: nat where
  "FULL_ROUNDS = 8"

definition PARTIAL_ROUNDS :: nat where
  "PARTIAL_ROUNDS = 22"

definition RATE :: nat where
  "RATE = WIDTH - 1"

definition ROUND_CONSTANTS :: "u64 list list" where
  "ROUND_CONSTANTS =
    [[0x3AAED6E034FEF709, 0x2DA65CF597408562, 0xA7AACE2D982BCB6A, 0xBC121600D772D547],
     [0x1B114EF06F74865A, 0x58AB3321665A38C2, 0xEC6E45FEF040C842, 0x9DC72EFE8EB36D95],
     [0x69309D63AD1865C9, 0x71A7FF71644D8E7E, 0x5A8D7027238A428, 0xE2F309A35ADF55A3],
     [0xAAB6A20F988E3A49, 0xB2A1E4506874EBF9, 0x31ACA8878A23C40D, 0x9A67297D522172C7],
     [0xD63B2A0D592F9779, 0x3A610B62597D4252, 0xC35857316552EE9C, 0xEB7B4B8EFCEF4B6A],
     [0x1849A3E493848923, 0x6BFAACBB4FF1DB98, 0x3EB14CD17D192D03, 0x133E95099396DA3C],
     [0xB8735F19F764CF4C, 0x3A15F2BCAC9CF32E, 0xB5F0C9217F35CF57, 0x1FD04C544470EAFD],
     [0xC8A2058487AC0285, 0x5E0BE2F9EAC6AAD5, 0xEE4FC2378B7C35F8, 0xEB8047E6BE838132],
     [0x5543806B9D76CE9, 0x7FABCC72309725B2, 0xC7A3868A71FD4D8F, 0xD29015C3C417E4BB],
     [0x56B7C4440CC9E9C8, 0xD8B1C629E71BB164, 0xF4C0847CA9341AC4, 0x1F8546DC97CDBA25],
     [0x3C56B447F4137881, 0x59B35F9C795255CF, 0x32E7CA296FE46732, 0x2CC294AD1A52A94D],
     [0x1060B200E2725944, 0x3EE35F5EE6A0F0CD, 0x71BA8842CF6A016F, 0x68060A2FFDCE977D],
     [0x2F3E3D3E3B283902, 0x350BF8D978A3670F, 0xD0D9C23DB3CBD8C5, 0x16F68724B6900378],
     [0x7C2BF4809B9782DD, 0x52AF0B40E08C9D0, 0xD831FB83BE48C0AF, 0xE8A94BFB9464613E],
     [0x2C96A7D0898DBE1B, 0x38364D93A426BBD5, 0x2912A5153ED0BA7C, 0xAF0925D868358F2],
     [0x362CDCB4D9E7CC6E, 0x194A6B07FF7AE21D, 0x28DD53B3BCD5E851, 0x59FB7AFB4BEE528C],
     [0x4BD0360314BC46A0, 0x76257530C706D7A, 0x5B790519CAF338C1, 0x454CDCA868C6610C],
     [0x426CA38CCA16970D, 0xC9555FE6EFA48F9A, 0x23F18CD0CA651B3A, 0x12F6BE2551A9ECE4],
     [0x5D19CD85625E6CD4, 0x33F57ECB7F9988B, 0x51DBF1D36DA0E24F, 0x3E077397F307B7D4],
     [0x96024145DB4A13DA, 0x2BE4BA6BD810A850, 0xD49CFACE475C85EB, 0x54B101B103564356],
     [0x51DAF7526C6D3721, 0x9E2C63CCADB3E457, 0x7574671C8831BD72, 0x593906603A027573],
     [0xBF978D0D430A1038, 0x16498E417FBDA281, 0x3324B0966A2B5C61, 0xB565EA80A19F1465],
     [0xB1F1E0F1DFE67DC4, 0x69EE318D5037863, 0x25015C57735EC6D, 0x83CA2CB6AFC9C0B5],
     [0x9ACA0C65658045DA, 0x32C72B854AA33F6A, 0x1B86C06C65E563E9, 0xD3B2E743605233C7],
     [0xDE5453CDB5F6A3C1, 0x160C94D47B36BA4E, 0xC572402FA8C73CC1, 0x59231B2EE92C0409],
     [0x5B087175E09EE36, 0xB2E9C18902A18E06, 0x5846001972BA7DA8, 0x6AEBCD9ABD529048],
     [0x2D3A03ADC848EAB1, 0x9B779AC00FBB85DB, 0x4EBB1BBD83118149, 0x263F74AB9D87DA4B],
     [0x8A7FCC51F6FEC3C8, 0x879BDB1CB5D7D9A2, 0x812D6A0B9D0363E5, 0xAD371D1ACF8F155B],
     [0xB250667F5E91F0BA, 0x5C54378B048155DD, 0x297D13F80000CB3, 0xF2ABFE46670B1961],
     [0x4880F5BC96111CDE, 0xE89150E848FA6BD6, 0x6E504D15B09E7E2E, 0xD02E8FC81D0B1A92]]"

definition MATRIX_FULL :: "u64 list list" where
  "MATRIX_FULL = [[5, 7, 1, 3], [3, 5, 7, 1], [1, 3, 5, 7], [7, 1, 3, 5]]"

definition MAT_DIAG4_M_1 :: "u64 list" where
  "MAT_DIAG4_M_1 = [0, 1, 2, 3]"

section \<open>Permutation\<close>

definition sbox :: "u64 \<Rightarrow> u64" where
  "sbox x = field_pow x SBOX_EXPONENT"

definition mds_multiply_full :: "u64 list \<Rightarrow> u64 list" where
  "mds_multiply_full state =
     map (\<lambda>i. fold (\<lambda>j acc. field_add acc (field_mul (MATRIX_FULL ! i ! j) (state ! j))) [0..<WIDTH] 0)
       [0..<WIDTH]"

definition mds_multiply_partial :: "u64 list \<Rightarrow> u64 list" where
  "mds_multiply_partial state =
     (let s = fold (\<lambda>x acc. field_add acc x) state 0
      in map (\<lambda>i. field_add s (field_mul (state ! i) (MAT_DIAG4_M_1 ! i))) [0..<WIDTH])"

definition full_round :: "u64 list \<Rightarrow> u64 list \<Rightarrow> u64 list" where
  "full_round rc state = mds_multiply_full (map sbox (map2 field_add state rc))"

definition partial_round :: "u64 list \<Rightarrow> u64 list \<Rightarrow> u64 list" where
  "partial_round rc state =
     (let state = map2 field_add state rc
      in mds_multiply_partial (state[0 := sbox (state ! 0)]))"

definition poseidon2_permutation :: "u64 list \<Rightarrow> u64 list" where
  "poseidon2_permutation state =
     (let half_full = FULL_ROUNDS div 2;
          state = mds_multiply_full state;
          state = fold full_round (take half_full ROUND_CONSTANTS) state;
          state = fold partial_round (take PARTIAL_ROUNDS (drop half_full ROUND_CONSTANTS)) state
      in fold full_round (take half_full (drop (half_full + PARTIAL_ROUNDS) ROUND_CONSTANTS)) state)"

section \<open>Sponge and public functions\<close>

function pad_to_rate :: "u64 list \<Rightarrow> u64 list" where
  "pad_to_rate padded = (if length padded mod RATE = 0 then padded else pad_to_rate (padded @ [0]))"
  by auto

lemma RATE_eq [simp]: "RATE = 3"
  by (simp add: RATE_def WIDTH_def)

termination pad_to_rate
proof (relation "measure (\<lambda>padded. (3 - length padded mod 3) mod 3)")
  fix padded :: "u64 list"
  assume "length padded mod RATE \<noteq> 0"
  then show "(padded @ [0], padded) \<in> measure (\<lambda>padded. (3 - length padded mod 3) mod 3)"
    by (auto simp: mod_Suc)
qed simp

declare pad_to_rate.simps [simp del]

definition sponge_padding :: "u64 list \<Rightarrow> u64 list" where
  "sponge_padding input =
     (let padded = pad_to_rate (map field_reduce input @ [1]);
          l = length padded - 1
      in padded[l := field_add (padded ! l) 1])"

definition absorb_chunk :: "u64 list \<Rightarrow> u64 list \<Rightarrow> u64 list" where
  "absorb_chunk chunk state =
     poseidon2_permutation (map2 field_add (take (length chunk) state) chunk @ drop (length chunk) state)"

definition poseidon2_hash :: "u64 list \<Rightarrow> u64 list" where
  "poseidon2_hash input =
     (let state = fold absorb_chunk (chunks RATE (sponge_padding input)) (replicate WIDTH 0);
          out0 = state ! 0;
          out1 = state ! 1;
          state = poseidon2_permutation state
      in [out0, out1, state ! 0, state ! 1])"

definition hash_bytes_to_field :: "bytes \<Rightarrow> u64 list" where
  "hash_bytes_to_field input =
     (let field_elems = map (\<lambda>chunk. field_reduce (from_le_bytes (chunk @ replicate (8 - length chunk) 0)))
            (chunks 8 input);
          field_elems = (if field_elems = [] then [0] else field_elems)
      in poseidon2_hash field_elems)"

definition hash_2_to_1 :: "u64 \<Rightarrow> u64 \<Rightarrow> u64" where
  "hash_2_to_1 l r = poseidon2_permutation [0, field_reduce l, field_reduce r, 0] ! 0"

section \<open>The permutation permutes\<close>

definition field_state :: "u64 list \<Rightarrow> bool" where
  "field_state s \<longleftrightarrow> length s = WIDTH \<and> list_all canonical s"

lemma field_stateE:
  assumes "field_state s"
  obtains a b c d where "s = [a, b, c, d]" "canonical a" "canonical b" "canonical c" "canonical d"
  using assms
  by (auto simp: field_state_def WIDTH_def numeral_eq_Suc length_Suc_conv)

lemma WIDTH_upt: "[0..<WIDTH] = [0, 1, 2, 3]" "[0..<4] = [0, 1, 2, 3 :: nat]"
  by (simp_all add: WIDTH_def upt_conv_Cons)

lemma unat_field_add_mod:
  assumes "canonical a" "canonical b"
  shows "unat (field_add a b) mod prime_p = (unat a + unat b) mod prime_p"
  using assms by (simp add: unat_field_add)

lemma mds_full_nat:
  assumes "canonical a" "canonical b" "canonical c" "canonical d"
  shows "map unat (mds_multiply_full [a, b, c, d]) =
    [(5 * unat a + 7 * unat b + unat c + 3 * unat d) mod prime_p,
     (3 * unat a + 5 * unat b + 7 * unat c + unat d) mod prime_p,
     (unat a + 3 * unat b + 5 * unat c + 7 * unat d) mod prime_p,
     (7 * unat a + unat b + 3 * unat c + 5 * unat d) mod prime_p]"
  by (simp add: mds_multiply_full_def WIDTH_upt MATRIX_FULL_def unat_field_add unat_field_mul
      mod_add_left_eq mod_add_right_eq mod_add_eq add.assoc)

lemma field_state_mds_full: "field_state s \<Longrightarrow> field_state (mds_multiply_full s)"
  by (erule field_stateE) (simp add: mds_multiply_full_def WIDTH_upt field_state_def WIDTH_def)

lemma mds_partial_nat:
  assumes "canonical a" "canonical b" "canonical c" "canonical d"
  shows "map unat (mds_multiply_partial [a, b, c, d]) =
    [(unat a + unat b + unat c + unat d) mod prime_p,
     (unat a + unat b + unat c + unat d + unat b) mod prime_p,
     (unat a + unat b + unat c + unat d + unat c * 2) mod prime_p,
     (unat a + unat b + unat c + unat d + unat d * 3) mod prime_p]"
proof -
  define s where "s = fold (\<lambda>x acc. field_add acc x) [a, b, c, d] 0"
  have s: "canonical s" "unat s = (unat a + unat b + unat c + unat d) mod prime_p"
    using assms by (simp_all add: s_def unat_field_add mod_add_left_eq)
  have three: "unat (3 :: u64) = 3" by simp
  have "mds_multiply_partial [a, b, c, d] =
      [field_add s (field_mul a 0), field_add s (field_mul b 1), field_add s (field_mul c 2),
       field_add s (field_mul d 3)]"
    by (simp add: mds_multiply_partial_def s_def Let_def WIDTH_upt MAT_DIAG4_M_1_def)
  then have "map unat (mds_multiply_partial [a, b, c, d]) =
      map (\<lambda>(x, k). (unat s + unat x * k) mod prime_p) [(a, 0), (b, 1), (c, 2), (d, 3)]"
    by (simp add: unat_field_add unat_field_mul s(1) three mod_add_right_eq)
  also have "\<dots> = map (\<lambda>(x, k). (unat a + unat b + unat c + unat d + unat x * k) mod prime_p)
      [(a, 0), (b, 1), (c, 2), (d, 3)]"
    by (simp only: s(2) list.map prod.case mod_add_left_eq)
  finally show ?thesis by simp
qed

lemma field_state_mds_partial: "field_state s \<Longrightarrow> field_state (mds_multiply_partial s)"
  by (erule field_stateE)
     (simp add: mds_multiply_partial_def WIDTH_upt field_state_def WIDTH_def Let_def)

text \<open>Injectivity of both linear layers, by the integer matrices that invert them up to a
  factor coprime to the prime.\<close>

lemma mod_eq_int_dvd: "m mod prime_p = n mod prime_p \<Longrightarrow> int prime_p dvd int m - int n"
  by (metis mod_eq_dvd_iff zmod_int)

lemma scaled_diff_zero:
  assumes "int prime_p dvd k * (int x - int y)" "coprime (int prime_p) k" "x < prime_p" "y < prime_p"
  shows "x = y"
proof -
  have "int prime_p dvd int x - int y" using assms(1,2) by (simp add: coprime_dvd_mult_right_iff)
  then have "int x mod int prime_p = int y mod int prime_p" by (simp add: mod_eq_dvd_iff)
  then show ?thesis using assms(3,4) by simp
qed


lemma mds_full_inj:
  assumes "field_state s" "field_state t" "mds_multiply_full s = mds_multiply_full t"
  shows "s = t"
proof -
  obtain a b c d where s: "s = [a, b, c, d]"
    and cs: "canonical a" "canonical b" "canonical c" "canonical d"
    using assms(1) by (rule field_stateE)
  obtain a' b' c' d' where t: "t = [a', b', c', d']"
    and ct: "canonical a'" "canonical b'" "canonical c'" "canonical d'"
    using assms(2) by (rule field_stateE)
  define u v w x where "u = int (unat a) - int (unat a')" and "v = int (unat b) - int (unat b')"
    and "w = int (unat c) - int (unat c')" and "x = int (unat d) - int (unat d')"
  note uvwx = u_def v_def w_def x_def
  have "map unat (mds_multiply_full s) = map unat (mds_multiply_full t)" using assms(3) by simp
  then have eqs: "int prime_p dvd 5 * u + 7 * v + w + 3 * x" "int prime_p dvd 3 * u + 5 * v + 7 * w + x"
      "int prime_p dvd u + 3 * v + 5 * w + 7 * x" "int prime_p dvd 7 * u + v + 3 * w + 5 * x"
    unfolding s t mds_full_nat [OF cs] mds_full_nat [OF ct]
    by (auto simp: uvwx algebra_simps dest!: mod_eq_int_dvd)
  have comb: "int prime_p dvd k1 * (5 * u + 7 * v + w + 3 * x) + k2 * (3 * u + 5 * v + 7 * w + x)
      + k3 * (u + 3 * v + 5 * w + 7 * x) + k4 * (7 * u + v + 3 * w + 5 * x)" for k1 k2 k3 k4
    by (intro dvd_add dvd_mult eqs)
  have cop: "coprime (int prime_p) 64" by (simp add: coprime_iff_gcd_eq_1 gcd_non_0_int)
  have "int prime_p dvd 64 * u" using comb [of 1 1 "-7" 9] by (simp add: algebra_simps)
  moreover have "int prime_p dvd 64 * v" using comb [of 9 1 1 "-7"] by (simp add: algebra_simps)
  moreover have "int prime_p dvd 64 * w" using comb [of "-7" 9 1 1] by (simp add: algebra_simps)
  moreover have "int prime_p dvd 64 * x" using comb [of 1 "-7" 9 1] by (simp add: algebra_simps)
  ultimately have "unat a = unat a'" "unat b = unat b'" "unat c = unat c'" "unat d = unat d'"
    using scaled_diff_zero [OF _ cop] cs ct unfolding uvwx canonical_iff by metis+
  then show ?thesis by (simp add: s t word_unat_eq_iff)
qed

lemma mds_partial_inj:
  assumes "field_state s" "field_state t" "mds_multiply_partial s = mds_multiply_partial t"
  shows "s = t"
proof -
  obtain a b c d where s: "s = [a, b, c, d]"
    and cs: "canonical a" "canonical b" "canonical c" "canonical d"
    using assms(1) by (rule field_stateE)
  obtain a' b' c' d' where t: "t = [a', b', c', d']"
    and ct: "canonical a'" "canonical b'" "canonical c'" "canonical d'"
    using assms(2) by (rule field_stateE)
  define u v w x where "u = int (unat a) - int (unat a')" and "v = int (unat b) - int (unat b')"
    and "w = int (unat c) - int (unat c')" and "x = int (unat d) - int (unat d')"
  note uvwx = u_def v_def w_def x_def
  have "map unat (mds_multiply_partial s) = map unat (mds_multiply_partial t)" using assms(3) by simp
  then have eqs: "int prime_p dvd u + v + w + x" "int prime_p dvd u + v + w + x + v"
      "int prime_p dvd u + v + w + x + w * 2" "int prime_p dvd u + v + w + x + x * 3"
    unfolding s t mds_partial_nat [OF cs] mds_partial_nat [OF ct]
    by (auto simp: uvwx algebra_simps dest!: mod_eq_int_dvd)
  have comb: "int prime_p dvd k1 * (u + v + w + x) + k2 * (u + v + w + x + v)
      + k3 * (u + v + w + x + w * 2) + k4 * (u + v + w + x + x * 3)" for k1 k2 k3 k4
    by (intro dvd_add dvd_mult eqs)
  have cop: "coprime (int prime_p) 6" by (simp add: coprime_iff_gcd_eq_1 gcd_non_0_int)
  have "int prime_p dvd 6 * u" using comb [of 17 "-6" "-3" "-2"] by (simp add: algebra_simps)
  moreover have "int prime_p dvd 6 * v" using comb [of "-6" 6 0 0] by (simp add: algebra_simps)
  moreover have "int prime_p dvd 6 * w" using comb [of "-3" 0 3 0] by (simp add: algebra_simps)
  moreover have "int prime_p dvd 6 * x" using comb [of "-2" 0 0 2] by (simp add: algebra_simps)
  ultimately have "unat a = unat a'" "unat b = unat b'" "unat c = unat c'" "unat d = unat d'"
    using scaled_diff_zero [OF _ cop] cs ct unfolding uvwx canonical_iff by metis+
  then show ?thesis by (simp add: s t word_unat_eq_iff)
qed


text \<open>A round adds constants, applies the injective S-box and an injective linear layer.\<close>

lemma sbox_nat: "unat (sbox x) = unat x ^ 7 mod prime_p"
  by (simp add: sbox_def SBOX_EXPONENT_def unat_field_pow)

lemma canonical_sbox [simp]: "canonical (sbox x)"
  by (simp add: sbox_def)

lemma sbox_inj: "canonical x \<Longrightarrow> canonical y \<Longrightarrow> sbox x = sbox y \<Longrightarrow> x = y"
  by (metis canonical_iff sbox_nat seventh_power_inj word_unat_eq_iff)

lemma field_add_right_inj:
  assumes "canonical x" "canonical y" "canonical c" "field_add x c = field_add y c"
  shows "x = y"
proof -
  have "(unat x + unat c) mod prime_p = (unat y + unat c) mod prime_p"
    using assms by (metis unat_field_add)
  then have "int prime_p dvd 1 * (int (unat x) - int (unat y))"
    using mod_eq_int_dvd by fastforce
  then show ?thesis
    using scaled_diff_zero [of 1 "unat x" "unat y"] assms(1,2)
    by (simp add: canonical_iff word_unat_eq_iff)
qed

lemma field_add_right_eq:
  "canonical x \<Longrightarrow> canonical y \<Longrightarrow> canonical c \<Longrightarrow> field_add x c = field_add y c \<longleftrightarrow> x = y"
  by (metis field_add_right_inj)

lemma sbox_add_inj:
  "canonical x \<Longrightarrow> canonical y \<Longrightarrow> canonical c \<Longrightarrow>
    sbox (field_add x c) = sbox (field_add y c) \<longleftrightarrow> x = y"
  by (metis canonical_field_ops(4) field_add_right_inj sbox_inj)

lemma field_state_simps:
  "field_state [a, b, c, d] \<longleftrightarrow> canonical a \<and> canonical b \<and> canonical c \<and> canonical d"
  by (simp add: field_state_def WIDTH_def)

lemma full_round_state:
  "field_state rc \<Longrightarrow> field_state s \<Longrightarrow> field_state (full_round rc s)"
  unfolding full_round_def
  by (rule field_state_mds_full) (elim field_stateE, simp add: field_state_simps)

lemma partial_round_state:
  "field_state rc \<Longrightarrow> field_state s \<Longrightarrow> field_state (partial_round rc s)"
  unfolding partial_round_def Let_def
  by (rule field_state_mds_partial) (elim field_stateE, simp add: field_state_simps)

lemma full_round_inj:
  assumes "field_state rc" "field_state s" "field_state t" "full_round rc s = full_round rc t"
  shows "s = t"
proof -
  obtain k1 k2 k3 k4 where rc: "rc = [k1, k2, k3, k4]" using assms(1) by (rule field_stateE)
  obtain a b c d where s: "s = [a, b, c, d]" using assms(2) by (rule field_stateE)
  obtain a' b' c' d' where t: "t = [a', b', c', d']" using assms(3) by (rule field_stateE)
  have "map sbox (map2 field_add s rc) = map sbox (map2 field_add t rc)"
    by (rule mds_full_inj) (use assms in \<open>simp_all add: full_round_def s t rc field_state_simps\<close>)
  then have "a = a'" "b = b'" "c = c'" "d = d'"
    using assms(1-3) unfolding s t rc field_state_simps
    by (simp_all only: list.map zip_Cons_Cons zip_Nil prod.case list.inject sbox_add_inj)
  then show ?thesis by (simp only: s t)
qed

lemma partial_round_inj:
  assumes "field_state rc" "field_state s" "field_state t" "partial_round rc s = partial_round rc t"
  shows "s = t"
proof -
  obtain k1 k2 k3 k4 where rc: "rc = [k1, k2, k3, k4]" using assms(1) by (rule field_stateE)
  obtain a b c d where s: "s = [a, b, c, d]" using assms(2) by (rule field_stateE)
  obtain a' b' c' d' where t: "t = [a', b', c', d']" using assms(3) by (rule field_stateE)
  have "[sbox (field_add a k1), field_add b k2, field_add c k3, field_add d k4] =
      [sbox (field_add a' k1), field_add b' k2, field_add c' k3, field_add d' k4]"
    by (rule mds_partial_inj)
       (use assms in \<open>simp_all add: partial_round_def s t rc field_state_simps\<close>)
  then have "a = a'" "b = b'" "c = c'" "d = d'"
    using assms(1-3) unfolding s t rc field_state_simps
    by (simp_all only: list.inject sbox_add_inj field_add_right_eq)
  then show ?thesis by (simp only: s t)
qed

text \<open>A sequence of keyed rounds, each of which keeps the states and is injective on them, does
  so as a whole.\<close>

locale keyed_rounds =
  fixes round_fn :: "u64 list \<Rightarrow> u64 list \<Rightarrow> u64 list"
  assumes round_state: "field_state rc \<Longrightarrow> field_state s \<Longrightarrow> field_state (round_fn rc s)"
    and round_inj: "field_state rc \<Longrightarrow> field_state s \<Longrightarrow> field_state t \<Longrightarrow>
      round_fn rc s = round_fn rc t \<Longrightarrow> s = t"
begin

lemma rounds_state: "list_all field_state rcs \<Longrightarrow> field_state s \<Longrightarrow> field_state (fold round_fn rcs s)"
  by (induction rcs arbitrary: s) (simp_all add: round_state)

lemma rounds_inj:
  "list_all field_state rcs \<Longrightarrow> field_state s \<Longrightarrow> field_state t \<Longrightarrow>
    fold round_fn rcs s = fold round_fn rcs t \<Longrightarrow> s = t"
proof (induction rcs arbitrary: s t)
  case (Cons rc rcs)
  have "round_fn rc s = round_fn rc t"
    by (rule Cons.IH) (use Cons.prems in \<open>simp_all add: round_state\<close>)
  with Cons.prems show ?case using round_inj [of rc s t] by simp
qed simp

end

interpretation fr: keyed_rounds full_round
  by unfold_locales (fact full_round_state full_round_inj)+

interpretation pr: keyed_rounds partial_round
  by unfold_locales (fact partial_round_state partial_round_inj)+

lemma ROUND_CONSTANTS_state: "list_all field_state ROUND_CONSTANTS"
  by code_simp

lemma round_constants_part:
  "list_all field_state (take n ROUND_CONSTANTS)"
  "list_all field_state (take n (drop m ROUND_CONSTANTS))"
  using ROUND_CONSTANTS_state by (auto simp: list_all_iff dest!: in_set_takeD in_set_dropD)

lemma permutation_state: "field_state s \<Longrightarrow> field_state (poseidon2_permutation s)"
  unfolding poseidon2_permutation_def Let_def
  by (intro fr.rounds_state pr.rounds_state round_constants_part field_state_mds_full)

lemma permutation_inj:
  assumes "field_state s" "field_state t" "poseidon2_permutation s = poseidon2_permutation t"
  shows "s = t"
proof -
  note st = field_state_mds_full [OF assms(1)] field_state_mds_full [OF assms(2)]
  note st1 = st [THEN fr.rounds_state [OF round_constants_part(1)]]
  note st2 = st1 [THEN pr.rounds_state [OF round_constants_part(2)]]
  note inj = mds_full_inj [OF assms(1,2)] fr.rounds_inj [OF round_constants_part(1) st]
    pr.rounds_inj [OF round_constants_part(2) st1] fr.rounds_inj [OF round_constants_part(2) st2]
  from assms(3) show ?thesis unfolding poseidon2_permutation_def Let_def
    by (rule inj(1) [OF inj(2) [OF inj(3) [OF inj(4)]]])
qed


text \<open>C7. \<open>poseidon2_permutation\<close> is a permutation: it maps the states of four canonical
  Goldilocks elements one to one onto themselves, so no two states collide in it and every
  state has a preimage.  This rests on 7 being coprime to \<open>p - 1\<close> with \<open>p\<close> prime, and on both
  linear layers being invertible modulo \<open>p\<close>.\<close>

theorem poseidon2_permutation_bij:
  "bij_betw poseidon2_permutation
     {s. length s = WIDTH \<and> list_all canonical s} {s. length s = WIDTH \<and> list_all canonical s}"
proof -
  let ?S = "{s. length s = WIDTH \<and> list_all canonical s}"
  have S: "?S = {s. field_state s}" by (simp add: field_state_def)
  have "finite {s :: u64 list. set s \<subseteq> UNIV \<and> length s = WIDTH}"
    by (rule finite_lists_length_eq) simp
  then have fin: "finite ?S" by (rule rev_finite_subset) auto
  have inj: "inj_on poseidon2_permutation ?S"
    unfolding S by (rule inj_onI) (auto intro: permutation_inj)
  moreover have "poseidon2_permutation ` ?S \<subseteq> ?S"
    unfolding S by (auto intro: permutation_state)
  ultimately have "poseidon2_permutation ` ?S = ?S" by (intro endo_inj_surj fin)
  with inj show ?thesis by (simp add: bij_betw_def)
qed

section \<open>The padding and the byte encoding\<close>

lemma pad_to_rate_eq:
  "pad_to_rate xs = xs @ replicate ((3 - length xs mod 3) mod 3) 0"
proof (induction xs rule: pad_to_rate.induct)
  case (1 xs)
  have step: "pad_to_rate xs = xs @ [0] @ replicate ((3 - Suc (length xs) mod 3) mod 3) 0"
    if "length xs mod 3 \<noteq> 0"
    using 1 that by (subst pad_to_rate.simps) simp
  consider "length xs mod 3 = 0" | "length xs mod 3 = 1" | "length xs mod 3 = 2" by linarith
  then show ?case
  proof cases
    case 1
    then show ?thesis by (subst pad_to_rate.simps) simp
  next
    case 2
    then show ?thesis by (simp add: step mod_Suc numeral_2_eq_2)
  next
    case 3
    then show ?thesis by (simp add: step mod_Suc)
  qed
qed

lemma sponge_padding_cases:
  assumes "list_all canonical xs"
  shows "length xs mod 3 = 0 \<Longrightarrow> sponge_padding xs = xs @ [1, 0, 1]"
    and "length xs mod 3 = 1 \<Longrightarrow> sponge_padding xs = xs @ [1, 1]"
    and "length xs mod 3 = 2 \<Longrightarrow> sponge_padding xs = xs @ [2]"
proof -
  have red: "map field_reduce xs = xs"
    using assms by (induction xs) (auto simp: field_reduce_def canonical_def)
  have add: "field_add 0 1 = 1" "field_add 1 1 = 2"
    by (simp_all add: field_add_def overflowing_add_def word_le_nat_alt)
  show "length xs mod 3 = 0 \<Longrightarrow> sponge_padding xs = xs @ [1, 0, 1]"
    and "length xs mod 3 = 1 \<Longrightarrow> sponge_padding xs = xs @ [1, 1]"
    and "length xs mod 3 = 2 \<Longrightarrow> sponge_padding xs = xs @ [2]"
    by (simp_all add: sponge_padding_def pad_to_rate_eq red add mod_Suc Let_def numeral_2_eq_2
        nth_append list_update_append)
qed


definition sponge_unpadding :: "u64 list \<Rightarrow> u64 list" where
  "sponge_unpadding ys =
     (if last ys = 2 then butlast ys
      else if last (butlast ys) = 1 then butlast (butlast ys)
      else butlast (butlast (butlast ys)))"

lemma mod_3_cases:
  obtains "n mod 3 = 0" | "n mod 3 = 1" | "n mod 3 = (2 :: nat)"
  by linarith

text \<open>The sponge padding loses nothing: from the padded block sequence of any input of
  canonical field elements the input, with its length, is read back, so two inputs that differ
  never reach the sponge as the same blocks.  The padded sequence is a whole number of blocks.\<close>

theorem sponge_padding_roundtrip:
  assumes "list_all canonical xs"
  shows "sponge_unpadding (sponge_padding xs) = xs \<and> length (sponge_padding xs) mod RATE = 0 \<and>
    list_all canonical (sponge_padding xs)"
proof -
  have [simp]: "canonical 1" "canonical 2" by (simp_all add: canonical_iff)
  show ?thesis
    using assms
    by (cases rule: mod_3_cases [of "length xs"])
       (simp_all add: sponge_padding_cases sponge_unpadding_def butlast_append mod_Suc)
qed

theorem sponge_padding_roundtrip_witness:
  "sponge_unpadding (sponge_padding [5, 1]) = [5, 1] \<and> sponge_padding [5, 1] \<noteq> sponge_padding [5]"
proof -
  have c: "list_all canonical [5, 1]" "list_all canonical [5]" by (simp_all add: canonical_iff)
  show ?thesis
    using sponge_padding_roundtrip [OF c(1)] sponge_padding_roundtrip [OF c(2)] by fastforce
qed

lemma chunk_words_append_zero:
  "length bs mod 8 \<noteq> 0 \<Longrightarrow>
    map (\<lambda>c. (from_le_bytes c :: u64)) (chunks 8 (bs @ [0])) = map from_le_bytes (chunks 8 bs)"
proof (induction bs rule: length_induct)
  case (1 bs)
  show ?case
  proof (cases "length bs < 8")
    case True
    with 1 have "chunks 8 (bs @ [0]) = [bs @ [0]]" "chunks 8 bs = [bs]"
      by (auto intro!: chunks_short)
    then show ?thesis using from_le_bytes_append_zeros [of bs 1] by simp
  next
    case False
    define ys where "ys = drop 8 bs"
    have "map (\<lambda>c. (from_le_bytes c :: u64)) (chunks 8 (ys @ [0])) = map from_le_bytes (chunks 8 ys)"
      using 1 False le_mod_geq [of 8 "length bs"] by (simp add: ys_def)
    moreover have "chunks 8 (bs @ [0]) = take 8 bs # chunks 8 (ys @ [0])"
      and "chunks 8 bs = take 8 bs # chunks 8 ys"
      using False by (subst chunks.simps; force simp: ys_def)+
    ultimately show ?thesis by simp
  qed
qed

text \<open>The byte encoding in front of the sponge is not injective: a message whose length is
  not a multiple of eight hashes like the same message with a zero byte appended, because
  \<open>hash_bytes_to_field\<close> fills the last chunk with zeros and the length enters nowhere.\<close>

theorem hash_bytes_trailing_zero:
  assumes "length bs mod 8 \<noteq> 0"
  shows "hash_bytes_to_field (bs @ [0]) = hash_bytes_to_field bs"
proof -
  have ne: "chunks 8 bs \<noteq> []" "chunks 8 (bs @ [0]) \<noteq> []"
    using assms by (auto simp: chunks.simps [of 8])
  have "map (\<lambda>c. field_reduce (from_le_bytes c)) (chunks 8 (bs @ [0])) =
      map (\<lambda>c. field_reduce (from_le_bytes c)) (chunks 8 bs)"
    using arg_cong [OF chunk_words_append_zero [OF assms], of "map field_reduce"] by (simp add: o_def)
  then show ?thesis
    using ne by (simp add: hash_bytes_to_field_def from_le_bytes_append_zeros)
qed

theorem hash_bytes_trailing_zero_witness: "hash_bytes_to_field [7, 0] = hash_bytes_to_field [7]"
  using hash_bytes_trailing_zero [of "[7]"] by simp

end
