(* ===== verification/Merkle_IMT.thy ===== *)
theory Merkle_IMT
  imports Goldilocks
begin

text \<open>
  The width-8 hashing of \<open>core/scalar-crypto/src/poseidon2_t8.rs\<close> and the incremental Merkle
  tree of \<open>imt.rs\<close>.  The permutation itself is \<open>p3_goldilocks\<close>, a third-party crate: it is the
  parameter \<open>perm\<close> of every definition, a function on states of eight words about which
  nothing is assumed.  A byte array \<open>[u8; 32]\<close> is a list of 32 bytes.
\<close>

section \<open>Width-8 hashing\<close>

definition WIDTH_T8 :: nat where
  "WIDTH_T8 = 8"

definition RATE_T8 :: nat where
  "RATE_T8 = 4"

definition field8_to_bytes32 :: "u64 list \<Rightarrow> bytes" where
  "field8_to_bytes32 state = concat (map (le_bytes 8) (take 4 state))"

definition bytes32_to_field4 :: "bytes \<Rightarrow> u64 list" where
  "bytes32_to_field4 b = map (\<lambda>i. from_le_bytes (take 8 (drop (i * 8) b))) [0..<4]"

definition poseidon2_permute_t8 :: "(u64 list \<Rightarrow> u64 list) \<Rightarrow> u64 list \<Rightarrow> u64 list" where
  "poseidon2_permute_t8 perm input = perm (map field_reduce input)"

text \<open>\<open>Poseidon2T8Hasher\<close>: \<open>None\<close> is the failed \<open>assert!\<close> on the input length.\<close>

definition t8_hash :: "(u64 list \<Rightarrow> u64 list) \<Rightarrow> u64 list \<Rightarrow> u64 list option" where
  "t8_hash perm input =
     (if length input \<le> WIDTH_T8
      then Some (poseidon2_permute_t8 perm (map field_reduce input @ replicate (WIDTH_T8 - length input) 0))
      else None)"

definition t8_hash_bytes :: "(u64 list \<Rightarrow> u64 list) \<Rightarrow> bytes \<Rightarrow> u64 list option" where
  "t8_hash_bytes perm bs =
     (if length bs \<le> WIDTH_T8 * 8
      then
        let elems = map (\<lambda>chunk. field_reduce (from_le_bytes (chunk @ replicate (8 - length chunk) 0)))
              (chunks 8 bs)
        in Some (poseidon2_permute_t8 perm (elems @ replicate (WIDTH_T8 - length elems) 0))
      else None)"

definition t8_hash_to_4 :: "(u64 list \<Rightarrow> u64 list) \<Rightarrow> u64 list \<Rightarrow> u64 list option" where
  "t8_hash_to_4 perm input = map_option (take 4) (t8_hash perm input)"

definition absorb_t8 :: "(u64 list \<Rightarrow> u64 list) \<Rightarrow> u64 list \<Rightarrow> u64 list \<Rightarrow> u64 list" where
  "absorb_t8 perm chunk state =
     poseidon2_permute_t8 perm
       (map2 (\<lambda>s v. field_reduce (s XOR field_reduce v)) (take (length chunk) state) chunk
        @ drop (length chunk) state)"

definition poseidon2_hash_chained :: "(u64 list \<Rightarrow> u64 list) \<Rightarrow> u64 list \<Rightarrow> u64 list" where
  "poseidon2_hash_chained perm input =
     take 4 (fold (absorb_t8 perm) (chunks RATE_T8 input) (replicate WIDTH_T8 0))"

definition poseidon2_hash_chained_bytes32 :: "(u64 list \<Rightarrow> u64 list) \<Rightarrow> u64 list \<Rightarrow> bytes" where
  "poseidon2_hash_chained_bytes32 perm input =
     concat (map (le_bytes 8) (poseidon2_hash_chained perm input))"

section \<open>Incremental Merkle tree\<close>

definition IMT_DEPTH :: nat where
  "IMT_DEPTH = 32"

definition IMT_EMPTY_ROOT :: bytes where
  "IMT_EMPTY_ROOT = replicate 32 0"

definition IMT_GENESIS_FRONTIER :: "bytes list" where
  "IMT_GENESIS_FRONTIER = replicate IMT_DEPTH (replicate 32 0)"

datatype imt_error =
    TreeFull
  | LeafIndexOutOfBounds u64 u64
  | InvalidPathLength nat nat

record imt_path =
  ip_siblings :: "bytes list"
  ip_leaf_index :: u64

definition imt_path_new :: "bytes list \<Rightarrow> u64 \<Rightarrow> imt_error + imt_path" where
  "imt_path_new siblings leaf_index =
     (if length siblings \<noteq> IMT_DEPTH then Inl (InvalidPathLength IMT_DEPTH (length siblings))
      else Inr \<lparr>ip_siblings = siblings, ip_leaf_index = leaf_index\<rparr>)"

definition reduced_limbs :: "bytes \<Rightarrow> u64 list" where
  "reduced_limbs b = map field_reduce (bytes32_to_field4 b)"

definition hash_imt_leaf :: "(u64 list \<Rightarrow> u64 list) \<Rightarrow> bytes \<Rightarrow> u64 \<Rightarrow> bytes" where
  "hash_imt_leaf perm commitment leaf_index =
     (let d_lo = from_le_bytes (ascii ''scalar_i'');
          d_hi = from_le_bytes (ascii ''mt_leaf'' @ [0]);
          c = reduced_limbs commitment
      in field8_to_bytes32 (poseidon2_permute_t8 perm
           [field_reduce d_lo, field_reduce d_hi, c ! 0, c ! 1, c ! 2, c ! 3, field_reduce leaf_index, 0]))"

definition hash_imt_node :: "(u64 list \<Rightarrow> u64 list) \<Rightarrow> bytes \<Rightarrow> bytes \<Rightarrow> bytes" where
  "hash_imt_node perm left right =
     (let d_lo = from_le_bytes (ascii ''scalar_i'');
          d_hi = from_le_bytes (ascii ''mt_node'' @ [0]);
          l = reduced_limbs left;
          r = reduced_limbs right
      in field8_to_bytes32 (poseidon2_permute_t8 perm
           [field_reduce d_lo, field_reduce d_hi, l ! 0, l ! 1, l ! 2, l ! 3, r ! 0, r ! 1]))"

primrec empty_subtree_root :: "(u64 list \<Rightarrow> u64 list) \<Rightarrow> nat \<Rightarrow> bytes" where
  "empty_subtree_root perm 0 = IMT_EMPTY_ROOT"
| "empty_subtree_root perm (Suc i) =
     hash_imt_node perm (empty_subtree_root perm i) (empty_subtree_root perm i)"

definition imt_empty_root :: "(u64 list \<Rightarrow> u64 list) \<Rightarrow> bytes" where
  "imt_empty_root perm = empty_subtree_root perm IMT_DEPTH"

record imt =
  imt_frontier :: "bytes list"
  imt_count :: u64
  imt_leaves :: "bytes list"

definition imt_new :: imt where
  "imt_new = \<lparr>imt_frontier = IMT_GENESIS_FRONTIER, imt_count = 0, imt_leaves = []\<rparr>"

definition imt_append :: "(u64 list \<Rightarrow> u64 list) \<Rightarrow> imt \<Rightarrow> bytes \<Rightarrow> imt \<times> (imt_error + u64)" where
  "imt_append perm t commitment =
     (if imt_count t \<ge> push_bit IMT_DEPTH 1 then (t, Inl TreeFull)
      else
        let leaf_index = imt_count t;
            leaf_hash = hash_imt_leaf perm commitment leaf_index
        in (t\<lparr>imt_leaves := imt_leaves t @ [leaf_hash],
              imt_frontier := (imt_frontier t)[0 := leaf_hash],
              imt_count := imt_count t + 1\<rparr>,
            Inr leaf_index))"

text \<open>One level of the pairwise fold shared by \<open>root\<close> and \<open>compute_siblings\<close>.\<close>

fun imt_next_level :: "('h \<Rightarrow> 'h \<Rightarrow> 'h) \<Rightarrow> 'h \<Rightarrow> 'h list \<Rightarrow> 'h list" where
  "imt_next_level node empty_d [] = []"
| "imt_next_level node empty_d [left] = [node left empty_d]"
| "imt_next_level node empty_d (left # right # rest) =
     node left right # imt_next_level node empty_d rest"

definition imt_root :: "(u64 list \<Rightarrow> u64 list) \<Rightarrow> imt \<Rightarrow> bytes" where
  "imt_root perm t =
     (if imt_count t = 0 then empty_subtree_root perm IMT_DEPTH
      else fold (\<lambda>d level. imt_next_level (hash_imt_node perm) (empty_subtree_root perm d) level)
             [0..<IMT_DEPTH] (imt_leaves t) ! 0)"

text \<open>The assertions of \<open>reset\<close> are the branch to \<open>None\<close>.\<close>

definition imt_reset :: "(u64 list \<Rightarrow> u64 list) \<Rightarrow> imt \<Rightarrow> imt option" where
  "imt_reset perm t =
     (let t = t\<lparr>imt_frontier := IMT_GENESIS_FRONTIER, imt_count := 0, imt_leaves := []\<rparr>
      in if imt_frontier t = IMT_GENESIS_FRONTIER \<and> imt_count t = 0 \<and> imt_root perm t = imt_empty_root perm
         then Some t else None)"

fun siblings_from :: "('h \<Rightarrow> 'h \<Rightarrow> 'h) \<Rightarrow> (nat \<Rightarrow> 'h) \<Rightarrow> nat list \<Rightarrow> 'h list \<Rightarrow> nat \<Rightarrow> 'h list" where
  "siblings_from node emp [] level idx = []"
| "siblings_from node emp (d # ds) level idx =
     (let sib = idx XOR 1;
          sib_hash = (if sib < length level then level ! sib else emp d)
      in sib_hash # siblings_from node emp ds (imt_next_level node (emp d) level) (idx div 2))"

definition compute_siblings :: "(u64 list \<Rightarrow> u64 list) \<Rightarrow> imt \<Rightarrow> u64 \<Rightarrow> bytes list" where
  "compute_siblings perm t leaf_index =
     siblings_from (hash_imt_node perm) (empty_subtree_root perm) [0..<IMT_DEPTH] (imt_leaves t)
       (unat leaf_index)"

definition prove_membership :: "(u64 list \<Rightarrow> u64 list) \<Rightarrow> imt \<Rightarrow> u64 \<Rightarrow> imt_error + imt_path" where
  "prove_membership perm t leaf_index =
     (if leaf_index \<ge> imt_count t then Inl (LeafIndexOutOfBounds leaf_index (imt_count t))
      else imt_path_new (compute_siblings perm t leaf_index) leaf_index)"

definition verify_level :: "('h \<Rightarrow> 'h \<Rightarrow> 'h) \<Rightarrow> 'h list \<Rightarrow> u64 \<Rightarrow> nat \<Rightarrow> 'h \<Rightarrow> 'h" where
  "verify_level node siblings leaf_index level current =
     (let sibling = siblings ! level;
          is_right = drop_bit level leaf_index AND 1
      in if is_right = 0 then node current sibling else node sibling current)"

definition imt_membership_verify ::
  "(u64 list \<Rightarrow> u64 list) \<Rightarrow> bytes \<Rightarrow> imt_path \<Rightarrow> bytes \<Rightarrow> u64 \<Rightarrow> bool" where
  "imt_membership_verify perm commitment path root imt_commitment_count =
     (if ip_leaf_index path \<ge> imt_commitment_count then False
      else if length (ip_siblings path) \<noteq> IMT_DEPTH then False
      else
        fold (verify_level (hash_imt_node perm) (ip_siblings path) (ip_leaf_index path)) [0..<IMT_DEPTH]
          (hash_imt_leaf perm commitment (ip_leaf_index path)) = root)"


section \<open>Completeness of membership proofs\<close>

text \<open>The climb is about any node function and any table of empty subtrees: the contract is only
  that an absent subtree hashes to the next entry of the table.\<close>

lemma length_next_level: "length (imt_next_level node e xs) = (length xs + 1) div 2"
  by (induction node e xs rule: imt_next_level.induct) simp_all

lemma nth_next_level:
  "i < length (imt_next_level node e xs) \<Longrightarrow>
    imt_next_level node e xs ! i =
      node (xs ! (2 * i)) (if Suc (2 * i) < length xs then xs ! Suc (2 * i) else e)"
proof (induction node e xs arbitrary: i rule: imt_next_level.induct)
  case (3 node e x y rest)
  then show ?case by (cases i) simp_all
qed simp_all

lemma nat_xor_1:
  "even (n :: nat) \<Longrightarrow> n XOR Suc 0 = Suc n" "odd n \<Longrightarrow> n XOR Suc 0 = n - Suc 0"
  using xor_one_eq [of n] by simp_all

lemma next_level_parent:
  assumes "idx < length xs"
  shows "imt_next_level node e xs ! (idx div 2) =
    (let sib = idx XOR 1; s = (if sib < length xs then xs ! sib else e)
     in if even idx then node (xs ! idx) s else node s (xs ! idx))"
proof -
  have i: "idx div 2 < length (imt_next_level node e xs)"
    using assms by (simp add: length_next_level)
  show ?thesis
  proof (cases "even idx")
    case True
    then obtain k where "idx = 2 * k" by blast
    then show ?thesis using nth_next_level [OF i] by (simp add: nat_xor_1)
  next
    case False
    then obtain k where "idx = Suc (2 * k)" by (metis oddE Suc_eq_plus1)
    then show ?thesis using nth_next_level [OF i] assms by (simp add: nat_xor_1 Let_def)
  qed
qed

lemma length_siblings_from: "length (siblings_from node emp ds xs idx) = length ds"
  by (induction node emp ds xs idx rule: siblings_from.induct) (simp_all add: Let_def)

definition climb_step :: "('h \<Rightarrow> 'h \<Rightarrow> 'h) \<Rightarrow> 'h \<Rightarrow> nat \<times> 'h \<Rightarrow> nat \<times> 'h" where
  "climb_step node s = (\<lambda>(idx, cur). (idx div 2, if even idx then node cur s else node s cur))"

lemma climb_siblings_from:
  assumes "idx < length xs"
  shows "fold (climb_step node) (siblings_from node emp ds xs idx) (idx, xs ! idx) =
    (idx div 2 ^ length ds,
     fold (\<lambda>d level. imt_next_level node (emp d) level) ds xs ! (idx div 2 ^ length ds))"
  using assms
proof (induction ds arbitrary: xs idx)
  case (Cons d ds)
  have lt: "idx div 2 < length (imt_next_level node (emp d) xs)"
    using Cons.prems by (simp add: length_next_level)
  show ?case
    using Cons.IH [OF lt] next_level_parent [OF Cons.prems, of node "emp d"]
    by (simp add: climb_step_def Let_def div_mult2_eq)
qed simp

text \<open>The verification loop is the same climb, with the position read off the bits of the index.\<close>

lemma verify_levels_climb:
  "length ss = n \<Longrightarrow>
   fold (climb_step node) (take m ss) (unat i, cur) =
     (unat i div 2 ^ min m n, fold (verify_level node ss i) [0..<min m n] cur)"
proof (induction m)
  case (Suc m)
  show ?case
  proof (cases "m < n")
    case True
    have bit: "drop_bit m i AND 1 = 0 \<longleftrightarrow> even (unat i div 2 ^ m)"
    proof -
      have "drop_bit m i AND 1 = 0 \<longleftrightarrow> \<not> bit i m"
        by (simp add: and_one_eq odd_iff_mod_2_eq_one [symmetric] bit_iff_odd_drop_bit mod_2_eq_odd)
      also have "\<dots> \<longleftrightarrow> \<not> bit (unat i) m"
        by (simp add: bit_unsigned_iff)
      finally show ?thesis by (simp add: bit_iff_odd)
    qed
    have "take (Suc m) ss = take m ss @ [ss ! m]"
      using True Suc.prems by (simp add: take_Suc_conv_app_nth)
    then show ?thesis
      using Suc True
      by (simp add: climb_step_def verify_level_def bit mult.commute flip: div_mult2_eq)
  next
    case False
    with Suc show ?thesis by simp
  qed
qed simp


section \<open>Reachable trees\<close>

definition imt_appends :: "(u64 list \<Rightarrow> u64 list) \<Rightarrow> bytes list \<Rightarrow> imt \<Rightarrow> imt" where
  "imt_appends perm cs t = fold (\<lambda>c t. fst (imt_append perm t c)) cs t"

lemma capacity: "unat (2 ^ IMT_DEPTH :: u64) = 2 ^ 32"
  by (simp add: IMT_DEPTH_def)

lemma imt_appends_state:
  assumes "length cs \<le> 2 ^ 32"
  shows "imt_count (imt_appends perm cs imt_new) = of_nat (length cs) \<and>
    imt_leaves (imt_appends perm cs imt_new) =
      map (\<lambda>i. hash_imt_leaf perm (cs ! i) (of_nat i)) [0..<length cs]"
  using assms
proof (induction cs rule: rev_induct)
  case Nil
  then show ?case by (simp add: imt_appends_def imt_new_def)
next
  case (snoc c cs)
  define t where "t = imt_appends perm cs imt_new"
  have IH: "imt_count t = of_nat (length cs)"
      "imt_leaves t = map (\<lambda>i. hash_imt_leaf perm (cs ! i) (of_nat i)) [0..<length cs]"
    using snoc by (simp_all add: t_def)
  have "unat (of_nat (length cs) :: u64) = length cs"
    using snoc.prems by (intro unat_of_nat_small) simp
  then have "\<not> imt_count t \<ge> push_bit IMT_DEPTH 1"
    using snoc.prems by (simp add: IH(1) word_le_nat_alt capacity)
  moreover have "imt_appends perm (cs @ [c]) imt_new = fst (imt_append perm t c)"
    by (simp add: imt_appends_def t_def)
  ultimately have "imt_appends perm (cs @ [c]) imt_new =
      t\<lparr>imt_leaves := imt_leaves t @ [hash_imt_leaf perm c (imt_count t)],
        imt_frontier := (imt_frontier t)[0 := hash_imt_leaf perm c (imt_count t)],
        imt_count := imt_count t + 1\<rparr>"
    by (simp add: imt_append_def Let_def)
  then show ?case by (simp add: IH nth_append cong: map_cong)
qed

text \<open>The path \<open>prove_membership\<close> hands out climbs to the root.\<close>

lemma imt_path_climbs:
  assumes "length cs \<le> 2 ^ 32" "i < length cs"
  shows "\<exists>path. prove_membership perm (imt_appends perm cs imt_new) (of_nat i) = Inr path
    \<and> ip_leaf_index path = of_nat i \<and> length (ip_siblings path) = IMT_DEPTH
    \<and> ip_leaf_index path < imt_count (imt_appends perm cs imt_new)
    \<and> fold (verify_level (hash_imt_node perm) (ip_siblings path) (of_nat i)) [0..<IMT_DEPTH]
        (hash_imt_leaf perm (cs ! i) (of_nat i)) = imt_root perm (imt_appends perm cs imt_new)"
proof -
  define t where "t = imt_appends perm cs imt_new"
  define ss where "ss = compute_siblings perm t (of_nat i)"
  note st = imt_appends_state [OF assms(1), of perm, folded t_def]
  have small: "unat (of_nat i :: u64) = i" "unat (of_nat (length cs) :: u64) = length cs"
    using assms by (auto intro!: unat_of_nat_small)
  have lt: "\<not> imt_count t \<le> of_nat i" "imt_count t \<noteq> 0"
    using st assms small by (auto simp: word_le_nat_alt unat_eq_zero [symmetric])
  have len: "length ss = IMT_DEPTH" by (simp add: ss_def compute_siblings_def length_siblings_from)
  have leaf: "imt_leaves t ! i = hash_imt_leaf perm (cs ! i) (of_nat i)" "i < length (imt_leaves t)"
    using st assms by simp_all
  have "i div 2 ^ IMT_DEPTH = 0" using assms by (simp add: IMT_DEPTH_def)
  then have "snd (fold (climb_step (hash_imt_node perm)) ss (i, imt_leaves t ! i)) = imt_root perm t"
    using climb_siblings_from [OF leaf(2), of "hash_imt_node perm" "empty_subtree_root perm" "[0..<IMT_DEPTH]"] lt
    by (simp add: ss_def compute_siblings_def small imt_root_def)
  moreover have "snd (fold (climb_step (hash_imt_node perm)) ss (i, imt_leaves t ! i)) =
      fold (verify_level (hash_imt_node perm) ss (of_nat i)) [0..<IMT_DEPTH] (imt_leaves t ! i)"
    using verify_levels_climb [OF len, of "hash_imt_node perm" IMT_DEPTH "of_nat i"] len small by simp
  ultimately show ?thesis
    using lt len leaf
    by (simp add: prove_membership_def imt_path_new_def t_def [symmetric] ss_def [symmetric])
qed

text \<open>C6. Every proof the tree hands out verifies: after appending any commitments (up to the
  capacity \<open>2 ^ 32\<close>), \<open>prove_membership\<close> succeeds for each of their positions and
  \<open>imt_membership_verify\<close> accepts the path for the commitment at that position against the
  tree's own root and count.  The root computed level by level over all leaves and the climb
  along one path agree, whatever the permutation is.\<close>

theorem imt_membership_complete:
  assumes "length cs \<le> 2 ^ 32" "i < length cs"
  shows "\<exists>path. prove_membership perm (imt_appends perm cs imt_new) (of_nat i) = Inr path \<and>
    imt_membership_verify perm (cs ! i) path (imt_root perm (imt_appends perm cs imt_new))
      (imt_count (imt_appends perm cs imt_new))"
  using imt_path_climbs [OF assms, of perm] by (fastforce simp: imt_membership_verify_def not_le)

theorem imt_membership_complete_witness:
  "\<exists>path. prove_membership rev (imt_appends rev [replicate 32 1, replicate 32 2] imt_new) (of_nat 1) = Inr path \<and>
    imt_membership_verify rev ([replicate 32 1, replicate 32 2] ! 1) path
      (imt_root rev (imt_appends rev [replicate 32 1, replicate 32 2] imt_new))
      (imt_count (imt_appends rev [replicate 32 1, replicate 32 2] imt_new))"
  by (rule imt_membership_complete) simp_all


text \<open>Appending is total up to the capacity and refuses beyond it: the \<open>n\<close>-th append of at
  most \<open>2 ^ 32\<close> returns the position \<open>n\<close>, a full tree answers \<open>TreeFull\<close> and keeps its state,
  and a position that holds no leaf has no proof.\<close>

theorem imt_append_outcomes:
  assumes "length cs \<le> 2 ^ 32"
  shows "snd (imt_append perm (imt_appends perm cs imt_new) c) =
      (if length cs < 2 ^ 32 then Inr (of_nat (length cs)) else Inl TreeFull) \<and>
    (length cs = 2 ^ 32 \<longrightarrow> fst (imt_append perm (imt_appends perm cs imt_new) c) = imt_appends perm cs imt_new) \<and>
    (length cs \<le> unat i \<longrightarrow> prove_membership perm (imt_appends perm cs imt_new) i =
      Inl (LeafIndexOutOfBounds i (of_nat (length cs))))"
proof -
  have n: "unat (of_nat (length cs) :: u64) = length cs"
    using assms by (intro unat_of_nat_small) simp
  show ?thesis using assms imt_appends_state [OF assms, of perm] n
    by (auto simp: imt_append_def Let_def word_le_nat_alt capacity prove_membership_def)
qed

theorem imt_append_outcomes_witness:
  "prove_membership rev (imt_appends rev [replicate 32 1] imt_new) 7 = Inl (LeafIndexOutOfBounds 7 1)"
  using imt_append_outcomes [of "[replicate 32 1]" rev "[]" 7] by simp

section \<open>What a membership proof does not bind\<close>

lemma reduced_limbs_eq:
  "reduced_limbs b = [field_reduce (from_le_bytes (take 8 b)), field_reduce (from_le_bytes (take 8 (drop 8 b))),
     field_reduce (from_le_bytes (take 8 (drop 16 b))), field_reduce (from_le_bytes (take 8 (drop 24 b)))]"
proof -
  have "[0..<4] = [0, 1, 2, 3 :: nat]" by (simp add: upt_conv_Cons)
  then show ?thesis by (simp add: reduced_limbs_def bytes32_to_field4_def)
qed

lemma prime_bytes: "field_reduce (from_le_bytes [1, 0, 0, 0, 255, 255, 255, 255]) = 0"
  by (simp add: from_le_bytes_def push_bit_eq_mult field_reduce_def GOLDILOCKS_PRIME_def)

lemma reduced_limbs_first:
  "length h = 8 \<Longrightarrow> length h' = 8 \<Longrightarrow>
    field_reduce (from_le_bytes h) = field_reduce (from_le_bytes h') \<Longrightarrow>
    reduced_limbs (h @ rest) = reduced_limbs (h' @ rest)"
  by (simp add: reduced_limbs_eq)

lemma reduced_limbs_noncanonical:
  "reduced_limbs ([1, 0, 0, 0, 255, 255, 255, 255] @ rest) = reduced_limbs (replicate 8 0 @ rest)"
proof (rule reduced_limbs_first)
  have "field_reduce 0 = 0" by (simp add: field_reduce_def word_le_nat_alt)
  then show "field_reduce (from_le_bytes [1, 0, 0, 0, 255, 255, 255, 255]) =
      field_reduce (from_le_bytes (replicate 8 0))"
    by (simp only: prime_bytes from_le_bytes_replicate_0)
qed simp_all

text \<open>The verifier does not tell a commitment from its non-canonical twin: a commitment whose
  first limb is zero and the one with the eight bytes of \<open>p\<close> there, two different byte strings,
  are accepted by \<open>imt_membership_verify\<close> on exactly the same paths, roots and counts, since
  the limbs are reduced modulo \<open>p\<close> before they are hashed.\<close>

theorem imt_commitment_twin:
  "[1, 0, 0, 0, 255, 255, 255, 255] @ rest \<noteq> replicate 8 0 @ rest \<and>
   imt_membership_verify perm ([1, 0, 0, 0, 255, 255, 255, 255] @ rest) path root n =
   imt_membership_verify perm (replicate 8 0 @ rest) path root n"
proof -
  have "hash_imt_leaf perm ([1, 0, 0, 0, 255, 255, 255, 255] @ rest) = hash_imt_leaf perm (replicate 8 0 @ rest)"
    by (rule ext) (simp only: hash_imt_leaf_def reduced_limbs_noncanonical)
  moreover have "replicate 8 (0 :: u8) = [0, 0, 0, 0, 0, 0, 0, 0]" by (simp add: numeral_eq_Suc)
  ultimately show ?thesis by (simp add: imt_membership_verify_def)
qed

lemma hash_imt_node_right_half:
  assumes "take 16 r = take 16 r'"
  shows "hash_imt_node perm l r = hash_imt_node perm l r'"
proof -
  have "take 8 r = take 8 (take 16 r)" "take 8 (drop 8 r) = drop 8 (take 16 r)" for r :: bytes
    by (simp_all add: drop_take)
  with assms have "take 8 r = take 8 r'" "take 8 (drop 8 r) = take 8 (drop 8 r')" by metis+
  then show ?thesis by (simp add: hash_imt_node_def reduced_limbs_eq Let_def)
qed

text \<open>Half of every right child is free: \<open>hash_imt_node\<close> hashes only its first 16 bytes, so at
  an even position the first sibling of an accepted path may be replaced by any string that
  agrees with it on those bytes, and the path stays accepted.\<close>

theorem imt_right_sibling_malleable:
  assumes "ip_siblings path = s # rest" "even (unat (ip_leaf_index path))" "take 16 s' = take 16 s"
  shows "imt_membership_verify perm c (path\<lparr>ip_siblings := s' # rest\<rparr>) root n =
    imt_membership_verify perm c path root n"
proof -
  have z: "ip_leaf_index path AND 1 = 0" using assms(2) unat_and_1 [of "ip_leaf_index path"]
    by (simp add: and_one_eq)
  have first: "verify_level (hash_imt_node perm) (s' # rest) (ip_leaf_index path) 0 x =
      verify_level (hash_imt_node perm) (s # rest) (ip_leaf_index path) 0 x" for x
    using z hash_imt_node_right_half [OF assms(3)] by (simp add: verify_level_def)
  have later: "fold (verify_level (hash_imt_node perm) (s' # rest) (ip_leaf_index path)) [Suc 0..<m] x =
      fold (verify_level (hash_imt_node perm) (s # rest) (ip_leaf_index path)) [Suc 0..<m] x" for m x
    by (rule fold_cong) (auto simp: verify_level_def fun_eq_iff nth_Cons')
  have "[0..<IMT_DEPTH] = 0 # [Suc 0..<IMT_DEPTH]" by (simp add: IMT_DEPTH_def upt_conv_Cons)
  then show ?thesis using assms(1) by (simp add: imt_membership_verify_def first later)
qed

theorem imt_right_sibling_malleable_witness:
  "imt_membership_verify rev (replicate 32 5)
     \<lparr>ip_siblings = (replicate 16 1 @ replicate 16 2) # replicate 31 (replicate 32 0), ip_leaf_index = 4\<rparr>
     (replicate 32 0) 9 =
   imt_membership_verify rev (replicate 32 5)
     \<lparr>ip_siblings = (replicate 16 1 @ replicate 16 9) # replicate 31 (replicate 32 0), ip_leaf_index = 4\<rparr>
     (replicate 32 0) 9"
proof -
  define rest where "rest = replicate 31 (replicate 32 (0 :: u8))"
  show ?thesis unfolding rest_def [symmetric]
    using imt_right_sibling_malleable
      [of "\<lparr>ip_siblings = (replicate 16 1 @ replicate 16 9) # rest, ip_leaf_index = 4\<rparr>"
        "replicate 16 1 @ replicate 16 9" rest "replicate 16 1 @ replicate 16 2"] by simp
qed

end
