(* ===== verification/Fees.thy ===== *)
theory Fees
  imports Poseidon2 "HOL-Library.Product_Lexorder"
begin

text \<open>
  The fee model of \<open>core/scalar-fees/src\<close>: the fee floor and premium (\<open>floor.rs\<close>), padding
  (\<open>padding.rs\<close>), the 95/5 split and the weighted node rewards (\<open>distribution.rs\<close>), batch
  scoring, ordering and tie-breaking (\<open>batch.rs\<close>) and the proof of inclusion
  (\<open>inclusion_proof.rs\<close>).  BLAKE3 is a parameter; Poseidon2 is the model of theory Poseidon2.
\<close>

section \<open>Floor and premium\<close>

datatype fee_error =
    BelowFloor u64 u64
  | ExceedsMaxIO u32 u32
  | NegativePremium
  | FeeOverflow

definition FLOOR_MIN_ABSOLUTE :: u64 where
  "FLOOR_MIN_ABSOLUTE = 40"

definition MAX_IO :: u32 where
  "MAX_IO = 10"

definition compute_floor :: "u32 \<Rightarrow> u32 \<Rightarrow> u64 \<Rightarrow> fee_error + u64" where
  "compute_floor num_inputs num_outputs complexity_weight =
     (if num_inputs > MAX_IO \<or> num_outputs > MAX_IO then Inl (ExceedsMaxIO num_inputs num_outputs)
      else case checked_mul (ucast (num_inputs + num_outputs)) complexity_weight of
             None \<Rightarrow> Inl FeeOverflow
           | Some complexity_floor \<Rightarrow> Inr (max FLOOR_MIN_ABSOLUTE complexity_floor))"

definition verify_fee_above_floor :: "u64 \<Rightarrow> u32 \<Rightarrow> u32 \<Rightarrow> u64 \<Rightarrow> fee_error + unit" where
  "verify_fee_above_floor fee_total num_inputs num_outputs complexity_weight =
     (case compute_floor num_inputs num_outputs complexity_weight of
        Inl e \<Rightarrow> Inl e
      | Inr fl \<Rightarrow> if fee_total < fl then Inl (BelowFloor fee_total fl) else Inr ())"

definition extract_premium :: "u64 \<Rightarrow> u32 \<Rightarrow> u32 \<Rightarrow> u64 \<Rightarrow> fee_error + u64" where
  "extract_premium fee_total num_inputs num_outputs complexity_weight =
     (case compute_floor num_inputs num_outputs complexity_weight of
        Inl e \<Rightarrow> Inl e
      | Inr fl \<Rightarrow> if fee_total < fl then Inl (BelowFloor fee_total fl) else Inr (fee_total - fl))"

section \<open>Padding\<close>

definition MAX_PADDING_SSCL :: u64 where
  "MAX_PADDING_SSCL = 10"

definition apply_padding :: "u64 \<Rightarrow> u8 \<Rightarrow> u64" where
  "apply_padding premium_intended random_byte =
     (let padding = (ucast random_byte * (MAX_PADDING_SSCL + 1)) div 256
      in saturating_add premium_intended padding)"

definition compute_fee_total_with_padding :: "u64 \<Rightarrow> u64 \<Rightarrow> u8 \<Rightarrow> u64" where
  "compute_fee_total_with_padding fl premium_intended random_byte =
     (let premium_padded = apply_padding premium_intended random_byte
      in saturating_add fl premium_padded)"

section \<open>Distribution\<close>

definition FEE_NODE_POOL_PERCENT :: u64 where
  "FEE_NODE_POOL_PERCENT = 95"

definition W_FLOOR_FP :: u64 where
  "W_FLOOR_FP = 1000000000"

record fee_dist =
  fd_node_pool :: u64
  fd_security_fund :: u64

definition compute_w_effective :: "u64 \<Rightarrow> u64" where
  "compute_w_effective w_actual_fp = max w_actual_fp W_FLOOR_FP"

definition distribute_fee :: "u64 \<Rightarrow> fee_dist" where
  "distribute_fee fee_total =
     (let node_pool = fee_total * FEE_NODE_POOL_PERCENT div 100;
          security_fund = saturating_sub fee_total node_pool
      in \<lparr>fd_node_pool = node_pool, fd_security_fund = security_fund\<rparr>)"

definition compute_node_fee_reward :: "u64 \<Rightarrow> u64 \<Rightarrow> u64 \<Rightarrow> u64" where
  "compute_node_fee_reward fee_pool w_i_fp w_effective_fp =
     (if w_effective_fp = 0 \<or> w_i_fp = 0 then 0
      else ucast (unwrap_or (checked_div (saturating_mul (ucast fee_pool) (ucast w_i_fp))
             (ucast w_effective_fp)) (0 :: u128)))"

definition distribution_is_conserved :: "fee_dist \<Rightarrow> u64 \<Rightarrow> bool" where
  "distribution_is_conserved dist fee_total \<longleftrightarrow>
     saturating_add (fd_node_pool dist) (fd_security_fund dist) = fee_total"

definition verify_invariant_f4 :: "u64 \<Rightarrow> u64 \<Rightarrow> bool" where
  "verify_invariant_f4 r_fee_total fee_pool \<longleftrightarrow> r_fee_total \<le> fee_pool"

definition compute_fee_residual :: "u64 \<Rightarrow> u64 \<Rightarrow> u64" where
  "compute_fee_residual fee_pool sum_node_rewards = saturating_sub fee_pool sum_node_rewards"

definition compute_r_sec :: "u64 \<Rightarrow> u64 \<Rightarrow> u64" where
  "compute_r_sec fee_total sum_node_rewards =
     (let dist = distribute_fee fee_total;
          fee_residual = compute_fee_residual (fd_node_pool dist) sum_node_rewards
      in saturating_add (fd_security_fund dist) fee_residual)"

definition verify_full_conservation :: "u64 \<Rightarrow> u64 \<Rightarrow> u64 \<Rightarrow> bool" where
  "verify_full_conservation fee_total sum_node_rewards r_sec \<longleftrightarrow>
     saturating_add sum_node_rewards r_sec = fee_total"

section \<open>Batches\<close>

record tx_for_batch =
  tb_tx_id :: bytes
  tb_premium :: u64
  tb_num_inputs :: u32
  tb_num_outputs :: u32
  tb_fee_total :: u64

definition compute_score_fp :: "tx_for_batch \<Rightarrow> u128" where
  "compute_score_fp tx =
     (let io_sum = ucast (tb_num_inputs tx + tb_num_outputs tx);
          complexity_weight_fp = 1000000 + io_sum * 100000
      in unwrap_or (checked_div (saturating_mul (ucast (tb_premium tx)) 1000000) complexity_weight_fp) 0)"

text \<open>The comparison of \<open>sort_batch_by_score\<close> as a key: descending score, then ascending id.\<close>

definition batch_key :: "tx_for_batch \<Rightarrow> int \<times> bytes" where
  "batch_key tx = (- uint (compute_score_fp tx), tb_tx_id tx)"

definition sort_batch_by_score :: "tx_for_batch list \<Rightarrow> tx_for_batch list" where
  "sort_batch_by_score txs = sort_key batch_key txs"

definition compute_batch_value :: "tx_for_batch list \<Rightarrow> u64" where
  "compute_batch_value txs = sum_list (map tb_fee_total txs)"

record batch_announcement =
  ba_batch_root :: bytes
  ba_node_id :: bytes
  ba_timestamp :: u64

definition tiebreak_score :: "batch_announcement \<Rightarrow> u64" where
  "tiebreak_score ann =
     hash_2_to_1 (from_le_bytes (take 8 (ba_batch_root ann))) (from_le_bytes (take 8 (ba_node_id ann)))"

definition select_winner :: "batch_announcement list \<Rightarrow> batch_announcement option" where
  "select_winner announcements = min_by_key tiebreak_score announcements"

definition is_fairness_slot :: "u32 \<Rightarrow> u32 \<Rightarrow> bool" where
  "is_fairness_slot batch_number fairness_n \<longleftrightarrow> fairness_n > 0 \<and> batch_number mod fairness_n = 0"

definition fairness_tx :: "tx_for_batch list \<Rightarrow> tx_for_batch option" where
  "fairness_tx tx_pool = min_by_key compute_score_fp tx_pool"

definition compute_batch_timeout_secs :: "u32 \<Rightarrow> u64 \<Rightarrow> u32 \<Rightarrow> u64" where
  "compute_batch_timeout_secs batch_size prove_time_per_tx_ms multiplier =
     (let prove_time_secs = saturating_add (ucast batch_size * prove_time_per_tx_ms) 999 div 1000
      in saturating_mul prove_time_secs (ucast multiplier))"

section \<open>Proof of inclusion\<close>

definition T_MAX_WAIT_MS :: u64 where
  "T_MAX_WAIT_MS = 1800000"

record pool_tx =
  pt_tx_id :: bytes
  pt_entry_timestamp_ms :: u64

record inclusion_claim =
  ic_tx_list_hash :: bytes
  ic_batch_timestamp_ms :: u64
  ic_aggregator_id :: bytes

datatype inclusion_verdict = Valid | ExcludedEligibleTx nat

definition compute_tx_list_hash :: "(bytes \<Rightarrow> bytes) \<Rightarrow> bytes list \<Rightarrow> bytes" where
  "compute_tx_list_hash blake3 included_tx_ids = blake3 (concat (sort included_tx_ids))"

definition verify_inclusion ::
  "inclusion_claim \<Rightarrow> pool_tx list \<Rightarrow> bytes list \<Rightarrow> u64 \<Rightarrow> inclusion_verdict" where
  "verify_inclusion claim known_pool included_tx_ids t_max_wait_ms =
     (let threshold = saturating_sub (ic_batch_timestamp_ms claim) t_max_wait_ms;
          eligible = filter (\<lambda>tx. pt_entry_timestamp_ms tx < threshold) known_pool;
          excluded_count = length (filter (\<lambda>tx. pt_tx_id tx \<notin> set included_tx_ids) eligible)
      in if excluded_count > 0 then ExcludedEligibleTx excluded_count else Valid)"

definition verify_tx_list_hash :: "(bytes \<Rightarrow> bytes) \<Rightarrow> inclusion_claim \<Rightarrow> bytes list \<Rightarrow> bool" where
  "verify_tx_list_hash blake3 claim included_tx_ids \<longleftrightarrow>
     compute_tx_list_hash blake3 included_tx_ids = ic_tx_list_hash claim"


section \<open>Floor, premium and padding are correct\<close>

lemma unat_u8_u64 [simp]: "unat (ucast (a :: u8) :: u64) = unat a"
proof -
  have "unat a < 2 ^ 8" using unsigned_less [of a] by simp
  then show ?thesis by (simp add: unsigned_ucast_eq take_bit_nat_eq_self)
qed

lemma io_sum:
  assumes "(a :: u32) \<le> MAX_IO" "b \<le> MAX_IO"
  shows "unat (a + b) = unat a + unat b"
  using assms by (intro unat_add_no_overflow) (simp add: word_le_nat_alt MAX_IO_def)

lemma compute_floor_Inr_iff:
  "compute_floor n m w = Inr fl \<longleftrightarrow>
     n \<le> MAX_IO \<and> m \<le> MAX_IO \<and> (unat n + unat m) * unat w < 2 ^ 64 \<and>
     unat fl = max 40 ((unat n + unat m) * unat w)"
proof (cases "n \<le> MAX_IO \<and> m \<le> MAX_IO")
  case True
  then have s: "unat (n + m) = unat n + unat m" by (intro io_sum) simp_all
  show ?thesis
  proof (cases "(unat n + unat m) * unat w < 2 ^ 64")
    case fits: True
    then have "unat (max FLOOR_MIN_ABSOLUTE (ucast (n + m) * w)) = max 40 ((unat n + unat m) * unat w)"
      by (simp add: unat_max_of unat_mult_no_overflow s FLOOR_MIN_ABSOLUTE_def)
    then show ?thesis using True fits
      by (auto simp: compute_floor_def checked_mul_def s not_less word_unat_eq_iff)
  next
    case False
    then show ?thesis using True by (auto simp: compute_floor_def checked_mul_def s not_less)
  qed
qed (auto simp: compute_floor_def not_less not_le)

lemma padding_bound:
  "unat ((ucast (b :: u8) * (MAX_PADDING_SSCL + 1)) div 256) \<le> 10"
proof -
  have "unat b < 256" using unsigned_less [of b] by simp
  then have "unat (ucast b * 11 :: u64) = unat b * 11" by (subst unat_mult_no_overflow) simp_all
  then show ?thesis using \<open>unat b < 256\<close> by (simp add: MAX_PADDING_SSCL_def unat_div_word)
qed

text \<open>The premium is what a fee pays above its floor: \<open>extract_premium\<close> returns \<open>p\<close> exactly
  when the transaction shape has a floor \<open>f\<close> and \<open>fee = f + p\<close>, where the floor is the larger of
  40 and the number of inputs and outputs times the complexity weight; it fails exactly when
  \<open>verify_fee_above_floor\<close> does, with the same error.\<close>

theorem premium_above_floor:
  "(extract_premium fee n m w = Inr p \<longleftrightarrow>
      n \<le> MAX_IO \<and> m \<le> MAX_IO \<and> (unat n + unat m) * unat w < 2 ^ 64 \<and>
      unat fee = max 40 ((unat n + unat m) * unat w) + unat p) \<and>
   (extract_premium fee n m w = Inl e \<longleftrightarrow> verify_fee_above_floor fee n m w = Inl e)"
proof (cases "compute_floor n m w")
  case (Inl err)
  then have "\<not> (n \<le> MAX_IO \<and> m \<le> MAX_IO \<and> (unat n + unat m) * unat w < 2 ^ 64)"
  proof -
    have "compute_floor n m w \<noteq> Inr (word_of_nat (max 40 ((unat n + unat m) * unat w)))"
      using Inl by simp
    then show ?thesis
      unfolding compute_floor_Inr_iff by (auto simp: unat_of_nat_small)
  qed
  then show ?thesis using Inl by (auto simp: extract_premium_def verify_fee_above_floor_def)
next
  case (Inr fl)
  note f = Inr [unfolded compute_floor_Inr_iff]
  have "unat (fee - fl) = unat fee - unat fl" if "\<not> fee < fl"
    using that by (simp add: unat_sub_if' word_le_nat_alt word_less_nat_alt not_less)
  then have "(\<not> fee < fl \<and> fee - fl = p) \<longleftrightarrow> unat fee = unat fl + unat p"
    by (auto simp: word_less_nat_alt word_unat_eq_iff)
  with f Inr show ?thesis by (auto simp: extract_premium_def verify_fee_above_floor_def)
qed

text \<open>Padding is recovered as premium and is at most 10 sSCL: a fee built by
  \<open>compute_fee_total_with_padding\<close> on the floor of its own shape always passes the floor check,
  and the premium read back is the intended one plus the padding drawn from the random byte,
  as long as the sum fits in 64 bits.\<close>

theorem padded_fee_roundtrip:
  assumes "compute_floor n m w = Inr fl" "unat fl + unat premium + 10 < 2 ^ 64"
  shows "\<exists>pad \<le> 10. extract_premium (compute_fee_total_with_padding fl premium b) n m w
      = Inr (premium + of_nat pad) \<and> pad = unat b * 11 div 256"
proof -
  define pw where "pw = (ucast b * (MAX_PADDING_SSCL + 1) div 256 :: u64)"
  have "unat b < 256" using unsigned_less [of b] by simp
  then have pw: "unat pw = unat b * 11 div 256"
    unfolding pw_def by (simp add: MAX_PADDING_SSCL_def unat_div_word unat_mult_no_overflow)
  have le: "unat pw \<le> 10" unfolding pw_def by (rule padding_bound)
  have "unat (compute_fee_total_with_padding fl premium b) = unat fl + (unat premium + unat pw)"
    using assms(2) le
    by (simp add: compute_fee_total_with_padding_def apply_padding_def pw_def [symmetric] unat_saturating_add)
  then have "compute_fee_total_with_padding fl premium b = fl + (premium + pw)"
    using assms(2) le by (simp add: word_unat_eq_iff unat_add_no_overflow)
  moreover have "\<not> fl + (premium + pw) < fl"
    using assms(2) le by (simp add: word_less_nat_alt unat_add_no_overflow)
  ultimately have "extract_premium (compute_fee_total_with_padding fl premium b) n m w = Inr (premium + pw)"
    using assms(1) by (simp add: extract_premium_def)
  then show ?thesis using le by (intro exI [of _ "unat pw"]) (simp flip: pw)
qed

theorem padded_fee_roundtrip_witness:
  "\<exists>pad \<le> 10. extract_premium (compute_fee_total_with_padding 40 100 255) 1 2 10 = Inr (100 + of_nat pad) \<and>
     pad = unat (255 :: u8) * 11 div 256"
proof (rule padded_fee_roundtrip)
  show "compute_floor 1 2 10 = Inr 40" by (simp add: compute_floor_Inr_iff MAX_IO_def word_le_nat_alt)
qed simp


section \<open>Conservation\<close>

lemma unat_distribute_fee:
  assumes "unat fee * 95 < 2 ^ 64"
  shows "unat (fd_node_pool (distribute_fee fee)) = unat fee * 95 div 100"
    and "unat (fd_security_fund (distribute_fee fee)) = unat fee - unat fee * 95 div 100"
  using assms
  by (simp_all add: distribute_fee_def Let_def FEE_NODE_POOL_PERCENT_def unat_div_word
      unat_mult_no_overflow unat_saturating_sub)

text \<open>The 64-bit product wraps for large totals; the pool never exceeds the total all the same.\<close>

lemma distribute_fee_split:
  "unat (fd_node_pool (distribute_fee fee)) \<le> unat fee"
  "unat (fd_security_fund (distribute_fee fee)) = unat fee - unat (fd_node_pool (distribute_fee fee))"
proof -
  have pool: "unat (fd_node_pool (distribute_fee fee)) = unat fee * 95 mod 2 ^ 64 div 100"
    by (simp add: distribute_fee_def Let_def FEE_NODE_POOL_PERCENT_def unat_div_word unat_word_ariths)
  also have "\<dots> \<le> unat fee * 95 div 100" by (intro div_le_mono) simp
  also have "\<dots> \<le> unat fee" by simp
  finally show "unat (fd_node_pool (distribute_fee fee)) \<le> unat fee" .
  show "unat (fd_security_fund (distribute_fee fee)) = unat fee - unat (fd_node_pool (distribute_fee fee))"
    by (simp add: distribute_fee_def Let_def unat_saturating_sub)
qed

lemma unat_node_fee_reward:
  assumes "unat wi \<le> unat weff"
  shows "unat (compute_node_fee_reward pool wi weff) = unat pool * unat wi div unat weff"
proof (cases "weff = 0 \<or> wi = 0")
  case True
  then show ?thesis using assms by (auto simp: compute_node_fee_reward_def)
next
  case False
  then have "ucast weff \<noteq> (0 :: u128)" by (metis unat_u64_u128 unat_eq_zero)
  have "unat pool * unat wi < 2 ^ 64 * 2 ^ 64"
    using u64_bound [of pool] u64_bound [of wi] by (intro mult_strict_mono) simp_all
  then have m: "unat (saturating_mul (ucast pool) (ucast wi) :: u128) = unat pool * unat wi"
    by (simp add: unat_saturating_mul)
  have "unat pool * unat wi div unat weff \<le> unat pool * unat weff div unat weff"
    using assms by (intro div_le_mono mult_le_mono2)
  also have "\<dots> = unat pool" using False by (simp add: unat_eq_zero)
  finally have "unat pool * unat wi div unat weff < 2 ^ 64" using u64_bound [of pool] by simp
  then show ?thesis using False \<open>ucast weff \<noteq> 0\<close>
    by (simp add: compute_node_fee_reward_def checked_div_def unat_u128_u64 unat_div_word m)
qed

text \<open>C38. Every token of an epoch's fees is accounted for: for any fee total and any list of node weights
  whose sum fits in 64 bits, the rewards paid out of the node pool never exceed it (Invariant F-4),
  and together with \<open>compute_r_sec\<close> they add up to the fee total exactly, without overflow.  What
  \<open>compute_r_sec\<close> returns is the total less the pool, plus the residual of the pool; the pool is 95 per
  cent rounded down as long as 95 times the total fits in 64 bits.\<close>

theorem fee_full_conservation:
  fixes fee :: u64
  assumes "sum_list (map unat ws) < 2 ^ 64"
  defines "pool \<equiv> fd_node_pool (distribute_fee fee)"
  defines "paid \<equiv> sum_list (map (\<lambda>w. compute_node_fee_reward pool w (compute_w_effective (sum_list ws))) ws)"
  shows "verify_invariant_f4 paid pool \<and> verify_full_conservation fee paid (compute_r_sec fee paid) \<and>
    distribution_is_conserved (distribute_fee fee) fee \<and>
    unat paid + unat (compute_r_sec fee paid) = unat fee \<and>
    unat (compute_r_sec fee paid) = (unat fee - unat pool) + (unat pool - unat paid) \<and>
    (unat fee * 95 < 2 ^ 64 \<longrightarrow> unat pool = unat fee * 95 div 100)"
proof -
  define weff where "weff = compute_w_effective (sum_list ws)"
  have tot: "unat (sum_list ws) = sum_list (map unat ws)"
    using assms(1) by (intro unat_sum_list_no_overflow) simp
  have weff: "unat weff = max (sum_list (map unat ws)) 1000000000"
    by (simp add: weff_def compute_w_effective_def unat_max_of tot W_FLOOR_FP_def)
  have each: "unat w \<le> unat weff" if "w \<in> set ws" for w
    using member_le_sum_list [of "unat w" "map unat ws"] that by (auto simp: weff)
  have "sum_list (map unat (map (\<lambda>w. compute_node_fee_reward pool w weff) ws))
      = sum_list (map (\<lambda>x. x div unat weff) (map (\<lambda>w. unat pool * unat w) ws))"
    by (simp add: o_def) (rule arg_cong [where f = sum_list], simp add: unat_node_fee_reward each)
  also have "\<dots> \<le> sum_list (map (\<lambda>w. unat pool * unat w) ws) div unat weff"
    by (rule sum_list_div_le)
  also have "\<dots> = unat pool * sum_list (map unat ws) div unat weff"
    by (simp add: sum_list_const_mult o_def)
  also have "\<dots> \<le> unat pool * unat weff div unat weff"
    by (intro div_le_mono mult_le_mono2) (simp add: weff)
  also have "\<dots> = unat pool" using weff by simp
  finally have le: "sum_list (map unat (map (\<lambda>w. compute_node_fee_reward pool w weff) ws)) \<le> unat pool" .
  then have paid: "unat paid \<le> unat pool"
    unfolding paid_def weff_def [symmetric]
    using u64_bound [of pool] by (subst unat_sum_list_no_overflow) simp_all
  have split: "unat pool \<le> unat fee" "unat (fd_security_fund (distribute_fee fee)) = unat fee - unat pool"
    using distribute_fee_split [of fee] by (simp_all add: pool_def)
  have "unat pool = unat fee * 95 div 100" if "unat fee * 95 < 2 ^ 64"
    using unat_distribute_fee [OF that] by (simp add: pool_def)
  moreover have fee: "unat fee < 2 ^ 64" using u64_bound [of fee] by simp
  moreover have sec: "unat (compute_r_sec fee paid) = (unat fee - unat pool) + (unat pool - unat paid)"
    using paid split fee by (simp add: compute_r_sec_def compute_fee_residual_def Let_def unat_saturating_add
        unat_saturating_sub pool_def [symmetric])
  ultimately show ?thesis using paid split
    by (simp add: verify_invariant_f4_def verify_full_conservation_def distribution_is_conserved_def word_le_nat_alt
        word_unat_eq_iff unat_saturating_add pool_def [symmetric])
qed

theorem fee_full_conservation_witness:
  "let pool = fd_node_pool (distribute_fee 1000);
       paid = sum_list (map (\<lambda>w. compute_node_fee_reward pool w (compute_w_effective (sum_list [700000000, 900000000])))
         [700000000, 900000000])
   in paid = 949 \<and> unat pool = 950 \<and> verify_full_conservation 1000 paid (compute_r_sec 1000 paid)
     \<and> unat (compute_r_sec 1000 paid) = 51"
proof -
  let ?pool = "fd_node_pool (distribute_fee 1000)"
  let ?paid = "sum_list (map (\<lambda>w. compute_node_fee_reward ?pool w (compute_w_effective (sum_list [700000000, 900000000]))) [700000000, 900000000])"
  have pool: "?pool = 950" by (simp add: distribute_fee_def FEE_NODE_POOL_PERCENT_def)
  have weff: "compute_w_effective (sum_list [700000000, 900000000]) = 1600000000"
    by (simp add: compute_w_effective_def W_FLOOR_FP_def max_def word_le_nat_alt)
  have "unat (compute_node_fee_reward 950 700000000 1600000000) = 415" "unat (compute_node_fee_reward 950 900000000 1600000000) = 534"
    by (simp_all add: unat_node_fee_reward)
  then have "compute_node_fee_reward 950 700000000 1600000000 = 415" "compute_node_fee_reward 950 900000000 1600000000 = 534"
    by (simp_all add: word_unat_eq_iff)
  then have paid: "?paid = 949" unfolding pool weff by simp
  have small: "sum_list (map unat [700000000, 900000000 :: u64]) < 2 ^ 64" by simp
  have "verify_full_conservation 1000 ?paid (compute_r_sec 1000 ?paid)
      \<and> unat (compute_r_sec 1000 ?paid) = (unat (1000 :: u64) - unat ?pool) + (unat ?pool - unat ?paid)"
    using fee_full_conservation [OF small, of 1000] by blast
  then show ?thesis unfolding Let_def paid unfolding pool by simp
qed

section \<open>Batch order and tie-breaking\<close>

text \<open>The batch order is canonical: \<open>sort_batch_by_score\<close> keeps the transactions, puts higher
  scores first and smaller ids first among equal scores; and when the ids are distinct, every
  arrangement of the same transactions that respects this order is the one it returns, so the
  instability of the sort and the order of arrival do not show.\<close>

theorem batch_order_canonical:
  "mset (sort_batch_by_score txs) = mset txs \<and>
   sorted_wrt (\<lambda>a b. compute_score_fp b < compute_score_fp a \<or>
      (compute_score_fp a = compute_score_fp b \<and> tb_tx_id a \<le> tb_tx_id b)) (sort_batch_by_score txs) \<and>
   (distinct (map tb_tx_id txs) \<longrightarrow> mset ys = mset txs \<longrightarrow>
      sorted_wrt (\<lambda>a b. compute_score_fp b < compute_score_fp a \<or>
        (compute_score_fp a = compute_score_fp b \<and> tb_tx_id a \<le> tb_tx_id b)) ys \<longrightarrow>
      ys = sort_batch_by_score txs)"
proof -
  have ord: "compute_score_fp b < compute_score_fp a \<or>
      (compute_score_fp a = compute_score_fp b \<and> tb_tx_id a \<le> tb_tx_id b) \<longleftrightarrow> batch_key a \<le> batch_key b"
    for a b by (auto simp: batch_key_def less_eq_prod_def word_less_def word_uint_eq_iff)
  have "ys = sort_batch_by_score txs"
    if "distinct (map tb_tx_id txs)" "mset ys = mset txs" "sorted (map batch_key ys)"
  proof -
    have "inj_on tb_tx_id (set txs)" using that(1) by (simp add: distinct_map)
    then have "inj_on batch_key (set ys)"
      using that(2) by (auto simp: inj_on_def batch_key_def dest: mset_eq_setD)
    then have "sort_key batch_key ys = sort_key batch_key txs"
      using that(2) by (intro sort_key_inj_key_eq) simp_all
    moreover have "sort_key batch_key ys = ys" using that(3) by (rule sort_key_id_if_sorted)
    ultimately show ?thesis by (simp add: sort_batch_by_score_def)
  qed
  then show ?thesis
    unfolding ord
    using sorted_sort_key [of batch_key txs]
    by (auto simp: sort_batch_by_score_def sorted_map)
qed


theorem batch_order_canonical_witness:
  "sort_batch_by_score
     [\<lparr>tb_tx_id = [1], tb_premium = 10, tb_num_inputs = 1, tb_num_outputs = 1, tb_fee_total = 50\<rparr>,
      \<lparr>tb_tx_id = [2], tb_premium = 20, tb_num_inputs = 1, tb_num_outputs = 1, tb_fee_total = 60\<rparr>] =
     [\<lparr>tb_tx_id = [2], tb_premium = 20, tb_num_inputs = 1, tb_num_outputs = 1, tb_fee_total = 60\<rparr>,
      \<lparr>tb_tx_id = [1], tb_premium = 10, tb_num_inputs = 1, tb_num_outputs = 1, tb_fee_total = 50\<rparr>]"
proof -
  define a where "a = \<lparr>tb_tx_id = [1], tb_premium = 10, tb_num_inputs = 1, tb_num_outputs = 1, tb_fee_total = 50\<rparr>"
  define b where "b = \<lparr>tb_tx_id = [2], tb_premium = 20, tb_num_inputs = 1, tb_num_outputs = 1, tb_fee_total = 60\<rparr>"
  have "unat (compute_score_fp a) = 8" "unat (compute_score_fp b) = 16"
    by (simp_all add: a_def b_def compute_score_fp_def checked_div_def unat_div_word unat_saturating_mul)
  then have "compute_score_fp a < compute_score_fp b" by (simp add: word_less_nat_alt)
  then show ?thesis
    using batch_order_canonical [of "[a, b]" "[b, a]"] unfolding a_def [symmetric] b_def [symmetric]
    by (simp add: a_def b_def)
qed

text \<open>The tie-break elects a minimal score and everybody elects the same score: the winner is
  one of the announcements and none scores lower; two nodes that heard the same announcements
  in different orders elect announcements of the same, least score, hence the same one
  whenever the scores are distinct.\<close>

theorem select_winner_agreement:
  assumes "mset xs = mset ys" "xs \<noteq> []"
  shows "\<exists>w v. select_winner xs = Some w \<and> select_winner ys = Some v \<and> w \<in> set xs \<and> v \<in> set xs \<and>
    tiebreak_score w = tiebreak_score v \<and> tiebreak_score w = Min (tiebreak_score ` set xs) \<and>
    (inj_on tiebreak_score (set xs) \<longrightarrow> w = v)"
proof -
  have set: "set ys = set xs" using assms(1) by (metis mset_eq_setD)
  obtain w where w: "select_winner xs = Some w"
    using assms(2) by (cases "select_winner xs") (simp_all add: select_winner_def)
  obtain v where v: "select_winner ys = Some v"
    using assms(2) set by (cases "select_winner ys") (auto simp: select_winner_def)
  note mw = min_by_key_Some [OF w [unfolded select_winner_def]]
    and mv = min_by_key_Some [OF v [unfolded select_winner_def], unfolded set]
  have "tiebreak_score w = tiebreak_score v" using mw mv by (simp add: order_antisym)
  moreover have "tiebreak_score w = Min (tiebreak_score ` set xs)"
    using mw by (intro Min_eqI [symmetric]) auto
  ultimately show ?thesis using w v mw mv by (auto dest: inj_onD)
qed

theorem select_winner_agreement_witness:
  "\<exists>w v. select_winner [\<lparr>ba_batch_root = [7], ba_node_id = [1], ba_timestamp = 0\<rparr>,
            \<lparr>ba_batch_root = [7], ba_node_id = [2], ba_timestamp = 0\<rparr>] = Some w \<and>
     select_winner [\<lparr>ba_batch_root = [7], ba_node_id = [2], ba_timestamp = 0\<rparr>,
            \<lparr>ba_batch_root = [7], ba_node_id = [1], ba_timestamp = 0\<rparr>] = Some v \<and>
     tiebreak_score w = tiebreak_score v"
  using select_winner_agreement [of "[\<lparr>ba_batch_root = [7], ba_node_id = [1], ba_timestamp = 0\<rparr>,
            \<lparr>ba_batch_root = [7], ba_node_id = [2], ba_timestamp = 0\<rparr>]"
            "[\<lparr>ba_batch_root = [7], ba_node_id = [2], ba_timestamp = 0\<rparr>,
            \<lparr>ba_batch_root = [7], ba_node_id = [1], ba_timestamp = 0\<rparr>]"]
  by (metis add_mset_commute list.distinct(1) mset.simps)

text \<open>Truncated identifiers spoil that agreement: the score reads only the first eight bytes
  of the batch root and of the node id, so two aggregators whose ids agree there tie, and the
  winner is whichever announcement came first.\<close>

theorem select_winner_order_dependent:
  assumes "take 8 (ba_node_id a) = take 8 (ba_node_id b)" "take 8 (ba_batch_root a) = take 8 (ba_batch_root b)"
  shows "select_winner [a, b] = Some a \<and> select_winner [b, a] = Some b"
  using assms by (simp add: select_winner_def min_by_key_def tiebreak_score_def)

theorem select_winner_order_dependent_witness:
  "select_winner [\<lparr>ba_batch_root = replicate 32 7, ba_node_id = replicate 32 1, ba_timestamp = 0\<rparr>,
                  \<lparr>ba_batch_root = replicate 32 7, ba_node_id = replicate 8 1 @ replicate 24 2, ba_timestamp = 0\<rparr>]
     = Some \<lparr>ba_batch_root = replicate 32 7, ba_node_id = replicate 32 1, ba_timestamp = 0\<rparr> \<and>
   select_winner [\<lparr>ba_batch_root = replicate 32 7, ba_node_id = replicate 8 1 @ replicate 24 2, ba_timestamp = 0\<rparr>,
                  \<lparr>ba_batch_root = replicate 32 7, ba_node_id = replicate 32 1, ba_timestamp = 0\<rparr>]
     = Some \<lparr>ba_batch_root = replicate 32 7, ba_node_id = replicate 8 1 @ replicate 24 2, ba_timestamp = 0\<rparr>"
  by (rule select_winner_order_dependent) simp_all

section \<open>Inclusion\<close>

text \<open>A claim is judged valid exactly when every pool transaction that has waited longer than
  the limit is included, and otherwise the verdict counts the pool entries left out.\<close>

theorem verify_inclusion_correct:
  "(verify_inclusion claim pool ids wait = Valid \<longleftrightarrow>
      {pt_tx_id tx |tx. tx \<in> set pool \<and>
         unat (pt_entry_timestamp_ms tx) + unat wait < unat (ic_batch_timestamp_ms claim)} \<subseteq> set ids) \<and>
   (verify_inclusion claim pool ids wait = ExcludedEligibleTx k \<longleftrightarrow>
      0 < k \<and> k = length (filter (\<lambda>tx. unat (pt_entry_timestamp_ms tx) + unat wait
        < unat (ic_batch_timestamp_ms claim) \<and> pt_tx_id tx \<notin> set ids) pool))"
proof -
  have el: "pt_entry_timestamp_ms tx < saturating_sub (ic_batch_timestamp_ms claim) wait \<longleftrightarrow>
      unat (pt_entry_timestamp_ms tx) + unat wait < unat (ic_batch_timestamp_ms claim)" for tx
    by (auto simp: word_less_nat_alt unat_saturating_sub)
  show ?thesis
    unfolding verify_inclusion_def Let_def el filter_filter by (auto simp: filter_empty_conv)
qed

end
