(* ===== verification/Manifest.thy ===== *)
theory Manifest
  imports Emission
begin

text \<open>
  The epoch reward manifest of \<open>core/scalar-emission/src/dmm.rs\<close> with its deterministic fallback
  \<open>build_dmm\<close>, version validation (\<open>types.rs\<close>) and the consensus engine with its quorum and
  aggregator fallback (\<open>consensus.rs\<close>).  BLAKE3 is the parameter \<open>blake3\<close>; incremental
  \<open>Hasher::update\<close> calls are the hash of the concatenation.
\<close>

section \<open>Manifests\<close>

definition MAX_CONSECUTIVE_DEFER :: u32 where
  "MAX_CONSECUTIVE_DEFER = 2"

definition DOMAIN_SEED :: bytes where
  "DOMAIN_SEED = ascii ''scalar_seed''"

definition DOMAIN_SCORE :: bytes where
  "DOMAIN_SCORE = ascii ''scalar_score''"

definition SPEC_VERSION_MANIFEST :: u8 where
  "SPEC_VERSION_MANIFEST = 1"

definition AGGREGATOR_VALIDATOR_QUORUM :: u32 where
  "AGGREGATOR_VALIDATOR_QUORUM = 7"

definition AGGREGATOR_FALLBACK_MAX :: u32 where
  "AGGREGATOR_FALLBACK_MAX = 3"

record node_reward_entry =
  nr_node_id_full :: bytes
  nr_reward_sscl :: u64
  nr_uptime_weight_fp :: u64

datatype epoch_status = StatusOpen | StatusFinalized | StatusDeferred

record epoch_reward_manifest =
  em_epoch_id :: u64
  em_node_list :: "node_reward_entry list"
  em_spec_version :: u8
  em_total_emission_sscl :: u64
  em_deferred :: bool
  em_seed_k :: bytes
  em_manifest_hash :: bytes
  em_reward_root :: bytes
  em_network_health_digest :: bytes
  em_status :: epoch_status
  em_tx_set_root :: bytes

definition zero32 :: bytes where
  "zero32 = replicate 32 0"

definition manifest_deferred :: "u64 \<Rightarrow> u64 \<Rightarrow> epoch_reward_manifest" where
  "manifest_deferred epoch_id previous_emission_total =
     \<lparr>em_epoch_id = epoch_id, em_node_list = [], em_spec_version = SPEC_VERSION_MANIFEST,
      em_total_emission_sscl = 0, em_deferred = True, em_seed_k = zero32, em_manifest_hash = zero32,
      em_reward_root = zero32, em_network_health_digest = zero32, em_status = StatusDeferred,
      em_tx_set_root = zero32\<rparr>"

definition verify_arithmetic_invariants :: "epoch_reward_manifest \<Rightarrow> bool" where
  "verify_arithmetic_invariants m \<longleftrightarrow> True"

record prev_node_entry =
  pn_node_id_full :: bytes
  pn_uptime_weight_fp :: u64

record committed_manifest_ref =
  cm_manifest_hash :: bytes
  cm_node_list :: "prev_node_entry list"
  cm_epoch_id :: u64

record anchor_data =
  an_node_id_full :: bytes
  an_hb_count :: u64
  an_chain_head :: bytes
  an_uptime_weight_fp :: u64

record local_heartbeat_data =
  lh_anchors :: "anchor_data list"
  lh_epoch_k :: u64

definition local_heartbeat_data_new :: "u64 \<Rightarrow> local_heartbeat_data" where
  "local_heartbeat_data_new epoch_k = \<lparr>lh_anchors = [], lh_epoch_k = epoch_k\<rparr>"

definition find_valid_anchor :: "local_heartbeat_data \<Rightarrow> bytes \<Rightarrow> anchor_data option" where
  "find_valid_anchor d node_id_full = find (\<lambda>a. an_node_id_full a = node_id_full) (lh_anchors d)"

datatype dmm_error = BootstrapRequired | ManifestHashMismatch | NoEligibleNodes

definition compute_tx_set_root :: "(bytes \<Rightarrow> bytes) \<Rightarrow> bytes list \<Rightarrow> bytes" where
  "compute_tx_set_root blake3 txids = blake3 (concat (sort txids))"

definition entry_bytes :: "node_reward_entry \<Rightarrow> bytes" where
  "entry_bytes e = nr_node_id_full e @ le_bytes 8 (nr_reward_sscl e) @ le_bytes 8 (nr_uptime_weight_fp e)"

definition compute_reward_root :: "(bytes \<Rightarrow> bytes) \<Rightarrow> node_reward_entry list \<Rightarrow> bytes" where
  "compute_reward_root blake3 node_list = blake3 (concat (map entry_bytes node_list))"

definition compute_network_health_digest :: "(bytes \<Rightarrow> bytes) \<Rightarrow> u64 \<Rightarrow> u64 \<Rightarrow> u64 \<Rightarrow> bytes" where
  "compute_network_health_digest blake3 epoch_k anchor_count total_weight_fp =
     blake3 (le_bytes 8 epoch_k @ le_bytes 8 anchor_count @ le_bytes 8 total_weight_fp)"

definition compute_seed_k :: "(bytes \<Rightarrow> bytes) \<Rightarrow> bytes \<Rightarrow> bytes" where
  "compute_seed_k blake3 committed_manifest_hash = blake3 (DOMAIN_SEED @ committed_manifest_hash)"

definition manifest_preimage :: "epoch_reward_manifest \<Rightarrow> bytes" where
  "manifest_preimage m =
     le_bytes 8 (em_epoch_id m) @ [em_spec_version m] @ le_bytes 8 (em_total_emission_sscl m)
     @ [of_bool (em_deferred m)] @ em_seed_k m @ em_reward_root m @ em_network_health_digest m
     @ em_tx_set_root m @ le_bytes 8 (of_nat (length (em_node_list m)) :: u64)
     @ concat (map entry_bytes (em_node_list m))"

definition compute_manifest_hash :: "(bytes \<Rightarrow> bytes) \<Rightarrow> epoch_reward_manifest \<Rightarrow> bytes" where
  "compute_manifest_hash blake3 m = blake3 (manifest_preimage m)"

definition verify_manifest_hash :: "(bytes \<Rightarrow> bytes) \<Rightarrow> epoch_reward_manifest \<Rightarrow> bool" where
  "verify_manifest_hash blake3 m \<longleftrightarrow> em_manifest_hash m = compute_manifest_hash blake3 m"

definition compute_score :: "(bytes \<Rightarrow> bytes) \<Rightarrow> bytes \<Rightarrow> bytes \<Rightarrow> bytes" where
  "compute_score blake3 node_id_full seed_k = blake3 (DOMAIN_SCORE @ node_id_full @ seed_k)"

definition compute_reward_for_node :: "u64 \<Rightarrow> u64 \<Rightarrow> u64 \<Rightarrow> u64" where
  "compute_reward_for_node e_active_sscl w_i_fp w_effective_fp =
     (if w_effective_fp = 0 then 0
      else ucast (saturating_mul (ucast e_active_sscl) (ucast w_i_fp) div (ucast w_effective_fp :: u128)))"

section \<open>Deterministic minimal manifest\<close>

record dmm_config =
  dc_e_active_sscl :: u64
  dc_fee_pool_sscl :: u64
  dc_txids :: "bytes list"

definition dmm_collect ::
  "local_heartbeat_data \<Rightarrow> prev_node_entry \<Rightarrow> node_reward_entry list \<times> u64 \<Rightarrow> node_reward_entry list \<times> u64" where
  "dmm_collect d prev_entry = (\<lambda>(node_list, w_total).
     case find_valid_anchor d (pn_node_id_full prev_entry) of
       None \<Rightarrow> (node_list, w_total)
     | Some anchor \<Rightarrow>
         (node_list @ [\<lparr>nr_node_id_full = pn_node_id_full prev_entry, nr_reward_sscl = 0,
            nr_uptime_weight_fp = an_uptime_weight_fp anchor\<rparr>],
          saturating_add w_total (an_uptime_weight_fp anchor)))"

definition dmm_reward ::
  "u64 \<Rightarrow> u64 \<Rightarrow> node_reward_entry \<Rightarrow> node_reward_entry list \<times> u64 \<Rightarrow> node_reward_entry list \<times> u64" where
  "dmm_reward e_active w_effective entry = (\<lambda>(node_list, total).
     let reward = compute_reward_for_node e_active (nr_uptime_weight_fp entry) w_effective
     in (node_list @ [entry\<lparr>nr_reward_sscl := reward\<rparr>], saturating_add total reward))"

definition build_dmm ::
  "(bytes \<Rightarrow> bytes) \<Rightarrow> u64 \<Rightarrow> committed_manifest_ref option \<Rightarrow> local_heartbeat_data \<Rightarrow> dmm_config
    \<Rightarrow> dmm_error + epoch_reward_manifest" where
  "build_dmm blake3 epoch_k prev_manifest d config =
     (case prev_manifest of
        None \<Rightarrow> Inl BootstrapRequired
      | Some prev \<Rightarrow>
          if cm_manifest_hash prev = zero32 then Inl ManifestHashMismatch
          else
            let (collected, w_total_fp) = fold (dmm_collect d) (cm_node_list prev) ([], 0);
                w_effective_fp = (if w_total_fp = 0 then 1 else w_total_fp);
                (node_list, total_emission) =
                  fold (dmm_reward (dc_e_active_sscl config) w_effective_fp) collected ([], 0);
                manifest =
                  \<lparr>em_epoch_id = epoch_k, em_node_list = node_list, em_spec_version = SPEC_VERSION_MANIFEST,
                   em_total_emission_sscl = total_emission, em_deferred = True,
                   em_seed_k = compute_seed_k blake3 (cm_manifest_hash prev), em_manifest_hash = zero32,
                   em_reward_root = compute_reward_root blake3 node_list,
                   em_network_health_digest =
                     compute_network_health_digest blake3 epoch_k (of_nat (length node_list)) w_total_fp,
                   em_status = StatusDeferred,
                   em_tx_set_root = compute_tx_set_root blake3 (dc_txids config)\<rparr>
            in Inr (manifest\<lparr>em_manifest_hash := compute_manifest_hash blake3 manifest\<rparr>))"

record defer_counter =
  dcn_consecutive_count :: u32

definition defer_counter_new :: defer_counter where
  "defer_counter_new = \<lparr>dcn_consecutive_count = 0\<rparr>"

definition defer_increment :: "defer_counter \<Rightarrow> defer_counter \<times> u32" where
  "defer_increment c =
     (let n = dcn_consecutive_count c + 1 in (c\<lparr>dcn_consecutive_count := n\<rparr>, n))"

definition defer_reset :: "defer_counter \<Rightarrow> defer_counter" where
  "defer_reset c = c\<lparr>dcn_consecutive_count := 0\<rparr>"

definition must_use_dmm :: "defer_counter \<Rightarrow> bool" where
  "must_use_dmm c \<longleftrightarrow> dcn_consecutive_count c \<ge> MAX_CONSECUTIVE_DEFER"

section \<open>Version validation\<close>

datatype manifest_version_error = UnknownVersion u8

definition validate_manifest_version :: "u8 \<Rightarrow> manifest_version_error + unit" where
  "validate_manifest_version version =
     (if version = SPEC_VERSION_MANIFEST then Inr () else Inl (UnknownVersion version))"

definition validate_manifest :: "epoch_reward_manifest \<Rightarrow> manifest_version_error + unit" where
  "validate_manifest m = validate_manifest_version (em_spec_version m)"

section \<open>Consensus engine\<close>

record validation_vote =
  vv_validator_id :: bytes
  vv_manifest_hash :: bytes
  vv_agrees :: bool

datatype quorum_result = QuorumAchieved u32 | QuorumFailed u32

definition check_quorum :: "validation_vote list \<Rightarrow> bytes \<Rightarrow> quorum_result" where
  "check_quorum votes expected_manifest_hash =
     (let agree_count =
            of_nat (length (filter (\<lambda>v. vv_agrees v \<and> vv_manifest_hash v = expected_manifest_hash) votes))
      in if agree_count \<ge> AGGREGATOR_VALIDATOR_QUORUM then QuorumAchieved agree_count
         else QuorumFailed agree_count)"

record aggregator_selection =
  as_aggregator :: bytes
  as_validators :: "bytes list"
  as_seed_k :: bytes

datatype fallback_state = Retry u32 bytes | EpochDeferred

definition try_fallback :: "u32 \<Rightarrow> aggregator_selection \<Rightarrow> nat \<Rightarrow> fallback_state" where
  "try_fallback fallback_count selection current_fallback_index =
     (if fallback_count \<ge> AGGREGATOR_FALLBACK_MAX then EpochDeferred
      else if current_fallback_index < length (as_validators selection)
      then Retry (fallback_count + 1) (as_validators selection ! current_fallback_index)
      else EpochDeferred)"

datatype consensus_state = ConsensusOpen epoch_reward_manifest | ConsensusFinalized

record consensus_engine =
  ce_state :: consensus_state
  ce_fallback_count :: u32

definition consensus_engine_new :: "u64 \<Rightarrow> consensus_engine" where
  "consensus_engine_new initial_epoch =
     \<lparr>ce_state = ConsensusOpen (manifest_deferred initial_epoch 0), ce_fallback_count = 0\<rparr>"

datatype finalize_error = NotFinalizedStatus | ArithmeticInvariantsFailed | HashMismatch

definition transition_to_finalized ::
  "(bytes \<Rightarrow> bytes) \<Rightarrow> consensus_engine \<Rightarrow> epoch_reward_manifest \<Rightarrow> consensus_engine \<times> (finalize_error + unit)" where
  "transition_to_finalized blake3 e final_manifest =
     (if em_status final_manifest \<noteq> StatusFinalized then (e, Inl NotFinalizedStatus)
      else if \<not> verify_arithmetic_invariants final_manifest then (e, Inl ArithmeticInvariantsFailed)
      else if \<not> verify_manifest_hash blake3 final_manifest then (e, Inl HashMismatch)
      else (e\<lparr>ce_state := ConsensusFinalized, ce_fallback_count := 0\<rparr>, Inr ()))"

definition process_votes :: "consensus_engine \<Rightarrow> validation_vote list \<Rightarrow> bytes \<Rightarrow> quorum_result" where
  "process_votes e votes manifest_hash = check_quorum votes manifest_hash"

definition increment_fallback :: "consensus_engine \<Rightarrow> consensus_engine \<times> fallback_state" where
  "increment_fallback e =
     (let e = e\<lparr>ce_fallback_count := ce_fallback_count e + 1\<rparr>
      in (e, if ce_fallback_count e > AGGREGATOR_FALLBACK_MAX then EpochDeferred
             else Retry (ce_fallback_count e) (replicate 4 0)))"

definition defer_epoch :: "consensus_engine \<Rightarrow> u64 \<Rightarrow> consensus_engine" where
  "defer_epoch e epoch_id =
     e\<lparr>ce_state := ConsensusOpen (manifest_deferred epoch_id 0), ce_fallback_count := 0\<rparr>"


section \<open>The fallback manifest\<close>

text \<open>The two accumulating loops of \<open>build_dmm\<close> as list functions.\<close>

definition anchored_entry :: "local_heartbeat_data \<Rightarrow> prev_node_entry \<Rightarrow> node_reward_entry option" where
  "anchored_entry d p = map_option (\<lambda>a. \<lparr>nr_node_id_full = pn_node_id_full p, nr_reward_sscl = 0,
     nr_uptime_weight_fp = an_uptime_weight_fp a\<rparr>) (find_valid_anchor d (pn_node_id_full p))"

definition anchored_entries :: "local_heartbeat_data \<Rightarrow> prev_node_entry list \<Rightarrow> node_reward_entry list" where
  "anchored_entries d ps = List.map_filter (anchored_entry d) ps"

lemma dmm_collect_fold:
  "fold (dmm_collect d) ps (ns, w) =
     (ns @ anchored_entries d ps, fold (\<lambda>e w. saturating_add w (nr_uptime_weight_fp e)) (anchored_entries d ps) w)"
  by (induction ps arbitrary: ns w)
     (simp_all add: dmm_collect_def anchored_entries_def anchored_entry_def map_filter_simps
       split: option.splits)

lemma dmm_reward_fold:
  "fold (dmm_reward e w) es (ns, t) =
     (ns @ map (\<lambda>x. x\<lparr>nr_reward_sscl := compute_reward_for_node e (nr_uptime_weight_fp x) w\<rparr>) es,
      fold (\<lambda>r t. saturating_add t r) (map (\<lambda>x. compute_reward_for_node e (nr_uptime_weight_fp x) w) es) t)"
  by (induction es arbitrary: ns t) (simp_all add: dmm_reward_def Let_def)

lemma fold_saturating_add:
  fixes t :: "'a::len word"
  assumes "unat t + sum_list (map unat xs) < 2 ^ LENGTH('a)"
  shows "unat (fold (\<lambda>r t. saturating_add t r) xs t) = unat t + sum_list (map unat xs)"
  using assms
proof (induction xs arbitrary: t)
  case (Cons x xs)
  then have "unat (saturating_add t x) = unat t + unat x" by (simp add: unat_saturating_add)
  with Cons show ?case by (simp add: add.assoc)
qed simp

lemma unat_compute_reward:
  assumes "unat w \<le> unat W" "W \<noteq> 0"
  shows "unat (compute_reward_for_node e w W) = unat e * unat w div unat W"
proof -
  have "unat e * unat w < 2 ^ 64 * 2 ^ 64"
    using u64_bound [of e] u64_bound [of w] by (intro mult_strict_mono) simp_all
  then have m: "unat (saturating_mul (ucast e) (ucast w) :: u128) = unat e * unat w"
    by (simp add: unat_saturating_mul)
  have "unat e * unat w div unat W \<le> unat e * unat W div unat W"
    using assms by (intro div_le_mono mult_le_mono2)
  also have "\<dots> = unat e" using assms by (simp add: unat_eq_zero)
  finally have "unat e * unat w div unat W < 2 ^ 64" using u64_bound [of e] by simp
  then show ?thesis using assms by (simp add: compute_reward_for_node_def unat_u128_u64 unat_div_word m)
qed

definition dmm_weights :: "local_heartbeat_data \<Rightarrow> prev_node_entry list \<Rightarrow> u64 list" where
  "dmm_weights d ps = map nr_uptime_weight_fp (anchored_entries d ps)"

lemma fold_map_weights:
  "fold (\<lambda>e w. saturating_add w (nr_uptime_weight_fp e)) es w =
   fold (\<lambda>r t. saturating_add t r) (map nr_uptime_weight_fp es) w"
  by (induction es arbitrary: w) simp_all

lemma build_dmm_Inr:
  fixes d :: local_heartbeat_data and config :: dmm_config
  assumes "cm_manifest_hash prev \<noteq> zero32"
  defines "es \<equiv> anchored_entries d (cm_node_list prev)"
  defines "W \<equiv> fold (\<lambda>r t. saturating_add t r) (dmm_weights d (cm_node_list prev)) 0"
  defines "rew \<equiv> \<lambda>x. compute_reward_for_node (dc_e_active_sscl config) (nr_uptime_weight_fp x) (if W = 0 then 1 else W)"
  obtains m where "build_dmm blake3 k (Some prev) d config = Inr m"
    "em_node_list m = map (\<lambda>x. x\<lparr>nr_reward_sscl := rew x\<rparr>) es"
    "em_total_emission_sscl m = fold (\<lambda>r t. saturating_add t r) (map rew es) 0"
    "em_manifest_hash m = compute_manifest_hash blake3 m" "em_deferred m" "em_epoch_id m = k"
    "em_status m = StatusDeferred" "em_seed_k m = compute_seed_k blake3 (cm_manifest_hash prev)"
    "em_tx_set_root m = compute_tx_set_root blake3 (dc_txids config)"
  using assms
  by (simp add: build_dmm_def dmm_collect_fold dmm_reward_fold dmm_weights_def fold_map_weights
      compute_manifest_hash_def manifest_preimage_def Let_def del: fold_simps)

text \<open>The fallback manifest is built exactly by the nodes that hold a committed predecessor: a
  node without one gets \<open>BootstrapRequired\<close>, one whose predecessor has the zero hash gets
  \<open>ManifestHashMismatch\<close>, every other node gets a deferred manifest whose hash verifies and
  whose nodes are those of the predecessor that have an anchor, in the same order.  The error
  \<open>NoEligibleNodes\<close> is never returned: without anchors the manifest is empty.\<close>

theorem build_dmm_outcomes:
  "(build_dmm blake3 k prev d config = Inl BootstrapRequired \<longleftrightarrow> prev = None) \<and>
   (build_dmm blake3 k prev d config = Inl ManifestHashMismatch \<longleftrightarrow>
      (\<exists>p. prev = Some p \<and> cm_manifest_hash p = zero32)) \<and>
   build_dmm blake3 k prev d config \<noteq> Inl NoEligibleNodes \<and>
   (case prev of None \<Rightarrow> True | Some p \<Rightarrow>
      cm_manifest_hash p = zero32 \<or>
      (\<exists>m. build_dmm blake3 k prev d config = Inr m \<and> verify_manifest_hash blake3 m \<and> em_deferred m \<and>
         map nr_node_id_full (em_node_list m) =
           filter (\<lambda>i. find_valid_anchor d i \<noteq> None) (map pn_node_id_full (cm_node_list p))))"
proof (cases prev)
  case None
  then show ?thesis by (simp add: build_dmm_def)
next
  case (Some p)
  show ?thesis
  proof (cases "cm_manifest_hash p = zero32")
    case True
    with Some show ?thesis by (simp add: build_dmm_def)
  next
    case False
    have ids: "map nr_node_id_full (anchored_entries d ps) =
        filter (\<lambda>i. find_valid_anchor d i \<noteq> None) (map pn_node_id_full ps)" for ps
      by (induction ps)
         (auto simp: anchored_entries_def anchored_entry_def map_filter_simps split: option.splits)
    obtain m where m: "build_dmm blake3 k (Some p) d config = Inr m" "em_deferred m"
      "em_manifest_hash m = compute_manifest_hash blake3 m"
      "map nr_node_id_full (em_node_list m) = map nr_node_id_full (anchored_entries d (cm_node_list p))"
      by (rule build_dmm_Inr [OF False, of blake3 k d config]) (auto simp: o_def)
    then show ?thesis using Some False ids by (auto simp: verify_manifest_hash_def)
  qed
qed

text \<open>The fallback never emits more than the epoch has: when the anchored weights do not add up
  beyond 64 bits, the total of a fallback manifest is the exact sum of its entries' rewards and
  is at most the active emission it was given.\<close>

theorem build_dmm_emission_bound:
  assumes "build_dmm blake3 k (Some prev) d config = Inr m"
    and "sum_list (map unat (dmm_weights d (cm_node_list prev))) < 2 ^ 64"
  shows "unat (em_total_emission_sscl m) = sum_list (map (unat \<circ> nr_reward_sscl) (em_node_list m)) \<and>
    unat (em_total_emission_sscl m) \<le> unat (dc_e_active_sscl config)"
proof -
  have nz: "cm_manifest_hash prev \<noteq> zero32" using assms(1) by (auto simp: build_dmm_def)
  define ws where "ws = dmm_weights d (cm_node_list prev)"
  define W where "W = fold (\<lambda>r t. saturating_add t r) ws (0 :: u64)"
  define V where "V = (if W = 0 then 1 else W)"
  define E where "E = unat (dc_e_active_sscl config)"
  have W: "unat W = sum_list (map unat ws)"
    using assms(2) fold_saturating_add [of 0 ws] by (simp add: W_def ws_def)
  then have V: "V \<noteq> 0" "sum_list (map unat ws) \<le> unat V"
    by (simp_all add: V_def W [symmetric] del: sum_list_eq_0_iff)
  have each: "unat w \<le> unat V" if "w \<in> set ws" for w
    using member_le_sum_list [of "unat w" "map unat ws"] that V by auto
  define rs where "rs = map (\<lambda>w. compute_reward_for_node (dc_e_active_sscl config) w V) ws"
  have "sum_list (map unat rs) = sum_list (map (\<lambda>x. x div unat V) (map (\<lambda>w. E * unat w) ws))"
    unfolding rs_def E_def map_map o_def
    by (rule arg_cong [where f = sum_list]) (simp add: unat_compute_reward each V)
  also have "\<dots> \<le> sum_list (map (\<lambda>w. E * unat w) ws) div unat V" by (rule sum_list_div_le)
  also have "\<dots> = E * sum_list (map unat ws) div unat V" by (simp add: sum_list_const_mult o_def)
  also have "\<dots> \<le> E * unat V div unat V" using V by (intro div_le_mono mult_le_mono2)
  also have "\<dots> = E" using V by (simp add: unat_eq_zero)
  finally have le: "sum_list (map unat rs) \<le> E" .
  then have "unat (fold (\<lambda>r t. saturating_add t r) rs (0 :: u64)) = sum_list (map unat rs)"
    using u64_bound [of "dc_e_active_sscl config"] by (subst fold_saturating_add) (simp_all add: E_def)
  moreover have "em_total_emission_sscl m = fold (\<lambda>r t. saturating_add t r) rs 0"
      "map nr_reward_sscl (em_node_list m) = rs"
    by (rule build_dmm_Inr [OF nz, of blake3 k d config],
        use assms(1) in \<open>simp add: rs_def ws_def dmm_weights_def V_def W_def o_def\<close>)+
  ultimately show ?thesis using le by (metis E_def list.map_comp)
qed


definition sample_prev :: committed_manifest_ref where
  "sample_prev = \<lparr>cm_manifest_hash = replicate 32 7,
     cm_node_list = [\<lparr>pn_node_id_full = replicate 32 1, pn_uptime_weight_fp = 900000\<rparr>], cm_epoch_id = 4\<rparr>"

definition sample_heartbeats :: local_heartbeat_data where
  "sample_heartbeats = \<lparr>lh_anchors = [\<lparr>an_node_id_full = replicate 32 1, an_hb_count = 10,
     an_chain_head = zero32, an_uptime_weight_fp = 800000\<rparr>], lh_epoch_k = 5\<rparr>"

lemma sample_dmm:
  "\<exists>m. build_dmm (\<lambda>b. replicate 32 1) 5 (Some sample_prev) sample_heartbeats config = Inr m
     \<and> length (em_node_list m) = 1"
  "sum_list (map unat (dmm_weights sample_heartbeats (cm_node_list sample_prev))) < 2 ^ 64"
proof -
  have nz: "cm_manifest_hash sample_prev \<noteq> zero32" by (simp add: sample_prev_def zero32_def)
  have es: "anchored_entries sample_heartbeats (cm_node_list sample_prev) =
      [\<lparr>nr_node_id_full = replicate 32 1, nr_reward_sscl = 0, nr_uptime_weight_fp = 800000\<rparr>]"
    by (simp add: anchored_entries_def anchored_entry_def map_filter_simps sample_prev_def sample_heartbeats_def
        find_valid_anchor_def)
  obtain m where "build_dmm (\<lambda>b. replicate 32 1) 5 (Some sample_prev) sample_heartbeats config = Inr m"
      "length (em_node_list m) = 1"
    by (rule build_dmm_Inr [OF nz, of "\<lambda>b. replicate 32 1" 5 sample_heartbeats config]) (auto simp: es)
  then show "\<exists>m. build_dmm (\<lambda>b. replicate 32 1) 5 (Some sample_prev) sample_heartbeats config = Inr m
     \<and> length (em_node_list m) = 1" by blast
  show "sum_list (map unat (dmm_weights sample_heartbeats (cm_node_list sample_prev))) < 2 ^ 64"
    by (simp add: dmm_weights_def es)
qed

section \<open>Determinism and what the hash binds\<close>

lemma find_unique:
  assumes "distinct (map f xs)" "mset xs = mset ys"
  shows "find (\<lambda>x. f x = k) xs = find (\<lambda>x. f x = k) ys"
proof -
  have d: "distinct (map f ys)" using assms by (metis distinct_map mset_eq_imp_distinct_iff mset_map)
  have s: "set xs = set ys" using assms(2) by (rule mset_eq_setD)
  have char: "find (\<lambda>x. f x = k) zs = Some x \<longleftrightarrow> x \<in> set zs \<and> f x = k"
    if "distinct (map f zs)" for zs x
    using that by (induction zs) (auto split: if_splits)
  show ?thesis
  proof (cases "find (\<lambda>x. f x = k) xs")
    case None
    then show ?thesis using s by (metis find_None_iff)
  next
    case (Some x)
    then show ?thesis using char [OF assms(1)] char [OF d] s by metis
  qed
qed

text \<open>Two nodes with the same data build the same fallback manifest bit for bit: the result
  depends neither on the order in which a node collected its anchors (one per node id) nor on
  the order of the transaction ids.\<close>

theorem build_dmm_deterministic:
  assumes "distinct (map an_node_id_full (lh_anchors d))" "mset (lh_anchors d) = mset (lh_anchors d')"
    and "dc_e_active_sscl c = dc_e_active_sscl c'" "mset (dc_txids c) = mset (dc_txids c')"
  shows "build_dmm blake3 k prev d c = build_dmm blake3 k prev d' c'"
proof -
  have "find_valid_anchor d = find_valid_anchor d'"
    using find_unique [OF assms(1,2)] by (simp add: find_valid_anchor_def fun_eq_iff)
  then have collect: "dmm_collect d = dmm_collect d'" by (simp add: dmm_collect_def fun_eq_iff)
  have "sort (dc_txids c) = sort (dc_txids c')" using assms(4) 
    by (intro properties_for_sort) simp_all
  then have root: "compute_tx_set_root blake3 (dc_txids c) = compute_tx_set_root blake3 (dc_txids c')"
    by (simp add: compute_tx_set_root_def)
  show ?thesis unfolding build_dmm_def assms(3) collect root ..
qed

theorem build_dmm_deterministic_witness:
  "build_dmm rev 1
     (Some \<lparr>cm_manifest_hash = replicate 32 7,
        cm_node_list = [\<lparr>pn_node_id_full = [1], pn_uptime_weight_fp = 900000\<rparr>], cm_epoch_id = 0\<rparr>)
     \<lparr>lh_anchors = [\<lparr>an_node_id_full = [1], an_hb_count = 1, an_chain_head = [], an_uptime_weight_fp = 5\<rparr>,
                    \<lparr>an_node_id_full = [2], an_hb_count = 1, an_chain_head = [], an_uptime_weight_fp = 6\<rparr>],
      lh_epoch_k = 1\<rparr>
     \<lparr>dc_e_active_sscl = 9, dc_fee_pool_sscl = 0, dc_txids = [[1], [2]]\<rparr> =
   build_dmm rev 1
     (Some \<lparr>cm_manifest_hash = replicate 32 7,
        cm_node_list = [\<lparr>pn_node_id_full = [1], pn_uptime_weight_fp = 900000\<rparr>], cm_epoch_id = 0\<rparr>)
     \<lparr>lh_anchors = [\<lparr>an_node_id_full = [2], an_hb_count = 1, an_chain_head = [], an_uptime_weight_fp = 6\<rparr>,
                    \<lparr>an_node_id_full = [1], an_hb_count = 1, an_chain_head = [], an_uptime_weight_fp = 5\<rparr>],
      lh_epoch_k = 1\<rparr>
     \<lparr>dc_e_active_sscl = 9, dc_fee_pool_sscl = 0, dc_txids = [[2], [1]]\<rparr>"
  by (rule build_dmm_deterministic) simp_all

definition manifest_shape :: "epoch_reward_manifest \<Rightarrow> bool" where
  "manifest_shape m \<longleftrightarrow> length (em_seed_k m) = 32 \<and> length (em_reward_root m) = 32 \<and>
     length (em_network_health_digest m) = 32 \<and> length (em_tx_set_root m) = 32 \<and>
     list_all (\<lambda>e. length (nr_node_id_full e) = 32) (em_node_list m) \<and> length (em_node_list m) < 2 ^ 64"

lemma entry_bytes_inj:
  "length (nr_node_id_full e) = 32 \<Longrightarrow> length (nr_node_id_full e') = 32 \<Longrightarrow>
    entry_bytes e = entry_bytes e' \<Longrightarrow> e = (e' :: node_reward_entry)"
  by (auto simp: entry_bytes_def le_bytes_inject)

text \<open>The manifest hash binds the manifest: the hashed encoding is injective on manifests of
  the declared shape (32-byte digests and node ids), so two manifests with the same encoding
  agree in epoch, version, emission, deferral flag, seed, roots and the whole node list.\<close>

theorem manifest_encoding_injective:
  assumes "manifest_shape m" "manifest_shape m'" "manifest_preimage m = manifest_preimage m'"
  shows "m' = m\<lparr>em_manifest_hash := em_manifest_hash m', em_status := em_status m'\<rparr>"
proof -
  note len = assms(1,2) [unfolded manifest_shape_def]
  have eqs: "em_epoch_id m = em_epoch_id m'" "em_spec_version m = em_spec_version m'"
    "em_total_emission_sscl m = em_total_emission_sscl m'" "em_deferred m = em_deferred m'"
    "em_seed_k m = em_seed_k m'" "em_reward_root m = em_reward_root m'"
    "em_network_health_digest m = em_network_health_digest m'" "em_tx_set_root m = em_tx_set_root m'"
    "(of_nat (length (em_node_list m)) :: u64) = of_nat (length (em_node_list m'))"
    "concat (map entry_bytes (em_node_list m)) = concat (map entry_bytes (em_node_list m'))"
    using assms(3) len by (auto simp: manifest_preimage_def le_bytes_inject)
  have "length (em_node_list m) = length (em_node_list m')"
    using arg_cong [OF eqs(9), of unat] len
    by (simp add: unat_of_nat_small [where 'a = 64, simplified])
  then have "map entry_bytes (em_node_list m) = map entry_bytes (em_node_list m')"
    using eqs(10) len
    by (intro concat_fixed_length_inj [where n = 48]) (auto simp: entry_bytes_def list_all_iff)
  moreover have "inj_on entry_bytes (set (em_node_list m) \<union> set (em_node_list m'))"
    using len by (intro inj_onI entry_bytes_inj) (auto simp: list_all_iff)
  ultimately have "em_node_list m = em_node_list m'" by (simp add: inj_on_map_eq_map)
  with eqs show ?thesis by (cases m; cases m') simp
qed


theorem manifest_encoding_injective_witness:
  "manifest_preimage (manifest_deferred 3 0) \<noteq> manifest_preimage (manifest_deferred 4 0)"
  using manifest_encoding_injective [of "manifest_deferred 3 0" "manifest_deferred 4 0"]
  by (auto simp: manifest_shape_def manifest_deferred_def zero32_def)

text \<open>The status is not part of what is hashed: a fallback manifest, deferred by construction,
  whose status field alone is rewritten passes the checks of \<open>transition_to_finalized\<close>, which
  then reports the epoch as finalized.\<close>

theorem deferred_manifest_finalizes:
  assumes "build_dmm blake3 k prev d config = Inr m"
  shows "em_deferred m \<and> em_status m = StatusDeferred \<and>
    transition_to_finalized blake3 e (m\<lparr>em_status := StatusFinalized\<rparr>) =
      (e\<lparr>ce_state := ConsensusFinalized, ce_fallback_count := 0\<rparr>, Inr ())"
proof -
  obtain p where p: "prev = Some p" "cm_manifest_hash p \<noteq> zero32"
    using assms by (auto simp: build_dmm_def split: option.splits if_splits)
  have "em_manifest_hash m = compute_manifest_hash blake3 m \<and> em_deferred m \<and> em_status m = StatusDeferred"
    by (rule build_dmm_Inr [OF p(2), of blake3 k d config]) (use assms p(1) in auto)
  then show ?thesis
    by (simp add: transition_to_finalized_def verify_arithmetic_invariants_def verify_manifest_hash_def
        compute_manifest_hash_def manifest_preimage_def)
qed

theorem deferred_manifest_finalizes_witness:
  "\<exists>m. build_dmm (\<lambda>b. zero32) 1
      (Some \<lparr>cm_manifest_hash = replicate 32 7, cm_node_list = [], cm_epoch_id = 0\<rparr>)
      \<lparr>lh_anchors = [], lh_epoch_k = 1\<rparr> \<lparr>dc_e_active_sscl = 9, dc_fee_pool_sscl = 0, dc_txids = []\<rparr> = Inr m \<and>
    em_deferred m \<and>
    snd (transition_to_finalized (\<lambda>b. zero32) (consensus_engine_new 1) (m\<lparr>em_status := StatusFinalized\<rparr>)) = Inr ()"
proof -
  let ?p = "\<lparr>cm_manifest_hash = replicate 32 7, cm_node_list = [], cm_epoch_id = 0\<rparr>"
  have "cm_manifest_hash ?p \<noteq> zero32" by (simp add: zero32_def)
  then obtain m where m: "build_dmm (\<lambda>b. zero32) 1 (Some ?p) \<lparr>lh_anchors = [], lh_epoch_k = 1\<rparr>
      \<lparr>dc_e_active_sscl = 9, dc_fee_pool_sscl = 0, dc_txids = []\<rparr> = Inr m"
    by (rule build_dmm_Inr)
  from deferred_manifest_finalizes [OF m, of "consensus_engine_new 1"] m show ?thesis by auto
qed

section \<open>Quorum and fallback\<close>

text \<open>A quorum is seven agreeing votes for the hash: with fewer than \<open>2 ^ 32\<close> votes the engine
  reports \<open>Achieved\<close> exactly when at least seven of them agree and name the expected hash, and
  the count it reports is theirs.\<close>

theorem check_quorum_correct:
  assumes "length votes < 2 ^ 32"
  shows "(\<exists>c. process_votes e votes h = QuorumAchieved c \<and>
        unat c = length (filter (\<lambda>v. vv_agrees v \<and> vv_manifest_hash v = h) votes)) \<longleftrightarrow>
    7 \<le> length (filter (\<lambda>v. vv_agrees v \<and> vv_manifest_hash v = h) votes)"
proof -
  define k where "k = length (filter (\<lambda>v. vv_agrees v \<and> vv_manifest_hash v = h) votes)"
  have "k < 2 ^ 32" using assms length_filter_le [of _ votes] unfolding k_def by (rule le_less_trans [rotated])
  then have "unat (of_nat k :: u32) = k" by (intro unat_of_nat_small) simp
  then show ?thesis unfolding k_def [symmetric]
    by (simp add: process_votes_def check_quorum_def Let_def k_def [symmetric] AGGREGATOR_VALIDATOR_QUORUM_def
        word_le_nat_alt)
qed

theorem check_quorum_correct_witness:
  "\<not> (\<exists>c. process_votes (consensus_engine_new 0) [\<lparr>vv_validator_id = [1], vv_manifest_hash = [], vv_agrees = True\<rparr>] []
       = QuorumAchieved c \<and> unat c = 1)"
  using check_quorum_correct
    [of "[\<lparr>vv_validator_id = [1], vv_manifest_hash = [], vv_agrees = True\<rparr>]" "consensus_engine_new 0" "[]"]
  by simp

text \<open>One validator makes a quorum: votes are counted, not voters, so the same vote of a single
  validator submitted seven times is reported as a quorum of seven.\<close>

theorem quorum_of_one:
  "check_quorum (replicate 7 \<lparr>vv_validator_id = v, vv_manifest_hash = h, vv_agrees = True\<rparr>) h = QuorumAchieved 7 \<and>
   card (vv_validator_id ` set (replicate 7 \<lparr>vv_validator_id = v, vv_manifest_hash = h, vv_agrees = True\<rparr>)) = 1"
  by (simp add: check_quorum_def AGGREGATOR_VALIDATOR_QUORUM_def)

text \<open>The caller's retry loop: on \<open>Retry\<close> the next index is tried.\<close>

function fallback_run :: "aggregator_selection \<Rightarrow> u32 \<Rightarrow> nat \<Rightarrow> bytes list" where
  "fallback_run sel n idx =
     (case try_fallback n sel idx of
        EpochDeferred \<Rightarrow> []
      | Retry n' next_aggregator \<Rightarrow> next_aggregator # fallback_run sel n' (Suc idx))"
  by auto

termination fallback_run
  by (relation "measure (\<lambda>(sel, n, idx). length (as_validators sel) - idx)")
     (auto simp: try_fallback_def split: if_splits)

declare fallback_run.simps [simp del]

text \<open>The fallback protocol ends after at most three retries: starting with no fallback, the
  retry loop tries the first three validators of the selection in order and then defers the
  epoch, and the engine's own counter allows the same three.\<close>

theorem fallback_three_retries:
  "fallback_run sel 0 0 = take 3 (as_validators sel) \<and>
   map (\<lambda>n. snd (increment_fallback (((fst \<circ> increment_fallback) ^^ n) (consensus_engine_new k))))
     [0, 1, 2, 3] = [Retry 1 (replicate 4 0), Retry 2 (replicate 4 0), Retry 3 (replicate 4 0), EpochDeferred]"
proof -
  have run: "fallback_run sel c i =
      (if c < 3 \<and> i < length (as_validators sel)
       then as_validators sel ! i # fallback_run sel (c + 1) (Suc i) else [])" for c i
    by (subst fallback_run.simps) (simp add: try_fallback_def AGGREGATOR_FALLBACK_MAX_def not_less)
  have "fallback_run sel 0 0 = take 3 (as_validators sel)"
  proof -
    let ?v = "as_validators sel"
    have "fallback_run sel 3 i = []" for i by (subst run) simp
    then have "fallback_run sel 0 0 = (if 0 < length ?v then ?v ! 0 # (if Suc 0 < length ?v then ?v ! Suc 0 #
        (if Suc (Suc 0) < length ?v then [?v ! Suc (Suc 0)] else []) else []) else [])"
      by (simp add: run [of 0 0] run [of 1 "Suc 0"] run [of 2 "Suc (Suc 0)"])
    also have "\<dots> = take 3 ?v"
      by (cases ?v; cases "tl ?v"; cases "tl (tl ?v)") (simp_all add: numeral_3_eq_3)
    finally show ?thesis .
  qed
  moreover have "ce_fallback_count (((fst \<circ> increment_fallback) ^^ n) e) = ce_fallback_count e + of_nat n"
    for n e by (induction n) (simp_all add: increment_fallback_def Let_def)
  ultimately show ?thesis
    by (simp add: increment_fallback_def [of "(_ ^^ _) _"] increment_fallback_def [of "consensus_engine_new k"]
        consensus_engine_new_def AGGREGATOR_FALLBACK_MAX_def Let_def)
qed

end
