(* ===== verification/Ordering.thy ===== *)
theory Ordering
  imports Poseidon2 Emission
begin

text \<open>
  What fixes the transactions and claims of an epoch, from \<open>core/scalar-emission/src\<close>: the
  transaction id and the canonical order (\<open>ordering.rs\<close>), the set of mint nullifiers that stops a
  node from claiming twice (\<open>mint_nullifier.rs\<close>) and the connectivity and equivocation checks of
  the epoch boundary (\<open>epoch.rs\<close>).  BLAKE3 is a parameter, Poseidon2 is modelled.
\<close>

section \<open>Transaction ids and order\<close>

definition DOMAIN_TX_ORDER :: bytes where
  "DOMAIN_TX_ORDER = ascii ''scalar_tx_order''"

definition DOMAIN_TXID :: bytes where
  "DOMAIN_TXID = ascii ''scalar_txid''"

record tx_entry =
  te_tx_hash :: bytes
  te_tx_data :: bytes

definition txid_preimage :: "bytes list \<Rightarrow> bytes list \<Rightarrow> u64 \<Rightarrow> u64 \<Rightarrow> u8 \<Rightarrow> bytes" where
  "txid_preimage input_nullifiers output_commitments fee_total epoch_id crypto_version =
     DOMAIN_TXID @ concat input_nullifiers @ concat output_commitments
       @ le_bytes 8 fee_total @ le_bytes 8 epoch_id @ [crypto_version]"

definition compute_txid ::
  "(bytes \<Rightarrow> bytes) \<Rightarrow> bytes list \<Rightarrow> bytes list \<Rightarrow> u64 \<Rightarrow> u64 \<Rightarrow> u8 \<Rightarrow> bytes" where
  "compute_txid blake3 input_nullifiers output_commitments fee_total epoch_id crypto_version =
     blake3 (txid_preimage input_nullifiers output_commitments fee_total epoch_id crypto_version)"

definition compute_tx_ordering_key :: "(bytes \<Rightarrow> bytes) \<Rightarrow> bytes \<Rightarrow> u64 \<Rightarrow> bytes" where
  "compute_tx_ordering_key blake3 txid epoch_id = blake3 (DOMAIN_TX_ORDER @ txid @ le_bytes 8 epoch_id)"

definition sort_transactions_canonical ::
  "(bytes \<Rightarrow> bytes) \<Rightarrow> tx_entry list \<Rightarrow> u64 \<Rightarrow> tx_entry list" where
  "sort_transactions_canonical blake3 txs epoch_id =
     map snd (sort_key fst (map (\<lambda>tx. (compute_tx_ordering_key blake3 (te_tx_hash tx) epoch_id, tx)) txs))"

section \<open>Mint nullifiers\<close>

definition POU_MINT_DOMAIN :: u64 where
  "POU_MINT_DOMAIN = 0x706f755f6d696e74"

record mint_nullifier_set =
  mn_spent :: "u64 set"

definition mint_new :: mint_nullifier_set where
  "mint_new = \<lparr>mn_spent = {}\<rparr>"

definition compute_nullifier :: "bytes \<Rightarrow> u64 \<Rightarrow> u64" where
  "compute_nullifier node_id epoch_id =
     (let node_id_lo = from_le_bytes (take 8 node_id);
          intermediate = hash_2_to_1 node_id_lo epoch_id
      in hash_2_to_1 intermediate POU_MINT_DOMAIN)"

definition is_claimed :: "mint_nullifier_set \<Rightarrow> bytes \<Rightarrow> u64 \<Rightarrow> bool" where
  "is_claimed s node_id epoch_id \<longleftrightarrow> compute_nullifier node_id epoch_id \<in> mn_spent s"

definition record_claim ::
  "mint_nullifier_set \<Rightarrow> bytes \<Rightarrow> u64 \<Rightarrow> mint_nullifier_set \<times> (emission_error + u64)" where
  "record_claim s node_id epoch_id =
     (let nullifier = compute_nullifier node_id epoch_id
      in if nullifier \<in> mn_spent s then (s, Inl (AlreadyClaimed epoch_id))
         else (s\<lparr>mn_spent := insert nullifier (mn_spent s)\<rparr>, Inr nullifier))"

definition mint_len :: "mint_nullifier_set \<Rightarrow> nat" where
  "mint_len s = card (mn_spent s)"

section \<open>Epoch boundary checks\<close>

definition verify_step_1_5_connectivity :: "nat \<Rightarrow> nat \<Rightarrow> bool" where
  "verify_step_1_5_connectivity connected_peers total_expected_peers =
     (if total_expected_peers = 0 then False
      else (connected_peers * 100) div total_expected_peers \<ge> 67)"

record announcement =
  ac_node_id :: bytes
  ac_epoch :: u64
  ac_claim_hash :: bytes

definition slashing_step ::
  "announcement \<Rightarrow> (bytes \<times> bytes list) list \<Rightarrow> (bytes \<times> bytes list) list" where
  "slashing_step ann node_claims =
     (let claims = (case map_of node_claims (ac_node_id ann) of Some cs \<Rightarrow> cs | None \<Rightarrow> []);
          claims = (if ac_claim_hash ann \<in> set claims then claims else claims @ [ac_claim_hash ann])
      in AList.update (ac_node_id ann) claims node_claims)"

definition verify_step_3_5_slashing ::
  "((bytes \<times> bytes list) list \<Rightarrow> (bytes \<times> bytes list) list) \<Rightarrow> announcement list \<Rightarrow> bytes list" where
  "verify_step_3_5_slashing iter announcements =
     map fst (filter (\<lambda>(node_id, claims). length claims > 1) (iter (fold slashing_step announcements [])))"

section \<open>Transaction ids\<close>

text \<open>A transaction id does not fix where the nullifiers end: moving the last nullifier to the
  front of the commitments gives a different transaction with the same id, whatever the hash,
  since neither list is preceded by its length.\<close>

theorem txid_boundary_ambiguous:
  "(ns @ [x], cs) \<noteq> (ns, x # cs) \<and>
   compute_txid blake3 (ns @ [x]) cs fee epoch version = compute_txid blake3 ns (x # cs) fee epoch version"
  by (simp add: compute_txid_def txid_preimage_def)

lemma concat_32_inj:
  "\<lbrakk>concat xs @ zs = concat ys @ zs'; length xs = length ys; \<forall>x\<in>set xs. length x = 32; \<forall>y\<in>set ys. length y = 32\<rbrakk>
    \<Longrightarrow> xs = ys \<and> zs = zs'"
proof (induction xs arbitrary: ys)
  case (Cons x xs)
  then obtain y ys' where "ys = y # ys'" by (cases ys) auto
  with Cons show ?case by auto
qed simp

text \<open>For a fixed shape the id is faithful: under a hash that does not collide on the two
  encodings, transactions with the same numbers of nullifiers and commitments (32 bytes each)
  and the same id agree in every hashed field.\<close>

theorem txid_binds_shape:
  assumes "list_all (\<lambda>x. length x = 32) (ns @ ns' @ cs @ cs')"
    and "length ns = length ns'" "length cs = length cs'"
    and "inj_on blake3 {txid_preimage ns cs fee epoch version, txid_preimage ns' cs' fee' epoch' version'}"
    and "compute_txid blake3 ns cs fee epoch version = compute_txid blake3 ns' cs' fee' epoch' version'"
  shows "(ns, cs, fee, epoch, version) = (ns', cs', fee', epoch', version')"
proof -
  have eq: "concat ns @ concat cs @ le_bytes 8 fee @ le_bytes 8 epoch @ [version] =
      concat ns' @ concat cs' @ le_bytes 8 fee' @ le_bytes 8 epoch' @ [version']"
    using inj_onD [OF assms(4) assms(5) [unfolded compute_txid_def]] by (simp add: txid_preimage_def)
  from assms(1) have len: "\<forall>x\<in>set ns. length x = 32" "\<forall>x\<in>set ns'. length x = 32"
    "\<forall>x\<in>set cs. length x = 32" "\<forall>x\<in>set cs'. length x = 32" by (auto simp: list_all_iff)
  from concat_32_inj [OF eq assms(2) len(1,2)] have 1: "ns = ns'"
    "concat cs @ le_bytes 8 fee @ le_bytes 8 epoch @ [version] =
      concat cs' @ le_bytes 8 fee' @ le_bytes 8 epoch' @ [version']" by simp_all
  from concat_32_inj [OF 1(2) assms(3) len(3,4)] 1(1) show ?thesis by (simp add: le_bytes_inject)
qed

theorem txid_binds_shape_witness:
  "compute_txid id [replicate 32 1] [replicate 32 2] 50 1 1 \<noteq> compute_txid id [replicate 32 1] [replicate 32 3] 50 1 1"
  using txid_binds_shape [of "[replicate 32 1]" "[replicate 32 1]" "[replicate 32 2]" "[replicate 32 3]" id 50 1 1 50 1 1]
  by auto

text \<open>The canonical order is a function of the set of transactions: it keeps exactly the given
  transactions, and when their ordering keys are distinct, every order of arrival gives the same
  sequence, whichever permutation an unstable sort produces.\<close>

theorem canonical_order_unique:
  assumes "mset xs = mset ys"
    and "inj_on (\<lambda>tx. compute_tx_ordering_key blake3 (te_tx_hash tx) e) (set xs)"
  shows "sort_transactions_canonical blake3 xs e = sort_transactions_canonical blake3 ys e \<and>
    mset (sort_transactions_canonical blake3 xs e) = mset xs \<and>
    sorted (map (\<lambda>tx. compute_tx_ordering_key blake3 (te_tx_hash tx) e) (sort_transactions_canonical blake3 xs e))"
proof -
  define k where "k = (\<lambda>tx :: tx_entry. compute_tx_ordering_key blake3 (te_tx_hash tx) e)"
  have ins: "insort_key fst (k x, x) (map (\<lambda>tx. (k tx, tx)) zs) = map (\<lambda>tx. (k tx, tx)) (insort_key k x zs)" for x zs
    by (induction zs) simp_all
  have "sort_key fst (map (\<lambda>tx. (k tx, tx)) zs) = map (\<lambda>tx. (k tx, tx)) (sort_key k zs)" for zs
    by (induction zs) (simp_all add: ins)
  then have s: "map snd (sort_key fst (map (\<lambda>tx. (k tx, tx)) zs)) = sort_key k zs" for zs
    by (simp add: o_def)
  have "sort_key k xs = sort_key k ys"
    using assms by (intro sort_key_inj_key_eq) (simp_all add: k_def)
  moreover have "sort_transactions_canonical blake3 zs e = sort_key k zs" for zs
    unfolding sort_transactions_canonical_def s [symmetric] by (simp only: k_def)
  ultimately show ?thesis using assms(1) by (simp add: k_def [symmetric])
qed


theorem canonical_order_unique_witness:
  "sort_transactions_canonical id [\<lparr>te_tx_hash = [2], te_tx_data = []\<rparr>, \<lparr>te_tx_hash = [1], te_tx_data = []\<rparr>] 5 =
   sort_transactions_canonical id [\<lparr>te_tx_hash = [1], te_tx_data = []\<rparr>, \<lparr>te_tx_hash = [2], te_tx_data = []\<rparr>] 5"
  by (rule canonical_order_unique [THEN conjunct1])
     (auto simp: inj_on_def compute_tx_ordering_key_def)

section \<open>Claims\<close>

definition claims_run :: "(bytes \<times> u64) list \<Rightarrow> mint_nullifier_set \<Rightarrow> mint_nullifier_set" where
  "claims_run cs s = fold (\<lambda>(n, e) s. fst (record_claim s n e)) cs s"

lemma record_claim_spent:
  "mn_spent (fst (record_claim s n e)) = insert (compute_nullifier n e) (mn_spent s)"
  by (auto simp: record_claim_def Let_def)

lemma claims_run_spent:
  "mn_spent (claims_run cs s) = mn_spent s \<union> (\<lambda>(n, e). compute_nullifier n e) ` set cs"
  unfolding claims_run_def
  by (induction cs arbitrary: s) (auto simp: record_claim_spent)

text \<open>No reward is claimed twice: whatever claims were recorded in between, a second claim of a
  node for an epoch it has claimed is refused with \<open>AlreadyClaimed\<close> and leaves the set as it is;
  and the number of recorded nullifiers is the number of distinct ones among the claims made.\<close>

theorem mint_no_double_claim:
  "record_claim (claims_run later (fst (record_claim (claims_run earlier mint_new) n e))) n e =
     (claims_run later (fst (record_claim (claims_run earlier mint_new) n e)), Inl (AlreadyClaimed e)) \<and>
   mint_len (claims_run earlier mint_new) = card ((\<lambda>(n, e). compute_nullifier n e) ` set earlier)"
  by (simp add: record_claim_def Let_def claims_run_spent mint_len_def mint_new_def)

text \<open>Nodes are confused with one another: the mint nullifier reads only the first eight bytes
  of the node id, so once a node has claimed, every other node whose id agrees with it on those
  bytes is refused as having claimed already.\<close>

theorem mint_prefix_collision:
  assumes "take 8 n = take 8 n'"
  shows "snd (record_claim (fst (record_claim s n e)) n' e) = Inl (AlreadyClaimed e)"
proof -
  have "compute_nullifier n e = compute_nullifier n' e" using assms by (simp add: compute_nullifier_def)
  then show ?thesis by (simp add: record_claim_def Let_def)
qed

theorem mint_prefix_collision_witness:
  "replicate 32 1 \<noteq> replicate 8 1 @ replicate 24 (2 :: u8) \<and>
   snd (record_claim (fst (record_claim mint_new (replicate 32 1) 3)) (replicate 8 1 @ replicate 24 2) 3)
     = Inl (AlreadyClaimed 3)"
proof -
  have "replicate 32 1 = replicate 8 1 @ replicate 24 (1 :: u8)" by (simp flip: replicate_add)
  then have "replicate 32 1 \<noteq> replicate 8 1 @ replicate 24 (2 :: u8)" by simp
  then show ?thesis using mint_prefix_collision [of "replicate 32 1" "replicate 8 1 @ replicate 24 2" mint_new 3] by simp
qed

section \<open>Equivocation\<close>

definition claims_of :: "(bytes \<times> bytes list) list \<Rightarrow> bytes \<Rightarrow> bytes list" where
  "claims_of m n = (case map_of m n of Some cs \<Rightarrow> cs | None \<Rightarrow> [])"

definition claims_ok :: "(bytes \<times> bytes list) list \<Rightarrow> bool" where
  "claims_ok m \<longleftrightarrow> unique_keys m \<and> (\<forall>n. distinct (claims_of m n))"

lemma claims_of_step:
  "claims_of (slashing_step a m) n =
     (if n = ac_node_id a then if ac_claim_hash a \<in> set (claims_of m n) then claims_of m n
        else claims_of m n @ [ac_claim_hash a]
      else claims_of m n)"
  by (cases "map_of m (ac_node_id a)")
     (simp_all add: claims_of_def slashing_step_def Let_def map_of_update_neq)

lemma claims_ok_step: "claims_ok m \<Longrightarrow> claims_ok (slashing_step a m)"
  by (simp add: claims_ok_def claims_of_step) (simp add: slashing_step_def Let_def)

lemma slashing_fold:
  "claims_ok m \<Longrightarrow> claims_ok (fold slashing_step as m) \<and>
    set (claims_of (fold slashing_step as m) n) =
      set (claims_of m n) \<union> ac_claim_hash ` {a \<in> set as. ac_node_id a = n}"
proof (induction as arbitrary: m)
  case (Cons a as)
  then show ?case using Cons.IH [OF claims_ok_step [OF Cons.prems, of a]]
    by (auto simp: claims_of_step)
qed simp

lemma two_distinct_elements:
  "distinct xs \<Longrightarrow> 1 < length xs \<longleftrightarrow> (\<exists>h\<in>set xs. \<exists>h'\<in>set xs. h \<noteq> h')"
proof (cases xs)
  case (Cons y ys)
  then show "distinct xs \<Longrightarrow> ?thesis" by (cases ys) auto
qed simp

text \<open>The equivocation check slashes by node alone: a node is slashed exactly when two of the
  announcements carry its id and different claims, no matter whether they are for the same
  epoch; the order in which the table is iterated does not matter.\<close>

theorem slashing_ignores_epoch:
  assumes "iteration_order iter"
  shows "n \<in> set (verify_step_3_5_slashing iter as) \<longleftrightarrow>
    (\<exists>a\<in>set as. \<exists>b\<in>set as. ac_node_id a = n \<and> ac_node_id b = n \<and> ac_claim_hash a \<noteq> ac_claim_hash b)"
proof -
  define m where "m = fold slashing_step as []"
  have "claims_ok []" by (simp add: claims_ok_def claims_of_def)
  from slashing_fold [OF this, of as n]
  have ok: "claims_ok m" and cl: "set (claims_of m n) = ac_claim_hash ` {a \<in> set as. ac_node_id a = n}"
    by (simp_all add: m_def claims_of_def)
  have "n \<in> set (verify_step_3_5_slashing iter as) \<longleftrightarrow> (\<exists>cs. (n, cs) \<in> set m \<and> 1 < length cs)"
    by (force simp: verify_step_3_5_slashing_def m_def [symmetric] iteration_order_set [OF assms])
  also have "\<dots> \<longleftrightarrow> (\<exists>cs. map_of m n = Some cs \<and> 1 < length cs)"
    using ok by (simp add: claims_ok_def unique_keys_def)
  also have "\<dots> \<longleftrightarrow> 1 < length (claims_of m n)" by (auto simp: claims_of_def split: option.splits)
  also have "\<dots> \<longleftrightarrow> (\<exists>h\<in>set (claims_of m n). \<exists>h'\<in>set (claims_of m n). h \<noteq> h')"
    using ok by (intro two_distinct_elements) (simp add: claims_ok_def)
  finally show ?thesis unfolding cl by auto
qed

theorem slashing_ignores_epoch_witness:
  "[1] \<in> set (verify_step_3_5_slashing rev
     [\<lparr>ac_node_id = [1], ac_epoch = 7, ac_claim_hash = [10]\<rparr>, \<lparr>ac_node_id = [1], ac_epoch = 8, ac_claim_hash = [11]\<rparr>])"
  by (subst slashing_ignores_epoch) auto

end
