(* ===== verification/Heartbeat.thy ===== *)
theory Heartbeat
  imports Prelude
begin

text \<open>
  Liveness: the heartbeat with its wire format, message authentication and hash chain and the
  maturity store (\<open>core/scalar-emission/src/liveness.rs\<close>, \<open>protocol_params.rs\<close>), the five-step
  verifier (\<open>core/scalar-network/src/heartbeat_verifier.rs\<close>) and the time rules
  (\<open>time_security.rs\<close>).  BLAKE3 is the parameter \<open>blake3\<close>.
\<close>

section \<open>Heartbeats\<close>

definition DOMAIN_BEACON :: bytes where
  "DOMAIN_BEACON = ascii ''scalar_beacon''"

record heartbeat_unit =
  hb_node_id :: bytes
  hb_seq_num :: u32
  hb_timestamp :: u32
  hb_smt_root :: bytes
  hb_imt_frontier :: bytes
  hb_imt_count :: u64
  hb_prev_hash :: bytes
  hb_mac :: bytes

definition hb_to_bytes :: "heartbeat_unit \<Rightarrow> bytes" where
  "hb_to_bytes hb =
     hb_node_id hb @ le_bytes 4 (hb_seq_num hb) @ le_bytes 4 (hb_timestamp hb) @ hb_smt_root hb
     @ hb_imt_frontier hb @ le_bytes 8 (hb_imt_count hb) @ hb_prev_hash hb @ hb_mac hb"

definition byte_range :: "nat \<Rightarrow> nat \<Rightarrow> bytes \<Rightarrow> bytes" where
  "byte_range i j b = take (j - i) (drop i b)"

definition hb_from_bytes :: "bytes \<Rightarrow> heartbeat_unit" where
  "hb_from_bytes b =
     \<lparr>hb_node_id = byte_range 0 4 b, hb_seq_num = from_le_bytes (byte_range 4 8 b),
      hb_timestamp = from_le_bytes (byte_range 8 12 b), hb_smt_root = byte_range 12 44 b,
      hb_imt_frontier = byte_range 44 76 b, hb_imt_count = from_le_bytes (byte_range 76 84 b),
      hb_prev_hash = byte_range 84 116 b, hb_mac = byte_range 116 148 b\<rparr>"

definition derive_node_key_epoch :: "(bytes \<Rightarrow> bytes) \<Rightarrow> bytes \<Rightarrow> u64 \<Rightarrow> bytes" where
  "derive_node_key_epoch blake3 node_key epoch_id = blake3 (node_key @ le_bytes 8 epoch_id)"

definition compute_heartbeat_mac ::
  "(bytes \<Rightarrow> bytes) \<Rightarrow> bytes \<Rightarrow> bytes \<Rightarrow> u32 \<Rightarrow> u32 \<Rightarrow> bytes \<Rightarrow> bytes \<Rightarrow> u64 \<Rightarrow> bytes \<Rightarrow> bytes" where
  "compute_heartbeat_mac blake3 node_key_epoch node_id seq_num timestamp smt_root imt_frontier
     imt_count prev_hash =
     blake3 (DOMAIN_BEACON @ node_key_epoch @ node_id @ le_bytes 4 seq_num @ le_bytes 4 timestamp
       @ smt_root @ imt_frontier @ le_bytes 8 imt_count @ prev_hash)"

definition compute_prev_hash :: "(bytes \<Rightarrow> bytes) \<Rightarrow> heartbeat_unit \<Rightarrow> bytes" where
  "compute_prev_hash blake3 hb =
     blake3 (DOMAIN_BEACON @ hb_node_id hb @ le_bytes 4 (hb_seq_num hb) @ le_bytes 4 (hb_timestamp hb)
       @ hb_smt_root hb @ hb_imt_frontier hb @ le_bytes 8 (hb_imt_count hb) @ hb_mac hb)"

definition compress_node_id :: "(bytes \<Rightarrow> bytes) \<Rightarrow> bytes \<Rightarrow> bytes" where
  "compress_node_id blake3 full_node_id = take 4 (blake3 full_node_id)"

section \<open>Maturity\<close>

definition EXPECTED_HEARTBEATS_PER_EPOCH :: u32 where
  "EXPECTED_HEARTBEATS_PER_EPOCH = 4320"

definition EPOCH_HB_COUNT :: u32 where
  "EPOCH_HB_COUNT = 4320"

definition HB_FIXED_POINT_BASIS :: u64 where
  "HB_FIXED_POINT_BASIS = 1000000"

definition W_MATURE_DAYS :: u64 where
  "W_MATURE_DAYS = 180"

definition SUBEPOCH_PROVING_DURATION_S :: u64 where
  "SUBEPOCH_PROVING_DURATION_S = 1900"

definition SUBEPOCH_COUNT :: u64 where
  "SUBEPOCH_COUNT = 24"

definition div_ceil :: "'a::len word \<Rightarrow> 'a word \<Rightarrow> 'a word" where
  "div_ceil a b = (if a mod b > 0 then a div b + 1 else a div b)"

definition epoch_duration_s :: u64 where
  "epoch_duration_s = SUBEPOCH_PROVING_DURATION_S * SUBEPOCH_COUNT"

definition w_mature_epochs :: u64 where
  "w_mature_epochs = div_ceil (W_MATURE_DAYS * 86400) epoch_duration_s"

definition w_mature :: u64 where
  "w_mature = w_mature_epochs * ucast EXPECTED_HEARTBEATS_PER_EPOCH * HB_FIXED_POINT_BASIS"

record epoch_weight_summary =
  ew_node_id :: bytes
  ew_epoch_id :: u64
  ew_uptime_weight :: u64

record maturity_store =
  ms_summaries :: "((bytes \<times> u64) \<times> u64) list"

definition maturity_store_new :: maturity_store where
  "maturity_store_new = \<lparr>ms_summaries = []\<rparr>"

definition ms_record :: "maturity_store \<Rightarrow> epoch_weight_summary \<Rightarrow> maturity_store" where
  "ms_record s summary =
     s\<lparr>ms_summaries := AList.update (ew_node_id summary, ew_epoch_id summary) (ew_uptime_weight summary)
         (ms_summaries s)\<rparr>"

definition ms_maturity :: "maturity_store \<Rightarrow> bytes \<Rightarrow> u64 \<Rightarrow> u64" where
  "ms_maturity s node_id current_epoch =
     (let start = saturating_sub current_epoch w_mature_epochs
      in fold (\<lambda>w acc. saturating_add acc w)
           (map (\<lambda>epoch. unwrap_or (map_of (ms_summaries s) (node_id, of_nat epoch)) 0)
             [unat start..<Suc (unat current_epoch)]) 0)"

definition ms_gov_weight :: "maturity_store \<Rightarrow> bytes \<Rightarrow> u64 \<Rightarrow> u64" where
  "ms_gov_weight s node_id current_epoch =
     (let m = ms_maturity s node_id current_epoch;
          scaled = saturating_mul (ucast m) (ucast HB_FIXED_POINT_BASIS) div (ucast w_mature :: u128)
      in min (ucast scaled) HB_FIXED_POINT_BASIS)"

definition ms_prune :: "maturity_store \<Rightarrow> u64 \<Rightarrow> maturity_store" where
  "ms_prune s current_epoch =
     (let cutoff = saturating_sub current_epoch (w_mature_epochs + 2)
      in s\<lparr>ms_summaries := filter (\<lambda>((_, epoch_id), _). epoch_id \<ge> cutoff) (ms_summaries s)\<rparr>)"

section \<open>Verification\<close>

definition T_FUTURE_TOLERANCE_S :: u32 where
  "T_FUTURE_TOLERANCE_S = 60"

definition T_PAST_S :: u32 where
  "T_PAST_S = 3600"

datatype verification_error =
    TimestampTooFuture u32 u32 u32
  | TimestampTooOld u32 u32 u32
  | SeqNumNotMonotonic u32 u32
  | PrevHashMismatch bytes bytes
  | MacInvalid

record hb_unit_state =
  hs_last_seq_num :: u32
  hs_last_hb_bytes :: bytes

record hb_verifier =
  hv_node_states :: "(bytes \<times> hb_unit_state) list"

definition hb_verifier_new :: hb_verifier where
  "hb_verifier_new = \<lparr>hv_node_states = []\<rparr>"

definition hv_last_seq_num :: "hb_verifier \<Rightarrow> bytes \<Rightarrow> u32" where
  "hv_last_seq_num v node_id = unwrap_or (map_option hs_last_seq_num (map_of (hv_node_states v) node_id)) 0"

definition hv_reset_peer :: "hb_verifier \<Rightarrow> bytes \<Rightarrow> hb_verifier" where
  "hv_reset_peer v node_id = v\<lparr>hv_node_states := AList.delete node_id (hv_node_states v)\<rparr>"

definition hv_seed_node_state :: "hb_verifier \<Rightarrow> bytes \<Rightarrow> bytes \<Rightarrow> u32 \<Rightarrow> hb_verifier" where
  "hv_seed_node_state v node_id chain_head_bytes last_seq_num =
     v\<lparr>hv_node_states := AList.update node_id
         \<lparr>hs_last_seq_num = last_seq_num, hs_last_hb_bytes = chain_head_bytes\<rparr> (hv_node_states v)\<rparr>"

definition hv_verify ::
  "(bytes \<Rightarrow> bytes) \<Rightarrow> hb_verifier \<Rightarrow> heartbeat_unit \<Rightarrow> u32 \<Rightarrow> bytes \<Rightarrow> u64
    \<Rightarrow> hb_verifier \<times> (verification_error + unit)" where
  "hv_verify blake3 v hb nmt node_key_epoch epoch_id =
     (if hb_timestamp hb > saturating_add nmt T_FUTURE_TOLERANCE_S
      then (v, Inl (TimestampTooFuture nmt (hb_timestamp hb) T_FUTURE_TOLERANCE_S))
      else if hb_timestamp hb < saturating_sub nmt T_PAST_S
      then (v, Inl (TimestampTooOld nmt (hb_timestamp hb) T_PAST_S))
      else
        let last_seq = hv_last_seq_num v (hb_node_id hb);
            is_restart = (hb_seq_num hb = 1 \<and> last_seq > 1)
        in if hb_seq_num hb \<le> last_seq \<and> \<not> is_restart
           then (v, Inl (SeqNumNotMonotonic (hb_seq_num hb) last_seq))
           else
             let v = (if is_restart then hv_reset_peer v (hb_node_id hb) else v);
                 chain_error = (case map_of (hv_node_states v) (hb_node_id hb) of
                     None \<Rightarrow> None
                   | Some state \<Rightarrow>
                       (let expected_prev = compute_prev_hash blake3 (hb_from_bytes (hs_last_hb_bytes state))
                        in if hb_prev_hash hb \<noteq> expected_prev
                           then Some (PrevHashMismatch expected_prev (hb_prev_hash hb)) else None))
             in case chain_error of
                  Some e \<Rightarrow> (v, Inl e)
                | None \<Rightarrow>
                    let expected_mac = compute_heartbeat_mac blake3 node_key_epoch (hb_node_id hb)
                          (hb_seq_num hb) (hb_timestamp hb) (hb_smt_root hb) (hb_imt_frontier hb)
                          (hb_imt_count hb) (hb_prev_hash hb)
                    in if hb_mac hb \<noteq> expected_mac then (v, Inl MacInvalid)
                       else (v\<lparr>hv_node_states := AList.update (hb_node_id hb)
                               \<lparr>hs_last_seq_num = hb_seq_num hb, hs_last_hb_bytes = hb_to_bytes hb\<rparr>
                               (hv_node_states v)\<rparr>, Inr ()))"

section \<open>Time rules\<close>

definition T_HB_MIN_INTERVAL_S :: u32 where
  "T_HB_MIN_INTERVAL_S = 300"

definition T_NMT_STALE_S :: u32 where
  "T_NMT_STALE_S = 120"

definition epoch_from_seq_num :: "u32 \<Rightarrow> u64" where
  "epoch_from_seq_num seq_num = (if seq_num = 0 then 0 else ucast ((seq_num - 1) div EPOCH_HB_COUNT))"

definition verify_seq_num_in_epoch :: "u32 \<Rightarrow> u64 \<Rightarrow> bool" where
  "verify_seq_num_in_epoch seq_num epoch_id \<longleftrightarrow> epoch_from_seq_num seq_num = epoch_id"

definition is_nmt_fresh :: "u64 \<Rightarrow> u64 \<Rightarrow> bool" where
  "is_nmt_fresh nmt_last_update_s current_wall_clock_s \<longleftrightarrow>
     saturating_sub current_wall_clock_s nmt_last_update_s \<le> ucast T_NMT_STALE_S"

record hb_rate_limiter =
  rl_last_hb_timestamp :: "(bytes \<times> u32) list"

definition rl_new :: hb_rate_limiter where
  "rl_new = \<lparr>rl_last_hb_timestamp = []\<rparr>"

definition rl_check_and_update :: "hb_rate_limiter \<Rightarrow> bytes \<Rightarrow> u32 \<Rightarrow> hb_rate_limiter \<times> bool" where
  "rl_check_and_update r node_id timestamp =
     (let refused = (case map_of (rl_last_hb_timestamp r) node_id of
            None \<Rightarrow> False
          | Some last_ts \<Rightarrow> timestamp < last_ts \<or> timestamp - last_ts < T_HB_MIN_INTERVAL_S)
      in if refused then (r, False)
         else (r\<lparr>rl_last_hb_timestamp := AList.update node_id timestamp (rl_last_hb_timestamp r)\<rparr>, True))"

definition rl_reset_node :: "hb_rate_limiter \<Rightarrow> bytes \<Rightarrow> hb_rate_limiter" where
  "rl_reset_node r node_id = r\<lparr>rl_last_hb_timestamp := AList.delete node_id (rl_last_hb_timestamp r)\<rparr>"

definition check_past_timestamp :: "u32 \<Rightarrow> u32 \<Rightarrow> bool" where
  "check_past_timestamp timestamp nmt \<longleftrightarrow> timestamp \<ge> saturating_sub nmt T_PAST_S"

definition check_future_timestamp :: "u32 \<Rightarrow> u32 \<Rightarrow> bool" where
  "check_future_timestamp timestamp nmt \<longleftrightarrow> timestamp \<le> saturating_add nmt T_FUTURE_TOLERANCE_S"

datatype time_security_violation =
    T1EpochBoundaryViolation u32 u64 u64
  | T2PastTimestamp u32 u32
  | T3NmtStale u64 u64
  | T4RateLimitExceeded bytes
  | T5FutureTimestamp u32 u32 u32

record time_security_checker =
  tc_rate_limiter :: hb_rate_limiter
  tc_nmt_last_update_wall_s :: u64

definition tc_new :: time_security_checker where
  "tc_new = \<lparr>tc_rate_limiter = rl_new, tc_nmt_last_update_wall_s = 0\<rparr>"

definition update_nmt_timestamp :: "time_security_checker \<Rightarrow> u64 \<Rightarrow> time_security_checker" where
  "update_nmt_timestamp c wall_clock_s = c\<lparr>tc_nmt_last_update_wall_s := wall_clock_s\<rparr>"

definition tc_check_all ::
  "time_security_checker \<Rightarrow> bytes \<Rightarrow> u32 \<Rightarrow> u32 \<Rightarrow> u64 \<Rightarrow> u32 \<Rightarrow> u64
    \<Rightarrow> time_security_checker \<times> (time_security_violation + unit)" where
  "tc_check_all c node_id timestamp seq_num epoch_id nmt current_wall_clock_s =
     (if \<not> verify_seq_num_in_epoch seq_num epoch_id
      then (c, Inl (T1EpochBoundaryViolation seq_num epoch_id (epoch_from_seq_num seq_num)))
      else if \<not> check_past_timestamp timestamp nmt then (c, Inl (T2PastTimestamp timestamp nmt))
      else if \<not> is_nmt_fresh (tc_nmt_last_update_wall_s c) current_wall_clock_s
      then (c, Inl (T3NmtStale (tc_nmt_last_update_wall_s c) current_wall_clock_s))
      else
        let (r, ok) = rl_check_and_update (tc_rate_limiter c) node_id timestamp;
            c = c\<lparr>tc_rate_limiter := r\<rparr>
        in if \<not> ok then (c, Inl (T4RateLimitExceeded node_id))
           else if \<not> check_future_timestamp timestamp nmt
           then (c, Inl (T5FutureTimestamp timestamp nmt T_FUTURE_TOLERANCE_S))
           else (c, Inr ()))"

section \<open>The wire format\<close>

text \<open>The lengths the array types of \<open>HeartbeatUnit\<close> fix.\<close>

definition hb_shaped :: "heartbeat_unit \<Rightarrow> bool" where
  "hb_shaped hb \<longleftrightarrow> length (hb_node_id hb) = 4 \<and> length (hb_smt_root hb) = 32
     \<and> length (hb_imt_frontier hb) = 32 \<and> length (hb_prev_hash hb) = 32 \<and> length (hb_mac hb) = 32"

lemma length_hb_to_bytes: "hb_shaped hb \<Longrightarrow> length (hb_to_bytes hb) = 148"
  by (simp add: hb_shaped_def hb_to_bytes_def)

lemma hb_from_to_bytes [simp]: "hb_shaped hb \<Longrightarrow> hb_from_bytes (hb_to_bytes hb) = hb"
  by (cases hb)
    (simp add: hb_shaped_def hb_to_bytes_def hb_from_bytes_def byte_range_def from_le_bytes_le_bytes)

lemma hb_shaped_from_bytes: "length b = 148 \<Longrightarrow> hb_shaped (hb_from_bytes b)"
  by (simp add: hb_shaped_def hb_from_bytes_def byte_range_def)

lemma byte_range_append: "i \<le> j \<Longrightarrow> byte_range i j b @ drop j b = drop i b"
  using append_take_drop_id [of "j - i" "drop i b"] by (simp add: byte_range_def)

lemma hb_to_from_bytes:
  assumes "length b = 148"
  shows "hb_to_bytes (hb_from_bytes b) = b"
proof -
  have le: "le_bytes 4 (from_le_bytes (byte_range 4 8 b) :: u32) = byte_range 4 8 b"
    "le_bytes 4 (from_le_bytes (byte_range 8 12 b) :: u32) = byte_range 8 12 b"
    "le_bytes 8 (from_le_bytes (byte_range 76 84 b) :: u64) = byte_range 76 84 b"
    using assms by (auto intro!: le_bytes_from_le_bytes simp: byte_range_def)
  have last: "byte_range 116 148 b = drop 116 b" using assms by (simp add: byte_range_def)
  have "drop 0 b = b" by simp
  then show ?thesis
    by (simp add: hb_to_bytes_def hb_from_bytes_def le last byte_range_append)
qed

text \<open>C36. The 148-byte wire format of a heartbeat is lossless in both directions: every heartbeat
  whose arrays have their declared lengths is encoded in 148 bytes and decoded to itself, and every
  148-byte message decodes to such a heartbeat and re-encodes to the same bytes, so no two messages
  carry the same heartbeat.\<close>

theorem heartbeat_wire_roundtrip:
  assumes "hb_shaped hb" and "length b = 148"
  shows "length (hb_to_bytes hb) = 148 \<and> hb_from_bytes (hb_to_bytes hb) = hb
    \<and> hb_shaped (hb_from_bytes b) \<and> hb_to_bytes (hb_from_bytes b) = b"
  using assms by (simp add: length_hb_to_bytes hb_to_from_bytes hb_shaped_from_bytes)

definition sample_hb :: heartbeat_unit where
  "sample_hb = \<lparr>hb_node_id = replicate 4 7, hb_seq_num = 258, hb_timestamp = 66051,
     hb_smt_root = replicate 32 1, hb_imt_frontier = replicate 32 2, hb_imt_count = 72623859790382856,
     hb_prev_hash = replicate 32 3, hb_mac = replicate 32 4\<rparr>"

theorem heartbeat_wire_roundtrip_witness:
  "length (hb_to_bytes sample_hb) = 148 \<and> hb_from_bytes (hb_to_bytes sample_hb) = sample_hb
    \<and> hb_shaped (hb_from_bytes (replicate 148 9))
    \<and> hb_to_bytes (hb_from_bytes (replicate 148 9)) = replicate 148 9"
  by (rule heartbeat_wire_roundtrip) (simp_all add: sample_hb_def hb_shaped_def)

section \<open>Per-node gates\<close>

text \<open>
  The verifier and the rate limiter share a contract: they remember, per node, the last value they
  accepted, an accepted value stands in a relation \<open>R\<close> to the remembered one and replaces it, and a
  refused one changes nothing.  Under it the values accepted from one node form an \<open>R\<close>-chain.
  \<open>ok\<close> delimits the inputs for which an instance keeps the contract.
\<close>

fun run_gate :: "('s \<Rightarrow> 'i \<Rightarrow> 's \<times> bool) \<Rightarrow> 's \<Rightarrow> 'i list \<Rightarrow> 's \<times> 'i list" where
  "run_gate step s [] = (s, [])"
| "run_gate step s (i # is) =
     (let (s', b) = step s i; (s'', acc) = run_gate step s' is in (s'', if b then i # acc else acc))"

definition accepted_vals ::
  "('s \<Rightarrow> 'i \<Rightarrow> 's \<times> bool) \<Rightarrow> ('i \<Rightarrow> 'k) \<Rightarrow> ('i \<Rightarrow> 'v) \<Rightarrow> 'k \<Rightarrow> 's \<Rightarrow> 'i list \<Rightarrow> 'v list" where
  "accepted_vals step key val k s is = map val (filter (\<lambda>i. key i = k) (snd (run_gate step s is)))"

locale node_gate =
  fixes last_of :: "'s \<Rightarrow> 'k \<Rightarrow> 'v option"
    and step :: "'s \<Rightarrow> 'i \<Rightarrow> 's \<times> bool"
    and key :: "'i \<Rightarrow> 'k"
    and val :: "'i \<Rightarrow> 'v"
    and R :: "'v \<Rightarrow> 'v \<Rightarrow> bool"
    and ok :: "'k \<Rightarrow> 'i \<Rightarrow> bool"
  assumes accepted_last: "ok (key i) i \<Longrightarrow> step s i = (s', True) \<Longrightarrow> last_of s' (key i) = Some (val i)"
    and accepted_rel: "ok (key i) i \<Longrightarrow> step s i = (s', True) \<Longrightarrow> last_of s (key i) = Some v \<Longrightarrow> R v (val i)"
    and refused_last: "ok (key i) i \<Longrightarrow> step s i = (s', False) \<Longrightarrow> last_of s' (key i) = last_of s (key i)"
    and other_key: "ok k i \<Longrightarrow> step s i = (s', b) \<Longrightarrow> k \<noteq> key i \<Longrightarrow> last_of s' k = last_of s k"
begin

definition remembered :: "'k \<Rightarrow> 's \<Rightarrow> 'v list" where
  "remembered k s = (case last_of s k of None \<Rightarrow> [] | Some v \<Rightarrow> [v])"

lemma accepted_chain_from:
  "\<forall>i\<in>set is. ok k i \<Longrightarrow> successively R (remembered k s @ accepted_vals step key val k s is)"
proof (induction "is" arbitrary: s)
  case Nil
  then show ?case by (simp add: remembered_def accepted_vals_def split: option.split)
next
  case (Cons i "is")
  obtain s' b where st: "step s i = (s', b)" by fastforce
  have IH: "successively R (remembered k s' @ accepted_vals step key val k s' is)" and ok: "ok k i"
    using Cons by simp_all
  show ?case
  proof (cases "key i = k \<and> b")
    case True
    then have "remembered k s' = [val i]"
      using st ok accepted_last [of i s s'] by (auto simp: remembered_def)
    moreover have "accepted_vals step key val k s (i # is) = val i # accepted_vals step key val k s' is"
      using True st by (simp add: accepted_vals_def split_beta)
    moreover have "last_of s k = Some v \<Longrightarrow> R v (val i)" for v
      using True st ok accepted_rel [of i s s' v] by simp
    ultimately show ?thesis
      using IH by (auto simp: remembered_def split: option.split)
  next
    case False
    then have "last_of s' k = last_of s k"
      using st ok refused_last [of i s s'] other_key [of k i s s' b] by auto
    moreover have "accepted_vals step key val k s (i # is) = accepted_vals step key val k s' is"
      using False st by (auto simp: accepted_vals_def split_beta)
    ultimately show ?thesis using IH by (simp add: remembered_def)
  qed
qed

lemma accepted_chain:
  assumes "\<forall>i\<in>set is. ok k i"
  shows "successively R (accepted_vals step key val k s is)"
  using accepted_chain_from [OF assms, of s]
  by (auto simp: remembered_def successively_append_iff split: option.splits)

end

definition hv_last :: "hb_verifier \<Rightarrow> bytes \<Rightarrow> (u32 \<times> heartbeat_unit) option" where
  "hv_last v n = map_option (\<lambda>st. (hs_last_seq_num st, hb_from_bytes (hs_last_hb_bytes st)))
     (map_of (hv_node_states v) n)"

type_synonym hb_input = "heartbeat_unit \<times> u32 \<times> bytes \<times> u64"

definition hv_step :: "(bytes \<Rightarrow> bytes) \<Rightarrow> hb_verifier \<Rightarrow> hb_input \<Rightarrow> hb_verifier \<times> bool" where
  "hv_step blake3 v = (\<lambda>(hb, nmt, node_key_epoch, epoch_id).
     let (v', r) = hv_verify blake3 v hb nmt node_key_epoch epoch_id in (v', r = Inr ()))"

definition hb_extends :: "(bytes \<Rightarrow> bytes) \<Rightarrow> u32 \<times> heartbeat_unit \<Rightarrow> u32 \<times> heartbeat_unit \<Rightarrow> bool" where
  "hb_extends blake3 = (\<lambda>(m, a) (n, b). m < n \<and> hb_prev_hash b = compute_prev_hash blake3 a)"

lemma hv_reset_other [simp]:
  "map_of (hv_node_states (hv_reset_peer v n)) k = (if k = n then None else map_of (hv_node_states v) k)"
  by (simp add: hv_reset_peer_def delete_conv')

lemma hv_verify_accepted:
  assumes "hv_verify blake3 v hb nmt nke e = (v', Inr ())"
    and "hb_seq_num hb \<noteq> 1"
  shows "hv_node_states v' = AList.update (hb_node_id hb)
      \<lparr>hs_last_seq_num = hb_seq_num hb, hs_last_hb_bytes = hb_to_bytes hb\<rparr> (hv_node_states v)
    \<and> (\<forall>x. hv_last v (hb_node_id hb) = Some x \<longrightarrow> hb_extends blake3 x (hb_seq_num hb, hb))"
  using assms
  by (auto simp: hv_verify_def hv_last_def hv_last_seq_num_def hb_extends_def Let_def
      split: if_splits option.splits)

lemma hv_verify_refused:
  assumes "hv_verify blake3 v hb nmt nke e = (v', Inl x)"
  shows "v' = v \<or> (hb_seq_num hb = 1 \<and> v' = hv_reset_peer v (hb_node_id hb))"
  using assms by (auto simp: hv_verify_def Let_def split: if_splits option.splits)

lemma hv_verify_other:
  assumes "hv_verify blake3 v hb nmt nke e = (v', r)" and "k \<noteq> hb_node_id hb"
  shows "map_of (hv_node_states v') k = map_of (hv_node_states v) k"
  using assms
  by (auto simp: hv_verify_def Let_def map_of_update_neq split: if_splits option.splits)

definition hv_input_ok :: "bytes \<Rightarrow> hb_input \<Rightarrow> bool" where
  "hv_input_ok n i \<longleftrightarrow> hb_shaped (fst i) \<and> (hb_node_id (fst i) = n \<longrightarrow> hb_seq_num (fst i) \<noteq> 1)"

interpretation hv: node_gate hv_last "hv_step blake3" "\<lambda>i. hb_node_id (fst i)"
    "\<lambda>i. (hb_seq_num (fst i), fst i)" "hb_extends blake3" hv_input_ok for blake3
proof (unfold_locales, goal_cases)
  case (1 i s s')
  then show ?case
    using hv_verify_accepted [of blake3 s "fst i" "fst (snd i)" "fst (snd (snd i))" "snd (snd (snd i))" s']
    by (auto simp: hv_step_def hv_input_ok_def hv_last_def split_beta Let_def prod_eq_iff)
next
  case (2 i s s' v)
  then show ?case
    using hv_verify_accepted [of blake3 s "fst i" "fst (snd i)" "fst (snd (snd i))" "snd (snd (snd i))" s']
    by (auto simp: hv_step_def hv_input_ok_def split_beta Let_def prod_eq_iff)
next
  case (3 i s s')
  then show ?case
    using hv_verify_refused [of blake3 s "fst i" "fst (snd i)" "fst (snd (snd i))" "snd (snd (snd i))" s']
    by (cases "snd (hv_verify blake3 s (fst i) (fst (snd i)) (fst (snd (snd i))) (snd (snd (snd i))))")
      (auto simp: hv_step_def hv_input_ok_def hv_last_def split_beta Let_def prod_eq_iff)
next
  case (4 k i s s' b)
  then show ?case
    using hv_verify_other [of blake3 s "fst i" "fst (snd i)" "fst (snd (snd i))" "snd (snd (snd i))" s']
    by (auto simp: hv_step_def hv_last_def split_beta Let_def prod_eq_iff)
qed

definition rl_last :: "hb_rate_limiter \<Rightarrow> bytes \<Rightarrow> u32 option" where
  "rl_last r = map_of (rl_last_hb_timestamp r)"

definition rl_step :: "hb_rate_limiter \<Rightarrow> bytes \<times> u32 \<Rightarrow> hb_rate_limiter \<times> bool" where
  "rl_step r = (\<lambda>(node_id, timestamp). rl_check_and_update r node_id timestamp)"

definition hb_spaced :: "u32 \<Rightarrow> u32 \<Rightarrow> bool" where
  "hb_spaced a b \<longleftrightarrow> unat a + 300 \<le> unat b"

lemma hb_spaced_iff: "hb_spaced a b \<longleftrightarrow> \<not> (b < a \<or> b - a < T_HB_MIN_INTERVAL_S)"
  by (auto simp: hb_spaced_def T_HB_MIN_INTERVAL_S_def word_less_nat_alt unat_sub_if' not_less)

lemma rl_check_and_update_eq:
  "rl_check_and_update r n t =
    (if \<exists>a. rl_last r n = Some a \<and> \<not> hb_spaced a t then (r, False)
     else (r\<lparr>rl_last_hb_timestamp := AList.update n t (rl_last_hb_timestamp r)\<rparr>, True))"
  by (auto simp: rl_check_and_update_def rl_last_def hb_spaced_iff Let_def split: option.splits)

interpretation rl: node_gate rl_last rl_step fst snd hb_spaced "\<lambda>_ _. True"
  by unfold_locales
    (auto simp: rl_step_def rl_check_and_update_eq rl_last_def map_of_update_neq split: if_splits prod.splits)

section \<open>What the verifier guarantees\<close>

text \<open>C16. In any run of the verifier, whatever the other nodes send and whatever is refused in
  between, the heartbeats accepted from a node that sends no \<open>seq_num = 1\<close> have strictly increasing
  sequence numbers, and each one's \<open>prev_hash\<close> is the hash of the one accepted before it: no
  heartbeat is accepted twice and none is skipped or reordered.\<close>

theorem heartbeat_chain_integrity:
  assumes "\<forall>i\<in>set is. hb_shaped (fst i) \<and> (hb_node_id (fst i) = n \<longrightarrow> hb_seq_num (fst i) \<noteq> 1)"
  shows "successively (\<lambda>a b. hb_seq_num a < hb_seq_num b \<and> hb_prev_hash b = compute_prev_hash blake3 a)
    (accepted_vals (hv_step blake3) (\<lambda>i. hb_node_id (fst i)) fst n v is)"
proof -
  have "successively (hb_extends blake3)
      (accepted_vals (hv_step blake3) (\<lambda>i. hb_node_id (fst i)) (\<lambda>i. (hb_seq_num (fst i), fst i)) n v is)"
    using assms by (intro hv.accepted_chain) (simp add: hv_input_ok_def)
  then show ?thesis
    unfolding accepted_vals_def by (rule successively_map_cong) (simp add: hb_extends_def)
qed

definition hb_sample_chain :: "hb_input list" where
  "hb_sample_chain = [(sample_hb\<lparr>hb_mac := replicate 32 0, hb_prev_hash := replicate 32 0\<rparr>, 66000, [], 0),
     (sample_hb\<lparr>hb_mac := replicate 32 0, hb_prev_hash := replicate 32 0, hb_seq_num := 259\<rparr>, 66000, [], 0),
     (sample_hb\<lparr>hb_mac := replicate 32 0, hb_prev_hash := replicate 32 0, hb_seq_num := 258\<rparr>, 66000, [], 0)]"

theorem heartbeat_chain_integrity_witness:
  "successively (\<lambda>a b. hb_seq_num a < hb_seq_num b \<and> hb_prev_hash b = compute_prev_hash (\<lambda>_. replicate 32 0) a)
    (accepted_vals (hv_step (\<lambda>_. replicate 32 0)) (\<lambda>i. hb_node_id (fst i)) fst (replicate 4 7)
      hb_verifier_new hb_sample_chain)
   \<and> length (accepted_vals (hv_step (\<lambda>_. replicate 32 0)) (\<lambda>i. hb_node_id (fst i)) fst (replicate 4 7)
      hb_verifier_new hb_sample_chain) = 2"
proof
  show "successively (\<lambda>a b. hb_seq_num a < hb_seq_num b \<and> hb_prev_hash b = compute_prev_hash (\<lambda>_. replicate 32 0) a)
    (accepted_vals (hv_step (\<lambda>_. replicate 32 0)) (\<lambda>i. hb_node_id (fst i)) fst (replicate 4 7)
      hb_verifier_new hb_sample_chain)"
    by (rule heartbeat_chain_integrity) (simp add: hb_sample_chain_def sample_hb_def hb_shaped_def)
  show "length (accepted_vals (hv_step (\<lambda>_. replicate 32 0)) (\<lambda>i. hb_node_id (fst i)) fst (replicate 4 7)
      hb_verifier_new hb_sample_chain) = 2"
    by (simp add: accepted_vals_def hb_sample_chain_def sample_hb_def hv_step_def hv_verify_def
        hb_verifier_new_def hv_last_seq_num_def compute_heartbeat_mac_def compute_prev_hash_def
        T_FUTURE_TOLERANCE_S_def T_PAST_S_def saturating_add_def saturating_sub_def)
qed

definition hb_in_window :: "u32 \<Rightarrow> heartbeat_unit \<Rightarrow> bool" where
  "hb_in_window nmt hb \<longleftrightarrow> hb_timestamp hb \<le> saturating_add nmt T_FUTURE_TOLERANCE_S
     \<and> saturating_sub nmt T_PAST_S \<le> hb_timestamp hb"

definition hb_mac_valid :: "(bytes \<Rightarrow> bytes) \<Rightarrow> bytes \<Rightarrow> heartbeat_unit \<Rightarrow> bool" where
  "hb_mac_valid blake3 nke hb \<longleftrightarrow> hb_mac hb = compute_heartbeat_mac blake3 nke (hb_node_id hb)
     (hb_seq_num hb) (hb_timestamp hb) (hb_smt_root hb) (hb_imt_frontier hb) (hb_imt_count hb) (hb_prev_hash hb)"

lemma hv_verify_in_window:
  "hb_in_window nmt hb \<Longrightarrow> \<not> saturating_add nmt T_FUTURE_TOLERANCE_S < hb_timestamp hb
     \<and> \<not> hb_timestamp hb < saturating_sub nmt T_PAST_S"
  by (simp add: hb_in_window_def not_less)

text \<open>A restart heartbeat (\<open>seq_num = 1\<close>) deletes the node's record before its MAC is looked at.
  So anyone, without the node's key, can send a heartbeat that the verifier answers with
  \<open>MacInvalid\<close> and that nevertheless wipes the victim's sequence number and chain head; a heartbeat
  of the victim that was refused as a replay just before is then accepted again, its \<open>prev_hash\<close>
  unchecked.\<close>

theorem forged_restart_reopens_replay:
  assumes "hv_last_seq_num v (hb_node_id old) > 1"
    and "hb_seq_num old > 0" and "hb_seq_num old \<le> hv_last_seq_num v (hb_node_id old)"
    and "hb_seq_num old \<noteq> 1"
    and "hb_in_window nmt old" and "hb_mac_valid blake3 nke old"
    and "hb_node_id forged = hb_node_id old" and "hb_seq_num forged = 1"
    and "hb_in_window nmt forged" and "\<not> hb_mac_valid blake3 nke forged"
  shows "hv_verify blake3 v old nmt nke e
           = (v, Inl (SeqNumNotMonotonic (hb_seq_num old) (hv_last_seq_num v (hb_node_id old))))
    \<and> hv_verify blake3 v forged nmt nke e = (hv_reset_peer v (hb_node_id old), Inl MacInvalid)
    \<and> snd (hv_verify blake3 (hv_reset_peer v (hb_node_id old)) old nmt nke e) = Inr ()"
proof (intro conjI)
  note w = hv_verify_in_window [OF assms(5)] hv_verify_in_window [OF assms(9)]
  have nz: "hb_seq_num old \<noteq> 0" using assms(2) by auto
  have gone: "hv_last_seq_num (hv_reset_peer v (hb_node_id old)) (hb_node_id old) = 0"
    by (simp add: hv_last_seq_num_def)
  show "hv_verify blake3 v old nmt nke e
      = (v, Inl (SeqNumNotMonotonic (hb_seq_num old) (hv_last_seq_num v (hb_node_id old))))"
    using w assms by (simp add: hv_verify_def)
  show "hv_verify blake3 v forged nmt nke e = (hv_reset_peer v (hb_node_id old), Inl MacInvalid)"
    using w assms by (simp add: hv_verify_def hb_mac_valid_def)
  show "snd (hv_verify blake3 (hv_reset_peer v (hb_node_id old)) old nmt nke e) = Inr ()"
    using w assms gone nz by (simp add: hv_verify_def hb_mac_valid_def Let_def)
qed

definition sample_forged :: heartbeat_unit where
  "sample_forged = sample_hb\<lparr>hb_seq_num := 1, hb_mac := replicate 32 9\<rparr>"

definition sample_verifier :: hb_verifier where
  "sample_verifier = hv_seed_node_state hb_verifier_new (replicate 4 7) (hb_to_bytes sample_hb) 258"

theorem forged_restart_reopens_replay_witness:
  "hv_verify (\<lambda>_. replicate 32 4) sample_verifier sample_hb 66000 [] 0
     = (sample_verifier, Inl (SeqNumNotMonotonic (hb_seq_num sample_hb)
         (hv_last_seq_num sample_verifier (hb_node_id sample_hb))))
   \<and> hv_verify (\<lambda>_. replicate 32 4) sample_verifier sample_forged 66000 [] 0
     = (hv_reset_peer sample_verifier (hb_node_id sample_hb), Inl MacInvalid)
   \<and> snd (hv_verify (\<lambda>_. replicate 32 4) (hv_reset_peer sample_verifier (hb_node_id sample_hb)) sample_hb
       66000 [] 0) = Inr ()"
  by (rule forged_restart_reopens_replay)
    (simp_all add: sample_verifier_def sample_forged_def sample_hb_def hv_seed_node_state_def
      hb_verifier_new_def hv_last_seq_num_def hb_in_window_def hb_mac_valid_def compute_heartbeat_mac_def
      T_FUTURE_TOLERANCE_S_def T_PAST_S_def saturating_add_def saturating_sub_def)

section \<open>What the time rules guarantee\<close>

text \<open>Two timestamps accepted by the rate limiter from one node, one after the other, are at least
  \<open>T_HB_MIN_INTERVAL_S\<close> apart, whatever happened in between.\<close>

theorem rate_limit_spacing:
  "successively (\<lambda>a b. unat a + 300 \<le> unat b) (accepted_vals rl_step fst snd n r is)"
  using rl.accepted_chain [of "is" n r] by (simp add: hb_spaced_def [abs_def])

text \<open>The run of the combined checker over one node's heartbeats.\<close>

lemma tc_check_all_rejected_future:
  assumes "verify_seq_num_in_epoch seq epoch" and "is_nmt_fresh (tc_nmt_last_update_wall_s c) wall"
    and "check_past_timestamp ts nmt" and "\<not> check_future_timestamp ts nmt"
    and "rl_last (tc_rate_limiter c) n = None \<or> hb_spaced (the (rl_last (tc_rate_limiter c) n)) ts"
  shows "\<exists>c'. tc_check_all c n ts seq epoch nmt wall = (c', Inl (T5FutureTimestamp ts nmt T_FUTURE_TOLERANCE_S))
     \<and> rl_last (tc_rate_limiter c') n = Some ts
     \<and> tc_nmt_last_update_wall_s c' = tc_nmt_last_update_wall_s c"
  using assms by (auto simp: tc_check_all_def rl_check_and_update_eq rl_last_def)

text \<open>C40. \<open>check_all\<close> stores the timestamp in the rate limiter (rule T-4) before it looks at the
  future bound (rule T-5).  A heartbeat refused for a timestamp far in the future therefore locks the
  node out: from then on every heartbeat that passes T-1 to T-3 with a timestamp below the refused one
  plus 300 s, which includes every timestamp the network will accept for a long time, is refused with
  T-4 and leaves the checker as it is.\<close>

theorem future_timestamp_locks_node_out:
  assumes "verify_seq_num_in_epoch seq epoch" and "is_nmt_fresh (tc_nmt_last_update_wall_s c) wall"
    and "check_past_timestamp ts nmt" and "\<not> check_future_timestamp ts nmt"
    and "rl_last (tc_rate_limiter c) n = None \<or> hb_spaced (the (rl_last (tc_rate_limiter c) n)) ts"
    and "tc_check_all c n ts seq epoch nmt wall = (c', r)"
    and "verify_seq_num_in_epoch seq2 epoch2" and "is_nmt_fresh (tc_nmt_last_update_wall_s c) wall2"
    and "check_past_timestamp ts2 nmt2" and "unat ts2 < unat ts + 300"
  shows "r = Inl (T5FutureTimestamp ts nmt T_FUTURE_TOLERANCE_S)
    \<and> tc_check_all c' n ts2 seq2 epoch2 nmt2 wall2 = (c', Inl (T4RateLimitExceeded n))"
  using tc_check_all_rejected_future [OF assms(1-5)] assms(6-)
  by (auto simp: tc_check_all_def rl_check_and_update_eq hb_spaced_def)

lemma tc_new_simps: "tc_nmt_last_update_wall_s tc_new = 0" "rl_last (tc_rate_limiter tc_new) n = None"
  "is_nmt_fresh 0 60"
  by (simp_all add: tc_new_def rl_new_def rl_last_def is_nmt_fresh_def T_NMT_STALE_S_def saturating_sub_def)

theorem future_timestamp_locks_node_out_witness:
  "snd (tc_check_all tc_new [1, 2, 3, 4] 4000000000 1 0 1000 60) = Inl (T5FutureTimestamp 4000000000 1000 T_FUTURE_TOLERANCE_S)
   \<and> tc_check_all (fst (tc_check_all tc_new [1, 2, 3, 4] 4000000000 1 0 1000 60)) [1, 2, 3, 4] 1600 2 0 1600 60
       = (fst (tc_check_all tc_new [1, 2, 3, 4] 4000000000 1 0 1000 60), Inl (T4RateLimitExceeded [1, 2, 3, 4]))"
  by (rule future_timestamp_locks_node_out [where c = tc_new and seq = 1 and epoch = 0 and wall = 60])
    (simp_all add: verify_seq_num_in_epoch_def epoch_from_seq_num_def EPOCH_HB_COUNT_def
      tc_new_simps check_past_timestamp_def check_future_timestamp_def
      T_PAST_S_def T_FUTURE_TOLERANCE_S_def saturating_add_def saturating_sub_def)

lemma epoch_from_seq_num_iff:
  assumes "0 < seq"
  shows "verify_seq_num_in_epoch seq epoch \<longleftrightarrow>
    unat epoch * 4320 + 1 \<le> unat seq \<and> unat seq \<le> (unat epoch + 1) * 4320"
proof -
  have pos: "0 < unat seq" using assms by (simp add: word_less_nat_alt)
  have "unat (seq - 1) = unat seq - 1" using pos by (simp add: unat_sub_if')
  moreover have "unat (ucast (w :: u32) :: u64) = unat w" for w
    using unsigned_less [of w, where 'a = nat] by (simp add: unsigned_ucast_eq take_bit_nat_eq_self)
  ultimately have "unat (epoch_from_seq_num seq) = (unat seq - 1) div 4320"
    using assms by (auto simp: epoch_from_seq_num_def EPOCH_HB_COUNT_def unat_div)
  then have "verify_seq_num_in_epoch seq epoch \<longleftrightarrow> (unat seq - 1) div 4320 = unat epoch"
    by (metis verify_seq_num_in_epoch_def word_unat_eq_iff)
  also have "\<dots> \<longleftrightarrow> unat epoch * 4320 + 1 \<le> unat seq \<and> unat seq \<le> (unat epoch + 1) * 4320"
    using pos by (auto simp: div_nat_eqI dividend_less_times_div)
  finally show ?thesis .
qed

section \<open>Maturity and governance weight\<close>

lemma w_mature_epochs_eq: "w_mature_epochs = 342"
  by (simp add: w_mature_epochs_def div_ceil_def W_MATURE_DAYS_def epoch_duration_s_def
      SUBEPOCH_PROVING_DURATION_S_def SUBEPOCH_COUNT_def)

lemma w_mature_eq: "w_mature = 1477440000000"
  by (simp add: w_mature_def w_mature_epochs_eq EXPECTED_HEARTBEATS_PER_EPOCH_def HB_FIXED_POINT_BASIS_def)

lemma ms_maturity_unat:
  "unat (ms_maturity s n e) = min
     (\<Sum>k\<leftarrow>[unat e - 342..<Suc (unat e)]. unat (unwrap_or (map_of (ms_summaries s) (n, of_nat k)) 0))
     18446744073709551615"
  by (simp add: ms_maturity_def Let_def unat_fold_saturating_add unat_saturating_sub w_mature_epochs_eq comp_def
      del: upt_Suc)

text \<open>The sum over the maturity window when every recorded weight obeys its documented bound.\<close>

lemma ms_maturity_le:
  assumes "\<And>k w. map_of (ms_summaries s) (n, k) = Some w \<Longrightarrow> unat w \<le> 1000000"
  shows "unat (ms_maturity s n e) \<le> 343000000"
proof -
  let ?f = "\<lambda>k. unat (unwrap_or (map_of (ms_summaries s) (n, of_nat k)) (0 :: u64))"
  have "?f k \<le> 1000000" for k
    using assms by (cases "map_of (ms_summaries s) (n, of_nat k)") auto
  then have "(\<Sum>k\<leftarrow>ks. ?f k) \<le> (\<Sum>k\<leftarrow>ks. 1000000)" for ks :: "nat list"
    by (intro sum_list_mono)
  also have "(\<Sum>k\<leftarrow>ks. 1000000) = 1000000 * length ks" for ks :: "nat list"
    by (induction ks) auto
  finally have "(\<Sum>k\<leftarrow>[unat e - 342..<Suc (unat e)]. ?f k)
      \<le> 1000000 * length [unat e - 342..<Suc (unat e)]" .
  also have "\<dots> \<le> 1000000 * 343" by (subst length_upt) simp
  finally show ?thesis by (simp add: ms_maturity_unat del: upt_Suc)
qed

text \<open>\<open>gov_weight\<close> is specified as a ratio that saturates at 1000000 for a fully mature node.
  \<open>w_mature\<close> multiplies the window by 4320 heartbeats per epoch, but the recorded weights are per
  epoch, at most 1000000 each: a node with the best possible record over the whole window gets at
  most 232, so the documented saturation is never reached.\<close>

theorem gov_weight_ceiling:
  assumes "\<forall>k w. map_of (ms_summaries s) (n, k) = Some w \<longrightarrow> unat w \<le> 1000000"
  shows "unat (ms_gov_weight s n e) \<le> 232"
proof -
  let ?m = "unat (ms_maturity s n e)"
  have m: "?m \<le> 343000000" using assms by (intro ms_maturity_le) blast
  have "unat (saturating_mul (ucast (ms_maturity s n e)) (ucast HB_FIXED_POINT_BASIS) div (ucast w_mature :: u128))
      = ?m * 1000000 div 1477440000000"
    using m by (simp add: unat_div unat_saturating_mul w_mature_eq HB_FIXED_POINT_BASIS_def)
  moreover have "?m * 1000000 div 1477440000000 \<le> 343000000 * 1000000 div 1477440000000"
    using m by (intro div_le_mono) simp
  ultimately show ?thesis
    by (simp add: ms_gov_weight_def Let_def unat_min_word unat_u128_u64)
qed

theorem gov_weight_ceiling_witness:
  "unat (ms_gov_weight (ms_record maturity_store_new
     \<lparr>ew_node_id = [1], ew_epoch_id = 5, ew_uptime_weight = 1000000\<rparr>) [1] 5) \<le> 232"
  by (rule gov_weight_ceiling) (simp add: ms_record_def maturity_store_new_def)

text \<open>Pruning at epoch \<open>e\<close> does not change the maturity of any node at any epoch from \<open>e\<close> on.\<close>

theorem prune_keeps_maturity:
  assumes "e \<le> e'"
  shows "ms_maturity (ms_prune s e) n e' = ms_maturity s n e'"
proof -
  have "map_of (ms_summaries (ms_prune s e)) (n, of_nat k) = map_of (ms_summaries s) (n, of_nat k)"
    if k: "k \<in> set [unat e' - 342..<Suc (unat e')]" for k
  proof -
    have "k < 2 ^ 64" using k u64_bound [of e'] by auto
    then have "unat (of_nat k :: u64) = k" by (simp add: unat_of_nat_small)
    moreover have "unat (saturating_sub e (w_mature_epochs + 2)) \<le> k"
      using k assms by (auto simp: w_mature_epochs_eq unat_saturating_sub word_le_nat_alt)
    ultimately have "saturating_sub e (w_mature_epochs + 2) \<le> of_nat k" by (simp add: word_le_nat_alt)
    then show ?thesis
      using map_of_filter_keep [of "\<lambda>(_, epoch_id). saturating_sub e (w_mature_epochs + 2) \<le> epoch_id" "(n, of_nat k)" "ms_summaries s"]
      by (simp add: ms_prune_def Let_def case_prod_unfold)
  qed
  then have "map (\<lambda>k. unat (unwrap_or (map_of (ms_summaries (ms_prune s e)) (n, of_nat k)) 0))
        [unat e' - 342..<Suc (unat e')]
      = map (\<lambda>k. unat (unwrap_or (map_of (ms_summaries s) (n, of_nat k)) 0)) [unat e' - 342..<Suc (unat e')]"
    by (intro map_cong) simp_all
  then show ?thesis by (simp only: word_unat_eq_iff ms_maturity_unat)
qed

end
