(* ===== verification/Subepoch.thy ===== *)
theory Subepoch
  imports Nullifier_SMT
begin

text \<open>
  Sub-epoch finality (\<open>core/scalar-network/src/subepoch.rs\<close>): the commitment with its hash and its
  validator signatures, aggregator selection, the chain of commitments of one epoch, the check of an
  IMT frontier against it (the result type is that of \<open>core/scalar-crypto/src/imt.rs\<close>) and the
  DMM-lite fallback.  BLAKE3 is the parameter \<open>blake3\<close>.
\<close>

definition DOMAIN_IMT_FRONTIER :: bytes where
  "DOMAIN_IMT_FRONTIER = ascii ''scalar_imt_frontier''"

definition DOMAIN_SUBEPOCH :: bytes where
  "DOMAIN_SUBEPOCH = ascii ''scalar_subepoch''"

definition DOMAIN_SUBEPOCH_SEED :: bytes where
  "DOMAIN_SUBEPOCH_SEED = ascii ''scalar_subepoch_seed''"

definition DOMAIN_SUBEPOCH_SCORE :: bytes where
  "DOMAIN_SUBEPOCH_SCORE = ascii ''scalar_subepoch_score''"

definition SUBEPOCH_QUORUM_THRESHOLD :: nat where
  "SUBEPOCH_QUORUM_THRESHOLD = 5"

definition SUBEPOCH_VALIDATOR_COUNT :: nat where
  "SUBEPOCH_VALIDATOR_COUNT = 7"

section \<open>Commitments\<close>

record subepoch_commitment =
  sc_epoch_id :: u64
  sc_subepoch_id :: u32
  sc_tx_set_root :: bytes
  sc_cumulative_utxo_root :: bytes
  sc_imt_frontier_root :: bytes
  sc_nullifier_batch_root :: bytes
  sc_prev_subepoch_hash :: bytes
  sc_subepoch_hash :: bytes
  sc_imt_count :: u64
  sc_tx_count :: u32
  sc_timestamp :: u64
  sc_aggregator_sig :: bytes
  sc_validator_sigs :: "(bytes \<times> bytes) list"

definition subepoch_preimage :: "(bytes \<Rightarrow> bytes) \<Rightarrow> subepoch_commitment \<Rightarrow> bytes" where
  "subepoch_preimage blake3 c =
     DOMAIN_SUBEPOCH @ le_bytes 8 (sc_epoch_id c) @ le_bytes 4 (sc_subepoch_id c) @ sc_tx_set_root c
     @ blake3 (DOMAIN_SMT_ACTIVE @ sc_cumulative_utxo_root c)
     @ blake3 (DOMAIN_IMT_FRONTIER @ sc_imt_frontier_root c)
     @ sc_nullifier_batch_root c @ sc_prev_subepoch_hash c
     @ le_bytes 8 (sc_imt_count c) @ le_bytes 4 (sc_tx_count c) @ le_bytes 8 (sc_timestamp c)"

definition compute_subepoch_hash :: "(bytes \<Rightarrow> bytes) \<Rightarrow> subepoch_commitment \<Rightarrow> bytes" where
  "compute_subepoch_hash blake3 c = blake3 (subepoch_preimage blake3 c)"

definition subepoch_commitment_new ::
  "(bytes \<Rightarrow> bytes) \<Rightarrow> u64 \<Rightarrow> u32 \<Rightarrow> bytes \<Rightarrow> bytes \<Rightarrow> bytes \<Rightarrow> bytes \<Rightarrow> bytes \<Rightarrow> u64 \<Rightarrow> u32 \<Rightarrow> u64
    \<Rightarrow> subepoch_commitment" where
  "subepoch_commitment_new blake3 epoch_id subepoch_id tx_set_root cumulative_utxo_root
     imt_frontier_root nullifier_batch_root prev_subepoch_hash imt_count tx_count timestamp =
     (let c = \<lparr>sc_epoch_id = epoch_id, sc_subepoch_id = subepoch_id, sc_tx_set_root = tx_set_root,
               sc_cumulative_utxo_root = cumulative_utxo_root, sc_imt_frontier_root = imt_frontier_root,
               sc_nullifier_batch_root = nullifier_batch_root, sc_prev_subepoch_hash = prev_subepoch_hash,
               sc_subepoch_hash = replicate 32 0, sc_imt_count = imt_count, sc_tx_count = tx_count,
               sc_timestamp = timestamp, sc_aggregator_sig = [], sc_validator_sigs = []\<rparr>
      in c\<lparr>sc_subepoch_hash := compute_subepoch_hash blake3 c\<rparr>)"

definition sc_has_quorum :: "subepoch_commitment \<Rightarrow> bool" where
  "sc_has_quorum c \<longleftrightarrow> length (sc_validator_sigs c) \<ge> SUBEPOCH_QUORUM_THRESHOLD"

definition add_validator_sig ::
  "subepoch_commitment \<Rightarrow> bytes \<Rightarrow> bytes \<Rightarrow> subepoch_commitment \<times> bool" where
  "add_validator_sig c node_id sig =
     (let c = (if \<not> list_ex (\<lambda>(id, _). id = node_id) (sc_validator_sigs c)
               then c\<lparr>sc_validator_sigs := sc_validator_sigs c @ [(node_id, sig)]\<rparr> else c)
      in (c, sc_has_quorum c))"

definition is_dmm_lite :: "subepoch_commitment \<Rightarrow> bool" where
  "is_dmm_lite c \<longleftrightarrow> \<not> sc_has_quorum c"

section \<open>Aggregator selection\<close>

definition compute_subepoch_seed :: "(bytes \<Rightarrow> bytes) \<Rightarrow> bytes \<Rightarrow> u32 \<Rightarrow> bytes" where
  "compute_subepoch_seed blake3 committed_manifest_hash subepoch_id =
     blake3 (DOMAIN_SUBEPOCH_SEED @ committed_manifest_hash @ le_bytes 4 subepoch_id)"

definition compute_subepoch_score :: "(bytes \<Rightarrow> bytes) \<Rightarrow> bytes \<Rightarrow> bytes \<Rightarrow> bytes" where
  "compute_subepoch_score blake3 node_id_full subepoch_seed =
     blake3 (DOMAIN_SUBEPOCH_SCORE @ node_id_full @ subepoch_seed)"

definition select_subepoch_aggregator :: "(bytes \<Rightarrow> bytes) \<Rightarrow> bytes list \<Rightarrow> bytes \<Rightarrow> bytes option" where
  "select_subepoch_aggregator blake3 eligible_nodes subepoch_seed =
     min_by_key (\<lambda>id. compute_subepoch_score blake3 id subepoch_seed) eligible_nodes"

section \<open>The chain of an epoch\<close>

datatype subepoch_error =
    SubEpochEpochMismatch u64 u64
  | InvalidHash
  | ChainBroken u32
  | QuorumNotAchieved u32

datatype verification_result =
    Valid
  | SubEpochNotFound
  | SubEpochQuorumFailed u32
  | SubEpochHashMismatch
  | IMTFrontierMismatch
  | IMTCountMismatch
  | EpochMismatch u64 u64

record subepoch_chain =
  ch_commitments :: "(u32 \<times> subepoch_commitment) list"
  ch_latest_subepoch_id :: "u32 option"
  ch_epoch_id :: u64

definition subepoch_chain_new :: "u64 \<Rightarrow> subepoch_chain" where
  "subepoch_chain_new epoch_id =
     \<lparr>ch_commitments = [], ch_latest_subepoch_id = None, ch_epoch_id = epoch_id\<rparr>"

definition ch_get :: "subepoch_chain \<Rightarrow> u32 \<Rightarrow> subepoch_commitment option" where
  "ch_get ch subepoch_id = map_of (ch_commitments ch) subepoch_id"

definition add_commitment ::
  "(bytes \<Rightarrow> bytes) \<Rightarrow> subepoch_chain \<Rightarrow> subepoch_commitment \<Rightarrow> subepoch_chain \<times> (subepoch_error + unit)" where
  "add_commitment blake3 ch c =
     (if sc_epoch_id c \<noteq> ch_epoch_id ch
      then (ch, Inl (SubEpochEpochMismatch (ch_epoch_id ch) (sc_epoch_id c)))
      else if sc_subepoch_hash c \<noteq> compute_subepoch_hash blake3 c then (ch, Inl InvalidHash)
      else
        let link_error =
          (if sc_subepoch_id c = 0
           then (if sc_prev_subepoch_hash c \<noteq> replicate 32 0 then Some (ChainBroken 0) else None)
           else (case ch_get ch (sc_subepoch_id c - 1) of
                   None \<Rightarrow> Some (ChainBroken (sc_subepoch_id c))
                 | Some prev \<Rightarrow> (if sc_prev_subepoch_hash c \<noteq> sc_subepoch_hash prev
                                 then Some (ChainBroken (sc_subepoch_id c)) else None)))
        in case link_error of
             Some e \<Rightarrow> (ch, Inl e)
           | None \<Rightarrow>
               let id = sc_subepoch_id c
               in (ch\<lparr>ch_commitments := AList.update id c (ch_commitments ch),
                      ch_latest_subepoch_id := Some (case ch_latest_subepoch_id ch of
                          None \<Rightarrow> id | Some latest \<Rightarrow> max latest id)\<rparr>, Inr ()))"

definition ch_has_quorum :: "subepoch_chain \<Rightarrow> u32 \<Rightarrow> bool" where
  "ch_has_quorum ch subepoch_id = unwrap_or (map_option sc_has_quorum (ch_get ch subepoch_id)) False"

definition get_imt_frontier_root :: "subepoch_chain \<Rightarrow> u32 \<Rightarrow> bytes option" where
  "get_imt_frontier_root ch subepoch_id = (case ch_get ch subepoch_id of
       None \<Rightarrow> None
     | Some c \<Rightarrow> (if sc_has_quorum c then Some (sc_imt_frontier_root c) else None))"

definition verify_imt_source ::
  "subepoch_chain \<Rightarrow> u32 \<Rightarrow> bytes \<Rightarrow> bytes \<Rightarrow> u64 \<Rightarrow> u64 \<Rightarrow> u64 \<Rightarrow> verification_result" where
  "verify_imt_source ch subepoch_id claimed_imt_frontier_root claimed_subepoch_hash
     claimed_imt_commitment_count ref_epoch_id current_epoch_id =
     (case ch_get ch subepoch_id of
        None \<Rightarrow> SubEpochNotFound
      | Some commitment \<Rightarrow>
          if \<not> sc_has_quorum commitment then SubEpochQuorumFailed subepoch_id
          else if sc_subepoch_hash commitment \<noteq> claimed_subepoch_hash then SubEpochHashMismatch
          else if sc_imt_frontier_root commitment \<noteq> claimed_imt_frontier_root then IMTFrontierMismatch
          else if sc_imt_count commitment \<noteq> claimed_imt_commitment_count then IMTCountMismatch
          else if ref_epoch_id \<noteq> current_epoch_id then EpochMismatch ref_epoch_id current_epoch_id
          else Valid)"

definition commitment_count :: "subepoch_chain \<Rightarrow> nat" where
  "commitment_count ch = length (ch_commitments ch)"

definition dmm_lite_build_commitment ::
  "(bytes \<Rightarrow> bytes) \<Rightarrow> u64 \<Rightarrow> u32 \<Rightarrow> bytes \<Rightarrow> bytes \<Rightarrow> bytes \<Rightarrow> bytes \<Rightarrow> bytes \<Rightarrow> u64 \<Rightarrow> u32 \<Rightarrow> u64
    \<Rightarrow> subepoch_commitment" where
  "dmm_lite_build_commitment blake3 epoch_id subepoch_id tx_set_root cumulative_utxo_root
     imt_frontier_root nullifier_batch_root prev_subepoch_hash imt_count tx_count timestamp =
     subepoch_commitment_new blake3 epoch_id subepoch_id tx_set_root cumulative_utxo_root
       imt_frontier_root nullifier_batch_root prev_subepoch_hash imt_count tx_count timestamp"

section \<open>The hash binds the content\<close>

definition sc_shaped :: "subepoch_commitment \<Rightarrow> bool" where
  "sc_shaped c \<longleftrightarrow> length (sc_tx_set_root c) = 32 \<and> length (sc_cumulative_utxo_root c) = 32
     \<and> length (sc_imt_frontier_root c) = 32 \<and> length (sc_nullifier_batch_root c) = 32
     \<and> length (sc_prev_subepoch_hash c) = 32"

text \<open>What the hash covers: every field but the hash itself and the signatures.\<close>

definition sc_content :: "subepoch_commitment \<Rightarrow> subepoch_commitment" where
  "sc_content c = c\<lparr>sc_subepoch_hash := [], sc_aggregator_sig := [], sc_validator_sigs := []\<rparr>"

text \<open>The messages BLAKE3 is applied to for one commitment; collision resistance is used as
  injectivity on such finite sets of messages only.\<close>

definition sc_inputs :: "(bytes \<Rightarrow> bytes) \<Rightarrow> subepoch_commitment \<Rightarrow> bytes set" where
  "sc_inputs blake3 c = {subepoch_preimage blake3 c, DOMAIN_SMT_ACTIVE @ sc_cumulative_utxo_root c,
     DOMAIN_IMT_FRONTIER @ sc_imt_frontier_root c}"

lemma le_bytes_u32_inject [simp]: "le_bytes 4 (a :: u32) = le_bytes 4 b \<longleftrightarrow> a = b"
  by (rule le_bytes_inject) simp

lemma le_bytes_u64_inject [simp]: "le_bytes 8 (a :: u64) = le_bytes 8 b \<longleftrightarrow> a = b"
  by (rule le_bytes_inject) simp

lemma subepoch_hash_content:
  assumes "compute_subepoch_hash blake3 c = compute_subepoch_hash blake3 d"
    and "\<And>x. length (blake3 x) = 32" and "sc_shaped c" "sc_shaped d" and "inj_on blake3 (sc_inputs blake3 c \<union> sc_inputs blake3 d)"
  shows "sc_content c = sc_content d"
proof -
  have "subepoch_preimage blake3 c = subepoch_preimage blake3 d"
    using inj_onD [OF assms(5) assms(1) [unfolded compute_subepoch_hash_def]] by (simp add: sc_inputs_def)
  then have eqs: "sc_epoch_id c = sc_epoch_id d" "sc_subepoch_id c = sc_subepoch_id d"
    "sc_tx_set_root c = sc_tx_set_root d"
    "blake3 (DOMAIN_SMT_ACTIVE @ sc_cumulative_utxo_root c) = blake3 (DOMAIN_SMT_ACTIVE @ sc_cumulative_utxo_root d)"
    "blake3 (DOMAIN_IMT_FRONTIER @ sc_imt_frontier_root c) = blake3 (DOMAIN_IMT_FRONTIER @ sc_imt_frontier_root d)"
    "sc_nullifier_batch_root c = sc_nullifier_batch_root d" "sc_prev_subepoch_hash c = sc_prev_subepoch_hash d"
    "sc_imt_count c = sc_imt_count d" "sc_tx_count c = sc_tx_count d" "sc_timestamp c = sc_timestamp d"
    using assms(2-4) by (simp_all add: subepoch_preimage_def sc_shaped_def)
  moreover have "sc_cumulative_utxo_root c = sc_cumulative_utxo_root d"
    using inj_onD [OF assms(5) eqs(4)] by (simp add: sc_inputs_def)
  moreover have "sc_imt_frontier_root c = sc_imt_frontier_root d"
    using inj_onD [OF assms(5) eqs(5)] by (simp add: sc_inputs_def)
  ultimately show ?thesis by (simp add: sc_content_def)
qed

section \<open>Reachable chains\<close>

text \<open>\<open>ch_reach\<close> allows every call of \<open>add_commitment\<close>, \<open>ch_append\<close> only those for a sub-epoch that has
  no commitment yet.\<close>

inductive ch_reach :: "(bytes \<Rightarrow> bytes) \<Rightarrow> u64 \<Rightarrow> subepoch_chain \<Rightarrow> bool" for blake3 e where
  ch_reach_new: "ch_reach blake3 e (subepoch_chain_new e)"
| ch_reach_add: "ch_reach blake3 e ch \<Longrightarrow> ch_reach blake3 e (fst (add_commitment blake3 ch c))"

inductive ch_append :: "(bytes \<Rightarrow> bytes) \<Rightarrow> u64 \<Rightarrow> subepoch_chain \<Rightarrow> bool" for blake3 e where
  ch_append_new: "ch_append blake3 e (subepoch_chain_new e)"
| ch_append_add: "ch_append blake3 e ch \<Longrightarrow> sc_shaped c \<Longrightarrow> ch_get ch (sc_subepoch_id c) = None
    \<Longrightarrow> ch_append blake3 e (fst (add_commitment blake3 ch c))"

lemma ch_append_reach: "ch_append blake3 e ch \<Longrightarrow> ch_reach blake3 e ch"
  by (induction rule: ch_append.induct) (auto intro: ch_reach.intros)

definition sc_links :: "subepoch_chain \<Rightarrow> subepoch_commitment \<Rightarrow> bool" where
  "sc_links ch c \<longleftrightarrow> (if sc_subepoch_id c = 0 then sc_prev_subepoch_hash c = replicate 32 0
     else \<exists>p. ch_get ch (sc_subepoch_id c - 1) = Some p \<and> sc_prev_subepoch_hash c = sc_subepoch_hash p)"

lemma add_commitment_eq:
  "add_commitment blake3 ch c =
     (if sc_epoch_id c \<noteq> ch_epoch_id ch then (ch, Inl (SubEpochEpochMismatch (ch_epoch_id ch) (sc_epoch_id c)))
      else if sc_subepoch_hash c \<noteq> compute_subepoch_hash blake3 c then (ch, Inl InvalidHash)
      else if \<not> sc_links ch c then (ch, Inl (ChainBroken (sc_subepoch_id c)))
      else (ch\<lparr>ch_commitments := AList.update (sc_subepoch_id c) c (ch_commitments ch),
               ch_latest_subepoch_id := Some (case ch_latest_subepoch_id ch of
                 None \<Rightarrow> sc_subepoch_id c | Some latest \<Rightarrow> max latest (sc_subepoch_id c))\<rparr>, Inr ()))"
  by (simp add: add_commitment_def sc_links_def Let_def split: option.splits)

lemma add_commitment_cases:
  obtains (refused) x where "add_commitment blake3 ch c = (ch, Inl x)"
  | (added) ch' where "add_commitment blake3 ch c = (ch', Inr ())"
      "sc_epoch_id c = ch_epoch_id ch" "ch_epoch_id ch' = ch_epoch_id ch"
      "sc_subepoch_hash c = compute_subepoch_hash blake3 c"
      "ch_commitments ch' = AList.update (sc_subepoch_id c) c (ch_commitments ch)"
      "ch_latest_subepoch_id ch' = Some (case ch_latest_subepoch_id ch of
         None \<Rightarrow> sc_subepoch_id c | Some latest \<Rightarrow> max latest (sc_subepoch_id c))"
      "sc_subepoch_id c = 0 \<longrightarrow> sc_prev_subepoch_hash c = replicate 32 0"
      "sc_subepoch_id c \<noteq> 0 \<longrightarrow> (\<exists>p. ch_get ch (sc_subepoch_id c - 1) = Some p
         \<and> sc_prev_subepoch_hash c = sc_subepoch_hash p)"
proof (cases "sc_epoch_id c = ch_epoch_id ch \<and> sc_subepoch_hash c = compute_subepoch_hash blake3 c \<and> sc_links ch c")
  case True
  then show ?thesis
    by (intro added [of "ch\<lparr>ch_commitments := AList.update (sc_subepoch_id c) c (ch_commitments ch),
        ch_latest_subepoch_id := Some (case ch_latest_subepoch_id ch of
          None \<Rightarrow> sc_subepoch_id c | Some latest \<Rightarrow> max latest (sc_subepoch_id c))\<rparr>"])
      (auto simp: add_commitment_eq sc_links_def)
next
  case False
  then have "\<exists>x. add_commitment blake3 ch c = (ch, Inl x)" by (auto simp: add_commitment_eq)
  then show ?thesis using refused by blast
qed

definition ch_wf :: "(bytes \<Rightarrow> bytes) \<Rightarrow> u64 \<Rightarrow> subepoch_chain \<Rightarrow> bool" where
  "ch_wf blake3 e ch \<longleftrightarrow> ch_epoch_id ch = e \<and> unique_keys (ch_commitments ch)
     \<and> (case ch_latest_subepoch_id ch of
          None \<Rightarrow> ch_commitments ch = []
        | Some m \<Rightarrow> fst ` set (ch_commitments ch) = {..m})
     \<and> (\<forall>i c. ch_get ch i = Some c \<longrightarrow>
          sc_subepoch_id c = i \<and> sc_epoch_id c = e \<and> sc_subepoch_hash c = compute_subepoch_hash blake3 c)"

lemma ch_get_None_iff: "ch_get ch i = None \<longleftrightarrow> i \<notin> fst ` set (ch_commitments ch)"
  by (simp add: ch_get_def map_of_eq_None_iff)

lemma ch_get_update:
  "ch_commitments ch' = AList.update i c (ch_commitments ch) \<Longrightarrow>
     ch_get ch' j = (if j = i then Some c else ch_get ch j)"
  by (simp add: ch_get_def map_of_update_neq)

lemma atMost_word_insert:
  fixes i m :: "'a::len word"
  assumes "i = 0 \<or> i - 1 \<le> m"
  shows "insert i {..m} = {..max m i}"
proof (cases "i \<le> m")
  case True
  then show ?thesis by (auto simp: max_def)
next
  case False
  have "j \<le> m \<or> j = i" if "j \<le> i" for j
  proof (rule disjCI)
    assume "j \<noteq> i"
    with that have "unat j < unat i"
      by (metis le_neq_trans word_le_nat_alt word_unat_eq_iff)
    moreover have "unat i - 1 \<le> unat m"
      using assms False by (auto simp: word_le_nat_alt unat_sub_if' split: if_splits)
    ultimately show "j \<le> m" by (simp add: word_le_nat_alt)
  qed
  with False show ?thesis by (auto simp: max_def)
qed

lemma card_atMost_word: "card {..m :: 'a::len word} = Suc (unat m)"
proof -
  have "unat ` {..m} = {..unat m}"
  proof (intro set_eqI iffI)
    fix k assume "k \<in> {..unat m}"
    then have k: "k \<le> unat m" by simp
    have "unat (of_nat k :: 'a word) = k"
      using le_less_trans [OF k unsigned_less] by (rule unat_of_nat_small)
    with k have "k = unat (of_nat k :: 'a word)" "(of_nat k :: 'a word) \<in> {..m}"
      by (simp_all add: word_le_nat_alt)
    then show "k \<in> unat ` {..m}" by blast
  qed (auto simp: word_le_nat_alt)
  then have "card (unat ` {..m}) = Suc (unat m)" by simp
  moreover have "inj_on unat {..m}" by (auto intro!: inj_onI simp: word_unat_eq_iff)
  ultimately show ?thesis by (simp add: card_image)
qed

lemma ch_wf_add:
  assumes "ch_wf blake3 e ch"
  shows "ch_wf blake3 e (fst (add_commitment blake3 ch c))"
proof (cases rule: add_commitment_cases [of blake3 ch c])
  case refused
  then show ?thesis using assms by simp
next
  case (added ch')
  have keys: "fst ` set (ch_commitments ch') = insert (sc_subepoch_id c) (fst ` set (ch_commitments ch))"
    using added(5) by simp
  have pred: "sc_subepoch_id c \<noteq> 0 \<Longrightarrow> sc_subepoch_id c - 1 \<in> fst ` set (ch_commitments ch)"
    using added(8) ch_get_None_iff [of ch "sc_subepoch_id c - 1"] by auto
  have "case ch_latest_subepoch_id ch' of None \<Rightarrow> ch_commitments ch' = []
      | Some m \<Rightarrow> fst ` set (ch_commitments ch') = {..m}"
  proof (cases "ch_latest_subepoch_id ch")
    case None
    then have "sc_subepoch_id c = 0" using assms pred by (auto simp: ch_wf_def)
    then show ?thesis using None assms keys added(6) by (auto simp: ch_wf_def)
  next
    case (Some m)
    then have "fst ` set (ch_commitments ch) = {..m}" using assms by (simp add: ch_wf_def)
    then show ?thesis using Some keys added(6) pred atMost_word_insert [of "sc_subepoch_id c" m] by auto
  qed
  then show ?thesis
    using assms added(1-6) ch_get_update [OF added(5)]
    by (auto simp: ch_wf_def split: if_splits option.splits)
qed

lemma ch_reach_wf: "ch_reach blake3 e ch \<Longrightarrow> ch_wf blake3 e ch"
proof (induction rule: ch_reach.induct)
  case ch_reach_new
  then show ?case by (simp add: ch_wf_def subepoch_chain_new_def ch_get_def)
qed (rule ch_wf_add)

text \<open>However its commitments arrive, repeated and out of order included, a chain never has a
  hole: the sub-epochs it stores are exactly those up to \<open>latest_subepoch_id\<close>, one commitment each
  (so \<open>commitment_count\<close> is that number plus one), and every stored commitment stands under its own
  number, belongs to the chain's epoch and carries its correct hash.\<close>

theorem subepoch_chain_contiguous:
  assumes "ch_reach blake3 e ch"
  shows "(case ch_latest_subepoch_id ch of
        None \<Rightarrow> commitment_count ch = 0
      | Some m \<Rightarrow> (\<forall>i. (ch_get ch i \<noteq> None) = (i \<le> m)) \<and> commitment_count ch = Suc (unat m))
    \<and> (\<forall>i. case ch_get ch i of None \<Rightarrow> True
      | Some c \<Rightarrow> sc_subepoch_id c = i \<and> sc_epoch_id c = e
          \<and> sc_subepoch_hash c = compute_subepoch_hash blake3 c)"
proof -
  have wf: "ch_wf blake3 e ch" using assms by (rule ch_reach_wf)
  have card: "commitment_count ch = card (fst ` set (ch_commitments ch))"
    using wf distinct_card [of "map fst (ch_commitments ch)"]
    by (simp add: commitment_count_def ch_wf_def unique_keys_def)
  show ?thesis
    using wf card by (auto simp: ch_wf_def ch_get_None_iff card_atMost_word split: option.splits)
qed

definition sample_hash :: "bytes \<Rightarrow> bytes" where
  "sample_hash x = replicate 31 (of_nat (length x)) @ [x ! 23]"

definition sample_commitment :: "u32 \<Rightarrow> bytes \<Rightarrow> u64 \<Rightarrow> subepoch_commitment" where
  "sample_commitment i prev t = subepoch_commitment_new sample_hash 7 i (replicate 32 1) (replicate 32 2)
     (replicate 32 3) (replicate 32 4) prev 10 11 t"

definition sample_head :: "u32 \<Rightarrow> bytes" where
  "sample_head i = replicate 31 207 @ [ucast i]"

lemma sample_commitment_simps:
  "sc_epoch_id (sample_commitment i p t) = 7" "sc_subepoch_id (sample_commitment i p t) = i"
  "sc_prev_subepoch_hash (sample_commitment i p t) = p"
  "sc_validator_sigs (sample_commitment i p t) = []"
  "sc_subepoch_hash (sample_commitment i p t) = compute_subepoch_hash sample_hash (sample_commitment i p t)"
  by (simp_all add: sample_commitment_def subepoch_commitment_new_def Let_def compute_subepoch_hash_def
      subepoch_preimage_def)

lemma sample_commitment_hash:
  assumes "length p = 32"
  shows "compute_subepoch_hash sample_hash (sample_commitment i p t) = sample_head i"
proof -
  let ?x = "subepoch_preimage sample_hash (sample_commitment i p t)"
  have "length ?x = 207"
    using assms by (simp add: subepoch_preimage_def sample_commitment_def subepoch_commitment_new_def Let_def
        sample_hash_def DOMAIN_SUBEPOCH_def)
  moreover have "?x ! 23 = le_bytes 4 i ! 0"
    by (simp add: subepoch_preimage_def sample_commitment_def subepoch_commitment_new_def Let_def
        DOMAIN_SUBEPOCH_def nth_append)
  moreover have "le_bytes 4 i ! 0 = (ucast i :: u8)"
    by (simp add: le_bytes_def)
  ultimately show ?thesis by (simp add: compute_subepoch_hash_def sample_hash_def sample_head_def)
qed

definition sample_chain :: "subepoch_chain" where
  "sample_chain = fst (add_commitment sample_hash (fst (add_commitment sample_hash (subepoch_chain_new 7)
     (sample_commitment 0 (replicate 32 0) 100))) (sample_commitment 1 (sample_head 0) 200))"

lemma sample_chain_eq:
  "sample_chain = \<lparr>ch_commitments = [(0, sample_commitment 0 (replicate 32 0) 100),
      (1, sample_commitment 1 (sample_head 0) 200)], ch_latest_subepoch_id = Some 1, ch_epoch_id = 7\<rparr>"
  by (simp add: sample_chain_def subepoch_chain_new_def add_commitment_eq sample_commitment_simps
      sc_links_def ch_get_def sample_commitment_hash)

theorem subepoch_chain_contiguous_witness:
  "(case ch_latest_subepoch_id sample_chain of
        None \<Rightarrow> commitment_count sample_chain = 0
      | Some m \<Rightarrow> (\<forall>i. (ch_get sample_chain i \<noteq> None) = (i \<le> m)) \<and> commitment_count sample_chain = Suc (unat m))
    \<and> (\<forall>i. case ch_get sample_chain i of None \<Rightarrow> True
      | Some c \<Rightarrow> sc_subepoch_id c = i \<and> sc_epoch_id c = 7
          \<and> sc_subepoch_hash c = compute_subepoch_hash sample_hash c)"
  unfolding sample_chain_def by (rule subepoch_chain_contiguous) (intro ch_reach.intros)

section \<open>Hash-linked logs\<close>

text \<open>
  A log whose entries carry the hash of their predecessor: if equal hashes mean equal contents and
  the content includes the predecessor's hash, then two logs that agree on one hash agree on
  everything before it.
\<close>

locale hash_log =
  fixes valid :: "'log \<Rightarrow> bool"
    and entry :: "'log \<Rightarrow> nat \<Rightarrow> 'c option"
    and hash :: "'c \<Rightarrow> 'h"
    and prev :: "'c \<Rightarrow> 'h"
    and content :: "'c \<Rightarrow> 'd"
    and compatible :: "'log \<Rightarrow> 'log \<Rightarrow> bool"
  assumes binding: "valid l \<Longrightarrow> valid l' \<Longrightarrow> compatible l l' \<Longrightarrow> entry l i = Some c \<Longrightarrow> entry l' i = Some c'
      \<Longrightarrow> hash c = hash c' \<Longrightarrow> content c = content c'"
    and content_prev: "content c = content c' \<Longrightarrow> prev c = prev c'"
    and linked: "valid l \<Longrightarrow> entry l (Suc i) = Some c \<Longrightarrow> \<exists>p. entry l i = Some p \<and> hash p = prev c"
begin

lemma agreement:
  assumes "valid l" "valid l'" "compatible l l'" "entry l i = Some c" "entry l' i = Some c'"
    "hash c = hash c'" "j \<le> i"
  shows "\<exists>d d'. entry l j = Some d \<and> entry l' j = Some d' \<and> content d = content d'"
  using assms(4-7)
proof (induction i arbitrary: c c')
  case 0
  then show ?case using binding assms(1-3) by auto
next
  case (Suc i)
  have eq: "content c = content c'" using Suc.prems binding assms(1-3) by blast
  show ?case
  proof (cases "j = Suc i")
    case True
    then show ?thesis using Suc.prems eq by blast
  next
    case False
    then have "j \<le> i" using Suc.prems(4) by simp
    moreover obtain p p' where "entry l i = Some p" "hash p = prev c" "entry l' i = Some p'" "hash p' = prev c'"
      using linked Suc.prems(1,2) assms(1,2) by meson
    ultimately show ?thesis using Suc.IH content_prev [OF eq] by simp
  qed
qed

end

definition ch_at :: "subepoch_chain \<Rightarrow> nat \<Rightarrow> subepoch_commitment option" where
  "ch_at ch i = (if i < 2 ^ 32 then ch_get ch (of_nat i) else None)"

definition ch_inputs :: "(bytes \<Rightarrow> bytes) \<Rightarrow> subepoch_chain \<Rightarrow> bytes set" where
  "ch_inputs blake3 ch = (\<Union>c\<in>snd ` set (ch_commitments ch). sc_inputs blake3 c)"

definition ch_linked :: "subepoch_chain \<Rightarrow> bool" where
  "ch_linked ch \<longleftrightarrow> (\<forall>i c. ch_get ch i = Some c \<longrightarrow> sc_shaped c \<and> (i \<noteq> 0 \<longrightarrow>
     (\<exists>p. ch_get ch (i - 1) = Some p \<and> sc_prev_subepoch_hash c = sc_subepoch_hash p)))"

lemma ch_append_linked: "ch_append blake3 e ch \<Longrightarrow> ch_linked ch"
proof (induction rule: ch_append.induct)
  case ch_append_new
  then show ?case by (simp add: ch_linked_def subepoch_chain_new_def ch_get_def)
next
  case (ch_append_add ch c)
  show ?case
  proof (cases rule: add_commitment_cases [of blake3 ch c])
    case refused
    then show ?thesis using ch_append_add by simp
  next
    case (added ch')
    have "sc_shaped d \<and> (i \<noteq> 0 \<longrightarrow>
        (\<exists>p. ch_get ch' (i - 1) = Some p \<and> sc_prev_subepoch_hash d = sc_subepoch_hash p))"
      if d: "ch_get ch' i = Some d" for i d
    proof (cases "i = sc_subepoch_id c")
      case True
      then show ?thesis
        using d added(8) ch_append_add.hyps(2) by (auto simp: ch_get_update [OF added(5)])
    next
      case False
      then have "ch_get ch i = Some d" using d by (simp add: ch_get_update [OF added(5)])
      then have "sc_shaped d" and "i \<noteq> 0 \<Longrightarrow> \<exists>p. ch_get ch (i - 1) = Some p
          \<and> sc_prev_subepoch_hash d = sc_subepoch_hash p"
        using ch_append_add.IH unfolding ch_linked_def by blast+
      moreover have "ch_get ch (i - 1) = Some q \<Longrightarrow> ch_get ch' (i - 1) = Some q" for q
        using ch_append_add.hyps(3) by (auto simp: ch_get_update [OF added(5)])
      ultimately show ?thesis by blast
    qed
    then show ?thesis using added(1) by (simp add: ch_linked_def)
  qed
qed

interpretation chain: hash_log "\<lambda>ch. ch_append blake3 (ch_epoch_id ch) ch" ch_at sc_subepoch_hash sc_prev_subepoch_hash
    sc_content "\<lambda>ch ch'. (\<forall>x. length (blake3 x) = 32) \<and> inj_on blake3 (ch_inputs blake3 ch \<union> ch_inputs blake3 ch')"
    for blake3
proof (unfold_locales, goal_cases)
  case (1 l l' i c c')
  have wf: "ch_wf blake3 (ch_epoch_id l) l" "ch_wf blake3 (ch_epoch_id l') l'" "ch_linked l" "ch_linked l'"
    using 1(1,2) ch_append_reach ch_reach_wf ch_append_linked by blast+
  have get: "ch_get l (of_nat i) = Some c" "ch_get l' (of_nat i) = Some c'"
    using 1(4,5) by (auto simp: ch_at_def split: if_splits)
  then have "c \<in> snd ` set (ch_commitments l)" "c' \<in> snd ` set (ch_commitments l')"
    by (auto simp: ch_get_def dest!: map_of_SomeD intro: rev_image_eqI)
  then have "inj_on blake3 (sc_inputs blake3 c \<union> sc_inputs blake3 c')"
    using 1(3) by (auto simp: ch_inputs_def elim!: inj_on_subset)
  moreover have "compute_subepoch_hash blake3 c = compute_subepoch_hash blake3 c'"
    using wf get 1(6) by (auto simp: ch_wf_def)
  ultimately show ?case
    using wf get 1(3) by (intro subepoch_hash_content [of blake3]) (auto simp: ch_linked_def)
next
  case (2 c c')
  then show ?case by (auto simp: sc_content_def dest!: arg_cong [where f = sc_prev_subepoch_hash])
next
  case (3 l i c)
  have get: "ch_get l (of_nat (Suc i)) = Some c" and i: "Suc i < 2 ^ 32"
    using 3(2) by (auto simp: ch_at_def split: if_splits)
  have "unat (of_nat (Suc i) :: u32) = Suc i" using i by (intro unat_of_nat_small) simp
  then have "(of_nat (Suc i) :: u32) \<noteq> 0" by (metis nat.distinct(1) unsigned_0)
  then obtain q where "ch_get l (of_nat (Suc i) - 1) = Some q" "sc_prev_subepoch_hash c = sc_subepoch_hash q"
    using ch_append_linked [OF 3(1)] get unfolding ch_linked_def by blast
  then show ?case using i by (simp add: ch_at_def)
qed

text \<open>C9. Two nodes whose chains grew without replacing a stored commitment and that hold the same hash for one
  sub-epoch hold commitments of the same content (every field but the signatures) for that sub-epoch
  and for all earlier ones, as long as BLAKE3 does not collide on the messages hashed in these two
  chains.  Agreeing on one finality hash is agreeing on the history.\<close>

theorem subepoch_history_agreement:
  assumes "ch_append blake3 (ch_epoch_id ch) ch" and "ch_append blake3 (ch_epoch_id ch') ch'"
    and "\<forall>x. length (blake3 x) = 32" and "inj_on blake3 (ch_inputs blake3 ch \<union> ch_inputs blake3 ch')"
    and "ch_get ch i = Some c" and "ch_get ch' i = Some c'" and "sc_subepoch_hash c = sc_subepoch_hash c'"
    and "j \<le> i"
  shows "\<exists>d d'. ch_get ch j = Some d \<and> ch_get ch' j = Some d' \<and> sc_content d = sc_content d'"
proof -
  have at: "ch_at h (unat k) = ch_get h k" for h k
    using unsigned_less [of k, where 'a = nat] by (simp add: ch_at_def)
  show ?thesis
    using chain.agreement [where ?blake3.0 = blake3 and l = ch and l' = ch' and i = "unat i" and j = "unat j"] assms
    by (simp add: at word_le_nat_alt)
qed

lemma sample_commitment_shaped: "length p = 32 \<Longrightarrow> sc_shaped (sample_commitment i p t)"
  by (simp add: sc_shaped_def sample_commitment_def subepoch_commitment_new_def Let_def)

lemma sample_chain_append: "ch_append sample_hash 7 sample_chain"
proof -
  let ?one = "fst (add_commitment sample_hash (subepoch_chain_new 7) (sample_commitment 0 (replicate 32 0) 100))"
  have one: "?one = \<lparr>ch_commitments = [(0, sample_commitment 0 (replicate 32 0) 100)],
      ch_latest_subepoch_id = Some 0, ch_epoch_id = 7\<rparr>"
    by (simp add: subepoch_chain_new_def add_commitment_eq sample_commitment_simps sc_links_def)
  have "ch_append sample_hash 7 ?one"
    by (rule ch_append_add [OF ch_append_new])
      (simp_all add: sample_commitment_shaped ch_get_def subepoch_chain_new_def)
  then show ?thesis
    unfolding sample_chain_def
    by (rule ch_append_add)
      (simp_all add: one sample_commitment_shaped ch_get_def sample_commitment_simps sample_head_def)
qed

lemma sample_chain_inputs: "inj_on sample_hash (ch_inputs sample_hash sample_chain)"
proof -
  let ?p = "subepoch_preimage sample_hash"
  let ?c = "sample_commitment 0 (replicate 32 0) 100" and ?d = "sample_commitment 1 (sample_head 0) 200"
  have "sample_hash (?p ?c) = replicate 31 207 @ [0]" "sample_hash (?p ?d) = replicate 31 207 @ [1]"
    using sample_commitment_hash [of "replicate 32 0" 0 100] sample_commitment_hash [of "sample_head 0" 1 200]
    by (simp_all add: compute_subepoch_hash_def sample_head_def)
  moreover have "sample_hash (DOMAIN_SMT_ACTIVE @ replicate 32 2) = replicate 31 49 @ [2]"
    "sample_hash (DOMAIN_IMT_FRONTIER @ replicate 32 3) = replicate 31 51 @ [3]"
    by (simp_all add: sample_hash_def DOMAIN_SMT_ACTIVE_def DOMAIN_IMT_FRONTIER_def nth_append)
  moreover have "sc_cumulative_utxo_root (sample_commitment i p t) = replicate 32 2"
    "sc_imt_frontier_root (sample_commitment i p t) = replicate 32 3" for i p t
    by (simp_all add: sample_commitment_def subepoch_commitment_new_def Let_def)
  ultimately show ?thesis
    by (auto simp: ch_inputs_def sample_chain_eq sc_inputs_def inj_on_def)
qed

theorem subepoch_history_agreement_witness:
  "\<exists>d d'. ch_get sample_chain 0 = Some d \<and> ch_get sample_chain 0 = Some d' \<and> sc_content d = sc_content d'"
proof (rule subepoch_history_agreement [where i = 1 and ?blake3.0 = sample_hash])
  show "ch_append sample_hash (ch_epoch_id sample_chain) sample_chain"
    "ch_append sample_hash (ch_epoch_id sample_chain) sample_chain"
    using sample_chain_append by (simp_all add: sample_chain_eq)
  show "inj_on sample_hash (ch_inputs sample_hash sample_chain \<union> ch_inputs sample_hash sample_chain)"
    by (simp add: sample_chain_inputs)
  show "\<forall>x. length (sample_hash x) = 32" by (simp add: sample_hash_def)
  show "ch_get sample_chain 1 = Some (sample_commitment 1 (sample_head 0) 200)"
    "ch_get sample_chain 1 = Some (sample_commitment 1 (sample_head 0) 200)"
    by (simp_all add: sample_chain_eq ch_get_def)
qed simp_all

section \<open>Replacing a finalized commitment\<close>

text \<open>\<open>add_commitment\<close> checks neither that the sub-epoch is still open nor that the newcomer has
  a quorum.  If sub-epochs \<open>i\<close> and \<open>i + 1\<close> are committed, an unsigned commitment for \<open>i\<close> with the right
  predecessor hash and different content is accepted: it replaces the finalized one, the IMT frontier
  of \<open>i\<close> is no longer available, references to it fail with \<open>SubEpochQuorumFailed\<close>, and the stored
  commitment for \<open>i + 1\<close> no longer links to its predecessor.\<close>

theorem finalized_subepoch_replaceable:
  assumes "ch_get ch i = Some c" and "ch_get ch (i + 1) = Some n" and "i + 1 \<noteq> 0"
    and "sc_prev_subepoch_hash n = sc_subepoch_hash c"
    and "sc_subepoch_id c' = i" and "sc_epoch_id c' = ch_epoch_id ch"
    and "sc_subepoch_hash c' = compute_subepoch_hash blake3 c'"
    and "sc_links ch c'" and "sc_validator_sigs c' = []" and "sc_subepoch_hash c' \<noteq> sc_subepoch_hash c"
    and "add_commitment blake3 ch c' = (ch', r)"
  shows "r = Inr () \<and> ch_get ch' i = Some c' \<and> get_imt_frontier_root ch' i = None
    \<and> verify_imt_source ch' i (sc_imt_frontier_root c) (sc_subepoch_hash c) (sc_imt_count c)
        (ch_epoch_id ch) (ch_epoch_id ch) = SubEpochQuorumFailed i
    \<and> (\<exists>n'. ch_get ch' (i + 1) = Some n' \<and> sc_prev_subepoch_hash n' \<noteq> sc_subepoch_hash c')"
proof -
  have "ch_get ch' j = (if j = i then Some c' else ch_get ch j)" for j
    using assms by (intro ch_get_update) (auto simp: add_commitment_eq)
  moreover have "r = Inr ()" using assms by (auto simp: add_commitment_eq)
  ultimately show ?thesis
    using assms by (auto simp: get_imt_frontier_root_def verify_imt_source_def sc_has_quorum_def
        SUBEPOCH_QUORUM_THRESHOLD_def)
qed

definition time_hash :: "bytes \<Rightarrow> bytes" where
  "time_hash x = replicate 31 (of_nat (length x)) @ [x ! 199]"

definition timed_commitment :: "u32 \<Rightarrow> bytes \<Rightarrow> u64 \<Rightarrow> subepoch_commitment" where
  "timed_commitment i prev t = subepoch_commitment_new time_hash 7 i (replicate 32 1) (replicate 32 2)
     (replicate 32 3) (replicate 32 4) prev 10 11 t"

lemma timed_commitment_simps:
  "sc_epoch_id (timed_commitment i p t) = 7" "sc_subepoch_id (timed_commitment i p t) = i"
  "sc_prev_subepoch_hash (timed_commitment i p t) = p" "sc_validator_sigs (timed_commitment i p t) = []"
  "sc_subepoch_hash (timed_commitment i p t) = compute_subepoch_hash time_hash (timed_commitment i p t)"
  by (simp_all add: timed_commitment_def subepoch_commitment_new_def Let_def compute_subepoch_hash_def
      subepoch_preimage_def)

lemma timed_commitment_hash:
  assumes "length p = 32"
  shows "compute_subepoch_hash time_hash (timed_commitment i p t) = replicate 31 207 @ [ucast t]"
proof -
  let ?x = "subepoch_preimage time_hash (timed_commitment i p t)"
  have "length ?x = 207"
    using assms by (simp add: subepoch_preimage_def timed_commitment_def subepoch_commitment_new_def Let_def
        time_hash_def DOMAIN_SUBEPOCH_def)
  moreover have "?x ! 199 = le_bytes 8 t ! 0"
    using assms by (simp add: subepoch_preimage_def timed_commitment_def subepoch_commitment_new_def Let_def
        time_hash_def DOMAIN_SUBEPOCH_def nth_append)
  moreover have "le_bytes 8 t ! 0 = (ucast t :: u8)" by (simp add: le_bytes_def)
  ultimately show ?thesis by (simp add: compute_subepoch_hash_def time_hash_def)
qed

lemma compute_subepoch_hash_sigs [simp]:
  "compute_subepoch_hash blake3 (c\<lparr>sc_validator_sigs := s\<rparr>) = compute_subepoch_hash blake3 c"
  by (simp add: compute_subepoch_hash_def subepoch_preimage_def)

definition timed_final :: subepoch_commitment where
  "timed_final = timed_commitment 0 (replicate 32 0) 100
     \<lparr>sc_validator_sigs := [([1], []), ([2], []), ([3], []), ([4], []), ([5], [])]\<rparr>"

definition timed_chain :: "subepoch_chain" where
  "timed_chain = fst (add_commitment time_hash (fst (add_commitment time_hash (subepoch_chain_new 7) timed_final))
     (timed_commitment 1 (replicate 31 207 @ [100]) 120))"

lemma timed_final_simps:
  "sc_epoch_id timed_final = 7" "sc_subepoch_id timed_final = 0"
  "sc_prev_subepoch_hash timed_final = replicate 32 0"
  "sc_subepoch_hash timed_final = replicate 31 207 @ [100]"
  "compute_subepoch_hash time_hash timed_final = replicate 31 207 @ [100]"
  by (simp_all add: timed_final_def timed_commitment_simps timed_commitment_hash)

lemma timed_chain_eq:
  "timed_chain = \<lparr>ch_commitments = [(0, timed_final), (1, timed_commitment 1 (replicate 31 207 @ [100]) 120)],
     ch_latest_subepoch_id = Some 1, ch_epoch_id = 7\<rparr>"
  by (simp add: timed_chain_def subepoch_chain_new_def add_commitment_eq timed_commitment_simps timed_final_simps
      sc_links_def ch_get_def)

theorem finalized_subepoch_replaceable_witness:
  "snd (add_commitment time_hash timed_chain (timed_commitment 0 (replicate 32 0) 77)) = Inr ()
   \<and> ch_get (fst (add_commitment time_hash timed_chain (timed_commitment 0 (replicate 32 0) 77))) 0
       = Some (timed_commitment 0 (replicate 32 0) 77)
   \<and> get_imt_frontier_root (fst (add_commitment time_hash timed_chain (timed_commitment 0 (replicate 32 0) 77))) 0 = None
   \<and> verify_imt_source (fst (add_commitment time_hash timed_chain (timed_commitment 0 (replicate 32 0) 77))) 0
        (sc_imt_frontier_root timed_final) (sc_subepoch_hash timed_final) (sc_imt_count timed_final)
        (ch_epoch_id timed_chain) (ch_epoch_id timed_chain) = SubEpochQuorumFailed 0
   \<and> (\<exists>n'. ch_get (fst (add_commitment time_hash timed_chain (timed_commitment 0 (replicate 32 0) 77))) (0 + 1) = Some n'
        \<and> sc_prev_subepoch_hash n' \<noteq> sc_subepoch_hash (timed_commitment 0 (replicate 32 0) 77))"
  by (rule finalized_subepoch_replaceable [where ch = timed_chain and c = timed_final
        and n = "timed_commitment 1 (replicate 31 207 @ [100]) 120" and ?blake3.0 = time_hash])
    (simp_all add: timed_chain_eq ch_get_def timed_final_simps timed_commitment_simps timed_commitment_hash
      sc_links_def)

section \<open>Quorums\<close>

text \<open>Signatures collected by \<open>add_validator_sig\<close> carry distinct validator ids.\<close>

definition sig_ids :: "subepoch_commitment \<Rightarrow> bytes list" where
  "sig_ids c = map fst (sc_validator_sigs c)"

lemma add_validator_sig_distinct:
  "distinct (sig_ids c) \<Longrightarrow> distinct (sig_ids (fst (add_validator_sig c node_id sig)))"
  by (auto simp: add_validator_sig_def sig_ids_def Let_def list_ex_iff)

definition collect_sigs :: "subepoch_commitment \<Rightarrow> (bytes \<times> bytes) list \<Rightarrow> subepoch_commitment" where
  "collect_sigs c sigs = foldl (\<lambda>c s. fst (add_validator_sig c (fst s) (snd s))) c sigs"

lemma collect_sigs_distinct: "distinct (sig_ids c) \<Longrightarrow> distinct (sig_ids (collect_sigs c sigs))"
  unfolding collect_sigs_def by (induction sigs arbitrary: c) (simp_all add: add_validator_sig_distinct)

lemma collect_sigs_ids: "set (sig_ids (collect_sigs c sigs)) = set (sig_ids c) \<union> fst ` set sigs"
  unfolding collect_sigs_def
proof (induction sigs arbitrary: c)
  case (Cons s sigs)
  have "set (sig_ids (fst (add_validator_sig c (fst s) (snd s)))) = insert (fst s) (set (sig_ids c))"
    by (auto simp: add_validator_sig_def sig_ids_def Let_def list_ex_iff split_beta
        intro: rev_image_eqI)
  with Cons show ?case by simp
qed simp

text \<open>C18. The 5-of-7 quorum intersects: whatever signatures \<open>add_validator_sig\<close> was offered, repeated
  ones included, a commitment that started without signatures reports a quorum exactly when at least five different validators signed,
  and if two commitments signed by members of a committee of seven both report one, at least three validators
  signed both.\<close>

theorem subepoch_quorum_intersection:
  assumes "sc_validator_sigs c = []" and "sc_validator_sigs d = []"
  shows "(sc_has_quorum (collect_sigs c s) \<longleftrightarrow> 5 \<le> card (fst ` set s))
    \<and> (finite V \<and> card V = 7 \<and> fst ` set s \<subseteq> V \<and> fst ` set r \<subseteq> V
        \<and> sc_has_quorum (collect_sigs c s) \<and> sc_has_quorum (collect_sigs d r) \<longrightarrow> 3 \<le> card (fst ` set s \<inter> fst ` set r))"
proof -
  have q: "sc_has_quorum (collect_sigs c s) \<longleftrightarrow> 5 \<le> card (fst ` set s)" if "sc_validator_sigs c = []" for c s
  proof -
    have "card (set (sig_ids (collect_sigs c s))) = length (sig_ids (collect_sigs c s))"
      using that by (intro distinct_card collect_sigs_distinct) (simp add: sig_ids_def)
    then show ?thesis
      using that collect_sigs_ids [of c s]
      by (simp add: sc_has_quorum_def SUBEPOCH_QUORUM_THRESHOLD_def sig_ids_def)
  qed
  have "card (fst ` set s \<union> fst ` set r) \<le> 7" if "finite V" "card V = 7" "fst ` set s \<subseteq> V" "fst ` set r \<subseteq> V"
    using that by (metis Un_least card_mono)
  moreover have "card (fst ` set s) + card (fst ` set r)
      = card (fst ` set s \<union> fst ` set r) + card (fst ` set s \<inter> fst ` set r)"
    by (rule card_Un_Int) simp_all
  ultimately show ?thesis
    using q [OF assms(1), of s] q [OF assms(2), of r] by auto
qed

definition sample_sigs :: "u8 list \<Rightarrow> (bytes \<times> bytes) list" where
  "sample_sigs ks = map (\<lambda>k. ([k], [])) ks"

theorem subepoch_quorum_intersection_witness:
  "sc_has_quorum (collect_sigs (timed_commitment 0 (replicate 32 0) 100) (sample_sigs [1, 2, 2, 3, 4, 5]))
   \<and> sc_has_quorum (collect_sigs (timed_commitment 0 (replicate 32 0) 101) (sample_sigs [3, 4, 5, 6, 7]))
   \<and> \<not> sc_has_quorum (collect_sigs (timed_commitment 0 (replicate 32 0) 100) (sample_sigs [1, 2, 2, 3, 4, 4]))
   \<and> 3 \<le> card (fst ` set (sample_sigs [1, 2, 2, 3, 4, 5]) \<inter> fst ` set (sample_sigs [3, 4, 5, 6, 7]))"
proof -
  let ?V = "{[1], [2], [3], [4], [5], [6], [7 :: u8]}"
  note quorum = subepoch_quorum_intersection [where V = ?V and c = "timed_commitment 0 (replicate 32 0) t"
      and d = "timed_commitment 0 (replicate 32 0) 101" for t]
  have "sc_has_quorum (collect_sigs (timed_commitment 0 (replicate 32 0) 100) (sample_sigs [1, 2, 2, 3, 4, 5]))
      \<and> (sc_has_quorum (collect_sigs (timed_commitment 0 (replicate 32 0) 101) (sample_sigs [3, 4, 5, 6, 7]))
         \<longrightarrow> 3 \<le> card (fst ` set (sample_sigs [1, 2, 2, 3, 4, 5]) \<inter> fst ` set (sample_sigs [3, 4, 5, 6, 7])))"
    using quorum [of 100 "sample_sigs [1, 2, 2, 3, 4, 5]" "sample_sigs [3, 4, 5, 6, 7]"] by (simp add: sample_sigs_def timed_commitment_simps)
  moreover have "sc_has_quorum (collect_sigs (timed_commitment 0 (replicate 32 0) 101) (sample_sigs [3, 4, 5, 6, 7]))"
    using quorum [of 101 "sample_sigs [3, 4, 5, 6, 7]" "[]"] by (simp add: sample_sigs_def timed_commitment_simps)
  moreover have "\<not> sc_has_quorum (collect_sigs (timed_commitment 0 (replicate 32 0) 100) (sample_sigs [1, 2, 2, 3, 4, 4]))"
    using quorum [of 100 "sample_sigs [1, 2, 2, 3, 4, 4]" "[]"] by (simp add: sample_sigs_def timed_commitment_simps)
  ultimately show ?thesis by blast
qed

section \<open>Frontier references\<close>

text \<open>A transaction's reference to an IMT frontier is valid exactly when the chain holds a quorum
  commitment for that sub-epoch with this hash, frontier and count and the reference names the current
  epoch.\<close>

theorem verify_imt_source_iff:
  "verify_imt_source ch i root h n re ce = Valid \<longleftrightarrow>
      re = ce \<and> get_imt_frontier_root ch i = Some root
      \<and> (\<exists>c. ch_get ch i = Some c \<and> sc_subepoch_hash c = h \<and> sc_imt_count c = n)"
  by (auto simp: verify_imt_source_def get_imt_frontier_root_def split: option.splits if_splits)

text \<open>A DMM-lite commitment, although stored, validates no reference and yields no frontier.\<close>

theorem dmm_lite_not_final:
  assumes "ch_get ch i = Some (dmm_lite_build_commitment blake3 e i r1 r2 r3 r4 p cnt tx t)"
  shows "verify_imt_source ch i root h n re ce = SubEpochQuorumFailed i \<and> get_imt_frontier_root ch i = None
    \<and> \<not> ch_has_quorum ch i"
  using assms
  by (simp add: verify_imt_source_def get_imt_frontier_root_def dmm_lite_build_commitment_def ch_has_quorum_def
      subepoch_commitment_new_def Let_def sc_has_quorum_def SUBEPOCH_QUORUM_THRESHOLD_def)

text \<open>The aggregator is an eligible node of least score, the same for every node that sees the same
  eligible nodes in another order, unless two of them have the same score.\<close>

theorem subepoch_aggregator_agreement:
  assumes "set xs = set ys" and "xs \<noteq> []"
    and "inj_on (\<lambda>id. compute_subepoch_score blake3 id seed) (set xs)"
  shows "\<exists>a\<in>set xs. select_subepoch_aggregator blake3 xs seed = Some a
    \<and> select_subepoch_aggregator blake3 ys seed = Some a
    \<and> (\<forall>b\<in>set xs. compute_subepoch_score blake3 a seed \<le> compute_subepoch_score blake3 b seed)"
proof -
  let ?f = "\<lambda>id. compute_subepoch_score blake3 id seed"
  obtain a where a: "min_by_key ?f xs = Some a" using assms(2) by (cases "min_by_key ?f xs") auto
  obtain b where b: "min_by_key ?f ys = Some b"
    using assms(1,2) by (cases "min_by_key ?f ys") auto
  note ma = min_by_key_Some [OF a] and mb = min_by_key_Some [OF b]
  have "?f a = ?f b" using ma mb assms(1) by (intro order_antisym) auto
  then have "a = b" using inj_onD [OF assms(3)] ma(1) mb(1) assms(1) by blast
  with a b ma show ?thesis by (auto simp: select_subepoch_aggregator_def)
qed

end
