(* ===== verification/Anchor_Limits.thy ===== *)
theory Anchor_Limits
  imports Heartbeat
begin

text \<open>
  Rate limiting of epoch anchors (\<open>core/scalar-network/src/anchor_rate_limit.rs\<close>): rule A-1 (manifest
  membership and the pending-registration pool), rule A-2 (one anchor per node and epoch, one
  transmission per hour) and rule A-3 (the bounded queue).
\<close>

definition MAX_ANCHOR_QUEUE_SIZE :: nat where
  "MAX_ANCHOR_QUEUE_SIZE = 500"

definition ANCHOR_RATE_LIMIT_S :: u64 where
  "ANCHOR_RATE_LIMIT_S = 3600"

definition MAX_PENDING_REGISTRATION :: nat where
  "MAX_PENDING_REGISTRATION = 1000"

datatype ignore_reason = DuplicateThisEpoch | RateLimitTransmission | QueueFull

datatype drop_reason = SpamAnchor | PendingPoolFull

datatype anchor_decision =
    Accept
  | Ignore ignore_reason
  | Drop drop_reason
  | PendingRegistration

record node_epoch_state =
  ne_anchor_count :: u32
  ne_spam_anchor :: bool

definition node_epoch_state_new :: node_epoch_state where
  "node_epoch_state_new = \<lparr>ne_anchor_count = 0, ne_spam_anchor = False\<rparr>"

record node_tx_state =
  nt_last_transmission_s :: "u64 option"

definition node_tx_state_new :: node_tx_state where
  "node_tx_state_new = \<lparr>nt_last_transmission_s = None\<rparr>"

record anchor_queue_entry =
  aq_node_id_short :: bytes
  aq_node_id_full :: bytes
  aq_received_at_s :: u64
  aq_epoch_id :: u64

section \<open>Pending registrations\<close>

record pending_pool =
  pp_queue :: "bytes list"
  pp_pending :: "(bytes \<times> u64) list"

definition pending_pool_new :: pending_pool where
  "pending_pool_new = \<lparr>pp_queue = [], pp_pending = []\<rparr>"

definition pp_contains :: "pending_pool \<Rightarrow> bytes \<Rightarrow> bool" where
  "pp_contains p node_id_full \<longleftrightarrow> map_of (pp_pending p) node_id_full \<noteq> None"

definition pp_add :: "pending_pool \<Rightarrow> bytes \<Rightarrow> u64 \<Rightarrow> pending_pool \<times> bool" where
  "pp_add p node_id_full epoch_id =
     (if pp_contains p node_id_full then (p, False)
      else
        let p = (if length (pp_queue p) \<ge> MAX_PENDING_REGISTRATION
                 then (case pp_queue p of
                         [] \<Rightarrow> p
                       | oldest # rest \<Rightarrow>
                           p\<lparr>pp_queue := rest, pp_pending := AList.delete oldest (pp_pending p)\<rparr>)
                 else p)
        in (p\<lparr>pp_queue := pp_queue p @ [node_id_full],
              pp_pending := AList.update node_id_full epoch_id (pp_pending p)\<rparr>, True))"

definition pp_drain_epoch ::
  "((bytes \<times> u64) list \<Rightarrow> (bytes \<times> u64) list) \<Rightarrow> pending_pool \<Rightarrow> u64 \<Rightarrow> pending_pool \<times> bytes list" where
  "pp_drain_epoch iter p epoch_id =
     (let drained = map fst (filter (\<lambda>(_, e). e = epoch_id) (iter (pp_pending p)))
      in (fold (\<lambda>id p. p\<lparr>pp_pending := AList.delete id (pp_pending p),
                          pp_queue := filter (\<lambda>q. q \<noteq> id) (pp_queue p)\<rparr>) drained p, drained))"

definition pp_len :: "pending_pool \<Rightarrow> nat" where
  "pp_len p = length (pp_queue p)"

definition pp_is_empty :: "pending_pool \<Rightarrow> bool" where
  "pp_is_empty p \<longleftrightarrow> pp_queue p = []"

section \<open>The limiter\<close>

record anchor_limiter =
  al_current_epoch :: u64
  al_node_epoch :: "(bytes \<times> node_epoch_state) list"
  al_node_tx :: "(bytes \<times> node_tx_state) list"
  al_manifest_nodes :: "bytes set"
  al_anchor_queue :: "anchor_queue_entry list"
  al_pending_registration :: pending_pool

definition anchor_limiter_new :: "u64 \<Rightarrow> anchor_limiter" where
  "anchor_limiter_new initial_epoch =
     \<lparr>al_current_epoch = initial_epoch, al_node_epoch = [], al_node_tx = [], al_manifest_nodes = {},
      al_anchor_queue = [], al_pending_registration = pending_pool_new\<rparr>"

definition update_manifest :: "anchor_limiter \<Rightarrow> bytes list \<Rightarrow> anchor_limiter" where
  "update_manifest a manifest_node_ids = a\<lparr>al_manifest_nodes := set manifest_node_ids\<rparr>"

definition advance_epoch :: "anchor_limiter \<Rightarrow> u64 \<Rightarrow> anchor_limiter" where
  "advance_epoch a new_epoch =
     a\<lparr>al_current_epoch := new_epoch, al_node_epoch := [], al_anchor_queue := []\<rparr>"

definition is_in_manifest :: "anchor_limiter \<Rightarrow> bytes \<Rightarrow> bool" where
  "is_in_manifest a node_id_full \<longleftrightarrow> node_id_full \<in> al_manifest_nodes a"

definition check_a2 :: "anchor_limiter \<Rightarrow> bytes \<Rightarrow> u64 \<Rightarrow> anchor_limiter \<times> anchor_decision option" where
  "check_a2 a node_id_full now_s =
     (let es = unwrap_or (map_of (al_node_epoch a) node_id_full) node_epoch_state_new;
          a = a\<lparr>al_node_epoch := AList.update node_id_full es (al_node_epoch a)\<rparr>
      in if ne_spam_anchor es then (a, Some (Drop SpamAnchor))
         else if ne_anchor_count es \<ge> 1
         then (a\<lparr>al_node_epoch := AList.update node_id_full (es\<lparr>ne_spam_anchor := True\<rparr>) (al_node_epoch a)\<rparr>,
               Some (Ignore DuplicateThisEpoch))
         else
           let tx = unwrap_or (map_of (al_node_tx a) node_id_full) node_tx_state_new;
               a = a\<lparr>al_node_tx := AList.update node_id_full tx (al_node_tx a)\<rparr>;
               limited = (case nt_last_transmission_s tx of
                   None \<Rightarrow> False
                 | Some last_tx \<Rightarrow> saturating_sub now_s last_tx < ANCHOR_RATE_LIMIT_S)
           in if limited then (a, Some (Ignore RateLimitTransmission))
              else (a\<lparr>al_node_epoch := AList.update node_id_full
                        (es\<lparr>ne_anchor_count := ne_anchor_count es + 1\<rparr>) (al_node_epoch a),
                      al_node_tx := AList.update node_id_full
                        (tx\<lparr>nt_last_transmission_s := Some now_s\<rparr>) (al_node_tx a)\<rparr>, None))"

definition check_a3 :: "anchor_limiter \<Rightarrow> anchor_queue_entry \<Rightarrow> anchor_limiter \<times> anchor_decision" where
  "check_a3 a entry =
     (if length (al_anchor_queue a) < MAX_ANCHOR_QUEUE_SIZE
      then (a\<lparr>al_anchor_queue := al_anchor_queue a @ [entry]\<rparr>, Accept)
      else (a, Ignore QueueFull))"

definition process_anchor :: "anchor_limiter \<Rightarrow> bytes \<Rightarrow> bytes \<Rightarrow> u64 \<Rightarrow> anchor_limiter \<times> anchor_decision" where
  "process_anchor a node_id_full node_id_short now_s =
     (if \<not> is_in_manifest a node_id_full
      then
        let (p, added) = pp_add (al_pending_registration a) node_id_full (al_current_epoch a);
            a = a\<lparr>al_pending_registration := p\<rparr>
        in if added then (a, PendingRegistration) else (a, Ignore DuplicateThisEpoch)
      else
        case check_a2 a node_id_full now_s of
          (a, Some decision) \<Rightarrow> (a, decision)
        | (a, None) \<Rightarrow>
            check_a3 a \<lparr>aq_node_id_short = node_id_short, aq_node_id_full = node_id_full,
                        aq_received_at_s = now_s, aq_epoch_id = al_current_epoch a\<rparr>)"

definition dequeue :: "anchor_limiter \<Rightarrow> anchor_limiter \<times> anchor_queue_entry option" where
  "dequeue a = (case al_anchor_queue a of
       [] \<Rightarrow> (a, None)
     | e # rest \<Rightarrow> (a\<lparr>al_anchor_queue := rest\<rparr>, Some e))"

definition queue_len :: "anchor_limiter \<Rightarrow> nat" where
  "queue_len a = length (al_anchor_queue a)"

definition pending_count :: "anchor_limiter \<Rightarrow> nat" where
  "pending_count a = pp_len (al_pending_registration a)"

section \<open>Runs\<close>

datatype anchor_op =
    ProcessAnchor bytes bytes u64
  | UpdateManifest "bytes list"
  | is_AdvanceEpoch: AdvanceEpoch u64
  | Dequeue

fun anchor_step :: "anchor_limiter \<Rightarrow> anchor_op \<Rightarrow> anchor_limiter \<times> anchor_decision option" where
  "anchor_step a (ProcessAnchor full short now) = map_prod id Some (process_anchor a full short now)"
| "anchor_step a (UpdateManifest ids) = (update_manifest a ids, None)"
| "anchor_step a (AdvanceEpoch e) = (advance_epoch a e, None)"
| "anchor_step a Dequeue = (fst (dequeue a), None)"

text \<open>An anchor counts against its node when it passes rule A-2, whatever rule A-3 then says.\<close>

definition counted :: "anchor_decision \<Rightarrow> bool" where
  "counted d \<longleftrightarrow> d = Accept \<or> d = Ignore QueueFull"

definition anchor_last :: "anchor_limiter \<Rightarrow> bytes \<Rightarrow> u64 option" where
  "anchor_last a n = Option.bind (map_of (al_node_tx a) n) nt_last_transmission_s"

definition anchor_seen :: "anchor_limiter \<Rightarrow> bytes \<Rightarrow> bool" where
  "anchor_seen a n \<longleftrightarrow> (\<exists>es. map_of (al_node_epoch a) n = Some es \<and> (ne_spam_anchor es \<or> ne_anchor_count es \<ge> 1))"

definition hour_apart :: "u64 \<Rightarrow> u64 \<Rightarrow> bool" where
  "hour_apart a b \<longleftrightarrow> unat a + 3600 \<le> unat b"

lemma hour_apart_iff: "hour_apart a b \<longleftrightarrow> \<not> saturating_sub b a < ANCHOR_RATE_LIMIT_S"
  by (auto simp: hour_apart_def ANCHOR_RATE_LIMIT_S_def word_less_nat_alt unat_saturating_sub)

lemma word_nonzero_ge_1: "\<not> 1 \<le> (w :: 'a::len word) \<Longrightarrow> w = 0"
  by (metis not_less word_less_1)

text \<open>Rule A-2 in one equation.\<close>

lemma check_a2_eq:
  "snd (check_a2 a n now) = None \<longleftrightarrow>
     \<not> anchor_seen a n \<and> (\<forall>last. anchor_last a n = Some last \<longrightarrow> hour_apart last now)"
  by (cases "map_of (al_node_epoch a) n"; cases "map_of (al_node_tx a) n")
    (auto simp: check_a2_def anchor_seen_def anchor_last_def hour_apart_iff Let_def node_epoch_state_new_def
      node_tx_state_new_def split: option.splits if_splits)

lemma check_a2_passed:
  assumes "check_a2 a n now = (a', None)"
  shows "anchor_seen a' n" and "anchor_last a' n = Some now"
  using assms
  by (auto simp: check_a2_def anchor_seen_def anchor_last_def Let_def dest!: word_nonzero_ge_1
      split: option.splits if_splits)

lemma check_a2_refused:
  assumes "check_a2 a n now = (a', Some d)"
  shows "anchor_last a' n = anchor_last a n" and "anchor_seen a n \<Longrightarrow> anchor_seen a' n" and "\<not> counted d"
  using assms
  by (cases "map_of (al_node_tx a) n"; auto simp: check_a2_def anchor_seen_def anchor_last_def Let_def
      node_tx_state_new_def counted_def split: option.splits if_splits)+

lemma check_a2_frame:
  assumes "check_a2 a n now = (a', r)"
  shows "k \<noteq> n \<Longrightarrow> anchor_last a' k = anchor_last a k" and "k \<noteq> n \<Longrightarrow> anchor_seen a' k = anchor_seen a k"
    and "al_anchor_queue a' = al_anchor_queue a" and "al_current_epoch a' = al_current_epoch a"
    and "al_pending_registration a' = al_pending_registration a" and "al_manifest_nodes a' = al_manifest_nodes a"
  using assms
  by (auto simp: check_a2_def anchor_seen_def anchor_last_def Let_def map_of_update_neq split: if_splits)

text \<open>What one anchor does to the two per-node records.\<close>

lemma check_a3_simps [simp]:
  "counted (snd (check_a3 a e))" "anchor_last (fst (check_a3 a e)) = anchor_last a"
  "anchor_seen (fst (check_a3 a e)) = anchor_seen a"
  by (auto simp: check_a3_def counted_def anchor_last_def [abs_def] anchor_seen_def [abs_def])

lemma process_anchor_last:
  assumes "process_anchor a n short now = (a', d)"
  shows "anchor_last a' k = (if k = n \<and> counted d then Some now else anchor_last a k)"
    and "anchor_seen a k \<Longrightarrow> anchor_seen a' k"
    and "counted d \<Longrightarrow> anchor_seen a' n \<and> \<not> anchor_seen a n
           \<and> (\<forall>last. anchor_last a n = Some last \<longrightarrow> hour_apart last now)"
proof (atomize (full), cases "is_in_manifest a n")
  case False
  then have "\<not> counted d" "al_node_tx a' = al_node_tx a" "al_node_epoch a' = al_node_epoch a"
    using assms by (auto simp: process_anchor_def counted_def Let_def split: prod.splits if_splits)
  then show "anchor_last a' k = (if k = n \<and> counted d then Some now else anchor_last a k)
    \<and> (anchor_seen a k \<longrightarrow> anchor_seen a' k)
    \<and> (counted d \<longrightarrow> anchor_seen a' n \<and> \<not> anchor_seen a n
        \<and> (\<forall>last. anchor_last a n = Some last \<longrightarrow> hour_apart last now))"
    by (simp add: anchor_last_def anchor_seen_def)
next
  case True
  obtain b r where b: "check_a2 a n now = (b, r)" by fastforce
  show "anchor_last a' k = (if k = n \<and> counted d then Some now else anchor_last a k)
    \<and> (anchor_seen a k \<longrightarrow> anchor_seen a' k)
    \<and> (counted d \<longrightarrow> anchor_seen a' n \<and> \<not> anchor_seen a n
        \<and> (\<forall>last. anchor_last a n = Some last \<longrightarrow> hour_apart last now))"
  proof (cases r)
    case None
    let ?e = "\<lparr>aq_node_id_short = short, aq_node_id_full = n, aq_received_at_s = now, aq_epoch_id = al_current_epoch b\<rparr>"
    have "(a', d) = check_a3 b ?e" using True b None assms by (simp add: process_anchor_def)
    then have "counted d" "anchor_last a' = anchor_last b" "anchor_seen a' = anchor_seen b"
      by (metis check_a3_simps fst_conv snd_conv)+
    then show ?thesis
      using check_a2_eq [of a n now] check_a2_passed [of a n now b] check_a2_frame(1,2) [OF b, of k] b None
      by auto
  next
    case (Some x)
    then have "a' = b" "d = x" using True b assms by (simp_all add: process_anchor_def)
    then show ?thesis
      using check_a2_refused [of a n now b x] check_a2_frame(1,2) [OF b, of k] b Some by auto
  qed
qed

definition anchor_gate :: "anchor_limiter \<Rightarrow> anchor_op \<Rightarrow> anchor_limiter \<times> bool" where
  "anchor_gate a op = (let (a', d) = anchor_step a op in (a', case d of None \<Rightarrow> False | Some x \<Rightarrow> counted x))"

definition op_node :: "anchor_op \<Rightarrow> bytes" where
  "op_node op = (case op of ProcessAnchor full _ _ \<Rightarrow> full | _ \<Rightarrow> [])"

definition op_time :: "anchor_op \<Rightarrow> u64" where
  "op_time op = (case op of ProcessAnchor _ _ now \<Rightarrow> now | _ \<Rightarrow> 0)"

lemma anchor_gate_process:
  "anchor_gate a (ProcessAnchor n short now) = (fst (process_anchor a n short now), counted (snd (process_anchor a n short now)))"
  by (simp add: anchor_gate_def map_prod_def split_beta)

lemma anchor_gate_other:
  assumes "\<And>n s t. op \<noteq> ProcessAnchor n s t" and "anchor_gate a op = (a', b)"
  shows "\<not> b" and "anchor_last a' = anchor_last a"
    and "(\<And>e. op \<noteq> AdvanceEpoch e) \<Longrightarrow> anchor_seen a' = anchor_seen a"
  using assms
  by (cases op; auto simp: anchor_gate_def update_manifest_def advance_epoch_def dequeue_def
      anchor_last_def [abs_def] anchor_seen_def [abs_def] split: list.splits)+

lemma anchor_gate_last:
  assumes "anchor_gate a op = (a', b)"
  shows "anchor_last a' k = (if b \<and> k = op_node op then Some (op_time op) else anchor_last a k)"
    and "b \<Longrightarrow> anchor_last a (op_node op) = Some u \<Longrightarrow> hour_apart u (op_time op)"
proof (atomize (full), cases op)
  case (ProcessAnchor n s now)
  obtain a2 d where p: "process_anchor a n s now = (a2, d)" by fastforce
  then have "a' = a2" "b = counted d" using assms ProcessAnchor by (simp_all add: anchor_gate_process)
  then show "anchor_last a' k = (if b \<and> k = op_node op then Some (op_time op) else anchor_last a k)
      \<and> (b \<longrightarrow> anchor_last a (op_node op) = Some u \<longrightarrow> hour_apart u (op_time op))"
    using process_anchor_last(1,3) [OF p] ProcessAnchor by (simp add: op_node_def op_time_def)
qed (use anchor_gate_other(1,2) [OF _ assms] in simp_all)

interpretation al: node_gate anchor_last anchor_gate op_node op_time hour_apart "\<lambda>_ _. True"
  by unfold_locales (simp_all add: anchor_gate_last)

lemma anchor_gate_seen:
  assumes "anchor_gate a op = (a', b)"
  shows "anchor_seen a n \<Longrightarrow> \<not> is_AdvanceEpoch op \<Longrightarrow> anchor_seen a' n"
    and "b \<Longrightarrow> \<not> is_AdvanceEpoch op \<and> anchor_seen a' (op_node op) \<and> \<not> anchor_seen a (op_node op)"
proof (atomize (full), cases op)
  case (ProcessAnchor m s now)
  obtain a2 d where p: "process_anchor a m s now = (a2, d)" by fastforce
  then have "a' = a2" "b = counted d" using assms ProcessAnchor by (simp_all add: anchor_gate_process)
  then show "(anchor_seen a n \<longrightarrow> \<not> is_AdvanceEpoch op \<longrightarrow> anchor_seen a' n)
      \<and> (b \<longrightarrow> \<not> is_AdvanceEpoch op \<and> anchor_seen a' (op_node op) \<and> \<not> anchor_seen a (op_node op))"
    using process_anchor_last(2,3) [OF p] ProcessAnchor by (simp add: op_node_def)
qed (use anchor_gate_other(1,3) [OF _ assms] in simp_all)

lemma accepted_per_epoch:
  "length (accepted_vals anchor_gate op_node op_time n a ops)
     \<le> (if anchor_seen a n then 0 else 1) + length (filter is_AdvanceEpoch ops)"
proof (induction ops arbitrary: a)
  case (Cons op ops)
  obtain a' b where g: "anchor_gate a op = (a', b)" by fastforce
  have "accepted_vals anchor_gate op_node op_time n a (op # ops)
      = (if b \<and> op_node op = n then [op_time op] else []) @ accepted_vals anchor_gate op_node op_time n a' ops"
    using g by (simp add: accepted_vals_def split_beta)
  then show ?case
    using Cons [of a'] anchor_gate_seen [OF g] by (auto split: if_splits)
qed (simp add: accepted_vals_def)

text \<open>Whatever the limiter is asked in between, manifest updates and epoch changes included, two
  anchors of one node that pass rule A-2 one after the other are at least an hour apart, and over any
  run a node passes at most once per epoch: at most one more time than there are epoch changes.\<close>

theorem anchor_rate_limited:
  "successively (\<lambda>s t. unat s + 3600 \<le> unat t) (accepted_vals anchor_gate op_node op_time n a ops)
   \<and> length (accepted_vals anchor_gate op_node op_time n a ops) \<le> Suc (length (filter is_AdvanceEpoch ops))"
  using al.accepted_chain [of ops n a] accepted_per_epoch [of n a ops]
  by (simp add: hour_apart_def [abs_def] split: if_splits)

section \<open>Bounds and consistency of the queues\<close>

definition pp_wf :: "pending_pool \<Rightarrow> bool" where
  "pp_wf p \<longleftrightarrow> distinct (pp_queue p) \<and> set (pp_queue p) = fst ` set (pp_pending p)
     \<and> unique_keys (pp_pending p) \<and> length (pp_queue p) \<le> MAX_PENDING_REGISTRATION"

lemma pp_wf_add:
  assumes "pp_wf p"
  shows "pp_wf (fst (pp_add p n e))"
proof (cases "pp_contains p n")
  case False
  then have "n \<notin> set (pp_queue p)"
    using assms by (auto simp: pp_wf_def pp_contains_def map_of_eq_None_iff)
  moreover have "unique_keys [(n, e)]" by (simp add: unique_keys_def)
  ultimately show ?thesis
    using False assms by (cases "pp_queue p")
      (auto simp: pp_wf_def pp_add_def Let_def MAX_PENDING_REGISTRATION_def)
qed (use assms in \<open>simp add: pp_add_def\<close>)

lemma pp_wf_drain: "pp_wf p \<Longrightarrow> pp_wf (fst (pp_drain_epoch iter p e))"
proof -
  have step: "pp_wf (p\<lparr>pp_pending := AList.delete id (pp_pending p), pp_queue := filter (\<lambda>q. q \<noteq> id) (pp_queue p)\<rparr>)"
    if "pp_wf p" for p id
    using that by (auto simp: pp_wf_def intro: order_trans [OF length_filter_le])
  have "pp_wf (fold (\<lambda>id p. p\<lparr>pp_pending := AList.delete id (pp_pending p),
      pp_queue := filter (\<lambda>q. q \<noteq> id) (pp_queue p)\<rparr>) ids p)" if "pp_wf p" for ids
    using that by (induction ids arbitrary: p) (simp_all add: step)
  then show "pp_wf p \<Longrightarrow> ?thesis" by (simp add: pp_drain_epoch_def Let_def)
qed

definition al_wf :: "anchor_limiter \<Rightarrow> bool" where
  "al_wf a \<longleftrightarrow> pp_wf (al_pending_registration a)
     \<and> length (al_anchor_queue a) \<le> MAX_ANCHOR_QUEUE_SIZE
     \<and> distinct (map aq_node_id_full (al_anchor_queue a))
     \<and> (\<forall>e\<in>set (al_anchor_queue a). aq_epoch_id e = al_current_epoch a \<and> anchor_seen a (aq_node_id_full e))"

lemma al_wf_process:
  assumes "al_wf a"
  shows "al_wf (fst (process_anchor a n short now))"
proof (cases "is_in_manifest a n")
  case False
  then show ?thesis
    using assms pp_wf_add [of "al_pending_registration a" n "al_current_epoch a"]
    by (auto simp: process_anchor_def al_wf_def anchor_seen_def Let_def split_beta)
next
  case True
  obtain b r where b: "check_a2 a n now = (b, r)" by fastforce
  note frame = check_a2_frame [OF b]
  have seen: "anchor_seen a k \<Longrightarrow> anchor_seen b k" for k
    using check_a2_refused(2) check_a2_passed(1) frame(2) b by (cases "k = n"; cases r) auto
  have b_wf: "al_wf b" using assms frame(3-5) seen by (simp add: al_wf_def)
  show ?thesis
  proof (cases r)
    case None
    then have "\<not> anchor_seen a n" "anchor_seen b n"
      using check_a2_eq [of a n now] check_a2_passed(1) b by simp_all
    then have "n \<notin> aq_node_id_full ` set (al_anchor_queue b)"
      using assms frame(3) by (auto simp: al_wf_def)
    then show ?thesis
      using True None b b_wf \<open>anchor_seen b n\<close>
      by (auto simp: process_anchor_def check_a3_def al_wf_def anchor_seen_def)
  next
    case (Some x)
    then show ?thesis using True b b_wf by (simp add: process_anchor_def)
  qed
qed

lemma al_wf_step: "al_wf a \<Longrightarrow> al_wf (fst (anchor_step a op))"
proof (cases op)
  case (ProcessAnchor n s now)
  then show "al_wf a \<Longrightarrow> ?thesis" using al_wf_process [of a n s now] by (simp add: map_prod_def split_beta)
qed (auto simp: al_wf_def update_manifest_def advance_epoch_def dequeue_def anchor_seen_def split: list.splits)

text \<open>C35. In every state the limiter can reach the queue holds at most 500 anchors, all of the current
  epoch and of different nodes, and the pending pool holds at most 1000 nodes, each once, with its
  first-in-first-out queue and its index in step.\<close>

theorem anchor_limiter_bounds:
  "let a = fold (\<lambda>op a. fst (anchor_step a op)) ops (anchor_limiter_new e) in
     queue_len a \<le> 500 \<and> distinct (map aq_node_id_full (al_anchor_queue a))
     \<and> list_all (\<lambda>q. aq_epoch_id q = al_current_epoch a) (al_anchor_queue a)
     \<and> pending_count a \<le> 1000 \<and> distinct (pp_queue (al_pending_registration a))
     \<and> set (pp_queue (al_pending_registration a)) = fst ` set (pp_pending (al_pending_registration a))"
proof -
  have "al_wf a \<Longrightarrow> al_wf (fold (\<lambda>op a. fst (anchor_step a op)) ops a)" for a ops
    by (induction ops arbitrary: a) (simp_all add: al_wf_step)
  moreover have "al_wf (anchor_limiter_new e)"
    by (simp add: al_wf_def pp_wf_def anchor_limiter_new_def pending_pool_new_def)
  ultimately have "al_wf (fold (\<lambda>op a. fst (anchor_step a op)) ops (anchor_limiter_new e))" by blast
  then show ?thesis
    by (auto simp: al_wf_def pp_wf_def queue_len_def pending_count_def pp_len_def MAX_ANCHOR_QUEUE_SIZE_def
        MAX_PENDING_REGISTRATION_def list_all_iff Let_def)
qed

text \<open>Rule A-2 books an anchor before rule A-3 looks at the queue.  A node whose only anchor of the
  epoch meets a full queue is told \<open>QueueFull\<close>, which is not an offence; yet its next attempt in the
  same epoch, at any time and with room in the queue, is treated as a duplicate and the one after
  that as spam.\<close>

theorem queue_full_burns_anchor:
  assumes "is_in_manifest a n" and "map_of (al_node_epoch a) n = None" and "anchor_last a n = None"
    and "queue_len a = 500"
    and "process_anchor a n short t0 = (a0, d0)" and "dequeue a0 = (a1, q)"
    and "process_anchor a1 n short t1 = (a2, d1)" and "process_anchor a2 n short t2 = (a3, d2)"
  shows "d0 = Ignore QueueFull \<and> queue_len a1 = 499 \<and> d1 = Ignore DuplicateThisEpoch \<and> d2 = Drop SpamAnchor"
proof -
  obtain b where b: "check_a2 a n t0 = (b, None)"
    using check_a2_eq [of a n t0] assms(2,3) by (cases "check_a2 a n t0") (auto simp: anchor_seen_def)
  have es: "map_of (al_node_epoch b) n = Some \<lparr>ne_anchor_count = 1, ne_spam_anchor = False\<rparr>"
    using b assms(2) by (auto simp: check_a2_def node_epoch_state_new_def Let_def split: if_splits)
  have q: "al_anchor_queue b = al_anchor_queue a" "al_manifest_nodes b = al_manifest_nodes a"
    using check_a2_frame(3,6) [OF b] by simp_all
  have 0: "a0 = b" "d0 = Ignore QueueFull"
    using assms(1,4,5) b q by (simp_all add: process_anchor_def check_a3_def queue_len_def MAX_ANCHOR_QUEUE_SIZE_def)
  have 1: "queue_len a1 = 499" "al_node_epoch a1 = al_node_epoch b" "is_in_manifest a1 n"
    using assms(1,4,6) 0 q by (auto simp: dequeue_def queue_len_def is_in_manifest_def split: list.splits)
  have 2: "d1 = Ignore DuplicateThisEpoch" "is_in_manifest a2 n"
    "map_of (al_node_epoch a2) n = Some \<lparr>ne_anchor_count = 1, ne_spam_anchor = True\<rparr>"
    using assms(7) 1 es by (auto simp: process_anchor_def check_a2_def Let_def is_in_manifest_def)
  have "d2 = Drop SpamAnchor" using assms(8) 2 by (auto simp: process_anchor_def check_a2_def Let_def)
  with 0 1 2 show ?thesis by simp
qed

definition full_limiter :: anchor_limiter where
  "full_limiter = (anchor_limiter_new 3)\<lparr>al_manifest_nodes := {[9]},
     al_anchor_queue := map (\<lambda>i. \<lparr>aq_node_id_short = [], aq_node_id_full = le_bytes 4 (of_nat i :: u32),
       aq_received_at_s = 0, aq_epoch_id = 3\<rparr>) [0..<500]\<rparr>"

theorem queue_full_burns_anchor_witness:
  "snd (process_anchor full_limiter [9] [] 10) = Ignore QueueFull
   \<and> queue_len (fst (dequeue (fst (process_anchor full_limiter [9] [] 10)))) = 499
   \<and> snd (process_anchor (fst (dequeue (fst (process_anchor full_limiter [9] [] 10)))) [9] [] 90000) = Ignore DuplicateThisEpoch
   \<and> snd (process_anchor (fst (process_anchor (fst (dequeue (fst (process_anchor full_limiter [9] [] 10)))) [9] [] 90000))
       [9] [] 180000) = Drop SpamAnchor"
  by (rule queue_full_burns_anchor [OF _ _ _ _ prod.collapse [symmetric] prod.collapse [symmetric]
        prod.collapse [symmetric] prod.collapse [symmetric]])
    (simp_all add: full_limiter_def anchor_limiter_new_def is_in_manifest_def anchor_last_def queue_len_def)

end
