(* ===== verification/Micro_Commit.thy ===== *)
theory Micro_Commit
  imports Subepoch Ordering
begin

text \<open>
  Micro-commitments (\<open>core/scalar-network/src/micro_commit.rs\<close>): the signed payload and its quorum, the data
  availability hash, the Merkle tree over transaction ordering keys with its inclusion proofs, the
  trigger and the assembly, which uses the ordering keys of \<open>Ordering\<close> and the aggregator choice of
  \<open>Subepoch\<close>.  BLAKE3 is the parameter \<open>blake3\<close>; the SLH-DSA verifier (\<open>verify_signature\<close>, third-party) is
  the parameter \<open>verify_signature\<close>, with \<open>None\<close> for its error result.
\<close>

definition MICROCOMMITMENT_TRIGGER_TX :: nat where
  "MICROCOMMITMENT_TRIGGER_TX = 41"

definition MICROCOMMITMENT_TIMEOUT_S :: u64 where
  "MICROCOMMITMENT_TIMEOUT_S = 60"

definition QUORUM_THRESHOLD_NUM :: nat where
  "QUORUM_THRESHOLD_NUM = 5"

definition MICROCOMMITMENT_SIGN_DOMAIN :: bytes where
  "MICROCOMMITMENT_SIGN_DOMAIN = ascii ''scalar.microcommitment.sign''"

definition MC_MERKLE_LEAF_DOMAIN :: bytes where
  "MC_MERKLE_LEAF_DOMAIN = ascii ''scalar.mc.merkle.leaf''"

definition MC_MERKLE_NODE_DOMAIN :: bytes where
  "MC_MERKLE_NODE_DOMAIN = ascii ''scalar.mc.merkle.node''"

definition MC_MERKLE_EMPTY_DOMAIN :: bytes where
  "MC_MERKLE_EMPTY_DOMAIN = ascii ''scalar.mc.merkle.empty''"

definition MC_DA_DOMAIN :: bytes where
  "MC_DA_DOMAIN = ascii ''scalar.mc.da''"

datatype finality_level = FinalityNone | Optimistic | StarkFinal

section \<open>The ordering tree\<close>

definition mc_leaf_msg :: "bytes \<Rightarrow> bytes" where
  "mc_leaf_msg key = MC_MERKLE_LEAF_DOMAIN @ key"

definition mc_node_msg :: "bytes \<Rightarrow> bytes \<Rightarrow> bytes" where
  "mc_node_msg left right = MC_MERKLE_NODE_DOMAIN @ left @ right"

definition merkle_leaf :: "(bytes \<Rightarrow> bytes) \<Rightarrow> bytes \<Rightarrow> bytes" where
  "merkle_leaf blake3 key = blake3 (mc_leaf_msg key)"

definition merkle_node :: "(bytes \<Rightarrow> bytes) \<Rightarrow> bytes \<Rightarrow> bytes \<Rightarrow> bytes" where
  "merkle_node blake3 left right = blake3 (mc_node_msg left right)"

definition merkle_empty :: "(bytes \<Rightarrow> bytes) \<Rightarrow> bytes" where
  "merkle_empty blake3 = blake3 MC_MERKLE_EMPTY_DOMAIN"

text \<open>One pass of the inner loop: pairs, the last node duplicated on an odd level.\<close>

fun mc_next_level :: "('x \<Rightarrow> 'x \<Rightarrow> 'y) \<Rightarrow> 'x list \<Rightarrow> 'y list" where
  "mc_next_level node [] = []"
| "mc_next_level node [x] = [node x x]"
| "mc_next_level node (x # y # rest) = node x y # mc_next_level node rest"

lemma length_mc_next_level [simp]: "length (mc_next_level node xs) = (length xs + 1) div 2"
  by (induction node xs rule: mc_next_level.induct) simp_all

function mc_reduce :: "('x \<Rightarrow> 'x \<Rightarrow> 'x) \<Rightarrow> 'x list \<Rightarrow> 'x" where
  "mc_reduce node level = (if length level > 1 then mc_reduce node (mc_next_level node level) else level ! 0)"
  by pat_completeness auto

termination mc_reduce
  by (relation "measure (\<lambda>(_, level). length level)") auto

declare mc_reduce.simps [simp del]

definition compute_tx_merkle_root :: "(bytes \<Rightarrow> bytes) \<Rightarrow> bytes list \<Rightarrow> bytes" where
  "compute_tx_merkle_root blake3 ordering_keys =
     (if ordering_keys = [] then merkle_empty blake3
      else mc_reduce (merkle_node blake3) (map (merkle_leaf blake3) ordering_keys))"

type_synonym mc_merkle_proof = "(bytes \<times> bool) list"

function mc_siblings :: "('x \<Rightarrow> 'x \<Rightarrow> 'x) \<Rightarrow> 'x list \<Rightarrow> nat \<Rightarrow> ('x \<times> bool) list" where
  "mc_siblings node level idx =
     (if length level > 1 then
        (let (sibling_idx, is_right) =
           (if idx mod 2 = 0 then (if idx + 1 < length level then idx + 1 else idx, True) else (idx - 1, False))
         in (level ! sibling_idx, is_right) # mc_siblings node (mc_next_level node level) (idx div 2))
      else [])"
  by pat_completeness auto

termination mc_siblings
  by (relation "measure (\<lambda>(_, level, _). length level)") auto

declare mc_siblings.simps [simp del]

definition merkle_proof :: "(bytes \<Rightarrow> bytes) \<Rightarrow> bytes list \<Rightarrow> nat \<Rightarrow> mc_merkle_proof option" where
  "merkle_proof blake3 ordering_keys index =
     (if index \<ge> length ordering_keys then None
      else Some (mc_siblings (merkle_node blake3) (map (merkle_leaf blake3) ordering_keys) index))"

definition mc_climb :: "('x \<Rightarrow> 'x \<Rightarrow> 'x) \<Rightarrow> ('x \<times> bool) list \<Rightarrow> 'x \<Rightarrow> 'x" where
  "mc_climb node siblings acc =
     foldl (\<lambda>acc (sib, is_right). if is_right then node acc sib else node sib acc) acc siblings"

definition verify_ordering_key_inclusion :: "(bytes \<Rightarrow> bytes) \<Rightarrow> bytes \<Rightarrow> bytes \<Rightarrow> mc_merkle_proof \<Rightarrow> bool" where
  "verify_ordering_key_inclusion blake3 root ordering_key proof =
     (mc_climb (merkle_node blake3) proof (merkle_leaf blake3 ordering_key) = root)"

section \<open>Commitments and their quorum\<close>

record micro_commitment =
  mc_subepoch_id :: u64
  mc_sequence_id :: u32
  mc_tx_merkle_root :: bytes
  mc_da_commitment :: bytes
  mc_aggregator_id :: bytes
  mc_quorum_signatures :: "(bytes \<times> bytes) list"

definition micro_commitment_new :: "u64 \<Rightarrow> u32 \<Rightarrow> bytes \<Rightarrow> bytes \<Rightarrow> bytes \<Rightarrow> micro_commitment" where
  "micro_commitment_new subepoch_id mc_sequence tx_merkle_root da_commitment aggregator_id =
     \<lparr>mc_subepoch_id = subepoch_id, mc_sequence_id = mc_sequence, mc_tx_merkle_root = tx_merkle_root,
      mc_da_commitment = da_commitment, mc_aggregator_id = aggregator_id, mc_quorum_signatures = []\<rparr>"

definition mc_sign_payload :: "(bytes \<Rightarrow> bytes) \<Rightarrow> micro_commitment \<Rightarrow> bytes" where
  "mc_sign_payload blake3 mc =
     blake3 (MICROCOMMITMENT_SIGN_DOMAIN @ le_bytes 8 (mc_subepoch_id mc) @ le_bytes 4 (mc_sequence_id mc)
       @ mc_tx_merkle_root mc @ mc_da_commitment mc @ mc_aggregator_id mc)"

definition add_quorum_sig :: "micro_commitment \<Rightarrow> bytes \<Rightarrow> bytes \<Rightarrow> micro_commitment \<times> bool" where
  "add_quorum_sig mc signer sig =
     (let mc = (if \<not> list_ex (\<lambda>(id, _). id = signer) (mc_quorum_signatures mc)
                then mc\<lparr>mc_quorum_signatures := mc_quorum_signatures mc @ [(signer, sig)]\<rparr> else mc)
      in (mc, length (mc_quorum_signatures mc) \<ge> QUORUM_THRESHOLD_NUM))"

type_synonym sig_verifier = "bytes \<Rightarrow> bytes \<Rightarrow> bytes \<Rightarrow> bool option"

definition mc_count_step ::
  "sig_verifier \<Rightarrow> (bytes \<times> bytes) list \<Rightarrow> bytes \<Rightarrow> bytes list \<Rightarrow> bytes \<times> bytes \<Rightarrow> bytes list" where
  "mc_count_step verify_signature validator_set payload valid = (\<lambda>(signer_id, sig).
     if signer_id \<in> set valid then valid
     else (case find (\<lambda>(id, _). id = signer_id) validator_set of
             None \<Rightarrow> valid
           | Some (_, pubkey) \<Rightarrow>
               (if verify_signature payload sig pubkey = Some True then valid @ [signer_id] else valid)))"

definition verify_quorum ::
  "(bytes \<Rightarrow> bytes) \<Rightarrow> sig_verifier \<Rightarrow> micro_commitment \<Rightarrow> (bytes \<times> bytes) list \<Rightarrow> bool" where
  "verify_quorum blake3 verify_signature mc validator_set =
     (let payload = mc_sign_payload blake3 mc;
          valid = foldl (mc_count_step verify_signature validator_set payload) [] (mc_quorum_signatures mc)
      in length valid \<ge> QUORUM_THRESHOLD_NUM)"

definition mc_finality_level ::
  "(bytes \<Rightarrow> bytes) \<Rightarrow> sig_verifier \<Rightarrow> micro_commitment \<Rightarrow> (bytes \<times> bytes) list \<Rightarrow> finality_level" where
  "mc_finality_level blake3 verify_signature mc validator_set =
     (if verify_quorum blake3 verify_signature mc validator_set then Optimistic else FinalityNone)"

definition contains_ordering_key :: "(bytes \<Rightarrow> bytes) \<Rightarrow> micro_commitment \<Rightarrow> bytes \<Rightarrow> mc_merkle_proof \<Rightarrow> bool" where
  "contains_ordering_key blake3 mc ordering_key proof =
     verify_ordering_key_inclusion blake3 (mc_tx_merkle_root mc) ordering_key proof"

definition da_preimage :: "bytes list \<Rightarrow> bytes" where
  "da_preimage raw_payloads =
     MC_DA_DOMAIN @ le_bytes 8 (of_nat (length raw_payloads) :: u64)
     @ concat (map (\<lambda>p. le_bytes 8 (of_nat (length p) :: u64) @ p) raw_payloads)"

definition compute_da_commitment :: "(bytes \<Rightarrow> bytes) \<Rightarrow> bytes list \<Rightarrow> bytes" where
  "compute_da_commitment blake3 raw_payloads = blake3 (da_preimage raw_payloads)"

section \<open>Trigger and assembly\<close>

record pending_mc_tx =
  pm_txid :: bytes
  pm_raw_payload :: bytes
  pm_arrival_time_s :: u64

datatype mc_trigger_reason = TxCount | Timeout

definition check_mc_trigger :: "pending_mc_tx list \<Rightarrow> u64 \<Rightarrow> mc_trigger_reason option" where
  "check_mc_trigger pending now_s =
     (if length pending \<ge> MICROCOMMITMENT_TRIGGER_TX then Some TxCount
      else (case map pm_arrival_time_s pending of
              [] \<Rightarrow> None
            | t # ts \<Rightarrow>
                (let oldest = fold min ts t
                 in if saturating_sub now_s oldest \<ge> MICROCOMMITMENT_TIMEOUT_S then Some Timeout else None)))"

definition assemble_micro_commitment ::
  "(bytes \<Rightarrow> bytes) \<Rightarrow> pending_mc_tx list \<Rightarrow> u64 \<Rightarrow> u32 \<Rightarrow> u64 \<Rightarrow> bytes \<Rightarrow> u32 \<Rightarrow> bytes list \<Rightarrow> micro_commitment option" where
  "assemble_micro_commitment blake3 pending subepoch_id mc_sequence epoch_id committed_manifest_hash
     local_subepoch_index eligible_nodes =
     (if pending = [] then None
      else
        let ordering_keys = map (\<lambda>tx. compute_tx_ordering_key blake3 (pm_txid tx) epoch_id) pending;
            tx_merkle_root = compute_tx_merkle_root blake3 ordering_keys;
            da_commitment = compute_da_commitment blake3 (map pm_raw_payload pending);
            subepoch_seed = compute_subepoch_seed blake3 committed_manifest_hash local_subepoch_index
        in case select_subepoch_aggregator blake3 eligible_nodes subepoch_seed of
             None \<Rightarrow> None
           | Some aggregator_id \<Rightarrow>
               Some (micro_commitment_new subepoch_id mc_sequence tx_merkle_root da_commitment aggregator_id))"

section \<open>Completeness of inclusion proofs\<close>

lemma nth_mc_next_level:
  "k < length (mc_next_level node xs) \<Longrightarrow> mc_next_level node xs ! k =
     node (xs ! (2 * k)) (if 2 * k + 1 < length xs then xs ! (2 * k + 1) else xs ! (2 * k))"
proof (induction node xs arbitrary: k rule: mc_next_level.induct)
  case (3 node x y rest)
  then show ?case by (cases k) auto
qed simp_all

lemma mc_climb_siblings:
  "idx < length level \<Longrightarrow> mc_climb node (mc_siblings node level idx) (level ! idx) = mc_reduce node level"
proof (induction node level idx rule: mc_siblings.induct)
  case (1 node level idx)
  show ?case
  proof (cases "length level > 1")
    case True
    let ?k = "idx div 2"
    have k: "?k < length (mc_next_level node level)" using 1(2) by simp
    have "mc_climb node (mc_siblings node level idx) (level ! idx)
        = mc_climb node (mc_siblings node (mc_next_level node level) ?k) (mc_next_level node level ! ?k)"
    proof (cases "idx mod 2 = 0")
      case even: True
      then have "2 * ?k = idx" by presburger
      then show ?thesis
        using True even nth_mc_next_level [OF k]
        by (subst mc_siblings.simps) (simp add: mc_climb_def)
    next
      case odd: False
      then have "2 * ?k + 1 = idx" "2 * ?k = idx - 1" by presburger+
      then show ?thesis
        using True odd 1(2) nth_mc_next_level [OF k]
        by (subst mc_siblings.simps) (simp add: mc_climb_def)
    qed
    also have "\<dots> = mc_reduce node (mc_next_level node level)"
      using "1.IH" [OF True refl prod.collapse k] .
    also have "\<dots> = mc_reduce node level" using True by (simp add: mc_reduce.simps [of node level])
    finally show ?thesis .
  next
    case False
    then have "idx = 0" using 1(2) by simp
    with False show ?thesis
      by (simp add: mc_siblings.simps [of node level] mc_reduce.simps [of node level] mc_climb_def)
  qed
qed

lemma merkle_proof_verifies:
  assumes "i < length keys"
  shows "\<exists>p. merkle_proof blake3 keys i = Some p
    \<and> verify_ordering_key_inclusion blake3 (compute_tx_merkle_root blake3 keys) (keys ! i) p"
  using assms mc_climb_siblings [of i "map (merkle_leaf blake3) keys" "merkle_node blake3"]
  by (auto simp: merkle_proof_def verify_ordering_key_inclusion_def compute_tx_merkle_root_def)

text \<open>Assembly commits to everything it was given: it succeeds exactly when there is a pending
  transaction and an eligible node, and then for every pending transaction the tree hands out an
  inclusion proof that the commitment accepts for that transaction's ordering key.\<close>

theorem assembled_commitment_complete:
  "(assemble_micro_commitment blake3 pending sid seq epoch mh idx nodes = None) = (pending = [] \<or> nodes = [])
   \<and> (case assemble_micro_commitment blake3 pending sid seq epoch mh idx nodes of
        None \<Rightarrow> True
      | Some mc \<Rightarrow> mc_aggregator_id mc \<in> set nodes
          \<and> list_all (\<lambda>i. \<exists>p. merkle_proof blake3
                (map (\<lambda>tx. compute_tx_ordering_key blake3 (pm_txid tx) epoch) pending) i = Some p
              \<and> contains_ordering_key blake3 mc (compute_tx_ordering_key blake3 (pm_txid (pending ! i)) epoch) p)
            [0..<length pending])"
proof -
  let ?keys = "map (\<lambda>tx. compute_tx_ordering_key blake3 (pm_txid tx) epoch) pending"
  let ?seed = "compute_subepoch_seed blake3 mh idx"
  show ?thesis
  proof (cases "select_subepoch_aggregator blake3 nodes ?seed")
    case None
    then have "nodes = []" by (simp add: select_subepoch_aggregator_def)
    with None show ?thesis by (simp add: assemble_micro_commitment_def Let_def)
  next
    case (Some a)
    then have "a \<in> set nodes" by (intro min_by_key_Some(1)) (simp add: select_subepoch_aggregator_def)
    then have "nodes \<noteq> []" "a \<in> set nodes" by auto
    with Some show ?thesis
      using merkle_proof_verifies [of _ ?keys blake3]
      by (auto simp: assemble_micro_commitment_def Let_def micro_commitment_new_def contains_ordering_key_def
          list_all_iff)
  qed
qed

section \<open>Soundness of inclusion proofs\<close>

definition mc_level :: "(bytes \<Rightarrow> bytes) \<Rightarrow> bytes list \<Rightarrow> nat \<Rightarrow> bytes list" where
  "mc_level blake3 keys t = (mc_next_level (merkle_node blake3) ^^ t) (map (merkle_leaf blake3) keys)"

lemma mc_level_Suc: "mc_level blake3 keys (Suc t) = map blake3 (mc_next_level mc_node_msg (mc_level blake3 keys t))"
proof -
  have "mc_next_level (merkle_node blake3) xs = map blake3 (mc_next_level mc_node_msg xs)" for xs
    by (induction "mc_node_msg" xs rule: mc_next_level.induct) (simp_all add: merkle_node_def)
  then show ?thesis by (simp add: mc_level_def)
qed

text \<open>The messages hashed to build the tree, and those hashed to check a proof.\<close>

definition mc_tree_inputs :: "(bytes \<Rightarrow> bytes) \<Rightarrow> bytes list \<Rightarrow> bytes set" where
  "mc_tree_inputs blake3 keys = mc_leaf_msg ` set keys
     \<union> (\<Union>t\<in>{t. 1 < length (mc_level blake3 keys t)}. set (mc_next_level mc_node_msg (mc_level blake3 keys t)))"

fun mc_proof_inputs :: "(bytes \<Rightarrow> bytes) \<Rightarrow> bytes \<Rightarrow> mc_merkle_proof \<Rightarrow> bytes set" where
  "mc_proof_inputs blake3 acc [] = {}"
| "mc_proof_inputs blake3 acc ((sib, is_right) # rest) =
     (let m = (if is_right then mc_node_msg acc sib else mc_node_msg sib acc)
      in insert m (mc_proof_inputs blake3 (blake3 m) rest))"

lemma mc_reduce_level:
  "keys \<noteq> [] \<Longrightarrow> \<exists>t. mc_reduce (merkle_node blake3) (map (merkle_leaf blake3) keys) \<in> set (mc_level blake3 keys t)
     \<and> (\<forall>s<t. 1 < length (mc_level blake3 keys s))"
proof -
  have gen: "xs \<noteq> [] \<Longrightarrow> \<exists>t. mc_reduce node xs \<in> set ((mc_next_level node ^^ t) xs)
      \<and> (\<forall>s<t. 1 < length ((mc_next_level node ^^ s) xs))" for node :: "'x \<Rightarrow> 'x \<Rightarrow> 'x" and xs
  proof (induction node xs rule: mc_reduce.induct)
    case (1 node xs)
    show ?case
    proof (cases "1 < length xs")
      case True
      then have "mc_next_level node xs \<noteq> []" by (auto simp flip: length_greater_0_conv)
      with 1 True obtain t where
        t: "mc_reduce node (mc_next_level node xs) \<in> set ((mc_next_level node ^^ t) (mc_next_level node xs))"
          "\<forall>s<t. 1 < length ((mc_next_level node ^^ s) (mc_next_level node xs))" by blast
      have "1 < length ((mc_next_level node ^^ s) xs)" if "s < Suc t" for s
        using t(2) that True by (cases s) (simp_all add: funpow_swap1)
      then show ?thesis
        using t(1) True by (intro exI [of _ "Suc t"]) (simp add: funpow_swap1 mc_reduce.simps [of node xs])
    next
      case False
      then show ?thesis using 1(2) by (intro exI [of _ 0]) (simp add: mc_reduce.simps [of node xs])
    qed
  qed
  show "keys \<noteq> [] \<Longrightarrow> ?thesis" using gen [of "map (merkle_leaf blake3) keys"] by (simp add: mc_level_def)
qed

lemma mc_msgs_differ: "length k = 32 \<Longrightarrow> length l = 32 \<Longrightarrow> length r = 32 \<Longrightarrow> mc_leaf_msg k \<noteq> mc_node_msg l r"
  by (auto simp: mc_leaf_msg_def mc_node_msg_def MC_MERKLE_LEAF_DOMAIN_def MC_MERKLE_NODE_DOMAIN_def
      dest!: arg_cong [where f = length])

lemma mc_node_msg_inject: "length l = 32 \<Longrightarrow> length l' = 32 \<Longrightarrow> mc_node_msg l r = mc_node_msg l' r' \<longleftrightarrow> l = l' \<and> r = r'"
  by (simp add: mc_node_msg_def)

lemma mc_leaf_msg_inject: "mc_leaf_msg k = mc_leaf_msg k' \<longleftrightarrow> k = k'"
  by (simp add: mc_leaf_msg_def)

lemma set_mc_next_level: "m \<in> set (mc_next_level f xs) \<Longrightarrow> \<exists>l\<in>set xs. \<exists>r\<in>set xs. m = f l r"
  by (induction f xs rule: mc_next_level.induct) auto

lemma mc_climb_snoc:
  "mc_climb (merkle_node blake3) (ps @ [(sib, d)]) acc =
     blake3 (if d then mc_node_msg (mc_climb (merkle_node blake3) ps acc) sib
             else mc_node_msg sib (mc_climb (merkle_node blake3) ps acc))"
  by (simp add: mc_climb_def merkle_node_def)

lemma mc_proof_inputs_append:
  "mc_proof_inputs blake3 acc (ps @ qs)
     = mc_proof_inputs blake3 acc ps \<union> mc_proof_inputs blake3 (mc_climb (merkle_node blake3) ps acc) qs"
  by (induction blake3 acc ps rule: mc_proof_inputs.induct) (auto simp: mc_climb_def merkle_node_def Let_def)

text \<open>The message behind the value a proof has reached.\<close>

lemma mc_climb_message:
  assumes "\<And>x. length (blake3 x) = 32" and "\<forall>(sib, _)\<in>set ps. length sib = 32"
  obtains (leaf) "ps = []" "mc_climb (merkle_node blake3) ps (merkle_leaf blake3 key) = blake3 (mc_leaf_msg key)"
  | (node) ps' s l r where "ps = ps' @ [s]" "length l = 32" "length r = 32"
      "mc_climb (merkle_node blake3) ps (merkle_leaf blake3 key) = blake3 (mc_node_msg l r)"
      "mc_node_msg l r \<in> mc_proof_inputs blake3 (merkle_leaf blake3 key) (ps @ qs)"
      "mc_climb (merkle_node blake3) ps' (merkle_leaf blake3 key) \<in> {l, r}"
proof (cases ps rule: rev_cases)
  case Nil
  then show ?thesis by (intro leaf) (simp_all add: mc_climb_def merkle_leaf_def)
next
  case (snoc ps' s)
  obtain sib d where s: "s = (sib, d)" by fastforce
  let ?acc = "mc_climb (merkle_node blake3) ps' (merkle_leaf blake3 key)"
  have acc: "length ?acc = 32"
    by (cases ps' rule: rev_cases)
      (auto simp: mc_climb_def merkle_leaf_def merkle_node_def assms(1) split: prod.split)
  have sib: "length sib = 32" using assms(2) snoc s by auto
  show ?thesis
    by (rule node [of ps' s "if d then ?acc else sib" "if d then sib else ?acc"])
      (use acc sib snoc s in \<open>auto simp: mc_climb_snoc mc_proof_inputs_append Let_def\<close>)
qed

lemma length_mc_level: "(\<And>x. length (blake3 x) = 32) \<Longrightarrow> x \<in> set (mc_level blake3 keys t) \<Longrightarrow> length x = 32"
  by (cases t) (auto simp: mc_level_Suc, auto simp: mc_level_def merkle_leaf_def)

text \<open>A value of level \<open>t\<close> that a proof reaches is reached from a leaf.\<close>

lemma mc_climb_level_sound:
  assumes len: "\<And>x. length (blake3 x) = 32" "\<forall>k\<in>set keys. length k = 32" "length key = 32"
    and inj: "inj_on blake3 (mc_tree_inputs blake3 keys \<union> insert (mc_leaf_msg key) (mc_proof_inputs blake3 (merkle_leaf blake3 key) P))"
    and up: "mc_climb (merkle_node blake3) ps (merkle_leaf blake3 key) \<in> set (mc_level blake3 keys t)"
    and ps: "P = ps @ qs" "\<forall>(sib, _)\<in>set ps. length sib = 32" "\<forall>s<t. 1 < length (mc_level blake3 keys s)"
  shows "key \<in> set keys"
  using up ps
proof (induction t arbitrary: ps qs)
  case 0
  obtain k where k: "k \<in> set keys" "mc_climb (merkle_node blake3) ps (merkle_leaf blake3 key) = blake3 (mc_leaf_msg k)"
    using 0(1) by (auto simp: mc_level_def merkle_leaf_def)
  have mk: "mc_leaf_msg k \<in> mc_tree_inputs blake3 keys" using k by (simp add: mc_tree_inputs_def)
  show ?case
  proof (cases rule: mc_climb_message [where ?blake3.0 = blake3 and ps = ps and qs = qs and key = key, OF len(1) 0(3), case_names leaf node])
    case leaf
    have "mc_leaf_msg key = mc_leaf_msg k"
      by (rule inj_onD [OF inj leaf(2) [symmetric, THEN trans, OF k(2)]]) (use mk in blast)+
    then show ?thesis using k by (simp add: mc_leaf_msg_inject)
  next
    case (node ps' s l r)
    have np: "mc_node_msg l r \<in> mc_proof_inputs blake3 (merkle_leaf blake3 key) P"
      using node(5) 0(2) by simp
    have "mc_node_msg l r = mc_leaf_msg k"
      by (rule inj_onD [OF inj node(4) [symmetric, THEN trans, OF k(2)]]) (use np mk in blast)+
    then show ?thesis using mc_msgs_differ [of k l r] node(2,3) len(2) k(1) by simp
  qed
next
  case (Suc t)
  obtain m where m: "m \<in> set (mc_next_level mc_node_msg (mc_level blake3 keys t))"
      "mc_climb (merkle_node blake3) ps (merkle_leaf blake3 key) = blake3 m"
    using Suc.prems(1) by (auto simp: mc_level_Suc)
  have mt: "m \<in> mc_tree_inputs blake3 keys" using m(1) Suc.prems(4) by (auto simp: mc_tree_inputs_def)
  obtain a b where ab: "a \<in> set (mc_level blake3 keys t)" "b \<in> set (mc_level blake3 keys t)" "m = mc_node_msg a b"
    using set_mc_next_level [OF m(1)] by blast
  note len_ab = length_mc_level [OF len(1) ab(1)] length_mc_level [OF len(1) ab(2)]
  show ?case
  proof (cases rule: mc_climb_message [where ?blake3.0 = blake3 and ps = ps and qs = qs and key = key, OF len(1) Suc.prems(3), case_names leaf node])
    case leaf
    have "mc_leaf_msg key = m"
      by (rule inj_onD [OF inj leaf(2) [symmetric, THEN trans, OF m(2)]]) (use mt in blast)+
    then show ?thesis using ab(3) len_ab len(3) mc_msgs_differ [of key a b] by simp
  next
    case (node ps' s l r)
    have np: "mc_node_msg l r \<in> mc_proof_inputs blake3 (merkle_leaf blake3 key) P"
      using node(5) Suc.prems(2) by simp
    have "mc_node_msg l r = m"
      by (rule inj_onD [OF inj node(4) [symmetric, THEN trans, OF m(2)]]) (use np mt in blast)+
    then have "l = a" "r = b" using mc_node_msg_inject [OF node(2) len_ab(1)] ab(3) by blast+
    then have "mc_climb (merkle_node blake3) ps' (merkle_leaf blake3 key) \<in> set (mc_level blake3 keys t)"
      using node(6) ab by blast
    then show ?thesis using Suc.prems node(1) by (intro Suc.IH [of ps' "s # qs"]) auto
  qed
qed

text \<open>C19. An inclusion proof cannot be forged: if the proof has 32-byte siblings, any number of them in
  any directions, and the verifier accepts it for a 32-byte key under the root of the ordering tree of at least one key, then that
  key is one of the keys of the tree, as long as BLAKE3 does not collide on the messages hashed to
  build the tree and to check the proof.  An inner node cannot be passed off as a leaf because the hashed
  messages differ in length (a leaf message holds one 32-byte string, a node message two).\<close>

theorem merkle_inclusion_sound:
  assumes "keys \<noteq> []" and "\<forall>k\<in>set keys. length k = 32" and "length key = 32"
    and "\<forall>s\<in>set pf. length (fst s) = 32" and "\<forall>x. length (blake3 x) = 32"
    and "inj_on blake3 (mc_tree_inputs blake3 keys
      \<union> insert (mc_leaf_msg key) (mc_proof_inputs blake3 (merkle_leaf blake3 key) pf))"
    and "verify_ordering_key_inclusion blake3 (compute_tx_merkle_root blake3 keys) key pf"
  shows "key \<in> set keys"
proof -
  obtain t where t: "mc_reduce (merkle_node blake3) (map (merkle_leaf blake3) keys) \<in> set (mc_level blake3 keys t)"
      "\<forall>s<t. 1 < length (mc_level blake3 keys s)"
    using mc_reduce_level [OF assms(1), of blake3] by blast
  show ?thesis
    by (rule mc_climb_level_sound [of blake3 keys key pf pf t "[]"])
      (use assms t in \<open>auto simp: verify_ordering_key_inclusion_def compute_tx_merkle_root_def\<close>)
qed

definition two_keys :: "bytes list" where
  "two_keys = [replicate 32 1, replicate 32 2]"

definition last_hash :: "bytes \<Rightarrow> bytes" where
  "last_hash x = replicate 31 (of_nat (length x)) @ [last x]"

lemma mc_level_singleton: "length (mc_level blake3 keys s) = 1 \<Longrightarrow> s \<le> t \<Longrightarrow> length (mc_level blake3 keys t) = 1"
  by (induction t) (auto simp: mc_level_Suc le_Suc_eq)

lemma two_keys_inputs:
  "mc_tree_inputs last_hash two_keys = {mc_leaf_msg (replicate 32 1), mc_leaf_msg (replicate 32 2),
     mc_node_msg (merkle_leaf last_hash (replicate 32 1)) (merkle_leaf last_hash (replicate 32 2))}"
proof -
  have l0: "mc_level last_hash two_keys 0 = [merkle_leaf last_hash (replicate 32 1), merkle_leaf last_hash (replicate 32 2)]"
    by (simp add: mc_level_def two_keys_def)
  have "length (mc_level last_hash two_keys t) = 1" if "t \<noteq> 0" for t
    by (rule mc_level_singleton [of _ _ "Suc 0"]) (use that in \<open>simp_all add: mc_level_Suc l0\<close>)
  then have "1 < length (mc_level last_hash two_keys t) \<longleftrightarrow> t = 0" for t
    by (cases "t = 0") (auto simp: l0)
  then have levels: "{t. 1 < length (mc_level last_hash two_keys t)} = {0}" by blast
  show ?thesis unfolding mc_tree_inputs_def levels by (simp add: l0) (auto simp: two_keys_def)
qed

theorem merkle_inclusion_sound_witness: "replicate 32 1 \<in> set two_keys"
proof (rule merkle_inclusion_sound [where ?blake3.0 = last_hash
      and pf = "[(merkle_leaf last_hash (replicate 32 2), True)]"])
  show "inj_on last_hash (mc_tree_inputs last_hash two_keys \<union> insert (mc_leaf_msg (replicate 32 1))
      (mc_proof_inputs last_hash (merkle_leaf last_hash (replicate 32 1)) [(merkle_leaf last_hash (replicate 32 2), True)]))"
    by (auto simp: two_keys_inputs inj_on_def last_hash_def mc_leaf_msg_def mc_node_msg_def merkle_leaf_def
        MC_MERKLE_LEAF_DOMAIN_def MC_MERKLE_NODE_DOMAIN_def)
  show "verify_ordering_key_inclusion last_hash (compute_tx_merkle_root last_hash two_keys) (replicate 32 1)
      [(merkle_leaf last_hash (replicate 32 2), True)]"
    by (simp add: verify_ordering_key_inclusion_def compute_tx_merkle_root_def two_keys_def mc_climb_def
        mc_reduce.simps)
qed (auto simp: two_keys_def last_hash_def merkle_leaf_def)

section \<open>What the root does not bind\<close>

lemma mc_next_level_duplicate:
  "odd (length xs) \<Longrightarrow> mc_next_level node (xs @ [last xs]) = mc_next_level node xs"
  by (induction node xs rule: mc_next_level.induct) auto

text \<open>The ordering root does not fix how many transactions there are: with an odd number of keys, at
  least three, appending a copy of the last key gives the same root, whatever the hash, because an odd
  level is completed by duplicating its last node.\<close>

theorem merkle_root_duplicate_last:
  assumes "odd (length keys)" and "1 < length keys"
  shows "compute_tx_merkle_root blake3 (keys @ [last keys]) = compute_tx_merkle_root blake3 keys
    \<and> keys @ [last keys] \<noteq> keys"
proof -
  let ?l = "map (merkle_leaf blake3) keys"
  have "map (merkle_leaf blake3) (keys @ [last keys]) = ?l @ [last ?l]"
    using assms(2) by (cases keys rule: rev_cases) auto
  moreover have "keys \<noteq> []" using assms(2) by auto
  then have "mc_reduce (merkle_node blake3) (?l @ [last ?l]) = mc_reduce (merkle_node blake3) ?l"
    using assms mc_next_level_duplicate [of ?l "merkle_node blake3"]
    by (simp add: mc_reduce.simps [of "merkle_node blake3" ?l]
        mc_reduce.simps [of "merkle_node blake3" "?l @ [last ?l]"])
  ultimately show ?thesis using assms(2) by (auto simp: compute_tx_merkle_root_def)
qed

theorem merkle_root_duplicate_last_witness:
  "compute_tx_merkle_root last_hash ([[1], [2], [3]] @ [last [[1], [2], [3]]]) = compute_tx_merkle_root last_hash [[1], [2], [3]]
    \<and> [[1], [2], [3]] @ [last [[1], [2], [3]]] \<noteq> ([[1], [2], [3]] :: bytes list)"
  by (rule merkle_root_duplicate_last) simp_all

section \<open>Quorum and data availability\<close>

definition mc_signers :: "sig_verifier \<Rightarrow> (bytes \<times> bytes) list \<Rightarrow> bytes \<Rightarrow> (bytes \<times> bytes) list \<Rightarrow> bytes set" where
  "mc_signers verify_signature validator_set payload sigs =
     {id. \<exists>sig pk. (id, sig) \<in> set sigs \<and> map_of validator_set id = Some pk \<and> verify_signature payload sig pk = Some True}"

lemma find_key_map_of:
  "find (\<lambda>(id, _). id = k) xs = (case map_of xs k of None \<Rightarrow> None | Some v \<Rightarrow> Some (k, v))"
  by (induction xs) (auto split: option.splits)

lemma mc_count_step_eq:
  "mc_count_step vs V payload valid (k, sig) =
     (if k \<notin> set valid \<and> k \<in> mc_signers vs V payload [(k, sig)] then valid @ [k] else valid)"
  by (auto simp: mc_count_step_def mc_signers_def find_key_map_of split: option.splits)

lemma mc_count_valid:
  assumes "distinct valid"
  shows "distinct (foldl (mc_count_step vs V payload) valid sigs)
    \<and> set (foldl (mc_count_step vs V payload) valid sigs) = set valid \<union> mc_signers vs V payload sigs"
  using assms
proof (induction sigs arbitrary: valid)
  case Nil
  then show ?case by (simp add: mc_signers_def)
next
  case (Cons s sigs)
  obtain k sig where s: "s = (k, sig)" by fastforce
  let ?v = "mc_count_step vs V payload valid s"
  have "distinct ?v" "set ?v = set valid \<union> mc_signers vs V payload [s]"
    using Cons.prems by (auto simp: s mc_count_step_eq mc_signers_def)
  moreover have "mc_signers vs V payload (s # sigs) = mc_signers vs V payload [s] \<union> mc_signers vs V payload sigs"
    by (auto simp: mc_signers_def)
  ultimately show ?case using Cons.IH [of ?v] by auto
qed

text \<open>The level-1 quorum counts people, not signatures: a micro-commitment is optimistic exactly when
  at least five different members of the validator set have a signature among those attached that
  verifies, under the key the set lists for them, over the commitment's payload; repeated, foreign,
  invalid and unverifiable signatures make no difference.\<close>

theorem micro_quorum_iff:
  "mc_finality_level blake3 vs mc V = Optimistic \<longleftrightarrow>
     5 \<le> card (mc_signers vs V (mc_sign_payload blake3 mc) (mc_quorum_signatures mc))"
  using mc_count_valid [of "[]" vs V "mc_sign_payload blake3 mc" "mc_quorum_signatures mc"]
    distinct_card [of "foldl (mc_count_step vs V (mc_sign_payload blake3 mc)) [] (mc_quorum_signatures mc)"]
  by (simp add: mc_finality_level_def verify_quorum_def Let_def QUORUM_THRESHOLD_NUM_def)

text \<open>The data availability hash binds the payloads: its preimage is injective.\<close>

lemma da_body_inject:
  assumes "concat (map (\<lambda>p. le_bytes 8 (of_nat (length p) :: u64) @ p) ps)
      = concat (map (\<lambda>p. le_bytes 8 (of_nat (length p) :: u64) @ p) qs)"
    and "length ps = length qs" and "\<forall>p\<in>set ps \<union> set qs. length p < 2 ^ 64"
  shows "ps = qs"
  using assms(2,1,3)
proof (induction ps qs rule: list_induct2)
  case (Cons p ps q qs)
  have "le_bytes 8 (of_nat (length p) :: u64) = le_bytes 8 (of_nat (length q) :: u64)"
    using Cons.prems(1) by simp
  then have eq: "(of_nat (length p) :: u64) = of_nat (length q)" by (simp only: le_bytes_u64_inject)
  have "length p = length q"
    by (rule of_nat_word_inject [OF _ _ eq]) (use Cons.prems(2) in simp_all)
  then show ?case using Cons.prems Cons.IH by simp
qed simp

theorem da_commitment_binding:
  assumes "da_preimage ps = da_preimage qs" and "\<forall>p\<in>set ps \<union> set qs. length p < 2 ^ 64"
    and "length ps < 2 ^ 64" and "length qs < 2 ^ 64"
  shows "ps = qs"
proof -
  have "le_bytes 8 (of_nat (length ps) :: u64) = le_bytes 8 (of_nat (length qs) :: u64)"
    using assms(1) by (simp add: da_preimage_def)
  then have eq: "(of_nat (length ps) :: u64) = of_nat (length qs)" by (simp only: le_bytes_u64_inject)
  have "length ps = length qs"
    by (rule of_nat_word_inject [OF _ _ eq]) (use assms(3,4) in simp_all)
  then show ?thesis
    by (rule da_body_inject [rotated]) (use assms(1,2) in \<open>simp_all add: da_preimage_def\<close>)
qed

text \<open>The trigger fires exactly when 41 transactions are pending or some transaction has been pending for a minute.\<close>

theorem check_mc_trigger_iff:
  "check_mc_trigger pending now \<noteq> None \<longleftrightarrow>
     41 \<le> length pending \<or> (\<exists>tx\<in>set pending. unat (pm_arrival_time_s tx) + 60 \<le> unat now)"
proof -
  have fold_min: "fold min ts t = Min (insert t (set ts))" for t and ts :: "u64 list"
    by (simp add: Min.set_eq_fold [symmetric])
  have age: "60 \<le> saturating_sub now t \<longleftrightarrow> unat t + 60 \<le> unat now" for t :: u64
    by (auto simp: word_le_nat_alt unat_saturating_sub)
  have oldest: "60 \<le> saturating_sub now (Min S) \<longleftrightarrow> (\<exists>t\<in>S. unat t + 60 \<le> unat now)"
    if "finite S" "S \<noteq> {}" for S :: "u64 set"
  proof
    assume "60 \<le> saturating_sub now (Min S)"
    then show "\<exists>t\<in>S. unat t + 60 \<le> unat now" using age Min_in [OF that] by blast
  next
    assume "\<exists>t\<in>S. unat t + 60 \<le> unat now"
    then obtain t where "t \<in> S" "unat t + 60 \<le> unat now" by blast
    moreover have "unat (Min S) \<le> unat t" using Min_le [OF that(1)] \<open>t \<in> S\<close> by (simp add: word_le_nat_alt)
    ultimately show "60 \<le> saturating_sub now (Min S)" by (simp add: age)
  qed
  show ?thesis
  proof (cases pending)
    case (Cons tx txs)
    have "fold min (map pm_arrival_time_s txs) (pm_arrival_time_s tx) = Min (pm_arrival_time_s ` set pending)"
      by (simp add: fold_min Cons)
    then show ?thesis
      using oldest [of "pm_arrival_time_s ` set pending"] Cons
      by (simp add: check_mc_trigger_def MICROCOMMITMENT_TRIGGER_TX_def MICROCOMMITMENT_TIMEOUT_S_def Let_def)
  qed (simp add: check_mc_trigger_def MICROCOMMITMENT_TRIGGER_TX_def)
qed

end
