(* ===== verification/Fork_Protocol.thy ===== *)
theory Fork_Protocol
  imports Prelude
begin

text \<open>
  The fork protocol and the node life cycle of the network layer (\<open>core/scalar-network/src/fork.rs\<close>,
  \<open>state_machine.rs\<close>): signed fork signals weighted by governance power, the state machine of a
  proposal and the store of proposals.  The SLH-DSA verifier is the parameter \<open>verify_signature\<close>
  (\<open>None\<close> is its error result).
\<close>

definition DOMAIN_VOTE :: bytes where
  "DOMAIN_VOTE = ascii ''scalar.governance.vote''"

definition FORK_COMMIT_THRESHOLD_FP :: u64 where
  "FORK_COMMIT_THRESHOLD_FP = 750000"

definition FORK_ABORT_THRESHOLD_FP :: u64 where
  "FORK_ABORT_THRESHOLD_FP = 670000"

definition EMERGENCY_FORK_COMMIT_THRESHOLD_FP :: u64 where
  "EMERGENCY_FORK_COMMIT_THRESHOLD_FP = 510000"

definition FORK_ACTIVATION_OFFSET_EPOCHS :: u64 where
  "FORK_ACTIVATION_OFFSET_EPOCHS = 3"

definition EMERGENCY_FORK_LOCK_SECS :: u64 where
  "EMERGENCY_FORK_LOCK_SECS = 172800"

definition FORK_FIXED_POINT_BASIS :: u64 where
  "FORK_FIXED_POINT_BASIS = 1000000"

section \<open>Signals and proposals\<close>

datatype signal_type = Commit | Abort

primrec signal_byte :: "signal_type \<Rightarrow> u8" where
  "signal_byte Commit = 0"
| "signal_byte Abort = 1"

record fork_signal_message =
  fm_node_id :: bytes
  fm_epoch_id :: u64
  fm_fork_hash :: bytes
  fm_signal_type :: signal_type
  fm_timestamp :: u64
  fm_signature :: bytes
  fm_public_key :: bytes

definition vote_message :: "fork_signal_message \<Rightarrow> bytes" where
  "vote_message m = DOMAIN_VOTE @ fm_node_id m @ le_bytes 8 (fm_epoch_id m) @ fm_fork_hash m
     @ [signal_byte (fm_signal_type m)]"

type_synonym fork_verifier = "bytes \<Rightarrow> bytes \<Rightarrow> bytes \<Rightarrow> bool option"

definition verify_sig :: "fork_verifier \<Rightarrow> fork_signal_message \<Rightarrow> bool" where
  "verify_sig verify_signature m =
     (if fm_public_key m = [] \<or> fm_signature m = [] then False
      else unwrap_or (verify_signature (vote_message m) (fm_signature m) (fm_public_key m)) False)"

datatype fork_type = NormalFork | EmergencyFork

datatype fork_state = Pending | Committed u64 | Active u64 | Cancelled

record node_signal =
  sg_signal_type :: signal_type
  sg_governance_power_fp :: u64

record fork_proposal =
  fp_fork_hash :: bytes
  fp_fork_type :: fork_type
  fp_proposed_epoch :: u64
  fp_proposed_timestamp :: u64
  fp_state :: fork_state
  fp_signals :: "(bytes \<times> node_signal) list"
  fp_total_governance_power_fp :: u64

datatype fork_error =
    ForkNotFound
  | ForkNotPending
  | AlreadyCommitted
  | ForkCancelled
  | ForkActive
  | InvalidEmergencyScope
  | ZeroTotalNodes
  | InvalidSignature

definition fork_proposal_new :: "bytes \<Rightarrow> fork_type \<Rightarrow> u64 \<Rightarrow> u64 \<Rightarrow> u64 \<Rightarrow> fork_proposal" where
  "fork_proposal_new fork_hash fork_type proposed_epoch proposed_timestamp total_governance_power_fp =
     \<lparr>fp_fork_hash = fork_hash, fp_fork_type = fork_type, fp_proposed_epoch = proposed_epoch,
      fp_proposed_timestamp = proposed_timestamp, fp_state = Pending, fp_signals = [],
      fp_total_governance_power_fp = total_governance_power_fp\<rparr>"

definition add_signal ::
  "fork_verifier \<Rightarrow> fork_proposal \<Rightarrow> fork_signal_message \<Rightarrow> u64 \<Rightarrow> fork_proposal \<times> (fork_error + unit)" where
  "add_signal verify_signature p msg governance_power_fp =
     (case fp_state p of
        Cancelled \<Rightarrow> (p, Inl ForkCancelled)
      | Active _ \<Rightarrow> (p, Inl ForkActive)
      | _ \<Rightarrow>
          (if \<not> verify_sig verify_signature msg then (p, Inl InvalidSignature)
           else (p\<lparr>fp_signals := AList.update (fm_node_id msg)
                     \<lparr>sg_signal_type = fm_signal_type msg, sg_governance_power_fp = governance_power_fp\<rparr>
                     (fp_signals p)\<rparr>, Inr ())))"

definition signal_power :: "signal_type \<Rightarrow> (bytes \<times> node_signal) list \<Rightarrow> u64" where
  "signal_power ty signals =
     fold (\<lambda>x acc. saturating_add acc x)
       (map sg_governance_power_fp (filter (\<lambda>s. sg_signal_type s = ty) (map snd signals))) 0"

definition commit_fraction_fp :: "fork_proposal \<Rightarrow> u64" where
  "commit_fraction_fp p =
     (if fp_total_governance_power_fp p = 0 then 0
      else saturating_mul (signal_power Commit (fp_signals p)) FORK_FIXED_POINT_BASIS
             div fp_total_governance_power_fp p)"

definition abort_fraction_fp :: "fork_proposal \<Rightarrow> u64" where
  "abort_fraction_fp p =
     (if fp_total_governance_power_fp p = 0 then 0
      else saturating_mul (signal_power Abort (fp_signals p)) FORK_FIXED_POINT_BASIS
             div fp_total_governance_power_fp p)"

definition evaluate_transition :: "fork_proposal \<Rightarrow> u64 \<Rightarrow> u64 \<Rightarrow> fork_proposal \<times> (fork_error + unit)" where
  "evaluate_transition p current_epoch current_timestamp =
     (if fp_total_governance_power_fp p = 0 then (p, Inl ZeroTotalNodes)
      else case fp_state p of
        Pending \<Rightarrow>
          (let threshold = (case fp_fork_type p of
                 NormalFork \<Rightarrow> FORK_COMMIT_THRESHOLD_FP
               | EmergencyFork \<Rightarrow> EMERGENCY_FORK_COMMIT_THRESHOLD_FP)
           in (if commit_fraction_fp p \<ge> threshold then p\<lparr>fp_state := Committed current_epoch\<rparr> else p, Inr ()))
      | Committed committed_epoch \<Rightarrow>
          (if abort_fraction_fp p \<ge> FORK_ABORT_THRESHOLD_FP then (p\<lparr>fp_state := Cancelled\<rparr>, Inr ())
           else case fp_fork_type p of
             NormalFork \<Rightarrow>
               (let activation_epoch = committed_epoch + FORK_ACTIVATION_OFFSET_EPOCHS
                in (if current_epoch \<ge> activation_epoch then p\<lparr>fp_state := Active activation_epoch\<rparr> else p, Inr ()))
           | EmergencyFork \<Rightarrow>
               (if current_timestamp \<ge> fp_proposed_timestamp p + EMERGENCY_FORK_LOCK_SECS
                then p\<lparr>fp_state := Active current_epoch\<rparr> else p, Inr ()))
      | _ \<Rightarrow> (p, Inr ()))"

section \<open>The store\<close>

record fork_store =
  fs_proposals :: "(bytes \<times> fork_proposal) list"

definition fork_store_new :: fork_store where
  "fork_store_new = \<lparr>fs_proposals = []\<rparr>"

definition add_proposal :: "fork_store \<Rightarrow> fork_proposal \<Rightarrow> fork_store" where
  "add_proposal s proposal = s\<lparr>fs_proposals := AList.update (fp_fork_hash proposal) proposal (fs_proposals s)\<rparr>"

definition process_signal ::
  "fork_verifier \<Rightarrow> fork_store \<Rightarrow> fork_signal_message \<Rightarrow> u64 \<Rightarrow> u64 \<Rightarrow> u64 \<Rightarrow> fork_store \<times> (fork_error + unit)" where
  "process_signal verify_signature s msg governance_power_fp current_epoch current_timestamp =
     (case map_of (fs_proposals s) (fm_fork_hash msg) of
        None \<Rightarrow> (s, Inl ForkNotFound)
      | Some proposal \<Rightarrow>
          (case add_signal verify_signature proposal msg governance_power_fp of
             (proposal, Inl e) \<Rightarrow> (s\<lparr>fs_proposals := AList.update (fm_fork_hash msg) proposal (fs_proposals s)\<rparr>, Inl e)
           | (proposal, Inr _) \<Rightarrow>
               (let (proposal, r) = evaluate_transition proposal current_epoch current_timestamp
                in (s\<lparr>fs_proposals := AList.update (fm_fork_hash msg) proposal (fs_proposals s)\<rparr>, r))))"

definition fs_get :: "fork_store \<Rightarrow> bytes \<Rightarrow> fork_proposal option" where
  "fs_get s fork_hash = map_of (fs_proposals s) fork_hash"

definition active_count :: "fork_store \<Rightarrow> nat" where
  "active_count s = length (filter (\<lambda>p. case fp_state p of Pending \<Rightarrow> True | Committed _ \<Rightarrow> True | _ \<Rightarrow> False)
     (map snd (fs_proposals s)))"

section \<open>Node life cycle\<close>

datatype node_state = Bootstrapping | Syncing | NodeActive | Partitioned

definition evaluate_transitions :: "node_state \<Rightarrow> bool \<Rightarrow> bool \<Rightarrow> bool \<Rightarrow> node_state" where
  "evaluate_transitions s internet_down is_synced peers_found =
     (case s of
        Bootstrapping \<Rightarrow> (if peers_found then Syncing else s)
      | Syncing \<Rightarrow>
          (let s = (if is_synced then NodeActive else s)
           in if internet_down then Partitioned else s)
      | NodeActive \<Rightarrow>
          (let s = (if internet_down then Partitioned else s)
           in if \<not> is_synced then Syncing else s)
      | Partitioned \<Rightarrow> (if \<not> internet_down then Syncing else s))"

section \<open>Runs of a proposal\<close>

datatype fork_op = Signal fork_signal_message u64 | Evaluate u64 u64

primrec fork_exec :: "fork_verifier \<Rightarrow> fork_proposal \<Rightarrow> fork_op \<Rightarrow> fork_proposal" where
  "fork_exec vs p (Signal msg w) = fst (add_signal vs p msg w)"
| "fork_exec vs p (Evaluate epoch timestamp) = fst (evaluate_transition p epoch timestamp)"

abbreviation fork_run :: "fork_verifier \<Rightarrow> fork_proposal \<Rightarrow> fork_op list \<Rightarrow> fork_proposal" where
  "fork_run vs \<equiv> foldl (fork_exec vs)"

lemma add_signal_simps [simp]:
  "fp_state (fst (add_signal vs p m w)) = fp_state p" "fp_fork_type (fst (add_signal vs p m w)) = fp_fork_type p"
  "fp_proposed_timestamp (fst (add_signal vs p m w)) = fp_proposed_timestamp p"
  by (simp_all add: add_signal_def split: fork_state.split)

lemma fork_exec_type [simp]: "fp_fork_type (fork_exec vs p op) = fp_fork_type p"
  by (cases op) (auto simp: evaluate_transition_def Let_def split: fork_state.split fork_type.split)

lemma fork_run_type [simp]: "fp_fork_type (fork_run vs p ops) = fp_fork_type p"
  by (induction ops arbitrary: p) simp_all

text \<open>The transitions of a normal fork.\<close>

lemma fork_exec_transition:
  assumes "fp_fork_type p = NormalFork" and "fp_state (fork_exec vs p op) \<noteq> fp_state p"
  obtains (commit) e t where "op = Evaluate e t" "fp_state p = Pending" "fp_state (fork_exec vs p op) = Committed e"
      "FORK_COMMIT_THRESHOLD_FP \<le> commit_fraction_fp p"
  | (cancel) e t c where "op = Evaluate e t" "fp_state p = Committed c" "fp_state (fork_exec vs p op) = Cancelled"
      "FORK_ABORT_THRESHOLD_FP \<le> abort_fraction_fp p"
  | (activate) e t c where "op = Evaluate e t" "fp_state p = Committed c" "fp_state (fork_exec vs p op) = Active (c + 3)"
      "c + 3 \<le> e" "abort_fraction_fp p < FORK_ABORT_THRESHOLD_FP"
proof (cases op)
  case (Signal m w)
  then show ?thesis using assms by simp
next
  case (Evaluate e t)
  then show ?thesis
    using assms commit [OF Evaluate] cancel [OF Evaluate] activate [OF Evaluate]
    by (cases "fp_state p")
      (auto simp: evaluate_transition_def Let_def FORK_ACTIVATION_OFFSET_EPOCHS_def not_le split: if_splits)
qed

text \<open>How the state of a run came about.\<close>

definition committed_at :: "fork_verifier \<Rightarrow> fork_proposal \<Rightarrow> fork_op list \<Rightarrow> u64 \<Rightarrow> bool" where
  "committed_at vs p ops c \<longleftrightarrow> (\<exists>ops1 t ops2. ops = ops1 @ Evaluate c t # ops2
     \<and> FORK_COMMIT_THRESHOLD_FP \<le> commit_fraction_fp (fork_run vs p ops1))"

definition activated_at :: "fork_verifier \<Rightarrow> fork_proposal \<Rightarrow> fork_op list \<Rightarrow> u64 \<Rightarrow> bool" where
  "activated_at vs p ops a \<longleftrightarrow> (\<exists>ops1 e t ops2. ops = ops1 @ Evaluate e t # ops2 \<and> a \<le> e
     \<and> committed_at vs p ops1 (a - 3) \<and> abort_fraction_fp (fork_run vs p ops1) < FORK_ABORT_THRESHOLD_FP)"

lemma committed_at_append: "committed_at vs p ops c \<Longrightarrow> committed_at vs p (ops @ rest) c"
  unfolding committed_at_def by (metis append_Cons append_assoc)

lemma activated_at_append: "activated_at vs p ops a \<Longrightarrow> activated_at vs p (ops @ rest) a"
  unfolding activated_at_def by (metis append_Cons append_assoc)

lemma fork_run_history:
  assumes "fp_state p = Pending" and "fp_fork_type p = NormalFork"
  shows "(\<forall>c. fp_state (fork_run vs p ops) = Committed c \<longrightarrow> committed_at vs p ops c)
    \<and> (\<forall>a. fp_state (fork_run vs p ops) = Active a \<longrightarrow> activated_at vs p ops a)"
proof (induction ops rule: rev_induct)
  case Nil
  then show ?case using assms(1) by simp
next
  case (snoc op ops)
  let ?q = "fork_run vs p ops"
  have run: "fork_run vs p (ops @ [op]) = fork_exec vs ?q op" by simp
  show ?case
  proof (cases "fp_state (fork_exec vs ?q op) = fp_state ?q")
    case True
    then show ?thesis using snoc.IH by (auto simp: run intro: committed_at_append activated_at_append)
  next
    case False
    have ty: "fp_fork_type ?q = NormalFork" using assms(2) by simp
    show ?thesis
    proof (cases rule: fork_exec_transition [OF ty False, case_names commit cancel activate])
      case (commit e t)
      then have "committed_at vs p (ops @ [op]) e"
        unfolding committed_at_def by blast
      then show ?thesis using commit by simp
    next
      case (cancel e t c)
      then show ?thesis by simp
    next
      case (activate e t c)
      then have "committed_at vs p ops c" using snoc.IH by blast
      then have "activated_at vs p (ops @ [op]) (c + 3)"
        using activate unfolding activated_at_def by (metis add_diff_cancel)
      then show ?thesis using activate by simp
    qed
  qed
qed

text \<open>C33. A normal fork that is active was voted in: in any run of signals and evaluations from a fresh
  proposal that ends active from epoch \<open>a\<close>, some evaluation in epoch \<open>a - 3\<close> found at least 75 per cent of
  the governance power committed, a later one, in epoch \<open>a\<close> or after, found less than 67 per cent for
  aborting, and nothing that is sent afterwards changes the proposal any more.\<close>

theorem fork_activation_needs_quorum:
  assumes "fp_state (fork_run vs (fork_proposal_new h NormalFork pe pt G) ops) = Active a"
  shows "\<exists>ops1 t1 ops2 e2 t2 ops3. ops = ops1 @ Evaluate (a - 3) t1 # ops2 @ Evaluate e2 t2 # ops3 \<and> a \<le> e2
    \<and> 750000 \<le> unat (commit_fraction_fp (fork_run vs (fork_proposal_new h NormalFork pe pt G) ops1))
    \<and> unat (abort_fraction_fp (fork_run vs (fork_proposal_new h NormalFork pe pt G)
        (ops1 @ Evaluate (a - 3) t1 # ops2))) < 670000
    \<and> fork_run vs (fork_proposal_new h NormalFork pe pt G) (ops @ later)
        = fork_run vs (fork_proposal_new h NormalFork pe pt G) ops"
proof -
  let ?p = "fork_proposal_new h NormalFork pe pt G"
  have "activated_at vs ?p ops a"
    using fork_run_history [of ?p vs ops] assms by (simp add: fork_proposal_new_def)
  then obtain pre e2 t2 ops3 where pre: "ops = pre @ Evaluate e2 t2 # ops3" "a \<le> e2" "committed_at vs ?p pre (a - 3)"
      "abort_fraction_fp (fork_run vs ?p pre) < FORK_ABORT_THRESHOLD_FP"
    unfolding activated_at_def by blast
  from pre(3) obtain ops1 t1 ops2 where ops1: "pre = ops1 @ Evaluate (a - 3) t1 # ops2"
      "FORK_COMMIT_THRESHOLD_FP \<le> commit_fraction_fp (fork_run vs ?p ops1)"
    unfolding committed_at_def by blast
  have "fork_run vs q l = q" if "fp_state q = Active a" for q l
    using that
  proof (induction l)
    case (Cons op l)
    then show ?case
      by (cases op) (simp_all add: add_signal_def evaluate_transition_def)
  qed simp
  then have "fork_run vs ?p (ops @ later) = fork_run vs ?p ops" using assms by simp
  moreover have "ops = ops1 @ Evaluate (a - 3) t1 # ops2 @ Evaluate e2 t2 # ops3" using pre(1) ops1(1) by simp
  moreover have "750000 \<le> unat (commit_fraction_fp (fork_run vs ?p ops1))"
    using ops1(2) by (simp add: word_le_nat_alt FORK_COMMIT_THRESHOLD_FP_def)
  moreover have "unat (abort_fraction_fp (fork_run vs ?p (ops1 @ Evaluate (a - 3) t1 # ops2))) < 670000"
    using pre(4) ops1(1) by (simp add: word_less_nat_alt FORK_ABORT_THRESHOLD_FP_def)
  ultimately show ?thesis using pre(2) by blast
qed

definition sample_vote :: "u8 \<Rightarrow> signal_type \<Rightarrow> fork_signal_message" where
  "sample_vote n ty = \<lparr>fm_node_id = [n], fm_epoch_id = 5, fm_fork_hash = [1], fm_signal_type = ty,
     fm_timestamp = 0, fm_signature = [1], fm_public_key = [1]\<rparr>"

definition sample_fork_run :: "fork_op list" where
  "sample_fork_run = [Signal (sample_vote 1 Commit) 80, Evaluate 5 0, Evaluate 8 0]"

lemma sample_fork_active:
  "fp_state (fork_run (\<lambda>_ _ _. Some True) (fork_proposal_new [1] NormalFork 5 0 100) sample_fork_run) = Active 8"
proof -
  define q where "q = fork_run (\<lambda>_ _ _. Some True) (fork_proposal_new [1] NormalFork 5 0 100)
      [Signal (sample_vote 1 Commit) 80, Evaluate 5 0]"
  have "fp_state q = Committed 5" "fp_total_governance_power_fp q = 100" "abort_fraction_fp q = 0" "fp_fork_type q = NormalFork"
    by (simp_all add: q_def add_signal_def verify_sig_def sample_vote_def fork_proposal_new_def evaluate_transition_def
        commit_fraction_fp_def abort_fraction_fp_def signal_power_def saturating_add_def saturating_mul_def
        FORK_COMMIT_THRESHOLD_FP_def FORK_FIXED_POINT_BASIS_def)
  then have "fp_state (fork_exec (\<lambda>_ _ _. Some True) q (Evaluate 8 0)) = Active 8"
    by (simp add: evaluate_transition_def FORK_ABORT_THRESHOLD_FP_def FORK_ACTIVATION_OFFSET_EPOCHS_def)
  then show ?thesis by (simp add: q_def sample_fork_run_def)
qed

theorem fork_activation_needs_quorum_witness:
  "\<exists>ops1 t1 ops2 e2 t2 ops3. sample_fork_run = ops1 @ Evaluate (8 - 3) t1 # ops2 @ Evaluate e2 t2 # ops3 \<and> 8 \<le> e2
    \<and> 750000 \<le> unat (commit_fraction_fp (fork_run (\<lambda>_ _ _. Some True) (fork_proposal_new [1] NormalFork 5 0 100) ops1))
    \<and> unat (abort_fraction_fp (fork_run (\<lambda>_ _ _. Some True) (fork_proposal_new [1] NormalFork 5 0 100)
        (ops1 @ Evaluate (8 - 3) t1 # ops2))) < 670000
    \<and> fork_run (\<lambda>_ _ _. Some True) (fork_proposal_new [1] NormalFork 5 0 100) (sample_fork_run @ [Evaluate 9 9])
        = fork_run (\<lambda>_ _ _. Some True) (fork_proposal_new [1] NormalFork 5 0 100) sample_fork_run"
  by (rule fork_activation_needs_quorum) (rule sample_fork_active)

section \<open>Fractions\<close>

definition type_power :: "signal_type \<Rightarrow> (bytes \<times> node_signal) list \<Rightarrow> nat" where
  "type_power ty signals = (\<Sum>s\<leftarrow>filter (\<lambda>s. sg_signal_type s = ty) (map snd signals). unat (sg_governance_power_fp s))"

lemma unat_signal_power: "unat (signal_power ty signals) = min (type_power ty signals) 18446744073709551615"
  by (simp add: signal_power_def unat_fold_saturating_add type_power_def comp_def)

lemma type_power_split:
  "type_power Commit signals + type_power Abort signals = (\<Sum>s\<leftarrow>map snd signals. unat (sg_governance_power_fp s))"
proof (induction signals)
  case (Cons s signals)
  then show ?case by (cases "sg_signal_type (snd s)") (auto simp: type_power_def)
qed (simp add: type_power_def)

lemma div_add_le: "(a :: nat) div d + b div d \<le> (a + b) div d"
  using div_add1_eq [of a b d] by linarith

text \<open>As long as the signalled powers do not exceed the total and fit the 64-bit product, each
  fraction is the exact rounded-down share, and the two never add up to more than the whole: a
  proposal cannot meet the 75 per cent commit and the 67 per cent abort threshold with the same signals.\<close>

theorem fork_fractions_exact:
  assumes "(\<Sum>s\<leftarrow>map snd (fp_signals p). unat (sg_governance_power_fp s)) \<le> unat (fp_total_governance_power_fp p)"
    and "unat (fp_total_governance_power_fp p) \<le> 18446744073709"
    and "fp_total_governance_power_fp p \<noteq> 0"
  shows "unat (commit_fraction_fp p) = type_power Commit (fp_signals p) * 1000000 div unat (fp_total_governance_power_fp p)
    \<and> unat (abort_fraction_fp p) = type_power Abort (fp_signals p) * 1000000 div unat (fp_total_governance_power_fp p)
    \<and> unat (commit_fraction_fp p) + unat (abort_fraction_fp p) \<le> 1000000
    \<and> \<not> (FORK_COMMIT_THRESHOLD_FP \<le> commit_fraction_fp p \<and> FORK_ABORT_THRESHOLD_FP \<le> abort_fraction_fp p)"
proof -
  let ?T = "unat (fp_total_governance_power_fp p)" and ?c = "type_power Commit (fp_signals p)"
    and ?a = "type_power Abort (fp_signals p)"
  have sum: "?c + ?a \<le> ?T" using assms(1) by (simp add: type_power_split)
  have T: "0 < ?T" using assms(3) by (simp add: unat_eq_zero unat_gt_0)
  have frac: "unat (saturating_mul (signal_power ty (fp_signals p)) FORK_FIXED_POINT_BASIS
      div fp_total_governance_power_fp p) = type_power ty (fp_signals p) * 1000000 div ?T" for ty
  proof -
    have "type_power ty (fp_signals p) \<le> 18446744073709"
      using sum assms(2) by (cases ty) auto
    then show ?thesis
      by (simp add: unat_div unat_saturating_mul unat_signal_power FORK_FIXED_POINT_BASIS_def)
  qed
  have c: "unat (commit_fraction_fp p) = ?c * 1000000 div ?T" and a: "unat (abort_fraction_fp p) = ?a * 1000000 div ?T"
    using frac assms(3) by (simp_all add: commit_fraction_fp_def abort_fraction_fp_def)
  have "(?c + ?a) * 1000000 div ?T \<le> ?T * 1000000 div ?T" using sum by (intro div_le_mono) simp
  then have le: "?c * 1000000 div ?T + ?a * 1000000 div ?T \<le> 1000000"
    using div_add_le [of "?c * 1000000" ?T "?a * 1000000"] T by (simp add: distrib_right)
  then show ?thesis
    using c a by (simp add: word_le_nat_alt FORK_COMMIT_THRESHOLD_FP_def FORK_ABORT_THRESHOLD_FP_def)
qed

theorem fork_fractions_exact_witness:
  "let p = fst (add_signal (\<lambda>_ _ _. Some True) (fork_proposal_new [1] NormalFork 5 0 100) (sample_vote 1 Commit) 80) in
    unat (commit_fraction_fp p) = type_power Commit (fp_signals p) * 1000000 div unat (fp_total_governance_power_fp p)
    \<and> unat (abort_fraction_fp p) = type_power Abort (fp_signals p) * 1000000 div unat (fp_total_governance_power_fp p)
    \<and> unat (commit_fraction_fp p) + unat (abort_fraction_fp p) \<le> 1000000
    \<and> \<not> (FORK_COMMIT_THRESHOLD_FP \<le> commit_fraction_fp p \<and> FORK_ABORT_THRESHOLD_FP \<le> abort_fraction_fp p)"
  unfolding Let_def
  by (rule fork_fractions_exact) (simp_all add: add_signal_def verify_sig_def sample_vote_def fork_proposal_new_def)

section \<open>Votes that are not the voter's\<close>

text \<open>A vote is checked against the public key it carries itself, which nothing ties to the node it
  names.  Whoever can sign with any key of his own can therefore cast, and overwrite, the vote of every node: while
  the proposal is open, \<open>add_signal\<close> accepts the message and records the signal and power under the
  victim's id, whatever the victim had signalled.\<close>

theorem fork_vote_forgeable:
  assumes "fp_state p = Pending"
    and "verify_signature (vote_message m) (fm_signature m) (fm_public_key m) = Some True"
    and "fm_public_key m \<noteq> []" and "fm_signature m \<noteq> []" and "fm_node_id m = victim"
    and "map_of (fp_signals p) victim = Some old" and "add_signal verify_signature p m power_fp = (p', r)"
  shows "r = Inr () \<and> map_of (fp_signals p') victim
    = Some \<lparr>sg_signal_type = fm_signal_type m, sg_governance_power_fp = power_fp\<rparr>"
  using assms by (auto simp: add_signal_def verify_sig_def)

theorem fork_vote_forgeable_witness:
  "snd (add_signal (\<lambda>msg sig pk. Some (sig = pk)) (fst (add_signal (\<lambda>msg sig pk. Some (sig = pk))
      (fork_proposal_new [1] NormalFork 5 0 100) (sample_vote 7 Commit) 60))
      (sample_vote 7 Abort\<lparr>fm_signature := [9], fm_public_key := [9]\<rparr>) 60) = Inr ()
   \<and> map_of (fp_signals (fst (add_signal (\<lambda>msg sig pk. Some (sig = pk)) (fst (add_signal (\<lambda>msg sig pk. Some (sig = pk))
      (fork_proposal_new [1] NormalFork 5 0 100) (sample_vote 7 Commit) 60))
      (sample_vote 7 Abort\<lparr>fm_signature := [9], fm_public_key := [9]\<rparr>) 60))) [7]
    = Some \<lparr>sg_signal_type = fm_signal_type (sample_vote 7 Abort\<lparr>fm_signature := [9], fm_public_key := [9]\<rparr>), sg_governance_power_fp = 60\<rparr>"
  by (rule fork_vote_forgeable [where verify_signature = "\<lambda>msg sig pk. Some (sig = pk)"
        and m = "sample_vote 7 Abort\<lparr>fm_signature := [9], fm_public_key := [9]\<rparr>"
        and p = "fst (add_signal (\<lambda>msg sig pk. Some (sig = pk)) (fork_proposal_new [1] NormalFork 5 0 100) (sample_vote 7 Commit) 60)"
        and old = "\<lparr>sg_signal_type = Commit, sg_governance_power_fp = 60\<rparr>"])
    (simp_all add: add_signal_def verify_sig_def sample_vote_def fork_proposal_new_def)

text \<open>The signed message covers neither the timestamp nor a counter: after a node has changed its mind, anybody
  can replay its first message and restore the first vote.\<close>

theorem fork_vote_replayable:
  assumes "fp_state p = Pending" and "verify_sig vs m1" and "verify_sig vs m2" and "fm_node_id m1 = fm_node_id m2"
  shows "map_of (fp_signals (fork_run vs p [Signal m1 w, Signal m2 w, Signal m1 w])) (fm_node_id m1)
    = Some \<lparr>sg_signal_type = fm_signal_type m1, sg_governance_power_fp = w\<rparr>"
  using assms by (simp add: add_signal_def)

text \<open>Proposing a fork again starts it over: \<open>add_proposal\<close> replaces a stored proposal of the same hash,
  whatever its state, so an active or cancelled fork is pending again.\<close>

theorem reproposal_resets_fork:
  assumes "fs_get s h = Some p" and "fp_state p = Active a"
  shows "\<exists>q. fs_get (add_proposal s (fork_proposal_new h ty e t G)) h = Some q \<and> fp_state q = Pending \<and> fp_signals q = []"
  by (simp add: fs_get_def add_proposal_def fork_proposal_new_def)

section \<open>The node life cycle\<close>

text \<open>A node that has left bootstrapping and stays offline is in backup operation after two evaluations,
  whatever the other sensors say; with the network back and synchronisation reported it is active
  after two.\<close>

theorem node_settles:
  assumes "s \<noteq> Bootstrapping"
  shows "evaluate_transitions (evaluate_transitions s True b c) True b' c' = Partitioned
    \<and> evaluate_transitions (evaluate_transitions s False True c) False True c' = NodeActive"
  using assms by (cases s) (auto simp: evaluate_transitions_def)

end
