(* ===== verification/Wallet.thy ===== *)
theory Wallet
  imports Prelude
begin

text \<open>
  The wallet's coins: the fixed denominations (\<open>client/scalar-wallet-core/src/denomination.rs\<close>) and coin
  selection with the fee adequacy step and the fee reserve (\<open>coin_selection.rs\<close>).  The message texts of the
  results are left out.
\<close>

section \<open>Denominations\<close>

datatype denomination = D1 | D2 | D3 | D4 | D5 | D6 | D7 | D8 | D9 | D10 | D11 | D12 | D13 | D14 | D15 | D16 | D17

primrec value_sscl :: "denomination \<Rightarrow> u64" where
  "value_sscl D1 = 1"
| "value_sscl D2 = 5"
| "value_sscl D3 = 10"
| "value_sscl D4 = 50"
| "value_sscl D5 = 100"
| "value_sscl D6 = 500"
| "value_sscl D7 = 1000"
| "value_sscl D8 = 5000"
| "value_sscl D9 = 10000"
| "value_sscl D10 = 50000"
| "value_sscl D11 = 100000"
| "value_sscl D12 = 500000"
| "value_sscl D13 = 1000000"
| "value_sscl D14 = 5000000"
| "value_sscl D15 = 10000000"
| "value_sscl D16 = 50000000"
| "value_sscl D17 = 100000000"

definition ALL_DENOMINATIONS :: "u64 list" where
  "ALL_DENOMINATIONS = [1, 5, 10, 50, 100, 500, 1000, 5000, 10000, 50000, 100000, 500000, 1000000, 5000000,
     10000000, 50000000, 100000000]"

definition from_sscl :: "u64 \<Rightarrow> denomination option" where
  "from_sscl v = (if v = 1 then Some D1 else if v = 5 then Some D2 else if v = 10 then Some D3
     else if v = 50 then Some D4 else if v = 100 then Some D5 else if v = 500 then Some D6
     else if v = 1000 then Some D7 else if v = 5000 then Some D8 else if v = 10000 then Some D9
     else if v = 50000 then Some D10 else if v = 100000 then Some D11 else if v = 500000 then Some D12
     else if v = 1000000 then Some D13 else if v = 5000000 then Some D14 else if v = 10000000 then Some D15
     else if v = 50000000 then Some D16 else if v = 100000000 then Some D17 else None)"

definition denomination_is_valid :: "u64 \<Rightarrow> bool" where
  "denomination_is_valid v \<longleftrightarrow> from_sscl v \<noteq> None"

section \<open>Coin selection\<close>

definition MAX_INPUTS :: nat where
  "MAX_INPUTS = 10"

definition DENOMINATIONS :: "u64 list" where
  "DENOMINATIONS = [1, 5, 10, 50, 100, 500, 1000, 5000, 10000, 50000, 100000, 500000, 1000000, 5000000,
     10000000, 50000000, 100000000]"

definition FEE_RESERVE_DENOM_MAX_IDX :: nat where
  "FEE_RESERVE_DENOM_MAX_IDX = 5"

definition FEE_RESERVE_NOTIFY_THRESHOLD_SSCL :: u64 where
  "FEE_RESERVE_NOTIFY_THRESHOLD_SSCL = 1000"

record wallet_coin =
  wc_value :: u64
  wc_count :: u32

datatype coin_selection_result =
    SelectionOk "u64 list" u64 u64
  | RequiresConsolidation
  | InsufficientBalance

datatype fee_reserve_status = Adequate u64 | Low u64 | ReserveEmpty

definition coin_pool :: "wallet_coin list \<Rightarrow> u64 list" where
  "coin_pool available_coins = sort (concat (map (\<lambda>c. replicate (unat (wc_count c)) (wc_value c)) available_coins))"

text \<open>\<open>partition_point\<close> on a sorted slice: the number of leading elements below the bound.\<close>

definition partition_point :: "u64 \<Rightarrow> u64 list \<Rightarrow> nat" where
  "partition_point bound pool = length (takeWhile (\<lambda>v. v < bound) pool)"

definition remove_nth :: "nat \<Rightarrow> 'x list \<Rightarrow> 'x list" where
  "remove_nth i xs = take i xs @ drop (Suc i) xs"

function fee_loop :: "u64 \<Rightarrow> u64 list \<Rightarrow> u64 \<Rightarrow> u64 list \<Rightarrow> coin_selection_result" where
  "fee_loop total_needed selected total_selected pool =
     (let shortfall = saturating_sub total_needed total_selected
      in if \<not> shortfall > 0
         then SelectionOk selected total_selected (saturating_sub total_selected total_needed)
         else if length selected \<ge> MAX_INPUTS then RequiresConsolidation
         else if pool = [] then InsufficientBalance
         else
           let best_idx = partition_point shortfall pool;
               chosen_idx = (if best_idx < length pool then best_idx else length pool - 1);
               coin_value = pool ! chosen_idx
           in fee_loop total_needed (selected @ [coin_value]) (saturating_add total_selected coin_value)
                (remove_nth chosen_idx pool))"
  by pat_completeness auto

termination fee_loop
  by (relation "measure (\<lambda>(_, _, _, pool). length pool)") (auto simp: remove_nth_def)

declare fee_loop.simps [simp del]

definition step2b_fee_adequacy_check ::
  "u64 list \<Rightarrow> wallet_coin list \<Rightarrow> u64 \<Rightarrow> u64 \<Rightarrow> coin_selection_result" where
  "step2b_fee_adequacy_check selected_so_far available_coins target_value fee_total =
     (let total_needed = saturating_add target_value fee_total;
          total_selected = sum_list selected_so_far
      in if total_selected \<ge> total_needed
         then SelectionOk selected_so_far total_selected (saturating_sub total_selected total_needed)
         else fee_loop total_needed selected_so_far total_selected (coin_pool available_coins))"

definition total_fee_reserve :: "wallet_coin list \<Rightarrow> u64" where
  "total_fee_reserve wallet_coins =
     (let max_reserve_denom = DENOMINATIONS ! FEE_RESERVE_DENOM_MAX_IDX
      in sum_list (map (\<lambda>c. saturating_mul (wc_value c) (ucast (wc_count c)))
           (filter (\<lambda>c. wc_value c \<le> max_reserve_denom) wallet_coins)))"

definition check_fee_reserve :: "wallet_coin list \<Rightarrow> fee_reserve_status" where
  "check_fee_reserve wallet_coins =
     (let max_reserve_denom = DENOMINATIONS ! FEE_RESERVE_DENOM_MAX_IDX;
          total_reserve = sum_list (map (\<lambda>c. saturating_mul (wc_value c) (ucast (wc_count c)))
            (filter (\<lambda>c. wc_value c \<le> max_reserve_denom) wallet_coins))
      in if total_reserve = 0 then ReserveEmpty
         else if total_reserve < FEE_RESERVE_NOTIFY_THRESHOLD_SSCL then Low total_reserve
         else Adequate total_reserve)"

section \<open>Correctness of the denominations\<close>

text \<open>Denominations and their values correspond one to one, and the two tables of the wallet agree.\<close>

theorem denomination_roundtrip:
  "from_sscl (value_sscl d) = Some d" "from_sscl v = Some d \<longleftrightarrow> value_sscl d = v"
  "denomination_is_valid v \<longleftrightarrow> v \<in> set ALL_DENOMINATIONS" "DENOMINATIONS = ALL_DENOMINATIONS"
  "sorted_wrt (<) ALL_DENOMINATIONS"
proof -
  show "from_sscl (value_sscl d) = Some d" for d by (cases d) (simp_all add: from_sscl_def)
  moreover have "from_sscl v = Some d \<Longrightarrow> value_sscl d = v"
    by (auto simp: from_sscl_def split: if_splits)
  ultimately show "from_sscl v = Some d \<longleftrightarrow> value_sscl d = v" by blast
  show "denomination_is_valid v \<longleftrightarrow> v \<in> set ALL_DENOMINATIONS"
    by (simp add: denomination_is_valid_def from_sscl_def ALL_DENOMINATIONS_def)
  show "DENOMINATIONS = ALL_DENOMINATIONS" "sorted_wrt (<) ALL_DENOMINATIONS"
    by (simp_all add: DENOMINATIONS_def ALL_DENOMINATIONS_def)
qed

section \<open>Correctness of coin selection\<close>

definition chosen_idx :: "u64 \<Rightarrow> u64 list \<Rightarrow> nat" where
  "chosen_idx shortfall pool =
     (if partition_point shortfall pool < length pool then partition_point shortfall pool else length pool - 1)"

lemma remove_nth_facts:
  assumes "i < length xs"
  shows "mset xs = add_mset (xs ! i) (mset (remove_nth i xs))" and "sorted xs \<Longrightarrow> sorted (remove_nth i xs)"
proof -
  have split: "xs = take i xs @ xs ! i # drop (Suc i) xs" using assms by (rule id_take_nth_drop)
  show "mset xs = add_mset (xs ! i) (mset (remove_nth i xs))"
    by (subst split) (simp add: remove_nth_def)
  show "sorted (remove_nth i xs)" if "sorted xs"
    using that by (subst (asm) split) (auto simp: remove_nth_def sorted_append)
qed

text \<open>The chosen coin covers the shortfall, or no coin does and it is a largest one.\<close>

lemma chosen_coin:
  assumes "pool \<noteq> []" and "sorted pool" and i_def: "i = chosen_idx shortfall pool"
  shows "i < length pool" and "shortfall \<le> pool ! i \<or> (\<forall>v\<in>set pool. v < shortfall \<and> v \<le> pool ! i)"
proof -
  let ?t = "takeWhile (\<lambda>v. v < shortfall) pool"
  show "i < length pool" using assms by (simp add: i_def chosen_idx_def)
  show "shortfall \<le> pool ! i \<or> (\<forall>v\<in>set pool. v < shortfall \<and> v \<le> pool ! i)"
  proof (cases "partition_point shortfall pool < length pool")
    case True
    then show ?thesis
      using nth_length_takeWhile [of "\<lambda>v. v < shortfall" pool]
      by (simp add: i_def chosen_idx_def partition_point_def not_less)
  next
    case False
    then have "length ?t = length pool"
      using length_takeWhile_le [of "\<lambda>v. v < shortfall" pool] by (simp add: partition_point_def)
    then have "\<forall>v\<in>set pool. v < shortfall" by (metis takeWhile_eq_all_conv takeWhile_eq_take take_all order_refl)
    moreover have "v \<le> pool ! i" if "v \<in> set pool" for v
      using that False assms(1,2) sorted_nth_mono [of pool _ "length pool - 1"]
      by (auto simp: i_def chosen_idx_def in_set_conv_nth)
    ultimately show ?thesis by blast
  qed
qed

definition coin_sum :: "u64 list \<Rightarrow> nat" where
  "coin_sum xs = (\<Sum>v\<leftarrow>xs. unat v)"

definition mcoin_sum :: "u64 multiset \<Rightarrow> nat" where
  "mcoin_sum M = (\<Sum>v\<in>#M. unat v)"

lemma mcoin_sum_simps [simp]:
  "mcoin_sum {#} = 0" "mcoin_sum (add_mset v M) = unat v + mcoin_sum M" "mcoin_sum (mset xs) = coin_sum xs"
  by (simp_all add: mcoin_sum_def coin_sum_def sum_mset_sum_list flip: mset_map)

text \<open>Exchange: taking a largest coin first is never worse.\<close>

lemma take_largest_first:
  assumes Q: "Q \<subseteq># add_mset m P" "size Q \<le> Suc k" and max: "\<forall>v\<in>#add_mset m P. v \<le> m"
    and rest: "\<And>R. R \<subseteq># P \<Longrightarrow> size R \<le> k \<Longrightarrow> T + unat m + mcoin_sum R < n"
    and short: "T < n"
  shows "T + mcoin_sum Q < n"
proof (cases "m \<in># Q")
  case True
  then obtain R where R: "Q = add_mset m R" by (metis insert_DiffM)
  then have "R \<subseteq># P" "size R \<le> k" using Q by simp_all
  then show ?thesis using rest [of R] R by simp
next
  case False
  show ?thesis
  proof (cases Q)
    case empty
    then show ?thesis using short by simp
  next
    case (add q R)
    have "Q \<subseteq># P" using Q(1) False unfolding subseteq_mset_def by (metis count_add_mset count_inI le0)
    then have "R \<subseteq># P" using add by (meson mset_subset_eq_insertD subset_mset.less_imp_le)
    moreover have "size R \<le> k" using Q(2) add by simp
    moreover have "unat q \<le> unat m"
      using max Q(1) add by (metis mset_subset_eqD union_single_eq_member word_le_nat_alt)
    ultimately show ?thesis using rest [of R] add by fastforce
  qed
qed

text \<open>What each result of the loop says, over natural numbers.\<close>

fun selection_spec :: "nat \<Rightarrow> u64 list \<Rightarrow> nat \<Rightarrow> u64 multiset \<Rightarrow> coin_selection_result \<Rightarrow> bool" where
  "selection_spec n sel T P (SelectionOk s t c) \<longleftrightarrow>
     (\<exists>picks. s = sel @ picks \<and> mset picks \<subseteq># P \<and> unat t = T + coin_sum picks \<and> n \<le> unat t
        \<and> unat c = unat t - n \<and> (picks = [] \<or> length s \<le> 10))"
| "selection_spec n sel T P RequiresConsolidation \<longleftrightarrow>
     (\<forall>Q. Q \<subseteq># P \<longrightarrow> length sel + size Q \<le> 10 \<longrightarrow> T + mcoin_sum Q < n)"
| "selection_spec n sel T P InsufficientBalance \<longleftrightarrow> T + mcoin_sum P < n"

lemma selection_spec_pick:
  assumes "selection_spec n (sel @ [v]) (T + unat v) P r" and "T < n" and "length sel < 10"
    and "n \<le> T + unat v \<longrightarrow> r \<noteq> RequiresConsolidation" and "T + unat v < n \<longrightarrow> (\<forall>w\<in>#add_mset v P. w \<le> v)"
  shows "selection_spec n sel T (add_mset v P) r"
proof (cases r)
  case (SelectionOk s t c)
  then obtain picks where p: "s = (sel @ [v]) @ picks" "mset picks \<subseteq># P" "unat t = T + unat v + coin_sum picks"
      "n \<le> unat t" "unat c = unat t - n" "picks = [] \<or> length s \<le> 10"
    using assms(1) by auto
  have "length s \<le> 10" using p(1,6) assms(3) by auto
  then have "s = sel @ (v # picks) \<and> mset (v # picks) \<subseteq># add_mset v P \<and> unat t = T + coin_sum (v # picks)
      \<and> n \<le> unat t \<and> unat c = unat t - n \<and> (v # picks = [] \<or> length s \<le> 10)"
    using p by (simp add: coin_sum_def)
  then show ?thesis unfolding SelectionOk selection_spec.simps by blast
next
  case RequiresConsolidation
  then have lt: "T + unat v < n" using assms(4) by (meson not_le)
  have rest: "T + unat v + mcoin_sum R < n" if "R \<subseteq># P" "size R \<le> 9 - length sel" for R
    using assms(1,3) that RequiresConsolidation by simp
  have "T + mcoin_sum Q < n" if "Q \<subseteq># add_mset v P" "length sel + size Q \<le> 10" for Q
    by (rule take_largest_first [where k = "9 - length sel"])
      (use that assms(2,3,5) lt rest in auto)
  then show ?thesis using RequiresConsolidation by simp
next
  case InsufficientBalance
  then show ?thesis using assms(1) by simp
qed

lemma fee_loop_spec:
  assumes "sorted pool" and "unat tot + coin_sum pool < 2 ^ 64"
  shows "selection_spec (unat needed) sel (unat tot) (mset pool) (fee_loop needed sel tot pool)"
  using assms
proof (induction needed sel tot pool rule: fee_loop.induct)
  case (1 needed sel tot pool)
  let ?short = "saturating_sub needed tot"
  have short: "unat ?short = unat needed - unat tot" by (rule unat_saturating_sub)
  consider (enough) "\<not> 0 < ?short" | (full) "0 < ?short" "10 \<le> length sel" | (none) "0 < ?short" "length sel < 10" "pool = []"
    | (pick) "0 < ?short" "length sel < 10" "pool \<noteq> []" by linarith
  then show ?case
  proof cases
    case enough
    then have "unat needed \<le> unat tot" using short by (simp add: word_less_nat_alt)
    then show ?thesis
      using enough by (subst fee_loop.simps) (simp add: unat_saturating_sub coin_sum_def)
  next
    case full
    then have "unat tot < unat needed" using short by (simp add: word_less_nat_alt)
    moreover have none_left: "Q = {#}" if "length sel + size Q \<le> 10" for Q :: "u64 multiset"
    proof -
      have "size Q = 0" using that full(2) by linarith
      then show ?thesis by simp
    qed
    ultimately show ?thesis
      using full by (subst fee_loop.simps) (auto simp: MAX_INPUTS_def dest!: none_left)
  next
    case none
    then have "unat tot < unat needed" using short by (simp add: word_less_nat_alt)
    then show ?thesis using none by (subst fee_loop.simps) (simp add: MAX_INPUTS_def coin_sum_def)
  next
    case pick
    have lt: "unat tot < unat needed" using pick(1) short by (simp add: word_less_nat_alt)
    define i where "i = chosen_idx ?short pool"
    let ?v = "pool ! i" and ?rest = "remove_nth i pool"
    note ch = chosen_coin [OF pick(3) "1.prems"(1) i_def]
    have P: "mset pool = add_mset ?v (mset ?rest)" by (rule remove_nth_facts(1) [OF ch(1)])
    then have sum: "coin_sum pool = unat ?v + coin_sum ?rest"
      using mcoin_sum_simps(2,3) by metis
    then have tot: "unat (saturating_add tot ?v) = unat tot + unat ?v"
      using "1.prems"(2) by (simp add: unat_saturating_add)
    let ?r = "fee_loop needed (sel @ [?v]) (saturating_add tot ?v) ?rest"
    have eq: "fee_loop needed sel tot pool = ?r"
      using pick by (subst fee_loop.simps) (simp add: MAX_INPUTS_def i_def chosen_idx_def Let_def)
    have IH: "selection_spec (unat needed) (sel @ [?v]) (unat tot + unat ?v) (mset ?rest) ?r"
      using "1.IH" [OF refl _ _ _ refl refl refl] pick remove_nth_facts(2) [OF ch(1) "1.prems"(1)] "1.prems"(2) sum tot
      by (simp add: MAX_INPUTS_def i_def chosen_idx_def)
    have covered: "?r \<noteq> RequiresConsolidation" if "unat needed \<le> unat tot + unat ?v"
      using that tot by (subst fee_loop.simps) (simp add: word_less_nat_alt unat_saturating_sub)
    have "\<forall>w\<in>#add_mset ?v (mset ?rest). w \<le> ?v" if "unat tot + unat ?v < unat needed"
    proof -
      have "\<not> ?short \<le> ?v" using that short by (simp add: word_le_nat_alt)
      then show ?thesis using ch(2) P by (metis set_mset_mset)
    qed
    then show ?thesis
      unfolding eq P by (intro selection_spec_pick) (use IH lt pick(2) covered in auto)
  qed
qed

text \<open>C34. Coin selection is right in each of its answers, as long as the wallet's coins add up to less than
  \<open>2\<^sup>64\<close>.  A selection extends what was already chosen by coins of the wallet, covers target and fee,
  reports the exact change, and uses at most ten inputs unless the coins chosen before were enough by themselves;
  \<open>RequiresConsolidation\<close> is given only if no choice of further coins within the ten inputs would have
  covered the amount (the greedy choice is optimal), \<open>InsufficientBalance\<close> only if all coins together do not.\<close>

theorem coin_selection_correct:
  assumes "coin_sum sel + coin_sum (coin_pool coins) < 2 ^ 64"
  shows "selection_spec (min (unat target + unat fee) (2 ^ 64 - 1)) sel (coin_sum sel) (mset (coin_pool coins))
    (step2b_fee_adequacy_check sel coins target fee)"
proof -
  let ?needed = "saturating_add target fee"
  have needed: "unat ?needed = min (unat target + unat fee) (2 ^ 64 - 1)"
    using unat_saturating_add [of target fee] by simp
  have tot: "unat (sum_list sel) = coin_sum sel"
    using assms unat_sum_list_no_overflow [of sel] by (simp add: coin_sum_def)
  show ?thesis
  proof (cases "?needed \<le> sum_list sel")
    case True
    then have "unat ?needed \<le> coin_sum sel" by (simp add: word_le_nat_alt tot)
    moreover have "step2b_fee_adequacy_check sel coins target fee
        = SelectionOk sel (sum_list sel) (saturating_sub (sum_list sel) ?needed)"
      using True by (simp add: step2b_fee_adequacy_check_def Let_def)
    ultimately show ?thesis
      unfolding needed [symmetric] by (simp add: tot unat_saturating_sub coin_sum_def)
  next
    case False
    then have "step2b_fee_adequacy_check sel coins target fee = fee_loop ?needed sel (sum_list sel) (coin_pool coins)"
      by (simp add: step2b_fee_adequacy_check_def Let_def)
    moreover have "selection_spec (unat ?needed) sel (unat (sum_list sel)) (mset (coin_pool coins))
        (fee_loop ?needed sel (sum_list sel) (coin_pool coins))"
      using assms by (intro fee_loop_spec) (simp_all add: coin_pool_def tot)
    ultimately show ?thesis by (simp only: needed tot)
  qed
qed

lemma replicate_2: "replicate 2 x = [x, x]"
  by (simp add: numeral_2_eq_2)

theorem coin_selection_correct_witness:
  "selection_spec (min (unat (100 :: u64) + unat (7 :: u64)) (2 ^ 64 - 1)) [50] (coin_sum [50])
    (mset (coin_pool [\<lparr>wc_value = 50, wc_count = 1\<rparr>, \<lparr>wc_value = 10, wc_count = 2\<rparr>]))
    (step2b_fee_adequacy_check [50] [\<lparr>wc_value = 50, wc_count = 1\<rparr>, \<lparr>wc_value = 10, wc_count = 2\<rparr>] 100 7)"
  by (rule coin_selection_correct) (simp add: coin_sum_def coin_pool_def replicate_2)

end
