(* ===== verification/Governance.thy ===== *)
theory Governance
  imports Heartbeat
begin

text \<open>
  Governance power (\<open>client/scalar-governance/src\<close>): the conviction table (\<open>conviction.rs\<close>), the power formulas
  (\<open>governance_power.rs\<close>, \<open>governance_power_v12.rs\<close>, \<open>anti_sybil.rs\<close>), participant validation, the safeguards
  (\<open>ai_resistance.rs\<close>) and the checks on fork proposals (\<open>fork_governance.rs\<close>).  The maturity they take comes from
  the store of \<open>Heartbeat\<close>.  BLAKE3 is the parameter \<open>blake3\<close>.
\<close>

section \<open>Conviction\<close>

definition conviction_checkpoints :: "(u32 \<times> u64) list" where
  "conviction_checkpoints = [(0, 0), (7, 521799), (14, 771361), (22, 901504), (30, 957584), (60, 998187),
     (365, 1000000)]"

fun interpolate_windows :: "u32 \<Rightarrow> (u32 \<times> u64) list \<Rightarrow> u64" where
  "interpolate_windows t ((t1, v1) # (t2, v2) # rest) =
     (if t \<ge> t1 \<and> t \<le> t2
      then (let range = ucast (t2 - t1); progress = ucast (t - t1) in v1 + (v2 - v1) * progress div range)
      else interpolate_windows t ((t2, v2) # rest))"
| "interpolate_windows t _ = 1000000"

definition interpolate :: "u32 \<Rightarrow> u64" where
  "interpolate t = interpolate_windows t conviction_checkpoints"

definition conviction_factor :: "u32 \<Rightarrow> u64" where
  "conviction_factor t_days =
     (if t_days = 0 then 0 else if t_days = 1 then 100000 else if t_days = 2 then 190000
      else if t_days = 3 then 271000 else if t_days = 4 then 344000 else if t_days = 5 then 410000
      else if t_days = 6 then 469000 else if t_days = 7 then 521799 else if t_days = 14 then 771361
      else if t_days = 22 then 901504 else if t_days = 30 then 957584 else if t_days = 60 then 998187
      else if 365 \<le> t_days then 1000000 else interpolate t_days)"

section \<open>Power\<close>

definition NODESCORE_HIGH_THRESHOLD :: u32 where
  "NODESCORE_HIGH_THRESHOLD = 800000"

definition NODESCORE_GP_HIGH_CAP :: u64 where
  "NODESCORE_GP_HIGH_CAP = 1000000"

definition NODESCORE_GP_LOW_CAP :: u64 where
  "NODESCORE_GP_LOW_CAP = 200000"

definition GP_FP_BASIS :: u64 where
  "GP_FP_BASIS = 1000000"

definition gov_max_fp :: "u32 \<Rightarrow> u64" where
  "gov_max_fp node_score_prev_epoch =
     (if node_score_prev_epoch \<ge> NODESCORE_HIGH_THRESHOLD then NODESCORE_GP_HIGH_CAP else NODESCORE_GP_LOW_CAP)"

definition compute_base_gp :: "u64 \<Rightarrow> u64 \<Rightarrow> u64" where
  "compute_base_gp conviction_factor_fp maturity_fp =
     ucast (unwrap_or (checked_div (saturating_mul (ucast conviction_factor_fp) (ucast maturity_fp))
       (ucast GP_FP_BASIS)) (0 :: u128))"

definition compute_governance_power_v12 :: "u32 \<Rightarrow> u64 \<Rightarrow> u64 \<Rightarrow> u64" where
  "compute_governance_power_v12 node_score_prev_epoch conviction_factor_fp maturity_fp =
     (let base_gp = compute_base_gp conviction_factor_fp maturity_fp
      in min base_gp (gov_max_fp node_score_prev_epoch))"

definition ai_resistance_multiplier :: "u32 \<Rightarrow> u64" where
  "ai_resistance_multiplier conviction_days =
     (if conviction_days \<le> 6 then 10000
      else if 30 \<le> conviction_days then 1000000
      else let progress = conviction_days - 7 in 10000 + (990000 * ucast progress) div 23)"

definition compute_governance_power :: "u32 \<Rightarrow> u64 \<Rightarrow> u64" where
  "compute_governance_power conviction_days gov_weight =
     (let cf = conviction_factor conviction_days;
          ai_mult = ai_resistance_multiplier conviction_days;
          intermediate = (cf * gov_weight) div 1000000
      in (intermediate * ai_mult) div 1000000)"

section \<open>Participants\<close>

definition GOVERNANCE_MIN_STAKE_SSCL :: u64 where
  "GOVERNANCE_MIN_STAKE_SSCL = 100000"

definition compute_governance_power_v9 :: "u64 \<Rightarrow> u64 \<Rightarrow> u64" where
  "compute_governance_power_v9 uptime_weight_fp conviction_factor_fp =
     ucast (unwrap_or (checked_div (saturating_mul (ucast uptime_weight_fp) (ucast conviction_factor_fp))
       (ucast GP_FP_BASIS)) (0 :: u128))"

datatype anti_sybil_result =
    ValidParticipant bytes u64
  | InsufficientStake u64 u64
  | DuplicateGovernanceId bytes
  | ZeroGovernancePower

definition validate_governance_participant ::
  "bytes \<Rightarrow> u64 \<Rightarrow> u64 \<Rightarrow> u64 \<Rightarrow> bytes list \<Rightarrow> anti_sybil_result" where
  "validate_governance_participant governance_id stake_sscl uptime_weight_fp conviction_factor_fp existing_ids =
     (if stake_sscl < GOVERNANCE_MIN_STAKE_SSCL then InsufficientStake stake_sscl GOVERNANCE_MIN_STAKE_SSCL
      else if governance_id \<in> set existing_ids then DuplicateGovernanceId governance_id
      else
        let gp = compute_governance_power_v9 uptime_weight_fp conviction_factor_fp
        in if gp = 0 then ZeroGovernancePower else ValidParticipant governance_id gp)"

definition compute_total_gp :: "(u64 \<times> u64) list \<Rightarrow> u64" where
  "compute_total_gp participants =
     fold (\<lambda>gp acc. saturating_add acc gp)
       (map (\<lambda>(uptime, conviction). compute_governance_power_v9 uptime conviction) participants) 0"

section \<open>Safeguards\<close>

definition T_REVIEW_DAYS :: u64 where
  "T_REVIEW_DAYS = 30"

definition MAX_PARAMETERS_PER_PROPOSAL :: nat where
  "MAX_PARAMETERS_PER_PROPOSAL = 3"

datatype proposal_review_status = Voting u64 | MandatoryReview u64 | ReadyToExecute | Aborted

definition review_status :: "u64 \<Rightarrow> proposal_review_status" where
  "review_status days_since_quorum =
     (if days_since_quorum < T_REVIEW_DAYS then MandatoryReview days_since_quorum else ReadyToExecute)"

definition can_execute :: "u64 \<Rightarrow> bool" where
  "can_execute days_since_quorum \<longleftrightarrow> days_since_quorum \<ge> T_REVIEW_DAYS"

definition can_abort :: "u64 \<Rightarrow> bool" where
  "can_abort days_since_quorum \<longleftrightarrow> days_since_quorum < T_REVIEW_DAYS"

record formal_spec =
  fs_spec_text :: bytes
  fs_formal_hash :: bytes

definition formal_spec_new :: "(bytes \<Rightarrow> bytes) \<Rightarrow> bytes \<Rightarrow> formal_spec" where
  "formal_spec_new blake3 spec_text = \<lparr>fs_spec_text = spec_text, fs_formal_hash = blake3 spec_text\<rparr>"

definition formal_spec_verify :: "(bytes \<Rightarrow> bytes) \<Rightarrow> formal_spec \<Rightarrow> bool" where
  "formal_spec_verify blake3 s \<longleftrightarrow> blake3 (fs_spec_text s) = fs_formal_hash s"

datatype complexity_error = TooManyParameters nat nat

definition validate_proposal_complexity :: "nat \<Rightarrow> bool \<Rightarrow> complexity_error + unit" where
  "validate_proposal_complexity parameter_count mathematically_coupled =
     (if mathematically_coupled then Inr ()
      else if parameter_count > MAX_PARAMETERS_PER_PROPOSAL
      then Inl (TooManyParameters parameter_count MAX_PARAMETERS_PER_PROPOSAL) else Inr ())"

section \<open>Fork proposals\<close>

datatype fork_scope = Layer1Ossified | Layer2Constrained | CryptoPrimitive

record fork_governance_proposal =
  fg_fork_hash :: bytes
  fg_scope :: fork_scope
  fg_formal_spec :: bytes
  fg_description :: bytes

datatype fork_governance_error = FormalHashMismatch | EmptyFormalSpec | EmergencyForkNotAllowedForLayer1

definition validate_fork_proposal :: "(bytes \<Rightarrow> bytes) \<Rightarrow> fork_governance_proposal \<Rightarrow> fork_governance_error + unit" where
  "validate_fork_proposal blake3 proposal =
     (if fg_scope proposal = Layer1Ossified \<and> fg_formal_spec proposal = [] then Inl EmptyFormalSpec
      else if fg_formal_spec proposal \<noteq> [] \<and> blake3 (fg_formal_spec proposal) \<noteq> fg_fork_hash proposal
      then Inl FormalHashMismatch else Inr ())"

definition validate_emergency_fork_scope :: "fork_scope \<Rightarrow> fork_governance_error + unit" where
  "validate_emergency_fork_scope scope =
     (if scope = Layer1Ossified then Inl EmergencyForkNotAllowedForLayer1 else Inr ())"

definition create_proposal :: "(bytes \<Rightarrow> bytes) \<Rightarrow> fork_scope \<Rightarrow> bytes \<Rightarrow> bytes \<Rightarrow> fork_governance_proposal" where
  "create_proposal blake3 scope formal_spec description =
     \<lparr>fg_fork_hash = (if formal_spec = [] then replicate 32 0 else blake3 formal_spec),
      fg_scope = scope, fg_formal_spec = formal_spec, fg_description = description\<rparr>"

section \<open>The conviction factor is monotone\<close>

definition segment :: "nat \<Rightarrow> nat \<Rightarrow> nat \<Rightarrow> nat \<Rightarrow> nat \<Rightarrow> nat" where
  "segment t1 v1 t2 v2 t = v1 + (v2 - v1) * (t - t1) div (t2 - t1)"

lemma segment_mono: "t \<le> t' \<Longrightarrow> segment t1 v1 t2 v2 t \<le> segment t1 v1 t2 v2 t'"
  unfolding segment_def by (intro add_left_mono div_le_mono mult_left_mono diff_le_mono) simp_all

lemma unat_segment:
  fixes t1 t2 t :: u32 and v1 v2 :: u64
  assumes "t1 \<le> t" "t \<le> t2" "v1 \<le> v2" "unat v2 \<le> 1000000" "unat t2 \<le> 365"
  shows "unat (v1 + (v2 - v1) * ucast (t - t1) div ucast (t2 - t1)) = segment (unat t1) (unat v1) (unat t2) (unat v2) (unat t)"
proof -
  have d: "unat (v2 - v1) = unat v2 - unat v1" "unat (t - t1) = unat t - unat t1" "unat (t2 - t1) = unat t2 - unat t1"
    using assms by (auto simp: unat_sub_if' word_le_nat_alt)
  have p: "unat (v2 - v1) * unat (t - t1) \<le> 1000000 * 365"
    using assms d by (intro mult_le_mono) (auto simp: word_le_nat_alt)
  then have m: "unat ((v2 - v1) * ucast (t - t1)) = unat (v2 - v1) * unat (t - t1)"
    by (simp add: unat_mult_no_overflow)
  let ?q = "(v2 - v1) * ucast (t - t1) div ucast (t2 - t1) :: u64"
  have q: "unat ?q = unat (v2 - v1) * unat (t - t1) div unat (t2 - t1)" using m by (simp add: unat_div)
  then have "unat ?q \<le> 1000000 * 365" using p div_le_dividend le_trans by metis
  then have "unat (v1 + ?q) = unat v1 + unat ?q"
    using assms(3,4) by (intro unat_add_no_overflow) (simp add: word_le_nat_alt)
  then show ?thesis unfolding q segment_def d .
qed

text \<open>Between two checkpoints the factor is the segment through them, both ends included.\<close>

lemmas conviction_unfold = conviction_factor_def interpolate_def conviction_checkpoints_def

lemma conviction_window:
  assumes "a < b" "conviction_factor a \<le> conviction_factor b" "unat (conviction_factor b) \<le> 1000000" "unat b \<le> 365"
    and inner: "a < t \<Longrightarrow> t < b \<Longrightarrow> conviction_factor t = conviction_factor a
      + (conviction_factor b - conviction_factor a) * ucast (t - a) div ucast (b - a)"
    and t: "a \<le> t" "t \<le> b"
  shows "unat (conviction_factor t)
    = segment (unat a) (unat (conviction_factor a)) (unat b) (unat (conviction_factor b)) (unat t)"
proof (cases "a < t \<and> t < b")
  case True
  then show ?thesis using inner unat_segment [OF t assms(2-4)] by simp
next
  case False
  then consider "t = a" | "t = b" using t by fastforce
  then show ?thesis
  proof cases
    case 2
    have "unat b - unat a \<noteq> 0" using assms(1) by (simp add: word_less_nat_alt)
    then show ?thesis using 2 assms(2) by (simp add: segment_def word_le_nat_alt)
  qed (simp add: segment_def)
qed

lemma conviction_segments:
  fixes t :: u32
  shows "7 \<le> t \<Longrightarrow> t \<le> 14 \<Longrightarrow> unat (conviction_factor t) = segment 7 521799 14 771361 (unat t)"
    and "14 \<le> t \<Longrightarrow> t \<le> 22 \<Longrightarrow> unat (conviction_factor t) = segment 14 771361 22 901504 (unat t)"
    and "22 \<le> t \<Longrightarrow> t \<le> 30 \<Longrightarrow> unat (conviction_factor t) = segment 22 901504 30 957584 (unat t)"
    and "30 \<le> t \<Longrightarrow> t \<le> 60 \<Longrightarrow> unat (conviction_factor t) = segment 30 957584 60 998187 (unat t)"
    and "60 \<le> t \<Longrightarrow> t \<le> 365 \<Longrightarrow> unat (conviction_factor t) = segment 60 998187 365 1000000 (unat t)"
proof -
  show "7 \<le> t \<Longrightarrow> t \<le> 14 \<Longrightarrow> unat (conviction_factor t) = segment 7 521799 14 771361 (unat t)"
    using conviction_window [of 7 14 t] by (simp add: conviction_unfold word_le_nat_alt word_less_nat_alt Let_def word_unat_eq_iff [of t])
  show "14 \<le> t \<Longrightarrow> t \<le> 22 \<Longrightarrow> unat (conviction_factor t) = segment 14 771361 22 901504 (unat t)"
    using conviction_window [of 14 22 t] by (simp add: conviction_unfold word_le_nat_alt word_less_nat_alt Let_def word_unat_eq_iff [of t])
  show "22 \<le> t \<Longrightarrow> t \<le> 30 \<Longrightarrow> unat (conviction_factor t) = segment 22 901504 30 957584 (unat t)"
    using conviction_window [of 22 30 t] by (simp add: conviction_unfold word_le_nat_alt word_less_nat_alt Let_def word_unat_eq_iff [of t])
  show "30 \<le> t \<Longrightarrow> t \<le> 60 \<Longrightarrow> unat (conviction_factor t) = segment 30 957584 60 998187 (unat t)"
    using conviction_window [of 30 60 t] by (simp add: conviction_unfold word_le_nat_alt word_less_nat_alt Let_def word_unat_eq_iff [of t])
  show "60 \<le> t \<Longrightarrow> t \<le> 365 \<Longrightarrow> unat (conviction_factor t) = segment 60 998187 365 1000000 (unat t)"
    using conviction_window [of 60 365 t] by (simp add: conviction_unfold word_le_nat_alt word_less_nat_alt Let_def word_unat_eq_iff [of t])
qed

lemma conviction_saturated: "365 \<le> t \<Longrightarrow> conviction_factor t = 1000000"
  by (auto simp: conviction_factor_def word_le_nat_alt)

lemma conviction_step:
  assumes "t < t + 1"
  shows "conviction_factor t \<le> conviction_factor (t + 1)"
proof -
  have s: "unat (t + 1) = Suc (unat t)"
    using assms by (simp add: word_less_nat_alt unat_word_ariths mod_Suc split: if_splits)
  consider "unat t < 7" | "7 \<le> unat t" "unat t < 14" | "14 \<le> unat t" "unat t < 22" | "22 \<le> unat t" "unat t < 30"
    | "30 \<le> unat t" "unat t < 60" | "60 \<le> unat t" "unat t < 365" | "365 \<le> unat t" by linarith
  then show ?thesis
  proof cases
    case 1
    then have "unat t \<in> {0, 1, 2, 3, 4, 5, 6}" by auto
    then have "t \<in> {0, 1, 2, 3, 4, 5, 6}" by (auto simp: word_unat_eq_iff)
    then show ?thesis by (auto simp: conviction_factor_def)
  qed (use s conviction_segments [of t] conviction_segments [of "t + 1"] conviction_saturated in
      \<open>auto simp: word_le_nat_alt intro: segment_mono\<close>)
qed

lemma conviction_le:
  assumes "s \<le> s'"
  shows "conviction_factor s \<le> conviction_factor s'"
proof -
  have mono: "n \<le> m \<Longrightarrow> m < 2 ^ 32 \<Longrightarrow> conviction_factor (of_nat n) \<le> conviction_factor (of_nat m)" for n m
  proof (induction m)
    case (Suc m)
    show ?case
    proof (cases "n = Suc m")
      case False
      have m: "unat (of_nat m :: u32) = m" using Suc.prems by (simp add: unat_of_nat_small)
      then have "unat (of_nat m + 1 :: u32) = Suc m" using Suc.prems by (subst unat_add_no_overflow) simp_all
      then have "(of_nat m :: u32) < of_nat m + 1" using m by (simp add: word_less_nat_alt)
      then have "conviction_factor (of_nat m) \<le> conviction_factor (of_nat (Suc m))"
        using conviction_step [of "of_nat m"] by (simp add: add.commute)
      then show ?thesis using Suc False by fastforce
    qed simp
  qed simp
  show ?thesis
    using mono [of "unat s" "unat s'"] assms unsigned_less [of s', where 'a = nat] by (simp add: word_le_nat_alt)
qed

lemma conviction_le_unit: "conviction_factor t \<le> 1000000"
proof -
  have "conviction_factor t \<le> conviction_factor (max t 365)" by (rule conviction_le) simp
  also have "\<dots> = 1000000" by (rule conviction_saturated) simp
  finally show ?thesis .
qed

text \<open>A longer lock never lowers the conviction: the precomputed table with its integer interpolation is
  monotone over all lock times, starts at zero, and stays within the fixed-point unit, which it
  reaches at a year.\<close>

theorem conviction_monotone:
  assumes "t \<le> t'"
  shows "conviction_factor t \<le> conviction_factor t' \<and> conviction_factor t' \<le> 1000000
    \<and> conviction_factor 0 = 0 \<and> conviction_factor 365 = 1000000"
  using conviction_le [OF assms] conviction_le_unit by (simp add: conviction_factor_def)

theorem conviction_monotone_witness:
  "conviction_factor 10 \<le> conviction_factor 11 \<and> conviction_factor 11 \<le> 1000000
    \<and> conviction_factor 0 = 0 \<and> conviction_factor 365 = 1000000"
  by (rule conviction_monotone) simp

text \<open>The table is not the formula its comment gives: \<open>round((1 - (9/10)\<^sup>t) * 1000000)\<close> is 521703 at seven days, the table says 521799.\<close>

theorem conviction_table_off:
  "conviction_factor 7 = 521799 \<and> 2 * (10 ^ 7 - 9 ^ 7) * 1000000 < (2 * 521704 + 1) * (10 ^ 7 :: nat)"
  by (simp add: conviction_factor_def)

section \<open>Bounds on governance power\<close>

lemma unat_compute_base_gp: "unat cf \<le> 1000000 \<Longrightarrow> unat (compute_base_gp cf m) = unat cf * unat m div 1000000"
proof -
  assume cf: "unat cf \<le> 1000000"
  have "unat cf * unat m \<le> 1000000 * unat m" using cf by simp
  also have "1000000 * unat m < 2 ^ 127" using u64_bound [of m] by simp
  finally have "unat (saturating_mul (ucast cf) (ucast m) div ucast GP_FP_BASIS :: u128) = unat cf * unat m div 1000000"
    by (simp add: unat_div unat_saturating_mul GP_FP_BASIS_def)
  moreover have "unat cf * unat m div 1000000 < 2 ^ 64"
  proof -
    have "unat cf * unat m div 1000000 \<le> unat m" using cf div_le_mono [of "unat cf * unat m" "1000000 * unat m" 1000000] by simp
    then show ?thesis using u64_bound [of m] by simp
  qed
  ultimately show ?thesis
    by (simp add: compute_base_gp_def checked_div_def unat_u128_u64 GP_FP_BASIS_def)
qed

lemma conviction_bound: "unat (conviction_factor t) \<le> 1000000"
  using conviction_le_unit [of t] by (simp add: word_le_nat_alt)

text \<open>The NodeScore cap on governance power has no effect: with the maturity the store computes, from
  recorded weights within their documented bound, the power never exceeds 232 out of a million, far
  below the low cap of 200000, so nodes of the best and of the worst score have exactly the same power.\<close>

theorem node_score_cap_without_effect:
  assumes "\<forall>k w. map_of (ms_summaries s) (n, k) = Some w \<longrightarrow> unat w \<le> 1000000"
  shows "compute_governance_power_v12 score (conviction_factor days) (ms_gov_weight s n e)
      = compute_base_gp (conviction_factor days) (ms_gov_weight s n e)
    \<and> unat (compute_governance_power_v12 score (conviction_factor days) (ms_gov_weight s n e)) \<le> 232"
proof -
  let ?m = "ms_gov_weight s n e" and ?cf = "conviction_factor days"
  have m: "unat ?m \<le> 232" using assms by (rule gov_weight_ceiling)
  have "unat ?cf * unat ?m \<le> 1000000 * 232" using m conviction_bound by (rule mult_le_mono [rotated])
  then have "unat ?cf * unat ?m div 1000000 \<le> 232" using div_le_mono [of _ "1000000 * 232" 1000000] by simp
  then have gp: "unat (compute_base_gp ?cf ?m) \<le> 232" by (simp add: unat_compute_base_gp conviction_bound)
  then have "compute_base_gp ?cf ?m \<le> gov_max_fp score"
    by (simp add: gov_max_fp_def word_le_nat_alt NODESCORE_GP_HIGH_CAP_def NODESCORE_GP_LOW_CAP_def)
  then show ?thesis using gp by (simp add: compute_governance_power_v12_def Let_def min_def)
qed

theorem node_score_cap_without_effect_witness:
  "compute_governance_power_v12 0 (conviction_factor 365) (ms_gov_weight (ms_record maturity_store_new
      \<lparr>ew_node_id = [1], ew_epoch_id = 5, ew_uptime_weight = 1000000\<rparr>) [1] 5)
      = compute_base_gp (conviction_factor 365) (ms_gov_weight (ms_record maturity_store_new
      \<lparr>ew_node_id = [1], ew_epoch_id = 5, ew_uptime_weight = 1000000\<rparr>) [1] 5)
    \<and> unat (compute_governance_power_v12 0 (conviction_factor 365) (ms_gov_weight (ms_record maturity_store_new
      \<lparr>ew_node_id = [1], ew_epoch_id = 5, ew_uptime_weight = 1000000\<rparr>) [1] 5)) \<le> 232"
  by (rule node_score_cap_without_effect) (simp add: ms_record_def maturity_store_new_def)

text \<open>The earlier formula multiplies in 64 bits; for a weight within the fixed-point unit it does not wrap and
  only ever scales the weight down.\<close>

theorem governance_power_bounded:
  assumes "unat w \<le> 1000000"
  shows "unat (compute_governance_power days w)
      = unat (conviction_factor days) * unat w div 1000000 * unat (ai_resistance_multiplier days) div 1000000
    \<and> unat (compute_governance_power days w) \<le> unat w"
proof -
  let ?cf = "conviction_factor days" and ?ai = "ai_resistance_multiplier days"
  have ai: "unat ?ai \<le> 1000000"
  proof (cases "6 < unat days \<and> unat days < 30")
    case True
    then have d: "unat (days - 7) = unat days - 7" by (auto simp: unat_sub_if')
    moreover have b: "unat days - 7 \<le> 22" using True by linarith
    then have "990000 * (unat days - 7) < 2 ^ 64" by simp
    ultimately have "unat (990000 * ucast (days - 7) :: u64) = 990000 * (unat days - 7)"
      by (subst unat_mult_no_overflow) simp_all
    then have q: "unat (990000 * ucast (days - 7) div 23 :: u64) = 990000 * (unat days - 7) div 23"
      by (simp add: unat_div)
    also have "\<dots> \<le> 990000" using div_le_mono [OF mult_le_mono2 [OF b, of 990000], of 23] by simp
    finally have "unat (10000 + 990000 * ucast (days - 7) div 23 :: u64) \<le> 1000000"
      by (subst unat_add_no_overflow) simp_all
    then show ?thesis using True by (simp add: ai_resistance_multiplier_def word_le_nat_alt)
  qed (auto simp: ai_resistance_multiplier_def word_le_nat_alt)
  have p: "unat ?cf * unat w \<le> 1000000 * unat w" using conviction_bound by simp
  then have q: "unat ?cf * unat w div 1000000 \<le> unat w"
    using div_le_mono [OF p, of 1000000] by simp
  have i: "unat (?cf * w div 1000000) = unat ?cf * unat w div 1000000"
    by (subst unat_div, subst unat_mult_no_overflow, rule le_less_trans [OF p]) (use assms in simp_all)
  have r: "unat ?cf * unat w div 1000000 * unat ?ai \<le> unat w * 1000000" using q ai by (rule mult_le_mono)
  then have "unat (?cf * w div 1000000 * ?ai) = unat ?cf * unat w div 1000000 * unat ?ai"
    using i assms by (subst unat_mult_no_overflow) simp_all
  then have eq: "unat (compute_governance_power days w) = unat ?cf * unat w div 1000000 * unat ?ai div 1000000"
    by (simp add: compute_governance_power_def Let_def unat_div)
  moreover have "unat ?cf * unat w div 1000000 * unat ?ai div 1000000 \<le> unat w"
    using div_le_mono [OF r, of 1000000] by simp
  ultimately show ?thesis by simp
qed

section \<open>Participants and proposals\<close>

text \<open>Registering participants one after the other keeps the governance ids distinct and admits nobody without
  stake or power.\<close>

fun register_all :: "bytes list \<Rightarrow> (bytes \<times> u64 \<times> u64 \<times> u64) list \<Rightarrow> bytes list" where
  "register_all ids [] = ids"
| "register_all ids ((gid, stake, uptime, conviction) # rest) =
     (case validate_governance_participant gid stake uptime conviction ids of
        ValidParticipant g _ \<Rightarrow> register_all (ids @ [g]) rest
      | _ \<Rightarrow> register_all ids rest)"

theorem registration_no_sybil:
  assumes "distinct ids"
  shows "distinct (register_all ids ps)
    \<and> set (register_all ids ps) \<subseteq> set ids \<union> {g. \<exists>stake u c. (g, stake, u, c) \<in> set ps \<and> 100000 \<le> unat stake
        \<and> compute_governance_power_v9 u c \<noteq> 0}"
  using assms
proof (induction ids ps rule: register_all.induct)
  case (2 ids gid stake uptime conviction rest)
  show ?case
  proof (cases "validate_governance_participant gid stake uptime conviction ids")
    case (ValidParticipant g gp)
    then have "g = gid" "gid \<notin> set ids" "100000 \<le> unat stake" "compute_governance_power_v9 uptime conviction \<noteq> 0"
      by (auto simp: validate_governance_participant_def Let_def GOVERNANCE_MIN_STAKE_SSCL_def word_less_nat_alt
          split: if_splits)
    moreover from this have "distinct (ids @ [gid])" using 2 by simp
    moreover note "2.IH"(1) [OF ValidParticipant]
    ultimately show ?thesis using ValidParticipant by (simp add: subset_iff) blast
  qed (use 2 in \<open>(simp add: subset_iff, blast)+\<close>)
qed simp

text \<open>A created proposal validates unless it is a layer-1 change without a specification; the emergency path,
  documented for cryptographic primitives only, is open to layer-2 changes as well.\<close>

theorem fork_proposal_checks:
  "(validate_fork_proposal blake3 (create_proposal blake3 scope spec descr) = Inr ()) = (scope \<noteq> Layer1Ossified \<or> spec \<noteq> [])
   \<and> validate_emergency_fork_scope Layer2Constrained = Inr ()"
  by (auto simp: validate_fork_proposal_def create_proposal_def validate_emergency_fork_scope_def)

end
