(* ===== verification/Circuit.thy ===== *)
theory Circuit
  imports Goldilocks
begin

text \<open>
  The vocabulary of the constraint systems in \<open>core/scalar-stark-p3/src\<close> and \<open>core/scalar-stark-p3-verify/src\<close>.
  They are written against the builder of Plonky3, a third-party library: \<open>eval\<close> asserts, for a row
  of the execution trace and the public values, that certain field expressions vanish.  Here an element
  of the Goldilocks field is given by an integer, two integers standing for the same element when they
  agree modulo the prime; an \<open>eval\<close> is the list of the expressions it asserts to vanish, in the order of
  the code, and \<open>vanishes\<close> is what a proof attests for each row.  The lemmas are those every circuit needs:
  no zero divisors, boolean columns, range checks by bit decomposition in both directions, inverses.
\<close>

section \<open>Field elements and assertions\<close>

type_synonym gl = int

abbreviation GLP :: int where
  "GLP \<equiv> 18446744069414584321"

definition gl_new :: "u64 \<Rightarrow> gl" where
  "gl_new v = uint v"

definition as_canonical_u64 :: "gl \<Rightarrow> u64" where
  "as_canonical_u64 e = of_int (e mod GLP)"

definition assert_zero :: "gl \<Rightarrow> gl list" where
  "assert_zero e = [e]"

definition assert_eq :: "gl \<Rightarrow> gl \<Rightarrow> gl list" where
  "assert_eq a b = [a - b]"

definition assert_one :: "gl \<Rightarrow> gl list" where
  "assert_one e = [e - 1]"

definition vanishes :: "gl list \<Rightarrow> bool" where
  "vanishes es \<longleftrightarrow> list_all (\<lambda>e. GLP dvd e) es"

text \<open>The loop that recurs in every range check: each of \<open>nbits\<close> columns is boolean and the columns are the
  binary digits of \<open>v\<close>.\<close>

definition eval_bits :: "gl list \<Rightarrow> nat \<Rightarrow> nat \<Rightarrow> gl \<Rightarrow> gl list" where
  "eval_bits row start nbits v =
     concat (map (\<lambda>i. assert_zero (row ! (start + i) * (row ! (start + i) - 1))) [0..<nbits])
     @ assert_eq v (\<Sum>i\<leftarrow>[0..<nbits]. row ! (start + i) * 2 ^ i)"

definition bits_of :: "nat \<Rightarrow> u64 \<Rightarrow> gl list" where
  "bits_of nbits v = map (\<lambda>i. gl_new (drop_bit i v AND 1)) [0..<nbits]"

text \<open>A trace is accepted when it has at least one row, every row has the width of the circuit, and every
  assertion vanishes on every row (none of the single-row circuits looks at the next row).\<close>

definition air_accepts :: "(gl list \<Rightarrow> gl list \<Rightarrow> gl list) \<Rightarrow> nat \<Rightarrow> gl list list \<Rightarrow> gl list \<Rightarrow> bool" where
  "air_accepts eval width trace pv \<longleftrightarrow>
     trace \<noteq> [] \<and> list_all (\<lambda>row. length row = width \<and> vanishes (eval row pv)) trace"

text \<open>The answers of the independent verifier; the texts are left out.\<close>

datatype independent_verify_error = Deserialize | IndependentVerificationFailed | TraceWidthMismatch nat nat

section \<open>Lemmas\<close>

named_theorems asserts \<open>what the assertions of a circuit mean\<close>

lemma vanishes_simps [simp]:
  "vanishes []" "vanishes (e # es) \<longleftrightarrow> GLP dvd e \<and> vanishes es"
  "vanishes (xs @ ys) \<longleftrightarrow> vanishes xs \<and> vanishes ys"
  by (simp_all add: vanishes_def)

lemma vanishes_asserts [asserts]:
  "vanishes (assert_zero e) \<longleftrightarrow> GLP dvd e"
  "vanishes (assert_eq a b) \<longleftrightarrow> a mod GLP = b mod GLP"
  "vanishes (assert_one e) \<longleftrightarrow> e mod GLP = 1"
  by (simp_all add: assert_zero_def assert_eq_def assert_one_def mod_eq_dvd_iff [symmetric])

lemma vanishes_concat_map [simp]: "vanishes (concat (map f xs)) \<longleftrightarrow> (\<forall>x\<in>set xs. vanishes (f x))"
  by (induction xs) auto

lemma gl_prime: "GLP dvd a * b \<longleftrightarrow> GLP dvd a \<or> GLP dvd b"
proof
  assume "GLP dvd a * b"
  then have "prime_p dvd nat \<bar>a\<bar> * nat \<bar>b\<bar>" by (simp flip: nat_abs_mult_distrib)
  moreover have "prime_p dvd nat \<bar>b\<bar>" if "\<not> prime_p dvd nat \<bar>a\<bar>"
    using prime_nat_coprime [OF prime_prime_p that] calculation by (metis coprime_commute coprime_dvd_mult_right_iff)
  ultimately show "GLP dvd a \<or> GLP dvd b" by auto
qed auto

lemma gl_boolean: "GLP dvd b * (b - 1) \<longleftrightarrow> b mod GLP = 0 \<or> b mod GLP = 1"
  using mod_eq_dvd_iff [of b GLP 1] by (simp add: gl_prime mod_eq_0_iff_dvd)

lemma uint_less_64: "uint (v :: u64) < 18446744073709551616" "0 \<le> uint v"
  using uint_lt2p [of v] by simp_all

lemma gl_new_mod: "gl_new v mod GLP = uint (field_reduce v)"
proof -
  have "int (unat v) mod GLP = int (unat v mod prime_p)" by (simp only: zmod_int of_nat_numeral)
  then show ?thesis by (simp only: gl_new_def uint_nat unat_field_reduce)
qed

lemma as_canonical_gl_new [simp]: "as_canonical_u64 (gl_new v) = field_reduce v"
  by (simp add: as_canonical_u64_def gl_new_mod)

lemma uint_as_canonical: "uint (as_canonical_u64 e) = e mod GLP"
proof -
  have "0 \<le> e mod GLP" "e mod GLP < GLP" by simp_all
  then have "take_bit LENGTH(64) (e mod GLP) = e mod GLP" by (intro take_bit_int_eq_self) simp_all
  then show ?thesis unfolding as_canonical_u64_def uint_word_of_int_eq .
qed

subsection \<open>Range checks\<close>

lemma bits_sound:
  assumes "vanishes (eval_bits row start nbits v)"
  shows "\<exists>k. 0 \<le> k \<and> k < 2 ^ nbits \<and> v mod GLP = k mod GLP"
proof -
  have b: "row ! (start + i) mod GLP \<in> {0, 1}" if "i < nbits" for i
    using assms that by (auto simp: eval_bits_def asserts gl_boolean)
  define s where "s n = (\<Sum>i\<leftarrow>[0..<n]. row ! (start + i) mod GLP * 2 ^ i)" for n
  have "0 \<le> s n \<and> s n < 2 ^ n \<and> s n mod GLP = (\<Sum>i\<leftarrow>[0..<n]. row ! (start + i) * 2 ^ i) mod GLP" if "n \<le> nbits" for n
    using that
  proof (induction n)
    case (Suc n)
    have step: "s (Suc n) = s n + row ! (start + n) mod GLP * 2 ^ n" by (simp add: s_def)
    have "(s n + row ! (start + n) mod GLP * 2 ^ n) mod GLP
        = ((\<Sum>i\<leftarrow>[0..<n]. row ! (start + i) * 2 ^ i) + row ! (start + n) * 2 ^ n) mod GLP"
      using Suc by (intro mod_add_cong) (simp_all add: mod_mult_left_eq)
    moreover have "row ! (start + n) mod GLP \<in> {0, 1}" using b Suc.prems by simp
    ultimately show ?case using Suc unfolding step by auto
  qed (simp add: s_def)
  then show ?thesis using assms by (auto simp: eval_bits_def asserts intro!: exI [of _ "s nbits"])
qed

lemma bits_of_sum: "(\<Sum>i\<leftarrow>[0..<n]. gl_new (drop_bit i v AND 1) * 2 ^ i) = uint (take_bit n v)"
proof (induction n)
  case (Suc n)
  have "gl_new (drop_bit n v AND 1) = of_bool (bit v n)"
    by (simp add: gl_new_def and_one_eq mod_2_eq_odd bit_iff_odd_drop_bit)
  moreover have "uint (take_bit (Suc n) v) = uint (take_bit n v) + of_bool (bit v n) * 2 ^ n"
    using bit_imp_le_length [of v n] by (auto simp: unsigned_take_bit_eq take_bit_Suc_from_most bit_uint_iff)
  ultimately show ?case using Suc by simp
qed (simp add: gl_new_def)

lemma length_bits_of [simp]: "length (bits_of n v) = n"
  by (simp add: bits_of_def)

lemma bits_complete:
  assumes row: "\<And>i. i < nbits \<Longrightarrow> row ! (start + i) = bits_of nbits k ! i"
    and v: "v mod GLP = uint k mod GLP" and k: "uint k < 2 ^ nbits"
  shows "vanishes (eval_bits row start nbits v)"
proof -
  have r: "row ! (start + i) = gl_new (drop_bit i k AND 1)" if "i < nbits" for i
    using row [OF that] that by (simp add: bits_of_def)
  have "gl_new (drop_bit i k AND 1) = 0 \<or> gl_new (drop_bit i k AND 1) = 1" for i
    by (simp add: gl_new_def and_one_eq mod_2_eq_odd)
  then have "GLP dvd row ! (start + i) * (row ! (start + i) - 1)" if "i < nbits" for i
    unfolding r [OF that] by (metis dvd_0_right mult_zero_left cancel_comm_monoid_add_class.diff_cancel mult_zero_right)
  moreover have "(\<Sum>i\<leftarrow>[0..<nbits]. row ! (start + i) * 2 ^ i) = uint (take_bit nbits k)"
    using r by (subst bits_of_sum [symmetric], intro arg_cong [where f = sum_list] map_cong) auto
  moreover have "uint (take_bit nbits k) = uint k"
    using k by (simp add: unsigned_take_bit_eq take_bit_int_eq_self)
  ultimately show ?thesis using v by (simp add: eval_bits_def asserts)
qed

subsection \<open>Inverses\<close>

lemma gl_inverse:
  assumes "\<not> GLP dvd a"
  obtains b where "0 \<le> b" "b < GLP" "a * b mod GLP = 1"
proof -
  define n where "n = nat (a mod GLP)"
  have n: "int n = a mod GLP" by (simp add: n_def)
  with assms have "\<not> prime_p dvd n" by (metis dvd_mod_iff int_dvd_int_iff of_nat_numeral dvd_refl)
  moreover obtain e where e: "prime_p - 1 = Suc e" by (rule that [of 18446744069414584319]) simp
  ultimately have "n ^ Suc e mod prime_p = 1" using fermat [OF prime_prime_p] by metis
  define m where "m = n ^ e mod prime_p"
  have "n * m mod prime_p = 1" using \<open>n ^ Suc e mod prime_p = 1\<close> by (simp only: m_def power_Suc mod_mult_right_eq)
  then have "int (n * m mod prime_p) = int 1" by (simp only:)
  then have "(a mod GLP) * int m mod GLP = 1" by (simp only: zmod_int of_nat_mult n of_nat_numeral of_nat_1)
  then have "a * int m mod GLP = 1" by (simp only: mod_mult_left_eq)
  moreover have "m < prime_p" unfolding m_def by (rule mod_less_divisor) simp
  then have "int m < GLP" by linarith
  ultimately show ?thesis by (intro that [of "int m"]) simp_all
qed

end
