(* ===== verification/Transfer_Circuit.thy ===== *)
theory Transfer_Circuit
  imports Circuit Merkle_IMT
begin

text \<open>
  The transfer circuit: its public inputs with the checks before proving (\<open>transfer_public_inputs.rs\<close>), the
  sub-epoch arithmetic (\<open>cg_arith.rs\<close>), the constraints and the trace builder of the prover's circuit
  (\<open>transfer_air_p3.rs\<close>) and the second, independent implementation (\<open>scalar-stark-p3-verify/src\<close>:
  \<open>transfer_air_v2.rs\<close>, \<open>verify.rs\<close>).  The width-8 Poseidon2 permutation is the parameter \<open>perm\<close>; decoding and
  verification of a STARK proof are the parameters \<open>decode\<close> and \<open>verify\<close>.
\<close>

section \<open>Sub-epoch arithmetic\<close>

definition SUBEPOCHS_PER_EPOCH :: u64 where
  "SUBEPOCHS_PER_EPOCH = 24"

definition CG_MAX_VALIDITY :: u64 where
  "CG_MAX_VALIDITY = 1"

definition subepoch_id :: "u64 \<Rightarrow> u64 \<Rightarrow> u64" where
  "subepoch_id epoch_id local_index = epoch_id * SUBEPOCHS_PER_EPOCH + local_index"

definition epoch_of :: "u64 \<Rightarrow> u64" where
  "epoch_of sid = sid div SUBEPOCHS_PER_EPOCH"

definition local_index_of :: "u64 \<Rightarrow> u64" where
  "local_index_of sid = sid mod SUBEPOCHS_PER_EPOCH"

definition cg_validity :: "u64 \<Rightarrow> u64 \<Rightarrow> u64 option" where
  "cg_validity current_subepoch_id target_subepoch_id =
     (if current_subepoch_id < target_subepoch_id then None
      else let validity = current_subepoch_id - target_subepoch_id
           in if validity > CG_MAX_VALIDITY then None else Some validity)"

section \<open>Public inputs\<close>

definition TRANSFER_PI_LEN :: nat where
  "TRANSFER_PI_LEN = 41"

definition VALID_CRYPTO_VERSION :: u64 where
  "VALID_CRYPTO_VERSION = 1"

definition TRANSFER_FEE_FLOOR :: u64 where
  "TRANSFER_FEE_FLOOR = 40"

record transfer_public_inputs =
  tp_fee_total_sscl :: u64
  tp_sum_inputs_sscl :: u64
  tp_sum_outputs_sscl :: u64
  tp_crypto_version :: u64
  tp_current_subepoch_id :: u64
  tp_target_subepoch_id :: u64
  tp_utxo_set_root :: bytes
  tp_cb_membership_verified :: bool
  tp_nullifier_active_root :: bytes
  tp_nullifier_archived_root :: bytes
  tp_cc_nonmembership_verified :: bool
  tp_output_nonzero :: bool
  tp_single_utxo_source :: bool
  tp_commitment_hash :: "u64 list"
  tp_nullifier_hash :: "u64 list"

definition push_bytes32 :: "bytes \<Rightarrow> gl list" where
  "push_bytes32 bs = map (\<lambda>chunk. gl_new (ucast (from_le_bytes chunk :: u32))) (chunks 4 bs)"

definition read_bytes32 :: "gl list \<Rightarrow> bytes" where
  "read_bytes32 v = concat (map (\<lambda>fe. le_bytes 4 (ucast (as_canonical_u64 fe) :: u32)) (take 8 v))"

definition to_goldilocks :: "transfer_public_inputs \<Rightarrow> gl list" where
  "to_goldilocks pi =
     [gl_new (tp_fee_total_sscl pi), gl_new (tp_sum_inputs_sscl pi), gl_new (tp_sum_outputs_sscl pi),
      gl_new (tp_crypto_version pi), gl_new (tp_current_subepoch_id pi)]
     @ push_bytes32 (tp_utxo_set_root pi) @ [gl_new (of_bool (tp_cb_membership_verified pi))]
     @ push_bytes32 (tp_nullifier_active_root pi) @ push_bytes32 (tp_nullifier_archived_root pi)
     @ [gl_new (of_bool (tp_cc_nonmembership_verified pi)), gl_new (of_bool (tp_output_nonzero pi)),
        gl_new (of_bool (tp_single_utxo_source pi))]
     @ map gl_new (tp_commitment_hash pi) @ map gl_new (tp_nullifier_hash pi)"

definition from_goldilocks :: "gl list \<Rightarrow> transfer_public_inputs option" where
  "from_goldilocks v =
     (if length v < TRANSFER_PI_LEN then None
      else Some \<lparr>tp_fee_total_sscl = as_canonical_u64 (v ! 0), tp_sum_inputs_sscl = as_canonical_u64 (v ! 1),
        tp_sum_outputs_sscl = as_canonical_u64 (v ! 2), tp_crypto_version = as_canonical_u64 (v ! 3),
        tp_current_subepoch_id = as_canonical_u64 (v ! 4), tp_target_subepoch_id = 0,
        tp_utxo_set_root = read_bytes32 (take 8 (drop 5 v)),
        tp_cb_membership_verified = (as_canonical_u64 (v ! 13) \<noteq> 0),
        tp_nullifier_active_root = read_bytes32 (take 8 (drop 14 v)),
        tp_nullifier_archived_root = read_bytes32 (take 8 (drop 22 v)),
        tp_cc_nonmembership_verified = (as_canonical_u64 (v ! 30) \<noteq> 0),
        tp_output_nonzero = (as_canonical_u64 (v ! 31) \<noteq> 0),
        tp_single_utxo_source = (as_canonical_u64 (v ! 32) \<noteq> 0),
        tp_commitment_hash = map as_canonical_u64 [v ! 33, v ! 34, v ! 35, v ! 36],
        tp_nullifier_hash = map as_canonical_u64 [v ! 37, v ! 38, v ! 39, v ! 40]\<rparr>)"

definition check_cd_conservation :: "transfer_public_inputs \<Rightarrow> bool" where
  "check_cd_conservation pi \<longleftrightarrow>
     tp_sum_inputs_sscl pi = saturating_add (tp_sum_outputs_sscl pi) (tp_fee_total_sscl pi)"

definition check_cd_fee_floor :: "transfer_public_inputs \<Rightarrow> bool" where
  "check_cd_fee_floor pi \<longleftrightarrow> tp_fee_total_sscl pi \<ge> TRANSFER_FEE_FLOOR"

definition check_cg_version :: "transfer_public_inputs \<Rightarrow> bool" where
  "check_cg_version pi \<longleftrightarrow> tp_crypto_version pi = VALID_CRYPTO_VERSION"

definition check_cg_validity :: "transfer_public_inputs \<Rightarrow> bool" where
  "check_cg_validity pi \<longleftrightarrow> cg_validity (tp_current_subepoch_id pi) (tp_target_subepoch_id pi) \<noteq> None"

definition check_all_constraints :: "transfer_public_inputs \<Rightarrow> nat + unit" where
  "check_all_constraints pi =
     (if \<not> check_cd_conservation pi then Inl 0
      else if \<not> check_cd_fee_floor pi then Inl 1
      else if \<not> check_cg_version pi then Inl 2
      else if \<not> check_cg_validity pi then Inl 3
      else if \<not> tp_cb_membership_verified pi then Inl 4
      else if \<not> tp_cc_nonmembership_verified pi then Inl 5
      else if \<not> tp_output_nonzero pi then Inl 6
      else if \<not> tp_single_utxo_source pi then Inl 7
      else Inr ())"

definition bytes32_limbs :: "bytes \<Rightarrow> u64 list" where
  "bytes32_limbs c = map (\<lambda>i. from_le_bytes (take 8 (drop (i * 8) c))) [0..<4]"

definition compute_commitment_hash :: "(u64 list \<Rightarrow> u64 list) \<Rightarrow> bytes list \<Rightarrow> u64 list" where
  "compute_commitment_hash perm commitments = poseidon2_hash_chained perm (concat (map bytes32_limbs commitments))"

definition compute_nullifier_hash :: "(u64 list \<Rightarrow> u64 list) \<Rightarrow> bytes list \<Rightarrow> u64 list" where
  "compute_nullifier_hash perm nullifiers = poseidon2_hash_chained perm (concat (map bytes32_limbs nullifiers))"

section \<open>The circuit\<close>

definition TRANSFER_TRACE_WIDTH :: nat where
  "TRANSFER_TRACE_WIDTH = 857"

definition MAX_IO_CF :: nat where
  "MAX_IO_CF = 10"

definition RECIP_SCALE :: u64 where
  "RECIP_SCALE = 4294967296"

definition FEE_BIT_COUNT :: nat where
  "FEE_BIT_COUNT = 52"

definition TARGET_BIT_COUNT :: nat where
  "TARGET_BIT_COUNT = 40"

definition REM_BIT_COUNT :: nat where
  "REM_BIT_COUNT = 32"

definition PREMIUM_BIT_COUNT :: nat where
  "PREMIUM_BIT_COUNT = 52"

definition BASE_PRICE_PER_MASS :: u64 where
  "BASE_PRICE_PER_MASS = 1000"

definition PRICE_PER_CU :: u64 where
  "PRICE_PER_CU = 1000"

definition COL_FEE :: nat where
  "COL_FEE = 0"

definition COL_SUM_IN :: nat where
  "COL_SUM_IN = 1"

definition COL_SUM_OUT :: nat where
  "COL_SUM_OUT = 2"

definition COL_VERSION :: nat where
  "COL_VERSION = 3"

definition COL_CURRENT_SUBEPOCH :: nat where
  "COL_CURRENT_SUBEPOCH = 4"

definition COL_TARGET_SUBEPOCH :: nat where
  "COL_TARGET_SUBEPOCH = 5"

definition COL_CG_VALIDITY :: nat where
  "COL_CG_VALIDITY = 6"

definition COL_CB_VERIFIED :: nat where
  "COL_CB_VERIFIED = 7"

definition COL_CC_VERIFIED :: nat where
  "COL_CC_VERIFIED = 8"

definition COL_OUTPUT_NONZERO :: nat where
  "COL_OUTPUT_NONZERO = 9"

definition COL_SINGLE_SOURCE :: nat where
  "COL_SINGLE_SOURCE = 10"

definition COL_COMMITMENT_HASH_0 :: nat where
  "COL_COMMITMENT_HASH_0 = 11"

definition COL_NULLIFIER_HASH_0 :: nat where
  "COL_NULLIFIER_HASH_0 = 15"

definition COL_FEE_ABOVE_FLOOR :: nat where
  "COL_FEE_ABOVE_FLOOR = 19"

definition COL_FEE_BIT_START :: nat where
  "COL_FEE_BIT_START = 20"

definition COL_TARGET_BIT_START :: nat where
  "COL_TARGET_BIT_START = 72"

definition COL_VALUE_IN_START :: nat where
  "COL_VALUE_IN_START = 112"

definition COL_INV_IN_START :: nat where
  "COL_INV_IN_START = COL_VALUE_IN_START + MAX_IO_CF"

definition COL_VALUE_OUT_START :: nat where
  "COL_VALUE_OUT_START = COL_INV_IN_START + MAX_IO_CF"

definition COL_INV_OUT_START :: nat where
  "COL_INV_OUT_START = COL_VALUE_OUT_START + MAX_IO_CF"

definition COL_STORAGE_MASS :: nat where
  "COL_STORAGE_MASS = COL_INV_OUT_START + MAX_IO_CF"

definition COL_NUM_INPUTS :: nat where
  "COL_NUM_INPUTS = COL_STORAGE_MASS + 1"

definition COL_NUM_OUTPUTS :: nat where
  "COL_NUM_OUTPUTS = COL_NUM_INPUTS + 1"

definition COL_REM_IN_BIT_START :: nat where
  "COL_REM_IN_BIT_START = COL_NUM_OUTPUTS + 1"

definition COL_REM_OUT_BIT_START :: nat where
  "COL_REM_OUT_BIT_START = COL_REM_IN_BIT_START + REM_BIT_COUNT * MAX_IO_CF"

definition COL_BASE_FEE :: nat where
  "COL_BASE_FEE = COL_REM_OUT_BIT_START + REM_BIT_COUNT * MAX_IO_CF"

definition COL_COMPLEXITY_FEE :: nat where
  "COL_COMPLEXITY_FEE = COL_BASE_FEE + 1"

definition COL_FLOOR_BASE :: nat where
  "COL_FLOOR_BASE = COL_COMPLEXITY_FEE + 1"

definition COL_TX_NONCE :: nat where
  "COL_TX_NONCE = COL_FLOOR_BASE + 1"

definition COL_PREMIUM_RAW_START :: nat where
  "COL_PREMIUM_RAW_START = COL_TX_NONCE + 1"

definition COL_PREMIUM_Q :: nat where
  "COL_PREMIUM_Q = COL_PREMIUM_RAW_START + 4"

definition COL_PREMIUM :: nat where
  "COL_PREMIUM = COL_PREMIUM_Q + 1"

definition COL_PREMIUM_BIT_START :: nat where
  "COL_PREMIUM_BIT_START = COL_PREMIUM + 1"

text \<open>A flag column is boolean and set.\<close>

definition eval_flag :: "gl \<Rightarrow> gl list" where
  "eval_flag e = assert_zero (e * (e - 1)) @ assert_one e"

definition transfer_pi_binding :: "gl list \<Rightarrow> gl list \<Rightarrow> gl list" where
  "transfer_pi_binding row pv =
     assert_eq (row ! COL_FEE) (pv ! 0) @ assert_eq (row ! COL_SUM_IN) (pv ! 1) @ assert_eq (row ! COL_SUM_OUT) (pv ! 2)
     @ assert_eq (row ! COL_VERSION) (pv ! 3) @ assert_eq (row ! COL_CURRENT_SUBEPOCH) (pv ! 4)"

definition transfer_cd :: "gl list \<Rightarrow> gl list" where
  "transfer_cd row =
     assert_zero (row ! COL_SUM_IN - row ! COL_SUM_OUT - row ! COL_FEE)
     @ assert_eq (row ! COL_FEE) (row ! COL_FEE_ABOVE_FLOOR + gl_new TRANSFER_FEE_FLOOR)
     @ eval_bits row COL_FEE_BIT_START FEE_BIT_COUNT (row ! COL_FEE_ABOVE_FLOOR)"

definition transfer_cg :: "gl list \<Rightarrow> gl list" where
  "transfer_cg row =
     assert_eq (row ! COL_VERSION) (gl_new VALID_CRYPTO_VERSION)
     @ assert_eq (row ! COL_CURRENT_SUBEPOCH) (row ! COL_TARGET_SUBEPOCH + row ! COL_CG_VALIDITY)
     @ assert_zero (row ! COL_CG_VALIDITY * (row ! COL_CG_VALIDITY - 1))
     @ eval_bits row COL_TARGET_BIT_START TARGET_BIT_COUNT (row ! COL_TARGET_SUBEPOCH)"

definition transfer_flags :: "gl list \<Rightarrow> gl list" where
  "transfer_flags row = eval_flag (row ! COL_CB_VERIFIED) @ eval_flag (row ! COL_CC_VERIFIED)
     @ eval_flag (row ! COL_OUTPUT_NONZERO) @ eval_flag (row ! COL_SINGLE_SOURCE)"

definition transfer_cf_slot :: "gl list \<Rightarrow> nat \<Rightarrow> gl list" where
  "transfer_cf_slot row i =
     eval_bits row (COL_REM_IN_BIT_START + i * REM_BIT_COUNT) REM_BIT_COUNT
       (gl_new RECIP_SCALE - row ! (COL_VALUE_IN_START + i) * row ! (COL_INV_IN_START + i))
     @ eval_bits row (COL_REM_OUT_BIT_START + i * REM_BIT_COUNT) REM_BIT_COUNT
       (gl_new RECIP_SCALE - row ! (COL_VALUE_OUT_START + i) * row ! (COL_INV_OUT_START + i))"

definition transfer_cf :: "gl list \<Rightarrow> gl list" where
  "transfer_cf row =
     (let sum_inv_in = (\<Sum>i\<leftarrow>[0..<MAX_IO_CF]. row ! (COL_INV_IN_START + i));
          sum_inv_out = (\<Sum>i\<leftarrow>[0..<MAX_IO_CF]. row ! (COL_INV_OUT_START + i));
          storage_mass = row ! COL_STORAGE_MASS; floor_base = row ! COL_FLOOR_BASE; premium = row ! COL_PREMIUM
      in concat (map (transfer_cf_slot row) [0..<MAX_IO_CF])
         @ assert_eq storage_mass (sum_inv_out - sum_inv_in)
         @ assert_eq (row ! COL_BASE_FEE) (storage_mass * gl_new BASE_PRICE_PER_MASS)
         @ assert_eq (row ! COL_COMPLEXITY_FEE) ((row ! COL_NUM_INPUTS + row ! COL_NUM_OUTPUTS) * gl_new PRICE_PER_CU)
         @ assert_eq floor_base (row ! COL_BASE_FEE + row ! COL_COMPLEXITY_FEE)
         @ eval_bits row COL_PREMIUM_BIT_START PREMIUM_BIT_COUNT premium
         @ assert_eq (row ! COL_PREMIUM_RAW_START) (premium + row ! COL_PREMIUM_Q * (floor_base + 1)))"

definition transfer_hash_binding :: "gl list \<Rightarrow> gl list \<Rightarrow> gl list" where
  "transfer_hash_binding row pv =
     concat (map (\<lambda>k. assert_eq (row ! (COL_COMMITMENT_HASH_0 + k)) (pv ! (33 + k))) [0..<4])
     @ concat (map (\<lambda>k. assert_eq (row ! (COL_NULLIFIER_HASH_0 + k)) (pv ! (37 + k))) [0..<4])"

definition transfer_eval :: "gl list \<Rightarrow> gl list \<Rightarrow> gl list" where
  "transfer_eval row pv = transfer_pi_binding row pv @ transfer_cd row @ transfer_cg row @ transfer_flags row
     @ transfer_cf row @ transfer_hash_binding row pv"

section \<open>The trace builder\<close>

record cf_witnesses =
  cf_input_values :: "u64 list"
  cf_output_values :: "u64 list"

definition cf_default :: cf_witnesses where
  "cf_default = \<lparr>cf_input_values = [], cf_output_values = []\<rparr>"

text \<open>\<open>None\<close> is a failed assertion: a value of zero has no reciprocal.\<close>

definition compute_inv :: "u64 \<Rightarrow> u64 option" where
  "compute_inv v = (if v > 0 then Some (RECIP_SCALE div v) else None)"

definition inv_sum :: "u64 list \<Rightarrow> u64 option" where
  "inv_sum vs = map_option sum_list (those (map compute_inv vs))"

definition cf_storage_mass :: "cf_witnesses \<Rightarrow> u64 option" where
  "cf_storage_mass cf =
     (case (inv_sum (cf_output_values cf), inv_sum (cf_input_values cf)) of
        (Some sum_inv_out, Some sum_inv_in) \<Rightarrow> Some (saturating_sub sum_inv_out sum_inv_in) | _ \<Rightarrow> None)"

definition cf_base_fee :: "cf_witnesses \<Rightarrow> u64 option" where
  "cf_base_fee cf = map_option (\<lambda>m. saturating_mul m BASE_PRICE_PER_MASS) (cf_storage_mass cf)"

definition cf_complexity_fee :: "cf_witnesses \<Rightarrow> u64" where
  "cf_complexity_fee cf =
     saturating_mul (of_nat (length (cf_input_values cf) + length (cf_output_values cf))) PRICE_PER_CU"

definition cf_floor_base :: "cf_witnesses \<Rightarrow> u64 option" where
  "cf_floor_base cf = map_option (\<lambda>b. saturating_add b (cf_complexity_fee cf)) (cf_base_fee cf)"

text \<open>The value and its reciprocal in slot \<open>i\<close>; unused slots hold 1 and its reciprocal.\<close>

definition cf_slot :: "u64 list \<Rightarrow> nat \<Rightarrow> u64 \<times> u64" where
  "cf_slot vs i = (if i < length vs then (vs ! i, RECIP_SCALE div (vs ! i)) else (1, RECIP_SCALE))"

definition cf_rem :: "u64 \<times> u64 \<Rightarrow> u64" where
  "cf_rem s = (RECIP_SCALE - fst s * snd s) AND 0xFFFFFFFF"

definition DOMAIN_FEE_PREMIUM_FE :: u64 where
  "DOMAIN_FEE_PREMIUM_FE = from_le_bytes (ascii ''scalar_f'')"

definition premium_split :: "u64 \<Rightarrow> u64 \<Rightarrow> u64 \<times> u64" where
  "premium_split floor_base raw0 =
     (let floor_plus_one = saturating_add floor_base 1
      in if floor_plus_one = 0 then (0, 0) else (raw0 mod floor_plus_one, raw0 div floor_plus_one))"

text \<open>The columns in their order: main values, hashes, range-check columns (112 columns), then the columns
  of the storage mass and of the premium.\<close>

definition transfer_core_row :: "transfer_public_inputs \<Rightarrow> u64 \<Rightarrow> gl list" where
  "transfer_core_row pi cg_validity_val =
     (let fee_above_floor = saturating_sub (tp_fee_total_sscl pi) TRANSFER_FEE_FLOOR
      in map gl_new [tp_fee_total_sscl pi, tp_sum_inputs_sscl pi, tp_sum_outputs_sscl pi, tp_crypto_version pi,
           tp_current_subepoch_id pi, tp_target_subepoch_id pi, cg_validity_val,
           of_bool (tp_cb_membership_verified pi), of_bool (tp_cc_nonmembership_verified pi),
           of_bool (tp_output_nonzero pi), of_bool (tp_single_utxo_source pi)]
         @ map gl_new (tp_commitment_hash pi) @ map gl_new (tp_nullifier_hash pi) @ [gl_new fee_above_floor]
         @ bits_of FEE_BIT_COUNT fee_above_floor @ bits_of TARGET_BIT_COUNT (tp_target_subepoch_id pi))"

definition transfer_cf_row :: "(u64 list \<Rightarrow> u64 list) \<Rightarrow> transfer_public_inputs \<Rightarrow> cf_witnesses \<Rightarrow> u64 \<Rightarrow> gl list" where
  "transfer_cf_row perm pi cf storage_mass =
     (let slots_in = map (cf_slot (cf_input_values cf)) [0..<MAX_IO_CF];
          slots_out = map (cf_slot (cf_output_values cf)) [0..<MAX_IO_CF];
          n_in = of_nat (length (cf_input_values cf)); n_out = of_nat (length (cf_output_values cf));
          base_fee = saturating_mul storage_mass BASE_PRICE_PER_MASS;
          complexity_fee = saturating_mul (n_in + n_out) PRICE_PER_CU;
          floor_base = saturating_add base_fee complexity_fee;
          tx_nonce = tp_commitment_hash pi ! 0 XOR tp_nullifier_hash pi ! 0;
          p2_out = poseidon2_permute_t8 perm [DOMAIN_FEE_PREMIUM_FE, tx_nonce, floor_base, 0, 0, 0, 0, 0];
          premium = fst (premium_split floor_base (p2_out ! 0)); q = snd (premium_split floor_base (p2_out ! 0))
      in map (gl_new \<circ> fst) slots_in @ map (gl_new \<circ> snd) slots_in
         @ map (gl_new \<circ> fst) slots_out @ map (gl_new \<circ> snd) slots_out
         @ [gl_new storage_mass, gl_new n_in, gl_new n_out]
         @ concat (map (bits_of REM_BIT_COUNT \<circ> cf_rem) slots_in)
         @ concat (map (bits_of REM_BIT_COUNT \<circ> cf_rem) slots_out)
         @ [gl_new base_fee, gl_new complexity_fee, gl_new floor_base, gl_new tx_nonce]
         @ map (\<lambda>j. gl_new (p2_out ! j)) [0..<4] @ [gl_new q, gl_new premium] @ bits_of PREMIUM_BIT_COUNT premium)"

definition is_power_of_two :: "nat \<Rightarrow> bool" where
  "is_power_of_two n \<longleftrightarrow> list_ex (\<lambda>k. n = 2 ^ k) [0..<64]"

text \<open>\<open>None\<close> stands for the panics: a number of rows that is no power of two, sub-epochs out of order, a value of
  zero.\<close>

definition build_transfer_trace ::
  "(u64 list \<Rightarrow> u64 list) \<Rightarrow> transfer_public_inputs \<Rightarrow> cf_witnesses \<Rightarrow> nat \<Rightarrow> gl list list option" where
  "build_transfer_trace perm pi cf num_rows =
     (if \<not> is_power_of_two num_rows then None
      else case (cg_validity (tp_current_subepoch_id pi) (tp_target_subepoch_id pi), cf_storage_mass cf) of
          (Some v, Some m) \<Rightarrow> Some (replicate num_rows (transfer_core_row pi v @ transfer_cf_row perm pi cf m))
        | _ \<Rightarrow> None)"

section \<open>The independent verifier\<close>

definition TRANSFER_TRACE_WIDTH_V2 :: nat where
  "TRANSFER_TRACE_WIDTH_V2 = 112"

definition transfer_eval_v2 :: "gl list \<Rightarrow> gl list \<Rightarrow> gl list" where
  "transfer_eval_v2 row pv =
     (let fee = row ! 0; sum_in = row ! 1; sum_out = row ! 2; version = row ! 3; current_subepoch = row ! 4;
          target_subepoch = row ! 5; validity = row ! 6; cb_ok = row ! 7; cc_ok = row ! 8; out_nz = row ! 9;
          single_src = row ! 10; fee_above_floor = row ! 19
      in assert_zero (sum_in - sum_out - fee)
         @ assert_eq fee (fee_above_floor + gl_new 40)
         @ eval_bits row 20 52 fee_above_floor
         @ assert_eq version (gl_new 1)
         @ assert_eq current_subepoch (target_subepoch + validity)
         @ assert_zero (validity * (validity - 1))
         @ eval_bits row 72 40 target_subepoch
         @ assert_zero (cb_ok * (cb_ok - 1)) @ assert_one cb_ok
         @ assert_zero (cc_ok * (cc_ok - 1)) @ assert_one cc_ok
         @ assert_zero (out_nz * (out_nz - 1)) @ assert_one out_nz
         @ assert_zero (single_src * (single_src - 1)) @ assert_one single_src
         @ (if length pv \<ge> 5
            then assert_eq fee (pv ! 0) @ assert_eq sum_in (pv ! 1) @ assert_eq sum_out (pv ! 2)
              @ assert_eq version (pv ! 3) @ assert_eq current_subepoch (pv ! 4)
            else []))"

datatype transfer_p3_error = ConstraintViolated nat | VerificationFailed | SerializationFailed

definition verify_transfer_p3 ::
  "(bytes \<Rightarrow> 'proof option) \<Rightarrow> ((gl list \<Rightarrow> gl list \<Rightarrow> gl list) \<Rightarrow> nat \<Rightarrow> 'proof \<Rightarrow> gl list \<Rightarrow> bool)
   \<Rightarrow> bytes \<Rightarrow> transfer_public_inputs \<Rightarrow> transfer_p3_error + unit" where
  "verify_transfer_p3 decode verify proof_bytes pi =
     (case decode proof_bytes of
        None \<Rightarrow> Inl SerializationFailed
      | Some prf \<Rightarrow> if verify transfer_eval TRANSFER_TRACE_WIDTH prf (to_goldilocks pi) then Inr () else Inl VerificationFailed)"

definition prove_transfer_p3 ::
  "(u64 list \<Rightarrow> u64 list) \<Rightarrow> ((gl list \<Rightarrow> gl list \<Rightarrow> gl list) \<Rightarrow> gl list list \<Rightarrow> gl list \<Rightarrow> bytes option)
   \<Rightarrow> transfer_public_inputs \<Rightarrow> (transfer_p3_error + bytes) option" where
  "prove_transfer_p3 perm prove pi =
     (case check_all_constraints pi of
        Inl i \<Rightarrow> Some (Inl (ConstraintViolated i))
      | Inr _ \<Rightarrow>
          map_option (\<lambda>trace. case prove transfer_eval trace (to_goldilocks pi) of
              None \<Rightarrow> Inl SerializationFailed | Some b \<Rightarrow> Inr b)
            (build_transfer_trace perm pi cf_default 8))"

definition verify_transfer_independent ::
  "(bytes \<Rightarrow> 'proof option) \<Rightarrow> ((gl list \<Rightarrow> gl list \<Rightarrow> gl list) \<Rightarrow> nat \<Rightarrow> 'proof \<Rightarrow> gl list \<Rightarrow> bool)
   \<Rightarrow> bytes \<Rightarrow> transfer_public_inputs \<Rightarrow> independent_verify_error + unit" where
  "verify_transfer_independent decode verify proof_bytes pi =
     (if TRANSFER_TRACE_WIDTH \<noteq> TRANSFER_TRACE_WIDTH_V2
      then Inl (TraceWidthMismatch TRANSFER_TRACE_WIDTH TRANSFER_TRACE_WIDTH_V2)
      else case decode proof_bytes of
          None \<Rightarrow> Inl Deserialize
        | Some prf \<Rightarrow> if verify transfer_eval_v2 TRANSFER_TRACE_WIDTH_V2 prf (to_goldilocks pi) then Inr ()
            else Inl IndependentVerificationFailed)"

section \<open>What the circuit states\<close>

lemmas transfer_cols = COL_FEE_def COL_SUM_IN_def COL_SUM_OUT_def COL_VERSION_def COL_CURRENT_SUBEPOCH_def
  COL_TARGET_SUBEPOCH_def COL_CG_VALIDITY_def COL_CB_VERIFIED_def COL_CC_VERIFIED_def COL_OUTPUT_NONZERO_def
  COL_SINGLE_SOURCE_def COL_COMMITMENT_HASH_0_def COL_NULLIFIER_HASH_0_def COL_FEE_ABOVE_FLOOR_def
  COL_FEE_BIT_START_def COL_TARGET_BIT_START_def FEE_BIT_COUNT_def TARGET_BIT_COUNT_def

lemmas transfer_consts = TRANSFER_FEE_FLOOR_def VALID_CRYPTO_VERSION_def gl_new_def

text \<open>The constraints both implementations share, and what they say about the public values: the fee is at
  least the floor and fits 52 bits above it, the version is the valid one, the current sub-epoch is at
  most \<open>2 ^ 40\<close>, and the sums balance \<^emph>\<open>modulo the prime\<close>.\<close>

definition transfer_core_ok :: "gl list \<Rightarrow> gl list \<Rightarrow> bool" where
  "transfer_core_ok row pv \<longleftrightarrow>
     vanishes (transfer_pi_binding row pv @ transfer_cd row @ transfer_cg row @ transfer_flags row)"

definition transfer_statement :: "gl list \<Rightarrow> bool" where
  "transfer_statement pv \<longleftrightarrow>
     40 \<le> pv ! 0 mod GLP \<and> pv ! 0 mod GLP < 40 + 2 ^ 52 \<and> pv ! 1 mod GLP = (pv ! 2 + pv ! 0) mod GLP
     \<and> pv ! 3 mod GLP = 1 \<and> pv ! 4 mod GLP \<le> 2 ^ 40"

lemma gl_new_lits [simp]: "gl_new 0 = 0" "gl_new 1 = 1" "gl_new 40 = 40"
  by (simp_all add: gl_new_def)

lemma eval_flag_iff [asserts]: "vanishes (eval_flag e) \<longleftrightarrow> e mod GLP = 1"
  by (auto simp: eval_flag_def asserts gl_boolean)

lemma conservation_iff: "GLP dvd a - b - c \<longleftrightarrow> a mod GLP = (b + c) mod GLP"
  by (simp only: mod_eq_dvd_iff diff_diff_eq)

lemma transfer_core_iff:
  "transfer_core_ok row pv \<longleftrightarrow>
     row ! 0 mod GLP = pv ! 0 mod GLP \<and> row ! 1 mod GLP = pv ! 1 mod GLP \<and> row ! 2 mod GLP = pv ! 2 mod GLP
     \<and> row ! 3 mod GLP = pv ! 3 mod GLP \<and> row ! 4 mod GLP = pv ! 4 mod GLP
     \<and> row ! 1 mod GLP = (row ! 2 + row ! 0) mod GLP \<and> row ! 0 mod GLP = (row ! 19 + 40) mod GLP
     \<and> vanishes (eval_bits row 20 52 (row ! 19)) \<and> row ! 3 mod GLP = 1 mod GLP
     \<and> row ! 4 mod GLP = (row ! 5 + row ! 6) mod GLP \<and> (row ! 6 mod GLP = 0 \<or> row ! 6 mod GLP = 1)
     \<and> vanishes (eval_bits row 72 40 (row ! 5))
     \<and> row ! 7 mod GLP = 1 \<and> row ! 8 mod GLP = 1 \<and> row ! 9 mod GLP = 1 \<and> row ! 10 mod GLP = 1"
  by (simp only: transfer_core_ok_def transfer_pi_binding_def transfer_cd_def transfer_cg_def transfer_flags_def
      transfer_cols TRANSFER_FEE_FLOOR_def VALID_CRYPTO_VERSION_def gl_new_lits vanishes_simps asserts gl_boolean
      conservation_iff conj_assoc)

lemma transfer_core_sound:
  assumes "transfer_core_ok row pv"
  shows "transfer_statement pv"
proof -
  note r = assms [unfolded transfer_core_iff]
  obtain f where f: "0 \<le> f" "f < 2 ^ 52" "row ! 19 mod GLP = f mod GLP" using r bits_sound by blast
  obtain t where t: "0 \<le> t" "t < 2 ^ 40" "row ! 5 mod GLP = t mod GLP" using r bits_sound by blast
  have v: "row ! 6 mod GLP = 0 \<or> row ! 6 mod GLP = 1" using r by blast
  have "pv ! 0 mod GLP = row ! 0 mod GLP" "row ! 0 mod GLP = (row ! 19 + 40) mod GLP" using r by simp_all
  then have "pv ! 0 mod GLP = (f + 40) mod GLP" using mod_add_cong [OF f(3) refl, of 40] by (simp only:)
  also have "\<dots> = f + 40" using f by (intro mod_pos_pos_trivial) simp_all
  finally have fee: "pv ! 0 mod GLP = f + 40" .
  have "pv ! 4 mod GLP = row ! 4 mod GLP" "row ! 4 mod GLP = (row ! 5 + row ! 6) mod GLP" using r by simp_all
  then have "pv ! 4 mod GLP = (t + row ! 6 mod GLP) mod GLP"
    using mod_add_cong [OF t(3) mod_mod_trivial [symmetric], of "row ! 6"] by (simp only:)
  also have "\<dots> = t + row ! 6 mod GLP" using t v by (intro mod_pos_pos_trivial) auto
  finally have current: "pv ! 4 mod GLP = t + row ! 6 mod GLP" .
  have "(row ! 2 + row ! 0) mod GLP = (pv ! 2 + pv ! 0) mod GLP" using r by (intro mod_add_cong) blast+
  moreover have "pv ! 1 mod GLP = row ! 1 mod GLP" "row ! 1 mod GLP = (row ! 2 + row ! 0) mod GLP" using r by simp_all
  ultimately have sums: "pv ! 1 mod GLP = (pv ! 2 + pv ! 0) mod GLP" by (simp only:)
  have "pv ! 3 mod GLP = 1" using r by simp
  moreover have "pv ! 4 mod GLP \<le> 2 ^ 40" using current t v by auto
  ultimately show ?thesis using sums fee f unfolding transfer_statement_def by simp
qed

text \<open>Only the columns of a row matter, not what follows them.\<close>

lemma eval_bits_cong:
  assumes "\<And>i. i < n \<Longrightarrow> row ! (start + i) = row' ! (start + i)"
  shows "eval_bits row start n v = eval_bits row' start n v"
proof -
  have "map (\<lambda>i. f (row ! (start + i)) i) [0..<n] = map (\<lambda>i. f (row' ! (start + i)) i) [0..<n]"
    for f :: "gl \<Rightarrow> nat \<Rightarrow> 'x" using assms by (intro map_cong) simp_all
  note m = this [of "\<lambda>b i. assert_zero (b * (b - 1))"] this [of "\<lambda>b i. b * 2 ^ i"]
  show ?thesis unfolding eval_bits_def m ..
qed

lemma eval_bits_append: "start + n \<le> length xs \<Longrightarrow> eval_bits (xs @ ys) start n v = eval_bits xs start n v"
  by (rule eval_bits_cong) (simp add: nth_append)

lemma transfer_core_append: "length xs = 112 \<Longrightarrow> transfer_core_ok (xs @ ys) pv = transfer_core_ok xs pv"
  by (simp add: transfer_core_ok_def transfer_pi_binding_def transfer_cd_def transfer_cg_def transfer_flags_def
      transfer_cols eval_bits_append nth_append)

definition tpi_wf :: "transfer_public_inputs \<Rightarrow> bool" where
  "tpi_wf pi \<longleftrightarrow> length (tp_utxo_set_root pi) = 32 \<and> length (tp_nullifier_active_root pi) = 32
     \<and> length (tp_nullifier_archived_root pi) = 32 \<and> length (tp_commitment_hash pi) = 4 \<and> length (tp_nullifier_hash pi) = 4"

lemma length_transfer_core_row [simp]: "tpi_wf pi \<Longrightarrow> length (transfer_core_row pi v) = 112"
  by (simp add: transfer_core_row_def Let_def tpi_wf_def FEE_BIT_COUNT_def TARGET_BIT_COUNT_def)

lemma transfer_core_row_nth:
  assumes "tpi_wf pi"
  shows "transfer_core_row pi v ! 0 = gl_new (tp_fee_total_sscl pi)"
    "transfer_core_row pi v ! 1 = gl_new (tp_sum_inputs_sscl pi)"
    "transfer_core_row pi v ! 2 = gl_new (tp_sum_outputs_sscl pi)"
    "transfer_core_row pi v ! 3 = gl_new (tp_crypto_version pi)"
    "transfer_core_row pi v ! 4 = gl_new (tp_current_subepoch_id pi)"
    "transfer_core_row pi v ! 5 = gl_new (tp_target_subepoch_id pi)"
    "transfer_core_row pi v ! 6 = gl_new v"
    "transfer_core_row pi v ! 7 = gl_new (of_bool (tp_cb_membership_verified pi))"
    "transfer_core_row pi v ! 8 = gl_new (of_bool (tp_cc_nonmembership_verified pi))"
    "transfer_core_row pi v ! 9 = gl_new (of_bool (tp_output_nonzero pi))"
    "transfer_core_row pi v ! 10 = gl_new (of_bool (tp_single_utxo_source pi))"
    "transfer_core_row pi v ! 19 = gl_new (saturating_sub (tp_fee_total_sscl pi) 40)"
  using assms by (simp_all add: transfer_core_row_def Let_def tpi_wf_def nth_append TRANSFER_FEE_FLOOR_def)

lemma transfer_core_row_blocks:
  assumes "tpi_wf pi"
  shows "k < 4 \<Longrightarrow> transfer_core_row pi v ! (11 + k) = gl_new (tp_commitment_hash pi ! k)"
    "k < 4 \<Longrightarrow> transfer_core_row pi v ! (15 + k) = gl_new (tp_nullifier_hash pi ! k)"
    "k < 52 \<Longrightarrow> transfer_core_row pi v ! (20 + k) = bits_of 52 (saturating_sub (tp_fee_total_sscl pi) 40) ! k"
    "k < 40 \<Longrightarrow> transfer_core_row pi v ! (72 + k) = bits_of 40 (tp_target_subepoch_id pi) ! k"
  using assms
  by (simp_all add: transfer_core_row_def Let_def tpi_wf_def nth_append TRANSFER_FEE_FLOOR_def FEE_BIT_COUNT_def
      TARGET_BIT_COUNT_def)

text \<open>The row the prover writes satisfies the shared constraints.\<close>

lemma transfer_core_row_ok:
  assumes wf: "tpi_wf pi"
    and fee: "40 \<le> uint (tp_fee_total_sscl pi)" "uint (tp_fee_total_sscl pi) < 40 + 2 ^ 52"
    and sums: "uint (tp_sum_inputs_sscl pi) mod GLP = (uint (tp_sum_outputs_sscl pi) + uint (tp_fee_total_sscl pi)) mod GLP"
    and version: "tp_crypto_version pi = 1"
    and subepochs: "uint (tp_current_subepoch_id pi) = uint (tp_target_subepoch_id pi) + uint v" "uint v \<le> 1"
      "uint (tp_target_subepoch_id pi) < 2 ^ 40"
    and flags: "tp_cb_membership_verified pi" "tp_cc_nonmembership_verified pi" "tp_output_nonzero pi" "tp_single_utxo_source pi"
    and pv: "pv ! 0 mod GLP = uint (tp_fee_total_sscl pi) mod GLP" "pv ! 1 mod GLP = uint (tp_sum_inputs_sscl pi) mod GLP"
      "pv ! 2 mod GLP = uint (tp_sum_outputs_sscl pi) mod GLP" "pv ! 3 mod GLP = 1"
      "pv ! 4 mod GLP = uint (tp_current_subepoch_id pi) mod GLP"
  shows "transfer_core_ok (transfer_core_row pi v) pv"
proof -
  let ?a = "saturating_sub (tp_fee_total_sscl pi) 40"
  have a: "uint ?a = uint (tp_fee_total_sscl pi) - 40"
    using fee by (simp add: saturating_sub_def uint_word_ariths word_less_def uint_sub_if')
  have f: "vanishes (eval_bits (transfer_core_row pi v) 20 52 (gl_new ?a))"
    using transfer_core_row_blocks(3) [OF wf] a fee by (intro bits_complete [where k = ?a]) (simp_all add: gl_new_def)
  have t: "vanishes (eval_bits (transfer_core_row pi v) 72 40 (gl_new (tp_target_subepoch_id pi)))"
    using transfer_core_row_blocks(4) [OF wf] subepochs(3)
    by (intro bits_complete [where k = "tp_target_subepoch_id pi"]) (simp_all add: gl_new_def)
  have v: "uint v = 0 \<or> uint v = 1" using subepochs(2) uint_ge_0 [of v] by linarith
  have "(uint (tp_target_subepoch_id pi) + uint v) mod GLP = uint (tp_current_subepoch_id pi) mod GLP"
    using subepochs(1) by (simp only:)
  moreover have "uint v mod GLP = 0 \<or> uint v mod GLP = 1" using v by auto
  moreover have "uint ?a + 40 = uint (tp_fee_total_sscl pi)" using a by simp
  moreover have "(1 :: int) mod GLP = 1" by simp
  ultimately show ?thesis
    unfolding transfer_core_iff transfer_core_row_nth [OF wf]
    using f t flags unfolding gl_new_def
    by (intro conjI) (simp_all only: pv sums version of_bool_eq uint_1_eq simp_thms)
qed

lemma transfer_core_complete:
  assumes "transfer_statement pv"
  obtains core where "length core = 112" "transfer_core_ok core pv"
    "\<And>k. k < 8 \<Longrightarrow> core ! (11 + k) mod GLP = pv ! (33 + k) mod GLP"
proof -
  let ?c = "as_canonical_u64 (pv ! 4)" and ?h = "\<lambda>i. map as_canonical_u64 [pv ! i, pv ! (i + 1), pv ! (i + 2), pv ! (i + 3)]"
  define v :: u64 where "v = (if ?c = 2 ^ 40 then 1 else 0)"
  define pi where "pi = \<lparr>tp_fee_total_sscl = as_canonical_u64 (pv ! 0), tp_sum_inputs_sscl = as_canonical_u64 (pv ! 1),
    tp_sum_outputs_sscl = as_canonical_u64 (pv ! 2), tp_crypto_version = 1, tp_current_subepoch_id = ?c,
    tp_target_subepoch_id = ?c - v, tp_utxo_set_root = replicate 32 0, tp_cb_membership_verified = True,
    tp_nullifier_active_root = replicate 32 0, tp_nullifier_archived_root = replicate 32 0,
    tp_cc_nonmembership_verified = True, tp_output_nonzero = True, tp_single_utxo_source = True,
    tp_commitment_hash = ?h 33, tp_nullifier_hash = ?h 37\<rparr>"
  have st: "40 \<le> pv ! 0 mod GLP" "pv ! 0 mod GLP < 40 + 2 ^ 52" "pv ! 1 mod GLP = (pv ! 2 + pv ! 0) mod GLP"
    "pv ! 3 mod GLP = 1" "pv ! 4 mod GLP \<le> 2 ^ 40"
    using assms by (simp_all add: transfer_statement_def)
  have wf: "tpi_wf pi" by (simp add: pi_def tpi_wf_def)
  have c: "uint ?c \<le> 2 ^ 40" using st(5) by (simp only: uint_as_canonical)
  have target: "uint (?c - v) = uint ?c - uint v" "uint v \<le> 1" "uint (?c - v) < 2 ^ 40"
  proof -
    have "uint ?c < 2 ^ 40" if "?c \<noteq> 2 ^ 40"
    proof -
      have "uint ?c \<noteq> uint (2 ^ 40 :: u64)" using that unfolding word_uint_eq_iff .
      then show ?thesis using c by simp
    qed
    then show "uint (?c - v) = uint ?c - uint v" "uint v \<le> 1" "uint (?c - v) < 2 ^ 40"
      by (auto simp: v_def)
  qed
  have "transfer_core_ok (transfer_core_row pi v) pv"
  proof (rule transfer_core_row_ok [OF wf])
    show "uint (tp_sum_inputs_sscl pi) mod GLP = (uint (tp_sum_outputs_sscl pi) + uint (tp_fee_total_sscl pi)) mod GLP"
      using st(3) by (simp add: pi_def uint_as_canonical mod_simps)
    show "uint (tp_current_subepoch_id pi) = uint (tp_target_subepoch_id pi) + uint v"
      using target(1) by (simp add: pi_def)
  qed (use st(1,2,4) target(2,3) in \<open>simp_all add: pi_def uint_as_canonical\<close>)
  moreover have "transfer_core_row pi v ! (11 + k) mod GLP = pv ! (33 + k) mod GLP" if "k < 8" for k
  proof (cases "k < 4")
    case True
    then have "k = 0 \<or> k = 1 \<or> k = 2 \<or> k = 3" by auto
    then have "uint (tp_commitment_hash pi ! k) = pv ! (33 + k) mod GLP"
      by (elim disjE) (simp_all add: pi_def uint_as_canonical)
    then show ?thesis unfolding transfer_core_row_blocks(1) [OF wf True] gl_new_def by simp
  next
    case False
    then obtain j where j: "k = j + 4" "j < 4" using \<open>k < 8\<close> by (metis add.commute le_add_diff_inverse less_diff_conv2 not_less numeral_Bit0)
    then have "j = 0 \<or> j = 1 \<or> j = 2 \<or> j = 3" by auto
    then have "uint (tp_nullifier_hash pi ! j) = pv ! (37 + j) mod GLP"
      by (elim disjE) (simp_all add: pi_def uint_as_canonical)
    moreover have "11 + k = 15 + j" "33 + k = 37 + j" using j by simp_all
    ultimately show ?thesis using transfer_core_row_blocks(2) [OF wf j(2)] by (simp add: gl_new_def)
  qed
  ultimately show ?thesis by (rule that [OF length_transfer_core_row [OF wf]])
qed

text \<open>The contract of a transfer circuit: an accepted row satisfies the shared constraints, and a row of the shared
  columns that also carries the hashes extends to an accepted one.  It fixes the statement proved.\<close>

locale transfer_air =
  fixes eval :: "gl list \<Rightarrow> gl list \<Rightarrow> gl list" and width :: nat
  assumes core: "\<And>row pv. length pv = 41 \<Longrightarrow> vanishes (eval row pv) \<Longrightarrow> transfer_core_ok row pv"
    and extend: "\<And>cols pv. length cols = 112 \<Longrightarrow> length pv = 41 \<Longrightarrow> transfer_core_ok cols pv \<Longrightarrow>
      (\<And>k. k < 8 \<Longrightarrow> cols ! (11 + k) mod GLP = pv ! (33 + k) mod GLP) \<Longrightarrow>
      \<exists>rest. length (cols @ rest) = width \<and> vanishes (eval (cols @ rest) pv)"
begin

lemma language:
  assumes "length pv = 41"
  shows "(\<exists>trace. air_accepts eval width trace pv) \<longleftrightarrow> transfer_statement pv"
proof
  assume "\<exists>trace. air_accepts eval width trace pv"
  then obtain row where "vanishes (eval row pv)" by (auto simp: air_accepts_def neq_Nil_conv)
  then show "transfer_statement pv" using core [OF assms] transfer_core_sound by blast
next
  assume "transfer_statement pv"
  then obtain cols where "length cols = 112" "transfer_core_ok cols pv"
    "\<And>k. k < 8 \<Longrightarrow> cols ! (11 + k) mod GLP = pv ! (33 + k) mod GLP"
    by (rule transfer_core_complete) blast
  then obtain rest where "length (cols @ rest) = width" "vanishes (eval (cols @ rest) pv)"
    using extend [OF _ assms] by blast
  then have "air_accepts eval width [cols @ rest] pv" by (simp add: air_accepts_def)
  then show "\<exists>trace. air_accepts eval width trace pv" ..
qed

end

lemma transfer_eval_v2_iff:
  assumes "length pv = 41"
  shows "vanishes (transfer_eval_v2 row pv) \<longleftrightarrow> transfer_core_ok row pv"
proof -
  have "(length pv \<ge> 5) = True" using assms by simp
  then show ?thesis
    unfolding transfer_core_iff transfer_eval_v2_def Let_def
    by (simp only: vanishes_simps asserts gl_boolean conservation_iff gl_new_lits if_True) blast
qed

interpretation v2: transfer_air transfer_eval_v2 TRANSFER_TRACE_WIDTH_V2
proof
  fix cols pv :: "gl list"
  assume "length cols = 112" "length pv = 41" "transfer_core_ok cols pv"
  then show "\<exists>rest. length (cols @ rest) = TRANSFER_TRACE_WIDTH_V2 \<and> vanishes (transfer_eval_v2 (cols @ rest) pv)"
    by (intro exI [of _ "[]"]) (simp add: transfer_eval_v2_iff TRANSFER_TRACE_WIDTH_V2_def)
qed (simp add: transfer_eval_v2_iff)

section \<open>The storage-mass columns\<close>

lemmas cf_cols = COL_VALUE_IN_START_def COL_INV_IN_START_def COL_VALUE_OUT_START_def COL_INV_OUT_START_def
  COL_STORAGE_MASS_def COL_NUM_INPUTS_def COL_NUM_OUTPUTS_def COL_REM_IN_BIT_START_def COL_REM_OUT_BIT_START_def
  COL_BASE_FEE_def COL_COMPLEXITY_FEE_def COL_FLOOR_BASE_def COL_TX_NONCE_def COL_PREMIUM_RAW_START_def COL_PREMIUM_Q_def
  COL_PREMIUM_def COL_PREMIUM_BIT_START_def MAX_IO_CF_def REM_BIT_COUNT_def PREMIUM_BIT_COUNT_def

lemma transfer_cf_row_nth:
  fixes perm pi cf m
  defines "R \<equiv> transfer_cf_row perm pi cf m"
  defines "base \<equiv> saturating_mul m 1000"
  defines "cpx \<equiv> saturating_mul (of_nat (length (cf_input_values cf)) + of_nat (length (cf_output_values cf))) 1000 :: u64"
  defines "floor_base \<equiv> saturating_add base cpx"
  defines "raw \<equiv> poseidon2_permute_t8 perm [DOMAIN_FEE_PREMIUM_FE, tp_commitment_hash pi ! 0 XOR tp_nullifier_hash pi ! 0, floor_base, 0, 0, 0, 0, 0] ! 0"
  shows "length R = 745"
    "i < 10 \<Longrightarrow> R ! i = gl_new (fst (cf_slot (cf_input_values cf) i))"
    "i < 10 \<Longrightarrow> R ! (10 + i) = gl_new (snd (cf_slot (cf_input_values cf) i))"
    "i < 10 \<Longrightarrow> R ! (20 + i) = gl_new (fst (cf_slot (cf_output_values cf) i))"
    "i < 10 \<Longrightarrow> R ! (30 + i) = gl_new (snd (cf_slot (cf_output_values cf) i))"
    "R ! 40 = gl_new m" "R ! 41 = gl_new (of_nat (length (cf_input_values cf)))" "R ! 42 = gl_new (of_nat (length (cf_output_values cf)))"
    "i < 10 \<Longrightarrow> k < 32 \<Longrightarrow> R ! (43 + (i * 32 + k)) = bits_of 32 (cf_rem (cf_slot (cf_input_values cf) i)) ! k"
    "i < 10 \<Longrightarrow> k < 32 \<Longrightarrow> R ! (363 + (i * 32 + k)) = bits_of 32 (cf_rem (cf_slot (cf_output_values cf) i)) ! k"
    "R ! 683 = gl_new base" "R ! 684 = gl_new cpx" "R ! 685 = gl_new floor_base" "R ! 687 = gl_new raw"
    "R ! 691 = gl_new (snd (premium_split floor_base raw))" "R ! 692 = gl_new (fst (premium_split floor_base raw))"
    "k < 52 \<Longrightarrow> R ! (693 + k) = bits_of 52 (fst (premium_split floor_base raw)) ! k"
proof -
  define A where "A = map (cf_slot (cf_input_values cf)) [0..<10]"
  define B where "B = map (cf_slot (cf_output_values cf)) [0..<10]"
  define bA where "bA = concat (map (bits_of 32 \<circ> cf_rem) A)"
  define bB where "bB = concat (map (bits_of 32 \<circ> cf_rem) B)"
  define P where "P = poseidon2_permute_t8 perm [DOMAIN_FEE_PREMIUM_FE, tp_commitment_hash pi ! 0 XOR tp_nullifier_hash pi ! 0, floor_base, 0, 0, 0, 0, 0]"
  have AB: "length A = 10" "length B = 10" "length bA = 320" "length bB = 320"
    using length_concat_uniform [of A "bits_of 32 \<circ> cf_rem" 32] length_concat_uniform [of B "bits_of 32 \<circ> cf_rem" 32]
    by (simp_all add: A_def B_def bA_def bB_def)
  have nthAB: "A ! i = cf_slot (cf_input_values cf) i" "B ! i = cf_slot (cf_output_values cf) i" if "i < 10" for i
    using that by (simp_all add: A_def B_def)
  have bits: "bA ! (i * 32 + k) = bits_of 32 (cf_rem (A ! i)) ! k" "bB ! (i * 32 + k) = bits_of 32 (cf_rem (B ! i)) ! k"
    if "i < 10" "k < 32" for i k
    using nth_concat_uniform [of A "bits_of 32 \<circ> cf_rem" 32 i k] nth_concat_uniform [of B "bits_of 32 \<circ> cf_rem" 32 i k] that AB
    by (simp_all add: bA_def bB_def)
  have small: "i * 32 + k < 320" if "i < 10" "k < 32" for i k :: nat using that by simp
  have R: "R = map (gl_new \<circ> fst) A @ map (gl_new \<circ> snd) A @ map (gl_new \<circ> fst) B @ map (gl_new \<circ> snd) B
     @ [gl_new m, gl_new (of_nat (length (cf_input_values cf))), gl_new (of_nat (length (cf_output_values cf)))] @ bA @ bB
     @ [gl_new base, gl_new cpx, gl_new floor_base, gl_new (tp_commitment_hash pi ! 0 XOR tp_nullifier_hash pi ! 0)]
     @ map (\<lambda>j. gl_new (P ! j)) [0..<4] @ [gl_new (snd (premium_split floor_base raw)), gl_new (fst (premium_split floor_base raw))]
     @ bits_of 52 (fst (premium_split floor_base raw))"
    unfolding R_def transfer_cf_row_def Let_def A_def B_def bA_def bB_def P_def raw_def floor_base_def base_def cpx_def
      MAX_IO_CF_def REM_BIT_COUNT_def PREMIUM_BIT_COUNT_def BASE_PRICE_PER_MASS_def PRICE_PER_CU_def by (rule refl)
  show "length R = 745" using AB by (simp add: R)
  show "i < 10 \<Longrightarrow> R ! i = gl_new (fst (cf_slot (cf_input_values cf) i))"
    "i < 10 \<Longrightarrow> R ! (10 + i) = gl_new (snd (cf_slot (cf_input_values cf) i))"
    "i < 10 \<Longrightarrow> R ! (20 + i) = gl_new (fst (cf_slot (cf_output_values cf) i))"
    "i < 10 \<Longrightarrow> R ! (30 + i) = gl_new (snd (cf_slot (cf_output_values cf) i))"
    using AB nthAB by (simp_all add: R nth_append)
  show "R ! 40 = gl_new m" "R ! 41 = gl_new (of_nat (length (cf_input_values cf)))" "R ! 42 = gl_new (of_nat (length (cf_output_values cf)))"
    "R ! 683 = gl_new base" "R ! 684 = gl_new cpx" "R ! 685 = gl_new floor_base" "R ! 687 = gl_new raw"
    "R ! 691 = gl_new (snd (premium_split floor_base raw))" "R ! 692 = gl_new (fst (premium_split floor_base raw))"
    "k < 52 \<Longrightarrow> R ! (693 + k) = bits_of 52 (fst (premium_split floor_base raw)) ! k"
    using AB by (simp_all add: R nth_append raw_def P_def)
  show "i < 10 \<Longrightarrow> k < 32 \<Longrightarrow> R ! (43 + (i * 32 + k)) = bits_of 32 (cf_rem (cf_slot (cf_input_values cf) i)) ! k"
    "i < 10 \<Longrightarrow> k < 32 \<Longrightarrow> R ! (363 + (i * 32 + k)) = bits_of 32 (cf_rem (cf_slot (cf_output_values cf) i)) ! k"
    using AB nthAB bits [of i k] small [of i k] by (simp_all add: R nth_append)
qed

text \<open>A reciprocal that fits: the value is at least one and at most the scale, so the remainder has 32 bits.\<close>

definition cf_value_ok :: "u64 \<Rightarrow> bool" where
  "cf_value_ok v \<longleftrightarrow> 1 \<le> unat v \<and> unat v \<le> 4294967296"

lemma cf_slot_ok:
  assumes "list_all cf_value_ok vs"
  shows "unat (snd (cf_slot vs i)) = 4294967296 div unat (fst (cf_slot vs i))"
    "uint (cf_rem (cf_slot vs i)) = 4294967296 - uint (fst (cf_slot vs i)) * uint (snd (cf_slot vs i))"
    "uint (cf_rem (cf_slot vs i)) < 4294967296"
proof -
  define v where "v = fst (cf_slot vs i)"
  have v: "1 \<le> unat v" "unat v \<le> 4294967296" and s: "snd (cf_slot vs i) = RECIP_SCALE div v"
    using assms by (auto simp: v_def cf_slot_def RECIP_SCALE_def list_all_length cf_value_ok_def)
  have w: "unat (RECIP_SCALE div v) = 4294967296 div unat v" by (simp add: unat_div RECIP_SCALE_def)
  then show "unat (snd (cf_slot vs i)) = 4294967296 div unat (fst (cf_slot vs i))" by (simp add: s v_def)
  have u: "unat (RECIP_SCALE - v * (RECIP_SCALE div v)) = 4294967296 mod unat v"
    by (simp add: minus_mult_div_eq_mod unat_mod RECIP_SCALE_def)
  then have lt: "unat (RECIP_SCALE - v * (RECIP_SCALE div v)) < 4294967296"
    using v mod_less_divisor [of "unat v" 4294967296] by linarith
  have "x AND 0xFFFFFFFF = x" if "unat x < 4294967296" for x :: u64
  proof -
    have "unat (take_bit 32 x) = unat x" using that by (simp add: unsigned_take_bit_eq take_bit_nat_eq_self)
    then have "take_bit 32 x = x" by (simp only: word_unat_eq_iff)
    then show ?thesis by (simp add: take_bit_eq_mask mask_eq_exp_minus_1)
  qed
  then have "cf_rem (cf_slot vs i) = RECIP_SCALE - v * (RECIP_SCALE div v)"
    using lt by (simp add: cf_rem_def s v_def)
  then have r: "unat (cf_rem (cf_slot vs i)) = 4294967296 mod unat v" using u by (simp only:)
  then show "uint (cf_rem (cf_slot vs i)) < 4294967296" using lt u by (simp only: uint_nat)
  have "int (unat v * (4294967296 div unat v) + 4294967296 mod unat v) = int 4294967296" by (simp only: mult_div_mod_eq)
  then have "int (4294967296 mod unat v) = 4294967296 - uint v * int (4294967296 div unat v)"
    unfolding uint_nat of_nat_add of_nat_mult of_nat_numeral by linarith
  then show "uint (cf_rem (cf_slot vs i)) = 4294967296 - uint (fst (cf_slot vs i)) * uint (snd (cf_slot vs i))"
    unfolding s v_def [symmetric] using r w by (simp only: uint_nat)
qed

text \<open>The sum over all ten slots counts the unused ones with the full scale.\<close>

definition inv_total :: "u64 list \<Rightarrow> nat" where
  "inv_total vs = (\<Sum>v\<leftarrow>vs. 4294967296 div unat v)"

lemma inv_total_le: "inv_total vs \<le> length vs * 4294967296"
  by (induction vs) (simp_all add: inv_total_def add_le_mono div_le_dividend)

lemma inv_sum_eq:
  assumes "length vs \<le> 10" "0 \<notin> set vs"
  obtains w where "inv_sum vs = Some w" "unat w = inv_total vs"
proof -
  have "those (map compute_inv vs) = Some (map (\<lambda>v. RECIP_SCALE div v) vs)"
    using assms(2) by (induction vs) (auto simp: compute_inv_def word_gt_0)
  then have "inv_sum vs = Some (\<Sum>v\<leftarrow>vs. RECIP_SCALE div v)" by (simp add: inv_sum_def)
  moreover have "(\<Sum>v\<leftarrow>vs. unat (RECIP_SCALE div v)) = inv_total vs"
    by (simp add: inv_total_def unat_div RECIP_SCALE_def)
  moreover have "inv_total vs < 2 ^ LENGTH(64)" using inv_total_le [of vs] assms(1) by simp
  ultimately show ?thesis
    using that unat_sum_list_no_overflow [of "map (\<lambda>v. RECIP_SCALE div v) vs"] by (simp add: comp_def)
qed

lemma those_compute_inv: "those (map compute_inv vs) = Some ws \<Longrightarrow> x \<in> set vs \<Longrightarrow> x \<noteq> 0"
  by (induction vs arbitrary: ws) (auto simp: compute_inv_def split: option.splits if_splits)

lemma padded_sum:
  assumes "length vs \<le> 10"
  shows "(\<Sum>i\<leftarrow>[0..<10]. uint (snd (cf_slot vs i))) = int (inv_total vs + (10 - length vs) * 4294967296)"
proof -
  have "(\<Sum>i\<leftarrow>[0..<length vs]. uint (snd (cf_slot vs i))) = (\<Sum>i\<leftarrow>[0..<length vs]. int (4294967296 div unat (vs ! i)))"
    by (intro arg_cong [where f = sum_list] map_cong) (simp_all add: cf_slot_def uint_nat unat_div RECIP_SCALE_def)
  also have "\<dots> = int (inv_total vs)"
  proof -
    have "map (\<lambda>i. int (4294967296 div unat (vs ! i))) [0..<length vs] = map of_nat (map (\<lambda>v. 4294967296 div unat v) vs)"
      by (rule nth_equalityI) simp_all
    then show ?thesis unfolding inv_total_def by (simp only: sum_list_of_nat)
  qed
  finally have a: "(\<Sum>i\<leftarrow>[0..<length vs]. uint (snd (cf_slot vs i))) = int (inv_total vs)" .
  have "(\<Sum>i\<leftarrow>[length vs..<10]. uint (snd (cf_slot vs i))) = (\<Sum>i\<leftarrow>[length vs..<10]. 4294967296)"
    by (intro arg_cong [where f = sum_list] map_cong) (simp_all add: cf_slot_def RECIP_SCALE_def)
  then have b: "(\<Sum>i\<leftarrow>[length vs..<10]. uint (snd (cf_slot vs i))) = int ((10 - length vs) * 4294967296)"
    by (simp add: sum_list_triv)
  have "[0..<10] = [0..<length vs] @ [length vs..<10]" using assms upt_add_eq_append [of 0 "length vs" "10 - length vs"] by simp
  then show ?thesis using a b by simp
qed

lemma cf_storage_mass_eq:
  assumes "length (cf_input_values cf) \<le> 10" "length (cf_output_values cf) \<le> 10"
    "0 \<notin> set (cf_input_values cf)" "0 \<notin> set (cf_output_values cf)"
  obtains m where "cf_storage_mass cf = Some m" "unat m = inv_total (cf_output_values cf) - inv_total (cf_input_values cf)"
proof -
  obtain a where a: "inv_sum (cf_input_values cf) = Some a" "unat a = inv_total (cf_input_values cf)"
    using inv_sum_eq assms(1,3) by blast
  obtain b where b: "inv_sum (cf_output_values cf) = Some b" "unat b = inv_total (cf_output_values cf)"
    using inv_sum_eq assms(2,4) by blast
  show ?thesis using a b by (intro that [of "saturating_sub b a"]) (simp_all add: cf_storage_mass_def unat_saturating_sub)
qed

lemma premium_split_ok:
  assumes "unat floor_base < 2 ^ 52"
  shows "unat raw = unat (fst (premium_split floor_base raw)) + unat (snd (premium_split floor_base raw)) * (unat floor_base + 1)"
    "unat (fst (premium_split floor_base raw)) \<le> unat floor_base"
proof -
  have p: "unat (saturating_add floor_base 1) = unat floor_base + 1"
    using assms by (simp add: unat_saturating_add)
  then have "saturating_add floor_base 1 \<noteq> 0" by (metis add_is_0 one_neq_zero unsigned_0)
  then have "unat (fst (premium_split floor_base raw)) = unat raw mod (unat floor_base + 1)"
    "unat (snd (premium_split floor_base raw)) = unat raw div (unat floor_base + 1)"
    using p by (simp_all add: premium_split_def Let_def unat_mod unat_div)
  then show "unat raw = unat (fst (premium_split floor_base raw)) + unat (snd (premium_split floor_base raw)) * (unat floor_base + 1)"
    "unat (fst (premium_split floor_base raw)) \<le> unat floor_base"
    using mod_less_divisor [of "unat floor_base + 1" "unat raw"] by (simp_all only: mod_div_mult_eq less_Suc_eq_le Suc_eq_plus1 [symmetric])
qed

lemma sum_upt_cong: "(\<And>i. i < n \<Longrightarrow> f i = g i) \<Longrightarrow> (\<Sum>i\<leftarrow>[0..<n]. f i) = (\<Sum>i\<leftarrow>[0..<n]. g i)"
  by (intro arg_cong [where f = sum_list] map_cong) auto

lemma transfer_cf_sums:
  fixes perm pi cf m cols
  defines "R \<equiv> cols @ transfer_cf_row perm pi cf m"
  assumes "length cols = 112" "length (cf_input_values cf) \<le> 10" "length (cf_output_values cf) \<le> 10"
  shows "(\<Sum>i\<leftarrow>[0..<10]. R ! (122 + i)) = int (inv_total (cf_input_values cf) + (10 - length (cf_input_values cf)) * 4294967296)"
    "(\<Sum>i\<leftarrow>[0..<10]. R ! (142 + i)) = int (inv_total (cf_output_values cf) + (10 - length (cf_output_values cf)) * 4294967296)"
proof -
  have "R ! (122 + i) = uint (snd (cf_slot (cf_input_values cf) i))" "R ! (142 + i) = uint (snd (cf_slot (cf_output_values cf) i))"
    if "i < 10" for i
    using transfer_cf_row_nth(3,5) [OF that, of perm pi cf m] assms(2) by (simp_all add: R_def nth_append gl_new_def)
  then have "(\<Sum>i\<leftarrow>[0..<10]. R ! (122 + i)) = (\<Sum>i\<leftarrow>[0..<10]. uint (snd (cf_slot (cf_input_values cf) i)))"
    "(\<Sum>i\<leftarrow>[0..<10]. R ! (142 + i)) = (\<Sum>i\<leftarrow>[0..<10]. uint (snd (cf_slot (cf_output_values cf) i)))"
    by (auto intro!: sum_upt_cong)
  then show "(\<Sum>i\<leftarrow>[0..<10]. R ! (122 + i)) = int (inv_total (cf_input_values cf) + (10 - length (cf_input_values cf)) * 4294967296)"
    "(\<Sum>i\<leftarrow>[0..<10]. R ! (142 + i)) = int (inv_total (cf_output_values cf) + (10 - length (cf_output_values cf)) * 4294967296)"
    using padded_sum assms(3,4) by simp_all
qed

lemma transfer_cf_slots_ok:
  assumes "length cols = 112" "list_all cf_value_ok (cf_input_values cf)" "list_all cf_value_ok (cf_output_values cf)" "i < 10"
  shows "vanishes (transfer_cf_slot (cols @ transfer_cf_row perm pi cf m) i)"
proof -
  let ?R = "cols @ transfer_cf_row perm pi cf m"
  note nth = transfer_cf_row_nth [where perm = perm and pi = pi and cf = cf and m = m]
  have R: "?R ! j = transfer_cf_row perm pi cf m ! (j - 112)" if "112 \<le> j" for j
    using that assms(1) by (simp add: nth_append)
  have "vanishes (eval_bits ?R (155 + i * 32) 32 (gl_new RECIP_SCALE - ?R ! (112 + i) * ?R ! (122 + i)))"
    using nth(9) [OF assms(4)] nth(2,3) [OF assms(4)] cf_slot_ok(2,3) [OF assms(2), of i]
    by (intro bits_complete [where k = "cf_rem (cf_slot (cf_input_values cf) i)"]) (simp_all add: R gl_new_def RECIP_SCALE_def add.assoc)
  moreover have "vanishes (eval_bits ?R (475 + i * 32) 32 (gl_new RECIP_SCALE - ?R ! (132 + i) * ?R ! (142 + i)))"
    using nth(10) [OF assms(4)] nth(4,5) [OF assms(4)] cf_slot_ok(2,3) [OF assms(3), of i]
    by (intro bits_complete [where k = "cf_rem (cf_slot (cf_output_values cf) i)"]) (simp_all add: R gl_new_def RECIP_SCALE_def add.assoc)
  ultimately show ?thesis by (simp add: transfer_cf_slot_def cf_cols)
qed

lemma transfer_cf_fees:
  fixes m :: u64 and n k :: nat
  assumes "unat m \<le> 42949672960" "n \<le> 10" "k \<le> 10"
  shows "uint (saturating_mul m 1000) = uint m * 1000"
    "uint (saturating_mul (of_nat n + of_nat k) 1000 :: u64) = (int n + int k) * 1000"
    "uint (saturating_add (saturating_mul m 1000) (saturating_mul (of_nat n + of_nat k) 1000)) = uint m * 1000 + (int n + int k) * 1000"
    "unat (saturating_add (saturating_mul m 1000) (saturating_mul (of_nat n + of_nat k) 1000)) < 2 ^ 52"
proof -
  have nk: "unat (of_nat n + of_nat k :: u64) = n + k"
    unfolding of_nat_add [symmetric] using assms by (intro unat_of_nat_small) simp
  have a: "unat (saturating_mul m 1000) = unat m * 1000" using assms by (simp add: unat_saturating_mul)
  have b: "unat (saturating_mul (of_nat n + of_nat k) 1000 :: u64) = (n + k) * 1000"
    using assms by (simp add: unat_saturating_mul nk)
  have c: "unat (saturating_add (saturating_mul m 1000) (saturating_mul (of_nat n + of_nat k) 1000)) = unat m * 1000 + (n + k) * 1000"
    using assms by (simp add: unat_saturating_add a b)
  show "uint (saturating_mul m 1000) = uint m * 1000"
    "uint (saturating_mul (of_nat n + of_nat k) 1000 :: u64) = (int n + int k) * 1000"
    "uint (saturating_add (saturating_mul m 1000) (saturating_mul (of_nat n + of_nat k) 1000)) = uint m * 1000 + (int n + int k) * 1000"
    unfolding uint_nat a b c by simp_all
  show "unat (saturating_add (saturating_mul m 1000) (saturating_mul (of_nat n + of_nat k) 1000)) < 2 ^ 52"
    unfolding c using assms by simp
qed

lemma transfer_cf_row_ok:
  fixes perm pi cf m cols
  defines "ins \<equiv> cf_input_values cf" and "outs \<equiv> cf_output_values cf"
  assumes cols: "length cols = 112" and vals: "list_all cf_value_ok ins" "list_all cf_value_ok outs"
    and len: "length ins = length outs" "length outs \<le> 10" and mass: "inv_total ins \<le> inv_total outs"
    and m: "unat m = inv_total outs - inv_total ins"
  shows "vanishes (transfer_cf (cols @ transfer_cf_row perm pi cf m))"
proof -
  let ?R = "cols @ transfer_cf_row perm pi cf m"
  define fb where "fb = saturating_add (saturating_mul m 1000) (saturating_mul (of_nat (length ins) + of_nat (length outs)) 1000)"
  define raw where "raw = poseidon2_permute_t8 perm [DOMAIN_FEE_PREMIUM_FE, tp_commitment_hash pi ! 0 XOR tp_nullifier_hash pi ! 0, fb, 0, 0, 0, 0, 0] ! 0"
  note nth = transfer_cf_row_nth [where perm = perm and pi = pi and cf = cf and m = m, folded ins_def outs_def, folded fb_def, folded raw_def]
  have R: "?R ! j = transfer_cf_row perm pi cf m ! (j - 112)" if "112 \<le> j" for j
    using that cols by (simp add: nth_append)
  have m_le: "unat m \<le> 42949672960" using m inv_total_le [of outs] len by simp
  note fees = transfer_cf_fees [OF m_le, of "length ins" "length outs", folded fb_def]
  note pr = premium_split_ok [OF fees(4), of raw]
  have n: "uint (of_nat (length ins) :: u64) = int (length ins)" "uint (of_nat (length outs) :: u64) = int (length outs)"
    unfolding uint_nat using len by (subst unat_of_nat_small; simp)+
  have sums: "uint m = (\<Sum>i\<leftarrow>[0..<10]. ?R ! (142 + i)) - (\<Sum>i\<leftarrow>[0..<10]. ?R ! (122 + i))"
  proof -
    have "uint m = int (inv_total outs) - int (inv_total ins)" unfolding uint_nat m using mass by (rule of_nat_diff)
    moreover note transfer_cf_sums [OF cols, of cf perm pi m, folded ins_def outs_def]
    ultimately show ?thesis using len by simp
  qed
  have premium: "vanishes (eval_bits ?R 805 52 (gl_new (fst (premium_split fb raw))))"
  proof (rule bits_complete)
    show "uint (fst (premium_split fb raw)) < 2 ^ 52" 
      unfolding uint_nat of_nat_less_numeral_power_cancel_iff using pr(2) fees(4) len by linarith
  qed (simp_all add: R nth gl_new_def)
  have raw: "uint raw = uint (fst (premium_split fb raw)) + uint (snd (premium_split fb raw)) * (uint fb + 1)"
    using arg_cong [OF pr(1), of int] len unfolding uint_nat of_nat_add of_nat_mult by simp
  show ?thesis
    unfolding transfer_cf_def Let_def
    using transfer_cf_slots_ok [OF cols vals [unfolded ins_def outs_def]] sums premium raw fees n len
    by (simp add: cf_cols asserts R nth gl_new_def BASE_PRICE_PER_MASS_def PRICE_PER_CU_def)
qed

lemma transfer_eval_iff:
  "vanishes (transfer_eval row pv) \<longleftrightarrow> transfer_core_ok row pv \<and> vanishes (transfer_cf row)
     \<and> (\<forall>k<8. row ! (11 + k) mod GLP = pv ! (33 + k) mod GLP)"
proof -
  have "vanishes (transfer_hash_binding row pv) \<longleftrightarrow>
      (\<forall>k<4. row ! (11 + k) mod GLP = pv ! (33 + k) mod GLP) \<and> (\<forall>k<4. row ! (11 + (4 + k)) mod GLP = pv ! (33 + (4 + k)) mod GLP)"
    by (simp add: transfer_hash_binding_def asserts COL_COMMITMENT_HASH_0_def COL_NULLIFIER_HASH_0_def Ball_def)
  also have "\<dots> \<longleftrightarrow> (\<forall>k<8. row ! (11 + k) mod GLP = pv ! (33 + k) mod GLP)"
  proof (intro iffI allI impI conjI)
    fix k :: nat
    assume h: "(\<forall>k<4. row ! (11 + k) mod GLP = pv ! (33 + k) mod GLP) \<and> (\<forall>k<4. row ! (11 + (4 + k)) mod GLP = pv ! (33 + (4 + k)) mod GLP)" and "k < 8"
    then have "k < 4 \<or> (\<exists>j<4. k = 4 + j)" by presburger
    then show "row ! (11 + k) mod GLP = pv ! (33 + k) mod GLP" using h by blast
  next
    fix k :: nat
    assume "\<forall>k<8. row ! (11 + k) mod GLP = pv ! (33 + k) mod GLP" "k < 4"
    moreover have "4 + k < 8" using \<open>k < 4\<close> by simp
    ultimately show "row ! (11 + (4 + k)) mod GLP = pv ! (33 + (4 + k)) mod GLP" by blast
  qed simp
  finally show ?thesis by (simp add: transfer_eval_def transfer_core_ok_def conj_ac)
qed

lemma cf_default_ok: "length cols = 112 \<Longrightarrow> vanishes (transfer_cf (cols @ transfer_cf_row perm pi cf_default 0))"
  by (rule transfer_cf_row_ok) (simp_all add: cf_default_def inv_total_def)

interpretation p3: transfer_air transfer_eval TRANSFER_TRACE_WIDTH
proof
  fix cols pv :: "gl list"
  assume len: "length cols = 112" and ok: "transfer_core_ok cols pv"
    and h: "\<And>k. k < 8 \<Longrightarrow> cols ! (11 + k) mod GLP = pv ! (33 + k) mod GLP"
  let ?rest = "transfer_cf_row id undefined cf_default 0"
  have "(cols @ ?rest) ! (11 + k) = cols ! (11 + k)" if "k < 8" for k using len that by (simp add: nth_append)
  then have "vanishes (transfer_eval (cols @ ?rest) pv)"
    using ok h cf_default_ok [OF len, of id undefined] by (simp add: transfer_eval_iff transfer_core_append [OF len])
  moreover have "length (cols @ ?rest) = TRANSFER_TRACE_WIDTH"
    using len transfer_cf_row_nth(1) [of id undefined cf_default 0] by (simp add: TRANSFER_TRACE_WIDTH_def)
  ultimately show "\<exists>rest. length (cols @ rest) = TRANSFER_TRACE_WIDTH \<and> vanishes (transfer_eval (cols @ rest) pv)" by blast
qed (simp add: transfer_eval_iff)

section \<open>Public values\<close>

lemma chunks_exact:
  assumes "length xs = n * k" "0 < n"
  shows "length (chunks n xs) = k" "concat (chunks n xs) = xs" "\<And>c. c \<in> set (chunks n xs) \<Longrightarrow> length c = n"
proof -
  have "length (chunks n xs) = k \<and> concat (chunks n xs) = xs \<and> (\<forall>c\<in>set (chunks n xs). length c = n)"
    using assms(1)
  proof (induction k arbitrary: xs)
    case (Suc k)
    have "chunks n xs = take n xs # chunks n (drop n xs)" using Suc.prems assms(2) by (subst chunks.simps) auto
    moreover have "length (drop n xs) = n * k" using Suc.prems by simp
    ultimately show ?case using Suc.IH [of "drop n xs"] Suc.prems by simp
  qed simp
  then show "length (chunks n xs) = k" "concat (chunks n xs) = xs" "\<And>c. c \<in> set (chunks n xs) \<Longrightarrow> length c = n" by blast+
qed

lemma length_push_bytes32 [simp]: "length bs = 32 \<Longrightarrow> length (push_bytes32 bs) = 8"
  using chunks_exact(1) [of bs 4 8] by (simp add: push_bytes32_def)

lemma length_to_goldilocks [simp]: "tpi_wf pi \<Longrightarrow> length (to_goldilocks pi) = 41"
  by (simp add: to_goldilocks_def tpi_wf_def)

lemma read_push_bytes32:
  assumes "length bs = 32"
  shows "read_bytes32 (push_bytes32 bs) = bs"
proof -
  have "le_bytes 4 (ucast (field_reduce (ucast (from_le_bytes c :: u32))) :: u32) = c" if "c \<in> set (chunks 4 bs)" for c
  proof -
    have "length c = 4" using chunks_exact(3) [of bs 4 8 c] assms that by simp
    moreover have "field_reduce (ucast (w :: u32) :: u64) = ucast w" for w
    proof -
      have "unat (ucast w :: u64) < unat GOLDILOCKS_PRIME" using unsigned_less [of w, where 'a = nat] by simp
      then show ?thesis by (simp only: field_reduce_def word_le_nat_alt not_le [symmetric] if_False simp_thms)
    qed
    moreover have "ucast (ucast w :: u64) = (w :: u32)" for w by (rule bit_word_eqI) (simp add: bit_simps)
    ultimately show ?thesis by (simp add: le_bytes_from_le_bytes)
  qed
  then have "map (\<lambda>fe. le_bytes 4 (ucast (as_canonical_u64 fe) :: u32)) (push_bytes32 bs) = chunks 4 bs"
    by (simp add: push_bytes32_def comp_def map_idI)
  then show ?thesis using assms chunks_exact(2) [of bs 4 8] by (simp add: read_bytes32_def)
qed

lemma to_goldilocks_nth:
  assumes "tpi_wf pi"
  shows "to_goldilocks pi ! 0 = gl_new (tp_fee_total_sscl pi)" "to_goldilocks pi ! 1 = gl_new (tp_sum_inputs_sscl pi)"
    "to_goldilocks pi ! 2 = gl_new (tp_sum_outputs_sscl pi)" "to_goldilocks pi ! 3 = gl_new (tp_crypto_version pi)"
    "to_goldilocks pi ! 4 = gl_new (tp_current_subepoch_id pi)"
    "to_goldilocks pi ! 13 = gl_new (of_bool (tp_cb_membership_verified pi))"
    "to_goldilocks pi ! 30 = gl_new (of_bool (tp_cc_nonmembership_verified pi))"
    "to_goldilocks pi ! 31 = gl_new (of_bool (tp_output_nonzero pi))"
    "to_goldilocks pi ! 32 = gl_new (of_bool (tp_single_utxo_source pi))"
    "k < 4 \<Longrightarrow> to_goldilocks pi ! (33 + k) = gl_new (tp_commitment_hash pi ! k)"
    "k < 4 \<Longrightarrow> to_goldilocks pi ! (37 + k) = gl_new (tp_nullifier_hash pi ! k)"
    "take 8 (drop 5 (to_goldilocks pi)) = push_bytes32 (tp_utxo_set_root pi)"
    "take 8 (drop 14 (to_goldilocks pi)) = push_bytes32 (tp_nullifier_active_root pi)"
    "take 8 (drop 22 (to_goldilocks pi)) = push_bytes32 (tp_nullifier_archived_root pi)"
  using assms by (simp_all add: to_goldilocks_def tpi_wf_def nth_append)

text \<open>The statement of the circuit over the public inputs of the caller, whose values it knows only modulo the
  prime.\<close>

definition pi_statement :: "transfer_public_inputs \<Rightarrow> bool" where
  "pi_statement pi \<longleftrightarrow>
     (let fee = unat (field_reduce (tp_fee_total_sscl pi)); sum_in = unat (field_reduce (tp_sum_inputs_sscl pi));
          sum_out = unat (field_reduce (tp_sum_outputs_sscl pi))
      in 40 \<le> fee \<and> fee < 40 + 2 ^ 52 \<and> sum_in = (sum_out + fee) mod prime_p
         \<and> field_reduce (tp_crypto_version pi) = 1 \<and> unat (field_reduce (tp_current_subepoch_id pi)) \<le> 2 ^ 40)"

lemma int_bounds: "40 \<le> int n \<longleftrightarrow> 40 \<le> n" "int n < 40 + 2 ^ 52 \<longleftrightarrow> n < 40 + 2 ^ 52" "int n \<le> 2 ^ 40 \<longleftrightarrow> n \<le> 2 ^ 40"
  "int n < 2 ^ 40 \<longleftrightarrow> n < 2 ^ 40"
  by auto

lemma transfer_statement_pi:
  assumes "tpi_wf pi"
  shows "transfer_statement (to_goldilocks pi) = pi_statement pi"
proof -
  note r = to_goldilocks_nth [OF assms]
  have sum: "(gl_new a + gl_new b) mod GLP = int ((unat (field_reduce a) + unat (field_reduce b)) mod prime_p)" for a b
  proof -
    have "(gl_new a + gl_new b) mod GLP = (gl_new a mod GLP + gl_new b mod GLP) mod GLP" by (simp only: mod_add_eq)
    then show ?thesis unfolding gl_new_mod uint_nat by (simp only: of_nat_add [symmetric] zmod_int of_nat_numeral)
  qed
  have one: "int (unat w) = 1 \<longleftrightarrow> w = 1" for w :: u64
    unfolding word_unat_eq_iff unat_1 of_nat_eq_1_iff ..
  show ?thesis
    unfolding transfer_statement_def pi_statement_def Let_def r(1-5) sum
    unfolding gl_new_mod uint_nat int_bounds one of_nat_eq_iff ..
qed

lemma transfer_language_pi:
  assumes "tpi_wf pi"
  shows "(\<exists>trace. air_accepts transfer_eval TRANSFER_TRACE_WIDTH trace (to_goldilocks pi)) \<longleftrightarrow> pi_statement pi"
    "(\<exists>trace. air_accepts transfer_eval_v2 TRANSFER_TRACE_WIDTH_V2 trace (to_goldilocks pi)) \<longleftrightarrow> pi_statement pi"
  using p3.language v2.language transfer_statement_pi [OF assms] assms by simp_all

section \<open>Properties\<close>

definition sample_pi :: "u64 \<Rightarrow> u64 \<Rightarrow> bool \<Rightarrow> transfer_public_inputs" where
  "sample_pi sum_in sum_out flag = \<lparr>tp_fee_total_sscl = 40, tp_sum_inputs_sscl = sum_in, tp_sum_outputs_sscl = sum_out,
     tp_crypto_version = 1, tp_current_subepoch_id = 1000, tp_target_subepoch_id = 1000,
     tp_utxo_set_root = replicate 32 66, tp_cb_membership_verified = flag,
     tp_nullifier_active_root = replicate 32 170, tp_nullifier_archived_root = replicate 32 187,
     tp_cc_nonmembership_verified = flag, tp_output_nonzero = flag, tp_single_utxo_source = flag,
     tp_commitment_hash = replicate 4 0, tp_nullifier_hash = replicate 4 0\<rparr>"

lemma sample_pi_wf [simp]: "tpi_wf (sample_pi a b f)"
  by (simp add: sample_pi_def tpi_wf_def)

lemma field_reduce_small [simp]: "unat v < prime_p \<Longrightarrow> field_reduce v = v"
  by (simp add: field_reduce_def word_le_nat_alt)

text \<open>C10. The transfer circuit accepts exactly the following public inputs, all taken modulo the Goldilocks
  prime: the fee lies between the floor of 40 and 52 bits above it, the sum of the inputs is the sum of the
  outputs plus the fee, the version is 1 and the current sub-epoch is at most \<open>2 ^ 40\<close>.  Nothing else is constrained:
  not the four flags, not the roots, and the storage-mass and premium columns never matter.\<close>

theorem transfer_circuit_language:
  assumes "tpi_wf pi"
  shows "(\<exists>trace. air_accepts transfer_eval TRANSFER_TRACE_WIDTH trace (to_goldilocks pi)) \<longleftrightarrow>
    40 \<le> unat (field_reduce (tp_fee_total_sscl pi)) \<and> unat (field_reduce (tp_fee_total_sscl pi)) < 40 + 2 ^ 52
    \<and> unat (field_reduce (tp_sum_inputs_sscl pi))
        = (unat (field_reduce (tp_sum_outputs_sscl pi)) + unat (field_reduce (tp_fee_total_sscl pi))) mod prime_p
    \<and> field_reduce (tp_crypto_version pi) = 1 \<and> unat (field_reduce (tp_current_subepoch_id pi)) \<le> 2 ^ 40"
  using transfer_language_pi(1) [OF assms] by (simp only: pi_statement_def Let_def)

theorem transfer_circuit_language_witness:
  "\<exists>trace. air_accepts transfer_eval TRANSFER_TRACE_WIDTH trace (to_goldilocks (sample_pi 1000000040 1000000000 True))"
  by (subst transfer_circuit_language) (simp_all add: sample_pi_def tpi_wf_def)

text \<open>The circuit does not conserve value: because the sums are compared modulo the prime and are not range
  checked, inputs below the fee balance outputs near the prime.  Such public inputs have an accepted
  trace, whatever the membership, non-membership, output and source flags say.\<close>

theorem transfer_creates_value:
  assumes "tpi_wf pi" "tp_fee_total_sscl pi = 40" "tp_crypto_version pi = 1" "unat (tp_current_subepoch_id pi) \<le> 2 ^ 40"
    and "unat (tp_sum_inputs_sscl pi) < 40" "unat (tp_sum_outputs_sscl pi) = unat (tp_sum_inputs_sscl pi) + (prime_p - 40)"
  shows "(\<exists>trace. air_accepts transfer_eval TRANSFER_TRACE_WIDTH trace (to_goldilocks pi))
    \<and> check_cd_conservation pi = False"
proof
  have "pi_statement pi" using assms(2-6) by (simp add: pi_statement_def)
  then show "\<exists>trace. air_accepts transfer_eval TRANSFER_TRACE_WIDTH trace (to_goldilocks pi)"
    using transfer_language_pi(1) [OF assms(1)] by blast
  have "unat (saturating_add (tp_sum_outputs_sscl pi) 40) = unat (tp_sum_inputs_sscl pi) + prime_p"
    using assms(5,6) by (simp add: unat_saturating_add)
  then show "check_cd_conservation pi = False" using assms(2) by (auto simp: check_cd_conservation_def)
qed

theorem transfer_creates_value_witness:
  "(\<exists>trace. air_accepts transfer_eval TRANSFER_TRACE_WIDTH trace (to_goldilocks (sample_pi 0 18446744069414584281 False)))
    \<and> check_cd_conservation (sample_pi 0 18446744069414584281 False) = False"
  by (rule transfer_creates_value) (simp_all add: sample_pi_def tpi_wf_def)

text \<open>What the checks before proving establish, over the integers.\<close>

lemma check_all_constraints_facts:
  assumes "check_all_constraints pi = Inr ()" "unat (tp_sum_outputs_sscl pi) + unat (tp_fee_total_sscl pi) < 2 ^ 64"
  obtains v where "cg_validity (tp_current_subepoch_id pi) (tp_target_subepoch_id pi) = Some v"
    "uint (tp_current_subepoch_id pi) = uint (tp_target_subepoch_id pi) + uint v" "uint v \<le> 1"
    "uint (tp_sum_inputs_sscl pi) = uint (tp_sum_outputs_sscl pi) + uint (tp_fee_total_sscl pi)"
    "40 \<le> unat (tp_fee_total_sscl pi)" "tp_crypto_version pi = 1"
    "tp_cb_membership_verified pi" "tp_cc_nonmembership_verified pi" "tp_output_nonzero pi" "tp_single_utxo_source pi"
proof -
  have chk: "check_cd_conservation pi" "check_cd_fee_floor pi" "check_cg_version pi" "check_cg_validity pi"
    "tp_cb_membership_verified pi" "tp_cc_nonmembership_verified pi" "tp_output_nonzero pi" "tp_single_utxo_source pi"
    using assms(1) by (auto simp: check_all_constraints_def split: if_splits)
  obtain v where v: "cg_validity (tp_current_subepoch_id pi) (tp_target_subepoch_id pi) = Some v"
    using chk(4) by (auto simp: check_cg_validity_def)
  then have "tp_target_subepoch_id pi \<le> tp_current_subepoch_id pi" "v = tp_current_subepoch_id pi - tp_target_subepoch_id pi" "v \<le> 1"
    by (auto simp: cg_validity_def Let_def CG_MAX_VALIDITY_def not_less split: if_splits)
  then have sub: "uint (tp_current_subepoch_id pi) = uint (tp_target_subepoch_id pi) + uint v" "uint v \<le> 1"
    by (auto simp: uint_sub_if' word_le_def)
  have "unat (tp_sum_inputs_sscl pi) = unat (tp_sum_outputs_sscl pi) + unat (tp_fee_total_sscl pi)"
    using chk(1) assms(2) by (simp add: check_cd_conservation_def unat_saturating_add)
  then have sums: "uint (tp_sum_inputs_sscl pi) = uint (tp_sum_outputs_sscl pi) + uint (tp_fee_total_sscl pi)"
    unfolding uint_nat of_nat_add [symmetric] of_nat_eq_iff .
  have "40 \<le> unat (tp_fee_total_sscl pi)" "tp_crypto_version pi = 1"
    using chk(2,3) by (simp_all add: check_cd_fee_floor_def TRANSFER_FEE_FLOOR_def word_le_nat_alt check_cg_version_def VALID_CRYPTO_VERSION_def)
  then show ?thesis using that [OF v sub sums] chk(5-8) by blast
qed

lemma transfer_row_hash:
  assumes wf: "tpi_wf pi" and k: "k < 8"
  shows "(transfer_core_row pi v @ rest) ! (11 + k) = to_goldilocks pi ! (33 + k)"
proof (cases "k < 4")
  case False
  then obtain j where j: "j < 4" "k = 4 + j" using k by (metis add_less_cancel_left le_add_diff_inverse not_less numeral_Bit0)
  then show ?thesis
    using transfer_core_row_blocks(2) [OF wf j(1), of v] to_goldilocks_nth(11) [OF wf j(1)] wf by (simp add: nth_append)
qed (use transfer_core_row_blocks(1) [OF wf, of k v] to_goldilocks_nth(10) [OF wf] wf in \<open>simp add: nth_append\<close>)

lemma transfer_trace_ok:
  assumes wf: "tpi_wf pi" and pre: "check_all_constraints pi = Inr ()"
    and ranges: "unat (tp_fee_total_sscl pi) < 40 + 2 ^ 52" "unat (tp_target_subepoch_id pi) < 2 ^ 40"
      "unat (tp_sum_outputs_sscl pi) + unat (tp_fee_total_sscl pi) < 2 ^ 64"
    and vals: "list_all cf_value_ok (cf_input_values cf)" "list_all cf_value_ok (cf_output_values cf)"
    and len: "length (cf_input_values cf) = length (cf_output_values cf)" "length (cf_output_values cf) \<le> 10"
    and mass: "inv_total (cf_input_values cf) \<le> inv_total (cf_output_values cf)" and rows: "is_power_of_two n"
  shows "\<exists>trace. build_transfer_trace perm pi cf n = Some trace \<and> length trace = n
    \<and> air_accepts transfer_eval TRANSFER_TRACE_WIDTH trace (to_goldilocks pi)"
proof -
  have pos: "0 \<notin> set (cf_input_values cf)" "0 \<notin> set (cf_output_values cf)"
    using vals by (auto simp: list_all_iff cf_value_ok_def)
  obtain m where m: "cf_storage_mass cf = Some m" "unat m = inv_total (cf_output_values cf) - inv_total (cf_input_values cf)"
    using cf_storage_mass_eq len pos by metis
  obtain v where v: "cg_validity (tp_current_subepoch_id pi) (tp_target_subepoch_id pi) = Some v"
    and sub: "uint (tp_current_subepoch_id pi) = uint (tp_target_subepoch_id pi) + uint v" "uint v \<le> 1"
    and sums: "uint (tp_sum_inputs_sscl pi) = uint (tp_sum_outputs_sscl pi) + uint (tp_fee_total_sscl pi)"
    and fee: "40 \<le> unat (tp_fee_total_sscl pi)" and version: "tp_crypto_version pi = 1"
    and flags: "tp_cb_membership_verified pi" "tp_cc_nonmembership_verified pi" "tp_output_nonzero pi" "tp_single_utxo_source pi"
    using check_all_constraints_facts [OF pre ranges(3)] by blast
  let ?cols = "transfer_core_row pi v" and ?row = "transfer_core_row pi v @ transfer_cf_row perm pi cf m"
  have nums: "40 \<le> uint (tp_fee_total_sscl pi)" "uint (tp_fee_total_sscl pi) < 40 + 2 ^ 52" "uint (tp_target_subepoch_id pi) < 2 ^ 40"
    unfolding uint_nat int_bounds by (rule fee, rule ranges(1), rule ranges(2))
  have core: "transfer_core_ok ?cols (to_goldilocks pi)"
    by (rule transfer_core_row_ok [OF wf nums(1,2) _ version sub nums(3) flags])
      (simp_all add: sums to_goldilocks_nth [OF wf, unfolded One_nat_def] gl_new_def version)
  note hash = transfer_row_hash [OF wf, of _ v "transfer_cf_row perm pi cf m"]
  have "vanishes (transfer_eval ?row (to_goldilocks pi))"
    using core hash transfer_cf_row_ok [OF length_transfer_core_row [OF wf] vals len mass m(2)] wf
    by (simp add: transfer_eval_iff transfer_core_append)
  moreover have "length ?row = TRANSFER_TRACE_WIDTH"
    using wf transfer_cf_row_nth(1) [of perm pi cf m] by (simp add: TRANSFER_TRACE_WIDTH_def)
  moreover have "n \<noteq> 0" using rows by (auto simp: is_power_of_two_def list_ex_iff)
  ultimately show ?thesis
    using rows v m(1) by (simp add: build_transfer_trace_def air_accepts_def list_all_iff)
qed

text \<open>The honest prover succeeds: for public inputs that pass the checks before proving, with the fee and
  the target sub-epoch in the range of their bit columns, and as many output as input values, each between 1 and the
  scale and not heavier in total than the inputs allow, the trace builder returns a trace of the requested
  height that satisfies every constraint.\<close>

theorem transfer_trace_complete:
  assumes wf: "tpi_wf pi" and pre: "check_all_constraints pi = Inr ()"
    and ranges: "unat (tp_fee_total_sscl pi) < 40 + 2 ^ 52" "unat (tp_target_subepoch_id pi) < 2 ^ 40"
      "unat (tp_sum_outputs_sscl pi) + unat (tp_fee_total_sscl pi) < 2 ^ 64"
    and vals: "list_all cf_value_ok (cf_input_values cf)" "list_all cf_value_ok (cf_output_values cf)"
    and len: "length (cf_input_values cf) = length (cf_output_values cf)" "length (cf_output_values cf) \<le> 10"
    and mass: "inv_total (cf_input_values cf) \<le> inv_total (cf_output_values cf)" and rows: "is_power_of_two n"
  shows "\<exists>trace. build_transfer_trace perm pi cf n = Some trace \<and> length trace = n
    \<and> air_accepts transfer_eval TRANSFER_TRACE_WIDTH trace (to_goldilocks pi)"
  by (rule transfer_trace_ok [OF assms])

theorem transfer_trace_complete_witness:
  "\<exists>trace. build_transfer_trace id (sample_pi 1000000040 1000000000 True)
       \<lparr>cf_input_values = [1000], cf_output_values = [500]\<rparr> 8 = Some trace \<and> length trace = 8
    \<and> air_accepts transfer_eval TRANSFER_TRACE_WIDTH trace (to_goldilocks (sample_pi 1000000040 1000000000 True))"
proof (rule transfer_trace_complete)
  show "check_all_constraints (sample_pi 1000000040 1000000000 True) = Inr ()"
    by (simp add: check_all_constraints_def check_cd_conservation_def check_cd_fee_floor_def check_cg_version_def
        check_cg_validity_def sample_pi_def saturating_add_def TRANSFER_FEE_FLOOR_def VALID_CRYPTO_VERSION_def
        cg_validity_def CG_MAX_VALIDITY_def)
  have "(8 :: nat) = 2 ^ 3" "(3 :: nat) \<in> set [0..<64]" by simp_all
  then show "is_power_of_two 8" unfolding is_power_of_two_def list_ex_iff by blast
qed (simp_all add: sample_pi_def tpi_wf_def cf_value_ok_def inv_total_def)

text \<open>A payment with more outputs than inputs cannot be proved: the row the trace builder writes for such values
  violates the storage-mass constraint, because the constraint sums the reciprocals of all ten slots and
  the unused ones count with the full scale, while the mass column holds the difference over the used
  slots only.  (\<open>prove_transfer_p3\<close> hides this by passing no values at all.)\<close>

theorem transfer_change_unprovable:
  assumes wf: "tpi_wf pi" and len: "length (cf_input_values cf) < length (cf_output_values cf)" "length (cf_output_values cf) \<le> 10"
    and trace: "build_transfer_trace perm pi cf n = Some trace"
  shows "\<not> air_accepts transfer_eval TRANSFER_TRACE_WIDTH trace (to_goldilocks pi)"
proof
  assume acc: "air_accepts transfer_eval TRANSFER_TRACE_WIDTH trace (to_goldilocks pi)"
  define ins outs where "ins = cf_input_values cf" and "outs = cf_output_values cf"
  obtain v m where m: "cf_storage_mass cf = Some m" and t: "trace = replicate n (transfer_core_row pi v @ transfer_cf_row perm pi cf m)"
    using trace by (auto simp: build_transfer_trace_def split: if_splits option.splits)
  let ?R = "transfer_core_row pi v @ transfer_cf_row perm pi cf m"
  have "?R \<in> set trace" using acc t by (cases n) (auto simp: air_accepts_def)
  then have "vanishes (transfer_cf ?R)" using acc by (auto simp: air_accepts_def list_all_iff transfer_eval_iff)
  then have "?R ! 152 mod GLP = ((\<Sum>i\<leftarrow>[0..<10]. ?R ! (142 + i)) - (\<Sum>i\<leftarrow>[0..<10]. ?R ! (122 + i))) mod GLP"
    by (simp add: transfer_cf_def Let_def asserts cf_cols)
  moreover have "?R ! 152 = uint m"
    using transfer_cf_row_nth(6) [of perm pi cf m] wf by (simp add: nth_append gl_new_def)
  moreover have "unat m = inv_total outs - inv_total ins"
  proof -
    have "x \<noteq> 0" if "x \<in> set ins \<or> x \<in> set outs" for x
      using m that those_compute_inv by (auto simp: cf_storage_mass_def inv_sum_def ins_def outs_def split: option.splits)
    then obtain m' where "cf_storage_mass cf = Some m'" "unat m' = inv_total outs - inv_total ins"
      using cf_storage_mass_eq [of cf] len by (metis ins_def outs_def less_imp_le order_trans)
    then show ?thesis using m by simp
  qed
  then have "uint m = int (inv_total outs - inv_total ins)" unfolding uint_nat by (simp only:)
  moreover have "(\<Sum>i\<leftarrow>[0..<10]. ?R ! (142 + i)) - (\<Sum>i\<leftarrow>[0..<10]. ?R ! (122 + i))
      = int (inv_total outs) - int (inv_total ins) + (int (length ins) - int (length outs)) * 4294967296"
    using transfer_cf_sums [OF length_transfer_core_row [OF wf, of v], of cf perm pi m, folded ins_def outs_def] len
    by (simp add: ins_def [symmetric] outs_def [symmetric])
  ultimately have "GLP dvd int (inv_total outs - inv_total ins) - (int (inv_total outs) - int (inv_total ins)
      + (int (length ins) - int (length outs)) * 4294967296)"
    by (simp only: mod_eq_dvd_iff)
  moreover have "0 < int (inv_total outs - inv_total ins) - (int (inv_total outs) - int (inv_total ins)
      + (int (length ins) - int (length outs)) * 4294967296)"
    using len by (simp add: ins_def outs_def)
  moreover have "int (inv_total outs - inv_total ins) - (int (inv_total outs) - int (inv_total ins)
      + (int (length ins) - int (length outs)) * 4294967296) < GLP"
    using len inv_total_le [of ins] inv_total_le [of outs] by (simp add: ins_def outs_def)
  ultimately show False using zdvd_not_zless by blast
qed

lemma sample_trace_exists:
  "\<exists>trace. build_transfer_trace id (sample_pi 1000000040 1000000000 True)
     \<lparr>cf_input_values = [1000], cf_output_values = [500, 500]\<rparr> 8 = Some trace"
proof -
  have "(8 :: nat) = 2 ^ 3" "(3 :: nat) \<in> set [0..<64]" by simp_all
  then have "is_power_of_two 8" unfolding is_power_of_two_def list_ex_iff by blast
  then show ?thesis
    by (simp add: build_transfer_trace_def cg_validity_def sample_pi_def CG_MAX_VALIDITY_def cf_storage_mass_def inv_sum_def
        compute_inv_def)
qed

theorem transfer_change_unprovable_witness:
  "\<not> air_accepts transfer_eval TRANSFER_TRACE_WIDTH
     (the (build_transfer_trace id (sample_pi 1000000040 1000000000 True)
        \<lparr>cf_input_values = [1000], cf_output_values = [500, 500]\<rparr> 8))
     (to_goldilocks (sample_pi 1000000040 1000000000 True))"
  by (rule transfer_change_unprovable
      [of _ "\<lparr>cf_input_values = [1000], cf_output_values = [500, 500]\<rparr>" id 8])
    (use sample_trace_exists in auto)

text \<open>The two implementations of the transfer circuit accept the same public inputs; the entry point of the
  second verifier nevertheless rejects every proof, because it still expects the trace width before the
  storage-mass columns were added.\<close>

theorem transfer_implementations_agree:
  assumes "tpi_wf pi"
  shows "(\<exists>trace. air_accepts transfer_eval TRANSFER_TRACE_WIDTH trace (to_goldilocks pi))
      = (\<exists>trace. air_accepts transfer_eval_v2 TRANSFER_TRACE_WIDTH_V2 trace (to_goldilocks pi))
    \<and> verify_transfer_independent decode verify proof_bytes pi = Inl (TraceWidthMismatch 857 112)"
  using transfer_language_pi [OF assms]
  by (simp add: verify_transfer_independent_def TRANSFER_TRACE_WIDTH_def TRANSFER_TRACE_WIDTH_V2_def)

theorem transfer_implementations_agree_witness:
  "(\<exists>trace. air_accepts transfer_eval TRANSFER_TRACE_WIDTH trace (to_goldilocks (sample_pi 140 100 True)))
      = (\<exists>trace. air_accepts transfer_eval_v2 TRANSFER_TRACE_WIDTH_V2 trace (to_goldilocks (sample_pi 140 100 True)))
    \<and> verify_transfer_independent Some (\<lambda>_ _ _ _. True) [1] (sample_pi 140 100 True) = Inl (TraceWidthMismatch 857 112)"
  by (rule transfer_implementations_agree) simp

text \<open>Reading back the public values returns the public inputs with every 64-bit number reduced modulo the
  prime and the private target sub-epoch cleared; so public inputs that differ by the prime are the same statement.\<close>

theorem public_inputs_roundtrip:
  assumes "tpi_wf pi"
  shows "from_goldilocks (to_goldilocks pi) = Some (pi\<lparr>tp_fee_total_sscl := field_reduce (tp_fee_total_sscl pi),
      tp_sum_inputs_sscl := field_reduce (tp_sum_inputs_sscl pi), tp_sum_outputs_sscl := field_reduce (tp_sum_outputs_sscl pi),
      tp_crypto_version := field_reduce (tp_crypto_version pi), tp_current_subepoch_id := field_reduce (tp_current_subepoch_id pi),
      tp_target_subepoch_id := 0, tp_commitment_hash := map field_reduce (tp_commitment_hash pi),
      tp_nullifier_hash := map field_reduce (tp_nullifier_hash pi)\<rparr>)"
proof -
  note r = to_goldilocks_nth [OF assms]
  have four: "\<exists>a b c d. xs = [a, b, c, d]" if "length xs = 4" for xs :: "u64 list"
    using that by (auto simp: length_Suc_conv numeral_eq_Suc)
  obtain a b c d where c: "tp_commitment_hash pi = [a, b, c, d]" using four assms by (force simp: tpi_wf_def)
  obtain a' b' c' d' where n: "tp_nullifier_hash pi = [a', b', c', d']" using four assms by (force simp: tpi_wf_def)
  have h: "map as_canonical_u64 [to_goldilocks pi ! 33, to_goldilocks pi ! 34, to_goldilocks pi ! 35, to_goldilocks pi ! 36]
      = map field_reduce (tp_commitment_hash pi)"
    using r(10) [of 0] r(10) [of 1] r(10) [of 2] r(10) [of 3] c by simp
  have h': "map as_canonical_u64 [to_goldilocks pi ! 37, to_goldilocks pi ! 38, to_goldilocks pi ! 39, to_goldilocks pi ! 40]
      = map field_reduce (tp_nullifier_hash pi)"
    using r(11) [of 0] r(11) [of 1] r(11) [of 2] r(11) [of 3] n by simp
  have b: "field_reduce (of_bool P) \<noteq> 0 \<longleftrightarrow> P" for P by simp
  show ?thesis
    unfolding from_goldilocks_def h h' r(12-14) r(1-9) as_canonical_gl_new b
    using assms by (simp add: read_push_bytes32 tpi_wf_def TRANSFER_PI_LEN_def)
qed

lemma sample_reduced: "field_reduce 18446744069414584361 = (40 :: u64)"
  by (simp add: field_reduce_def GOLDILOCKS_PRIME_def)

theorem public_inputs_roundtrip_witness:
  "map_option tp_sum_inputs_sscl (from_goldilocks (to_goldilocks (sample_pi 18446744069414584361 0 True))) = Some 40"
  by (subst public_inputs_roundtrip) (simp_all add: sample_pi_def sample_reduced tpi_wf_def)

text \<open>Sub-epoch numbers split back into epoch and local index while the product does not wrap, and a transaction
  is admissible in its target sub-epoch and the next one.\<close>

theorem subepoch_id_roundtrip:
  assumes "unat e * 24 + unat l < 2 ^ 64" "unat l < 24"
  shows "epoch_of (subepoch_id e l) = e" "local_index_of (subepoch_id e l) = l"
    "cg_validity c t = Some v \<longleftrightarrow> (v = 0 \<and> c = t) \<or> (v = 1 \<and> unat c = unat t + 1)"
proof -
  have "unat (e * 24) = unat e * 24" using assms by (simp add: unat_mult_no_overflow)
  then have u: "unat (subepoch_id e l) = unat e * 24 + unat l"
    using assms by (simp add: subepoch_id_def SUBEPOCHS_PER_EPOCH_def unat_add_no_overflow)
  show "epoch_of (subepoch_id e l) = e" "local_index_of (subepoch_id e l) = l"
    using assms by (simp_all add: word_unat_eq_iff epoch_of_def local_index_of_def unat_div unat_mod u SUBEPOCHS_PER_EPOCH_def)
  show "cg_validity c t = Some v \<longleftrightarrow> (v = 0 \<and> c = t) \<or> (v = 1 \<and> unat c = unat t + 1)"
    by (auto simp: cg_validity_def Let_def CG_MAX_VALIDITY_def word_less_nat_alt word_unat_eq_iff unat_sub_if' split: if_splits)
qed

end
