(* ===== verification/Mint_Circuit.thy ===== *)
theory Mint_Circuit
  imports Circuit Merkle_IMT
begin

text \<open>
  The mint circuit (\<open>core/scalar-stark-p3/src/mint_air_p3.rs\<close>): the mint nullifier claim, the linear constraints, the
  checks before proving and the trace builder with its modular inverse, and the second implementation
  (\<open>scalar-stark-p3-verify/src/mint_air_v2.rs\<close>, \<open>verify.rs\<close>).  The width-8 Poseidon2 permutation is the parameter
  \<open>perm\<close>; decoding and verification of a STARK proof are the parameters \<open>decode\<close> and \<open>verify\<close>.
\<close>

section \<open>Nullifier claim\<close>

definition MINT_S_E_SSCL :: u64 where
  "MINT_S_E_SSCL = 18900000 * 100000000"

definition MINT_CRYPTO_VERSION :: u8 where
  "MINT_CRYPTO_VERSION = 1"

definition DOMAIN_POU_MINT_FE :: u64 where
  "DOMAIN_POU_MINT_FE = 0x706f755f6d696e74"

record mint_nullifier_witness =
  mw_node_id_lo :: u64
  mw_epoch_id :: u64

record mint_nullifier_claim =
  mc_inner_hash :: "u64 list"
  mc_mint_nullifier :: "u64 list"

definition mint_inner_input :: "mint_nullifier_witness \<Rightarrow> gl list" where
  "mint_inner_input w = map gl_new [mw_node_id_lo w, mw_epoch_id w, 0, 0, 0, 0, 0, 0]"

definition mint_outer_input :: "u64 list \<Rightarrow> gl list" where
  "mint_outer_input inner_hash =
     map gl_new [inner_hash ! 0, inner_hash ! 1, inner_hash ! 2, inner_hash ! 3, DOMAIN_POU_MINT_FE, 0, 0, 0]"

text \<open>The permutation works on elements; \<open>perm\<close> takes and returns their canonical representatives.\<close>

definition poseidon2_hash_mint :: "(u64 list \<Rightarrow> u64 list) \<Rightarrow> gl list \<Rightarrow> u64 list" where
  "poseidon2_hash_mint perm input = take 4 (map field_reduce (perm (map as_canonical_u64 input)))"

definition compute_mint_nullifier_claim :: "(u64 list \<Rightarrow> u64 list) \<Rightarrow> mint_nullifier_witness \<Rightarrow> mint_nullifier_claim" where
  "compute_mint_nullifier_claim perm w =
     (let inner_hash = poseidon2_hash_mint perm (mint_inner_input w)
      in \<lparr>mc_inner_hash = inner_hash, mc_mint_nullifier = poseidon2_hash_mint perm (mint_outer_input inner_hash)\<rparr>)"

definition build_mint_nullifier_public_values :: "mint_nullifier_claim \<Rightarrow> gl list" where
  "build_mint_nullifier_public_values claim = map gl_new (mc_inner_hash claim) @ map gl_new (mc_mint_nullifier claim)"

section \<open>The linear circuit\<close>

definition MINT_LINEAR_WIDTH :: nat where
  "MINT_LINEAR_WIDTH = 9"

definition MINT_LINEAR_PI_LEN :: nat where
  "MINT_LINEAR_PI_LEN = 10"

definition MINT_COL_VERSION :: nat where
  "MINT_COL_VERSION = 0"

definition MINT_COL_CAP_HEADROOM :: nat where
  "MINT_COL_CAP_HEADROOM = 1"

definition MINT_COL_REWARD :: nat where
  "MINT_COL_REWARD = 2"

definition MINT_COL_AUTH :: nat where
  "MINT_COL_AUTH = 3"

definition MINT_COL_NULL_NZ :: nat where
  "MINT_COL_NULL_NZ = 4"

definition MINT_COL_REWARD_INV :: nat where
  "MINT_COL_REWARD_INV = 5"

definition MINT_COL_NULL0 :: nat where
  "MINT_COL_NULL0 = 6"

definition MINT_COL_IS_DEP :: nat where
  "MINT_COL_IS_DEP = 7"

definition MINT_COL_IS_VEST :: nat where
  "MINT_COL_IS_VEST = 8"

definition mint_eval :: "gl list \<Rightarrow> gl list \<Rightarrow> gl list" where
  "mint_eval row pv =
     (if length row < MINT_LINEAR_WIDTH \<or> length pv < MINT_LINEAR_PI_LEN then []
      else
        let version = row ! MINT_COL_VERSION; cap_headroom = row ! MINT_COL_CAP_HEADROOM; reward = row ! MINT_COL_REWARD;
            auth = row ! MINT_COL_AUTH; null_nz = row ! MINT_COL_NULL_NZ; reward_inv = row ! MINT_COL_REWARD_INV;
            null0 = row ! MINT_COL_NULL0
        in assert_eq version (pv ! 0)
           @ assert_eq (cap_headroom + pv ! 1 + pv ! 2) (gl_new MINT_S_E_SSCL)
           @ assert_eq reward (pv ! 2)
           @ assert_eq (reward * reward_inv) 1
           @ assert_eq auth (pv ! 3)
           @ assert_eq null_nz 1
           @ assert_eq null0 (pv ! 4)
           @ assert_eq (null0 * null_nz) null0
           @ (if length row > MINT_COL_IS_VEST \<and> length pv > 9
              then let is_dep = row ! MINT_COL_IS_DEP; is_vest = row ! MINT_COL_IS_VEST
                   in assert_eq (is_dep * (1 - is_dep)) 0
                      @ assert_eq (is_vest * (1 - is_vest)) 0
                      @ assert_eq ((1 - is_dep) * pv ! 8) 0
                      @ assert_eq ((1 - is_vest) * pv ! 9) 0
              else []))"

record mint_linear_public_inputs =
  ml_crypto_version :: u8
  ml_total_minted_sscl :: u64
  ml_reward_amount_sscl :: u64
  ml_node_auth_valid :: bool
  ml_mint_nullifier :: "u64 list"
  ml_dep_amount_sscl :: u64
  ml_vest_lock_epochs :: u64

text \<open>The error carries the index of the violated group; the texts are left out.\<close>

definition mint_check_constraints :: "mint_linear_public_inputs \<Rightarrow> nat + unit" where
  "mint_check_constraints pi =
     (if ml_crypto_version pi \<noteq> MINT_CRYPTO_VERSION then Inl 0
      else case checked_add (ml_total_minted_sscl pi) (ml_reward_amount_sscl pi) of
          None \<Rightarrow> Inl 1
        | Some new_total \<Rightarrow>
            if new_total > MINT_S_E_SSCL then Inl 1
            else if ml_reward_amount_sscl pi = 0 then Inl 2
            else if \<not> ml_node_auth_valid pi then Inl 3
            else if ml_mint_nullifier pi ! 0 = 0 \<and> ml_mint_nullifier pi ! 1 = 0
                \<and> ml_mint_nullifier pi ! 2 = 0 \<and> ml_mint_nullifier pi ! 3 = 0 then Inl 4
            else Inr ())"

definition build_mint_linear_pv :: "mint_linear_public_inputs \<Rightarrow> gl list" where
  "build_mint_linear_pv pi =
     [gl_new (ucast (ml_crypto_version pi)), gl_new (ml_total_minted_sscl pi), gl_new (ml_reward_amount_sscl pi),
      gl_new (of_bool (ml_node_auth_valid pi))]
     @ map gl_new (ml_mint_nullifier pi) @ [gl_new (ml_dep_amount_sscl pi), gl_new (ml_vest_lock_epochs pi)]"

text \<open>The square-and-multiply loop for the inverse of the reward.\<close>

function mod_pow_loop :: "u128 \<Rightarrow> u128 \<Rightarrow> u128 \<Rightarrow> u128 \<Rightarrow> u128" where
  "mod_pow_loop p base e result =
     (if \<not> e > 0 then result
      else mod_pow_loop p ((base * base) mod p) (drop_bit 1 e) (if e AND 1 = 1 then (result * base) mod p else result))"
  by auto

lemma unat_drop_bit_1_128: "unat (drop_bit (Suc 0) (w :: u128)) = unat w div 2"
  by (simp add: drop_bit_eq_div unat_div_word)

termination mod_pow_loop
  by (relation "measure (\<lambda>(p, base, e, result). unat e)") (simp_all add: unat_drop_bit_1_128 unat_gt_0 word_gt_0)

declare mod_pow_loop.simps [simp del]

definition reward_inverse :: "u64 \<Rightarrow> u64" where
  "reward_inverse reward =
     (let p = 0xFFFFFFFF00000001 in ucast (mod_pow_loop p (ucast reward mod p) (p - 2) 1))"

definition build_mint_linear_trace :: "mint_linear_public_inputs \<Rightarrow> gl list list" where
  "build_mint_linear_trace pi =
     (let new_total = ml_total_minted_sscl pi + ml_reward_amount_sscl pi;
          headroom = MINT_S_E_SSCL - new_total;
          null_nz = (if ml_mint_nullifier pi ! 0 \<noteq> 0 \<or> ml_mint_nullifier pi ! 1 \<noteq> 0
             \<or> ml_mint_nullifier pi ! 2 \<noteq> 0 \<or> ml_mint_nullifier pi ! 3 \<noteq> 0 then 1 else 0);
          is_dep = (if ml_dep_amount_sscl pi > 0 then 1 else 0);
          is_vest = (if ml_vest_lock_epochs pi > 0 then 1 else 0);
          row = map gl_new [ucast (ml_crypto_version pi), headroom, ml_reward_amount_sscl pi, of_bool (ml_node_auth_valid pi),
            null_nz, reward_inverse (ml_reward_amount_sscl pi), ml_mint_nullifier pi ! 0, is_dep, is_vest]
      in replicate 4 row)"

section \<open>Proofs of a mint claim\<close>

datatype mint_linear_error = MintConstraintViolated nat | MintVerificationFailed | MintSerializationFailed

datatype batch_mint_error = NullifierFailed | LinearFailed mint_linear_error | NullifierMismatch

definition verify_mint_linear_p3 ::
  "(bytes \<Rightarrow> 'proof option) \<Rightarrow> ((gl list \<Rightarrow> gl list \<Rightarrow> gl list) \<Rightarrow> nat \<Rightarrow> 'proof \<Rightarrow> gl list \<Rightarrow> bool)
   \<Rightarrow> bytes \<Rightarrow> mint_linear_public_inputs \<Rightarrow> mint_linear_error + unit" where
  "verify_mint_linear_p3 decode verify proof_bytes pi =
     (case decode proof_bytes of
        None \<Rightarrow> Inl MintSerializationFailed
      | Some prf \<Rightarrow> if verify mint_eval MINT_LINEAR_WIDTH prf (build_mint_linear_pv pi) then Inr () else Inl MintVerificationFailed)"

definition prove_mint_linear_p3 ::
  "((gl list \<Rightarrow> gl list \<Rightarrow> gl list) \<Rightarrow> gl list list \<Rightarrow> gl list \<Rightarrow> bytes option)
   \<Rightarrow> mint_linear_public_inputs \<Rightarrow> mint_linear_error + bytes" where
  "prove_mint_linear_p3 prove pi =
     (case mint_check_constraints pi of
        Inl i \<Rightarrow> Inl (MintConstraintViolated i)
      | Inr _ \<Rightarrow> (case prove mint_eval (build_mint_linear_trace pi) (build_mint_linear_pv pi) of
          None \<Rightarrow> Inl MintSerializationFailed | Some b \<Rightarrow> Inr b))"

record batch_mint_proof =
  bm_mc2_proof :: bytes
  bm_linear_proof :: bytes

text \<open>\<open>verify_nullifier\<close> stands for \<open>verify_mint_nullifier_p3\<close>, whose circuit is the one of the ownership proofs.\<close>

definition verify_batch_mint ::
  "(bytes \<Rightarrow> mint_nullifier_claim \<Rightarrow> bool) \<Rightarrow> (bytes \<Rightarrow> 'proof option)
   \<Rightarrow> ((gl list \<Rightarrow> gl list \<Rightarrow> gl list) \<Rightarrow> nat \<Rightarrow> 'proof \<Rightarrow> gl list \<Rightarrow> bool)
   \<Rightarrow> batch_mint_proof \<Rightarrow> mint_nullifier_claim \<Rightarrow> mint_linear_public_inputs \<Rightarrow> batch_mint_error + unit" where
  "verify_batch_mint verify_nullifier decode verify prf null_claim linear_pi =
     (if ml_mint_nullifier linear_pi \<noteq> mc_mint_nullifier null_claim then Inl NullifierMismatch
      else if \<not> verify_nullifier (bm_mc2_proof prf) null_claim then Inl NullifierFailed
      else case verify_mint_linear_p3 decode verify (bm_linear_proof prf) linear_pi of
          Inl e \<Rightarrow> Inl (LinearFailed e) | Inr _ \<Rightarrow> Inr ())"

definition prove_batch_mint ::
  "(mint_nullifier_witness \<Rightarrow> mint_nullifier_claim \<Rightarrow> bytes option)
   \<Rightarrow> ((gl list \<Rightarrow> gl list \<Rightarrow> gl list) \<Rightarrow> gl list list \<Rightarrow> gl list \<Rightarrow> bytes option)
   \<Rightarrow> mint_nullifier_witness \<Rightarrow> mint_nullifier_claim \<Rightarrow> mint_linear_public_inputs \<Rightarrow> batch_mint_error + batch_mint_proof" where
  "prove_batch_mint prove_nullifier prove null_witness null_claim linear_pi =
     (if ml_mint_nullifier linear_pi \<noteq> mc_mint_nullifier null_claim then Inl NullifierMismatch
      else case prove_nullifier null_witness null_claim of
          None \<Rightarrow> Inl NullifierFailed
        | Some mc2 \<Rightarrow> (case prove_mint_linear_p3 prove linear_pi of
            Inl e \<Rightarrow> Inl (LinearFailed e)
          | Inr lin \<Rightarrow> Inr \<lparr>bm_mc2_proof = mc2, bm_linear_proof = lin\<rparr>))"

section \<open>The second implementation\<close>

definition MINT_TRACE_WIDTH_V2 :: nat where
  "MINT_TRACE_WIDTH_V2 = 9"

definition MINT_PI_LEN_V2 :: nat where
  "MINT_PI_LEN_V2 = 10"

definition mint_eval_v2 :: "gl list \<Rightarrow> gl list \<Rightarrow> gl list" where
  "mint_eval_v2 row pv =
     (if length row < MINT_TRACE_WIDTH_V2 \<or> length pv < MINT_PI_LEN_V2 then []
      else
        let version = row ! 0; cap_headroom = row ! 1; reward = row ! 2; auth = row ! 3; null_nz = row ! 4;
            reward_inv = row ! 5; null0 = row ! 6
        in assert_eq version (pv ! 0)
           @ assert_eq (cap_headroom + pv ! 1 + pv ! 2) (gl_new (18900000 * 100000000))
           @ assert_eq reward (pv ! 2)
           @ assert_eq (reward * reward_inv) 1
           @ assert_eq auth (pv ! 3)
           @ assert_eq null_nz 1
           @ assert_eq null0 (pv ! 4)
           @ assert_eq (null0 * null_nz) null0
           @ (if length row > 8 \<and> length pv > 9
              then let is_dep = row ! 7; is_vest = row ! 8; one = 1
                   in assert_eq (is_dep * (one - is_dep)) 0
                      @ assert_eq (is_vest * (one - is_vest)) 0
                      @ assert_eq ((one - is_dep) * pv ! 8) 0
                      @ assert_eq ((one - is_vest) * pv ! 9) 0
              else []))"

definition verify_mint_independent ::
  "(bytes \<Rightarrow> 'proof option) \<Rightarrow> ((gl list \<Rightarrow> gl list \<Rightarrow> gl list) \<Rightarrow> nat \<Rightarrow> 'proof \<Rightarrow> gl list \<Rightarrow> bool)
   \<Rightarrow> bytes \<Rightarrow> mint_linear_public_inputs \<Rightarrow> independent_verify_error + unit" where
  "verify_mint_independent decode verify proof_bytes pi =
     (if MINT_LINEAR_WIDTH \<noteq> MINT_TRACE_WIDTH_V2 then Inl (TraceWidthMismatch MINT_LINEAR_WIDTH MINT_TRACE_WIDTH_V2)
      else case decode proof_bytes of
          None \<Rightarrow> Inl Deserialize
        | Some prf \<Rightarrow> if verify mint_eval_v2 MINT_TRACE_WIDTH_V2 prf (build_mint_linear_pv pi) then Inr ()
            else Inl IndependentVerificationFailed)"

section \<open>What the circuit states\<close>

lemmas mint_cols = MINT_COL_VERSION_def MINT_COL_CAP_HEADROOM_def MINT_COL_REWARD_def MINT_COL_AUTH_def MINT_COL_NULL_NZ_def
  MINT_COL_REWARD_INV_def MINT_COL_NULL0_def MINT_COL_IS_DEP_def MINT_COL_IS_VEST_def MINT_LINEAR_WIDTH_def MINT_LINEAR_PI_LEN_def

lemma mint_eval_iff:
  assumes "length row = 9" "length pv = 10"
  shows "vanishes (mint_eval row pv) \<longleftrightarrow>
    row ! 0 mod GLP = pv ! 0 mod GLP \<and> (row ! 1 + pv ! 1 + pv ! 2) mod GLP = 1890000000000000 mod GLP
    \<and> row ! 2 mod GLP = pv ! 2 mod GLP \<and> row ! 2 * row ! 5 mod GLP = 1 mod GLP \<and> row ! 3 mod GLP = pv ! 3 mod GLP
    \<and> row ! 4 mod GLP = 1 mod GLP \<and> row ! 6 mod GLP = pv ! 4 mod GLP \<and> row ! 6 * row ! 4 mod GLP = row ! 6 mod GLP
    \<and> row ! 7 * (1 - row ! 7) mod GLP = 0 mod GLP \<and> row ! 8 * (1 - row ! 8) mod GLP = 0 mod GLP
    \<and> (1 - row ! 7) * pv ! 8 mod GLP = 0 mod GLP \<and> (1 - row ! 8) * pv ! 9 mod GLP = 0 mod GLP"
proof -
  have c: "(length row < 9 \<or> length pv < 10) = False" "(length row > 8 \<and> length pv > 9) = True"
    "gl_new MINT_S_E_SSCL = 1890000000000000"
    using assms by (simp_all add: gl_new_def MINT_S_E_SSCL_def)
  show ?thesis
    unfolding mint_eval_def Let_def mint_cols c(1,2) if_True if_False c(3)
    by (simp only: vanishes_simps asserts conj_assoc)
qed

lemma mint_language:
  assumes "length pv = 10"
  shows "(\<exists>trace. air_accepts mint_eval MINT_LINEAR_WIDTH trace pv) \<longleftrightarrow> \<not> GLP dvd pv ! 2"
proof
  assume "\<exists>trace. air_accepts mint_eval MINT_LINEAR_WIDTH trace pv"
  then obtain row where "length row = 9" "vanishes (mint_eval row pv)"
    by (auto simp: air_accepts_def neq_Nil_conv MINT_LINEAR_WIDTH_def)
  then have r: "row ! 2 mod GLP = pv ! 2 mod GLP" "row ! 2 * row ! 5 mod GLP = 1 mod GLP"
    using mint_eval_iff [OF _ assms] by blast+
  show "\<not> GLP dvd pv ! 2"
  proof
    assume "GLP dvd pv ! 2"
    then have "GLP dvd row ! 2 * row ! 5" using r(1) by (metis dvd_mult2 mod_eq_0_iff_dvd)
    then show False using r(2) by (simp add: mod_eq_0_iff_dvd)
  qed
next
  assume "\<not> GLP dvd pv ! 2"
  then obtain b where b: "pv ! 2 * b mod GLP = 1" by (rule gl_inverse)
  define row where "row = [pv ! 0, 1890000000000000 - pv ! 1 - pv ! 2, pv ! 2, pv ! 3, 1, b, pv ! 4, 1, 1]"
  have "length row = 9" by (simp add: row_def)
  moreover have "vanishes (mint_eval row pv)"
    unfolding mint_eval_iff [OF \<open>length row = 9\<close> assms] using b by (simp add: row_def)
  ultimately have "air_accepts mint_eval MINT_LINEAR_WIDTH [row] pv" by (simp add: air_accepts_def MINT_LINEAR_WIDTH_def)
  then show "\<exists>trace. air_accepts mint_eval MINT_LINEAR_WIDTH trace pv" ..
qed

lemma mint_eval_v2_eq: "mint_eval_v2 = mint_eval"
  by (rule ext, rule ext)
    (simp add: mint_eval_def mint_eval_v2_def Let_def mint_cols MINT_TRACE_WIDTH_V2_def MINT_PI_LEN_V2_def MINT_S_E_SSCL_def)

lemma length_mint_pv [simp]: "length (ml_mint_nullifier pi) = 4 \<Longrightarrow> length (build_mint_linear_pv pi) = 10"
  by (simp add: build_mint_linear_pv_def)

lemma mint_reward_zero: "GLP dvd build_mint_linear_pv pi ! 2 \<longleftrightarrow> field_reduce (ml_reward_amount_sscl pi) = 0"
proof -
  have "GLP dvd gl_new v \<longleftrightarrow> uint (field_reduce v) = 0" for v unfolding gl_new_mod [symmetric] by (rule dvd_eq_mod_eq_0)
  moreover have "build_mint_linear_pv pi ! 2 = gl_new (ml_reward_amount_sscl pi)" by (simp add: build_mint_linear_pv_def)
  ultimately show ?thesis by (simp only: uint_0_iff)
qed

section \<open>The inverse of the reward\<close>

lemma mod_pow_loop_eq:
  assumes "unat base < prime_p" "unat result < prime_p"
  shows "unat (mod_pow_loop 0xFFFFFFFF00000001 base e result) = unat result * unat base ^ unat e mod prime_p"
  using assms
proof (induction "0xFFFFFFFF00000001 :: u128" base e result rule: mod_pow_loop.induct)
  case (1 base e result)
  have prod: "unat (a * b mod 0xFFFFFFFF00000001 :: u128) = unat a * unat b mod prime_p"
    if "unat a < prime_p" "unat b < prime_p" for a b :: u128
  proof -
    have "unat a * unat b < prime_p * prime_p" using that by (intro mult_strict_mono) auto
    then have "unat (a * b) = unat a * unat b" by (intro unat_mult_no_overflow) simp
    then show ?thesis by (simp add: unat_mod)
  qed
  show ?case
  proof (cases "e > 0")
    case False
    then have "e = 0" by (simp add: word_gt_0)
    then show ?thesis using 1(3) by (simp add: mod_pow_loop.simps)
  next
    case True
    define n where "n = unat e"
    define r' where "r' = (if e AND 1 = 1 then result * base mod 0xFFFFFFFF00000001 else result)"
    have r': "unat r' = unat result * unat base ^ (n mod 2) mod prime_p" "unat r' < prime_p"
      using prod [OF 1(3,2)] 1(3) by (simp_all add: r'_def unat_and_1 n_def mod_2_eq_odd)
    have b': "unat (base * base mod 0xFFFFFFFF00000001 :: u128) = unat base * unat base mod prime_p" using prod 1(2) by blast
    then have "unat (mod_pow_loop 0xFFFFFFFF00000001 base e result) = unat r' * (unat base * unat base mod prime_p) ^ (n div 2) mod prime_p"
      using 1(1) True r'(2) by (simp add: mod_pow_loop.simps [of _ base e] r'_def [symmetric] n_def unat_drop_bit_1_128)
    also have "\<dots> = unat r' * (unat base * unat base) ^ (n div 2) mod prime_p" by (simp only: mod_mult_power_mod)
    also have "\<dots> = unat result * (unat base ^ (n mod 2) * (unat base * unat base) ^ (n div 2)) mod prime_p"
      by (simp add: r'(1) mod_mult_left_eq mult.assoc)
    also have "unat base ^ (n mod 2) * (unat base * unat base) ^ (n div 2) = unat base ^ n"
      by (simp flip: power2_eq_square power_mult power_add)
    finally show ?thesis by (simp add: n_def)
  qed
qed

lemma reward_inverse_correct:
  assumes "0 < unat r" "unat r < prime_p"
  shows "uint r * uint (reward_inverse r) mod GLP = 1"
proof -
  let ?p = "0xFFFFFFFF00000001 :: u128" and ?x = "unat r ^ 18446744069414584319 mod prime_p"
  have e: "unat (?p - 2) = 18446744069414584319" by simp
  have base: "unat (ucast r mod ?p) = unat r" using assms by (simp add: unat_mod)
  have "unat (mod_pow_loop ?p (ucast r mod ?p) (?p - 2) 1) = ?x"
    using mod_pow_loop_eq [of "ucast r mod ?p" 1 "?p - 2"] assms unfolding base e by simp
  moreover have "?x < prime_p" by (rule mod_less_divisor) simp
  ultimately have inv: "unat (reward_inverse r) = ?x"
    by (simp add: reward_inverse_def Let_def unat_u128_u64)
  have nd: "\<not> prime_p dvd unat r" using assms by (auto dest: dvd_imp_le)
  have "unat r * ?x mod prime_p = unat r ^ Suc 18446744069414584319 mod prime_p" by (simp only: mod_mult_right_eq power_Suc)
  also have "Suc 18446744069414584319 = prime_p - 1" by simp
  finally have "unat r * ?x mod prime_p = 1" using fermat [OF prime_prime_p nd] by (simp only:)
  then have "int (unat r * unat (reward_inverse r) mod prime_p) = int 1" unfolding inv by (simp only:)
  then show ?thesis unfolding uint_nat by (simp only: zmod_int of_nat_mult of_nat_numeral of_nat_1)
qed

lemma mint_check_constraints_iff:
  "mint_check_constraints pi = Inr () \<longleftrightarrow> ml_crypto_version pi = 1
     \<and> unat (ml_total_minted_sscl pi) + unat (ml_reward_amount_sscl pi) \<le> 1890000000000000
     \<and> ml_reward_amount_sscl pi \<noteq> 0 \<and> ml_node_auth_valid pi
     \<and> (ml_mint_nullifier pi ! 0 \<noteq> 0 \<or> ml_mint_nullifier pi ! 1 \<noteq> 0 \<or> ml_mint_nullifier pi ! 2 \<noteq> 0 \<or> ml_mint_nullifier pi ! 3 \<noteq> 0)"
proof (cases "checked_add (ml_total_minted_sscl pi) (ml_reward_amount_sscl pi)")
  case None
  then have "2 ^ 64 \<le> unat (ml_total_minted_sscl pi) + unat (ml_reward_amount_sscl pi)" by (simp add: checked_add_None_iff)
  then show ?thesis using None by (simp add: mint_check_constraints_def)
next
  case (Some t)
  then have "unat t = unat (ml_total_minted_sscl pi) + unat (ml_reward_amount_sscl pi)" by (simp add: checked_add_Some_iff)
  then have "MINT_S_E_SSCL < t \<longleftrightarrow> 1890000000000000 < unat (ml_total_minted_sscl pi) + unat (ml_reward_amount_sscl pi)"
    by (simp add: MINT_S_E_SSCL_def word_less_nat_alt)
  then show ?thesis using Some by (auto simp: mint_check_constraints_def MINT_CRYPTO_VERSION_def not_less)
qed

section \<open>Properties\<close>

definition sample_mint :: "u64 \<Rightarrow> u64 \<Rightarrow> mint_linear_public_inputs" where
  "sample_mint total_minted reward = \<lparr>ml_crypto_version = 1, ml_total_minted_sscl = total_minted, ml_reward_amount_sscl = reward,
     ml_node_auth_valid = True, ml_mint_nullifier = [1, 2, 3, 4], ml_dep_amount_sscl = 5, ml_vest_lock_epochs = 0\<rparr>"

text \<open>The mint circuit constrains nothing but that the reward is not a multiple of the prime: every other
  public value is acceptable, so neither the supply cap (its headroom column is not range checked) nor the
  version, the authorisation or a non-zero nullifier is enforced.  In particular a claim beyond the supply
  cap has an accepted trace, although the checks before proving refuse it.\<close>

theorem mint_circuit_language:
  assumes "length (ml_mint_nullifier pi) = 4"
  shows "(\<exists>trace. air_accepts mint_eval MINT_LINEAR_WIDTH trace (build_mint_linear_pv pi))
      = (field_reduce (ml_reward_amount_sscl pi) \<noteq> 0)
    \<and> (1890000000000000 < unat (ml_total_minted_sscl pi) + unat (ml_reward_amount_sscl pi)
        \<longrightarrow> mint_check_constraints pi \<noteq> Inr ())"
  using mint_language [OF length_mint_pv [OF assms]] mint_reward_zero [of pi] mint_check_constraints_iff [of pi] by auto

theorem mint_circuit_language_witness:
  "(\<exists>trace. air_accepts mint_eval MINT_LINEAR_WIDTH trace (build_mint_linear_pv (sample_mint 1890000000000000 5000000)))
    \<and> mint_check_constraints (sample_mint 1890000000000000 5000000) \<noteq> Inr ()"
proof -
  have "field_reduce 5000000 = (5000000 :: u64)" by (simp add: field_reduce_def GOLDILOCKS_PRIME_def)
  then show ?thesis
    using mint_circuit_language [of "sample_mint 1890000000000000 5000000"] by (simp add: sample_mint_def)
qed

text \<open>For claims that pass the checks before proving, the trace builder's row satisfies every constraint of both
  implementations of the mint circuit; in particular its square-and-multiply loop computes the inverse of
  the reward.\<close>

theorem mint_trace_complete:
  assumes "mint_check_constraints pi = Inr ()" "length (ml_mint_nullifier pi) = 4"
  shows "air_accepts mint_eval MINT_LINEAR_WIDTH (build_mint_linear_trace pi) (build_mint_linear_pv pi)
    \<and> air_accepts mint_eval_v2 MINT_TRACE_WIDTH_V2 (build_mint_linear_trace pi) (build_mint_linear_pv pi)"
proof -
  note chk = assms(1) [unfolded mint_check_constraints_iff]
  let ?t = "ml_total_minted_sscl pi" and ?r = "ml_reward_amount_sscl pi" and ?pv = "build_mint_linear_pv pi"
  define row where "row = hd (build_mint_linear_trace pi)"
  have len: "length row = 9" by (simp add: row_def build_mint_linear_trace_def Let_def)
  have r0: "0 < unat ?r" using chk by (metis neq0_conv unat_eq_zero)
  then have r: "0 < unat ?r" "unat ?r < prime_p" using chk by linarith+
  have "unat (?t + ?r) = unat ?t + unat ?r" using chk by (intro unat_add_no_overflow) simp
  then have "unat (MINT_S_E_SSCL - (?t + ?r)) = 1890000000000000 - (unat ?t + unat ?r)"
    using chk by (simp add: unat_sub_if' MINT_S_E_SSCL_def)
  then have "int (unat (MINT_S_E_SSCL - (?t + ?r))) + int (unat ?t) + int (unat ?r) = 1890000000000000" using chk by linarith
  then have cap: "uint (MINT_S_E_SSCL - (?t + ?r)) + uint ?t + uint ?r = 1890000000000000" unfolding uint_nat .
  have "vanishes (mint_eval row ?pv)"
    unfolding mint_eval_iff [OF len length_mint_pv [OF assms(2)]] using chk cap reward_inverse_correct [OF r] assms(2)
    by (auto simp: row_def build_mint_linear_trace_def build_mint_linear_pv_def Let_def gl_new_def nth_append word_gt_0)
  moreover have "build_mint_linear_trace pi = replicate 4 row" by (simp add: row_def build_mint_linear_trace_def Let_def)
  ultimately have "air_accepts mint_eval MINT_LINEAR_WIDTH (build_mint_linear_trace pi) ?pv"
    using len by (simp add: air_accepts_def MINT_LINEAR_WIDTH_def list_all_iff)
  then show ?thesis by (simp add: mint_eval_v2_eq MINT_LINEAR_WIDTH_def MINT_TRACE_WIDTH_V2_def)
qed

theorem mint_trace_complete_witness:
  "air_accepts mint_eval MINT_LINEAR_WIDTH (build_mint_linear_trace (sample_mint 0 1000000)) (build_mint_linear_pv (sample_mint 0 1000000))
    \<and> air_accepts mint_eval_v2 MINT_TRACE_WIDTH_V2 (build_mint_linear_trace (sample_mint 0 1000000)) (build_mint_linear_pv (sample_mint 0 1000000))"
  by (rule mint_trace_complete) (simp_all add: mint_check_constraints_iff, simp_all add: sample_mint_def)

end
