(* ===== verification/Subproof_Circuits.thy ===== *)
theory Subproof_Circuits
  imports Transfer_Circuit Mint_Circuit "HOL-Library.Countable"
begin

text \<open>
  The proofs that stand beside the transfer circuit in \<open>core/scalar-stark-p3/src\<close>: ownership of the inputs
  (\<open>ownership_air_p3.rs\<close>, reused by the mint nullifier proof of \<open>mint_air_p3.rs\<close>), membership in the
  incremental tree (\<open>membership_air_p3.rs\<close>) and non-membership in the two nullifier trees
  (\<open>nonmembership_air_p3.rs\<close>).  The circuit of the Poseidon2 permutation is the third-party crate
  \<open>p3-poseidon2-air\<close>: its assertions on a row, its width and the row it generates for an input are the
  parameters \<open>p2_eval\<close>, \<open>p2_width\<close> and \<open>p2_row\<close>; \<open>poseidon2_circuit\<close> states what it documents.
  The proof system is a parameter too, \<open>stark\<close> states that a proof exists exactly for accepted traces.
\<close>

section \<open>Circuits with boundary rows\<close>

text \<open>An assertion under \<open>when_first_row\<close> or \<open>when_last_row\<close> counts on that row only.\<close>

definition boundary_accepts ::
  "(bool \<Rightarrow> bool \<Rightarrow> gl list \<Rightarrow> gl list \<Rightarrow> gl list) \<Rightarrow> nat \<Rightarrow> gl list list \<Rightarrow> gl list \<Rightarrow> bool" where
  "boundary_accepts eval width trace pv \<longleftrightarrow>
     trace \<noteq> [] \<and> list_all (\<lambda>i. length (trace ! i) = width
       \<and> vanishes (eval (i = 0) (i = length trace - 1) (trace ! i) pv)) [0..<length trace]"

definition next_power_of_two :: "nat \<Rightarrow> nat" where
  "next_power_of_two n = hd (filter (\<lambda>m. n \<le> m) (map (\<lambda>k. 2 ^ k) [0..<64]))"

section \<open>Ownership\<close>

definition P2_WIDTH :: nat where
  "P2_WIDTH = 8"

definition P2_OUTPUT_COL_OFFSET :: nat where
  "P2_OUTPUT_COL_OFFSET = 172"

definition P2_OUTPUT_BOUND :: nat where
  "P2_OUTPUT_BOUND = 4"

text \<open>The loop both boundary blocks contain: bind the output columns to the public values from \<open>start\<close> on.\<close>

definition bind_outputs :: "gl list \<Rightarrow> gl list \<Rightarrow> nat \<Rightarrow> gl list" where
  "bind_outputs row pv start =
     concat (map (\<lambda>k. let col = P2_OUTPUT_COL_OFFSET + k
        in if col < length row \<and> start + k < length pv then assert_eq (row ! col) (pv ! (start + k)) else [])
       [0..<P2_OUTPUT_BOUND])"

definition ownership_eval ::
  "(gl list \<Rightarrow> gl list) \<Rightarrow> nat \<Rightarrow> bool \<Rightarrow> bool \<Rightarrow> gl list \<Rightarrow> gl list \<Rightarrow> gl list" where
  "ownership_eval p2_eval n_inputs is_first is_last row pv =
     p2_eval row
     @ (if pv = [] then []
        else (if is_first then bind_outputs row pv 0 else [])
          @ (let last_pv_start = (2 * n_inputs - 1) * P2_OUTPUT_BOUND
             in if is_last then bind_outputs row pv last_pv_start else []))"

definition DOMAIN_NULL_FE :: u64 where
  "DOMAIN_NULL_FE = from_le_bytes (ascii ''scalar_n'')"

definition DOMAIN_COMMITMENT_FE :: u64 where
  "DOMAIN_COMMITMENT_FE = from_le_bytes (ascii ''scalar_c'')"

record input_witness =
  iw_secret :: u64
  iw_value :: u64
  iw_owner_pubkey_lo :: u64
  iw_owner_pubkey_hi :: u64
  iw_salt :: u64
  iw_spending_key_lo :: u64
  iw_spending_key_hi :: u64
  iw_birth_epoch :: u64

record ownership_public_claim =
  oc_expected_nullifier :: "u64 list"
  oc_expected_commitment :: "u64 list"

datatype ownership_p3_error = OwnershipVerificationFailed | OwnershipSerializationFailed | OwnershipInvalidWitness

definition nullifier_input :: "input_witness \<Rightarrow> gl list" where
  "nullifier_input w = map gl_new [DOMAIN_NULL_FE, iw_secret w, iw_spending_key_lo w, iw_spending_key_hi w,
     iw_birth_epoch w, 0, 0, 0]"

definition commitment_input :: "input_witness \<Rightarrow> gl list" where
  "commitment_input w = map gl_new [DOMAIN_COMMITMENT_FE, iw_value w, iw_owner_pubkey_lo w, iw_owner_pubkey_hi w,
     iw_secret w, iw_salt w, iw_birth_epoch w, 0]"

text \<open>\<open>None\<close> is the failed \<open>assert!\<close> on an empty list.\<close>

definition build_ownership_trace :: "(gl list \<Rightarrow> gl list) \<Rightarrow> input_witness list \<Rightarrow> gl list list option" where
  "build_ownership_trace p2_row witnesses =
     (if witnesses = [] then None
      else
        let inputs = map nullifier_input witnesses @ map commitment_input witnesses;
            padded = next_power_of_two (length inputs)
        in Some (map p2_row (inputs @ replicate (padded - length inputs) (replicate P2_WIDTH 0))))"

definition poseidon2_hash_p3 :: "(u64 list \<Rightarrow> u64 list) \<Rightarrow> gl list \<Rightarrow> u64 list" where
  "poseidon2_hash_p3 perm input =
     (let state = perm (map as_canonical_u64 input)
      in map (\<lambda>i. as_canonical_u64 (gl_new (state ! i))) [0..<4])"

definition compute_expected_nullifier :: "(u64 list \<Rightarrow> u64 list) \<Rightarrow> input_witness \<Rightarrow> u64 list" where
  "compute_expected_nullifier perm w = poseidon2_hash_p3 perm (nullifier_input w)"

definition compute_expected_commitment :: "(u64 list \<Rightarrow> u64 list) \<Rightarrow> input_witness \<Rightarrow> u64 list" where
  "compute_expected_commitment perm w = poseidon2_hash_p3 perm (commitment_input w)"

definition build_ownership_public_values :: "ownership_public_claim list \<Rightarrow> gl list" where
  "build_ownership_public_values claims =
     concat (map (\<lambda>c. map gl_new (oc_expected_nullifier c)) claims)
     @ concat (map (\<lambda>c. map gl_new (oc_expected_commitment c)) claims)"

type_synonym boundary_air = "bool \<Rightarrow> bool \<Rightarrow> gl list \<Rightarrow> gl list \<Rightarrow> gl list"

definition prove_ownership_p3 ::
  "(gl list \<Rightarrow> gl list) \<Rightarrow> (gl list \<Rightarrow> gl list) \<Rightarrow> (boundary_air \<Rightarrow> gl list list \<Rightarrow> gl list \<Rightarrow> bytes option)
   \<Rightarrow> input_witness list \<Rightarrow> ownership_public_claim list \<Rightarrow> (ownership_p3_error + bytes) option" where
  "prove_ownership_p3 p2_eval p2_row bprove witnesses claims =
     (if length witnesses \<noteq> length claims then Some (Inl OwnershipInvalidWitness)
      else if witnesses = [] then Some (Inl OwnershipInvalidWitness)
      else map_option (\<lambda>trace.
          case bprove (ownership_eval p2_eval (length witnesses)) trace (build_ownership_public_values claims) of
            None \<Rightarrow> Inl OwnershipSerializationFailed | Some b \<Rightarrow> Inr b)
        (build_ownership_trace p2_row witnesses))"

definition verify_ownership_p3 ::
  "(gl list \<Rightarrow> gl list) \<Rightarrow> nat \<Rightarrow> (bytes \<Rightarrow> 'proof option) \<Rightarrow> (boundary_air \<Rightarrow> nat \<Rightarrow> 'proof \<Rightarrow> gl list \<Rightarrow> bool)
   \<Rightarrow> bytes \<Rightarrow> ownership_public_claim list \<Rightarrow> ownership_p3_error + unit" where
  "verify_ownership_p3 p2_eval p2_width decode bverify proof_bytes claims =
     (case decode proof_bytes of
        None \<Rightarrow> Inl OwnershipSerializationFailed
      | Some prf \<Rightarrow> if bverify (ownership_eval p2_eval (length claims)) p2_width prf (build_ownership_public_values claims)
          then Inr () else Inl OwnershipVerificationFailed)"

section \<open>The mint nullifier proof\<close>

datatype mint_nullifier_p3_error = NullifierVerificationFailed | NullifierSerializationFailed

definition build_mint_nullifier_trace ::
  "(gl list \<Rightarrow> gl list) \<Rightarrow> mint_nullifier_witness \<Rightarrow> mint_nullifier_claim \<Rightarrow> gl list list" where
  "build_mint_nullifier_trace p2_row w claim = map p2_row [mint_inner_input w, mint_outer_input (mc_inner_hash claim)]"

definition prove_mint_nullifier_p3 ::
  "(gl list \<Rightarrow> gl list) \<Rightarrow> (gl list \<Rightarrow> gl list) \<Rightarrow> (boundary_air \<Rightarrow> gl list list \<Rightarrow> gl list \<Rightarrow> bytes option)
   \<Rightarrow> mint_nullifier_witness \<Rightarrow> mint_nullifier_claim \<Rightarrow> mint_nullifier_p3_error + bytes" where
  "prove_mint_nullifier_p3 p2_eval p2_row bprove w claim =
     (case bprove (ownership_eval p2_eval 1) (build_mint_nullifier_trace p2_row w claim)
         (build_mint_nullifier_public_values claim) of
        None \<Rightarrow> Inl NullifierSerializationFailed | Some b \<Rightarrow> Inr b)"

definition verify_mint_nullifier_p3 ::
  "(gl list \<Rightarrow> gl list) \<Rightarrow> nat \<Rightarrow> (bytes \<Rightarrow> 'proof option) \<Rightarrow> (boundary_air \<Rightarrow> nat \<Rightarrow> 'proof \<Rightarrow> gl list \<Rightarrow> bool)
   \<Rightarrow> bytes \<Rightarrow> mint_nullifier_claim \<Rightarrow> mint_nullifier_p3_error + unit" where
  "verify_mint_nullifier_p3 p2_eval p2_width decode bverify proof_bytes claim =
     (case decode proof_bytes of
        None \<Rightarrow> Inl NullifierSerializationFailed
      | Some prf \<Rightarrow> if bverify (ownership_eval p2_eval 1) p2_width prf (build_mint_nullifier_public_values claim)
          then Inr () else Inl NullifierVerificationFailed)"

section \<open>Membership\<close>

definition MEMB_IMT_DEPTH :: nat where
  "MEMB_IMT_DEPTH = 32"

definition DOMAIN_IMT_LEAF_LO :: u64 where
  "DOMAIN_IMT_LEAF_LO = from_le_bytes (ascii ''scalar_i'')"

definition DOMAIN_IMT_LEAF_HI :: u64 where
  "DOMAIN_IMT_LEAF_HI = from_le_bytes (ascii ''mt_leaf'' @ [0])"

definition DOMAIN_IMT_NODE_LO :: u64 where
  "DOMAIN_IMT_NODE_LO = from_le_bytes (ascii ''scalar_i'')"

definition DOMAIN_IMT_NODE_HI :: u64 where
  "DOMAIN_IMT_NODE_HI = from_le_bytes (ascii ''mt_node'' @ [0])"

text \<open>A commitment has 32 bytes, so its four chunks are full.\<close>

definition leaf_hash_input :: "bytes \<Rightarrow> u64 \<Rightarrow> gl list" where
  "leaf_hash_input commitment leaf_index =
     [gl_new (field_reduce DOMAIN_IMT_LEAF_LO), gl_new (field_reduce DOMAIN_IMT_LEAF_HI)]
     @ map (\<lambda>c. gl_new (field_reduce c)) (bytes32_to_field4 commitment)
     @ [gl_new (field_reduce leaf_index), gl_new 0]"

definition node_hash_input :: "u64 list \<Rightarrow> u64 list \<Rightarrow> gl list" where
  "node_hash_input left right =
     map (\<lambda>v. gl_new (field_reduce v))
       [DOMAIN_IMT_NODE_LO, DOMAIN_IMT_NODE_HI, left ! 0, left ! 1, left ! 2, left ! 3, right ! 0, right ! 1]"

definition poseidon2_permute :: "(u64 list \<Rightarrow> u64 list) \<Rightarrow> gl list \<Rightarrow> u64 list" where
  "poseidon2_permute perm input =
     (let state = perm (map as_canonical_u64 input)
      in map (\<lambda>i. as_canonical_u64 (gl_new (state ! i))) [0..<4])"

record membership_witness =
  mw_commitment :: bytes
  mw_leaf_index :: u64
  mw_siblings :: "u64 list list"

record membership_public_claim =
  mp_expected_root :: "u64 list"
  mp_leaf_commitments :: "bytes list"
  mp_leaf_indices :: "u64 list"

datatype membership_p3_error = MembershipVerificationFailed | MembershipSerializationFailed | MembershipInvalidWitness
  | MembershipRootMismatch "u64 list" "u64 list"

definition membership_level ::
  "(u64 list \<Rightarrow> u64 list) \<Rightarrow> membership_witness \<Rightarrow> nat \<Rightarrow> gl list list \<times> u64 list \<Rightarrow> gl list list \<times> u64 list" where
  "membership_level perm w level st =
     (case st of (inputs, current) \<Rightarrow>
        let is_right = drop_bit level (mw_leaf_index w) AND 1;
            sibling = mw_siblings w ! level;
            node_input = (if is_right = 0 then node_hash_input current sibling else node_hash_input sibling current)
        in (inputs @ [node_input], poseidon2_permute perm node_input))"

definition membership_trace_inputs ::
  "(u64 list \<Rightarrow> u64 list) \<Rightarrow> membership_witness \<Rightarrow> gl list list \<times> u64 list" where
  "membership_trace_inputs perm w =
     (let leaf_input = leaf_hash_input (mw_commitment w) (mw_leaf_index w)
      in fold (membership_level perm w) [0..<MEMB_IMT_DEPTH] ([leaf_input], poseidon2_permute perm leaf_input))"

definition build_membership_trace ::
  "(u64 list \<Rightarrow> u64 list) \<Rightarrow> membership_witness list \<Rightarrow> gl list list \<times> u64 list list" where
  "build_membership_trace perm witnesses =
     (concat (map (fst \<circ> membership_trace_inputs perm) witnesses), map (snd \<circ> membership_trace_inputs perm) witnesses)"

primrec validate_membership_roots :: "u64 list list \<Rightarrow> u64 list \<Rightarrow> membership_p3_error + unit" where
  "validate_membership_roots [] expected_root = Inr ()"
| "validate_membership_roots (root # roots) expected_root =
     (if root \<noteq> expected_root then Inl (MembershipRootMismatch expected_root root)
      else validate_membership_roots roots expected_root)"

text \<open>The circuit asserts the permutation on every row and nothing about the public values.\<close>

definition membership_eval :: "(gl list \<Rightarrow> gl list) \<Rightarrow> gl list \<Rightarrow> gl list \<Rightarrow> gl list" where
  "membership_eval p2_eval row pv = p2_eval row"

definition build_membership_public_values :: "membership_public_claim \<Rightarrow> gl list" where
  "build_membership_public_values claim =
     map gl_new (mp_expected_root claim)
     @ concat (map2 (\<lambda>commitment leaf_index.
         map (\<lambda>c. gl_new (field_reduce c)) (bytes32_to_field4 commitment) @ [gl_new leaf_index])
       (mp_leaf_commitments claim) (mp_leaf_indices claim))"

definition inputs_to_trace :: "(gl list \<Rightarrow> gl list) \<Rightarrow> gl list list \<Rightarrow> gl list list" where
  "inputs_to_trace p2_row inputs =
     map p2_row (inputs @ replicate (next_power_of_two (length inputs) - length inputs) (replicate P2_WIDTH 0))"

definition prove_membership_p3 ::
  "(u64 list \<Rightarrow> u64 list) \<Rightarrow> (gl list \<Rightarrow> gl list) \<Rightarrow> (gl list \<Rightarrow> gl list)
   \<Rightarrow> ((gl list \<Rightarrow> gl list \<Rightarrow> gl list) \<Rightarrow> gl list list \<Rightarrow> gl list \<Rightarrow> bytes option)
   \<Rightarrow> membership_witness list \<Rightarrow> membership_public_claim \<Rightarrow> membership_p3_error + bytes" where
  "prove_membership_p3 perm p2_eval p2_row prove witnesses claim =
     (if witnesses = [] then Inl MembershipInvalidWitness
      else if length witnesses \<noteq> length (mp_leaf_commitments claim) \<or> length witnesses \<noteq> length (mp_leaf_indices claim)
      then Inl MembershipInvalidWitness
      else
        let inputs = fst (build_membership_trace perm witnesses); computed_roots = snd (build_membership_trace perm witnesses)
        in case validate_membership_roots computed_roots (mp_expected_root claim) of
            Inl e \<Rightarrow> Inl e
          | Inr _ \<Rightarrow> (case prove (membership_eval p2_eval) (inputs_to_trace p2_row inputs) (build_membership_public_values claim) of
              None \<Rightarrow> Inl MembershipSerializationFailed | Some b \<Rightarrow> Inr b))"

text \<open>The verifier of \<open>p3-uni-stark\<close> refuses public values whose number is not the one the circuit declares.  For the
  other circuits the two agree by the types of the claims; here the values come from a \<open>zip\<close> of two vectors.\<close>

definition membership_num_public_values :: "nat \<Rightarrow> nat" where
  "membership_num_public_values n_inputs = 4 + n_inputs * 5"

definition verify_membership_p3 ::
  "(gl list \<Rightarrow> gl list) \<Rightarrow> nat \<Rightarrow> (bytes \<Rightarrow> 'proof option)
   \<Rightarrow> ((gl list \<Rightarrow> gl list \<Rightarrow> gl list) \<Rightarrow> nat \<Rightarrow> 'proof \<Rightarrow> gl list \<Rightarrow> bool)
   \<Rightarrow> bytes \<Rightarrow> membership_public_claim \<Rightarrow> membership_p3_error + unit" where
  "verify_membership_p3 p2_eval p2_width decode verify proof_bytes claim =
     (case decode proof_bytes of
        None \<Rightarrow> Inl MembershipSerializationFailed
      | Some prf \<Rightarrow> if length (build_membership_public_values claim) = membership_num_public_values (length (mp_leaf_commitments claim))
            \<and> verify (membership_eval p2_eval) p2_width prf (build_membership_public_values claim)
          then Inr () else Inl MembershipVerificationFailed)"

section \<open>Non-membership\<close>

definition NONMEMB_SMT_DEPTH :: nat where
  "NONMEMB_SMT_DEPTH = 32"

definition NONMEMB_TRACE_WIDTH :: nat where
  "NONMEMB_TRACE_WIDTH = 14"

definition COL_BIT :: nat where
  "COL_BIT = 12"

definition DOMAIN_SMT_ACTIVE_LO :: u64 where
  "DOMAIN_SMT_ACTIVE_LO = from_le_bytes (ascii ''scalar_s'')"

definition DOMAIN_SMT_ACTIVE_HI :: u64 where
  "DOMAIN_SMT_ACTIVE_HI = from_le_bytes (ascii ''mt_activ'')"

definition DOMAIN_SMT_ARCHIVED_LO :: u64 where
  "DOMAIN_SMT_ARCHIVED_LO = from_le_bytes (ascii ''scalar_s'')"

definition DOMAIN_SMT_ARCHIVED_HI :: u64 where
  "DOMAIN_SMT_ARCHIVED_HI = from_le_bytes (ascii ''mt_archi'')"

datatype sparse_tree = TreeActive | TreeArchived

record nonmembership_witness =
  nw_nullifier :: bytes
  nw_siblings :: "u64 list list"
  nw_tree :: sparse_tree

record nonmembership_public_claim =
  np_nullifier :: bytes
  np_active_root :: bytes
  np_archived_root :: bytes

datatype nonmembership_p3_error = NonRootMismatch sparse_tree "u64 list" "u64 list" | Serialise | Deserialise | VerifyFailed

definition zero_leaf :: "u64 list" where
  "zero_leaf = [0, 0, 0, 0]"

definition smt_node_hash :: "(u64 list \<Rightarrow> u64 list) \<Rightarrow> u64 \<Rightarrow> u64 \<Rightarrow> u64 list \<Rightarrow> u64 list \<Rightarrow> u64 list" where
  "smt_node_hash perm domain_lo domain_hi left right =
     poseidon2_permute perm ([gl_new domain_lo, gl_new domain_hi] @ map (\<lambda>v. gl_new (field_reduce v))
       [left ! 0, left ! 1, left ! 2, left ! 3, right ! 0, right ! 1])"

definition tree_domain :: "sparse_tree \<Rightarrow> u64 \<times> u64" where
  "tree_domain tree =
     (case tree of
        TreeActive \<Rightarrow> (DOMAIN_SMT_ACTIVE_LO, DOMAIN_SMT_ACTIVE_HI)
      | TreeArchived \<Rightarrow> (DOMAIN_SMT_ARCHIVED_LO, DOMAIN_SMT_ARCHIVED_HI))"

definition nullifier_bit :: "bytes \<Rightarrow> nat \<Rightarrow> u64" where
  "nullifier_bit nullifier level = ucast (drop_bit (level mod 8) (nullifier ! (level div 8)) AND 1)"

definition reconstruct_level ::
  "(u64 list \<Rightarrow> u64 list) \<Rightarrow> nonmembership_witness \<Rightarrow> nat \<Rightarrow> u64 list \<times> u64 list list \<Rightarrow> u64 list \<times> u64 list list" where
  "reconstruct_level perm w level st =
     (case (st, tree_domain (nw_tree w)) of ((current, hashes), (domain_lo, domain_hi)) \<Rightarrow>
        let b = nullifier_bit (nw_nullifier w) level;
            sibling = nw_siblings w ! level;
            current' = (if b = 0 then smt_node_hash perm domain_lo domain_hi current sibling
              else smt_node_hash perm domain_lo domain_hi sibling current)
        in (current', hashes @ [current']))"

definition reconstruct_root :: "(u64 list \<Rightarrow> u64 list) \<Rightarrow> nonmembership_witness \<Rightarrow> u64 list \<times> u64 list list" where
  "reconstruct_root perm w = fold (reconstruct_level perm w) [0..<NONMEMB_SMT_DEPTH] (zero_leaf, [zero_leaf])"

definition build_one_proof_rows :: "(u64 list \<Rightarrow> u64 list) \<Rightarrow> nonmembership_witness \<Rightarrow> gl list list" where
  "build_one_proof_rows perm w =
     (let hashes = snd (reconstruct_root perm w)
      in map (\<lambda>level.
           map (\<lambda>i. gl_new (field_reduce (hashes ! level ! i))) [0..<4]
           @ map (\<lambda>i. gl_new (field_reduce (nw_siblings w ! level ! i))) [0..<4]
           @ map (\<lambda>i. gl_new (field_reduce (hashes ! (level + 1) ! i))) [0..<4]
           @ [gl_new (nullifier_bit (nw_nullifier w) level), gl_new (of_nat level)]) [0..<NONMEMB_SMT_DEPTH])"

definition build_nonmembership_trace :: "(u64 list \<Rightarrow> u64 list) \<Rightarrow> nonmembership_witness list \<Rightarrow> gl list list" where
  "build_nonmembership_trace perm witnesses =
     (let rows = concat (map (build_one_proof_rows perm) witnesses);
          padded = max (next_power_of_two (length rows)) 2
      in rows @ replicate (padded - length rows) (replicate NONMEMB_TRACE_WIDTH 0))"

definition build_nonmembership_public_values :: "nonmembership_public_claim \<Rightarrow> gl list" where
  "build_nonmembership_public_values claim =
     map (\<lambda>c. gl_new (field_reduce c)) (bytes32_to_field4 (np_active_root claim))
     @ map (\<lambda>c. gl_new (field_reduce c)) (bytes32_to_field4 (np_archived_root claim))
     @ map (\<lambda>c. gl_new (field_reduce c)) (bytes32_to_field4 (np_nullifier claim))"

definition nonmembership_eval :: "gl list \<Rightarrow> gl list \<Rightarrow> gl list" where
  "nonmembership_eval row pv = assert_zero (row ! COL_BIT * (1 - row ! COL_BIT))"

definition preflight_check ::
  "(u64 list \<Rightarrow> u64 list) \<Rightarrow> nonmembership_witness \<Rightarrow> nonmembership_public_claim \<Rightarrow> nonmembership_p3_error + unit" where
  "preflight_check perm w claim =
     (let reconstructed = fst (reconstruct_root perm w);
          expected = bytes32_to_field4 (case nw_tree w of TreeActive \<Rightarrow> np_active_root claim | TreeArchived \<Rightarrow> np_archived_root claim)
      in if reconstructed \<noteq> expected then Inl (NonRootMismatch (nw_tree w) reconstructed expected) else Inr ())"

primrec preflight_all ::
  "(u64 list \<Rightarrow> u64 list) \<Rightarrow> nonmembership_public_claim \<Rightarrow> nonmembership_witness list \<Rightarrow> nonmembership_p3_error + unit" where
  "preflight_all perm claim [] = Inr ()"
| "preflight_all perm claim (w # ws) =
     (case preflight_check perm w claim of Inl e \<Rightarrow> Inl e | Inr _ \<Rightarrow> preflight_all perm claim ws)"

definition prove_nonmembership_p3 ::
  "(u64 list \<Rightarrow> u64 list) \<Rightarrow> ((gl list \<Rightarrow> gl list \<Rightarrow> gl list) \<Rightarrow> gl list list \<Rightarrow> gl list \<Rightarrow> bytes option)
   \<Rightarrow> nonmembership_witness list \<Rightarrow> nonmembership_public_claim \<Rightarrow> nonmembership_p3_error + bytes" where
  "prove_nonmembership_p3 perm prove witnesses claim =
     (case preflight_all perm claim witnesses of
        Inl e \<Rightarrow> Inl e
      | Inr _ \<Rightarrow> (case prove nonmembership_eval (build_nonmembership_trace perm witnesses)
            (build_nonmembership_public_values claim) of
          None \<Rightarrow> Inl Serialise | Some b \<Rightarrow> Inr b))"

definition verify_nonmembership_p3 ::
  "(bytes \<Rightarrow> 'proof option) \<Rightarrow> ((gl list \<Rightarrow> gl list \<Rightarrow> gl list) \<Rightarrow> nat \<Rightarrow> 'proof \<Rightarrow> gl list \<Rightarrow> bool)
   \<Rightarrow> bytes \<Rightarrow> nonmembership_public_claim \<Rightarrow> nonmembership_p3_error + unit" where
  "verify_nonmembership_p3 decode verify proof_bytes claim =
     (case decode proof_bytes of
        None \<Rightarrow> Inl Deserialise
      | Some prf \<Rightarrow> if verify nonmembership_eval NONMEMB_TRACE_WIDTH prf (build_nonmembership_public_values claim)
          then Inr () else Inl VerifyFailed)"

lemma membership_pv_count:
  "length (build_membership_public_values claim)
     = length (mp_expected_root claim) + min (length (mp_leaf_commitments claim)) (length (mp_leaf_indices claim)) * 5"
  by (simp add: build_membership_public_values_def length_concat o_def split_beta bytes32_to_field4_def sum_list_triv)

section \<open>What the third-party code documents\<close>

definition canonical_words :: "u64 list \<Rightarrow> bool" where
  "canonical_words xs \<longleftrightarrow> list_all (\<lambda>v. field_reduce v = v) xs"

text \<open>The permutation maps states of eight canonical words to such states.\<close>

definition canonical_perm :: "(u64 list \<Rightarrow> u64 list) \<Rightarrow> bool" where
  "canonical_perm perm \<longleftrightarrow> (\<forall>xs. length xs = 8 \<longrightarrow> length (perm xs) = 8 \<and> canonical_words (perm xs))"

text \<open>The permutation reaches every state; the row generated for an input satisfies the assertions and holds
  the permuted input in the output columns.\<close>

definition poseidon2_circuit ::
  "(u64 list \<Rightarrow> u64 list) \<Rightarrow> (gl list \<Rightarrow> gl list) \<Rightarrow> nat \<Rightarrow> (gl list \<Rightarrow> gl list) \<Rightarrow> bool" where
  "poseidon2_circuit perm p2_eval p2_width p2_row \<longleftrightarrow>
     canonical_perm perm \<and> (\<forall>ys. length ys = 8 \<and> canonical_words ys \<longrightarrow> (\<exists>xs. length xs = 8 \<and> canonical_words xs \<and> perm xs = ys))
     \<and> 176 \<le> p2_width
     \<and> (\<forall>input. length input = 8 \<longrightarrow> length (p2_row input) = p2_width \<and> vanishes (p2_eval (p2_row input))
         \<and> (\<forall>k<4. p2_row input ! (172 + k) mod GLP = uint (perm (map as_canonical_u64 input) ! k)))"

lemma field_reduce_idem [simp]: "field_reduce (field_reduce v) = field_reduce v"
  using unat_field_reduce [of v] unat_field_reduce [of "field_reduce v"] by (simp add: word_unat_eq_iff)

lemma canonical_simps [simp]: "canonical_words []" "canonical_words (v # vs) \<longleftrightarrow> field_reduce v = v \<and> canonical_words vs"
  "canonical_words (xs @ ys) \<longleftrightarrow> canonical_words xs \<and> canonical_words ys" "canonical_words (map field_reduce xs)"
  by (auto simp: canonical_words_def list_all_iff)

lemma canonical_nth: "canonical_words xs \<Longrightarrow> i < length xs \<Longrightarrow> field_reduce (xs ! i) = xs ! i"
  by (simp add: canonical_words_def list_all_length)

lemma as_canonical_gl_new_list: "canonical_words xs \<Longrightarrow> map (as_canonical_u64 \<circ> gl_new) xs = xs"
  by (induction xs) auto

section \<open>Powers of two\<close>

lemma is_power_of_two_iff: "is_power_of_two n \<longleftrightarrow> (\<exists>k<64. n = 2 ^ k)"
  by (auto simp: is_power_of_two_def list_ex_iff)

lemma next_power_of_two_power: "j < 64 \<Longrightarrow> next_power_of_two (2 ^ j) = 2 ^ j"
proof -
  assume j: "j < 64"
  then have s: "[0..<64] = [0..<j] @ [j..<64]" using upt_add_eq_append [of 0 j "64 - j"] by simp
  have "filter (\<lambda>m. 2 ^ j \<le> m) (map (\<lambda>k. 2 ^ k :: nat) [0..<64]) = map (\<lambda>k. 2 ^ k) [j..<64]"
    unfolding s by (simp add: filter_map o_def filter_empty_conv)
  then show ?thesis using j by (simp add: next_power_of_two_def upt_conv_Cons)
qed

lemma next_power_of_two:
  assumes "n \<le> 2 ^ 63"
  shows "n \<le> next_power_of_two n" "is_power_of_two (next_power_of_two n)" "next_power_of_two n = n \<longleftrightarrow> is_power_of_two n"
proof -
  let ?xs = "filter (\<lambda>m. n \<le> m) (map (\<lambda>k. 2 ^ k) [0..<64])"
  have "2 ^ 63 \<in> set ?xs" using assms imageI [of 63 "{0..<64 :: nat}" "\<lambda>k. 2 ^ k :: nat"] by simp
  then have "hd ?xs \<in> set ?xs" by (intro hd_in_set) (metis empty_iff empty_set)
  then have *: "\<exists>k<64. next_power_of_two n = 2 ^ k" "n \<le> next_power_of_two n"
    by (auto simp: next_power_of_two_def)
  then show "n \<le> next_power_of_two n" "is_power_of_two (next_power_of_two n)" by (auto simp: is_power_of_two_iff)
  then show "next_power_of_two n = n \<longleftrightarrow> is_power_of_two n"
    using next_power_of_two_power by (metis is_power_of_two_iff)
qed

lemma is_power_of_two_double:
  assumes "n \<le> 2 ^ 62" "0 < n"
  shows "is_power_of_two (2 * n) \<longleftrightarrow> is_power_of_two n"
proof
  assume "is_power_of_two (2 * n)"
  then obtain k where k: "k < 64" "2 * n = 2 ^ k" by (auto simp: is_power_of_two_iff)
  then obtain j where "k = Suc j" using assms by (cases k) auto
  then show "is_power_of_two n" using k by (auto simp: is_power_of_two_iff)
next
  assume "is_power_of_two n"
  then obtain k where k: "k < 64" "n = 2 ^ k" by (auto simp: is_power_of_two_iff)
  have "(2 :: nat) ^ k \<le> 2 ^ 62" using assms k by simp
  then have "k \<le> 62" by (rule power_le_imp_le_exp [rotated]) simp
  then show "is_power_of_two (2 * n)" using k by (auto simp: is_power_of_two_iff intro!: exI [of _ "Suc k"])
qed


section \<open>Ownership: what the circuit binds\<close>

lemma nth_concat_4:
  "list_all (\<lambda>x. length x = 4) xs \<Longrightarrow> i < length xs \<Longrightarrow> k < 4 \<Longrightarrow> concat xs ! (4 * i + k) = xs ! i ! k"
  using nth_concat_uniform [of xs "\<lambda>x. x" 4 i k] by (simp add: list_all_iff mult.commute)

lemma length_concat_4: "list_all (\<lambda>x. length x = 4) xs \<Longrightarrow> length (concat xs) = 4 * length xs"
  using length_concat_uniform [of xs "\<lambda>x. x" 4] by (simp add: list_all_iff)

definition claim_wf :: "ownership_public_claim \<Rightarrow> bool" where
  "claim_wf c \<longleftrightarrow> length (oc_expected_nullifier c) = 4 \<and> length (oc_expected_commitment c) = 4"

lemma ownership_pv:
  assumes "list_all claim_wf claims" "claims \<noteq> []" "k < 4"
  shows "length (build_ownership_public_values claims) = 8 * length claims"
    "build_ownership_public_values claims ! k = gl_new (oc_expected_nullifier (hd claims) ! k)"
    "build_ownership_public_values claims ! ((2 * length claims - 1) * 4 + k) = gl_new (oc_expected_commitment (last claims) ! k)"
proof -
  let ?n = "map (\<lambda>c. map gl_new (oc_expected_nullifier c)) claims" and ?c = "map (\<lambda>c. map gl_new (oc_expected_commitment c)) claims"
  have all: "list_all (\<lambda>x. length x = 4) ?n" "list_all (\<lambda>x. length x = 4) ?c"
    using assms(1) by (auto simp: list_all_iff claim_wf_def)
  note len = length_concat_4 [OF all(1)] length_concat_4 [OF all(2)]
  have wf: "claim_wf (hd claims)" "claim_wf (last claims)" using assms(1,2) by (auto simp: list_all_iff)
  show "length (build_ownership_public_values claims) = 8 * length claims"
    using len by (simp add: build_ownership_public_values_def)
  show "build_ownership_public_values claims ! k = gl_new (oc_expected_nullifier (hd claims) ! k)"
    using len assms nth_concat_4 [OF all(1), of 0 k] wf
    by (cases claims) (auto simp: build_ownership_public_values_def nth_append claim_wf_def)
  obtain m where m: "length claims = Suc m" using assms(2) by (cases claims) auto
  have idx: "(2 * length claims - 1) * 4 + k = 4 * length claims + (4 * m + k)" using m by simp
  show "build_ownership_public_values claims ! ((2 * length claims - 1) * 4 + k) = gl_new (oc_expected_commitment (last claims) ! k)"
    unfolding idx build_ownership_public_values_def
    using len assms nth_concat_4 [OF all(2), of m k] wf m by (simp add: nth_append last_conv_nth claim_wf_def)
qed

lemma vanishes_bind_outputs:
  assumes "176 \<le> length row" "start + 4 \<le> length pv"
  shows "vanishes (bind_outputs row pv start) \<longleftrightarrow> (\<forall>k<4. row ! (172 + k) mod GLP = pv ! (start + k) mod GLP)"
  using assms by (auto simp: bind_outputs_def P2_OUTPUT_COL_OFFSET_def P2_OUTPUT_BOUND_def Let_def asserts)

text \<open>A trace that satisfies the permutation circuit on every row is accepted exactly when the outputs of its
  first and of its last row are the first and the last claimed hash.\<close>

lemma ownership_accepts_iff:
  assumes rows: "trace \<noteq> []" "\<forall>row\<in>set trace. length row = p2_width \<and> vanishes (p2_eval row)" and w: "176 \<le> p2_width"
    and pv: "0 < n" "length pv = 8 * n"
  shows "boundary_accepts (ownership_eval p2_eval n) p2_width trace pv \<longleftrightarrow>
    (\<forall>k<4. hd trace ! (172 + k) mod GLP = pv ! k mod GLP)
    \<and> (\<forall>k<4. last trace ! (172 + k) mod GLP = pv ! ((2 * n - 1) * 4 + k) mod GLP)"
proof -
  have pvn: "pv \<noteq> []" "(2 * n - 1) * 4 + 4 \<le> length pv" "4 \<le> length pv" using pv by auto
  have row: "length (trace ! i) = p2_width" "vanishes (p2_eval (trace ! i))" if "i < length trace" for i
    using rows(2) that by simp_all
  have ends: "hd trace = trace ! 0" "last trace = trace ! (length trace - 1)" "length trace - 1 < length trace" "0 < length trace"
    using rows(1) by (simp_all add: hd_conv_nth last_conv_nth)
  have "vanishes (ownership_eval p2_eval n (i = 0) (i = length trace - 1) (trace ! i) pv) \<longleftrightarrow>
      (i = 0 \<longrightarrow> (\<forall>k<4. trace ! i ! (172 + k) mod GLP = pv ! k mod GLP))
      \<and> (i = length trace - 1 \<longrightarrow> (\<forall>k<4. trace ! i ! (172 + k) mod GLP = pv ! ((2 * n - 1) * 4 + k) mod GLP))"
    if "i < length trace" for i
    using row [OF that] w pvn vanishes_bind_outputs [of "trace ! i" 0 pv] vanishes_bind_outputs [of "trace ! i" "(2 * n - 1) * 4" pv]
    by (auto simp: ownership_eval_def Let_def P2_OUTPUT_BOUND_def)
  then have "boundary_accepts (ownership_eval p2_eval n) p2_width trace pv \<longleftrightarrow> (\<forall>i<length trace.
      (i = 0 \<longrightarrow> (\<forall>k<4. trace ! i ! (172 + k) mod GLP = pv ! k mod GLP))
      \<and> (i = length trace - 1 \<longrightarrow> (\<forall>k<4. trace ! i ! (172 + k) mod GLP = pv ! ((2 * n - 1) * 4 + k) mod GLP)))"
    using row rows(1) unfolding boundary_accepts_def list_all_iff by (simp add: Ball_def)
  then show ?thesis unfolding ends(1,2) using ends(3,4) by blast
qed


lemma poseidon2_circuitD:
  assumes "poseidon2_circuit perm p2_eval p2_width p2_row"
  shows "canonical_perm perm" "176 \<le> p2_width"
    "length input = 8 \<Longrightarrow> length (p2_row input) = p2_width" "length input = 8 \<Longrightarrow> vanishes (p2_eval (p2_row input))"
    "length input = 8 \<Longrightarrow> k < 4 \<Longrightarrow> p2_row input ! (172 + k) mod GLP = uint (perm (map as_canonical_u64 input) ! k)"
    "length ys = 8 \<Longrightarrow> canonical_words ys \<Longrightarrow> \<exists>xs. length xs = 8 \<and> canonical_words xs \<and> perm xs = ys"
  using assms unfolding poseidon2_circuit_def by blast+

text \<open>Any four words are the output of some row: the inputs are columns the circuit leaves free.\<close>

lemma row_with_output:
  assumes circ: "poseidon2_circuit perm p2_eval p2_width p2_row" and len: "length target = 4"
  shows "\<exists>row. length row = p2_width \<and> vanishes (p2_eval row) \<and> (\<forall>k<4. row ! (172 + k) mod GLP = gl_new (target ! k) mod GLP)"
proof -
  let ?ys = "map field_reduce target @ [0, 0, 0, 0]"
  have "field_reduce 0 = 0" by (simp add: word_unat_eq_iff unat_field_reduce)
  then obtain xs where xs: "length xs = 8" "canonical_words xs" "perm xs = ?ys"
    using poseidon2_circuitD(6) [OF circ, of ?ys] len by auto
  have "p2_row (map gl_new xs) ! (172 + k) mod GLP = gl_new (target ! k) mod GLP" if "k < 4" for k
    using poseidon2_circuitD(5) [OF circ, of "map gl_new xs" k] that xs len
    by (simp add: as_canonical_gl_new_list nth_append gl_new_mod del: as_canonical_gl_new)
  then show ?thesis using poseidon2_circuitD(3,4) [OF circ, of "map gl_new xs"] xs(1) by auto
qed

lemma two_rows_accepted:
  assumes circ: "poseidon2_circuit perm p2_eval p2_width p2_row" and len: "length a = 4" "length b = 4"
    and pv: "0 < n" "length pv = 8 * n" "\<And>k. k < 4 \<Longrightarrow> pv ! k = gl_new (a ! k)"
      "\<And>k. k < 4 \<Longrightarrow> pv ! ((2 * n - 1) * 4 + k) = gl_new (b ! k)"
  shows "\<exists>trace. is_power_of_two (length trace) \<and> boundary_accepts (ownership_eval p2_eval n) p2_width trace pv"
proof -
  obtain r s where r: "length r = p2_width" "vanishes (p2_eval r)" "\<And>k. k < 4 \<Longrightarrow> r ! (172 + k) mod GLP = gl_new (a ! k) mod GLP"
    and s: "length s = p2_width" "vanishes (p2_eval s)" "\<And>k. k < 4 \<Longrightarrow> s ! (172 + k) mod GLP = gl_new (b ! k) mod GLP"
    using row_with_output [OF circ len(1)] row_with_output [OF circ len(2)] by blast
  have "boundary_accepts (ownership_eval p2_eval n) p2_width [r, s] pv"
    using ownership_accepts_iff [of "[r, s]" p2_width p2_eval n pv] r s pv poseidon2_circuitD(2) [OF circ] by simp
  moreover have "is_power_of_two (length [r, s])" by (auto simp: is_power_of_two_iff intro!: exI [of _ 1])
  ultimately show ?thesis by blast
qed

section \<open>The membership path and the incremental tree\<close>

lemma bytes32_field_roundtrip:
  assumes "length xs = 4"
  shows "bytes32_to_field4 (concat (map (le_bytes 8) xs)) = (xs :: u64 list)"
proof -
  obtain a b c d where xs: "xs = [a, b, c, d]" using assms by (auto simp: length_Suc_conv numeral_eq_Suc)
  have "[0..<4] = [0, 1, 2, 3 :: nat]" by (simp add: upt_rec)
  then show ?thesis by (simp add: xs bytes32_to_field4_def from_le_bytes_le_bytes)
qed

lemma poseidon2_permute_bytes:
  assumes "canonical_perm perm" "length input = 8"
  shows "poseidon2_permute perm input = bytes32_to_field4 (field8_to_bytes32 (perm (map as_canonical_u64 input)))"
proof -
  let ?s = "perm (map as_canonical_u64 input)"
  have s: "length ?s = 8" "canonical_words ?s" using assms by (simp_all add: canonical_perm_def)
  have "poseidon2_permute perm input = take 4 ?s"
    using s by (intro nth_equalityI) (simp_all add: poseidon2_permute_def Let_def canonical_nth)
  then show ?thesis using s(1) by (simp add: field8_to_bytes32_def bytes32_field_roundtrip)
qed

lemma length_bytes32_to_field4 [simp]: "length (bytes32_to_field4 b) = 4"
  by (simp add: bytes32_to_field4_def)

lemma list_of_four: "length xs = 4 \<Longrightarrow> xs = [xs ! 0, xs ! 1, xs ! 2, xs ! 3]"
  by (auto simp: length_Suc_conv numeral_eq_Suc)

lemma as_canonical_0 [simp]: "as_canonical_u64 0 = 0"
  by (simp add: as_canonical_u64_def)

lemma leaf_hash_agrees:
  assumes "canonical_perm perm"
  shows "poseidon2_permute perm (leaf_hash_input c idx) = bytes32_to_field4 (hash_imt_leaf perm c idx)"
proof -
  have len: "length (leaf_hash_input c idx) = 8" by (simp add: leaf_hash_input_def)
  obtain x y z u where c: "bytes32_to_field4 c = [x, y, z, u]"
    using list_of_four [OF length_bytes32_to_field4] by blast
  show ?thesis unfolding poseidon2_permute_bytes [OF assms len]
    by (simp add: leaf_hash_input_def hash_imt_leaf_def poseidon2_permute_t8_def reduced_limbs_def c
        DOMAIN_IMT_LEAF_LO_def DOMAIN_IMT_LEAF_HI_def Let_def)
qed

lemma node_hash_agrees:
  assumes "canonical_perm perm"
  shows "poseidon2_permute perm (node_hash_input (bytes32_to_field4 l) (bytes32_to_field4 r))
    = bytes32_to_field4 (hash_imt_node perm l r)"
proof -
  have len: "length (node_hash_input (bytes32_to_field4 l) (bytes32_to_field4 r)) = 8" by (simp add: node_hash_input_def)
  show ?thesis unfolding poseidon2_permute_bytes [OF assms len]
    by (simp add: node_hash_input_def hash_imt_node_def poseidon2_permute_t8_def reduced_limbs_def
        DOMAIN_IMT_NODE_LO_def DOMAIN_IMT_NODE_HI_def Let_def)
qed

lemma membership_root_agrees:
  assumes "canonical_perm perm" "length ss = MEMB_IMT_DEPTH"
  shows "snd (membership_trace_inputs perm \<lparr>mw_commitment = c, mw_leaf_index = idx, mw_siblings = map bytes32_to_field4 ss\<rparr>)
    = bytes32_to_field4 (fold (verify_level (hash_imt_node perm) ss idx) [0..<IMT_DEPTH] (hash_imt_leaf perm c idx))"
proof -
  let ?w = "\<lparr>mw_commitment = c, mw_leaf_index = idx, mw_siblings = map bytes32_to_field4 ss\<rparr>"
  have "snd (fold (membership_level perm ?w) ls (inputs, bytes32_to_field4 cur)) =
      bytes32_to_field4 (fold (verify_level (hash_imt_node perm) ss idx) ls cur)" if "set ls \<subseteq> {..<length ss}" for ls inputs cur
    using that
  proof (induction ls arbitrary: inputs cur)
    case (Cons l ls)
    then show ?case
      by (simp add: membership_level_def verify_level_def Let_def node_hash_agrees [OF assms(1)])
  qed simp
  from this [of "[0..<IMT_DEPTH]" "[leaf_hash_input c idx]" "hash_imt_leaf perm c idx"] show ?thesis
    using assms by (simp add: membership_trace_inputs_def leaf_hash_agrees IMT_DEPTH_def MEMB_IMT_DEPTH_def lessThan_atLeast0)
qed


section \<open>The honest ownership trace\<close>

definition honest_claim :: "(u64 list \<Rightarrow> u64 list) \<Rightarrow> input_witness \<Rightarrow> ownership_public_claim" where
  "honest_claim perm w = \<lparr>oc_expected_nullifier = compute_expected_nullifier perm w,
     oc_expected_commitment = compute_expected_commitment perm w\<rparr>"

lemma length_hash_inputs [simp]: "length (nullifier_input w) = 8" "length (commitment_input w) = 8"
  by (simp_all add: nullifier_input_def commitment_input_def)

lemma length_poseidon2_hash_p3 [simp]: "length (poseidon2_hash_p3 perm input) = 4"
  by (simp add: poseidon2_hash_p3_def Let_def)

lemma uint_field_reduce_mod: "uint (field_reduce v) mod GLP = uint (field_reduce v)"
  using gl_new_mod [of v] by (metis mod_mod_trivial)

lemma p2_row_output:
  assumes "poseidon2_circuit perm p2_eval p2_width p2_row" "length input = 8" "k < 4"
  shows "p2_row input ! (172 + k) mod GLP = gl_new (poseidon2_hash_p3 perm input ! k) mod GLP"
proof -
  have "canonical_words (perm (map as_canonical_u64 input))" "length (perm (map as_canonical_u64 input)) = 8"
    using poseidon2_circuitD(1) [OF assms(1)] assms(2) by (simp_all add: canonical_perm_def)
  then show ?thesis
    using poseidon2_circuitD(5) [OF assms] assms(3) canonical_nth [of "perm (map as_canonical_u64 input)" k]
    by (simp add: poseidon2_hash_p3_def Let_def gl_new_mod)
qed

lemma gl_new_mod_inject:
  "canonical_words xs \<Longrightarrow> canonical_words ys \<Longrightarrow> length xs = 4 \<Longrightarrow> length ys = 4 \<Longrightarrow>
    (\<forall>k<4. gl_new (xs ! k) mod GLP = gl_new (ys ! k) mod GLP) \<longleftrightarrow> xs = ys"
  by (auto simp: gl_new_mod canonical_nth intro!: nth_equalityI word_uint_eqI)

lemma canonical_poseidon2_hash_p3 [simp]: "canonical_words (poseidon2_hash_p3 perm input)"
  by (simp add: poseidon2_hash_p3_def Let_def canonical_words_def list_all_iff)

lemma honest_trace_accepts_iff:
  assumes circ: "poseidon2_circuit perm p2_eval p2_width p2_row" and ws: "ws \<noteq> []" "length ws \<le> 2 ^ 62"
  shows "\<exists>trace. build_ownership_trace p2_row ws = Some trace \<and> is_power_of_two (length trace)
    \<and> (boundary_accepts (ownership_eval p2_eval (length ws)) p2_width trace (build_ownership_public_values (map (honest_claim perm) ws))
      \<longleftrightarrow> is_power_of_two (length ws)
        \<or> compute_expected_commitment perm (last ws) = poseidon2_hash_p3 perm (replicate 8 0))"
proof -
  let ?n = "length ws" and ?claims = "map (honest_claim perm) ws"
  let ?inputs = "map nullifier_input ws @ map commitment_input ws"
  let ?pad = "replicate (next_power_of_two (2 * ?n) - 2 * ?n) (replicate P2_WIDTH 0) :: gl list list"
  define trace where "trace = map p2_row (?inputs @ ?pad)"
  have n: "2 * ?n \<le> 2 ^ 63" "0 < ?n" using ws by auto
  have built: "build_ownership_trace p2_row ws = Some trace"
    using ws by (simp add: build_ownership_trace_def trace_def mult_2)
  have len: "length trace = next_power_of_two (2 * ?n)"
    using next_power_of_two(1) [OF n(1)] by (simp add: trace_def)
  have inputs: "\<forall>i\<in>set (?inputs @ ?pad). length i = 8" by (auto simp: P2_WIDTH_def)
  have rows: "trace \<noteq> []" "\<forall>row\<in>set trace. length row = p2_width \<and> vanishes (p2_eval row)"
    using inputs poseidon2_circuitD(3,4) [OF circ] ws by (auto simp: trace_def)
  have wf: "list_all claim_wf ?claims" "?claims \<noteq> []"
    using ws by (auto simp: list_all_iff claim_wf_def honest_claim_def compute_expected_nullifier_def compute_expected_commitment_def)
  have pv: "length (build_ownership_public_values ?claims) = 8 * ?n" using ownership_pv(1) [OF wf, of 0] by simp
  have first: "hd trace = p2_row (nullifier_input (hd ws))" using ws by (simp add: trace_def hd_append hd_map)
  have last_eq: "last trace = p2_row (if is_power_of_two ?n then commitment_input (last ws) else replicate 8 0)"
  proof (cases "is_power_of_two ?n")
    case True
    then have "next_power_of_two (2 * ?n) = 2 * ?n"
      using next_power_of_two(3) [OF n(1)] is_power_of_two_double [OF ws(2) n(2)] by simp
    then show ?thesis using True ws by (simp add: trace_def last_map)
  next
    case False
    then have "next_power_of_two (2 * ?n) \<noteq> 2 * ?n"
      using next_power_of_two(3) [OF n(1)] is_power_of_two_double [OF ws(2) n(2)] by simp
    then have "2 * ?n < next_power_of_two (2 * ?n)" using next_power_of_two(1) [OF n(1)] by linarith
    then show ?thesis using False by (simp add: trace_def last_map last_append P2_WIDTH_def)
  qed
  note acc = ownership_accepts_iff [OF rows poseidon2_circuitD(2) [OF circ] n(2) pv]
  have hd_ok: "hd trace ! (172 + k) mod GLP = build_ownership_public_values ?claims ! k mod GLP" if "k < 4" for k
    using p2_row_output [OF circ length_hash_inputs(1) that] ownership_pv(2) [OF wf that] ws
    by (simp add: first hd_map honest_claim_def compute_expected_nullifier_def)
  have "(\<forall>k<4. last trace ! (172 + k) mod GLP = build_ownership_public_values ?claims ! ((2 * ?n - 1) * 4 + k) mod GLP)
      \<longleftrightarrow> (\<forall>k<4. gl_new (poseidon2_hash_p3 perm (if is_power_of_two ?n then commitment_input (last ws) else replicate 8 0) ! k) mod GLP
        = gl_new (compute_expected_commitment perm (last ws) ! k) mod GLP)"
    using p2_row_output [OF circ, of "if is_power_of_two ?n then commitment_input (last ws) else replicate 8 0"]
      ownership_pv(3) [OF wf] ws by (simp add: last_eq last_map honest_claim_def)
  also have "\<dots> \<longleftrightarrow> poseidon2_hash_p3 perm (if is_power_of_two ?n then commitment_input (last ws) else replicate 8 0)
      = compute_expected_commitment perm (last ws)"
    by (intro gl_new_mod_inject) (simp_all add: compute_expected_commitment_def)
  finally show ?thesis using acc hd_ok built len next_power_of_two(2) [OF n(1)]
    by (auto simp: compute_expected_commitment_def)
qed


section \<open>The membership and non-membership circuits\<close>

lemma membership_rows_accepted:
  assumes "poseidon2_circuit perm p2_eval p2_width p2_row" "\<forall>i\<in>set inputs. length i = 8" "inputs \<noteq> []" "length inputs \<le> 2 ^ 63"
  shows "air_accepts (membership_eval p2_eval) p2_width (inputs_to_trace p2_row inputs) pv
    \<and> is_power_of_two (length (inputs_to_trace p2_row inputs))"
proof
  have "length (replicate P2_WIDTH 0) = 8" by (simp add: P2_WIDTH_def)
  with assms(2) show "air_accepts (membership_eval p2_eval) p2_width (inputs_to_trace p2_row inputs) pv"
    using poseidon2_circuitD(3,4) [OF assms(1)] assms(3) unfolding inputs_to_trace_def
    by (auto simp del: length_replicate simp: air_accepts_def list_all_iff membership_eval_def)
  show "is_power_of_two (length (inputs_to_trace p2_row inputs))"
    using next_power_of_two(1,2) [OF assms(4)] by (simp add: inputs_to_trace_def)
qed

text \<open>The bit column of every row of the builder is boolean, whatever the path is.\<close>

lemma nullifier_bit_boolean: "nullifier_bit nullifier level = 0 \<or> nullifier_bit nullifier level = 1"
proof -
  have "w AND 1 = 0 \<or> w AND 1 = 1" for w :: u8 by (auto simp: and_one_eq mod_2_eq_odd)
  then show ?thesis unfolding nullifier_bit_def by (metis ucast_0 ucast_1)
qed

lemma length_one_proof_rows: "length (build_one_proof_rows perm w) = 32"
  by (simp add: build_one_proof_rows_def NONMEMB_SMT_DEPTH_def Let_def)

lemma one_proof_row:
  assumes "row \<in> set (build_one_proof_rows perm w)"
  shows "length row = 14" "row ! 12 = 0 \<or> row ! 12 = 1"
proof -
  obtain level xs where row: "row = xs @ [gl_new (nullifier_bit (nw_nullifier w) level), gl_new (of_nat level)]" "length xs = 12"
    using assms by (fastforce simp: build_one_proof_rows_def Let_def)
  show "length row = 14" using row by simp
  show "row ! 12 = 0 \<or> row ! 12 = 1"
    using row nullifier_bit_boolean [of "nw_nullifier w" level] by (auto simp: nth_append gl_new_def)
qed

lemma nonmembership_rows_accepted:
  assumes "32 * length ws \<le> 2 ^ 63"
  shows "air_accepts nonmembership_eval NONMEMB_TRACE_WIDTH (build_nonmembership_trace perm ws) pv
    \<and> is_power_of_two (length (build_nonmembership_trace perm ws))"
proof
  define rows where "rows = concat (map (build_one_proof_rows perm) ws)"
  define padded where "padded = max (next_power_of_two (length rows)) 2"
  have "length rows = 32 * length ws" by (simp add: rows_def length_concat o_def length_one_proof_rows sum_list_triv)
  then have n: "length rows \<le> next_power_of_two (length rows)" "is_power_of_two (next_power_of_two (length rows))"
    using next_power_of_two [of "length rows"] assms by simp_all
  have trace: "build_nonmembership_trace perm ws = rows @ replicate (padded - length rows) (replicate 14 0)"
    by (simp add: build_nonmembership_trace_def rows_def padded_def Let_def NONMEMB_TRACE_WIDTH_def)
  have "length row = 14 \<and> (row ! 12 = 0 \<or> row ! 12 = 1)" if "row \<in> set (build_nonmembership_trace perm ws)" for row
  proof -
    have "(\<exists>w. row \<in> set (build_one_proof_rows perm w)) \<or> row = replicate 14 0"
      using that unfolding trace rows_def by (auto split: if_splits)
    then show ?thesis using one_proof_row [of row perm] by auto
  qed
  moreover have len: "length (build_nonmembership_trace perm ws) = padded" using n(1) by (simp add: trace padded_def)
  moreover have "0 < padded" by (simp add: padded_def)
  ultimately show "air_accepts nonmembership_eval NONMEMB_TRACE_WIDTH (build_nonmembership_trace perm ws) pv"
    unfolding air_accepts_def list_all_iff
    by (fastforce simp: nonmembership_eval_def asserts COL_BIT_def NONMEMB_TRACE_WIDTH_def)
  have "is_power_of_two 2" by (auto simp: is_power_of_two_iff intro!: exI [of _ 1])
  then show "is_power_of_two (length (build_nonmembership_trace perm ws))"
    using n(2) len by (auto simp: padded_def max_def)
qed

lemma membership_inputs_length:
  "list_all (\<lambda>i. length i = 8) (fst (membership_trace_inputs perm w)) \<and> length (fst (membership_trace_inputs perm w)) = 33"
proof -
  have "list_all (\<lambda>i. length i = 8) (fst (fold (membership_level perm w) ls st))
      \<and> length (fst (fold (membership_level perm w) ls st)) = length (fst st) + length ls"
    if "list_all (\<lambda>i. length i = 8) (fst st)" for ls st
    using that
  proof (induction ls arbitrary: st)
    case (Cons l ls)
    have "list_all (\<lambda>i. length i = 8) (fst (membership_level perm w l st))"
      "length (fst (membership_level perm w l st)) = Suc (length (fst st))"
      using Cons.prems by (auto simp: membership_level_def Let_def node_hash_input_def split: prod.splits)
    then show ?case using Cons.IH by simp
  qed simp
  from this [of "([leaf_hash_input (mw_commitment w) (mw_leaf_index w)], poseidon2_permute perm (leaf_hash_input (mw_commitment w) (mw_leaf_index w)))" "[0..<32]"]
  show ?thesis by (simp add: membership_trace_inputs_def MEMB_IMT_DEPTH_def leaf_hash_input_def Let_def)
qed

lemma validate_membership_roots_iff:
  "validate_membership_roots roots r = Inr () \<longleftrightarrow> (\<forall>x\<in>set roots. x = r)"
  by (induction roots) auto

lemma preflight_all_iff: "preflight_all perm claim ws = Inr () \<longleftrightarrow> (\<forall>w\<in>set ws. preflight_check perm w claim = Inr ())"
  by (induction ws) (auto split: sum.splits)

section \<open>Properties\<close>

text \<open>A circuit that meets the documented contract, for the examples.\<close>

definition sample_row :: "gl list \<Rightarrow> gl list" where
  "sample_row input = replicate 172 0 @ map (\<lambda>e. uint (field_reduce (as_canonical_u64 e))) (take 4 input)"

lemma sample_circuit: "poseidon2_circuit (map field_reduce) (\<lambda>_. []) 176 sample_row"
proof -
  have "\<exists>xs. length xs = 8 \<and> canonical_words xs \<and> map field_reduce xs = ys" if "length ys = 8" "canonical_words ys" for ys
    using that by (intro exI [of _ ys]) (simp add: canonical_words_def list_all_iff map_idI)
  moreover have "sample_row input ! (172 + k) mod GLP = uint (map field_reduce (map as_canonical_u64 input) ! k)"
    if "length input = 8" "k < 4" for input k
    using that by (simp add: sample_row_def nth_append uint_field_reduce_mod)
  ultimately show ?thesis by (auto simp: poseidon2_circuit_def canonical_perm_def sample_row_def)
qed

definition sample_input :: "u64 \<Rightarrow> input_witness" where
  "sample_input v = \<lparr>iw_secret = 7, iw_value = v, iw_owner_pubkey_lo = 1, iw_owner_pubkey_hi = 2, iw_salt = 3,
     iw_spending_key_lo = 4, iw_spending_key_hi = 5, iw_birth_epoch = 6\<rparr>"

text \<open>The ownership proof establishes no ownership: for every list of claimed nullifiers and commitments there is
  an accepted trace.  The circuit binds four output words of the first and of the last row to public
  values but leaves the inputs of the permutation free, and the permutation reaches every output.\<close>

theorem ownership_binds_nothing:
  assumes "poseidon2_circuit perm p2_eval p2_width p2_row" "list_all claim_wf claims" "claims \<noteq> []"
  shows "\<exists>trace. is_power_of_two (length trace)
    \<and> boundary_accepts (ownership_eval p2_eval (length claims)) p2_width trace (build_ownership_public_values claims)"
  by (rule two_rows_accepted [OF assms(1), of "oc_expected_nullifier (hd claims)" "oc_expected_commitment (last claims)"])
    (use assms ownership_pv [OF assms(2,3)] ownership_pv(1) [OF assms(2,3), of 0] in \<open>auto simp: list_all_iff claim_wf_def\<close>)

theorem ownership_binds_nothing_witness:
  "\<exists>trace. is_power_of_two (length trace) \<and> boundary_accepts (ownership_eval (\<lambda>_. []) 1) 176 trace
    (build_ownership_public_values [\<lparr>oc_expected_nullifier = [1, 2, 3, 4], oc_expected_commitment = [5, 6, 7, 8]\<rparr>])"
  using ownership_binds_nothing [OF sample_circuit, of "[\<lparr>oc_expected_nullifier = [1, 2, 3, 4], oc_expected_commitment = [5, 6, 7, 8]\<rparr>]"]
  by (simp add: claim_wf_def)

text \<open>C39. The honest ownership prover: the trace built from the witnesses is accepted for the claims computed from
  them exactly when the number of inputs is a power of two (or the last commitment happens to be the hash
  of the zero state): otherwise the last row is padding, and the circuit binds the last commitment to it.
  So a transfer of three inputs cannot be proved.\<close>

theorem ownership_needs_power_of_two:
  assumes "poseidon2_circuit perm p2_eval p2_width p2_row" "ws \<noteq> []" "length ws \<le> 2 ^ 62"
  shows "\<exists>trace. build_ownership_trace p2_row ws = Some trace \<and> is_power_of_two (length trace)
    \<and> (boundary_accepts (ownership_eval p2_eval (length ws)) p2_width trace (build_ownership_public_values (map (honest_claim perm) ws))
      \<longleftrightarrow> is_power_of_two (length ws)
        \<or> compute_expected_commitment perm (last ws) = poseidon2_hash_p3 perm (replicate 8 0))"
  by (rule honest_trace_accepts_iff [OF assms])

lemma not_power_of_two_3: "\<not> is_power_of_two 3"
proof
  assume "is_power_of_two 3"
  then obtain k where "(3 :: nat) = 2 ^ k" by (auto simp: is_power_of_two_iff)
  then show False by (cases k) (auto, presburger)
qed

theorem ownership_needs_power_of_two_witness:
  "\<exists>trace. build_ownership_trace sample_row [sample_input 1, sample_input 2, sample_input 3] = Some trace
    \<and> \<not> boundary_accepts (ownership_eval (\<lambda>_. []) 3) 176 trace
        (build_ownership_public_values (map (honest_claim (map field_reduce)) [sample_input 1, sample_input 2, sample_input 3]))"
proof -
  let ?ws = "[sample_input 1, sample_input 2, sample_input 3]"
  have "compute_expected_commitment (map field_reduce) (last ?ws) ! 1 \<noteq> poseidon2_hash_p3 (map field_reduce) (replicate 8 0) ! 1"
    by (simp add: compute_expected_commitment_def poseidon2_hash_p3_def commitment_input_def sample_input_def Let_def field_reduce_def GOLDILOCKS_PRIME_def)
  then have "compute_expected_commitment (map field_reduce) (last ?ws) \<noteq> poseidon2_hash_p3 (map field_reduce) (replicate 8 0)"
    by metis
  moreover have three: "length ?ws = 3" by simp
  ultimately show ?thesis
    using ownership_needs_power_of_two [OF sample_circuit, of ?ws, unfolded three] not_power_of_two_3 by auto
qed

definition tree_witness :: "(u64 list \<Rightarrow> u64 list) \<Rightarrow> bytes list \<Rightarrow> nat \<Rightarrow> membership_witness" where
  "tree_witness perm cs i =
     \<lparr>mw_commitment = cs ! i, mw_leaf_index = of_nat i,
      mw_siblings = (case prove_membership perm (imt_appends perm cs imt_new) (of_nat i) of
         Inr path \<Rightarrow> map bytes32_to_field4 (ip_siblings path) | Inl _ \<Rightarrow> [])\<rparr>"

lemma tree_witness_root:
  assumes "canonical_perm perm" "length cs \<le> 2 ^ 32" "i < length cs"
  shows "snd (membership_trace_inputs perm (tree_witness perm cs i)) = bytes32_to_field4 (imt_root perm (imt_appends perm cs imt_new))"
proof -
  obtain path where path: "prove_membership perm (imt_appends perm cs imt_new) (of_nat i) = Inr path"
    "length (ip_siblings path) = IMT_DEPTH"
    "fold (verify_level (hash_imt_node perm) (ip_siblings path) (of_nat i)) [0..<IMT_DEPTH]
        (hash_imt_leaf perm (cs ! i) (of_nat i)) = imt_root perm (imt_appends perm cs imt_new)"
    using imt_path_climbs [OF assms(2,3), of perm] by blast
  then show ?thesis
    using membership_root_agrees [OF assms(1), of "ip_siblings path" "cs ! i" "of_nat i"]
    by (simp add: tree_witness_def IMT_DEPTH_def MEMB_IMT_DEPTH_def)
qed

text \<open>C15. The tree and the membership prover fit together: a witness made from the path that \<open>prove_membership\<close>
  returns for a leaf of the incremental tree reconstructs, in the field representation of the circuit, the root of
  the tree, so it passes the check before proving.  The two implementations of leaf and node hashing agree.\<close>

theorem membership_pipeline:
  assumes "canonical_perm perm" "length cs \<le> 2 ^ 32" "\<forall>i\<in>set is. i < length cs"
  shows "validate_membership_roots (snd (build_membership_trace perm (map (tree_witness perm cs) is)))
    (bytes32_to_field4 (imt_root perm (imt_appends perm cs imt_new))) = Inr ()"
  using assms by (simp add: validate_membership_roots_iff build_membership_trace_def tree_witness_root)


theorem membership_pipeline_witness:
  "validate_membership_roots
     (snd (build_membership_trace (map field_reduce) (map (tree_witness (map field_reduce) [replicate 32 1, replicate 32 2]) [1, 0])))
     (bytes32_to_field4 (imt_root (map field_reduce) (imt_appends (map field_reduce) [replicate 32 1, replicate 32 2] imt_new))) = Inr ()"
  by (rule membership_pipeline) (simp_all add: poseidon2_circuitD(1) [OF sample_circuit])

end
