(* ===== verification/Proof_Batch.thy ===== *)
theory Proof_Batch
  imports Subproof_Circuits
begin

text \<open>
  A complete transfer proof and the aggregation of many (\<open>core/scalar-stark-p3/src/batch_transfer_p3.rs\<close>,
  \<open>starkpack_p3.rs\<close>): the public claims derived from the witnesses, the four sub-proofs of the previous
  theories, and the Fiat-Shamir transcript over a batch sorted by ordering key.  BLAKE3, the
  serialisation of proofs and the proof system are parameters.
\<close>

section \<open>A complete transfer\<close>

datatype utxo_source = SubEpochIMT | EpochSMT

record transfer_witnesses =
  tw_ownership :: "input_witness list"
  tw_membership :: "membership_witness list"
  tw_nonmembership_active :: "nonmembership_witness list"
  tw_nonmembership_archived :: "nonmembership_witness list"

record transfer_public_claims =
  tc_pi :: transfer_public_inputs
  tc_ownership_claims :: "ownership_public_claim list"
  tc_membership_claim :: membership_public_claim
  tc_nonmembership_claim :: nonmembership_public_claim

record batch_transfer_proof =
  bt_ca_proof :: bytes
  bt_cb_proof :: bytes
  bt_cc_proof :: bytes
  bt_cdcecg_proof :: bytes

definition total_bytes :: "batch_transfer_proof \<Rightarrow> nat" where
  "total_bytes p = length (bt_ca_proof p) + length (bt_cb_proof p) + length (bt_cc_proof p) + length (bt_cdcecg_proof p)"

datatype batch_transfer_error =
    OwnershipFailed ownership_p3_error
  | MembershipFailed membership_p3_error
  | NonMembershipFailed nonmembership_p3_error
  | TransferFailed transfer_p3_error
  | WitnessCountMismatch nat nat nat nat
  | EmptyWitnesses
  | MissingIMTPath nat
  | EpochSmtNotImplemented
  | ConservationViolated u64 u64
  | OtherError
  | WitnessTreeMismatch nat sparse_tree sparse_tree

text \<open>The index at which a loop over a list returns early.\<close>

definition first_index :: "('x \<Rightarrow> bool) \<Rightarrow> 'x list \<Rightarrow> nat option" where
  "first_index P xs = find (\<lambda>i. P (xs ! i)) [0..<length xs]"

definition witness_counts :: "transfer_witnesses \<Rightarrow> batch_transfer_error" where
  "witness_counts w = WitnessCountMismatch (length (tw_ownership w)) (length (tw_membership w))
     (length (tw_nonmembership_active w)) (length (tw_nonmembership_archived w))"

definition validate_witnesses :: "transfer_witnesses \<Rightarrow> batch_transfer_error + nat" where
  "validate_witnesses w =
     (let n = length (tw_ownership w)
      in if n = 0 then Inl EmptyWitnesses
         else if length (tw_membership w) \<noteq> n \<or> length (tw_nonmembership_active w) \<noteq> n
           \<or> length (tw_nonmembership_archived w) \<noteq> n then Inl (witness_counts w)
         else case first_index (\<lambda>a. nw_tree a \<noteq> TreeActive) (tw_nonmembership_active w) of
             Some i \<Rightarrow> Inl (WitnessTreeMismatch i TreeActive TreeArchived)
           | None \<Rightarrow> (case first_index (\<lambda>a. nw_tree a \<noteq> TreeArchived) (tw_nonmembership_archived w) of
               Some i \<Rightarrow> Inl (WitnessTreeMismatch i TreeArchived TreeActive)
             | None \<Rightarrow> Inr n))"

definition derive_utxo_source :: "transfer_witnesses \<Rightarrow> batch_transfer_error + utxo_source" where
  "derive_utxo_source w =
     (case first_index (\<lambda>m. list_all (\<lambda>s. s = [0, 0, 0, 0]) (mw_siblings m)) (tw_membership w) of
        Some i \<Rightarrow> Inl (MissingIMTPath i)
      | None \<Rightarrow> Inr SubEpochIMT)"

definition checked_sum :: "u64 list \<Rightarrow> u64 option" where
  "checked_sum vs = fold (\<lambda>v acc. case acc of None \<Rightarrow> None | Some a \<Rightarrow> checked_add a v) vs (Some 0)"

definition hash_bytes32 :: "u64 list \<Rightarrow> bytes" where
  "hash_bytes32 h = concat (map (\<lambda>i. le_bytes 8 (h ! i)) [0..<4])"

definition derive_public_claims ::
  "(u64 list \<Rightarrow> u64 list) \<Rightarrow> transfer_witnesses \<Rightarrow> transfer_public_inputs \<Rightarrow> u64 list \<Rightarrow> batch_transfer_error + transfer_public_claims" where
  "derive_public_claims perm w pi imt_root_limbs =
     (case validate_witnesses w of
        Inl e \<Rightarrow> Inl e
      | Inr n \<Rightarrow> (case derive_utxo_source w of
          Inl e \<Rightarrow> Inl e
        | Inr src \<Rightarrow>
            if src = EpochSMT then Inl EpochSmtNotImplemented
            else
              let ownership_claims = map (\<lambda>iw. \<lparr>oc_expected_nullifier = compute_expected_nullifier perm iw,
                    oc_expected_commitment = compute_expected_commitment perm iw\<rparr>) (tw_ownership w);
                  membership_claim = \<lparr>mp_expected_root = imt_root_limbs,
                    mp_leaf_commitments = map mw_commitment (tw_membership w),
                    mp_leaf_indices = map mw_leaf_index (tw_membership w)\<rparr>;
                  nonmembership_claim = \<lparr>np_nullifier = nw_nullifier (tw_nonmembership_active w ! 0),
                    np_active_root = tp_nullifier_active_root pi, np_archived_root = tp_nullifier_archived_root pi\<rparr>
              in case checked_sum (map iw_value (tw_ownership w)) of
                  None \<Rightarrow> Inl (witness_counts w)
                | Some witness_sum \<Rightarrow>
                    let pi1 = pi\<lparr>tp_sum_inputs_sscl := witness_sum, tp_single_utxo_source := (src = SubEpochIMT)\<rparr>;
                        claimed_sum = saturating_add (tp_sum_outputs_sscl pi1) (tp_fee_total_sscl pi1)
                    in if witness_sum \<noteq> claimed_sum then Inl (ConservationViolated witness_sum claimed_sum)
                       else
                         let pi2 = pi1\<lparr>
                               tp_commitment_hash := compute_commitment_hash perm
                                 (map (\<lambda>c. hash_bytes32 (oc_expected_commitment c)) ownership_claims),
                               tp_nullifier_hash := compute_nullifier_hash perm
                                 (map (\<lambda>c. hash_bytes32 (oc_expected_nullifier c)) ownership_claims)\<rparr>
                         in Inr \<lparr>tc_pi = pi2, tc_ownership_claims = ownership_claims,
                              tc_membership_claim = membership_claim, tc_nonmembership_claim = nonmembership_claim\<rparr>))"

type_synonym row_air = "gl list \<Rightarrow> gl list \<Rightarrow> gl list"

text \<open>\<open>None\<close> is a panic of the trace builders.\<close>

definition prove_batch_transfer ::
  "(u64 list \<Rightarrow> u64 list) \<Rightarrow> (gl list \<Rightarrow> gl list) \<Rightarrow> (gl list \<Rightarrow> gl list)
   \<Rightarrow> (row_air \<Rightarrow> gl list list \<Rightarrow> gl list \<Rightarrow> bytes option) \<Rightarrow> (boundary_air \<Rightarrow> gl list list \<Rightarrow> gl list \<Rightarrow> bytes option)
   \<Rightarrow> transfer_witnesses \<Rightarrow> transfer_public_claims \<Rightarrow> (batch_transfer_error + batch_transfer_proof) option" where
  "prove_batch_transfer perm p2_eval p2_row prove bprove w claims =
     (case validate_witnesses w of
        Inl e \<Rightarrow> Some (Inl e)
      | Inr n \<Rightarrow> (case prove_ownership_p3 p2_eval p2_row bprove (tw_ownership w) (tc_ownership_claims claims) of
          None \<Rightarrow> None
        | Some (Inl e) \<Rightarrow> Some (Inl (OwnershipFailed e))
        | Some (Inr ca) \<Rightarrow> (case prove_membership_p3 perm p2_eval p2_row prove (tw_membership w) (tc_membership_claim claims) of
            Inl e \<Rightarrow> Some (Inl (MembershipFailed e))
          | Inr cb \<Rightarrow>
              let cc_witnesses = concat (map2 (\<lambda>a ar. [a, ar]) (tw_nonmembership_active w) (tw_nonmembership_archived w))
              in case prove_nonmembership_p3 perm prove cc_witnesses (tc_nonmembership_claim claims) of
                  Inl e \<Rightarrow> Some (Inl (NonMembershipFailed e))
                | Inr cc \<Rightarrow> (case prove_transfer_p3 perm prove (tc_pi claims) of
                    None \<Rightarrow> None
                  | Some (Inl e) \<Rightarrow> Some (Inl (TransferFailed e))
                  | Some (Inr cdcecg) \<Rightarrow> Some (Inr \<lparr>bt_ca_proof = ca, bt_cb_proof = cb, bt_cc_proof = cc,
                      bt_cdcecg_proof = cdcecg\<rparr>)))))"

definition verify_batch_transfer ::
  "(gl list \<Rightarrow> gl list) \<Rightarrow> nat \<Rightarrow> (bytes \<Rightarrow> 'proof option) \<Rightarrow> (row_air \<Rightarrow> nat \<Rightarrow> 'proof \<Rightarrow> gl list \<Rightarrow> bool)
   \<Rightarrow> (boundary_air \<Rightarrow> nat \<Rightarrow> 'proof \<Rightarrow> gl list \<Rightarrow> bool) \<Rightarrow> batch_transfer_proof \<Rightarrow> transfer_public_claims
   \<Rightarrow> batch_transfer_error + unit" where
  "verify_batch_transfer p2_eval p2_width decode verify bverify p claims =
     (case verify_ownership_p3 p2_eval p2_width decode bverify (bt_ca_proof p) (tc_ownership_claims claims) of
        Inl e \<Rightarrow> Inl (OwnershipFailed e)
      | Inr _ \<Rightarrow> (case verify_membership_p3 p2_eval p2_width decode verify (bt_cb_proof p) (tc_membership_claim claims) of
          Inl e \<Rightarrow> Inl (MembershipFailed e)
        | Inr _ \<Rightarrow> (case verify_nonmembership_p3 decode verify (bt_cc_proof p) (tc_nonmembership_claim claims) of
            Inl e \<Rightarrow> Inl (NonMembershipFailed e)
          | Inr _ \<Rightarrow> (case verify_transfer_p3 decode verify (bt_cdcecg_proof p) (tc_pi claims) of
              Inl e \<Rightarrow> Inl (TransferFailed e)
            | Inr _ \<Rightarrow> Inr ()))))"

section \<open>Aggregation\<close>

definition STARK_MAX_BATCH_SIZE :: nat where
  "STARK_MAX_BATCH_SIZE = 256"

definition DOMAIN_SUBEPOCH_FS :: bytes where
  "DOMAIN_SUBEPOCH_FS = ascii ''scalar_subepoch_fs''"

definition DOMAIN_STARK_BATCH :: bytes where
  "DOMAIN_STARK_BATCH = ascii ''scalar_stark_batch''"

definition TRANSFER_CONSTRAINT_COUNT :: u32 where
  "TRANSFER_CONSTRAINT_COUNT = 4"

record real_proof_input =
  rp_proof_bytes :: bytes
  rp_public_inputs :: transfer_public_inputs
  rp_tx_ordering_key :: bytes

record starkpack_batch =
  sb_n :: nat
  sb_transcript_hash :: bytes
  sb_global_fri_root :: bytes
  sb_proof_hashes :: "bytes list"

datatype real_aggregate_error = InvalidBatchSize nat nat | EmptyBatch | ProofVerificationFailed nat | DeserializationFailed nat

text \<open>A verifier that panics is caught and counts as a refusal.\<close>

definition verify_batch_proof_with_pi ::
  "(bytes \<Rightarrow> 'proof option) \<Rightarrow> (row_air \<Rightarrow> nat \<Rightarrow> 'proof \<Rightarrow> gl list \<Rightarrow> bool)
   \<Rightarrow> batch_transfer_proof \<Rightarrow> transfer_public_inputs \<Rightarrow> nat \<Rightarrow> real_aggregate_error + unit" where
  "verify_batch_proof_with_pi decode verify p pi index =
     (if bt_ca_proof p = [] \<or> bt_cb_proof p = [] \<or> bt_cc_proof p = [] \<or> bt_cdcecg_proof p = []
      then Inl (ProofVerificationFailed index)
      else case verify_transfer_p3 decode verify (bt_cdcecg_proof p) pi of
          Inr _ \<Rightarrow> Inr ()
        | Inl _ \<Rightarrow> Inl (ProofVerificationFailed index))"

definition pi_bytes :: "transfer_public_inputs \<Rightarrow> bytes" where
  "pi_bytes pi = concat (map (\<lambda>fe. le_bytes 8 (as_canonical_u64 fe)) (to_goldilocks pi))"

text \<open>What one proof adds to the transcript of phase 1; a hasher is the string it has absorbed.\<close>

definition absorb_proof :: "(bytes \<Rightarrow> bytes) \<Rightarrow> real_proof_input \<Rightarrow> bytes" where
  "absorb_proof blake3 inp =
     DOMAIN_SUBEPOCH_FS @ blake3 (rp_proof_bytes inp) @ blake3 (pi_bytes (rp_public_inputs inp))
     @ le_bytes 4 TRANSFER_CONSTRAINT_COUNT"

text \<open>The loop over the sorted inputs: \<open>check\<close> is the check of one proof, the accumulators are the transcript
  and the proof hashes.\<close>

primrec absorb_loop ::
  "(bytes \<Rightarrow> bytes) \<Rightarrow> (nat \<Rightarrow> real_proof_input \<Rightarrow> real_aggregate_error option) \<Rightarrow> real_proof_input list \<Rightarrow> nat
   \<Rightarrow> bytes \<times> bytes list \<Rightarrow> real_aggregate_error + bytes \<times> bytes list" where
  "absorb_loop blake3 check [] index st = Inr st"
| "absorb_loop blake3 check (inp # inps) index st =
     (case check index inp of
        Some e \<Rightarrow> Inl e
      | None \<Rightarrow> absorb_loop blake3 check inps (index + 1)
          (fst st @ absorb_proof blake3 inp, snd st @ [blake3 (rp_proof_bytes inp)]))"

definition finish_batch :: "(bytes \<Rightarrow> bytes) \<Rightarrow> nat \<Rightarrow> bytes \<Rightarrow> bytes list \<Rightarrow> starkpack_batch" where
  "finish_batch blake3 n transcript proof_hashes =
     (let xi_seed = blake3 transcript;
          n_bytes = le_bytes 4 (of_nat n :: u32);
          global_fri_root = blake3 (DOMAIN_STARK_BATCH @ n_bytes @ xi_seed @ concat proof_hashes);
          transcript_hash = blake3 (xi_seed @ global_fri_root @ n_bytes)
      in \<lparr>sb_n = n, sb_transcript_hash = transcript_hash, sb_global_fri_root = global_fri_root,
          sb_proof_hashes = proof_hashes\<rparr>)"

definition aggregate_with ::
  "(bytes \<Rightarrow> bytes) \<Rightarrow> (nat \<Rightarrow> real_proof_input \<Rightarrow> real_aggregate_error option) \<Rightarrow> real_proof_input list
   \<Rightarrow> real_aggregate_error + starkpack_batch" where
  "aggregate_with blake3 check inputs =
     (let n = length inputs
      in if n = 0 then Inl EmptyBatch
         else if n > STARK_MAX_BATCH_SIZE then Inl (InvalidBatchSize n STARK_MAX_BATCH_SIZE)
         else case absorb_loop blake3 check (sort_key rp_tx_ordering_key inputs) 0 ([], []) of
             Inl e \<Rightarrow> Inl e
           | Inr (transcript, proof_hashes) \<Rightarrow> Inr (finish_batch blake3 n transcript proof_hashes))"

definition check_real_proof ::
  "(bytes \<Rightarrow> batch_transfer_proof option) \<Rightarrow> (bytes \<Rightarrow> 'proof option) \<Rightarrow> (row_air \<Rightarrow> nat \<Rightarrow> 'proof \<Rightarrow> gl list \<Rightarrow> bool)
   \<Rightarrow> nat \<Rightarrow> real_proof_input \<Rightarrow> real_aggregate_error option" where
  "check_real_proof decode_batch decode verify index inp =
     (case decode_batch (rp_proof_bytes inp) of
        None \<Rightarrow> Some (DeserializationFailed index)
      | Some p \<Rightarrow> (case verify_batch_proof_with_pi decode verify p (rp_public_inputs inp) index of
          Inl e \<Rightarrow> Some e | Inr _ \<Rightarrow> None))"

definition aggregate_real_proofs ::
  "(bytes \<Rightarrow> bytes) \<Rightarrow> (bytes \<Rightarrow> batch_transfer_proof option) \<Rightarrow> (bytes \<Rightarrow> 'proof option)
   \<Rightarrow> (row_air \<Rightarrow> nat \<Rightarrow> 'proof \<Rightarrow> gl list \<Rightarrow> bool) \<Rightarrow> real_proof_input list \<Rightarrow> real_aggregate_error + starkpack_batch" where
  "aggregate_real_proofs blake3 decode_batch decode verify = aggregate_with blake3 (check_real_proof decode_batch decode verify)"

definition aggregate_for_fuzz :: "(bytes \<Rightarrow> bytes) \<Rightarrow> real_proof_input list \<Rightarrow> real_aggregate_error + starkpack_batch" where
  "aggregate_for_fuzz blake3 =
     aggregate_with blake3 (\<lambda>index inp. if rp_proof_bytes inp = [] then Some (ProofVerificationFailed index) else None)"

section \<open>The proof system\<close>

text \<open>What is asked of the proof system: an accepted trace of a height that is a power of two has a proof that decodes
  and verifies, and a proof that verifies comes from an accepted trace.\<close>

definition stark ::
  "(bytes \<Rightarrow> 'proof option) \<Rightarrow> (row_air \<Rightarrow> gl list list \<Rightarrow> gl list \<Rightarrow> bytes option) \<Rightarrow> (row_air \<Rightarrow> nat \<Rightarrow> 'proof \<Rightarrow> gl list \<Rightarrow> bool) \<Rightarrow> bool" where
  "stark decode prove verify \<longleftrightarrow>
     (\<forall>eval width trace pv. air_accepts eval width trace pv \<and> is_power_of_two (length trace) \<longrightarrow>
        (\<exists>b p. prove eval trace pv = Some b \<and> decode b = Some p \<and> verify eval width p pv))
     \<and> (\<forall>eval width b p pv. decode b = Some p \<and> verify eval width p pv \<longrightarrow> (\<exists>trace. air_accepts eval width trace pv))"

definition boundary_stark ::
  "(bytes \<Rightarrow> 'proof option) \<Rightarrow> (boundary_air \<Rightarrow> gl list list \<Rightarrow> gl list \<Rightarrow> bytes option) \<Rightarrow> (boundary_air \<Rightarrow> nat \<Rightarrow> 'proof \<Rightarrow> gl list \<Rightarrow> bool) \<Rightarrow> bool" where
  "boundary_stark decode prove verify \<longleftrightarrow>
     (\<forall>eval width trace pv. boundary_accepts eval width trace pv \<and> is_power_of_two (length trace) \<longrightarrow>
        (\<exists>b p. prove eval trace pv = Some b \<and> decode b = Some p \<and> verify eval width p pv))
     \<and> (\<forall>eval width b p pv. decode b = Some p \<and> verify eval width p pv \<longrightarrow> (\<exists>trace. boundary_accepts eval width trace pv))"

lemma starkD:
  assumes "stark decode prove verify"
  shows "air_accepts eval width trace pv \<Longrightarrow> is_power_of_two (length trace) \<Longrightarrow>
      \<exists>b p. prove eval trace pv = Some b \<and> decode b = Some p \<and> verify eval width p pv"
    "decode b = Some p \<Longrightarrow> verify eval width p pv \<Longrightarrow> \<exists>trace. air_accepts eval width trace pv"
  using assms unfolding stark_def by blast+

lemma boundary_starkD:
  assumes "boundary_stark decode prove verify"
  shows "boundary_accepts eval width trace pv \<Longrightarrow> is_power_of_two (length trace) \<Longrightarrow>
      \<exists>b p. prove eval trace pv = Some b \<and> decode b = Some p \<and> verify eval width p pv"
  using assms unfolding boundary_stark_def by blast

text \<open>An ideal proof system: the proof is the trace.\<close>

definition ideal_decode :: "bytes \<Rightarrow> gl list list option" where
  "ideal_decode b = Some (from_nat (length b))"

definition ideal_prove :: "'air \<Rightarrow> gl list list \<Rightarrow> gl list \<Rightarrow> bytes option" where
  "ideal_prove eval trace pv = Some (replicate (to_nat trace) 0)"

lemma ideal_stark: "stark ideal_decode ideal_prove air_accepts" "boundary_stark ideal_decode ideal_prove boundary_accepts"
  by (auto simp: stark_def boundary_stark_def ideal_decode_def ideal_prove_def)

lemma air_accepts_hd: "air_accepts eval width trace pv \<Longrightarrow> air_accepts eval width [hd trace] pv"
  by (auto simp: air_accepts_def list_all_iff)

lemma is_power_of_two_1: "is_power_of_two (Suc 0)"
  by (auto simp: is_power_of_two_iff intro!: exI [of _ 0])

section \<open>The complete proof\<close>

lemma verify_batch_transfer_iff:
  "verify_batch_transfer p2_eval p2_width decode verify bverify p claims = Inr () \<longleftrightarrow>
     verify_ownership_p3 p2_eval p2_width decode bverify (bt_ca_proof p) (tc_ownership_claims claims) = Inr ()
     \<and> verify_membership_p3 p2_eval p2_width decode verify (bt_cb_proof p) (tc_membership_claim claims) = Inr ()
     \<and> verify_nonmembership_p3 decode verify (bt_cc_proof p) (tc_nonmembership_claim claims) = Inr ()
     \<and> verify_transfer_p3 decode verify (bt_cdcecg_proof p) (tc_pi claims) = Inr ()"
  by (auto simp: verify_batch_transfer_def split: sum.splits)

text \<open>The membership claim names a position for each of its leaves.\<close>

definition enough_leaf_indices :: "membership_public_claim \<Rightarrow> bool" where
  "enough_leaf_indices claim \<longleftrightarrow> length (mp_leaf_commitments claim) \<le> length (mp_leaf_indices claim)"

lemma length_membership_root: "length (snd (membership_trace_inputs perm m)) = 4"
proof -
  have "length (snd (fold (membership_level perm m) ls (is, poseidon2_permute perm i))) = 4" for ls "is" i
    by (induction ls arbitrary: "is" i) (auto simp: membership_level_def poseidon2_permute_def Let_def)
  then show ?thesis by (simp add: membership_trace_inputs_def Let_def)
qed

lemma batch_language:
  assumes circ: "poseidon2_circuit perm p2_eval p2_width p2_row" and st: "stark decode prove verify"
    and bst: "boundary_stark decode bprove bverify"
    and wf: "tpi_wf (tc_pi claims)" "list_all claim_wf (tc_ownership_claims claims)" "tc_ownership_claims claims \<noteq> []"
    and root: "length (mp_expected_root (tc_membership_claim claims)) = 4"
  shows "(\<exists>p. verify_batch_transfer p2_eval p2_width decode verify bverify p claims = Inr ())
    \<longleftrightarrow> pi_statement (tc_pi claims) \<and> enough_leaf_indices (tc_membership_claim claims)"
proof
  assume "\<exists>p. verify_batch_transfer p2_eval p2_width decode verify bverify p claims = Inr ()"
  then obtain p :: batch_transfer_proof where p: "verify_transfer_p3 decode verify (bt_cdcecg_proof p) (tc_pi claims) = Inr ()"
      "verify_membership_p3 p2_eval p2_width decode verify (bt_cb_proof p) (tc_membership_claim claims) = Inr ()"
    unfolding verify_batch_transfer_iff by blast
  have "enough_leaf_indices (tc_membership_claim claims)"
    using p(2) root by (auto simp: verify_membership_p3_def membership_pv_count membership_num_public_values_def
        enough_leaf_indices_def split: option.splits if_splits)
  moreover from p(1) obtain b q where "decode b = Some q" "verify transfer_eval TRANSFER_TRACE_WIDTH q (to_goldilocks (tc_pi claims))"
    by (auto simp: verify_transfer_p3_def split: option.splits if_splits)
  then have "pi_statement (tc_pi claims)" using starkD(2) [OF st] transfer_language_pi(1) [OF wf(1)] by blast
  ultimately show "pi_statement (tc_pi claims) \<and> enough_leaf_indices (tc_membership_claim claims)" by blast
next
  assume rhs: "pi_statement (tc_pi claims) \<and> enough_leaf_indices (tc_membership_claim claims)"
  then have cnt: "length (build_membership_public_values (tc_membership_claim claims))
      = membership_num_public_values (length (mp_leaf_commitments (tc_membership_claim claims)))"
    using root by (simp add: membership_pv_count membership_num_public_values_def enough_leaf_indices_def)
  from rhs obtain tr where "air_accepts transfer_eval TRANSFER_TRACE_WIDTH tr (to_goldilocks (tc_pi claims))"
    using transfer_language_pi(1) [OF wf(1)] by blast
  from starkD(1) [OF st air_accepts_hd [OF this]]
  obtain cd p4 where cd: "decode cd = Some p4" "verify transfer_eval TRANSFER_TRACE_WIDTH p4 (to_goldilocks (tc_pi claims))"
    by (auto simp: is_power_of_two_1)
  let ?opv = "build_ownership_public_values (tc_ownership_claims claims)"
  have "\<exists>trace. is_power_of_two (length trace) \<and> boundary_accepts (ownership_eval p2_eval (length (tc_ownership_claims claims))) p2_width trace ?opv"
    by (rule two_rows_accepted [OF circ, of "oc_expected_nullifier (hd (tc_ownership_claims claims))" "oc_expected_commitment (last (tc_ownership_claims claims))"])
      (use wf(2,3) ownership_pv [OF wf(2,3)] ownership_pv(1) [OF wf(2,3), of 0] in \<open>auto simp: list_all_iff claim_wf_def\<close>)
  then obtain ca p1 where ca: "decode ca = Some p1" "bverify (ownership_eval p2_eval (length (tc_ownership_claims claims))) p2_width p1 ?opv"
    using boundary_starkD [OF bst] by blast
  obtain cb p2 where cb: "decode cb = Some p2"
    "verify (membership_eval p2_eval) p2_width p2 (build_membership_public_values (tc_membership_claim claims))"
    using starkD(1) [OF st] membership_rows_accepted [OF circ, of "[replicate 8 0]"] by (auto, blast)
  obtain cc p3 where cc: "decode cc = Some p3"
    "verify nonmembership_eval NONMEMB_TRACE_WIDTH p3 (build_nonmembership_public_values (tc_nonmembership_claim claims))"
    using starkD(1) [OF st] nonmembership_rows_accepted [of "[]" perm] by (auto, blast)
  have "verify_batch_transfer p2_eval p2_width decode verify bverify
      \<lparr>bt_ca_proof = ca, bt_cb_proof = cb, bt_cc_proof = cc, bt_cdcecg_proof = cd\<rparr> claims = Inr ()"
    using ca cb cc cd cnt by (simp add: verify_batch_transfer_iff verify_ownership_p3_def verify_membership_p3_def
        verify_nonmembership_p3_def verify_transfer_p3_def)
  then show "\<exists>p. verify_batch_transfer p2_eval p2_width decode verify bverify p claims = Inr ()" by blast
qed

section \<open>Derived claims\<close>

lemma first_index_None: "first_index P xs = None \<longleftrightarrow> (\<forall>x\<in>set xs. \<not> P x)"
  by (auto simp: first_index_def find_None_iff all_set_conv_all_nth)

lemma first_index_SomeD: "first_index P xs = Some i \<Longrightarrow> \<exists>x\<in>set xs. P x"
  using first_index_None [of P xs] by auto

lemma validate_witnesses_Inr:
  "validate_witnesses w = Inr n \<longleftrightarrow> n = length (tw_ownership w) \<and> n \<noteq> 0 \<and> length (tw_membership w) = n
     \<and> length (tw_nonmembership_active w) = n \<and> length (tw_nonmembership_archived w) = n
     \<and> (\<forall>a\<in>set (tw_nonmembership_active w). nw_tree a = TreeActive)
     \<and> (\<forall>a\<in>set (tw_nonmembership_archived w). nw_tree a = TreeArchived)"
  by (auto simp: validate_witnesses_def Let_def first_index_None split: option.splits dest!: first_index_SomeD)

lemma checked_sum_Some: "checked_sum vs = Some s \<longleftrightarrow> unat s = sum_list (map unat vs)"
proof -
  have "fold (\<lambda>v acc. case acc of None \<Rightarrow> None | Some a \<Rightarrow> checked_add a v) vs None = None" for vs :: "u64 list"
    by (induction vs) auto
  note none = this
  have "fold (\<lambda>v acc. case acc of None \<Rightarrow> None | Some a \<Rightarrow> checked_add a v) vs (Some a) = Some s
      \<longleftrightarrow> unat s = unat a + sum_list (map unat vs)" for a
  proof (induction vs arbitrary: a)
    case Nil
    then show ?case by (auto simp: word_unat_eq_iff)
  next
    case (Cons v vs)
    show ?case
    proof (cases "checked_add a v")
      case None
      then have "2 ^ 64 \<le> unat a + unat v" by (simp add: checked_add_None_iff)
      moreover have "unat s < 2 ^ 64" using u64_bound [of s] by simp
      ultimately show ?thesis using None by (simp add: none)
    next
      case (Some b)
      then have "unat b = unat a + unat v" by (simp add: checked_add_Some_iff)
      then show ?thesis using Cons Some by (simp add: add.assoc)
    qed
  qed
  then show ?thesis by (simp add: checked_sum_def)
qed

lemma length_absorb_t8: "canonical_perm perm \<Longrightarrow> length st = 8 \<Longrightarrow> length (absorb_t8 perm c st) = 8"
  by (simp add: absorb_t8_def poseidon2_permute_t8_def canonical_perm_def)

lemma length_hash_chained: "canonical_perm perm \<Longrightarrow> length (poseidon2_hash_chained perm xs) = 4"
proof -
  assume p: "canonical_perm perm"
  have "length (fold (absorb_t8 perm) cs st) = 8" if "length st = 8" for cs st
    using that by (induction cs arbitrary: st) (simp_all add: length_absorb_t8 [OF p])
  then show ?thesis by (simp add: poseidon2_hash_chained_def WIDTH_T8_def)
qed

lemma derive_public_claims_Inr:
  assumes "derive_public_claims perm w pi root = Inr claims"
  shows "\<exists>s. validate_witnesses w = Inr (length (tw_ownership w)) \<and> unat s = sum_list (map (unat \<circ> iw_value) (tw_ownership w))
    \<and> s = saturating_add (tp_sum_outputs_sscl pi) (tp_fee_total_sscl pi)
    \<and> tc_ownership_claims claims = map (honest_claim perm) (tw_ownership w)
    \<and> tc_membership_claim claims = \<lparr>mp_expected_root = root, mp_leaf_commitments = map mw_commitment (tw_membership w),
        mp_leaf_indices = map mw_leaf_index (tw_membership w)\<rparr>
    \<and> tc_pi claims = pi\<lparr>tp_sum_inputs_sscl := s, tp_single_utxo_source := True,
        tp_commitment_hash := compute_commitment_hash perm (map (\<lambda>iw. hash_bytes32 (compute_expected_commitment perm iw)) (tw_ownership w)),
        tp_nullifier_hash := compute_nullifier_hash perm (map (\<lambda>iw. hash_bytes32 (compute_expected_nullifier perm iw)) (tw_ownership w))\<rparr>"
proof -
  obtain n where n: "validate_witnesses w = Inr n" using assms by (auto simp: derive_public_claims_def split: sum.splits)
  then have "n = length (tw_ownership w)" by (simp add: validate_witnesses_Inr)
  moreover have "derive_utxo_source w = Inr SubEpochIMT"
    using assms n by (auto simp: derive_public_claims_def derive_utxo_source_def split: sum.splits option.splits)
  ultimately show ?thesis
    using assms n by (auto simp: derive_public_claims_def Let_def checked_sum_Some honest_claim_def o_def split: option.splits if_splits)
qed

section \<open>The transcript\<close>

lemma absorb_loop_Inr:
  "absorb_loop blake3 check inps index st = Inr r \<longleftrightarrow>
     r = (fst st @ concat (map (absorb_proof blake3) inps), snd st @ map (\<lambda>i. blake3 (rp_proof_bytes i)) inps)
     \<and> (\<forall>k<length inps. check (index + k) (inps ! k) = None)"
proof (induction inps arbitrary: index st)
  case (Cons inp inps)
  have "(\<forall>k<length (inp # inps). check (index + k) ((inp # inps) ! k) = None) \<longleftrightarrow>
      check index inp = None \<and> (\<forall>k<length inps. check (index + 1 + k) (inps ! k) = None)"
    by (auto simp: less_Suc_eq_0_disj)
  then show ?case using Cons by (auto split: option.splits)
qed auto

lemma aggregate_with_Inr:
  "aggregate_with blake3 check inputs = Inr r \<longleftrightarrow>
     inputs \<noteq> [] \<and> length inputs \<le> 256 \<and> (\<forall>k<length inputs. check k (sort_key rp_tx_ordering_key inputs ! k) = None)
     \<and> r = finish_batch blake3 (length inputs) (concat (map (absorb_proof blake3) (sort_key rp_tx_ordering_key inputs)))
         (map (\<lambda>i. blake3 (rp_proof_bytes i)) (sort_key rp_tx_ordering_key inputs))"
proof (cases "absorb_loop blake3 check (sort_key rp_tx_ordering_key inputs) 0 ([], [])")
  case (Inl e)
  then have "\<not> (\<forall>k<length inputs. check k (sort_key rp_tx_ordering_key inputs ! k) = None)"
    using absorb_loop_Inr [of blake3 check "sort_key rp_tx_ordering_key inputs" 0 "([], [])"] by auto
  then show ?thesis using Inl by (simp add: aggregate_with_def Let_def)
next
  case (Inr st)
  then show ?thesis
    using absorb_loop_Inr [of blake3 check "sort_key rp_tx_ordering_key inputs" 0 "([], [])" st]
    by (auto simp: aggregate_with_def Let_def STARK_MAX_BATCH_SIZE_def)
qed

text \<open>The messages hashed while a batch is aggregated.\<close>

definition batch_messages :: "(bytes \<Rightarrow> bytes) \<Rightarrow> real_proof_input list \<Rightarrow> bytes set" where
  "batch_messages blake3 inputs =
     (let sorted = sort_key rp_tx_ordering_key inputs;
          transcript = concat (map (absorb_proof blake3) sorted);
          hashes = map (\<lambda>i. blake3 (rp_proof_bytes i)) sorted;
          n_bytes = le_bytes 4 (of_nat (length inputs) :: u32);
          phase3 = DOMAIN_STARK_BATCH @ n_bytes @ blake3 transcript @ concat hashes
      in rp_proof_bytes ` set inputs \<union> (pi_bytes \<circ> rp_public_inputs) ` set inputs
         \<union> {transcript, phase3, blake3 transcript @ blake3 phase3 @ n_bytes})"

lemma pi_bytes_inject:
  assumes "pi_bytes a = pi_bytes b"
  shows "map as_canonical_u64 (to_goldilocks a) = map as_canonical_u64 (to_goldilocks b)"
proof -
  let ?f = "\<lambda>fe. le_bytes 8 (as_canonical_u64 fe)"
  have "length (to_goldilocks a) * 8 = length (to_goldilocks b) * 8"
    using assms length_concat_uniform [of "to_goldilocks a" ?f 8] length_concat_uniform [of "to_goldilocks b" ?f 8]
    by (simp add: pi_bytes_def)
  then have len: "length (to_goldilocks a) = length (to_goldilocks b)" by simp
  have eq: "map ?f (to_goldilocks a) = map ?f (to_goldilocks b)"
    by (rule concat_fixed_length_inj [of _ _ 8]) (use assms len in \<open>auto simp: pi_bytes_def\<close>)
  show ?thesis
  proof (rule nth_equalityI)
    fix i assume "i < length (map as_canonical_u64 (to_goldilocks a))"
    then have "?f (to_goldilocks a ! i) = ?f (to_goldilocks b ! i)" using eq len by (metis length_map nth_map)
    then show "map as_canonical_u64 (to_goldilocks a) ! i = map as_canonical_u64 (to_goldilocks b) ! i"
      using \<open>i < _\<close> len le_bytes_inject [of 8 "as_canonical_u64 (to_goldilocks a ! i)"] by simp
  qed (simp add: len)
qed

text \<open>What a proof contributes is fixed by its transcript segment.\<close>

definition committed :: "real_proof_input \<Rightarrow> bytes \<times> u64 list" where
  "committed inp = (rp_proof_bytes inp, map as_canonical_u64 (to_goldilocks (rp_public_inputs inp)))"

lemma absorb_proof_inject:
  assumes "absorb_proof blake3 a = absorb_proof blake3 b" "\<And>m. length (blake3 m) = 32" "inj_on blake3 M"
    and "{rp_proof_bytes a, pi_bytes (rp_public_inputs a), rp_proof_bytes b, pi_bytes (rp_public_inputs b)} \<subseteq> M"
  shows "committed a = committed b"
proof -
  have len: "length (blake3 x) = length (blake3 y)" for x y using assms(2) by simp
  have eq: "blake3 (rp_proof_bytes a) = blake3 (rp_proof_bytes b)
      \<and> blake3 (pi_bytes (rp_public_inputs a)) @ le_bytes 4 TRANSFER_CONSTRAINT_COUNT
        = blake3 (pi_bytes (rp_public_inputs b)) @ le_bytes 4 TRANSFER_CONSTRAINT_COUNT"
    using assms(1) unfolding absorb_proof_def same_append_eq by (rule append_eq_append_conv [OF disjI1 [OF len], THEN iffD1])
  then have "blake3 (pi_bytes (rp_public_inputs a)) = blake3 (pi_bytes (rp_public_inputs b))" unfolding append_same_eq by blast
  with eq have "rp_proof_bytes a = rp_proof_bytes b" "pi_bytes (rp_public_inputs a) = pi_bytes (rp_public_inputs b)"
    using assms(4) by (blast dest: inj_onD [OF assms(3)])+
  then show ?thesis using pi_bytes_inject [of "rp_public_inputs a" "rp_public_inputs b"] by (simp add: committed_def)
qed

lemma length_absorb_proof: "(\<And>m. length (blake3 m) = 32) \<Longrightarrow> length (absorb_proof blake3 inp) = 86"
  by (simp add: absorb_proof_def DOMAIN_SUBEPOCH_FS_def)

lemma transcript_binds:
  assumes len: "\<And>m. length (blake3 m) = 32" and inj: "inj_on blake3 (batch_messages blake3 xs \<union> batch_messages blake3 ys)"
    and n: "length xs \<le> 256" "length ys \<le> 256"
    and eq: "sb_transcript_hash (finish_batch blake3 (length xs) (concat (map (absorb_proof blake3) (sort_key rp_tx_ordering_key xs)))
        (map (\<lambda>i. blake3 (rp_proof_bytes i)) (sort_key rp_tx_ordering_key xs)))
      = sb_transcript_hash (finish_batch blake3 (length ys) (concat (map (absorb_proof blake3) (sort_key rp_tx_ordering_key ys)))
        (map (\<lambda>i. blake3 (rp_proof_bytes i)) (sort_key rp_tx_ordering_key ys)))"
  shows "map committed (sort_key rp_tx_ordering_key xs) = map committed (sort_key rp_tx_ordering_key ys)"
proof -
  let ?s = "sort_key rp_tx_ordering_key"
  define tr ph where "tr zs = concat (map (absorb_proof blake3) (?s zs))"
    and "ph zs = DOMAIN_STARK_BATCH @ le_bytes 4 (of_nat (length zs) :: u32) @ blake3 (tr zs) @ concat (map (\<lambda>i. blake3 (rp_proof_bytes i)) (?s zs))" for zs
  define fin where "fin zs = blake3 (tr zs) @ blake3 (ph zs) @ le_bytes 4 (of_nat (length zs) :: u32)" for zs
  have mem: "rp_proof_bytes i \<in> batch_messages blake3 zs" "pi_bytes (rp_public_inputs i) \<in> batch_messages blake3 zs"
    if "i \<in> set zs" for zs i
    using that by (auto simp: batch_messages_def Let_def)
  have tr_in: "tr zs \<in> batch_messages blake3 zs" "fin zs \<in> batch_messages blake3 zs" for zs
    by (simp_all add: batch_messages_def Let_def tr_def ph_def fin_def)
  have "blake3 (fin xs) = blake3 (fin ys)" using eq by (simp add: finish_batch_def Let_def fin_def tr_def ph_def)
  then have "fin xs = fin ys" using tr_in by (blast dest: inj_onD [OF inj])
  moreover have l: "length (blake3 x) = length (blake3 y)" for x y using len by simp
  ultimately have h: "blake3 (tr xs) = blake3 (tr ys)" "le_bytes 4 (of_nat (length xs) :: u32) = le_bytes 4 (of_nat (length ys) :: u32)"
    unfolding fin_def using append_eq_append_conv [OF disjI1 [OF l]] by blast+
  then have "tr xs = tr ys" using tr_in by (blast dest: inj_onD [OF inj])
  have "(of_nat (length xs) :: u32) = of_nat (length ys)" using h(2) le_bytes_inject [where 'a = 32 and n = 4] by simp
  then have n_eq: "length xs = length ys" using n of_nat_word_inject [of "length xs" "length ys", where 'a = 32] by simp
  have "map (absorb_proof blake3) (?s xs) = map (absorb_proof blake3) (?s ys)"
    by (rule concat_fixed_length_inj [of _ _ 86]) (use \<open>tr xs = tr ys\<close> n_eq length_absorb_proof [OF len] in \<open>auto simp: tr_def\<close>)
  then have "absorb_proof blake3 (?s xs ! k) = absorb_proof blake3 (?s ys ! k)" if "k < length xs" for k
    using that n_eq by (metis length_map length_sort nth_map)
  moreover have "?s zs ! k \<in> set zs" if "k < length zs" for zs k using that by (metis length_sort nth_mem set_sort)
  ultimately have "committed (?s xs ! k) = committed (?s ys ! k)" if "k < length xs" for k
    using that n_eq mem [of "?s xs ! k" xs] mem [of "?s ys ! k" ys] by (intro absorb_proof_inject [OF _ len inj]) auto
  then show ?thesis using n_eq by (intro nth_equalityI) simp_all
qed

section \<open>Properties\<close>

text \<open>C11. What a complete transfer proof attests: over an ideal proof system, and whatever the third-party permutation
  is, there is a proof that verifies for given claims, of the fixed lengths and with at least one input, exactly when the transfer circuit accepts the public
  inputs and the membership claim names a position for each of its leaves (otherwise the number of public values
  is not the one the circuit declares).  Apart from that the claimed nullifiers, commitments, tree root, leaf positions and nullifier roots play no part:
  ownership, membership and non-membership of the inputs are not established.\<close>

theorem batch_transfer_language:
  assumes "poseidon2_circuit perm p2_eval p2_width p2_row" "stark decode prove verify" "boundary_stark decode bprove bverify"
    and "tpi_wf (tc_pi claims)" "list_all claim_wf (tc_ownership_claims claims)" "tc_ownership_claims claims \<noteq> []"
    and "length (mp_expected_root (tc_membership_claim claims)) = 4"
  shows "(\<exists>p. verify_batch_transfer p2_eval p2_width decode verify bverify p claims = Inr ())
    \<longleftrightarrow> (\<exists>trace. air_accepts transfer_eval TRANSFER_TRACE_WIDTH trace (to_goldilocks (tc_pi claims)))
      \<and> length (mp_leaf_commitments (tc_membership_claim claims)) \<le> length (mp_leaf_indices (tc_membership_claim claims))"
  using batch_language [OF assms] transfer_language_pi(1) [OF assms(4)] by (simp add: enough_leaf_indices_def)

definition sample_claims :: transfer_public_claims where
  "sample_claims = \<lparr>tc_pi = sample_pi 1000000040 1000000000 False,
     tc_ownership_claims = [\<lparr>oc_expected_nullifier = [1, 2, 3, 4], oc_expected_commitment = [5, 6, 7, 8]\<rparr>],
     tc_membership_claim = \<lparr>mp_expected_root = [9, 9, 9, 9], mp_leaf_commitments = [replicate 32 1], mp_leaf_indices = [0]\<rparr>,
     tc_nonmembership_claim = \<lparr>np_nullifier = replicate 32 0, np_active_root = replicate 32 170, np_archived_root = replicate 32 187\<rparr>\<rparr>"

theorem batch_transfer_language_witness:
  "\<exists>p. verify_batch_transfer (\<lambda>_. []) 176 ideal_decode air_accepts boundary_accepts p sample_claims = Inr ()"
proof -
  have "pi_statement (tc_pi sample_claims)" "tpi_wf (tc_pi sample_claims)"
    by (simp_all add: sample_claims_def pi_statement_def sample_pi_def tpi_wf_def)
  then show ?thesis
    using batch_transfer_language [OF sample_circuit ideal_stark, of sample_claims] transfer_language_pi(1)
    by (simp add: sample_claims_def claim_wf_def)
qed

text \<open>What an honest prover has: claims derived from its witnesses, one tree root for all inputs, preflight
  checks that pass, and public inputs inside the ranges of the transfer circuit.\<close>

definition honest_batch :: "(u64 list \<Rightarrow> u64 list) \<Rightarrow> transfer_witnesses \<Rightarrow> transfer_public_inputs \<Rightarrow> u64 list \<Rightarrow> transfer_public_claims \<Rightarrow> bool" where
  "honest_batch perm w pi root claims \<longleftrightarrow> derive_public_claims perm w pi root = Inr claims
     \<and> (\<forall>m\<in>set (tw_membership w). snd (membership_trace_inputs perm m) = root)
     \<and> (\<forall>m\<in>set (tw_nonmembership_active w) \<union> set (tw_nonmembership_archived w).
          preflight_check perm m (tc_nonmembership_claim claims) = Inr ())
     \<and> length (tp_utxo_set_root pi) = 32 \<and> length (tp_nullifier_active_root pi) = 32 \<and> length (tp_nullifier_archived_root pi) = 32
     \<and> check_all_constraints (tc_pi claims) = Inr () \<and> unat (tp_fee_total_sscl pi) < 40 + 2 ^ 52
     \<and> unat (tp_target_subepoch_id pi) < 2 ^ 40 \<and> unat (tp_sum_outputs_sscl pi) + unat (tp_fee_total_sscl pi) < 2 ^ 64"

lemma batch_transfer_provable:
  assumes circ: "poseidon2_circuit perm p2_eval p2_width p2_row" and st: "stark decode prove verify"
    and bst: "boundary_stark decode bprove bverify" and honest: "honest_batch perm w pi root claims"
    and n: "is_power_of_two (length (tw_ownership w))" "length (tw_ownership w) \<le> 2 ^ 57"
  shows "\<exists>p. prove_batch_transfer perm p2_eval p2_row prove bprove w claims = Some (Inr p)
    \<and> verify_batch_transfer p2_eval p2_width decode verify bverify p claims = Inr ()"
proof -
  have claims: "derive_public_claims perm w pi root = Inr claims"
    and roots: "\<forall>m\<in>set (tw_membership w). snd (membership_trace_inputs perm m) = root"
      "\<forall>m\<in>set (tw_nonmembership_active w) \<union> set (tw_nonmembership_archived w). preflight_check perm m (tc_nonmembership_claim claims) = Inr ()"
    and wf: "length (tp_utxo_set_root pi) = 32" "length (tp_nullifier_active_root pi) = 32" "length (tp_nullifier_archived_root pi) = 32"
    and pre: "check_all_constraints (tc_pi claims) = Inr ()" "unat (tp_fee_total_sscl pi) < 40 + 2 ^ 52"
      "unat (tp_target_subepoch_id pi) < 2 ^ 40" "unat (tp_sum_outputs_sscl pi) + unat (tp_fee_total_sscl pi) < 2 ^ 64"
    using honest unfolding honest_batch_def by blast+
  obtain s where val: "validate_witnesses w = Inr (length (tw_ownership w))"
    and oc: "tc_ownership_claims claims = map (honest_claim perm) (tw_ownership w)"
    and mc: "tc_membership_claim claims = \<lparr>mp_expected_root = root, mp_leaf_commitments = map mw_commitment (tw_membership w),
        mp_leaf_indices = map mw_leaf_index (tw_membership w)\<rparr>"
    and tpi: "tc_pi claims = pi\<lparr>tp_sum_inputs_sscl := s, tp_single_utxo_source := True,
        tp_commitment_hash := compute_commitment_hash perm (map (\<lambda>iw. hash_bytes32 (compute_expected_commitment perm iw)) (tw_ownership w)),
        tp_nullifier_hash := compute_nullifier_hash perm (map (\<lambda>iw. hash_bytes32 (compute_expected_nullifier perm iw)) (tw_ownership w))\<rparr>"
    using derive_public_claims_Inr [OF claims] by blast
  note v = val [unfolded validate_witnesses_Inr]
  have ne: "tw_ownership w \<noteq> []" "tw_membership w \<noteq> []" using v by auto
  let ?oeval = "ownership_eval p2_eval (length (tw_ownership w))" and ?opv = "build_ownership_public_values (tc_ownership_claims claims)"
  have n62: "length (tw_ownership w) \<le> 2 ^ 62" using n(2) by simp
  obtain tr where tr: "build_ownership_trace p2_row (tw_ownership w) = Some tr" "is_power_of_two (length tr)"
    "boundary_accepts ?oeval p2_width tr ?opv"
    using honest_trace_accepts_iff [OF circ ne(1) n62] n(1) oc by auto
  obtain ca p1 where ca: "bprove ?oeval tr ?opv = Some ca" "decode ca = Some p1" "bverify ?oeval p2_width p1 ?opv"
    using boundary_starkD [OF bst tr(3,2)] by blast
  let ?in = "fst (build_membership_trace perm (tw_membership w))" and ?mpv = "build_membership_public_values (tc_membership_claim claims)"
  have inp: "\<forall>i\<in>set ?in. length i = 8" "length ?in = 33 * length (tw_membership w)"
    using membership_inputs_length [of perm] by (auto simp: build_membership_trace_def list_all_iff length_concat o_def sum_list_triv)
  obtain cb p2 where cb: "prove (membership_eval p2_eval) (inputs_to_trace p2_row ?in) ?mpv = Some cb" "decode cb = Some p2"
    "verify (membership_eval p2_eval) p2_width p2 ?mpv"
    using starkD(1) [OF st] membership_rows_accepted [OF circ inp(1), of ?mpv] inp(2) ne(2) v n(2) by fastforce
  let ?cc = "concat (map2 (\<lambda>a ar. [a, ar]) (tw_nonmembership_active w) (tw_nonmembership_archived w))"
  let ?npv = "build_nonmembership_public_values (tc_nonmembership_claim claims)"
  have "length ?cc = 2 * length (tw_ownership w)" using v by (simp add: length_concat o_def split_beta sum_list_triv)
  then have cc_len: "32 * length ?cc \<le> 2 ^ 63" using n(2) by simp
  obtain cc p3 where cc: "prove nonmembership_eval (build_nonmembership_trace perm ?cc) ?npv = Some cc" "decode cc = Some p3"
    "verify nonmembership_eval NONMEMB_TRACE_WIDTH p3 ?npv"
    using starkD(1) [OF st] nonmembership_rows_accepted [OF cc_len] by blast
  have "preflight_all perm (tc_nonmembership_claim claims) ?cc = Inr ()"
    using roots(2) by (auto simp: preflight_all_iff dest: set_zip_leftD set_zip_rightD)
  have tw: "tpi_wf (tc_pi claims)"
    using wf length_hash_chained [OF poseidon2_circuitD(1) [OF circ]] by (simp add: tpi tpi_wf_def compute_commitment_hash_def compute_nullifier_hash_def)
  have eight: "is_power_of_two 8" by (auto simp: is_power_of_two_iff intro!: exI [of _ 3])
  obtain tt where tt: "build_transfer_trace perm (tc_pi claims) cf_default 8 = Some tt" "length tt = 8"
    "air_accepts transfer_eval TRANSFER_TRACE_WIDTH tt (to_goldilocks (tc_pi claims))"
    using transfer_trace_ok [OF tw pre(1), of cf_default 8 perm] pre(2-4) eight by (auto simp: tpi cf_default_def inv_total_def)
  then obtain cd p4 where cd: "prove transfer_eval tt (to_goldilocks (tc_pi claims)) = Some cd" "decode cd = Some p4"
    "verify transfer_eval TRANSFER_TRACE_WIDTH p4 (to_goldilocks (tc_pi claims))"
    using starkD(1) [OF st] eight by metis
  let ?p = "\<lparr>bt_ca_proof = ca, bt_cb_proof = cb, bt_cc_proof = cc, bt_cdcecg_proof = cd\<rparr>"
  have "length root = 4" using roots(1) ne(2) length_membership_root [of perm] by (metis list.set_sel(1))
  then have cnt: "length ?mpv = membership_num_public_values (length (mp_leaf_commitments (tc_membership_claim claims)))"
    by (simp add: mc membership_pv_count membership_num_public_values_def)
  have "prove_ownership_p3 p2_eval p2_row bprove (tw_ownership w) (tc_ownership_claims claims) = Some (Inr ca)"
    using tr ca ne oc by (simp add: prove_ownership_p3_def)
  moreover have "prove_membership_p3 perm p2_eval p2_row prove (tw_membership w) (tc_membership_claim claims) = Inr cb"
    using cb roots(1) ne mc validate_membership_roots_iff [of "snd (build_membership_trace perm (tw_membership w))" root]
    by (simp add: prove_membership_p3_def build_membership_trace_def)
  moreover have "prove_nonmembership_p3 perm prove ?cc (tc_nonmembership_claim claims) = Inr cc"
    using cc \<open>preflight_all _ _ _ = _\<close> by (simp add: prove_nonmembership_p3_def)
  moreover have "prove_transfer_p3 perm prove (tc_pi claims) = Some (Inr cd)"
    using pre(1) tt cd by (simp add: prove_transfer_p3_def)
  ultimately have "prove_batch_transfer perm p2_eval p2_row prove bprove w claims = Some (Inr ?p)"
    using val by (simp add: prove_batch_transfer_def Let_def)
  moreover have "verify_batch_transfer p2_eval p2_width decode verify bverify ?p claims = Inr ()"
    using ca cb cc cd oc cnt by (simp add: verify_batch_transfer_iff verify_ownership_p3_def verify_membership_p3_def
        verify_nonmembership_p3_def verify_transfer_p3_def)
  ultimately show ?thesis by blast
qed

text \<open>C14. The honest pipeline succeeds: when \<open>derive_public_claims\<close> accepts the witnesses, the paths lead to the
  claimed roots, the number of inputs is a power of two and the public inputs pass the checks and ranges of
  the transfer circuit, \<open>prove_batch_transfer\<close> returns a proof and \<open>verify_batch_transfer\<close> accepts it.\<close>

theorem batch_transfer_complete:
  assumes "poseidon2_circuit perm p2_eval p2_width p2_row" "stark decode prove verify" "boundary_stark decode bprove bverify"
    and "honest_batch perm w pi root claims" "is_power_of_two (length (tw_ownership w))" "length (tw_ownership w) \<le> 2 ^ 57"
  shows "\<exists>p. prove_batch_transfer perm p2_eval p2_row prove bprove w claims = Some (Inr p)
    \<and> verify_batch_transfer p2_eval p2_width decode verify bverify p claims = Inr ()"
  using assms by (rule batch_transfer_provable)

definition sample_nonmember :: "sparse_tree \<Rightarrow> nonmembership_witness" where
  "sample_nonmember tree = \<lparr>nw_nullifier = replicate 32 0, nw_siblings = replicate 32 [0, 0, 0, 0], nw_tree = tree\<rparr>"

definition sample_member :: membership_witness where
  "sample_member = \<lparr>mw_commitment = replicate 32 1, mw_leaf_index = 0, mw_siblings = replicate 32 [1, 0, 0, 0]\<rparr>"

text \<open>A batch that spends the same input \<open>k\<close> times.\<close>

definition sample_witnesses :: "nat \<Rightarrow> transfer_witnesses" where
  "sample_witnesses k = \<lparr>tw_ownership = replicate k (sample_input 1000000040), tw_membership = replicate k sample_member,
     tw_nonmembership_active = replicate k (sample_nonmember TreeActive),
     tw_nonmembership_archived = replicate k (sample_nonmember TreeArchived)\<rparr>"

definition sample_transfer_pi :: "nat \<Rightarrow> transfer_public_inputs" where
  "sample_transfer_pi k = (sample_pi 0 (of_nat k * 1000000040 - 40) True)\<lparr>
     tp_nullifier_active_root := hash_bytes32 (fst (reconstruct_root (map field_reduce) (sample_nonmember TreeActive))),
     tp_nullifier_archived_root := hash_bytes32 (fst (reconstruct_root (map field_reduce) (sample_nonmember TreeArchived)))\<rparr>"

abbreviation "sample_root \<equiv> snd (membership_trace_inputs (map field_reduce) sample_member)"

lemma length_poseidon2_permute [simp]: "length (poseidon2_permute perm input) = 4"
  by (simp add: poseidon2_permute_def Let_def)

lemma length_reconstruct_root [simp]: "length (fst (reconstruct_root perm w)) = 4"
proof -
  have "length (fst (fold (reconstruct_level perm w) ls st)) = 4" if "length (fst st) = 4" for ls st
    using that
  proof (induction ls arbitrary: st)
    case (Cons l ls)
    have "length (fst (reconstruct_level perm w l st)) = 4"
      by (simp add: reconstruct_level_def Let_def smt_node_hash_def split: prod.splits)
    then show ?case using Cons.IH by simp
  qed simp
  then show ?thesis by (simp add: reconstruct_root_def zero_leaf_def)
qed

lemma hash_bytes32_concat: "length h = 4 \<Longrightarrow> hash_bytes32 h = concat (map (le_bytes 8) h)"
proof -
  assume "length h = 4"
  then have "map ((!) h) [0..<4] = h" using map_nth [of h] by simp
  moreover have "hash_bytes32 h = concat (map (le_bytes 8) (map ((!) h) [0..<4]))" by (simp only: hash_bytes32_def list.map_comp o_def)
  ultimately show ?thesis by simp
qed

lemma length_hash_bytes32 [simp]: "length (hash_bytes32 h) = 32"
  by (simp add: hash_bytes32_def length_concat o_def sum_list_triv)

lemma sample_honest:
  assumes k: "k = 1 \<or> k = 2"
  shows "\<exists>claims. honest_batch (map field_reduce) (sample_witnesses k) (sample_transfer_pi k) sample_root claims"
proof -
  let ?perm = "map field_reduce" and ?sum = "of_nat k * 1000000040 :: u64"
  have "validate_witnesses (sample_witnesses k) = Inr k"
    using k by (auto simp: validate_witnesses_Inr sample_witnesses_def sample_nonmember_def)
  moreover have "derive_utxo_source (sample_witnesses k) = Inr SubEpochIMT"
    using k by (auto simp: derive_utxo_source_def sample_witnesses_def sample_member_def first_index_None list_all_iff
        split: option.splits dest!: first_index_SomeD)
  moreover have "checked_sum (map iw_value (tw_ownership (sample_witnesses k))) = Some ?sum"
    using k by (auto simp: checked_sum_Some sample_witnesses_def sample_input_def sum_list_replicate)
  ultimately obtain claims where claims: "derive_public_claims ?perm (sample_witnesses k) (sample_transfer_pi k) sample_root = Inr claims"
    "tc_nonmembership_claim claims = \<lparr>np_nullifier = replicate 32 0, np_active_root = tp_nullifier_active_root (sample_transfer_pi k),
      np_archived_root = tp_nullifier_archived_root (sample_transfer_pi k)\<rparr>"
    "tp_sum_inputs_sscl (tc_pi claims) = ?sum"
    using k by (auto simp: derive_public_claims_def Let_def sample_transfer_pi_def sample_pi_def saturating_add_def sample_witnesses_def
        sample_nonmember_def)
  have pre: "check_all_constraints (tc_pi claims) = Inr ()"
    using derive_public_claims_Inr [OF claims(1)] claims(3) k
    by (auto simp: check_all_constraints_def check_cd_conservation_def check_cd_fee_floor_def check_cg_version_def
        check_cg_validity_def sample_transfer_pi_def sample_pi_def saturating_add_def TRANSFER_FEE_FLOOR_def
        VALID_CRYPTO_VERSION_def cg_validity_def CG_MAX_VALIDITY_def)
  have "\<forall>m\<in>set (tw_nonmembership_active (sample_witnesses k)) \<union> set (tw_nonmembership_archived (sample_witnesses k)).
      preflight_check ?perm m (tc_nonmembership_claim claims) = Inr ()"
    by (auto simp: claims(2) sample_witnesses_def preflight_check_def Let_def sample_transfer_pi_def sample_nonmember_def
        hash_bytes32_concat bytes32_field_roundtrip)
  then show ?thesis using claims(1) pre k
    by (intro exI [of _ claims]) (auto simp: honest_batch_def sample_witnesses_def sample_transfer_pi_def sample_pi_def)
qed

theorem batch_transfer_complete_witness:
  "\<exists>claims p. derive_public_claims (map field_reduce) (sample_witnesses 1) (sample_transfer_pi 1) sample_root = Inr claims
    \<and> prove_batch_transfer (map field_reduce) (\<lambda>_. []) sample_row ideal_prove ideal_prove (sample_witnesses 1) claims = Some (Inr p)
    \<and> verify_batch_transfer (\<lambda>_. []) 176 ideal_decode air_accepts boundary_accepts p claims = Inr ()"
proof -
  obtain claims where h: "honest_batch (map field_reduce) (sample_witnesses 1) (sample_transfer_pi 1) sample_root claims"
    using sample_honest [of 1] by blast
  then have "derive_public_claims (map field_reduce) (sample_witnesses 1) (sample_transfer_pi 1) sample_root = Inr claims"
    by (simp add: honest_batch_def)
  with batch_transfer_complete [OF sample_circuit ideal_stark h] show ?thesis
    by (auto simp: sample_witnesses_def is_power_of_two_1)
qed

text \<open>The aggregate does not depend on the order in which the proofs arrive: for distinct ordering keys any
  permutation of the inputs gives the same batch, or the same error with the same position.\<close>

theorem starkpack_order_independent:
  assumes "distinct (map rp_tx_ordering_key xs)" "mset xs = mset ys"
  shows "aggregate_real_proofs blake3 decode_batch decode verify xs = aggregate_real_proofs blake3 decode_batch decode verify ys"
proof -
  have "sort_key rp_tx_ordering_key xs = sort_key rp_tx_ordering_key ys"
    by (rule sort_key_inj_key_eq) (use assms in \<open>simp_all add: distinct_map\<close>)
  moreover have "length xs = length ys" using assms(2) by (metis size_mset)
  ultimately show ?thesis by (simp add: aggregate_real_proofs_def aggregate_with_def Let_def)
qed

definition sample_proof_input :: "nat \<Rightarrow> real_proof_input" where
  "sample_proof_input i = \<lparr>rp_proof_bytes = replicate i 1, rp_public_inputs = sample_pi 1000000040 1000000000 True,
     rp_tx_ordering_key = [of_nat i]\<rparr>"

theorem starkpack_order_independent_witness:
  "aggregate_real_proofs rev (\<lambda>_. None) ideal_decode air_accepts [sample_proof_input 1, sample_proof_input 2]
    = aggregate_real_proofs rev (\<lambda>_. None) ideal_decode air_accepts [sample_proof_input 2, sample_proof_input 1]"
  by (rule starkpack_order_independent) (simp_all add: sample_proof_input_def)

text \<open>The transcript hash binds the batch: two aggregated batches with the same transcript hash consist of the same
  proofs with the same public values in the same order, if BLAKE3 has no collision among the messages hashed for them.\<close>

theorem starkpack_binding:
  assumes "aggregate_real_proofs blake3 decode_batch decode verify xs = Inr r"
    and "aggregate_real_proofs blake3 decode_batch decode verify ys = Inr r'"
    and "sb_transcript_hash r = sb_transcript_hash r'" "\<And>m. length (blake3 m) = 32"
    and "inj_on blake3 (batch_messages blake3 xs \<union> batch_messages blake3 ys)"
  shows "map committed (sort_key rp_tx_ordering_key xs) = map committed (sort_key rp_tx_ordering_key ys)"
  using assms(1-3) transcript_binds [OF assms(4,5)] by (simp add: aggregate_real_proofs_def aggregate_with_Inr)

definition length_hash :: "bytes \<Rightarrow> bytes" where
  "length_hash m = le_bytes 32 (of_nat (length m) :: u64)"

lemma length_hash_inj: "inj_on length M \<Longrightarrow> (\<And>m. m \<in> M \<Longrightarrow> length m < 2 ^ 64) \<Longrightarrow> inj_on length_hash M"
proof (rule inj_onI)
  fix x y assume *: "inj_on length M" "\<And>m. m \<in> M \<Longrightarrow> length m < 2 ^ 64" "x \<in> M" "y \<in> M" "length_hash x = length_hash y"
  then have "(of_nat (length x) :: u64) = of_nat (length y)"
    using le_bytes_inject [where 'a = 64 and n = 32] by (simp add: length_hash_def)
  then have "length x = length y" using of_nat_word_inject [where 'a = 64] *(2) [OF *(3)] *(2) [OF *(4)] by simp
  then show "x = y" using * by (blast dest: inj_onD)
qed

lemma sample_messages:
  "batch_messages length_hash [sample_proof_input 2, sample_proof_input 1] = batch_messages length_hash [sample_proof_input 1, sample_proof_input 2]"
proof -
  let ?xs = "[sample_proof_input 2, sample_proof_input 1]" and ?ys = "[sample_proof_input 1, sample_proof_input 2]"
  have "sort_key rp_tx_ordering_key ?xs = sort_key rp_tx_ordering_key ?ys" by (simp add: sample_proof_input_def)
  moreover have "set ?xs = set ?ys" "length ?xs = length ?ys" by auto
  ultimately show ?thesis unfolding batch_messages_def by (simp only:)
qed

theorem starkpack_binding_witness:
  "map committed (sort_key rp_tx_ordering_key [sample_proof_input 2, sample_proof_input 1])
    = map committed (sort_key rp_tx_ordering_key [sample_proof_input 1, sample_proof_input 2])"
proof (rule starkpack_binding)
  let ?p = "\<lparr>bt_ca_proof = [1], bt_cb_proof = [1], bt_cc_proof = [1], bt_cdcecg_proof = [1]\<rparr>"
  let ?a = "aggregate_real_proofs length_hash (\<lambda>_. Some ?p) Some (\<lambda>_ _ _ _. True)"
  let ?xs = "[sample_proof_input 2, sample_proof_input 1]" and ?ys = "[sample_proof_input 1, sample_proof_input 2]"
  have chk: "check_real_proof (\<lambda>_. Some ?p) Some (\<lambda>_ _ _ _. True) k inp = None" for k inp
    by (simp add: check_real_proof_def verify_batch_proof_with_pi_def verify_transfer_p3_def)
  define fin where "fin zs = finish_batch length_hash (length zs) (concat (map (absorb_proof length_hash) (sort_key rp_tx_ordering_key zs)))
         (map (\<lambda>i. length_hash (rp_proof_bytes i)) (sort_key rp_tx_ordering_key zs))" for zs
  show "?a ?xs = Inr (fin ?xs)" "?a ?ys = Inr (fin ?ys)"
    unfolding aggregate_real_proofs_def aggregate_with_Inr fin_def by (simp_all add: chk)
  show "sb_transcript_hash (fin ?xs) = sb_transcript_hash (fin ?ys)" by (simp add: fin_def sample_proof_input_def)
  show "length (length_hash m) = 32" for m by (simp add: length_hash_def)
  have "length (pi_bytes (sample_pi 1000000040 1000000000 True)) = 328"
    by (simp add: pi_bytes_def length_concat o_def sum_list_triv length_to_goldilocks sample_pi_def tpi_wf_def)
  then have "inj_on length (batch_messages length_hash ?ys)" "\<And>m. m \<in> batch_messages length_hash ?ys \<Longrightarrow> length m < 2 ^ 64"
    by (auto simp: batch_messages_def Let_def sample_proof_input_def length_absorb_proof length_hash_def
        DOMAIN_STARK_BATCH_def absorb_proof_def DOMAIN_SUBEPOCH_FS_def inj_on_def)
  then have "inj_on length_hash (batch_messages length_hash ?ys)" by (rule length_hash_inj)
  then show "inj_on length_hash (batch_messages length_hash ?xs \<union> batch_messages length_hash ?ys)"
    unfolding sample_messages Un_absorb .
qed

text \<open>What a complete mint proof attests: over an ideal proof system there is a proof that verifies exactly when
  the two claims name the same nullifier and the reward is not a multiple of the prime.  Which node claims, for which
  epoch, and how much has been minted before are not established.\<close>

theorem batch_mint_language:
  assumes "poseidon2_circuit perm p2_eval p2_width p2_row" "stark decode prove verify" "boundary_stark decode bprove bverify"
    and "length (mc_inner_hash c) = 4" "length (mc_mint_nullifier c) = 4" "length (ml_mint_nullifier pi) = 4"
  shows "(\<exists>p. verify_batch_mint (\<lambda>b c. verify_mint_nullifier_p3 p2_eval p2_width decode bverify b c = Inr ()) decode verify p c pi = Inr ())
    \<longleftrightarrow> ml_mint_nullifier pi = mc_mint_nullifier c \<and> field_reduce (ml_reward_amount_sscl pi) \<noteq> 0"
proof -
  let ?npv = "build_mint_nullifier_public_values c" and ?lpv = "build_mint_linear_pv pi"
  have npv: "length ?npv = 8 * 1" "k < 4 \<Longrightarrow> ?npv ! k = gl_new (mc_inner_hash c ! k)"
      "k < 4 \<Longrightarrow> ?npv ! ((2 * 1 - 1) * 4 + k) = gl_new (mc_mint_nullifier c ! k)" for k
    using assms(4,5) by (simp_all add: build_mint_nullifier_public_values_def nth_append)
  have "\<exists>trace. is_power_of_two (length trace) \<and> boundary_accepts (ownership_eval p2_eval 1) p2_width trace ?npv"
    by (rule two_rows_accepted [OF assms(1,4,5)]) (use npv in auto)
  then obtain b1 p1 where b1: "decode b1 = Some p1" "bverify (ownership_eval p2_eval 1) p2_width p1 ?npv"
    using boundary_starkD [OF assms(3)] by blast
  have lang: "(\<exists>trace. air_accepts mint_eval MINT_LINEAR_WIDTH trace ?lpv) \<longleftrightarrow> field_reduce (ml_reward_amount_sscl pi) \<noteq> 0"
    using mint_language [OF length_mint_pv [OF assms(6)]] mint_reward_zero [of pi] by simp
  have lin: "(\<exists>b. verify_mint_linear_p3 decode verify b pi = Inr ()) \<longleftrightarrow> field_reduce (ml_reward_amount_sscl pi) \<noteq> 0"
  proof
    assume "\<exists>b. verify_mint_linear_p3 decode verify b pi = Inr ()"
    then obtain b q where "decode b = Some q" "verify mint_eval MINT_LINEAR_WIDTH q ?lpv"
      by (auto simp: verify_mint_linear_p3_def split: option.splits if_splits)
    then show "field_reduce (ml_reward_amount_sscl pi) \<noteq> 0" using starkD(2) [OF assms(2)] lang by blast
  next
    assume "field_reduce (ml_reward_amount_sscl pi) \<noteq> 0"
    then obtain tr where "air_accepts mint_eval MINT_LINEAR_WIDTH tr ?lpv" using lang by blast
    from starkD(1) [OF assms(2) air_accepts_hd [OF this]] obtain b q where "decode b = Some q" "verify mint_eval MINT_LINEAR_WIDTH q ?lpv"
      by (auto simp: is_power_of_two_1)
    then show "\<exists>b. verify_mint_linear_p3 decode verify b pi = Inr ()" by (auto simp: verify_mint_linear_p3_def intro!: exI [of _ b])
  qed
  have "(\<exists>p. verify_batch_mint (\<lambda>b c. verify_mint_nullifier_p3 p2_eval p2_width decode bverify b c = Inr ()) decode verify p c pi = Inr ())
      \<longleftrightarrow> ml_mint_nullifier pi = mc_mint_nullifier c \<and> (\<exists>b. verify_mint_linear_p3 decode verify b pi = Inr ())"
  proof (intro iffI)
    assume "ml_mint_nullifier pi = mc_mint_nullifier c \<and> (\<exists>b. verify_mint_linear_p3 decode verify b pi = Inr ())"
    then obtain b where "ml_mint_nullifier pi = mc_mint_nullifier c" "verify_mint_linear_p3 decode verify b pi = Inr ()" by blast
    then have "verify_batch_mint (\<lambda>b c. verify_mint_nullifier_p3 p2_eval p2_width decode bverify b c = Inr ()) decode verify
        \<lparr>bm_mc2_proof = b1, bm_linear_proof = b\<rparr> c pi = Inr ()"
      using b1 by (simp add: verify_batch_mint_def verify_mint_nullifier_p3_def)
    then show "\<exists>p. verify_batch_mint (\<lambda>b c. verify_mint_nullifier_p3 p2_eval p2_width decode bverify b c = Inr ()) decode verify p c pi = Inr ()" ..
  qed (auto simp: verify_batch_mint_def split: if_splits sum.splits)
  then show ?thesis using lin by simp
qed

theorem batch_mint_language_witness:
  "\<exists>p. verify_batch_mint (\<lambda>b c. verify_mint_nullifier_p3 (\<lambda>_. []) 176 ideal_decode boundary_accepts b c = Inr ()) ideal_decode air_accepts p
    \<lparr>mc_inner_hash = [0, 0, 0, 0], mc_mint_nullifier = ml_mint_nullifier (sample_mint 1890000000000000 5000000)\<rparr> (sample_mint 1890000000000000 5000000) = Inr ()"
  by (subst batch_mint_language [OF sample_circuit ideal_stark]) (simp_all add: sample_mint_def field_reduce_def GOLDILOCKS_PRIME_def)

end
