(* ===== verification/Node_Epoch.thy ===== *)
theory Node_Epoch
  imports Merkle_IMT Ordering Heartbeat
begin

text \<open>
  What a node does through an epoch, from \<open>core/scalar-node/src\<close> and \<open>core/scalar-emission/src\<close>: the heartbeat service
  that produces heartbeats and verifies those of peers (\<open>heartbeat_service.rs\<close>), epoch anchors with their wire
  format and the store of peer keys (\<open>liveness.rs\<close>, \<open>epoch_anchor.rs\<close>), the tree of unspent outputs
  (\<open>utxo_set_smt.rs\<close>), the epoch transition with its recovery (\<open>epoch_orchestrator.rs\<close>) and the node life cycle
  (\<open>state_machine.rs\<close>).  The clock is a parameter; \<open>None\<close> is a panic.
\<close>

section \<open>Epoch anchors\<close>

record epoch_anchor =
  ea_node_id :: bytes
  ea_epoch_id :: u64
  ea_hb_count :: u32
  ea_chain_head :: bytes
  ea_pubkey :: bytes
  ea_sig :: bytes

definition canonical_bytes_to_sign :: "epoch_anchor \<Rightarrow> bytes" where
  "canonical_bytes_to_sign a =
     ea_node_id a @ le_bytes 8 (ea_epoch_id a) @ le_bytes 4 (ea_hb_count a) @ ea_chain_head a @ ea_pubkey a"

definition compute_chain_head :: "(bytes \<Rightarrow> bytes) \<Rightarrow> heartbeat_unit \<Rightarrow> bytes" where
  "compute_chain_head blake3 last_heartbeat = blake3 (hb_to_bytes last_heartbeat)"

record epoch_tracker =
  et_counts :: "((bytes \<times> u64) \<times> u32) list"
  et_last_hb :: "((bytes \<times> u64) \<times> heartbeat_unit) list"

definition epoch_tracker_new :: epoch_tracker where
  "epoch_tracker_new = \<lparr>et_counts = [], et_last_hb = []\<rparr>"

definition et_hb_count :: "epoch_tracker \<Rightarrow> bytes \<Rightarrow> u64 \<Rightarrow> u32" where
  "et_hb_count t node_id epoch_id = unwrap_or (map_of (et_counts t) (node_id, epoch_id)) 0"

definition et_record_heartbeat :: "epoch_tracker \<Rightarrow> heartbeat_unit \<Rightarrow> u64 \<Rightarrow> epoch_tracker" where
  "et_record_heartbeat t hb epoch_id =
     (let key = (hb_node_id hb, epoch_id)
      in t\<lparr>et_counts := AList.update key (unwrap_or (map_of (et_counts t) key) 0 + 1) (et_counts t),
           et_last_hb := AList.update key hb (et_last_hb t)\<rparr>)"

definition et_is_end_epoch :: "epoch_tracker \<Rightarrow> bytes \<Rightarrow> u64 \<Rightarrow> bool" where
  "et_is_end_epoch t node_id epoch_id \<longleftrightarrow> unwrap_or (map_of (et_counts t) (node_id, epoch_id)) 0 \<ge> EPOCH_HB_COUNT"

definition et_last_heartbeat :: "epoch_tracker \<Rightarrow> bytes \<Rightarrow> u64 \<Rightarrow> heartbeat_unit option" where
  "et_last_heartbeat t node_id epoch_id = map_of (et_last_hb t) (node_id, epoch_id)"

section \<open>The store of peer keys\<close>

text \<open>\<open>'p\<close> is the peer id of libp2p.\<close>

record peer_anchor_entry =
  pe_node_key_epoch :: bytes
  pe_epoch_id :: u64
  pe_chain_head :: bytes
  pe_node_id_short :: bytes
  pe_hb_count :: u32

type_synonym 'p peer_anchor_store = "('p \<times> peer_anchor_entry) list"

definition store_anchor :: "(bytes \<Rightarrow> bytes) \<Rightarrow> 'p peer_anchor_store \<Rightarrow> 'p \<Rightarrow> epoch_anchor \<Rightarrow> 'p peer_anchor_store" where
  "store_anchor blake3 s peer_id anchor =
     (let node_key_epoch = derive_node_key_epoch blake3 (ea_pubkey anchor) (ea_epoch_id anchor)
      in AList.update peer_id \<lparr>pe_node_key_epoch = node_key_epoch, pe_epoch_id = ea_epoch_id anchor,
           pe_chain_head = ea_chain_head anchor, pe_node_id_short = ea_node_id anchor, pe_hb_count = ea_hb_count anchor\<rparr> s)"

definition get_node_key_epoch :: "'p peer_anchor_store \<Rightarrow> 'p \<Rightarrow> bytes option" where
  "get_node_key_epoch s peer_id = map_option pe_node_key_epoch (map_of s peer_id)"

definition get_anchor_entry :: "'p peer_anchor_store \<Rightarrow> 'p \<Rightarrow> peer_anchor_entry option" where
  "get_anchor_entry s peer_id = map_of s peer_id"

definition has_valid_anchor :: "'p peer_anchor_store \<Rightarrow> 'p \<Rightarrow> bool" where
  "has_valid_anchor s peer_id \<longleftrightarrow> map_of s peer_id \<noteq> None"

definition remove_peer :: "'p peer_anchor_store \<Rightarrow> 'p \<Rightarrow> 'p peer_anchor_store" where
  "remove_peer s peer_id = AList.delete peer_id s"

definition anchor_count :: "'p peer_anchor_store \<Rightarrow> nat" where
  "anchor_count s = length s"

datatype anchor_rejection = HbCountZero | ChainHeadZero | PubkeyZero | SignatureEmpty

datatype handshake_result = HandshakeAccepted u64 u32 | HandshakeRejected anchor_rejection | HandshakePending

definition serialize_epoch_anchor :: "epoch_anchor \<Rightarrow> bytes" where
  "serialize_epoch_anchor a =
     ea_node_id a @ le_bytes 8 (ea_epoch_id a) @ le_bytes 4 (ea_hb_count a) @ ea_chain_head a @ ea_pubkey a
     @ le_bytes 4 (of_nat (length (ea_sig a)) :: u32) @ ea_sig a"

definition deserialize_epoch_anchor :: "bytes \<Rightarrow> epoch_anchor option" where
  "deserialize_epoch_anchor b =
     (if length b < 84 then None
      else
        let sig_len = unat (from_le_bytes (byte_range 80 84 b) :: u32)
        in if length b < 84 + sig_len then None
           else Some \<lparr>ea_node_id = byte_range 0 4 b, ea_epoch_id = from_le_bytes (byte_range 4 12 b),
             ea_hb_count = from_le_bytes (byte_range 12 16 b), ea_chain_head = byte_range 16 48 b,
             ea_pubkey = byte_range 48 80 b, ea_sig = byte_range 84 (84 + sig_len) b\<rparr>)"

definition validate_epoch_anchor_basic :: "epoch_anchor \<Rightarrow> handshake_result" where
  "validate_epoch_anchor_basic a =
     (if ea_hb_count a = 0 then HandshakeRejected HbCountZero
      else if ea_chain_head a = replicate 32 0 then HandshakeRejected ChainHeadZero
      else if ea_pubkey a = replicate 32 0 then HandshakeRejected PubkeyZero
      else if ea_sig a = [] then HandshakeRejected SignatureEmpty
      else HandshakeAccepted (ea_epoch_id a) (ea_hb_count a))"

section \<open>The heartbeat service\<close>

record heartbeat_service =
  sv_node_id :: bytes
  sv_node_key :: bytes
  sv_current_epoch :: u64
  sv_last_seq_num :: u32
  sv_last_hb_bytes :: "bytes option"
  sv_smt_root :: bytes
  sv_verifier :: hb_verifier
  sv_epoch_tracker :: epoch_tracker
  sv_uptime_counters :: "(bytes \<times> u32) list"

definition heartbeat_service_new :: "(bytes \<Rightarrow> bytes) \<Rightarrow> bytes \<Rightarrow> bytes \<Rightarrow> heartbeat_service" where
  "heartbeat_service_new blake3 full_node_id node_key =
     \<lparr>sv_node_id = compress_node_id blake3 full_node_id, sv_node_key = node_key, sv_current_epoch = 0, sv_last_seq_num = 0,
      sv_last_hb_bytes = None, sv_smt_root = replicate 32 0, sv_verifier = hb_verifier_new,
      sv_epoch_tracker = epoch_tracker_new, sv_uptime_counters = []\<rparr>"

definition produce_heartbeat :: "(bytes \<Rightarrow> bytes) \<Rightarrow> u32 \<Rightarrow> heartbeat_service \<Rightarrow> heartbeat_service \<times> heartbeat_unit" where
  "produce_heartbeat blake3 now s =
     (let seq_num = sv_last_seq_num s + 1;
          current_epoch = epoch_from_seq_num seq_num;
          prev_hash = (case sv_last_hb_bytes s of
              Some b \<Rightarrow> compute_prev_hash blake3 (hb_from_bytes b)
            | None \<Rightarrow> replicate 32 0);
          node_key_epoch = derive_node_key_epoch blake3 (sv_node_key s) current_epoch;
          mac = compute_heartbeat_mac blake3 node_key_epoch (sv_node_id s) seq_num now (sv_smt_root s) (replicate 32 0) 0 prev_hash;
          hb = \<lparr>hb_node_id = sv_node_id s, hb_seq_num = seq_num, hb_timestamp = now, hb_smt_root = sv_smt_root s,
            hb_imt_frontier = replicate 32 0, hb_imt_count = 0, hb_prev_hash = prev_hash, hb_mac = mac\<rparr>
      in (s\<lparr>sv_last_seq_num := seq_num, sv_current_epoch := current_epoch, sv_last_hb_bytes := Some (hb_to_bytes hb),
            sv_epoch_tracker := et_record_heartbeat (sv_epoch_tracker s) hb current_epoch\<rparr>, hb))"

definition verify_peer_heartbeat ::
  "(bytes \<Rightarrow> bytes) \<Rightarrow> heartbeat_service \<Rightarrow> bytes \<Rightarrow> u32 \<Rightarrow> bytes \<Rightarrow> heartbeat_service \<times> bool" where
  "verify_peer_heartbeat blake3 s hb_bytes nmt peer_node_key_epoch =
     (if length hb_bytes \<noteq> 148 then (s, False)
      else
        let hb = hb_from_bytes hb_bytes;
            (v, r) = hv_verify blake3 (sv_verifier s) hb nmt peer_node_key_epoch (sv_current_epoch s)
        in case r of
            Inr _ \<Rightarrow> (s\<lparr>sv_verifier := v, sv_uptime_counters := AList.update (hb_node_id hb)
                (unwrap_or (map_of (sv_uptime_counters s) (hb_node_id hb)) 0 + 1) (sv_uptime_counters s)\<rparr>, True)
          | Inl _ \<Rightarrow> (s\<lparr>sv_verifier := v\<rparr>, False))"

definition verify_peer_heartbeat_with_id ::
  "(bytes \<Rightarrow> bytes) \<Rightarrow> heartbeat_service \<Rightarrow> bytes \<Rightarrow> u32 \<Rightarrow> bytes \<Rightarrow> heartbeat_service \<times> bytes option" where
  "verify_peer_heartbeat_with_id blake3 s dat nmt peer_nke =
     (if length dat \<noteq> 148 then (s, None)
      else case verify_peer_heartbeat blake3 s dat nmt peer_nke of
          (s', ok) \<Rightarrow> (s', if ok then Some (hb_node_id (hb_from_bytes dat)) else None))"

definition reset_peer_seq :: "heartbeat_service \<Rightarrow> bytes \<Rightarrow> heartbeat_service" where
  "reset_peer_seq s node_id = s\<lparr>sv_verifier := hv_reset_peer (sv_verifier s) node_id\<rparr>"

definition update_smt_root :: "heartbeat_service \<Rightarrow> bytes \<Rightarrow> heartbeat_service" where
  "update_smt_root s root = s\<lparr>sv_smt_root := root\<rparr>"

definition uptime_count :: "heartbeat_service \<Rightarrow> bytes \<Rightarrow> u32" where
  "uptime_count s node_id = unwrap_or (map_of (sv_uptime_counters s) node_id) 0"

section \<open>The tree of outputs\<close>

definition GENESIS_EPOCH_ID :: u64 where
  "GENESIS_EPOCH_ID = 0"

record utxo_set_state =
  us_utxo_set_root :: bytes
  us_snapshot_epoch :: u64
  us_utxo_count :: u64

definition utxo_genesis :: "(u64 list \<Rightarrow> u64 list) \<Rightarrow> utxo_set_state" where
  "utxo_genesis perm = \<lparr>us_utxo_set_root = imt_empty_root perm, us_snapshot_epoch = GENESIS_EPOCH_ID, us_utxo_count = 0\<rparr>"

definition is_valid_for_epoch :: "utxo_set_state \<Rightarrow> u64 \<Rightarrow> bool" where
  "is_valid_for_epoch st epoch_k \<longleftrightarrow>
     us_snapshot_epoch st = saturating_sub epoch_k 1 \<or> epoch_k = 0 \<and> us_snapshot_epoch st = 0"

record utxo_set_epoch_smt =
  ue_imt :: imt
  ue_current_epoch :: u64

definition utxo_new :: utxo_set_epoch_smt where
  "utxo_new = \<lparr>ue_imt = imt_new, ue_current_epoch = GENESIS_EPOCH_ID\<rparr>"

definition insert_utxo :: "(u64 list \<Rightarrow> u64 list) \<Rightarrow> utxo_set_epoch_smt \<Rightarrow> bytes \<Rightarrow> u64 \<Rightarrow> utxo_set_epoch_smt option" where
  "insert_utxo perm u commitment epoch =
     (case imt_append perm (ue_imt u) commitment of
        (t, Inr _) \<Rightarrow> Some (u\<lparr>ue_imt := t, ue_current_epoch := epoch\<rparr>)
      | (t, Inl _) \<Rightarrow> None)"

primrec insert_utxos :: "(u64 list \<Rightarrow> u64 list) \<Rightarrow> u64 \<Rightarrow> tx_entry list \<Rightarrow> utxo_set_epoch_smt \<Rightarrow> utxo_set_epoch_smt option" where
  "insert_utxos perm epoch_id [] u = Some u"
| "insert_utxos perm epoch_id (tx # txs) u =
     (case insert_utxo perm u (te_tx_hash tx) epoch_id of None \<Rightarrow> None | Some u' \<Rightarrow> insert_utxos perm epoch_id txs u')"

definition process_epoch_transactions ::
  "(bytes \<Rightarrow> bytes) \<Rightarrow> (u64 list \<Rightarrow> u64 list) \<Rightarrow> utxo_set_epoch_smt \<Rightarrow> tx_entry list \<Rightarrow> u64 \<Rightarrow> utxo_set_epoch_smt option" where
  "process_epoch_transactions blake3 perm u txs epoch_id =
     map_option (\<lambda>u. u\<lparr>ue_current_epoch := epoch_id\<rparr>)
       (insert_utxos perm epoch_id (sort_transactions_canonical blake3 txs epoch_id) u)"

definition take_snapshot :: "(u64 list \<Rightarrow> u64 list) \<Rightarrow> utxo_set_epoch_smt \<Rightarrow> u64 \<Rightarrow> utxo_set_state" where
  "take_snapshot perm u epoch_id =
     \<lparr>us_utxo_set_root = imt_root perm (ue_imt u), us_snapshot_epoch = epoch_id, us_utxo_count = imt_count (ue_imt u)\<rparr>"

definition utxo_root :: "(u64 list \<Rightarrow> u64 list) \<Rightarrow> utxo_set_epoch_smt \<Rightarrow> bytes" where
  "utxo_root perm u = imt_root perm (ue_imt u)"

definition utxo_prove_membership :: "(u64 list \<Rightarrow> u64 list) \<Rightarrow> utxo_set_epoch_smt \<Rightarrow> u64 \<Rightarrow> imt_error + imt_path" where
  "utxo_prove_membership perm u leaf_index = prove_membership perm (ue_imt u) leaf_index"

definition utxo_reset :: "(u64 list \<Rightarrow> u64 list) \<Rightarrow> utxo_set_epoch_smt \<Rightarrow> utxo_set_epoch_smt option" where
  "utxo_reset perm u = map_option (\<lambda>t. u\<lparr>ue_imt := t\<rparr>) (imt_reset perm (ue_imt u))"

datatype sync_verification_result = SyncValid | RootMismatch bytes bytes | NoManifestAvailable

definition verify_utxo_root_against_manifest :: "bytes \<Rightarrow> bytes \<Rightarrow> sync_verification_result" where
  "verify_utxo_root_against_manifest peer_root expected_root =
     (if peer_root = expected_root then SyncValid else RootMismatch peer_root expected_root)"

definition extract_expected_root_from_manifest :: "(bytes \<Rightarrow> bytes) \<Rightarrow> bytes \<Rightarrow> u64 \<Rightarrow> bytes" where
  "extract_expected_root_from_manifest blake3 network_health_digest epoch_id =
     blake3 (network_health_digest @ le_bytes 8 epoch_id)"

section \<open>Epoch transitions\<close>

datatype atomicity_status = Consistent u64 | SMTArchivedImtNotReset u64 | ImtResetSmtNotArchived u64 | Fresh

datatype epoch_transition_error = NonSequentialEpoch u64 u64 | InconsistentState | ImtError imt_error

record orchestrator =
  or_imt :: imt
  or_utxo :: utxo_set_epoch_smt
  or_current_epoch :: u64
  or_smt_archived :: bool
  or_imt_reset :: bool

definition orchestrator_new :: orchestrator where
  "orchestrator_new = \<lparr>or_imt = imt_new, or_utxo = utxo_new, or_current_epoch = GENESIS_EPOCH_ID,
     or_smt_archived = False, or_imt_reset = False\<rparr>"

definition detect_atomicity_status :: "orchestrator \<Rightarrow> atomicity_status" where
  "detect_atomicity_status o' =
     (case (or_smt_archived o', or_imt_reset o') of
        (True, True) \<Rightarrow> Consistent (or_current_epoch o')
      | (True, False) \<Rightarrow> SMTArchivedImtNotReset (or_current_epoch o')
      | (False, True) \<Rightarrow> ImtResetSmtNotArchived (or_current_epoch o')
      | (False, False) \<Rightarrow>
          if or_current_epoch o' = GENESIS_EPOCH_ID \<and> imt_count (or_imt o') = 0 then Fresh
          else Consistent (or_current_epoch o'))"

definition execute_epoch_transition ::
  "(u64 list \<Rightarrow> u64 list) \<Rightarrow> orchestrator \<Rightarrow> u64 \<Rightarrow> (orchestrator \<times> (epoch_transition_error + utxo_set_state)) option" where
  "execute_epoch_transition perm o' new_epoch_id =
     (if new_epoch_id \<noteq> or_current_epoch o' + 1
      then Some (o', Inl (NonSequentialEpoch (or_current_epoch o' + 1) new_epoch_id))
      else
        let snapshot = take_snapshot perm (or_utxo o') (or_current_epoch o')
        in map_option (\<lambda>t. (o'\<lparr>or_imt := t, or_current_epoch := new_epoch_id, or_smt_archived := False,
              or_imt_reset := False\<rparr>, Inr snapshot)) (imt_reset perm (or_imt o')))"

definition recover_inconsistent_state ::
  "(u64 list \<Rightarrow> u64 list) \<Rightarrow> orchestrator \<Rightarrow> (orchestrator \<times> (epoch_transition_error + unit)) option" where
  "recover_inconsistent_state perm o' =
     (case detect_atomicity_status o' of
        Consistent _ \<Rightarrow> Some (o', Inr ())
      | Fresh \<Rightarrow> Some (o', Inr ())
      | SMTArchivedImtNotReset _ \<Rightarrow> map_option (\<lambda>t. (o'\<lparr>or_imt := t, or_imt_reset := True\<rparr>, Inr ())) (imt_reset perm (or_imt o'))
      | ImtResetSmtNotArchived _ \<Rightarrow> Some (o'\<lparr>or_smt_archived := True\<rparr>, Inr ()))"

definition process_transaction ::
  "(u64 list \<Rightarrow> u64 list) \<Rightarrow> orchestrator \<Rightarrow> bytes \<Rightarrow> (orchestrator \<times> (epoch_transition_error + unit)) option" where
  "process_transaction perm o' commitment =
     (let go = (case imt_append perm (or_imt o') commitment of
          (t, Inl e) \<Rightarrow> Some (o'\<lparr>or_imt := t\<rparr>, Inl (ImtError e))
        | (t, Inr _) \<Rightarrow> map_option (\<lambda>u. (o'\<lparr>or_imt := t, or_utxo := u\<rparr>, Inr ()))
            (insert_utxo perm (or_utxo o') commitment (or_current_epoch o')))
      in case detect_atomicity_status o' of
          Consistent _ \<Rightarrow> go
        | Fresh \<Rightarrow> go
        | _ \<Rightarrow> Some (o', Inl InconsistentState))"

section \<open>The life cycle of a node\<close>

datatype lifecycle_state = LBootstrapping | LSyncing | LActive | LPartitioned

record node_state_machine =
  ls_current_state :: lifecycle_state
  ls_is_internet_available :: bool
  ls_is_smt_synced :: bool

definition node_state_machine_new :: node_state_machine where
  "node_state_machine_new = \<lparr>ls_current_state = LBootstrapping, ls_is_internet_available = True, ls_is_smt_synced = False\<rparr>"

definition lifecycle_evaluate :: "node_state_machine \<Rightarrow> node_state_machine" where
  "lifecycle_evaluate m =
     (case ls_current_state m of
        LBootstrapping \<Rightarrow> if ls_is_internet_available m then m\<lparr>ls_current_state := LSyncing\<rparr> else m
      | LSyncing \<Rightarrow>
          let m = (if ls_is_smt_synced m then m\<lparr>ls_current_state := LActive\<rparr> else m)
          in if \<not> ls_is_internet_available m then m\<lparr>ls_current_state := LPartitioned\<rparr> else m
      | LActive \<Rightarrow>
          let m = (if \<not> ls_is_internet_available m then m\<lparr>ls_current_state := LPartitioned\<rparr> else m)
          in if \<not> ls_is_smt_synced m then m\<lparr>ls_current_state := LSyncing\<rparr> else m
      | LPartitioned \<Rightarrow> if ls_is_internet_available m then m\<lparr>ls_current_state := LSyncing\<rparr> else m)"

definition update_network_sensor :: "node_state_machine \<Rightarrow> bool \<Rightarrow> bool \<Rightarrow> node_state_machine" where
  "update_network_sensor m internet_status sync_status =
     lifecycle_evaluate (m\<lparr>ls_is_internet_available := internet_status, ls_is_smt_synced := sync_status\<rparr>)"

section \<open>Wire format of anchors\<close>

definition anchor_shaped :: "epoch_anchor \<Rightarrow> bool" where
  "anchor_shaped a \<longleftrightarrow> length (ea_node_id a) = 4 \<and> length (ea_chain_head a) = 32 \<and> length (ea_pubkey a) = 32 \<and> length (ea_sig a) < 2 ^ 32"

lemma serialize_split: "serialize_epoch_anchor a = canonical_bytes_to_sign a @ le_bytes 4 (of_nat (length (ea_sig a)) :: u32) @ ea_sig a"
  by (simp add: serialize_epoch_anchor_def canonical_bytes_to_sign_def)

lemma length_canonical_bytes: "anchor_shaped a \<Longrightarrow> length (canonical_bytes_to_sign a) = 80"
  by (simp add: anchor_shaped_def canonical_bytes_to_sign_def)

text \<open>Reading back a serialized anchor returns it, whatever follows it; conversely what is read determines the
  consumed prefix.\<close>

theorem epoch_anchor_roundtrip:
  assumes "anchor_shaped a"
  shows "deserialize_epoch_anchor (serialize_epoch_anchor a @ rest) = Some a"
proof -
  let ?b = "serialize_epoch_anchor a @ rest"
  have len: "unat (of_nat (length (ea_sig a)) :: u32) = length (ea_sig a)"
    using assms by (intro unat_of_nat_small) (simp add: anchor_shaped_def)
  have "byte_range 80 84 ?b = le_bytes 4 (of_nat (length (ea_sig a)) :: u32)"
    using length_canonical_bytes [OF assms] by (simp add: serialize_split byte_range_def)
  then have sig: "unat (from_le_bytes (byte_range 80 84 ?b) :: u32) = length (ea_sig a)"
    by (simp add: from_le_bytes_le_bytes len)
  show ?thesis
    unfolding deserialize_epoch_anchor_def Let_def sig
    using assms by (cases a) (simp add: anchor_shaped_def serialize_epoch_anchor_def byte_range_def from_le_bytes_le_bytes)
qed

text \<open>The signed bytes fix every field but the signature.\<close>

theorem epoch_anchor_signed_bytes:
  assumes "anchor_shaped a" "anchor_shaped b" "canonical_bytes_to_sign a = canonical_bytes_to_sign b"
  shows "a\<lparr>ea_sig := []\<rparr> = b\<lparr>ea_sig := []\<rparr>"
  using assms by (cases a, cases b) (simp add: anchor_shaped_def canonical_bytes_to_sign_def le_bytes_inject)

section \<open>Reachable states of the orchestrator\<close>

text \<open>\<open>or_reach perm o all cur\<close>: the operations can lead to \<open>o\<close> after the commitments \<open>all\<close> were processed,
  the last of them, \<open>cur\<close>, in the current epoch.\<close>

inductive or_reach :: "(u64 list \<Rightarrow> u64 list) \<Rightarrow> orchestrator \<Rightarrow> bytes list \<Rightarrow> bytes list \<Rightarrow> bool" for perm where
  or_new: "or_reach perm orchestrator_new [] []"
| or_tx: "or_reach perm s cs cur \<Longrightarrow> process_transaction perm s c = Some (s', Inr ()) \<Longrightarrow> or_reach perm s' (cs @ [c]) (cur @ [c])"
| or_tx_refused: "or_reach perm s cs cur \<Longrightarrow> process_transaction perm s c = Some (s', Inl e) \<Longrightarrow> or_reach perm s' cs cur"
| or_epoch: "or_reach perm s cs cur \<Longrightarrow> execute_epoch_transition perm s k = Some (s', Inr snap) \<Longrightarrow> or_reach perm s' cs []"
| or_epoch_refused: "or_reach perm s cs cur \<Longrightarrow> execute_epoch_transition perm s k = Some (s', Inl e) \<Longrightarrow> or_reach perm s' cs cur"
| or_recover: "or_reach perm s cs cur \<Longrightarrow> recover_inconsistent_state perm s = Some (s', r) \<Longrightarrow> or_reach perm s' cs cur"

definition or_inv :: "(u64 list \<Rightarrow> u64 list) \<Rightarrow> orchestrator \<Rightarrow> bytes list \<Rightarrow> bytes list \<Rightarrow> bool" where
  "or_inv perm s cs cur \<longleftrightarrow> or_imt s = imt_appends perm cur imt_new \<and> ue_imt (or_utxo s) = imt_appends perm cs imt_new
     \<and> \<not> or_smt_archived s \<and> \<not> or_imt_reset s \<and> length cur \<le> length cs \<and> length cs \<le> 2 ^ 32"

lemma imt_reset_new: "imt_reset perm t = Some imt_new"
  by (cases t) (simp add: imt_reset_def Let_def imt_new_def imt_root_def imt_empty_root_def)

lemma imt_appends_snoc: "imt_appends perm (cs @ [c]) t = fst (imt_append perm (imt_appends perm cs t) c)"
  by (simp add: imt_appends_def)

lemma imt_append_room:
  assumes "length cs \<le> 2 ^ 32"
  shows "imt_append perm (imt_appends perm cs imt_new) c =
    (if length cs < 2 ^ 32 then (imt_appends perm (cs @ [c]) imt_new, Inr (of_nat (length cs)))
     else (imt_appends perm cs imt_new, Inl TreeFull))"
  using imt_append_outcomes [OF assms, of perm c] assms by (auto simp: imt_appends_snoc prod_eq_iff)

lemma detect_reachable:
  "or_inv perm s cs cur \<Longrightarrow> detect_atomicity_status s = (if or_current_epoch s = 0 \<and> imt_count (or_imt s) = 0 then Fresh else Consistent (or_current_epoch s))"
  by (simp add: or_inv_def detect_atomicity_status_def GENESIS_EPOCH_ID_def)

lemma process_transaction_eq:
  assumes "or_inv perm s cs cur"
  shows "process_transaction perm s c =
    (if length cs < 2 ^ 32
     then Some (s\<lparr>or_imt := imt_appends perm (cur @ [c]) imt_new,
       or_utxo := \<lparr>ue_imt = imt_appends perm (cs @ [c]) imt_new, ue_current_epoch = or_current_epoch s\<rparr>\<rparr>, Inr ())
     else if length cur < 2 ^ 32 then None else Some (s, Inl (ImtError TreeFull)))"
proof -
  have s: "or_imt s = imt_appends perm cur imt_new" "ue_imt (or_utxo s) = imt_appends perm cs imt_new" "length cur \<le> 2 ^ 32" "length cs \<le> 2 ^ 32"
    "length cur \<le> length cs"
    using assms by (auto simp: or_inv_def)
  have "process_transaction perm s c = (case imt_append perm (or_imt s) c of
          (t, Inl e) \<Rightarrow> Some (s\<lparr>or_imt := t\<rparr>, Inl (ImtError e))
        | (t, Inr _) \<Rightarrow> map_option (\<lambda>u. (s\<lparr>or_imt := t, or_utxo := u\<rparr>, Inr ()))
            (insert_utxo perm (or_utxo s) c (or_current_epoch s)))"
    by (cases "or_current_epoch s = 0 \<and> imt_count (or_imt s) = 0")
      (simp_all only: process_transaction_def Let_def detect_reachable [OF assms] if_True if_False atomicity_status.case simp_thms)
  moreover have "insert_utxo perm (or_utxo s) c (or_current_epoch s) = (if length cs < 2 ^ 32
      then Some \<lparr>ue_imt = imt_appends perm (cs @ [c]) imt_new, ue_current_epoch = or_current_epoch s\<rparr> else None)"
    by (cases "or_utxo s") (use s in \<open>simp add: insert_utxo_def imt_append_room\<close>)
  moreover have "s\<lparr>or_imt := imt_appends perm cur imt_new\<rparr> = s" unfolding s(1) [symmetric] by simp
  ultimately show ?thesis using s by (simp add: imt_append_room)
qed

lemma or_reach_inv: "or_reach perm s cs cur \<Longrightarrow> or_inv perm s cs cur"
proof (induction rule: or_reach.induct)
  case or_new
  then show ?case by (simp add: or_inv_def orchestrator_new_def utxo_new_def imt_appends_def)
next
  case (or_tx s cs cur c s')
  then show ?case by (auto simp: process_transaction_eq or_inv_def split: if_splits)
next
  case (or_tx_refused s cs cur c s' e)
  then show ?case by (auto simp: process_transaction_eq split: if_splits)
next
  case (or_epoch s cs cur k s' snap)
  then show ?case by (auto simp: execute_epoch_transition_def Let_def imt_reset_new or_inv_def imt_appends_def split: if_splits)
next
  case (or_epoch_refused s cs cur k s' e)
  then show ?case by (auto simp: execute_epoch_transition_def Let_def imt_reset_new split: if_splits)
next
  case (or_recover s cs cur s' r)
  then show ?case by (auto simp: recover_inconsistent_state_def detect_reachable split: if_splits)
qed

section \<open>Properties\<close>

text \<open>C37. In every reachable state the tree of the current epoch holds exactly the commitments of this epoch and
  the tree of outputs those of all epochs, and the flags that mark an interrupted transition are never
  set: no reachable state is reported inconsistent, so recovery does nothing.  A transaction is added to both
  trees as long as the tree of outputs has room, whose overflow is a panic, and it is refused, with the state
  unchanged, exactly when the tree of the epoch is full too.\<close>

theorem orchestrator_invariant:
  assumes "or_reach perm s cs cur"
  shows "or_imt s = imt_appends perm cur imt_new \<and> ue_imt (or_utxo s) = imt_appends perm cs imt_new
    \<and> \<not> or_smt_archived s \<and> \<not> or_imt_reset s
    \<and> detect_atomicity_status s \<in> {Fresh, Consistent (or_current_epoch s)} \<and> recover_inconsistent_state perm s = Some (s, Inr ())
    \<and> process_transaction perm s c =
        (if length cs < 2 ^ 32
         then Some (s\<lparr>or_imt := imt_appends perm (cur @ [c]) imt_new,
           or_utxo := \<lparr>ue_imt = imt_appends perm (cs @ [c]) imt_new, ue_current_epoch = or_current_epoch s\<rparr>\<rparr>, Inr ())
         else if length cur < 2 ^ 32 then None else Some (s, Inl (ImtError TreeFull)))"
  using or_reach_inv [OF assms] detect_reachable [OF or_reach_inv [OF assms]] process_transaction_eq [OF or_reach_inv [OF assms], of c]
  by (auto simp: recover_inconsistent_state_def or_inv_def)

theorem orchestrator_invariant_witness:
  "\<exists>s s'. process_transaction id orchestrator_new (replicate 32 1) = Some (s, Inr ())
    \<and> process_transaction id s (replicate 32 2) = Some (s', Inr ())
    \<and> or_imt s' = imt_appends id [replicate 32 1, replicate 32 2] imt_new"
proof -
  have "\<exists>s. process_transaction id orchestrator_new (replicate 32 1) = Some (s, Inr ()) \<and> or_reach id s [replicate 32 1] [replicate 32 1]"
    using or_tx [OF or_new, of id "replicate 32 1"] process_transaction_eq [OF or_reach_inv [OF or_new], of id "replicate 32 1"] by auto
  then show ?thesis using orchestrator_invariant [of id _ "[replicate 32 1]" "[replicate 32 1]" "replicate 32 2"] by auto
qed

text \<open>The epoch transition: from every reachable state the step to the next epoch succeeds, resets the tree of
  the epoch and returns a snapshot of all outputs so far that is valid for the next epoch, and every
  commitment ever processed has a membership proof against that snapshot.\<close>

theorem epoch_transition_complete:
  assumes "or_reach perm s cs cur" "or_current_epoch s + 1 \<noteq> 0"
  shows "\<exists>s' snap. execute_epoch_transition perm s (or_current_epoch s + 1) = Some (s', Inr snap)
    \<and> or_reach perm s' cs [] \<and> or_imt s' = imt_new \<and> or_current_epoch s' = or_current_epoch s + 1
    \<and> is_valid_for_epoch snap (or_current_epoch s') \<and> us_utxo_count snap = of_nat (length cs)
    \<and> (\<forall>i<length cs. \<exists>path. utxo_prove_membership perm (or_utxo s') (of_nat i) = Inr path
        \<and> imt_membership_verify perm (cs ! i) path (us_utxo_set_root snap) (us_utxo_count snap))"
proof -
  note inv = or_reach_inv [OF assms(1)]
  let ?s' = "s\<lparr>or_imt := imt_new, or_current_epoch := or_current_epoch s + 1, or_smt_archived := False, or_imt_reset := False\<rparr>"
  let ?snap = "take_snapshot perm (or_utxo s) (or_current_epoch s)"
  have utxo: "ue_imt (or_utxo s) = imt_appends perm cs imt_new" "length cs \<le> 2 ^ 32" using inv by (auto simp: or_inv_def)
  have run: "execute_epoch_transition perm s (or_current_epoch s + 1) = Some (?s', Inr ?snap)"
    by (simp add: execute_epoch_transition_def Let_def imt_reset_new)
  have valid: "is_valid_for_epoch ?snap (or_current_epoch s + 1)"
    using assms(2) by (simp add: is_valid_for_epoch_def take_snapshot_def saturating_sub_def word_less_nat_alt unat_eq_zero)
  have cnt: "us_utxo_count ?snap = of_nat (length cs)" using imt_appends_state [OF utxo(2), of perm] by (simp add: take_snapshot_def utxo)
  have "\<exists>path. utxo_prove_membership perm (or_utxo s) (of_nat i) = Inr path
      \<and> imt_membership_verify perm (cs ! i) path (us_utxo_set_root ?snap) (us_utxo_count ?snap)" if "i < length cs" for i
    using imt_path_climbs [OF utxo(2) that, of perm] imt_appends_state [OF utxo(2), of perm]
    by (fastforce simp: utxo_prove_membership_def utxo(1) imt_membership_verify_def take_snapshot_def not_le)
  then show ?thesis using run valid cnt or_epoch [OF assms(1) run] by (intro exI [of _ ?s'] exI [of _ ?snap]) simp
qed

theorem epoch_transition_complete_witness:
  "\<exists>s' snap. execute_epoch_transition id orchestrator_new 1 = Some (s', Inr snap)
    \<and> or_reach id s' [] [] \<and> or_imt s' = imt_new \<and> or_current_epoch s' = 1 \<and> is_valid_for_epoch snap 1 \<and> us_utxo_count snap = 0"
  using epoch_transition_complete [OF or_new, of id] by (auto simp: orchestrator_new_def GENESIS_EPOCH_ID_def)

section \<open>Heartbeats between nodes\<close>

text \<open>The sender produces a heartbeat at each of the times; the receiver verifies them in order, each against its
  own network time and the sender's key of the epoch of the heartbeat.\<close>

primrec produce_all :: "(bytes \<Rightarrow> bytes) \<Rightarrow> heartbeat_service \<Rightarrow> u32 list \<Rightarrow> heartbeat_unit list" where
  "produce_all blake3 s [] = []"
| "produce_all blake3 s (now # nows) = (case produce_heartbeat blake3 now s of (s', hb) \<Rightarrow> hb # produce_all blake3 s' nows)"

definition verify_step :: "(bytes \<Rightarrow> bytes) \<Rightarrow> bytes \<Rightarrow> heartbeat_unit \<times> u32 \<Rightarrow> heartbeat_service \<times> bool \<Rightarrow> heartbeat_service \<times> bool" where
  "verify_step blake3 node_key item st =
     (case (item, st) of ((hb, nmt), (r, ok)) \<Rightarrow>
        case verify_peer_heartbeat blake3 r (hb_to_bytes hb) nmt
            (derive_node_key_epoch blake3 node_key (epoch_from_seq_num (hb_seq_num hb))) of
          (r', ok') \<Rightarrow> (r', ok \<and> ok'))"

definition in_window :: "u32 \<Rightarrow> u32 \<Rightarrow> bool" where
  "in_window now nmt \<longleftrightarrow> now \<le> saturating_add nmt T_FUTURE_TOLERANCE_S \<and> saturating_sub nmt T_PAST_S \<le> now"

text \<open>The receiver has the sender's last heartbeat, or none when there was none.\<close>

definition in_step :: "heartbeat_service \<Rightarrow> heartbeat_service \<Rightarrow> bool" where
  "in_step s r \<longleftrightarrow> length (sv_node_id s) = 4 \<and> length (sv_smt_root s) = 32
     \<and> (case sv_last_hb_bytes s of
          None \<Rightarrow> sv_last_seq_num s = 0 \<and> map_of (hv_node_states (sv_verifier r)) (sv_node_id s) = None
        | Some b \<Rightarrow> map_of (hv_node_states (sv_verifier r)) (sv_node_id s) = Some \<lparr>hs_last_seq_num = sv_last_seq_num s, hs_last_hb_bytes = b\<rparr>)"

lemma produce_heartbeat_shaped:
  assumes "\<And>m. length (blake3 m) = 32" "length (sv_node_id s) = 4" "length (sv_smt_root s) = 32"
  shows "hb_shaped (snd (produce_heartbeat blake3 now s))"
  using assms by (simp add: produce_heartbeat_def Let_def hb_shaped_def compute_heartbeat_mac_def compute_prev_hash_def split: option.splits)

lemma produce_heartbeat_fields:
  "hb_node_id (snd (produce_heartbeat blake3 now s)) = sv_node_id s" "hb_seq_num (snd (produce_heartbeat blake3 now s)) = sv_last_seq_num s + 1"
  "hb_timestamp (snd (produce_heartbeat blake3 now s)) = now" "sv_node_id (fst (produce_heartbeat blake3 now s)) = sv_node_id s"
  "sv_smt_root (fst (produce_heartbeat blake3 now s)) = sv_smt_root s" "sv_node_key (fst (produce_heartbeat blake3 now s)) = sv_node_key s"
  "sv_last_seq_num (fst (produce_heartbeat blake3 now s)) = sv_last_seq_num s + 1"
  "sv_last_hb_bytes (fst (produce_heartbeat blake3 now s)) = Some (hb_to_bytes (snd (produce_heartbeat blake3 now s)))"
  by (simp_all add: produce_heartbeat_def Let_def)

lemma produced_accepted:
  assumes len: "\<And>m. length (blake3 m) = 32" and sync: "in_step s r" and win: "in_window now nmt"
    and room: "unat (sv_last_seq_num s) + 1 < 2 ^ 32"
  defines "hb \<equiv> snd (produce_heartbeat blake3 now s)"
  shows "\<exists>v. hv_verify blake3 (sv_verifier r) hb nmt (derive_node_key_epoch blake3 (sv_node_key s) (epoch_from_seq_num (hb_seq_num hb))) e = (v, Inr ())
    \<and> map_of (hv_node_states v) (sv_node_id s) = Some \<lparr>hs_last_seq_num = sv_last_seq_num s + 1, hs_last_hb_bytes = hb_to_bytes hb\<rparr>"
proof -
  have seq: "unat (sv_last_seq_num s + 1) = unat (sv_last_seq_num s) + 1" using room by (simp add: unat_add_no_overflow)
  have time: "\<not> saturating_add nmt T_FUTURE_TOLERANCE_S < now" "\<not> now < saturating_sub nmt T_PAST_S"
    using win by (simp_all add: in_window_def not_less)
  have lastseq: "hv_last_seq_num (sv_verifier r) (sv_node_id s) = sv_last_seq_num s"
    using sync by (auto simp: in_step_def hv_last_seq_num_def split: option.splits)
  have mono: "\<not> sv_last_seq_num s + 1 \<le> sv_last_seq_num s" using seq by (simp add: word_le_nat_alt)
  have restart: "\<not> (sv_last_seq_num s + 1 = 1 \<and> 1 < sv_last_seq_num s)" using seq by (auto simp: word_less_nat_alt word_unat_eq_iff)
  have chain: "(case map_of (hv_node_states (sv_verifier r)) (sv_node_id s) of None \<Rightarrow> None
      | Some state \<Rightarrow> (let expected_prev = compute_prev_hash blake3 (hb_from_bytes (hs_last_hb_bytes state))
         in if hb_prev_hash hb \<noteq> expected_prev then Some (PrevHashMismatch expected_prev (hb_prev_hash hb)) else None)) = None"
    unfolding Let_def using sync by (auto simp: in_step_def hb_def produce_heartbeat_def Let_def split: option.splits)
  have mac: "hb_mac hb = compute_heartbeat_mac blake3 (derive_node_key_epoch blake3 (sv_node_key s) (epoch_from_seq_num (hb_seq_num hb)))
      (sv_node_id s) (sv_last_seq_num s + 1) now (hb_smt_root hb) (hb_imt_frontier hb) (hb_imt_count hb) (hb_prev_hash hb)"
    by (simp add: hb_def produce_heartbeat_def Let_def)
  have f: "hb_node_id hb = sv_node_id s" "hb_seq_num hb = sv_last_seq_num s + 1" "hb_timestamp hb = now"
    by (simp_all add: hb_def produce_heartbeat_fields)
  show ?thesis
    unfolding hv_verify_def f(1,3) f(2) lastseq Let_def
    unfolding if_not_P [OF restart] using time mono chain [unfolded Let_def] mac [unfolded f(2)] by simp
qed

lemma verify_step_accepts:
  assumes len: "\<And>m. length (blake3 m) = 32" and sync: "in_step s r" and win: "in_window now nmt"
    and room: "unat (sv_last_seq_num s) + 1 < 2 ^ 32"
  shows "\<exists>r'. verify_step blake3 (sv_node_key s) (snd (produce_heartbeat blake3 now s), nmt) (r, ok) = (r', ok)
    \<and> in_step (fst (produce_heartbeat blake3 now s)) r' \<and> uptime_count r' (sv_node_id s) = uptime_count r (sv_node_id s) + 1"
proof -
  let ?hb = "snd (produce_heartbeat blake3 now s)"
  have shaped: "hb_shaped ?hb" using sync by (intro produce_heartbeat_shaped len) (simp_all add: in_step_def)
  obtain v where v: "hv_verify blake3 (sv_verifier r) ?hb nmt
      (derive_node_key_epoch blake3 (sv_node_key s) (epoch_from_seq_num (hb_seq_num ?hb))) (sv_current_epoch r) = (v, Inr ())"
    "map_of (hv_node_states v) (sv_node_id s) = Some \<lparr>hs_last_seq_num = sv_last_seq_num s + 1, hs_last_hb_bytes = hb_to_bytes ?hb\<rparr>"
    using produced_accepted [of blake3, OF len sync win room] by blast
  let ?r = "r\<lparr>sv_verifier := v, sv_uptime_counters := AList.update (sv_node_id s)
      (unwrap_or (map_of (sv_uptime_counters r) (sv_node_id s)) 0 + 1) (sv_uptime_counters r)\<rparr>"
  have "verify_step blake3 (sv_node_key s) (?hb, nmt) (r, ok) = (?r, ok)"
    using v(1) by (simp add: verify_step_def verify_peer_heartbeat_def length_hb_to_bytes [OF shaped] hb_from_to_bytes [OF shaped]
        produce_heartbeat_fields)
  moreover have "in_step (fst (produce_heartbeat blake3 now s)) ?r" using sync v(2) by (simp add: in_step_def produce_heartbeat_fields)
  ultimately show ?thesis by (intro exI [of _ ?r]) (simp add: uptime_count_def)
qed

lemma stream_accepted:
  assumes len: "\<And>m. length (blake3 m) = 32"
  shows "in_step s r \<Longrightarrow> list_all2 in_window nows nmts \<Longrightarrow> unat (sv_last_seq_num s) + length nows < 2 ^ 32 \<Longrightarrow>
    snd (fold (verify_step blake3 (sv_node_key s)) (zip (produce_all blake3 s nows) nmts) (r, True))
    \<and> uptime_count (fst (fold (verify_step blake3 (sv_node_key s)) (zip (produce_all blake3 s nows) nmts) (r, True))) (sv_node_id s)
      = uptime_count r (sv_node_id s) + of_nat (length nows)"
proof (induction nows arbitrary: nmts s r)
  case (Cons now nows)
  then obtain nmt nmts' where nmts: "nmts = nmt # nmts'" "in_window now nmt" "list_all2 in_window nows nmts'"
    by (auto simp: list_all2_Cons1)
  let ?s = "fst (produce_heartbeat blake3 now s)"
  have room: "unat (sv_last_seq_num s) + 1 < 2 ^ 32" using Cons.prems by simp
  obtain r' where r': "verify_step blake3 (sv_node_key s) (snd (produce_heartbeat blake3 now s), nmt) (r, True) = (r', True)"
    "in_step ?s r'" "uptime_count r' (sv_node_id s) = uptime_count r (sv_node_id s) + 1"
    using verify_step_accepts [of blake3, OF len Cons.prems(1) nmts(2) room] by blast
  have "unat (sv_last_seq_num ?s) = unat (sv_last_seq_num s) + 1"
    using room by (simp add: produce_heartbeat_fields unat_add_no_overflow)
  then have "unat (sv_last_seq_num ?s) + length nows < 2 ^ 32" using Cons.prems(3) by simp
  from Cons.IH [OF r'(2) nmts(3) this] show ?case
    using r' by (simp add: nmts(1) produce_heartbeat_fields split_beta add_ac)
qed (simp add: uptime_count_def)

text \<open>C17. Honest nodes understand each other: a fresh service's heartbeats, delivered in order and within the time
  window, are all accepted by a peer that has seen none of them and is given the sender's epoch keys, and the
  peer's uptime counter grows by their number.\<close>

theorem heartbeat_stream_accepted:
  assumes "\<And>m. length (blake3 m) = 32" "list_all2 in_window nows nmts" "length nows < 2 ^ 32"
    and "map_of (hv_node_states (sv_verifier r)) (compress_node_id blake3 node_id) = None"
  shows "(let out = fold (verify_step blake3 node_key) (zip (produce_all blake3 (heartbeat_service_new blake3 node_id node_key) nows) nmts) (r, True)
    in snd out \<and> uptime_count (fst out) (compress_node_id blake3 node_id)
      = uptime_count r (compress_node_id blake3 node_id) + of_nat (length nows))"
proof -
  let ?s = "heartbeat_service_new blake3 node_id node_key"
  have "in_step ?s r" using assms(1,4) by (simp add: in_step_def heartbeat_service_new_def compress_node_id_def)
  from stream_accepted [of blake3, OF assms(1) this assms(2)] show ?thesis
    using assms(3) by (simp add: heartbeat_service_new_def)
qed

theorem heartbeat_stream_accepted_witness:
  "(let out = fold (verify_step (\<lambda>_. replicate 32 7) (replicate 32 1)) (zip (produce_all (\<lambda>_. replicate 32 7)
        (heartbeat_service_new (\<lambda>_. replicate 32 7) (replicate 32 9) (replicate 32 1)) [1000, 1600]) [1000, 1610])
        (heartbeat_service_new (\<lambda>_. replicate 32 7) (replicate 32 8) (replicate 32 2), True)
    in snd out \<and> uptime_count (fst out) (compress_node_id (\<lambda>_. replicate 32 7) (replicate 32 9))
      = uptime_count (heartbeat_service_new (\<lambda>_. replicate 32 7) (replicate 32 8) (replicate 32 2))
          (compress_node_id (\<lambda>_. replicate 32 7) (replicate 32 9)) + of_nat (length [1000, 1600 :: u32]))"
  by (rule heartbeat_stream_accepted)
    (simp_all add: in_window_def T_FUTURE_TOLERANCE_S_def T_PAST_S_def saturating_add_def saturating_sub_def
      heartbeat_service_new_def hb_verifier_new_def)

definition beacon_message :: "heartbeat_unit \<Rightarrow> bytes \<Rightarrow> bytes" where
  "beacon_message hb nke = DOMAIN_BEACON @ nke @ hb_node_id hb @ le_bytes 4 (hb_seq_num hb) @ le_bytes 4 (hb_timestamp hb)
     @ hb_smt_root hb @ hb_imt_frontier hb @ le_bytes 8 (hb_imt_count hb) @ hb_prev_hash hb"

definition no_collisions :: "('a \<Rightarrow> 'b) \<Rightarrow> 'a list \<Rightarrow> bool" where
  "no_collisions h ms \<longleftrightarrow> (\<forall>x\<in>set ms. \<forall>y\<in>set ms. h x = h y \<longrightarrow> x = y)"

lemma no_collisionsD: "no_collisions h ms \<Longrightarrow> x \<in> set ms \<Longrightarrow> y \<in> set ms \<Longrightarrow> x \<noteq> y \<Longrightarrow> h x \<noteq> h y"
  by (auto simp: no_collisions_def)

text \<open>The key a node stores from a peer's anchor does not verify the peer's heartbeats: it is derived from the
  public key in the anchor, the sender's message authentication from its secret node key.  Unless the two
  are the same string, every heartbeat of the peer is refused.\<close>

theorem anchor_key_rejects:
  assumes len: "\<And>m. length (blake3 m) = 32" and key: "get_node_key_epoch (store_anchor blake3 st p a) p = Some k"
    and diff: "ea_pubkey a \<noteq> sv_node_key s" "length (ea_pubkey a) = 32" "length (sv_node_key s) = 32"
    and shape: "length (sv_node_id s) = 4" "length (sv_smt_root s) = 32"
    and hb: "produce_heartbeat blake3 now s = (s', hb)"
    and free1: "no_collisions blake3 [ea_pubkey a @ le_bytes 8 (ea_epoch_id a), sv_node_key s @ le_bytes 8 (epoch_from_seq_num (hb_seq_num hb))]"
    and free2: "no_collisions blake3 (map (beacon_message hb)
      [k, derive_node_key_epoch blake3 (sv_node_key s) (epoch_from_seq_num (hb_seq_num hb))])"
  shows "\<not> snd (verify_peer_heartbeat blake3 r (hb_to_bytes hb) nmt k)"
proof -
  let ?k = "derive_node_key_epoch blake3 (sv_node_key s) (epoch_from_seq_num (hb_seq_num hb))"
  have k: "k = derive_node_key_epoch blake3 (ea_pubkey a) (ea_epoch_id a)"
    using key by (simp add: get_node_key_epoch_def store_anchor_def Let_def)
  have "ea_pubkey a @ le_bytes 8 (ea_epoch_id a) \<noteq> sv_node_key s @ le_bytes 8 (epoch_from_seq_num (hb_seq_num hb))"
    using diff by simp
  then have "k \<noteq> ?k" unfolding k derive_node_key_epoch_def using no_collisionsD [OF free1] by simp
  moreover have "length k = length ?k" using len by (simp add: k derive_node_key_epoch_def)
  ultimately have "beacon_message hb k \<noteq> beacon_message hb ?k" by (simp add: beacon_message_def)
  then have "blake3 (beacon_message hb k) \<noteq> blake3 (beacon_message hb ?k)" using no_collisionsD [OF free2] by simp
  moreover have hb': "hb = snd (produce_heartbeat blake3 now s)" using hb by simp
  then have "hb_mac hb = blake3 (beacon_message hb ?k)"
    by (simp add: produce_heartbeat_def Let_def compute_heartbeat_mac_def beacon_message_def)
  ultimately have mac: "hb_mac hb \<noteq> compute_heartbeat_mac blake3 k (hb_node_id hb) (hb_seq_num hb) (hb_timestamp hb) (hb_smt_root hb)
      (hb_imt_frontier hb) (hb_imt_count hb) (hb_prev_hash hb)" by (simp add: compute_heartbeat_mac_def beacon_message_def)
  have shaped: "hb_shaped hb" unfolding hb' by (rule produce_heartbeat_shaped) (use len shape in auto)
  have "snd (hv_verify blake3 v hb nmt k e) \<noteq> Inr ()" for v e
    using mac by (auto simp: hv_verify_def Let_def split: option.splits)
  then show ?thesis
    by (auto simp: verify_peer_heartbeat_def length_hb_to_bytes [OF shaped] hb_from_to_bytes [OF shaped] split_beta split: sum.splits)
qed

definition sum_hash :: "bytes \<Rightarrow> bytes" where
  "sum_hash m = replicate 31 0 @ [sum_list m]"

definition sample_anchor :: epoch_anchor where
  "sample_anchor = \<lparr>ea_node_id = [1, 2, 3, 4], ea_epoch_id = 0, ea_hb_count = 1, ea_chain_head = replicate 32 5,
     ea_pubkey = replicate 32 2, ea_sig = [1]\<rparr>"

definition sample_service :: heartbeat_service where
  "sample_service = heartbeat_service_new sum_hash (replicate 32 9) (replicate 32 1)"

theorem anchor_key_rejects_witness:
  "\<not> snd (verify_peer_heartbeat sum_hash sample_service (hb_to_bytes (snd (produce_heartbeat sum_hash 1000 sample_service))) 1000
       (derive_node_key_epoch sum_hash (replicate 32 2) 0))"
proof (rule anchor_key_rejects [where a = sample_anchor and s = sample_service and now = 1000 and st = "[]" and p = True
      and s' = "fst (produce_heartbeat sum_hash 1000 sample_service)"])
  let ?hb = "snd (produce_heartbeat sum_hash 1000 sample_service)"
  have key: "sv_node_key sample_service = replicate 32 1" by (simp add: sample_service_def heartbeat_service_new_def)
  have seq: "hb_seq_num ?hb = 1" by (simp add: produce_heartbeat_fields sample_service_def heartbeat_service_new_def)
  have ep: "epoch_from_seq_num 1 = 0" by code_simp
  show "length (sum_hash m) = 32" for m by (simp add: sum_hash_def)
  show "get_node_key_epoch (store_anchor sum_hash [] True sample_anchor) True = Some (derive_node_key_epoch sum_hash (replicate 32 2) 0)"
    by (simp add: get_node_key_epoch_def store_anchor_def Let_def sample_anchor_def)
  show "ea_pubkey sample_anchor \<noteq> sv_node_key sample_service" "length (ea_pubkey sample_anchor) = 32" "length (sv_node_key sample_service) = 32"
    by (simp_all add: key) (simp_all add: sample_anchor_def numeral_eq_Suc)
  show "length (sv_node_id sample_service) = 4" "length (sv_smt_root sample_service) = 32"
    by (simp_all add: sample_service_def heartbeat_service_new_def compress_node_id_def sum_hash_def)
  show "produce_heartbeat sum_hash 1000 sample_service = (fst (produce_heartbeat sum_hash 1000 sample_service), ?hb)" by simp
  show "no_collisions sum_hash [ea_pubkey sample_anchor @ le_bytes 8 (ea_epoch_id sample_anchor),
      sv_node_key sample_service @ le_bytes 8 (epoch_from_seq_num (hb_seq_num ?hb))]"
    by (simp add: no_collisions_def key seq ep sample_anchor_def sum_hash_def sum_list_replicate)
  show "no_collisions sum_hash (map (beacon_message ?hb) [derive_node_key_epoch sum_hash (replicate 32 2) 0,
      derive_node_key_epoch sum_hash (sv_node_key sample_service) (epoch_from_seq_num (hb_seq_num ?hb))])"
    by (simp add: no_collisions_def key seq ep sum_hash_def beacon_message_def derive_node_key_epoch_def sum_list_replicate)
qed

end
