(* ===== verification/Commit_Stark.thy ===== *)
theory Commit_Stark
  imports Proof_Batch Nullifier_Set Micro_Commit Heartbeat
begin

text \<open>
  Level-2 finality, from \<open>core/scalar-consensus/src\<close> and \<open>core/scalar-node/src/cg_window.rs\<close>: the atomic
  check-and-set of a verified batch into the nullifier set and of governance votes (\<open>commit_stark.rs\<close>), the
  double spend check of the consensus engine (\<open>lib.rs\<close>), the store of governance keys (\<open>governance_binding.rs\<close>),
  the runtime assertions (\<open>formal.rs\<close>) and the window rule for transactions that spill over a sub-epoch boundary
  (\<open>cg_window.rs\<close>).  The proof system is a parameter of the batch verifier, as in \<open>Proof_Batch\<close>.
\<close>

section \<open>Commits\<close>

datatype irreversible_action = CsUtxoSpend | MintClaimAction | NsCheckpointConsumption | GovernanceVoteCommitment

datatype commit_stark_error =
    NullifierBindingMismatch
  | NullifierCountMismatch nat nat
  | BatchProofFailed batch_transfer_error
  | DoubleSpendDetected nat nat
  | GovernanceVoteAlreadyFinalized

record commit_stark =
  cs_nullifier_set :: "in_memory_wal nullifier_set"
  cs_finalized_subepochs :: "u64 set"
  cs_finalized_votes :: "(bytes \<times> bytes) set"

definition commit_stark_new :: commit_stark where
  "commit_stark_new = \<lparr>cs_nullifier_set = ns_new, cs_finalized_subepochs = {}, cs_finalized_votes = {}\<rparr>"

definition nullifier_to_bytes :: "u64 list \<Rightarrow> bytes" where
  "nullifier_to_bytes n = concat (map (\<lambda>i. le_bytes 8 (n ! i)) [0..<4])"

definition is_finalized_at_subepoch :: "commit_stark \<Rightarrow> u64 \<Rightarrow> bool" where
  "is_finalized_at_subepoch cs sub_id \<longleftrightarrow> sub_id \<in> cs_finalized_subepochs cs"

definition commit_batch_transfer ::
  "(u64 list \<Rightarrow> u64 list) \<Rightarrow> (bytes \<Rightarrow> bytes) \<Rightarrow> (batch_transfer_proof \<Rightarrow> transfer_public_claims \<Rightarrow> batch_transfer_error + unit)
   \<Rightarrow> commit_stark \<Rightarrow> u64 \<Rightarrow> u64 \<Rightarrow> batch_transfer_proof \<Rightarrow> transfer_public_claims \<Rightarrow> bytes list
   \<Rightarrow> commit_stark \<times> (commit_stark_error + finality_level)" where
  "commit_batch_transfer perm blake3 verify_batch cs sub_id epoch_id p claims nullifiers =
     (if length nullifiers \<noteq> length (tc_ownership_claims claims)
      then (cs, Inl (NullifierCountMismatch (length nullifiers) (length (tc_ownership_claims claims))))
      else if compute_nullifier_hash perm nullifiers \<noteq> tp_nullifier_hash (tc_pi claims)
      then (cs, Inl NullifierBindingMismatch)
      else if list_ex (\<lambda>(supplied, claim). supplied \<noteq> nullifier_to_bytes (oc_expected_nullifier claim))
          (zip nullifiers (tc_ownership_claims claims))
      then (cs, Inl NullifierBindingMismatch)
      else case verify_batch p claims of
          Inl e \<Rightarrow> (cs, Inl (BatchProofFailed e))
        | Inr _ \<Rightarrow>
            let conflicts = length (filter (ns_is_spent (cs_nullifier_set cs)) nullifiers)
            in if conflicts > 0 then (cs, Inl (DoubleSpendDetected conflicts (length nullifiers)))
               else (cs\<lparr>cs_nullifier_set := fold (\<lambda>n ns. ns_insert blake3 ns n epoch_id) nullifiers (cs_nullifier_set cs),
                        cs_finalized_subepochs := insert sub_id (cs_finalized_subepochs cs)\<rparr>, Inr StarkFinal))"

definition commit_governance_vote :: "commit_stark \<Rightarrow> bytes \<Rightarrow> bytes \<Rightarrow> commit_stark \<times> (commit_stark_error + finality_level)" where
  "commit_governance_vote cs node_id_full proposal_id =
     (if (node_id_full, proposal_id) \<in> cs_finalized_votes cs then (cs, Inl GovernanceVoteAlreadyFinalized)
      else (cs\<lparr>cs_finalized_votes := insert (node_id_full, proposal_id) (cs_finalized_votes cs)\<rparr>, Inr StarkFinal))"

definition is_vote_finalized :: "commit_stark \<Rightarrow> bytes \<Rightarrow> bytes \<Rightarrow> bool" where
  "is_vote_finalized cs node_id_full proposal_id \<longleftrightarrow> (node_id_full, proposal_id) \<in> cs_finalized_votes cs"

section \<open>The consensus engine\<close>

record nullifier_engine =
  ce_nullifier_set :: "in_memory_wal nullifier_set"
  ce_current_epoch :: u64

definition nullifier_engine_new :: nullifier_engine where
  "nullifier_engine_new = \<lparr>ce_nullifier_set = ns_new, ce_current_epoch = 0\<rparr>"

definition verify_mathematical_truth :: "(bytes \<Rightarrow> bytes) \<Rightarrow> nullifier_engine \<Rightarrow> bytes \<Rightarrow> nullifier_engine \<times> (string + unit)" where
  "verify_mathematical_truth blake3 ce nullifier =
     (if ns_is_spent (ce_nullifier_set ce) nullifier
      then (ce, Inl ''REJECTED: Double Spend'')
      else (ce\<lparr>ce_nullifier_set := ns_insert blake3 (ce_nullifier_set ce) nullifier (ce_current_epoch ce)\<rparr>, Inr ()))"

section \<open>Runtime assertions\<close>

record epoch_transition_result =
  er_new_epoch_id :: u64
  er_new_manifest_hash :: bytes

record epoch_determinism_violation =
  ev_manifest_hash :: bytes
  ev_result_a :: epoch_transition_result
  ev_result_b :: epoch_transition_result

definition assert_inv_epoch_determinism ::
  "epoch_transition_result \<Rightarrow> epoch_transition_result \<Rightarrow> bytes \<Rightarrow> epoch_determinism_violation + unit" where
  "assert_inv_epoch_determinism a b manifest_hash =
     (if a \<noteq> b then Inl \<lparr>ev_manifest_hash = manifest_hash, ev_result_a = a, ev_result_b = b\<rparr> else Inr ())"

datatype governance_target = ConstrainedParam string | GovernanceControlled string

datatype governance_violation = InsufficientApproval u64 u64 | OssifiedParameterModification string

definition GOVERNANCE_COMMIT_THRESHOLD_FP :: u64 where
  "GOVERNANCE_COMMIT_THRESHOLD_FP = 750000"

definition assert_inv_governance :: "u64 \<Rightarrow> governance_target \<Rightarrow> governance_violation + unit" where
  "assert_inv_governance approval_fp target =
     (if approval_fp < GOVERNANCE_COMMIT_THRESHOLD_FP
      then Inl (InsufficientApproval approval_fp GOVERNANCE_COMMIT_THRESHOLD_FP)
      else case target of ConstrainedParam _ \<Rightarrow> Inr () | GovernanceControlled _ \<Rightarrow> Inr ())"

section \<open>The store of governance keys\<close>

text \<open>A \<open>BTreeMap\<close> is an association list sorted by its keys.\<close>

type_synonym binding_store = "(bytes \<times> bytes) list"

datatype governance_binding_error = AlreadyBound | BindingNotFound

definition binding_register :: "binding_store \<Rightarrow> bytes \<Rightarrow> bytes \<Rightarrow> binding_store \<times> (governance_binding_error + unit)" where
  "binding_register b node_id_full governance_id_pub =
     (if map_of b node_id_full \<noteq> None then (b, Inl AlreadyBound)
      else (insort_key fst (node_id_full, governance_id_pub) b, Inr ()))"

definition binding_rebind :: "binding_store \<Rightarrow> bytes \<Rightarrow> bytes \<Rightarrow> binding_store \<times> (governance_binding_error + unit)" where
  "binding_rebind b node_id_full governance_id_pub_new =
     (if map_of b node_id_full = None then (b, Inl BindingNotFound)
      else (AList.update node_id_full governance_id_pub_new b, Inr ()))"

definition binding_get :: "binding_store \<Rightarrow> bytes \<Rightarrow> bytes option" where
  "binding_get b node_id_full = map_of b node_id_full"

definition is_bound :: "binding_store \<Rightarrow> bytes \<Rightarrow> bool" where
  "is_bound b node_id_full \<longleftrightarrow> map_of b node_id_full \<noteq> None"

definition DOMAIN_GOV_BINDING :: bytes where
  "DOMAIN_GOV_BINDING = ascii ''scalar_gov_binding''"

definition binding_leaf_msg :: "bytes \<times> bytes \<Rightarrow> bytes" where
  "binding_leaf_msg e = DOMAIN_GOV_BINDING @ fst e @ snd e"

definition binding_merkle_root :: "(bytes \<Rightarrow> bytes) \<Rightarrow> binding_store \<Rightarrow> bytes" where
  "binding_merkle_root blake3 b =
     (if b = [] then replicate 32 0
      else blake3 (DOMAIN_GOV_BINDING @ concat (map (\<lambda>e. blake3 (binding_leaf_msg e)) b)))"

section \<open>The window rule\<close>

datatype cg_window_outcome = CgValid | CgRejected | CgPending

type_synonym mc_candidate = "micro_commitment \<times> mc_merkle_proof"

definition cg_condition_a ::
  "(bytes \<Rightarrow> bytes) \<Rightarrow> sig_verifier \<Rightarrow> bytes \<Rightarrow> u64 \<Rightarrow> mc_candidate list \<Rightarrow> (bytes \<times> bytes) list \<Rightarrow> bool" where
  "cg_condition_a blake3 verify_signature ordering_key target candidates validator_set =
     list_ex (\<lambda>(mc, inclusion_proof). mc_subepoch_id mc = target \<and> verify_quorum blake3 verify_signature mc validator_set
       \<and> contains_ordering_key blake3 mc ordering_key inclusion_proof) candidates"

definition evaluate_cg_window ::
  "(bytes \<Rightarrow> bytes) \<Rightarrow> sig_verifier \<Rightarrow> bytes \<Rightarrow> u64 \<Rightarrow> u64 \<Rightarrow> mc_candidate list \<Rightarrow> (bytes \<times> bytes) list \<Rightarrow> commit_stark
   \<Rightarrow> cg_window_outcome" where
  "evaluate_cg_window blake3 verify_signature ordering_key target_subepoch_id current_subepoch_id candidates validator_set cs =
     (let condition_a = cg_condition_a blake3 verify_signature ordering_key target_subepoch_id candidates validator_set;
          condition_b = is_finalized_at_subepoch cs (target_subepoch_id + 1)
      in if condition_a \<and> condition_b then CgValid
         else if current_subepoch_id > target_subepoch_id then CgRejected
         else CgPending)"

section \<open>Check and set\<close>

text \<open>
  The contract of every check-and-set of the node: an accepted request claims keys nobody has claimed, a
  refused one claims nothing.  Whatever is sent, no key is claimed by two accepted requests.
\<close>

locale check_and_set =
  fixes claimed :: "'s \<Rightarrow> 'k set" and step :: "'s \<Rightarrow> 'i \<Rightarrow> 's \<times> bool" and keys :: "'i \<Rightarrow> 'k set"
  assumes accepted_free: "step s i = (s', True) \<Longrightarrow> keys i \<inter> claimed s = {}"
    and accepted_claims: "step s i = (s', True) \<Longrightarrow> claimed s' = claimed s \<union> keys i"
    and refused_claims: "step s i = (s', False) \<Longrightarrow> claimed s' = claimed s"
begin

lemma run_claims:
  "claimed (fst (run_gate step s is)) = claimed s \<union> (\<Union>i\<in>set (snd (run_gate step s is)). keys i)
   \<and> (\<forall>i\<in>set (snd (run_gate step s is)). keys i \<inter> claimed s = {})
   \<and> sorted_wrt (\<lambda>i j. keys i \<inter> keys j = {}) (snd (run_gate step s is))"
proof (induction "is" arbitrary: s)
  case (Cons i "is")
  obtain s' b where st: "step s i = (s', b)" by fastforce
  then show ?case
    using Cons [of s'] accepted_free [of s i s'] accepted_claims [of s i s'] refused_claims [of s i s']
    by (cases b) (auto simp: split_beta)
qed simp

lemmas accepted_disjoint = run_claims [THEN conjunct2, THEN conjunct2]

end

record commit_request =
  rq_subepoch_id :: u64
  rq_epoch_id :: u64
  rq_proof :: batch_transfer_proof
  rq_claims :: transfer_public_claims
  rq_nullifiers :: "bytes list"

definition batch_step ::
  "(u64 list \<Rightarrow> u64 list) \<Rightarrow> (bytes \<Rightarrow> bytes) \<Rightarrow> (batch_transfer_proof \<Rightarrow> transfer_public_claims \<Rightarrow> batch_transfer_error + unit)
   \<Rightarrow> commit_stark \<Rightarrow> commit_request \<Rightarrow> commit_stark \<times> bool" where
  "batch_step perm blake3 verify_batch cs r =
     (case commit_batch_transfer perm blake3 verify_batch cs (rq_subepoch_id r) (rq_epoch_id r) (rq_proof r) (rq_claims r) (rq_nullifiers r) of
        (cs', res) \<Rightarrow> (cs', res = Inr StarkFinal))"

definition vote_step :: "commit_stark \<Rightarrow> bytes \<times> bytes \<Rightarrow> commit_stark \<times> bool" where
  "vote_step cs v = (case commit_governance_vote cs (fst v) (snd v) of (cs', res) \<Rightarrow> (cs', res = Inr StarkFinal))"

definition truth_step :: "(bytes \<Rightarrow> bytes) \<Rightarrow> nullifier_engine \<Rightarrow> bytes \<Rightarrow> nullifier_engine \<times> bool" where
  "truth_step blake3 ce n = (case verify_mathematical_truth blake3 ce n of (ce', res) \<Rightarrow> (ce', res = Inr ()))"

lemma ns_spent_fold [simp]: "ns_spent (fold (\<lambda>n ns. ns_insert blake3 ns n e) xs ns) = ns_spent ns \<union> set xs"
  by (induction xs arbitrary: ns) auto

lemma commit_accepted_iff:
  "snd (commit_batch_transfer perm blake3 vb cs se e p claims ns) = Inr StarkFinal \<longleftrightarrow>
     length ns = length (tc_ownership_claims claims) \<and> compute_nullifier_hash perm ns = tp_nullifier_hash (tc_pi claims)
     \<and> ns = map (nullifier_to_bytes \<circ> oc_expected_nullifier) (tc_ownership_claims claims)
     \<and> vb p claims = Inr () \<and> set ns \<inter> ns_spent (cs_nullifier_set cs) = {}"
proof -
  have "length ns = length cl \<Longrightarrow> \<not> list_ex (\<lambda>(s, c). s \<noteq> f c) (zip ns cl) \<longleftrightarrow> ns = map f cl" for f and cl :: "ownership_public_claim list"
    by (induction ns cl rule: list_induct2) auto
  note this [of "tc_ownership_claims claims" "nullifier_to_bytes \<circ> oc_expected_nullifier", simplified]
  then show ?thesis
    by (auto simp: commit_batch_transfer_def Let_def filter_empty_conv ns_is_spent_iff split: sum.splits)
qed

lemma commit_accepted_state:
  assumes "commit_batch_transfer perm blake3 vb cs se e p claims ns = (cs', r)"
  shows "r = Inr StarkFinal \<Longrightarrow> ns_spent (cs_nullifier_set cs') = ns_spent (cs_nullifier_set cs) \<union> set ns
      \<and> cs_finalized_subepochs cs' = insert se (cs_finalized_subepochs cs) \<and> cs_finalized_votes cs' = cs_finalized_votes cs"
    and "r \<noteq> Inr StarkFinal \<Longrightarrow> cs' = cs \<and> (\<exists>err. r = Inl err)"
  using assms by (auto simp: commit_batch_transfer_def Let_def split: if_splits sum.splits)

interpretation batches: check_and_set "\<lambda>cs. ns_spent (cs_nullifier_set cs)" "batch_step perm blake3 vb" "\<lambda>r. set (rq_nullifiers r)"
  for perm blake3 vb
proof
  fix cs cs' :: commit_stark and r :: commit_request
  obtain c x where c: "commit_batch_transfer perm blake3 vb cs (rq_subepoch_id r) (rq_epoch_id r) (rq_proof r) (rq_claims r) (rq_nullifiers r) = (c, x)"
    by fastforce
  have free: "x = Inr StarkFinal \<Longrightarrow> set (rq_nullifiers r) \<inter> ns_spent (cs_nullifier_set cs) = {}"
    using commit_accepted_iff [of perm blake3 vb cs "rq_subepoch_id r" "rq_epoch_id r" "rq_proof r" "rq_claims r" "rq_nullifiers r"] unfolding c snd_conv by blast
  have step: "batch_step perm blake3 vb cs r = (c, x = Inr StarkFinal)" by (simp add: batch_step_def c)
  show "batch_step perm blake3 vb cs r = (cs', True) \<Longrightarrow> set (rq_nullifiers r) \<inter> ns_spent (cs_nullifier_set cs) = {}"
    using free step by simp
  show "batch_step perm blake3 vb cs r = (cs', True) \<Longrightarrow> ns_spent (cs_nullifier_set cs') = ns_spent (cs_nullifier_set cs) \<union> set (rq_nullifiers r)"
    using commit_accepted_state(1) [OF c] step by simp
  show "batch_step perm blake3 vb cs r = (cs', False) \<Longrightarrow> ns_spent (cs_nullifier_set cs') = ns_spent (cs_nullifier_set cs)"
    using commit_accepted_state(2) [OF c] step by simp
qed

interpretation votes: check_and_set cs_finalized_votes vote_step "\<lambda>v. {v}"
  by unfold_locales (auto simp: vote_step_def commit_governance_vote_def split: if_splits)

interpretation truth: check_and_set "\<lambda>ce. ns_spent (ce_nullifier_set ce)" "truth_step blake3" "\<lambda>n. {n}" for blake3
  by unfold_locales (auto simp: truth_step_def verify_mathematical_truth_def ns_is_spent_iff split: if_splits)

section \<open>What commits guarantee\<close>

text \<open>C12. Commits are atomic and exclusive.  An error of \<open>commit_batch_transfer\<close> leaves the state as it was; success
  records exactly the supplied nullifiers and the sub-epoch; and in any run of requests from any state, no
  nullifier is finalised by two accepted batches, nor by one when it was spent before.\<close>

theorem commit_check_and_set:
  "(case commit_batch_transfer perm blake3 vb cs se e p claims ns of (cs', r) \<Rightarrow>
      if r = Inr StarkFinal then ns_spent (cs_nullifier_set cs') = ns_spent (cs_nullifier_set cs) \<union> set ns
        \<and> cs_finalized_subepochs cs' = insert se (cs_finalized_subepochs cs) \<and> cs_finalized_votes cs' = cs_finalized_votes cs
      else cs' = cs \<and> (\<exists>err. r = Inl err))
   \<and> sorted_wrt (\<lambda>r r'. set (rq_nullifiers r) \<inter> set (rq_nullifiers r') = {}) (snd (run_gate (batch_step perm blake3 vb) cs rs))
   \<and> \<Union> (set (map (set \<circ> rq_nullifiers) (snd (run_gate (batch_step perm blake3 vb) cs rs)))) \<inter> ns_spent (cs_nullifier_set cs) = {}"
proof (intro conjI)
  obtain cs' r where c: "commit_batch_transfer perm blake3 vb cs se e p claims ns = (cs', r)" by fastforce
  show "case commit_batch_transfer perm blake3 vb cs se e p claims ns of (cs', r) \<Rightarrow>
      if r = Inr StarkFinal then ns_spent (cs_nullifier_set cs') = ns_spent (cs_nullifier_set cs) \<union> set ns
        \<and> cs_finalized_subepochs cs' = insert se (cs_finalized_subepochs cs) \<and> cs_finalized_votes cs' = cs_finalized_votes cs
      else cs' = cs \<and> (\<exists>err. r = Inl err)"
    using commit_accepted_state [OF c] by (simp add: c)
  note run = batches.run_claims [of perm blake3 vb cs rs]
  show "sorted_wrt (\<lambda>r r'. set (rq_nullifiers r) \<inter> set (rq_nullifiers r') = {}) (snd (run_gate (batch_step perm blake3 vb) cs rs))"
    using run by blast
  show "\<Union> (set (map (set \<circ> rq_nullifiers) (snd (run_gate (batch_step perm blake3 vb) cs rs)))) \<inter> ns_spent (cs_nullifier_set cs) = {}"
    using run by auto
qed

lemma singleton_disjoint: "sorted_wrt (\<lambda>i j. {i} \<inter> {j} = {}) xs \<longleftrightarrow> distinct xs"
  by (induction xs) auto

text \<open>One vote per node and proposal, one acceptance per nullifier: whatever is sent, the votes finalised and the
  nullifiers accepted by the engine are without repetition and none of them was there before.\<close>

theorem accepted_once:
  "distinct (snd (run_gate vote_step cs vs)) \<and> set (snd (run_gate vote_step cs vs)) \<inter> cs_finalized_votes cs = {}
   \<and> distinct (snd (run_gate (truth_step blake3) ce ns))
   \<and> set (snd (run_gate (truth_step blake3) ce ns)) \<inter> ns_spent (ce_nullifier_set ce) = {}"
  using votes.run_claims [of cs vs] truth.run_claims [of blake3 ce ns] unfolding singleton_disjoint by auto

lemma honest_commit:
  assumes "poseidon2_circuit perm p2_eval p2_width p2_row" "stark decode prove verify" "boundary_stark decode bprove bverify"
    and h: "honest_batch perm w pi root claims" and "is_power_of_two (length (tw_ownership w))" "length (tw_ownership w) \<le> 2 ^ 57"
    and ns: "ns = map (hash_bytes32 \<circ> compute_expected_nullifier perm) (tw_ownership w)" "set ns \<inter> ns_spent (cs_nullifier_set cs) = {}"
  shows "\<exists>p cs'. prove_batch_transfer perm p2_eval p2_row prove bprove w claims = Some (Inr p)
    \<and> commit_batch_transfer perm blake3 (verify_batch_transfer p2_eval p2_width decode verify bverify) cs se e p claims ns = (cs', Inr StarkFinal)
    \<and> ns_spent (cs_nullifier_set cs') = ns_spent (cs_nullifier_set cs) \<union> set ns"
proof -
  obtain p where p: "prove_batch_transfer perm p2_eval p2_row prove bprove w claims = Some (Inr p)"
    "verify_batch_transfer p2_eval p2_width decode verify bverify p claims = Inr ()"
    using batch_transfer_provable [OF assms(1-6)] by blast
  let ?c = "commit_batch_transfer perm blake3 (verify_batch_transfer p2_eval p2_width decode verify bverify) cs se e p claims ns"
  have derived: "derive_public_claims perm w pi root = Inr claims" using h by (simp add: honest_batch_def)
  have oc: "tc_ownership_claims claims = map (honest_claim perm) (tw_ownership w)"
    and nh: "tp_nullifier_hash (tc_pi claims) = compute_nullifier_hash perm (map (\<lambda>iw. hash_bytes32 (compute_expected_nullifier perm iw)) (tw_ownership w))"
    using derive_public_claims_Inr [OF derived] by auto
  have to_bytes: "nullifier_to_bytes = hash_bytes32" by (simp add: fun_eq_iff nullifier_to_bytes_def hash_bytes32_def)
  have "snd ?c = Inr StarkFinal"
    unfolding commit_accepted_iff using p(2) ns nh by (simp add: oc to_bytes honest_claim_def o_def)
  then obtain cs' where c: "?c = (cs', Inr StarkFinal)" by (metis prod.collapse)
  with commit_accepted_state(1) [OF c] p(1) show ?thesis by blast
qed

text \<open>C13. The check-and-set does not look inside a batch.  A batch that lists the same input twice is provable, its
  nullifier list repeats one nullifier, every check passes, and the batch is finalised with the value of the
  input counted twice.\<close>

theorem intra_batch_double_spend:
  assumes "poseidon2_circuit perm p2_eval p2_width p2_row" "stark decode prove verify" "boundary_stark decode bprove bverify"
    and "honest_batch perm w pi root claims" and w: "tw_ownership w = [iw, iw]"
    and n: "n = hash_bytes32 (compute_expected_nullifier perm iw)" "n \<notin> ns_spent (cs_nullifier_set cs)"
  shows "\<exists>p cs'. prove_batch_transfer perm p2_eval p2_row prove bprove w claims = Some (Inr p)
    \<and> commit_batch_transfer perm blake3 (verify_batch_transfer p2_eval p2_width decode verify bverify) cs se e p claims [n, n] = (cs', Inr StarkFinal)
    \<and> ns_spent (cs_nullifier_set cs') = insert n (ns_spent (cs_nullifier_set cs))
    \<and> unat (tp_sum_inputs_sscl (tc_pi claims)) = 2 * unat (iw_value iw)"
proof -
  have "is_power_of_two (length (tw_ownership w))" by (auto simp: w is_power_of_two_iff intro!: exI [of _ 1])
  moreover have "unat (tp_sum_inputs_sscl (tc_pi claims)) = 2 * unat (iw_value iw)"
    using derive_public_claims_Inr [of perm w pi root claims] assms(4) by (auto simp: w honest_batch_def)
  moreover note honest_commit [OF assms(1-4), of "[n, n]" cs blake3 se e]
  ultimately show ?thesis using n by (auto simp: w)
qed

theorem intra_batch_double_spend_witness:
  "\<exists>claims p cs' n. prove_batch_transfer (map field_reduce) (\<lambda>_. []) sample_row ideal_prove ideal_prove (sample_witnesses 2) claims = Some (Inr p)
    \<and> commit_batch_transfer (map field_reduce) toy_hash (verify_batch_transfer (\<lambda>_. []) 176 ideal_decode air_accepts boundary_accepts)
        commit_stark_new 1001 0 p claims [n, n] = (cs', Inr StarkFinal)
    \<and> ns_spent (cs_nullifier_set cs') = {n} \<and> unat (tp_sum_inputs_sscl (tc_pi claims)) = 2 * unat (1000000040 :: u64)"
proof -
  obtain claims where h: "honest_batch (map field_reduce) (sample_witnesses 2) (sample_transfer_pi 2) sample_root claims"
    using sample_honest [of 2] by blast
  let ?iw = "sample_input 1000000040"
  have w: "tw_ownership (sample_witnesses 2) = [?iw, ?iw]" by (simp add: sample_witnesses_def numeral_2_eq_2)
  have new: "ns_spent (cs_nullifier_set commit_stark_new) = {}" by (simp add: commit_stark_new_def ns_new_def)
  from intra_batch_double_spend [OF sample_circuit ideal_stark h w refl, of commit_stark_new toy_hash 1001 0] show ?thesis
    unfolding new by (auto simp: sample_input_def)
qed

text \<open>The window rule gives verdicts that do not last.  For a transaction whose ordering key sits in a quorate
  micro-commitment at its target sub-epoch, the rule answers \<open>Rejected\<close> as soon as the next sub-epoch starts,
  and \<open>Valid\<close> once any batch is committed in that sub-epoch, whichever transactions the batch holds.\<close>

theorem cg_window_verdict_flips:
  assumes "cg_condition_a blake3 vs key target candidates V" "\<not> is_finalized_at_subepoch cs (target + 1)" "target < target + 1"
    and "commit_batch_transfer perm blake3 vb cs (target + 1) e p claims ns = (cs', Inr StarkFinal)"
  shows "evaluate_cg_window blake3 vs key target (target + 1) candidates V cs = CgRejected
    \<and> evaluate_cg_window blake3 vs key target (target + 1) candidates V cs' = CgValid"
  using assms(1-3) commit_accepted_state(1) [OF assms(4)] by (simp add: evaluate_cg_window_def is_finalized_at_subepoch_def)

section \<open>What the key store guarantees\<close>

definition binding_wf :: "binding_store \<Rightarrow> bool" where
  "binding_wf b \<longleftrightarrow> sorted (map fst b) \<and> distinct (map fst b)"

lemma map_of_insort_key: "k \<notin> fst ` set b \<Longrightarrow> map_of (insort_key fst (k, v) b) = (map_of b)(k \<mapsto> v)"
  by (induction b) auto

lemma map_fst_update_present: "k \<in> fst ` set b \<Longrightarrow> map fst (AList.update k v b) = map fst b"
  by (induction b) auto

text \<open>The sorted store refines a partial map: registering succeeds exactly for an unbound node and adds its
  key, rebinding succeeds exactly for a bound node and replaces its key, errors change nothing, and both
  keep the entries sorted by node with one entry per node.\<close>

theorem binding_store_refines_map:
  assumes "binding_wf b"
  shows "(case binding_register b n k of (b', r) \<Rightarrow> binding_wf b'
      \<and> (r = (if map_of b n = None then Inr () else Inl AlreadyBound)) \<and> binding_get b' = (if map_of b n = None then (map_of b)(n \<mapsto> k) else map_of b))
    \<and> (case binding_rebind b n k of (b', r) \<Rightarrow> binding_wf b'
      \<and> (r = (if map_of b n = None then Inl BindingNotFound else Inr ())) \<and> binding_get b' = (if map_of b n = None then map_of b else (map_of b)(n \<mapsto> k)))"
proof -
  have none: "map_of b n = None \<longleftrightarrow> n \<notin> fst ` set b" by (simp add: map_of_eq_None_iff)
  have "binding_wf (insort_key fst (n, k) b)" if "n \<notin> fst ` set b"
    using assms that by (force simp: binding_wf_def sorted_insort_key distinct_map set_insort_key inj_on_def distinct_insort)
  moreover have "binding_wf (AList.update n k b)" if "n \<in> fst ` set b"
    using assms that by (simp add: binding_wf_def map_fst_update_present)
  ultimately show ?thesis using assms none
    by (auto simp: binding_register_def binding_rebind_def binding_get_def fun_eq_iff map_of_insort_key update_conv)
qed

theorem binding_store_refines_map_witness:
  "binding_wf [(replicate 32 1, replicate 32 5)] \<and> binding_get (fst (binding_register [(replicate 32 1, replicate 32 5)] (replicate 32 0) (replicate 32 9)))
     = [replicate 32 1 \<mapsto> replicate 32 5, replicate 32 0 \<mapsto> replicate 32 9]"
  using binding_store_refines_map [of "[(replicate 32 1, replicate 32 5)]" "replicate 32 0" "replicate 32 9"]
  by (simp add: binding_wf_def split_beta)

definition binding_messages :: "(bytes \<Rightarrow> bytes) \<Rightarrow> binding_store \<Rightarrow> bytes set" where
  "binding_messages blake3 b = insert (DOMAIN_GOV_BINDING @ concat (map (\<lambda>e. blake3 (binding_leaf_msg e)) b)) (binding_leaf_msg ` set b)"

text \<open>The root in the manifest binds the store: two non-empty stores of 32-byte ids and keys with the same root
  are the same, as long as the hash has no collision among the messages that were hashed for the two.\<close>

theorem binding_root_binds:
  assumes len: "\<And>m. length (blake3 m) = 32" and ne: "b \<noteq> []" "b' \<noteq> []"
    and shape: "list_all (\<lambda>e. length (fst e) = 32 \<and> length (snd e) = 32) (b @ b')"
    and inj: "inj_on blake3 (binding_messages blake3 b \<union> binding_messages blake3 b')"
    and eq: "binding_merkle_root blake3 b = binding_merkle_root blake3 b'"
  shows "b = b'"
proof -
  have "DOMAIN_GOV_BINDING @ concat (map (\<lambda>e. blake3 (binding_leaf_msg e)) b) = DOMAIN_GOV_BINDING @ concat (map (\<lambda>e. blake3 (binding_leaf_msg e)) b')"
    by (rule inj_onD [OF inj]) (use eq ne in \<open>simp_all add: binding_merkle_root_def binding_messages_def\<close>)
  then have same: "concat (map (\<lambda>e. blake3 (binding_leaf_msg e)) b) = concat (map (\<lambda>e. blake3 (binding_leaf_msg e)) b')" by simp
  moreover from this have "length b = length b'"
    using length_concat_uniform [of b "\<lambda>e. blake3 (binding_leaf_msg e)" 32] length_concat_uniform [of b' "\<lambda>e. blake3 (binding_leaf_msg e)" 32] len by simp
  ultimately have "map (\<lambda>e. blake3 (binding_leaf_msg e)) b = map (\<lambda>e. blake3 (binding_leaf_msg e)) b'"
    by (intro concat_fixed_length_inj [where n = 32]) (auto simp: len)
  then have "map blake3 (map binding_leaf_msg b) = map blake3 (map binding_leaf_msg b')" by (simp add: o_def)
  then have "map binding_leaf_msg b = map binding_leaf_msg b'"
    by (rule map_inj_on) (auto intro: inj_on_subset [OF inj] simp: binding_messages_def)
  then show ?thesis
    by (rule map_inj_on) (use shape in \<open>auto simp: inj_on_def binding_leaf_msg_def list_all_iff prod_eq_iff\<close>)
qed

definition sum_len_hash :: "bytes \<Rightarrow> bytes" where
  "sum_len_hash m = replicate 31 0 @ [sum_list m + of_nat (length m)]"

theorem binding_root_binds_witness:
  "binding_merkle_root sum_len_hash [(replicate 32 1, replicate 32 0)] \<noteq> binding_merkle_root sum_len_hash [(replicate 32 1, replicate 32 1)]"
proof
  assume eq: "binding_merkle_root sum_len_hash [(replicate 32 1, replicate 32 0)] = binding_merkle_root sum_len_hash [(replicate 32 1, replicate 32 1)]"
  have dom: "sum_list DOMAIN_GOV_BINDING = 91" "length DOMAIN_GOV_BINDING = 18" by code_simp+
  have "[(replicate 32 1, replicate 32 0 :: bytes)] = [(replicate 32 1 :: bytes, replicate 32 1)]"
    by (rule binding_root_binds [OF _ _ _ _ _ eq])
      (simp_all add: sum_len_hash_def binding_messages_def binding_leaf_msg_def inj_on_def dom sum_list_replicate)
  then show False by (simp add: numeral_eq_Suc)
qed

definition sample_mc :: micro_commitment where
  "sample_mc = (micro_commitment_new 1000 1 (merkle_leaf toy_hash (replicate 32 3)) [] [])
     \<lparr>mc_quorum_signatures := map (\<lambda>i. ([i], [])) [1, 2, 3, 4, 5]\<rparr>"

theorem cg_window_verdict_flips_witness:
  "\<exists>p claims ns cs'. commit_batch_transfer (map field_reduce) toy_hash (verify_batch_transfer (\<lambda>_. []) 176 ideal_decode air_accepts boundary_accepts)
        commit_stark_new 1001 0 p claims ns = (cs', Inr StarkFinal)
    \<and> evaluate_cg_window toy_hash (\<lambda>_ _ _. Some True) (replicate 32 3) 1000 1001 [(sample_mc, [])] (map (\<lambda>i. ([i], [])) [1, 2, 3, 4, 5]) commit_stark_new = CgRejected
    \<and> evaluate_cg_window toy_hash (\<lambda>_ _ _. Some True) (replicate 32 3) 1000 1001 [(sample_mc, [])] (map (\<lambda>i. ([i], [])) [1, 2, 3, 4, 5]) cs' = CgValid"
proof -
  obtain claims where h: "honest_batch (map field_reduce) (sample_witnesses 1) (sample_transfer_pi 1) sample_root claims"
    using sample_honest [of 1] by blast
  have "is_power_of_two (length (tw_ownership (sample_witnesses 1)))" by (simp add: sample_witnesses_def is_power_of_two_1)
  then obtain p cs' ns where c: "commit_batch_transfer (map field_reduce) toy_hash (verify_batch_transfer (\<lambda>_. []) 176 ideal_decode air_accepts boundary_accepts)
        commit_stark_new 1001 0 p claims ns = (cs', Inr StarkFinal)"
    using honest_commit [OF sample_circuit ideal_stark h _ _ refl, of commit_stark_new toy_hash 1001 0]
    by (auto simp: sample_witnesses_def commit_stark_new_def ns_new_def)
  have a: "cg_condition_a toy_hash (\<lambda>_ _ _. Some True) (replicate 32 3) 1000 [(sample_mc, [])] (map (\<lambda>i. ([i], [])) [1, 2, 3, 4, 5])"
    by (simp add: cg_condition_a_def sample_mc_def micro_commitment_new_def verify_quorum_def Let_def mc_count_step_def QUORUM_THRESHOLD_NUM_def
        contains_ordering_key_def verify_ordering_key_inclusion_def mc_climb_def)
  have "\<not> is_finalized_at_subepoch commit_stark_new (1000 + 1)" by (simp add: is_finalized_at_subepoch_def commit_stark_new_def)
  with cg_window_verdict_flips [OF a this, of "map field_reduce" "verify_batch_transfer (\<lambda>_. []) 176 ideal_decode air_accepts boundary_accepts" 0 p claims ns cs'] c
  show ?thesis by (intro exI [of _ p] exI [of _ claims] exI [of _ ns] exI [of _ cs']) simp
qed

end
