(* ===== verification/Network_Time.thy ===== *)
theory Network_Time
  imports Prelude "HOL-Library.Sublist"
begin

text \<open>
  Network time, from \<open>core/scalar-network/src/nmt.rs\<close>, \<open>nmt_hybrid.rs\<close>, \<open>time.rs\<close> and
  \<open>core/scalar-node/src/nmt_production.rs\<close>: the median of eight peer clocks with its eclipse check, the choice of the
  24 peers whose clocks count, the store of peer timestamps and the time a node finally uses.  The local clock,
  BLAKE3 and the ChaCha20 stream are parameters.
\<close>

section \<open>The median of eight\<close>

definition NMT_PEER_COUNT :: nat where
  "NMT_PEER_COUNT = 8"

definition T_NMT_MAX_DRIFT_S :: u32 where
  "T_NMT_MAX_DRIFT_S = 600"

definition compute_nmt :: "u32 list \<Rightarrow> u32 option" where
  "compute_nmt peer_timestamps =
     (if length peer_timestamps < NMT_PEER_COUNT then None
      else Some (sort (take NMT_PEER_COUNT peer_timestamps) ! (NMT_PEER_COUNT div 2 - 1)))"

definition compute_nmt_from_8_peers :: "u32 list \<Rightarrow> u32" where
  "compute_nmt_from_8_peers peer_timestamps = sort peer_timestamps ! (NMT_PEER_COUNT div 2 - 1)"

datatype nmt_status = NmtValid u32 u32 | NmtEclipseAlert u32 u32 u32 | NmtInsufficientPeers nat nat

definition compute_nmt_with_eclipse_check :: "u32 list \<Rightarrow> u32 \<Rightarrow> nmt_status" where
  "compute_nmt_with_eclipse_check peer_timestamps local_wall_clock =
     (case compute_nmt peer_timestamps of
        None \<Rightarrow> NmtInsufficientPeers (length peer_timestamps) NMT_PEER_COUNT
      | Some nmt \<Rightarrow>
          (let drift_s = abs_diff nmt local_wall_clock
           in if drift_s > T_NMT_MAX_DRIFT_S then NmtEclipseAlert nmt local_wall_clock drift_s
              else NmtValid nmt drift_s))"

record nmt_state =
  nm_current_nmt :: "u32 option"
  nm_last_update_wall_s :: u64
  nm_peer_count :: nat

definition nmt_state_new :: nmt_state where
  "nmt_state_new = \<lparr>nm_current_nmt = None, nm_last_update_wall_s = 0, nm_peer_count = 0\<rparr>"

definition nmt_update :: "nmt_state \<Rightarrow> u32 list \<Rightarrow> u32 \<Rightarrow> u64 \<Rightarrow> nmt_state \<times> nmt_status" where
  "nmt_update s peer_timestamps local_wall_clock wall_clock_s =
     (let status = compute_nmt_with_eclipse_check peer_timestamps local_wall_clock;
          stored = (\<lambda>nmt. s\<lparr>nm_current_nmt := Some nmt, nm_last_update_wall_s := wall_clock_s,
            nm_peer_count := min (length peer_timestamps) NMT_PEER_COUNT\<rparr>)
      in case status of
          NmtValid nmt _ \<Rightarrow> (stored nmt, status)
        | NmtEclipseAlert nmt _ _ \<Rightarrow> (stored nmt, status)
        | NmtInsufficientPeers _ _ \<Rightarrow> (s, status))"

text \<open>The older consensus of \<open>time.rs\<close> counts the local clock as one of the peers.\<close>

definition get_median_network_time :: "u64 list \<Rightarrow> u64 \<Rightarrow> u64" where
  "get_median_network_time peer_timestamps local_time =
     (let ts = peer_timestamps @ [local_time] in sort ts ! (length ts div 2))"

section \<open>The choice of peers\<close>

definition NMT_SCORE_THRESHOLD :: u64 where
  "NMT_SCORE_THRESHOLD = 800000"

definition NMT_PEER_COUNT_V12 :: nat where
  "NMT_PEER_COUNT_V12 = 24"

definition NMT_DETERMINISTIC_SLOTS :: nat where
  "NMT_DETERMINISTIC_SLOTS = 23"

definition NMT_MAX_PER_SUBNET24 :: nat where
  "NMT_MAX_PER_SUBNET24 = 3"

definition NMT_MAX_PER_ASN :: nat where
  "NMT_MAX_PER_ASN = 5"

definition NMT_MAX_PER_REGION :: nat where
  "NMT_MAX_PER_REGION = 4"

definition DOMAIN_NMT :: bytes where
  "DOMAIN_NMT = ascii ''scalar_nmt''"

definition DOMAIN_NMT_RANDOM :: bytes where
  "DOMAIN_NMT_RANDOM = ascii ''nmt_random''"

record nmt_candidate =
  nc_node_id_full :: bytes
  nc_node_score :: u64
  nc_subnet24 :: bytes
  nc_asn :: bytes
  nc_region :: u8

definition nc_is_eligible :: "nmt_candidate \<Rightarrow> bool" where
  "nc_is_eligible c \<longleftrightarrow> nc_node_score c > NMT_SCORE_THRESHOLD"

definition compute_nmt_rank :: "(bytes \<Rightarrow> bytes) \<Rightarrow> bytes \<Rightarrow> bytes \<Rightarrow> bytes" where
  "compute_nmt_rank blake3 node_id_full seed_k = blake3 (DOMAIN_NMT @ node_id_full @ seed_k)"

definition compute_nmt_random_seed :: "(bytes \<Rightarrow> bytes) \<Rightarrow> bytes \<Rightarrow> bytes" where
  "compute_nmt_random_seed blake3 seed_k = blake3 (seed_k @ DOMAIN_NMT_RANDOM)"

record nmt_selection =
  nr_deterministic_slots :: "bytes list"
  nr_random_slot :: "bytes option"
  nr_total_selected :: nat

definition all_peers :: "nmt_selection \<Rightarrow> bytes list" where
  "all_peers r = nr_deterministic_slots r @ (case nr_random_slot r of Some x \<Rightarrow> [x] | None \<Rightarrow> [])"

text \<open>The loop that fills the deterministic slots, with its three counters.\<close>

record nmt_slots =
  sl_slots :: "bytes list"
  sl_subnets :: "(bytes \<times> nat) list"
  sl_asns :: "(bytes \<times> nat) list"
  sl_regions :: "(u8 \<times> nat) list"

definition count_of :: "('k \<times> nat) list \<Rightarrow> 'k \<Rightarrow> nat" where
  "count_of m k = unwrap_or (map_of m k) 0"

definition bump :: "'k \<Rightarrow> ('k \<times> nat) list \<Rightarrow> ('k \<times> nat) list" where
  "bump k m = AList.update k (count_of m k + 1) m"

primrec nmt_fill :: "nmt_candidate list \<Rightarrow> nmt_slots \<Rightarrow> nmt_slots" where
  "nmt_fill [] s = s"
| "nmt_fill (c # cs) s =
     (if length (sl_slots s) \<ge> NMT_DETERMINISTIC_SLOTS then s
      else if count_of (sl_subnets s) (nc_subnet24 c) \<ge> NMT_MAX_PER_SUBNET24 then nmt_fill cs s
      else if count_of (sl_asns s) (nc_asn c) \<ge> NMT_MAX_PER_ASN then nmt_fill cs s
      else if count_of (sl_regions s) (nc_region c) \<ge> NMT_MAX_PER_REGION then nmt_fill cs s
      else nmt_fill cs \<lparr>sl_slots = sl_slots s @ [nc_node_id_full c], sl_subnets = bump (nc_subnet24 c) (sl_subnets s),
        sl_asns = bump (nc_asn c) (sl_asns s), sl_regions = bump (nc_region c) (sl_regions s)\<rparr>)"

text \<open>\<open>draw i\<close> is the \<open>i\<close>-th 64-bit value of the generator.  The rejection loop ends at the first value below the
  threshold; \<open>None\<close> means that there is none.\<close>

partial_function (option) rejection_loop :: "(nat \<Rightarrow> u64) \<Rightarrow> u64 \<Rightarrow> nat \<Rightarrow> u64 option" where
  "rejection_loop draw threshold i = (if draw i < threshold then Some (draw i) else rejection_loop draw threshold (Suc i))"

declare rejection_loop.simps [code]

definition random_threshold :: "nat \<Rightarrow> u64" where
  "random_threshold n = (- 1) - ((- 1) mod of_nat n)"

definition select_random_slot :: "(bytes \<Rightarrow> nat \<Rightarrow> u64) \<Rightarrow> nmt_candidate list \<Rightarrow> bytes \<Rightarrow> bytes list \<Rightarrow> bytes option option" where
  "select_random_slot chacha eligible random_seed already_selected =
     (let remaining = filter (\<lambda>c. nc_node_id_full c \<notin> set already_selected) eligible
      in if remaining = [] then Some None
         else map_option (\<lambda>v. Some (nc_node_id_full (remaining ! (unat v mod length remaining))))
           (rejection_loop (chacha random_seed) (random_threshold (length remaining)) 0))"

definition select_nmt_peers_hybrid ::
  "(bytes \<Rightarrow> bytes) \<Rightarrow> (bytes \<Rightarrow> nat \<Rightarrow> u64) \<Rightarrow> nmt_candidate list \<Rightarrow> bytes \<Rightarrow> nmt_selection option" where
  "select_nmt_peers_hybrid blake3 chacha candidates seed_k =
     (let eligible = filter nc_is_eligible candidates
      in if eligible = [] then Some \<lparr>nr_deterministic_slots = [], nr_random_slot = None, nr_total_selected = 0\<rparr>
         else
           let ranked = sort_key (\<lambda>c. compute_nmt_rank blake3 (nc_node_id_full c) seed_k) eligible;
               slots = sl_slots (nmt_fill ranked \<lparr>sl_slots = [], sl_subnets = [], sl_asns = [], sl_regions = []\<rparr>)
           in map_option (\<lambda>random_slot. \<lparr>nr_deterministic_slots = slots, nr_random_slot = random_slot,
                nr_total_selected = length slots + (if random_slot \<noteq> None then 1 else 0)\<rparr>)
              (select_random_slot chacha eligible (compute_nmt_random_seed blake3 seed_k) slots))"

section \<open>The time a node uses\<close>

definition NMT_MIN_PEERS_FOR_RELIABLE :: nat where
  "NMT_MIN_PEERS_FOR_RELIABLE = 9"

definition NMT_MAX_STORED_TIMESTAMPS :: nat where
  "NMT_MAX_STORED_TIMESTAMPS = NMT_PEER_COUNT_V12"

type_synonym peer_timestamps = "(bytes \<times> u32) list"

definition ts_update :: "((bytes \<times> u32) list \<Rightarrow> (bytes \<times> u32) list) \<Rightarrow> peer_timestamps \<Rightarrow> bytes \<Rightarrow> u32 \<Rightarrow> peer_timestamps" where
  "ts_update iter s node_id_short timestamp =
     (let s' = AList.update node_id_short timestamp s
      in if length s' > NMT_MAX_STORED_TIMESTAMPS then
           (case min_by_key snd (iter s') of Some (oldest_id, _) \<Rightarrow> AList.delete oldest_id s' | None \<Rightarrow> s')
         else s')"

definition all_timestamps :: "((bytes \<times> u32) list \<Rightarrow> (bytes \<times> u32) list) \<Rightarrow> peer_timestamps \<Rightarrow> u32 list" where
  "all_timestamps iter s = map snd (iter s)"

definition ts_remove_peer :: "peer_timestamps \<Rightarrow> bytes \<Rightarrow> peer_timestamps" where
  "ts_remove_peer s node_id_short = AList.delete node_id_short s"

datatype production_nmt_result = FromPeers u32 nat | FallbackWallClock u32 nat | ProductionEclipseAlert u32 u32

fun nmt_value :: "production_nmt_result \<Rightarrow> u32" where
  "nmt_value (FromPeers nmt _) = nmt"
| "nmt_value (FallbackWallClock nmt _) = nmt"
| "nmt_value (ProductionEclipseAlert nmt _) = nmt"

definition is_from_peers :: "production_nmt_result \<Rightarrow> bool" where
  "is_from_peers r \<longleftrightarrow> (case r of FromPeers _ _ \<Rightarrow> True | _ \<Rightarrow> False)"

definition compute_production_nmt ::
  "((bytes \<times> u32) list \<Rightarrow> (bytes \<times> u32) list) \<Rightarrow> peer_timestamps \<Rightarrow> u32 \<Rightarrow> production_nmt_result" where
  "compute_production_nmt iter peer_store local_wall_clock =
     (let timestamps = all_timestamps iter peer_store; peer_count = length timestamps
      in if peer_count < NMT_MIN_PEERS_FOR_RELIABLE then FallbackWallClock local_wall_clock peer_count
         else case compute_nmt_with_eclipse_check timestamps local_wall_clock of
             NmtValid nmt _ \<Rightarrow> FromPeers nmt peer_count
           | NmtEclipseAlert nmt _ drift_s \<Rightarrow> ProductionEclipseAlert nmt drift_s
           | NmtInsufficientPeers n _ \<Rightarrow> FallbackWallClock local_wall_clock n)"

section \<open>Order statistics\<close>

lemma sorted_nth_down:
  assumes "sorted xs" "k < length xs" "\<And>x y. x \<le> y \<Longrightarrow> P y \<Longrightarrow> P x"
  shows "P (xs ! k) \<longleftrightarrow> k < length (filter P xs)"
  using assms
proof (induction xs arbitrary: k)
  case (Cons x xs)
  have none: "filter P xs = []" if "\<not> P x" using that Cons.prems(1,3) by (auto simp: filter_empty_conv)
  show ?case
  proof (cases k)
    case 0
    then show ?thesis using none by auto
  next
    case (Suc j)
    have "\<not> P (xs ! j)" if "\<not> P x" using that Cons.prems Suc by (auto dest: nth_mem)
    then show ?thesis using Cons.IH [of j] Cons.prems Suc none by auto
  qed
qed simp

lemma length_filter_sort: "length (filter P (sort xs)) = length (filter P xs)"
  by (metis mset_filter mset_sort size_mset)

lemma compute_nmt_Some:
  assumes "NMT_PEER_COUNT \<le> length ts"
  shows "\<exists>m. compute_nmt ts = Some m \<and> m \<in> set (take 8 ts)
    \<and> (m < lo \<longleftrightarrow> 4 \<le> length (filter (\<lambda>t. t < lo) (take 8 ts))) \<and> (hi < m \<longleftrightarrow> 5 \<le> length (filter (\<lambda>t. hi < t) (take 8 ts)))"
proof -
  let ?xs = "sort (take 8 ts)"
  have len: "length ?xs = 8" using assms by (simp add: NMT_PEER_COUNT_def)
  have low: "?xs ! 3 < lo \<longleftrightarrow> 3 < length (filter (\<lambda>t. t < lo) ?xs)" using len by (intro sorted_nth_down) auto
  have "?xs ! 3 \<le> hi \<longleftrightarrow> 3 < length (filter (\<lambda>t. t \<le> hi) ?xs)" using len by (intro sorted_nth_down) auto
  moreover have "length (filter (\<lambda>t. t \<le> hi) ?xs) + length (filter (\<lambda>t. hi < t) ?xs) = 8"
    using sum_length_filter_compl [of "\<lambda>t. t \<le> hi" ?xs] len by (simp add: not_le)
  ultimately have "hi < ?xs ! 3 \<longleftrightarrow> 5 \<le> length (filter (\<lambda>t. hi < t) ?xs)" by (subst not_le [symmetric]) linarith
  moreover have "?xs ! 3 \<in> set ?xs" using len by (intro nth_mem) simp
  ultimately show ?thesis using assms low by (intro exI [of _ "?xs ! 3"]) (auto simp: compute_nmt_def NMT_PEER_COUNT_def length_filter_sort)
qed

section \<open>Who controls the median\<close>

text \<open>C22. The network time is one of the first eight timestamps, and it is below a bound exactly when four of them are,
  above a bound exactly when five are: four of eight peers can pull it back at will, pushing it ahead takes
  five.\<close>

theorem nmt_control:
  assumes "8 \<le> length ts"
  shows "\<exists>m. compute_nmt ts = Some m \<and> m \<in> set (take 8 ts)
    \<and> (m < lo \<longleftrightarrow> 4 \<le> length (filter (\<lambda>t. t < lo) (take 8 ts))) \<and> (hi < m \<longleftrightarrow> 5 \<le> length (filter (\<lambda>t. hi < t) (take 8 ts)))"
  using compute_nmt_Some assms by (simp add: NMT_PEER_COUNT_def)

theorem nmt_control_witness:
  "\<exists>m. compute_nmt [1000, 1001, 1002, 1003, 1, 2, 3, 4] = Some m \<and> m < 10"
  using nmt_control [of "[1000, 1001, 1002, 1003, 1, 2, 3, 4]" 10 0] by auto

lemma production_nmt_value:
  assumes "iteration_order iter" "9 \<le> length s"
  shows "compute_nmt (all_timestamps iter s) = Some (nmt_value (compute_production_nmt iter s c))"
proof -
  have len: "9 \<le> length (all_timestamps iter s)" using assms by (simp add: all_timestamps_def iteration_order_length)
  then obtain m where "compute_nmt (all_timestamps iter s) = Some m"
    using compute_nmt_Some [of "all_timestamps iter s"] by (auto simp: NMT_PEER_COUNT_def)
  then show ?thesis using len
    by (simp add: compute_production_nmt_def compute_nmt_with_eclipse_check_def Let_def NMT_MIN_PEERS_FOR_RELIABLE_def)
qed

definition split_order :: "('e \<Rightarrow> bool) \<Rightarrow> 'e list \<Rightarrow> 'e list" where
  "split_order P xs = filter P xs @ filter (\<lambda>x. \<not> P x) xs"

lemma split_order: "iteration_order (split_order P)"
  by (simp add: iteration_order_def split_order_def)

lemma take_split_order:
  assumes "k \<le> length (filter P xs)" "k \<le> n"
  shows "k \<le> length (filter P (take n (split_order P xs)))"
proof -
  have "filter P (take n (filter P xs)) = take n (filter P xs)" by (rule filter_True) (auto dest: in_set_takeD)
  then have "take n (filter P xs) @ filter P (take (n - length (filter P xs)) (filter (\<lambda>x. \<not> P x) xs)) = filter P (take n (split_order P xs))"
    by (simp add: split_order_def)
  then have "length (take n (filter P xs)) \<le> length (filter P (take n (split_order P xs)))" by (metis length_append le_add1)
  then show ?thesis using assms by simp
qed

text \<open>The time a node uses is a median of eight entries of its table, the eight that the map yields first: when
  four of the stored timestamps are below a value and five are not, two nodes with the same table can be on
  different sides of it.\<close>

theorem production_nmt_order_dependent:
  assumes "4 \<le> length (filter (\<lambda>e. snd e < lo) s)" "5 \<le> length (filter (\<lambda>e. \<not> snd e < lo) s)"
  shows "\<exists>iter iter'. iteration_order iter \<and> iteration_order iter'
    \<and> nmt_value (compute_production_nmt iter s c) < lo \<and> lo \<le> nmt_value (compute_production_nmt iter' s c)"
proof -
  let ?P = "\<lambda>e. snd e < lo" and ?Q = "\<lambda>e. \<not> snd e < lo"
  have len: "9 \<le> length s" using assms sum_length_filter_compl [of ?P s] by linarith
  have val: "(nmt_value (compute_production_nmt iter s c) < lo) = (4 \<le> length (filter ?P (take 8 (iter s))))"
    if "iteration_order iter" for iter
    using production_nmt_value [OF that len, of c] compute_nmt_Some [of "all_timestamps iter s" lo 0] len
    by (auto simp: all_timestamps_def iteration_order_length [OF that] NMT_PEER_COUNT_def take_map filter_map o_def)
  have "4 \<le> length (filter ?P (take 8 (split_order ?P s)))" using assms(1) by (intro take_split_order) simp_all
  moreover have "5 \<le> length (filter ?Q (take 8 (split_order ?Q s)))" using assms(2) by (intro take_split_order) simp_all
  then have "\<not> 4 \<le> length (filter ?P (take 8 (split_order ?Q s)))"
    using sum_length_filter_compl [of ?P "take 8 (split_order ?Q s)"] by (simp del: not_less)
  ultimately have "nmt_value (compute_production_nmt (split_order ?P) s c) < lo" "lo \<le> nmt_value (compute_production_nmt (split_order ?Q) s c)"
    using val [OF split_order, of ?P] val [OF split_order, of ?Q] by (simp_all add: not_less)
  then show ?thesis using split_order by blast
qed

theorem production_nmt_order_dependent_witness:
  "\<exists>iter iter'. iteration_order iter \<and> iteration_order iter'
    \<and> nmt_value (compute_production_nmt iter (map (\<lambda>i. ([of_nat i], if i < 4 then 5 else 2000)) [0..<9]) 2000) < 10
    \<and> 10 \<le> nmt_value (compute_production_nmt iter' (map (\<lambda>i. ([of_nat i], if i < 4 then 5 else 2000)) [0..<9]) 2000)"
  by (rule production_nmt_order_dependent) (simp_all add: upt_rec)

lemma update_new: "k \<notin> fst ` set s \<Longrightarrow> AList.update k v s = s @ [(k, v)]"
  by (induction s) auto

lemma delete_added: "k \<notin> fst ` set s \<Longrightarrow> AList.delete k (s @ [(k, v)]) = s"
  by (auto simp: AList.delete_eq filter_id_conv image_iff)

lemma length_update_present: "k \<in> fst ` set s \<Longrightarrow> length (AList.update k v s) = length s"
  by (induction s) auto

lemma ts_update_bounded:
  assumes "iteration_order iter" "unique_keys s" "length s \<le> 24"
  shows "unique_keys (ts_update iter s k t) \<and> length (ts_update iter s k t) \<le> 24"
proof -
  let ?s = "AList.update k t s"
  have u: "unique_keys ?s" using assms(2) by simp
  have len: "length ?s \<le> 25" using assms(3) by (cases "k \<in> fst ` set s") (simp_all add: update_new length_update_present)
  show ?thesis
  proof (cases "min_by_key snd (iter ?s)")
    case None
    then have "?s = []" using iteration_order_length [OF assms(1), of ?s] by simp
    then show ?thesis using u by (simp add: ts_update_def NMT_MAX_STORED_TIMESTAMPS_def NMT_PEER_COUNT_V12_def)
  next
    case (Some e)
    then have "e \<in> set ?s" using min_by_key_Some(1) [OF Some] iteration_order_set [OF assms(1)] by blast
    then have "length (AList.delete (fst e) ?s) < length ?s"
      by (auto simp: AList.delete_eq intro!: length_filter_less)
    then show ?thesis using u len Some by (auto simp: ts_update_def NMT_MAX_STORED_TIMESTAMPS_def NMT_PEER_COUNT_V12_def Let_def split_beta)
  qed
qed

text \<open>The table of timestamps keeps one entry per peer and at most 24 of them, and it forgets the smallest
  timestamp first.  So when its 24 entries are ahead of the honest clocks, no report of any other peer at an
  honest time changes it again.\<close>

theorem captured_timestamps_stay:
  assumes iter: "iteration_order iter" and s: "unique_keys s" "length s = 24"
    and rs: "\<forall>(k, t)\<in>set rs. k \<notin> fst ` set s \<and> (\<forall>e\<in>set s. t < snd e)"
  shows "fold (\<lambda>(k, t) s. ts_update iter s k t) rs s = s \<and> (\<forall>k t. unique_keys (ts_update iter s k t) \<and> length (ts_update iter s k t) \<le> 24)"
proof
  show "fold (\<lambda>(k, t) s. ts_update iter s k t) rs s = s"
    using rs
  proof (induction rs)
    case (Cons r rs)
    obtain k t where r: "r = (k, t)" by fastforce
    have new: "k \<notin> fst ` set s" "\<And>e. e \<in> set s \<Longrightarrow> t < snd e" using Cons.prems r by auto
    let ?s = "s @ [(k, t)]"
    obtain e where e: "min_by_key snd (iter ?s) = Some e"
      using iteration_order_length [OF iter, of ?s] by (cases "min_by_key snd (iter ?s)") auto
    have "e \<in> set ?s" "snd e \<le> t"
      using min_by_key_Some [OF e] iteration_order_set [OF iter, of ?s] by force+
    then have "e = (k, t)" using new(2) by fastforce
    then have "ts_update iter s k t = s"
      using e s(2) delete_added [OF new(1)] by (simp add: ts_update_def Let_def update_new [OF new(1)] NMT_MAX_STORED_TIMESTAMPS_def NMT_PEER_COUNT_V12_def)
    then show ?case using Cons r by simp
  qed simp
  show "\<forall>k t. unique_keys (ts_update iter s k t) \<and> length (ts_update iter s k t) \<le> 24"
    using ts_update_bounded [OF iter s(1)] s(2) by simp
qed

theorem captured_timestamps_stay_witness:
  "fold (\<lambda>(k, t) s. ts_update rev s k t) [([200], 1000), ([201], 1001)] (map (\<lambda>i. ([of_nat i], 5000)) [0..<24])
     = map (\<lambda>i. ([of_nat i], 5000)) [0..<24]"
  using captured_timestamps_stay [of rev "map (\<lambda>i. ([of_nat i], 5000)) [0..<24]" "[([200], 1000), ([201], 1001)]"]
  by (simp add: unique_keys_def upt_rec)

section \<open>The peers that are chosen\<close>

definition members :: "(nmt_candidate \<Rightarrow> 'k) \<Rightarrow> nmt_candidate list \<Rightarrow> 'k \<Rightarrow> nat" where
  "members f sel k = length (filter (\<lambda>c. f c = k) sel)"

definition diverse :: "nmt_candidate list \<Rightarrow> bool" where
  "diverse sel \<longleftrightarrow> (\<forall>k. members nc_subnet24 sel k \<le> NMT_MAX_PER_SUBNET24) \<and> (\<forall>k. members nc_asn sel k \<le> NMT_MAX_PER_ASN)
     \<and> (\<forall>k. members nc_region sel k \<le> NMT_MAX_PER_REGION)"

definition crowded_out :: "nmt_candidate list \<Rightarrow> nmt_candidate \<Rightarrow> bool" where
  "crowded_out sel c \<longleftrightarrow> members nc_subnet24 sel (nc_subnet24 c) = NMT_MAX_PER_SUBNET24 \<or> members nc_asn sel (nc_asn c) = NMT_MAX_PER_ASN
     \<or> members nc_region sel (nc_region c) = NMT_MAX_PER_REGION"

definition slots_for :: "nmt_candidate list \<Rightarrow> nmt_slots \<Rightarrow> bool" where
  "slots_for sel s \<longleftrightarrow> sl_slots s = map nc_node_id_full sel \<and> length sel \<le> NMT_DETERMINISTIC_SLOTS \<and> diverse sel
     \<and> count_of (sl_subnets s) = members nc_subnet24 sel \<and> count_of (sl_asns s) = members nc_asn sel
     \<and> count_of (sl_regions s) = members nc_region sel"

lemma count_of_bump: "count_of (bump k m) = (count_of m)(k := count_of m k + 1)"
  by (auto simp: fun_eq_iff count_of_def bump_def update_conv')

lemma members_snoc: "members f (sel @ [c]) = (members f sel)(f c := members f sel (f c) + 1)"
  by (auto simp: fun_eq_iff members_def)

lemma members_append: "members f (sel @ new) k = members f sel k + members f new k"
  by (simp add: members_def)

lemma crowded_out_append: "crowded_out sel c \<Longrightarrow> diverse (sel @ new) \<Longrightarrow> crowded_out (sel @ new) c"
  unfolding crowded_out_def diverse_def members_append by (metis le_add1 le_antisym)

lemma nmt_fill_slots:
  "slots_for sel s \<Longrightarrow> \<exists>new. slots_for (sel @ new) (nmt_fill cs s) \<and> subseq new cs
     \<and> (length (sel @ new) = NMT_DETERMINISTIC_SLOTS \<or> (\<forall>c\<in>set cs. c \<in> set new \<or> crowded_out (sel @ new) c))"
proof (induction cs arbitrary: sel s)
  case Nil
  then show ?case by (intro exI [of _ "[]"]) simp
next
  case (Cons c cs)
  have inv: "sl_slots s = map nc_node_id_full sel" "length sel \<le> NMT_DETERMINISTIC_SLOTS" "diverse sel"
      "count_of (sl_subnets s) = members nc_subnet24 sel" "count_of (sl_asns s) = members nc_asn sel" "count_of (sl_regions s) = members nc_region sel"
    using Cons.prems by (simp_all add: slots_for_def)
  consider (full) "length sel = NMT_DETERMINISTIC_SLOTS" | (crowded) "length sel < NMT_DETERMINISTIC_SLOTS" "crowded_out sel c"
    | (free) "length sel < NMT_DETERMINISTIC_SLOTS" "\<not> crowded_out sel c" using inv(2) by linarith
  then show ?case
  proof cases
    case full
    then show ?thesis using Cons.prems inv by (intro exI [of _ "[]"]) simp
  next
    case crowded
    then have "nmt_fill (c # cs) s = nmt_fill cs s" using inv by (auto simp: crowded_out_def)
    moreover obtain new where "slots_for (sel @ new) (nmt_fill cs s)" "subseq new cs"
      "length (sel @ new) = NMT_DETERMINISTIC_SLOTS \<or> (\<forall>c\<in>set cs. c \<in> set new \<or> crowded_out (sel @ new) c)"
      using Cons.IH [OF Cons.prems] by blast
    moreover have "crowded_out (sel @ new) c" using crowded(2) calculation(2) by (intro crowded_out_append) (simp_all add: slots_for_def)
    ultimately show ?thesis by (intro exI [of _ new]) auto
  next
    case free
    let ?s = "\<lparr>sl_slots = sl_slots s @ [nc_node_id_full c], sl_subnets = bump (nc_subnet24 c) (sl_subnets s),
        sl_asns = bump (nc_asn c) (sl_asns s), sl_regions = bump (nc_region c) (sl_regions s)\<rparr>"
    have lt: "members nc_subnet24 sel (nc_subnet24 c) < NMT_MAX_PER_SUBNET24" "members nc_asn sel (nc_asn c) < NMT_MAX_PER_ASN"
      "members nc_region sel (nc_region c) < NMT_MAX_PER_REGION"
      using free(2) inv(3) by (auto simp: crowded_out_def diverse_def le_less)
    have "nmt_fill (c # cs) s = nmt_fill cs ?s" using inv lt free(1) by simp
    moreover have "slots_for (sel @ [c]) ?s"
      using inv lt free(1) by (simp add: slots_for_def diverse_def count_of_bump members_snoc Suc_le_eq)
    then obtain new where "slots_for ((sel @ [c]) @ new) (nmt_fill cs ?s)" "subseq new cs"
      "length ((sel @ [c]) @ new) = NMT_DETERMINISTIC_SLOTS \<or> (\<forall>d\<in>set cs. d \<in> set new \<or> crowded_out ((sel @ [c]) @ new) d)"
      using Cons.IH by blast
    ultimately show ?thesis by (intro exI [of _ "c # new"]) auto
  qed
qed

lemma rejection_loop_Some: "rejection_loop draw threshold i = Some v \<Longrightarrow> v < threshold \<and> (\<exists>j\<ge>i. v = draw j)"
proof (induction rule: rejection_loop.raw_induct [rotated 1, consumes 1])
  case (1 rl draw threshold i v)
  then show ?case by (auto split: if_splits) (meson Suc_leD)
qed

lemma rejection_loop_terminates: "draw (i + n) < threshold \<Longrightarrow> rejection_loop draw threshold i \<noteq> None"
proof (induction n arbitrary: i)
  case (Suc n)
  then show ?case using Suc.IH [of "Suc i"] by (subst rejection_loop.simps) simp
qed (simp add: rejection_loop.simps)

lemma random_threshold_large:
  assumes "0 < n" "n < 2 ^ 63" "unat (v :: u64) < 2 ^ 63"
  shows "v < random_threshold n"
proof -
  have n: "unat (of_nat n :: u64) = n" using assms(2) by (simp add: unat_of_nat take_bit_nat_eq_self)
  have m: "unat ((- 1 :: u64) mod of_nat n) = (2 ^ 64 - 1) mod n" by (simp add: unat_mod n unat_max_word)
  have "(- 1 :: u64) mod of_nat n \<le> - 1" by simp
  then have "unat (random_threshold n) = 2 ^ 64 - 1 - (2 ^ 64 - 1) mod n"
    unfolding random_threshold_def by (subst unat_sub) (simp_all add: m unat_max_word)
  moreover have "(2 ^ 64 - 1 :: nat) mod n < n" using assms(1) by (intro mod_less_divisor)
  moreover have "n + unat v < 2 ^ 64" using assms(2,3) by simp
  ultimately show ?thesis unfolding word_less_nat_alt by linarith
qed

lemma select_random_slot_cases:
  "select_random_slot chacha eligible seed taken = Some r \<Longrightarrow> r = Some x \<Longrightarrow> x \<notin> set taken \<and> (\<exists>c\<in>set eligible. nc_node_id_full c = x)"
proof -
  let ?rem = "filter (\<lambda>c. nc_node_id_full c \<notin> set taken) eligible"
  assume *: "select_random_slot chacha eligible seed taken = Some r" "r = Some x"
  then obtain v :: u64 where v: "x = nc_node_id_full (?rem ! (unat v mod length ?rem))" "?rem \<noteq> []"
    by (auto simp: select_random_slot_def Let_def split: if_splits)
  have "?rem ! (unat v mod length ?rem) \<in> set ?rem" using v(2) by (intro nth_mem mod_less_divisor) simp
  then show ?thesis using v(1) by auto
qed

lemma select_random_slot_returns:
  assumes "unat (chacha seed i) < 2 ^ 63" "length eligible < 2 ^ 63"
  shows "select_random_slot chacha eligible seed taken \<noteq> None"
proof -
  let ?rem = "filter (\<lambda>c. nc_node_id_full c \<notin> set taken) eligible"
  have "length ?rem < 2 ^ 63" using assms(2) length_filter_le [of _ eligible] by (rule le_less_trans [rotated])
  then have "rejection_loop (chacha seed) (random_threshold (length ?rem)) 0 \<noteq> None" if "?rem \<noteq> []"
    using that assms(1) by (intro rejection_loop_terminates [where n = i] random_threshold_large) simp_all
  then show ?thesis by (simp add: select_random_slot_def Let_def)
qed

text \<open>The choice of time peers is diverse and exhaustive: the deterministic slots are at most 23 eligible candidates
  in rank order with at most three of a subnet, five of an autonomous system and four of a region, and either
  all 23 slots are filled or every eligible candidate left out meets a full group; the random slot is
  another eligible candidate.  The choice returns as soon as the generator ever yields a value below \<open>2 ^ 63\<close>.\<close>

theorem nmt_selection_correct:
  assumes chacha: "unat (chacha (compute_nmt_random_seed blake3 seed_k) i) < 2 ^ 63" and len: "length cands < 2 ^ 63"
  shows "\<exists>r sel. select_nmt_peers_hybrid blake3 chacha cands seed_k = Some r
    \<and> nr_deterministic_slots r = map nc_node_id_full sel \<and> diverse sel \<and> length sel \<le> 23
    \<and> subseq sel (sort_key (\<lambda>c. compute_nmt_rank blake3 (nc_node_id_full c) seed_k) (filter nc_is_eligible cands))
    \<and> (length sel = 23 \<or> (\<forall>c\<in>set (filter nc_is_eligible cands). c \<in> set sel \<or> crowded_out sel c))
    \<and> (\<forall>x. nr_random_slot r = Some x \<longrightarrow> x \<notin> set (nr_deterministic_slots r) \<and> (\<exists>c\<in>set (filter nc_is_eligible cands). nc_node_id_full c = x))
    \<and> nr_total_selected r = length (all_peers r)"
proof (cases "filter nc_is_eligible cands = []")
  case True
  then show ?thesis
    by (auto simp: select_nmt_peers_hybrid_def all_peers_def diverse_def members_def intro!: exI [of _ "[]"])
next
  case False
  let ?el = "filter nc_is_eligible cands"
  let ?ranked = "sort_key (\<lambda>c. compute_nmt_rank blake3 (nc_node_id_full c) seed_k) ?el"
  let ?s0 = "\<lparr>sl_slots = [], sl_subnets = [], sl_asns = [], sl_regions = []\<rparr>"
  have "slots_for [] ?s0" by (simp add: slots_for_def diverse_def members_def count_of_def fun_eq_iff)
  from nmt_fill_slots [OF this, of ?ranked] obtain sel where sel: "slots_for sel (nmt_fill ?ranked ?s0)" "subseq sel ?ranked"
    "length sel = NMT_DETERMINISTIC_SLOTS \<or> (\<forall>c\<in>set ?ranked. c \<in> set sel \<or> crowded_out sel c)"
    by auto
  have "length ?el < 2 ^ 63" using len length_filter_le [of _ cands] by (rule le_less_trans [rotated])
  then obtain x where x: "select_random_slot chacha ?el (compute_nmt_random_seed blake3 seed_k) (map nc_node_id_full sel) = Some x"
    using select_random_slot_returns [of chacha, OF chacha, of ?el] by blast
  have slots: "sl_slots (nmt_fill ?ranked ?s0) = map nc_node_id_full sel" using sel(1) by (simp add: slots_for_def)
  let ?r = "\<lparr>nr_deterministic_slots = map nc_node_id_full sel, nr_random_slot = x,
      nr_total_selected = length sel + (if x \<noteq> None then 1 else 0)\<rparr>"
  have "select_nmt_peers_hybrid blake3 chacha cands seed_k = Some ?r"
    using False x slots by (simp add: select_nmt_peers_hybrid_def Let_def)
  moreover have "nr_total_selected ?r = length (all_peers ?r)" by (cases x) (simp_all add: all_peers_def)
  ultimately show ?thesis
    using sel select_random_slot_cases [OF x]
    by (intro exI [of _ ?r] exI [of _ sel]) (auto simp: slots_for_def NMT_DETERMINISTIC_SLOTS_def)
qed

definition sample_candidate :: "nat \<Rightarrow> nmt_candidate" where
  "sample_candidate i = \<lparr>nc_node_id_full = [of_nat i], nc_node_score = 900000, nc_subnet24 = [1, 2, 3, 0], nc_asn = [0, 0, 0, 1], nc_region = 7\<rparr>"

theorem nmt_selection_correct_witness:
  "\<exists>r sel. select_nmt_peers_hybrid id (\<lambda>_ _. 5) (map sample_candidate [0..<5]) [9] = Some r
     \<and> nr_deterministic_slots r = map nc_node_id_full sel \<and> diverse sel \<and> nr_total_selected r = length (all_peers r)"
  using nmt_selection_correct [of "\<lambda>_ _. 5" id "[9]" 0 "map sample_candidate [0..<5]"] by auto

end
