(* ===== verification/State_Sync.thy ===== *)
theory State_Sync
  imports Prelude Heartbeat
begin

text \<open>
  How a node joins and stays in step, from \<open>core/scalar-network/src\<close>: the checks of progressive synchronisation
  (\<open>sync.rs\<close>), the authenticated state beacon (\<open>state_beacon.rs\<close>), the gossip synchronisation score (\<open>gss.rs\<close>) and the
  choice between candidate roots by pheromone levels (\<open>reconciliation.rs\<close>).  BLAKE3 and the elapsed time are
  parameters; \<open>sync.rs\<close> uses a hash of its own, which is modelled.
\<close>

section \<open>Progressive synchronisation\<close>

definition NS_CHECKPOINT_ROOT_MAX_BYTES :: nat where
  "NS_CHECKPOINT_ROOT_MAX_BYTES = 150 * 1024"

definition NS_CHECKPOINT_VERIFY_MAX_MS :: u64 where
  "NS_CHECKPOINT_VERIFY_MAX_MS = 100"

definition BOOTSTRAP_PEER_COUNT :: nat where
  "BOOTSTRAP_PEER_COUNT = 50"

definition BOOTSTRAP_MIN_REGION_PERCENT :: nat where
  "BOOTSTRAP_MIN_REGION_PERCENT = 20"

definition BOOTSTRAP_MAX_REGION_PERCENT :: nat where
  "BOOTSTRAP_MAX_REGION_PERCENT = 40"

definition GENESIS_MAX_BYTES :: nat where
  "GENESIS_MAX_BYTES = 1024"

datatype sync_fail_reason =
    GenesisHashMismatch | NsCheckpointProofInvalid | NsCheckpointProofTooLarge | NsCheckpointVerifyTooSlow
  | NoCheckpointAvailable | NoPeersAvailable

datatype sync_state =
    SyncIdle
  | VerifyingGenesis
  | DownloadingCheckpoint u64
  | VerifyingNsCheckpoint u64
  | DeltaSyncing u64 u64
  | Synced u64
  | SyncFailed sync_fail_reason

fun is_synced :: "sync_state \<Rightarrow> bool" where
  "is_synced (Synced _) = True"
| "is_synced _ = False"

fun is_in_progress :: "sync_state \<Rightarrow> bool" where
  "is_in_progress SyncIdle = False"
| "is_in_progress (Synced _) = False"
| "is_in_progress (SyncFailed _) = False"
| "is_in_progress _ = True"

fun is_failed :: "sync_state \<Rightarrow> bool" where
  "is_failed (SyncFailed _) = True"
| "is_failed _ = False"

text \<open>The hash of \<open>sync.rs\<close>: the loop state is the index, the word \<open>h\<close> and the 32 result bytes.\<close>

primrec sync_hash_loop :: "bytes \<Rightarrow> nat \<Rightarrow> u64 \<Rightarrow> bytes \<Rightarrow> bytes" where
  "sync_hash_loop [] i h result = result"
| "sync_hash_loop (b # bs) i h result =
     (let h' = (h XOR ucast b) * 1099511628211
      in sync_hash_loop bs (Suc i) h' (result[i mod 32 := result ! (i mod 32) XOR ucast (h' AND 255)]))"

definition sync_blake3_hash :: "bytes \<Rightarrow> bytes" where
  "sync_blake3_hash dat = sync_hash_loop dat 0 14695981039346656037 (replicate 32 0)"

datatype genesis_verify_result = GenesisValid | GenesisInvalidHash bytes bytes | GenesisTooLarge nat

definition verify_genesis :: "bytes \<Rightarrow> bytes \<Rightarrow> genesis_verify_result" where
  "verify_genesis genesis_bytes hardcoded_canonical_hash =
     (if length genesis_bytes > GENESIS_MAX_BYTES then GenesisTooLarge (length genesis_bytes)
      else
        let computed = sync_blake3_hash genesis_bytes
        in if computed = hardcoded_canonical_hash then GenesisValid
           else GenesisInvalidHash hardcoded_canonical_hash computed)"

record checkpoint_metadata =
  cm_epoch :: u64
  cm_nullifier_set_root :: bytes
  cm_ns_checkpoint_smt_root :: bytes
  cm_ns_checkpoint_root_size :: nat
  cm_timestamp :: u64

datatype checkpoint_validation = CkptValid | CkptProofTooLarge nat | CkptInvalidEpoch

definition validate_checkpoint_metadata :: "checkpoint_metadata \<Rightarrow> checkpoint_validation" where
  "validate_checkpoint_metadata m =
     (if cm_epoch m = 0 then CkptInvalidEpoch
      else if cm_ns_checkpoint_root_size m > NS_CHECKPOINT_ROOT_MAX_BYTES then CkptProofTooLarge (cm_ns_checkpoint_root_size m)
      else CkptValid)"

definition CHECKPOINT_EPOCH_INTERVAL :: u64 where
  "CHECKPOINT_EPOCH_INTERVAL = 3"

definition latest_checkpoint_epoch :: "u64 \<Rightarrow> u64 option" where
  "latest_checkpoint_epoch current_epoch =
     (if current_epoch < CHECKPOINT_EPOCH_INTERVAL then None
      else
        let latest = (current_epoch div CHECKPOINT_EPOCH_INTERVAL) * CHECKPOINT_EPOCH_INTERVAL
        in if latest = 0 then None else Some latest)"

datatype ns_checkpoint_verify_result = NsValid | NsTooLarge nat | NsTooSlow u64 | NsInvalidProof

definition validate_ns_checkpoint_constraints :: "nat \<Rightarrow> u64 \<Rightarrow> ns_checkpoint_verify_result" where
  "validate_ns_checkpoint_constraints proof_size_bytes verify_elapsed_ms =
     (if proof_size_bytes > NS_CHECKPOINT_ROOT_MAX_BYTES then NsTooLarge proof_size_bytes
      else if verify_elapsed_ms > NS_CHECKPOINT_VERIFY_MAX_MS then NsTooSlow verify_elapsed_ms
      else NsValid)"

record bootstrap_diversity =
  bd_americas :: nat
  bd_emea :: nat
  bd_asia_pacific :: nat

definition bd_total :: "bootstrap_diversity \<Rightarrow> nat" where
  "bd_total d = bd_americas d + bd_emea d + bd_asia_pacific d"

definition region_percent :: "bootstrap_diversity \<Rightarrow> nat \<Rightarrow> nat" where
  "region_percent d region_count = (if bd_total d = 0 then 0 else region_count * 100 div bd_total d)"

datatype bootstrap_diversity_result =
  DiversityValid | RegionTooSmall string nat | RegionTooLarge string nat | InsufficientBootstrapPeers nat

primrec check_regions :: "bootstrap_diversity \<Rightarrow> (string \<times> nat) list \<Rightarrow> bootstrap_diversity_result" where
  "check_regions d [] = DiversityValid"
| "check_regions d (r # rs) =
     (let pct = region_percent d (snd r)
      in if pct < BOOTSTRAP_MIN_REGION_PERCENT then RegionTooSmall (fst r) pct
         else if pct > BOOTSTRAP_MAX_REGION_PERCENT then RegionTooLarge (fst r) pct
         else check_regions d rs)"

definition validate_bootstrap_diversity :: "bootstrap_diversity \<Rightarrow> bootstrap_diversity_result" where
  "validate_bootstrap_diversity d =
     (if bd_total d < BOOTSTRAP_PEER_COUNT then InsufficientBootstrapPeers (bd_total d)
      else check_regions d [(''Americas'', bd_americas d), (''EMEA'', bd_emea d), (''AsiaPacific'', bd_asia_pacific d)])"

record delta_sync =
  ds_from_epoch :: u64
  ds_to_epoch :: u64
  ds_synced_epoch :: u64

definition delta_sync_new :: "u64 \<Rightarrow> u64 \<Rightarrow> delta_sync" where
  "delta_sync_new from_epoch to_epoch = \<lparr>ds_from_epoch = from_epoch, ds_to_epoch = to_epoch, ds_synced_epoch = from_epoch\<rparr>"

definition percent_complete :: "delta_sync \<Rightarrow> u64" where
  "percent_complete d =
     (let tot = saturating_sub (ds_to_epoch d) (ds_from_epoch d)
      in if tot = 0 then 100
         else (saturating_sub (ds_synced_epoch d) (ds_from_epoch d) * 100) div tot)"

definition is_complete :: "delta_sync \<Rightarrow> bool" where
  "is_complete d \<longleftrightarrow> ds_synced_epoch d \<ge> ds_to_epoch d"

definition delta_advance :: "delta_sync \<Rightarrow> delta_sync" where
  "delta_advance d = (if ds_synced_epoch d < ds_to_epoch d then d\<lparr>ds_synced_epoch := ds_synced_epoch d + 1\<rparr> else d)"

section \<open>State beacons\<close>

definition STATE_BEACON_WIRE_SIZE :: nat where
  "STATE_BEACON_WIRE_SIZE = 44"

definition beacon_node_key_epoch :: "(bytes \<Rightarrow> bytes) \<Rightarrow> bytes \<Rightarrow> u64 \<Rightarrow> bytes" where
  "beacon_node_key_epoch blake3 node_key epoch = blake3 (node_key @ le_bytes 8 epoch)"

definition compute_beacon_mac :: "(bytes \<Rightarrow> bytes) \<Rightarrow> bytes \<Rightarrow> u64 \<Rightarrow> bytes \<Rightarrow> bytes" where
  "compute_beacon_mac blake3 node_key_epoch epoch smt_root =
     take 4 (blake3 (DOMAIN_BEACON @ node_key_epoch @ le_bytes 8 epoch @ smt_root))"

record state_beacon =
  sb_epoch_id :: u64
  sb_smt_root :: bytes
  sb_mac :: bytes

definition state_beacon_new :: "(bytes \<Rightarrow> bytes) \<Rightarrow> u64 \<Rightarrow> bytes \<Rightarrow> bytes \<Rightarrow> state_beacon" where
  "state_beacon_new blake3 epoch smt_root node_key =
     \<lparr>sb_epoch_id = epoch, sb_smt_root = smt_root,
      sb_mac = compute_beacon_mac blake3 (beacon_node_key_epoch blake3 node_key epoch) epoch smt_root\<rparr>"

definition beacon_verify :: "(bytes \<Rightarrow> bytes) \<Rightarrow> state_beacon \<Rightarrow> bytes \<Rightarrow> bool" where
  "beacon_verify blake3 b node_key \<longleftrightarrow>
     sb_mac b = compute_beacon_mac blake3 (beacon_node_key_epoch blake3 node_key (sb_epoch_id b)) (sb_epoch_id b) (sb_smt_root b)"

definition beacon_to_bytes :: "state_beacon \<Rightarrow> bytes" where
  "beacon_to_bytes b = le_bytes 8 (sb_epoch_id b) @ sb_smt_root b @ sb_mac b"

definition beacon_from_bytes :: "bytes \<Rightarrow> state_beacon" where
  "beacon_from_bytes b = \<lparr>sb_epoch_id = from_le_bytes (byte_range 0 8 b), sb_smt_root = byte_range 8 40 b, sb_mac = byte_range 40 44 b\<rparr>"

datatype transport_class = ConsensusTransport | StateBeaconTransport

section \<open>The synchronisation score\<close>

definition GSS_BASIS :: u64 where
  "GSS_BASIS = 1000000"

definition MAX_LATENCY_MS :: u64 where
  "MAX_LATENCY_MS = 300000"

definition HEARTBEAT_STALENESS_S :: u64 where
  "HEARTBEAT_STALENESS_S = 900"

definition GSS_ECLIPSE_THRESHOLD :: u64 where
  "GSS_ECLIPSE_THRESHOLD = 400000"

record peer_sync_data =
  pd_smt_root :: bytes
  pd_latency_ms :: u64
  pd_age_seconds :: u64

definition gss_peer_score :: "bytes \<Rightarrow> peer_sync_data \<Rightarrow> u64" where
  "gss_peer_score my_root peer =
     (let root_match = (if pd_smt_root peer = my_root then GSS_BASIS else 0);
          latency_score = saturating_sub GSS_BASIS (saturating_mul (pd_latency_ms peer) GSS_BASIS div MAX_LATENCY_MS);
          recency_score = saturating_sub GSS_BASIS (saturating_mul (pd_age_seconds peer) GSS_BASIS div HEARTBEAT_STALENESS_S);
          score = saturating_mul (saturating_mul (ucast root_match :: u128) (ucast latency_score)) (ucast recency_score)
      in ucast (score div (ucast GSS_BASIS * ucast GSS_BASIS)))"

text \<open>\<open>None\<close> is the panic of a division by zero.\<close>

definition compute_gss_fp :: "bytes \<Rightarrow> peer_sync_data list \<Rightarrow> u64 option" where
  "compute_gss_fp my_root peers =
     (if peers = [] then Some 0
      else checked_div (foldl saturating_add 0 (map (gss_peer_score my_root) peers)) (of_nat (length peers)))"

definition compute_peer_sync_summary :: "(bytes \<Rightarrow> bytes) \<Rightarrow> bytes \<Rightarrow> u64 \<Rightarrow> u64 \<Rightarrow> u64 \<Rightarrow> bytes" where
  "compute_peer_sync_summary blake3 node_id epoch seq_num gss_fp =
     blake3 (node_id @ le_bytes 8 epoch @ le_bytes 8 seq_num @ le_bytes 8 gss_fp)"

definition is_eclipse_candidate_via_gss :: "u64 list \<Rightarrow> bool" where
  "is_eclipse_candidate_via_gss gss_history \<longleftrightarrow>
     length gss_history \<ge> 3 \<and> list_all (\<lambda>gss. gss < GSS_ECLIPSE_THRESHOLD) (take 3 (rev gss_history))"

section \<open>Pheromones\<close>

definition PHER_BASIS :: u64 where
  "PHER_BASIS = 1000000"

definition TAU_MIN :: u64 where
  "TAU_MIN = 1000"

definition TAU_MAX :: u64 where
  "TAU_MAX = 10000000"

definition MAX_ROOT_CANDIDATES :: nat where
  "MAX_ROOT_CANDIDATES = 100"

definition RHO :: u64 where
  "RHO = 3000"

type_synonym pheromones = "(bytes \<times> u64) list"

datatype reconciliation_decision = PherCommit bytes | NoConsensus

definition pher_evaporate :: "u64 \<Rightarrow> u64 \<Rightarrow> u64" where
  "pher_evaporate multiplier tau =
     (let new_tau = (tau * multiplier) div PHER_BASIS in if new_tau < TAU_MIN then TAU_MIN else new_tau)"

definition pher_scan_min :: "(bytes \<times> u64) list \<Rightarrow> bytes \<times> u64" where
  "pher_scan_min es = fold (\<lambda>(root, val) (min_root, min_val). if val < min_val then (root, val) else (min_root, min_val)) es (replicate 32 0, - 1)"

definition pher_update ::
  "((bytes \<times> u64) list \<Rightarrow> (bytes \<times> u64) list) \<Rightarrow> pheromones \<Rightarrow> u64 \<Rightarrow> bytes \<Rightarrow> u64 \<Rightarrow> u64 \<Rightarrow> pheromones" where
  "pher_update iter s elapsed_secs received_root w_sender deposit_q =
     (let multiplier = saturating_sub PHER_BASIS (saturating_mul RHO elapsed_secs);
          s1 = map (\<lambda>(root, tau). (root, pher_evaporate multiplier tau)) s;
          deposit = (deposit_q * w_sender) div PHER_BASIS;
          s2 = AList.update received_root (min (unwrap_or (map_of s1 received_root) TAU_MIN + deposit) TAU_MAX) s1
      in if length s2 > MAX_ROOT_CANDIDATES then AList.delete (fst (pher_scan_min (iter s2))) s2 else s2)"

fun pher_scan_step :: "bytes \<times> u64 \<Rightarrow> u64 \<times> u64 \<times> bytes \<Rightarrow> u64 \<times> u64 \<times> bytes" where
  "pher_scan_step (root, tau) (total_tau, best_tau, best_root) =
     (if tau > best_tau then (total_tau + tau, tau, root) else (total_tau + tau, best_tau, best_root))"

definition pher_scan :: "(bytes \<times> u64) list \<Rightarrow> u64 \<times> u64 \<times> bytes" where
  "pher_scan es = fold pher_scan_step es (0, 0, replicate 32 0)"

definition pher_decide :: "((bytes \<times> u64) list \<Rightarrow> (bytes \<times> u64) list) \<Rightarrow> pheromones \<Rightarrow> reconciliation_decision" where
  "pher_decide iter s =
     (if s = [] then NoConsensus
      else case pher_scan (iter s) of (total_tau, best_tau, best_root) \<Rightarrow>
        if total_tau = 0 then NoConsensus
        else if (best_tau * 100) div total_tau \<ge> 67 then PherCommit best_root
        else NoConsensus)"

section \<open>The genesis check\<close>

lemma ucast_mult_8: "(ucast ((a :: u64) * b) :: u8) = ucast a * ucast b"
proof -
  have "take_bit 8 (take_bit 64 x * take_bit 64 y) = take_bit 8 (x * y :: int)" for x y
    by (subst (1 2) take_bit_mult [symmetric]) simp
  then show ?thesis by transfer simp
qed

text \<open>The bytes that lead the loop to a given result, one result byte at a time: 123 is the inverse of 179, the last byte
  of the multiplier, modulo 256.\<close>

primrec forge_bytes :: "u64 \<Rightarrow> bytes \<Rightarrow> bytes" where
  "forge_bytes h [] = []"
| "forge_bytes h (t # ts) =
     (let b = ucast h XOR (t * 123) in b # forge_bytes ((h XOR ucast b) * 1099511628211) ts)"

definition forge_genesis :: "bytes \<Rightarrow> bytes" where
  "forge_genesis target = forge_bytes 14695981039346656037 target"

lemma length_forge_bytes [simp]: "length (forge_bytes h ts) = length ts"
  by (induction ts arbitrary: h) (simp_all add: Let_def)

lemma forge_step: "ucast (((h XOR ucast (ucast h XOR (t * 123) :: u8)) * 1099511628211) AND 255 :: u64) = (t :: u8)"
proof -
  let ?b = "ucast h XOR (t * 123) :: u8" and ?p = "1099511628211 :: u64"
  have "(255 :: u64) = mask 8" by (simp add: mask_eq_exp_minus_1)
  then have low: "(ucast (y AND 255 :: u64) :: u8) = ucast y" for y
    by (simp only: take_bit_eq_mask [symmetric]) (rule bit_word_eqI, auto simp: bit_simps)
  have x: "(ucast (h XOR ucast ?b) :: u8) = t * 123"
    by (rule bit_word_eqI) (auto simp: bit_simps)
  have "(ucast ((h XOR ucast ?b) * ?p) :: u8) = t * 123 * ucast ?p" by (simp only: ucast_mult_8 x)
  also have "(ucast ?p :: u8) = 179" by simp
  also have "t * 123 * 179 = t * (123 * 179)" by (simp only: mult.assoc)
  also have "(123 * 179 :: u8) = 1" by simp
  finally show ?thesis by (simp only: low mult_1_right)
qed

lemma forge_loop:
  assumes "length pre + length ts = 32"
  shows "sync_hash_loop (forge_bytes h ts) (length pre) h (pre @ replicate (length ts) 0) = pre @ ts"
  using assms
proof (induction ts arbitrary: h pre)
  case (Cons t ts)
  let ?h = "(h XOR ucast (ucast h XOR (t * 123) :: u8)) * 1099511628211"
  have upd: "(pre @ replicate (Suc (length ts)) 0)[length pre := t] = (pre @ [t]) @ replicate (length ts) 0"
    by (simp add: list_update_append)
  have "sync_hash_loop (forge_bytes ?h ts) (length (pre @ [t])) ?h ((pre @ [t]) @ replicate (length ts) 0) = (pre @ [t]) @ ts"
    using Cons.prems by (intro Cons.IH) simp
  then show ?case using Cons.prems by (simp add: Let_def forge_step upd [simplified] nth_append)
qed simp

text \<open>C25. The genesis check stops nobody: its hash is not BLAKE3 but a byte-wise loop that can be run backwards, so for
  every value of the hard-coded hash there is a genesis object of 32 bytes that the check accepts.\<close>

theorem genesis_check_forgeable:
  assumes "length target = 32"
  shows "verify_genesis (forge_genesis target) target = GenesisValid \<and> length (forge_genesis target) = 32"
  using forge_loop [of "[]" target] assms
  by (simp add: verify_genesis_def Let_def sync_blake3_hash_def forge_genesis_def GENESIS_MAX_BYTES_def)

theorem genesis_check_forgeable_witness:
  "verify_genesis (forge_genesis (replicate 32 171)) (replicate 32 171) = GenesisValid"
  using genesis_check_forgeable [of "replicate 32 171"] by simp

section \<open>Bounds of the other checks\<close>

definition delta_at :: "u64 \<Rightarrow> u64 \<Rightarrow> nat \<Rightarrow> delta_sync \<Rightarrow> bool" where
  "delta_at from to n d \<longleftrightarrow> ds_from_epoch d = from \<and> ds_to_epoch d = to \<and> unat (ds_synced_epoch d) = unat from + min n (unat to - unat from)"

lemma delta_at_advance:
  assumes "unat from \<le> unat to" "delta_at from to n d"
  shows "delta_at from to (Suc n) (delta_advance d)"
proof -
  have "unat (ds_synced_epoch d + 1) = unat (ds_synced_epoch d) + 1" if "unat (ds_synced_epoch d) < unat to"
    using that unsigned_less [of to, where 'a = nat] by (subst unat_add_no_overflow) simp_all
  then show ?thesis using assms by (auto simp: delta_at_def delta_advance_def word_less_nat_alt)
qed

lemma delta_advance_n: "unat from \<le> unat to \<Longrightarrow> delta_at from to n ((delta_advance ^^ n) (delta_sync_new from to))"
  by (induction n) (simp_all add: delta_at_advance, simp add: delta_at_def delta_sync_new_def)

text \<open>Delta synchronisation ends: from a checkpoint, each step moves one epoch, the epochs between checkpoint and
  tip are exactly the number of steps until it is complete, and the percentage is at most 100, and 100 only then.\<close>

theorem delta_sync_ends:
  assumes "from \<le> to" "unat to - unat from < 2 ^ 57"
  shows "(is_complete ((delta_advance ^^ n) (delta_sync_new from to)) \<longleftrightarrow> unat to - unat from \<le> n)
    \<and> unat (percent_complete ((delta_advance ^^ n) (delta_sync_new from to))) \<le> 100
    \<and> (unat (percent_complete ((delta_advance ^^ n) (delta_sync_new from to))) = 100 \<longleftrightarrow> unat to - unat from \<le> n)"
proof -
  let ?d = "(delta_advance ^^ n) (delta_sync_new from to)" and ?t = "unat to - unat from"
  have le: "unat from \<le> unat to" using assms(1) by (simp add: word_le_nat_alt)
  have sync: "unat (ds_synced_epoch ?d) = unat from + min n ?t" "ds_from_epoch ?d = from" "ds_to_epoch ?d = to"
    using delta_advance_n [OF le, of n] by (simp_all add: delta_at_def)
  have complete: "is_complete ?d \<longleftrightarrow> ?t \<le> n"
    using le by (auto simp: is_complete_def word_le_nat_alt sync min_def)
  have pct: "unat (percent_complete ?d) = (if ?t = 0 then 100 else min n ?t * 100 div ?t)"
  proof (cases "?t = 0")
    case True
    then show ?thesis by (simp add: percent_complete_def sync word_unat_eq_iff word_nat)
  next
    case False
    have "min n ?t * 100 < 2 ^ 64" using assms(2) by (simp add: min_def)
    moreover have "saturating_sub (ds_synced_epoch ?d) from = (of_nat (min n ?t) :: u64)"
      using assms(2) by (simp add: word_unat_eq_iff word_nat sync unat_of_nat min_def)
    ultimately have "unat (saturating_sub (ds_synced_epoch ?d) from * 100) = min n ?t * 100"
      using assms(2) by (simp add: unat_word_ariths unat_of_nat min_def)
    then show ?thesis using False by (simp add: percent_complete_def sync word_unat_eq_iff word_nat Let_def)
  qed
  have le100: "min n ?t * 100 div ?t \<le> 100"
  proof -
    have "min n ?t * 100 div ?t \<le> ?t * 100 div ?t" by (intro div_le_mono mult_le_mono) simp_all
    also have "\<dots> \<le> 100" by (cases "?t = 0") (simp_all only: nonzero_mult_div_cancel_left, simp_all)
    finally show ?thesis .
  qed
  moreover have "min n ?t * 100 div ?t = 100 \<longleftrightarrow> ?t \<le> n" if "?t \<noteq> 0"
  proof -
    have "min n ?t * 100 div ?t < 100" if "n < ?t" using that by (intro div_less_iff_less_mult [THEN iffD2]) simp_all
    then show ?thesis using that by (cases "?t \<le> n") (auto simp: min_def)
  qed
  ultimately show ?thesis using complete by (auto simp: pct)
qed

theorem delta_sync_ends_witness:
  "is_complete ((delta_advance ^^ 7) (delta_sync_new 3 10)) \<and> \<not> is_complete ((delta_advance ^^ 6) (delta_sync_new 3 10))"
  using delta_sync_ends [of 3 10 7] delta_sync_ends [of 3 10 6] by simp

lemma unat_le_saturating: "unat (foldl saturating_add a xs) \<le> unat a + sum_list (map unat xs)"
proof (induction xs arbitrary: a)
  case (Cons x xs)
  have "unat (saturating_add a x) \<le> unat a + unat x" by (simp add: unat_saturating_add)
  then show ?case using Cons [of "saturating_add a x"] by simp
qed simp

lemma gss_peer_score_le: "unat (gss_peer_score my_root p) \<le> (if pd_smt_root p = my_root then 1000000 else 0)"
proof -
  let ?r = "if pd_smt_root p = my_root then GSS_BASIS else 0"
  let ?l = "saturating_sub GSS_BASIS (saturating_mul (pd_latency_ms p) GSS_BASIS div MAX_LATENCY_MS)"
  let ?c = "saturating_sub GSS_BASIS (saturating_mul (pd_age_seconds p) GSS_BASIS div HEARTBEAT_STALENESS_S)"
  let ?s = "saturating_mul (saturating_mul (ucast ?r :: u128) (ucast ?l)) (ucast ?c)"
  have b: "unat ?l \<le> 1000000" "unat ?c \<le> 1000000" by (simp_all add: unat_saturating_sub GSS_BASIS_def)
  have "unat ?s \<le> unat ?r * unat ?l * unat ?c" by (simp add: unat_saturating_mul min_le_iff_disj mult_le_mono1)
  also have "\<dots> \<le> unat ?r * 1000000 * 1000000" using b by (intro mult_le_mono) simp_all
  finally have "unat ?s div 1000000000000 \<le> unat ?r * 1000000 * 1000000 div 1000000000000" by (rule div_le_mono)
  then have q: "unat ?s div 1000000000000 \<le> unat ?r" by simp
  have "unat ?r \<le> 1000000" by (simp add: GSS_BASIS_def)
  then have "unat (?s div (ucast GSS_BASIS * ucast GSS_BASIS)) < 2 ^ 64" using q by (simp add: unat_div GSS_BASIS_def)
  then have "unat (gss_peer_score my_root p) = unat ?s div 1000000000000"
    by (simp add: gss_peer_score_def Let_def unat_u128_u64 unat_div GSS_BASIS_def)
  then show ?thesis using q by (simp add: GSS_BASIS_def split: if_splits)
qed

text \<open>C23. The synchronisation score is bounded by agreement: for every list of fewer than \<open>2 ^ 64\<close> peers, the
  empty one included, it is computed without a division by zero, it is at most a million, zero without peers or when no peer reports the
  node's root, and times the number of peers it is at most a million times the number of peers that report it.\<close>

theorem gss_bounded_by_agreement:
  assumes "length peers < 2 ^ 64"
  shows "\<exists>gss. compute_gss_fp my_root peers = Some gss \<and> unat gss \<le> 1000000
    \<and> (list_all (\<lambda>p. pd_smt_root p \<noteq> my_root) peers \<longrightarrow> gss = 0)
    \<and> unat gss * length peers \<le> 1000000 * length (filter (\<lambda>p. pd_smt_root p = my_root) peers)"
proof (cases "peers = []")
  case True
  then show ?thesis by (simp add: compute_gss_fp_def)
next
  case False
  let ?agree = "filter (\<lambda>p. pd_smt_root p = my_root) peers"
  let ?s = "foldl saturating_add 0 (map (gss_peer_score my_root) peers)"
  have n: "unat (of_nat (length peers) :: u64) = length peers" using assms by (simp add: unat_of_nat)
  have "unat ?s \<le> sum_list (map (\<lambda>p. unat (gss_peer_score my_root p)) peers)"
    using unat_le_saturating [of 0 "map (gss_peer_score my_root) peers"] by (simp add: o_def)
  also have "\<dots> \<le> sum_list (map (\<lambda>p. if pd_smt_root p = my_root then 1000000 else 0) peers)"
    by (rule sum_list_mono) (rule gss_peer_score_le)
  also have "\<dots> = 1000000 * length (filter (\<lambda>p. pd_smt_root p = my_root) peers)" by (induction peers) auto
  finally have "unat ?s div length peers * length peers \<le> 1000000 * length (filter (\<lambda>p. pd_smt_root p = my_root) peers)"
    by (meson div_times_less_eq_dividend order_trans)
  then have bound: "unat (?s div of_nat (length peers)) * length peers \<le> 1000000 * length ?agree" by (simp add: unat_div n)
  also have "\<dots> \<le> 1000000 * length peers" by simp
  finally have "unat (?s div of_nat (length peers)) \<le> 1000000" using False by simp
  moreover have "?s div of_nat (length peers) = 0" if "list_all (\<lambda>p. pd_smt_root p \<noteq> my_root) peers"
  proof -
    have "?agree = []" using that by (auto simp: list_all_iff filter_empty_conv)
    then have "unat (?s div of_nat (length peers)) = 0" using bound False by simp
    then show ?thesis by (simp add: unat_eq_0)
  qed
  moreover have "(of_nat (length peers) :: u64) \<noteq> 0" using n False by (metis length_0_conv unat_0)
  ultimately show ?thesis using False bound by (simp add: compute_gss_fp_def checked_div_def)
qed

theorem gss_bounded_by_agreement_witness:
  "\<exists>gss. compute_gss_fp [1] [\<lparr>pd_smt_root = [1], pd_latency_ms = 10, pd_age_seconds = 5\<rparr>, \<lparr>pd_smt_root = [2], pd_latency_ms = 1, pd_age_seconds = 1\<rparr>]
      = Some gss \<and> unat gss * 2 \<le> 1000000 \<and> compute_gss_fp [1] [] = Some 0"
  using gss_bounded_by_agreement [of "[\<lparr>pd_smt_root = [1], pd_latency_ms = 10, pd_age_seconds = 5\<rparr>, \<lparr>pd_smt_root = [2], pd_latency_ms = 1, pd_age_seconds = 1\<rparr>]" "[1]"]
    gss_bounded_by_agreement [of "[]" "[1]"]
  by auto

section \<open>Pheromone levels\<close>

definition pher_inv :: "pheromones \<Rightarrow> bool" where
  "pher_inv s \<longleftrightarrow> unique_keys s \<and> length s \<le> MAX_ROOT_CANDIDATES \<and> (\<forall>e\<in>set s. TAU_MIN \<le> snd e \<and> snd e \<le> TAU_MAX)"

lemma pher_evaporate_bounds:
  assumes "tau \<le> TAU_MAX" "m \<le> PHER_BASIS"
  shows "TAU_MIN \<le> pher_evaporate m tau \<and> pher_evaporate m tau \<le> TAU_MAX"
proof -
  have le: "unat tau \<le> 10000000" "unat m \<le> 1000000" using assms by (simp_all add: word_le_nat_alt TAU_MAX_def PHER_BASIS_def)
  then have prod: "unat tau * unat m \<le> 10000000 * 1000000" by (intro mult_le_mono)
  then have "unat (tau * m) = unat tau * unat m" by (simp add: unat_word_ariths)
  then have "unat ((tau * m) div PHER_BASIS) = unat tau * unat m div 1000000" by (simp add: unat_div PHER_BASIS_def)
  moreover have "unat tau * unat m div 1000000 \<le> 10000000 * 1000000 div 1000000" using prod by (rule div_le_mono)
  ultimately have "unat ((tau * m) div PHER_BASIS) \<le> 10000000" by simp
  then show ?thesis by (simp add: pher_evaporate_def Let_def word_le_nat_alt word_less_nat_alt TAU_MIN_def TAU_MAX_def not_less)
qed

lemma min_tau_bounds:
  assumes "TAU_MIN \<le> t" "t \<le> TAU_MAX"
  shows "TAU_MIN \<le> min (t + d div PHER_BASIS) TAU_MAX \<and> min (t + d div PHER_BASIS) TAU_MAX \<le> TAU_MAX"
proof -
  have "unat (d div PHER_BASIS) \<le> (2 ^ 64 - 1) div 1000000"
    unfolding unat_div PHER_BASIS_def using unsigned_less [of d, where 'a = nat] by (simp add: div_le_mono)
  moreover have "unat t \<le> 10000000" "1000 \<le> unat t" using assms by (simp_all add: word_le_nat_alt TAU_MAX_def TAU_MIN_def)
  ultimately have "unat (t + d div PHER_BASIS) = unat t + unat (d div PHER_BASIS)" by (intro unat_add_no_overflow) simp
  then have "TAU_MIN \<le> t + d div PHER_BASIS" using \<open>1000 \<le> unat t\<close> by (simp add: word_le_nat_alt TAU_MIN_def)
  moreover have "TAU_MIN \<le> TAU_MAX" by (simp add: TAU_MIN_def TAU_MAX_def)
  ultimately show ?thesis by simp
qed

lemma length_update_le: "length (AList.update k v s) \<le> Suc (length s)"
  by (induction s) auto

lemma update_range: "\<forall>e\<in>set s. P (snd e) \<Longrightarrow> P v \<Longrightarrow> \<forall>e\<in>set (AList.update k v s). P (snd e)"
  by (induction s) auto

lemma pher_scan_min_in:
  assumes "es \<noteq> []" "\<forall>e\<in>set es. snd e < - 1"
  shows "pher_scan_min es \<in> set es"
proof -
  let ?f = "\<lambda>(root, val) (min_root, min_val). if val < min_val then (root, val) else (min_root, min_val)"
  have "fold ?f es acc \<in> set es \<or> fold ?f es acc = acc \<and> (\<forall>e\<in>set es. \<not> snd e < snd acc)" for acc :: "bytes \<times> u64" and es
    by (induction es arbitrary: acc) (auto simp: split_beta split: if_splits)
  from this [of es "(replicate 32 0, - 1)"] show ?thesis using assms by (cases es) (auto simp: pher_scan_min_def)
qed

lemma pher_inv_update:
  assumes inv: "pher_inv s" and iter: "iteration_order iter"
  shows "pher_inv (pher_update iter s elapsed root w q)"
proof -
  let ?m = "saturating_sub PHER_BASIS (saturating_mul RHO elapsed)"
  let ?s1 = "map (\<lambda>(root, tau). (root, pher_evaporate ?m tau)) s"
  let ?v = "min (unwrap_or (map_of ?s1 root) TAU_MIN + (q * w) div PHER_BASIS) TAU_MAX"
  let ?s2 = "AList.update root ?v ?s1"
  have m: "?m \<le> PHER_BASIS" by (simp add: word_le_nat_alt unat_saturating_sub)
  have s1: "unique_keys ?s1" "\<forall>e\<in>set ?s1. TAU_MIN \<le> snd e \<and> snd e \<le> TAU_MAX"
    using inv pher_evaporate_bounds [OF _ m] by (auto simp: pher_inv_def unique_keys_def o_def split_beta)
  have "TAU_MIN \<le> unwrap_or (map_of ?s1 root) TAU_MIN \<and> unwrap_or (map_of ?s1 root) TAU_MIN \<le> TAU_MAX"
  proof (cases "map_of ?s1 root")
    case (Some t)
    then show ?thesis using s1(2) by (fastforce dest: map_of_SomeD)
  qed (simp add: TAU_MIN_def TAU_MAX_def)
  then have v: "TAU_MIN \<le> ?v \<and> ?v \<le> TAU_MAX" by (intro min_tau_bounds) simp_all
  have s2: "unique_keys ?s2" "\<forall>e\<in>set ?s2. TAU_MIN \<le> snd e \<and> snd e \<le> TAU_MAX"
    using s1(1) update_range [OF s1(2) v] by simp_all
  have len: "length ?s2 \<le> Suc MAX_ROOT_CANDIDATES"
    using inv length_update_le [of root ?v ?s1] unfolding length_map pher_inv_def by linarith
  have small: "\<forall>e\<in>set (iter ?s2). snd e < - 1"
    using s2(2) iteration_order_set [OF iter, of ?s2] by (auto simp: TAU_MAX_def word_le_nat_alt word_less_nat_alt unat_max_word)
  have "length (AList.delete (fst (pher_scan_min (iter ?s2))) ?s2) < length ?s2" if "?s2 \<noteq> []"
  proof -
    have "iter ?s2 \<noteq> []" using that iteration_order_length [OF iter, of ?s2] by auto
    then have "pher_scan_min (iter ?s2) \<in> set ?s2" using pher_scan_min_in [OF _ small] iteration_order_set [OF iter, of ?s2] by blast
    then show ?thesis by (auto simp: AList.delete_eq intro!: length_filter_less)
  qed
  then have "length (AList.delete (fst (pher_scan_min (iter ?s2))) ?s2) \<le> MAX_ROOT_CANDIDATES" if "MAX_ROOT_CANDIDATES < length ?s2"
    using that len by fastforce
  moreover have "\<forall>e\<in>set (AList.delete k ?s2). TAU_MIN \<le> snd e \<and> snd e \<le> TAU_MAX" for k
    using s2(2) by (auto simp: AList.delete_eq)
  ultimately show ?thesis using s2 by (simp add: pher_inv_def pher_update_def Let_def not_less)
qed

lemma pher_scan_from:
  "unat t + sum_list (map (unat \<circ> snd) es) < 2 ^ 64 \<Longrightarrow> fold pher_scan_step es (t, b, r) = (t', b', r') \<Longrightarrow>
    unat t' = unat t + sum_list (map (unat \<circ> snd) es) \<and> b \<le> b' \<and> (\<forall>e\<in>set es. snd e \<le> b') \<and> ((r', b') \<in> set es \<or> (b', r') = (b, r))"
proof (induction es arbitrary: t b r)
  case (Cons e es)
  obtain root tau where e: "e = (root, tau)" by fastforce
  have t: "unat (t + tau) = unat t + unat tau" using Cons.prems(1) e by (intro unat_add_no_overflow) simp
  then have room: "unat (t + tau) + sum_list (map (unat \<circ> snd) es) < 2 ^ 64" using Cons.prems(1) e by (simp add: o_def)
  show ?case
  proof (cases "tau > b")
    case True
    then show ?thesis using Cons.IH [OF room, of tau root] Cons.prems(2) t e by auto
  next
    case False
    then show ?thesis using Cons.IH [OF room, of b r] Cons.prems(2) t e by auto
  qed
qed simp

definition tau_total :: "pheromones \<Rightarrow> nat" where
  "tau_total s = sum_list (map (unat \<circ> snd) s)"

lemma tau_total_bound: "pher_inv s \<Longrightarrow> tau_total s \<le> 1000000000"
proof -
  assume inv: "pher_inv s"
  have "tau_total s \<le> sum_list (map (\<lambda>_. 10000000) s)"
    unfolding tau_total_def using inv by (intro sum_list_mono) (auto simp: pher_inv_def TAU_MAX_def word_le_nat_alt)
  also have "\<dots> \<le> 1000000000" using inv by (simp add: sum_list_triv pher_inv_def MAX_ROOT_CANDIDATES_def)
  finally show ?thesis .
qed

lemma tau_total_iter: "iteration_order iter \<Longrightarrow> tau_total (iter s) = tau_total s"
  unfolding tau_total_def iteration_order_def by (metis mset_map sum_mset_sum_list)

lemma two_in_total:
  "e \<in> set s \<Longrightarrow> e' \<in> set s \<Longrightarrow> e \<noteq> e' \<Longrightarrow> unat (snd e) + unat (snd e') \<le> tau_total s"
proof (induction s)
  case (Cons x s)
  have one: "y \<in> set s \<Longrightarrow> unat (snd y) \<le> tau_total s" for y
    unfolding tau_total_def by (rule member_le_sum_list) (auto simp: image_iff)
  show ?case using Cons one [of e] one [of e'] by (auto simp: tau_total_def)
qed simp

text \<open>C24. Reconciliation commits a root exactly when it holds two thirds: in every reachable table, whatever the order of
  the map, \<open>decide\<close> answers \<open>Commit root\<close> if and only if the root has at least 67 per cent of the total level, and
  updates keep at most 100 candidates with levels between the two limits.\<close>

theorem reconciliation_two_thirds:
  assumes inv: "pher_inv s" and iter: "iteration_order iter"
  shows "(pher_decide iter s = PherCommit root \<longleftrightarrow> (\<exists>tau. (root, tau) \<in> set s \<and> 67 * tau_total s \<le> 100 * unat tau))
    \<and> pher_inv (pher_update iter s elapsed received w q)"
proof
  obtain t b r where scan: "pher_scan (iter s) = (t, b, r)" using prod_cases3 by blast
  have room: "unat (0 :: u64) + sum_list (map (unat \<circ> snd) (iter s)) < 2 ^ 64"
    using tau_total_bound [OF inv] tau_total_iter [OF iter, of s] by (simp add: tau_total_def)
  have t: "unat t = tau_total s" and best: "\<forall>e\<in>set s. snd e \<le> b" and mem: "(r, b) \<in> set s \<or> b = 0"
    using pher_scan_from [OF room scan [unfolded pher_scan_def]] tau_total_iter [OF iter, of s] iteration_order_set [OF iter, of s]
    by (auto simp: tau_total_def)
  have pos: "0 < unat tau" if "(k, tau) \<in> set s" for k tau
    using inv that by (auto simp: pher_inv_def TAU_MIN_def word_le_nat_alt)
  show "pher_decide iter s = PherCommit root \<longleftrightarrow> (\<exists>tau. (root, tau) \<in> set s \<and> 67 * tau_total s \<le> 100 * unat tau)"
  proof (cases "s = []")
    case False
    then obtain e where e: "e \<in> set s" by (cases s) auto
    then have b0: "(r, b) \<in> set s" using mem best pos [of "fst e" "snd e"] by (cases e) (auto simp: word_le_nat_alt)
    have le: "unat b \<le> tau_total s" unfolding tau_total_def using b0 by (intro member_le_sum_list) (simp_all add: rev_image_eqI)
    have t0: "t \<noteq> 0" using t le pos [OF b0] by (auto simp: unat_eq_zero)
    have "unat b * 100 < 2 ^ 64" using le tau_total_bound [OF inv] by simp
    then have "unat ((b * 100) div t) = unat b * 100 div tau_total s" by (simp add: unat_div unat_word_ariths t)
    then have dec: "67 \<le> (b * 100) div t \<longleftrightarrow> 67 * tau_total s \<le> 100 * unat b"
      using le pos [OF b0] by (simp add: word_le_nat_alt less_eq_div_iff_mult_less_eq mult_ac)
    have unique: "tau = b \<and> k = r" if k: "(k, tau) \<in> set s" "67 * tau_total s \<le> 100 * unat tau" for k tau
    proof (rule ccontr)
      assume "\<not> (tau = b \<and> k = r)"
      then have "unat tau + unat b \<le> tau_total s" using two_in_total [OF k(1) b0] by auto
      moreover have "unat tau \<le> unat b" using best k(1) by (force simp: word_le_nat_alt)
      ultimately show False using k(2) pos [OF b0] by linarith
    qed
    have "pher_decide iter s = (if 67 * tau_total s \<le> 100 * unat b then PherCommit r else NoConsensus)"
      using False t0 dec by (simp add: pher_decide_def scan)
    then have "pher_decide iter s = PherCommit root \<longleftrightarrow> 67 * tau_total s \<le> 100 * unat b \<and> root = r" by auto
    then show ?thesis using b0 unique by blast
  qed (simp add: pher_decide_def)
  show "pher_inv (pher_update iter s elapsed received w q)" by (rule pher_inv_update [OF inv iter])
qed

theorem reconciliation_two_thirds_witness:
  "pher_decide rev [([1], 5000), ([2], 1000)] = PherCommit [1] \<and> pher_inv (pher_update rev [([1], 5000), ([2], 1000)] 1 [2] 1000000 7000)"
  using reconciliation_two_thirds [of "[([1], 5000), ([2], 1000)]" rev "[1]" 1 "[2]" 1000000 7000]
  by (simp add: pher_inv_def unique_keys_def MAX_ROOT_CANDIDATES_def TAU_MIN_def TAU_MAX_def tau_total_def)

section \<open>Beacons and bootstrap lists\<close>

lemma beacon_wire:
  assumes "\<And>m. length (blake3 m) = 32" "length root = 32"
  shows "length (beacon_to_bytes (state_beacon_new blake3 epoch root key)) = STATE_BEACON_WIRE_SIZE"
    "beacon_from_bytes (beacon_to_bytes (state_beacon_new blake3 epoch root key)) = state_beacon_new blake3 epoch root key"
proof -
  let ?b = "state_beacon_new blake3 epoch root key"
  have len: "length (sb_mac ?b) = 4" using assms(1) by (simp add: state_beacon_new_def compute_beacon_mac_def)
  show "beacon_from_bytes (beacon_to_bytes ?b) = ?b"
    using len assms(2) by (simp add: beacon_from_bytes_def beacon_to_bytes_def byte_range_def state_beacon_new_def from_le_bytes_le_bytes)
  show "length (beacon_to_bytes ?b) = STATE_BEACON_WIRE_SIZE"
    using len assms(2) by (simp add: STATE_BEACON_WIRE_SIZE_def beacon_to_bytes_def) (simp add: state_beacon_new_def)
qed

text \<open>A beacon survives the wire and verifies under the key of its sender: 44 bytes, the same beacon back, the MAC
  accepted.\<close>

theorem beacon_roundtrip:
  assumes "\<And>m. length (blake3 m) = 32" "length root = 32"
  shows "length (beacon_to_bytes (state_beacon_new blake3 epoch root key)) = STATE_BEACON_WIRE_SIZE
    \<and> beacon_from_bytes (beacon_to_bytes (state_beacon_new blake3 epoch root key)) = state_beacon_new blake3 epoch root key
    \<and> beacon_verify blake3 (beacon_from_bytes (beacon_to_bytes (state_beacon_new blake3 epoch root key))) key"
  using beacon_wire [OF assms] by (simp add: beacon_verify_def) (simp add: state_beacon_new_def)

theorem beacon_roundtrip_witness:
  "beacon_verify (\<lambda>_. replicate 32 7) (beacon_from_bytes (beacon_to_bytes (state_beacon_new (\<lambda>_. replicate 32 7) 5 (replicate 32 1) (replicate 32 2)))) (replicate 32 2)"
  using beacon_roundtrip [of "\<lambda>_. replicate 32 7" "replicate 32 1" 5 "replicate 32 2"] by auto

text \<open>A bootstrap list is accepted exactly when it has fifty peers and every region has at least 20 and less than 41
  per cent of them: the percentage is rounded down before it is compared with the documented 40.\<close>

theorem bootstrap_accepted_iff:
  "validate_bootstrap_diversity d = DiversityValid \<longleftrightarrow> 50 \<le> bd_total d
     \<and> list_all (\<lambda>c. 20 * bd_total d \<le> 100 * c \<and> 100 * c < 41 * bd_total d) [bd_americas d, bd_emea d, bd_asia_pacific d]"
proof (cases "50 \<le> bd_total d")
  case True
  then have "region_percent d c < 20 \<longleftrightarrow> 100 * c < 20 * bd_total d" "40 < region_percent d c \<longleftrightarrow> 41 * bd_total d \<le> 100 * c" for c
    using less_eq_div_iff_mult_less_eq [of "bd_total d" 41 "c * 100"] by (auto simp: region_percent_def div_less_iff_less_mult mult_ac)
  then show ?thesis using True
    by (auto simp: validate_bootstrap_diversity_def BOOTSTRAP_PEER_COUNT_def Let_def BOOTSTRAP_MIN_REGION_PERCENT_def
        BOOTSTRAP_MAX_REGION_PERCENT_def not_less not_le)
qed (simp add: validate_bootstrap_diversity_def BOOTSTRAP_PEER_COUNT_def)

end
