(* ===== verification/Node_Rules.thy ===== *)
theory Node_Rules
  imports Prelude Heartbeat
begin

text \<open>
  Rules about who may act as which node, from \<open>core/scalar-emission/src\<close>: the blacklist of equivocating nodes
  (\<open>slashing.rs\<close>), succession of a node by its backup (\<open>succession.rs\<close>), the return of a node that was offline
  (\<open>resumption.rs\<close>) and nodes run by several operators (\<open>institutional.rs\<close>).  The sources store signatures and leave
  their verification to the caller; so does the model.
\<close>

section \<open>Slashing\<close>

record root_announcement =
  ra_epoch_id :: u64
  ra_liveness_root :: bytes
  ra_connectivity_summary :: bytes
  ra_node_id :: bytes
  ra_timestamp :: u64
  ra_node_signature :: bytes

record slashing_proof =
  sp_node_id :: bytes
  sp_epoch_id :: u64
  sp_announcement_1 :: root_announcement
  sp_announcement_2 :: root_announcement
  sp_verifier_node :: bytes

datatype slashing_error = NodeIdMismatch | EpochIdMismatch | SameRoot | AnnouncementNodeIdMismatch

definition validate_slashing_proof :: "slashing_proof \<Rightarrow> slashing_error + unit" where
  "validate_slashing_proof p =
     (if ra_node_id (sp_announcement_1 p) \<noteq> sp_node_id p then Inl AnnouncementNodeIdMismatch
      else if ra_node_id (sp_announcement_2 p) \<noteq> sp_node_id p then Inl AnnouncementNodeIdMismatch
      else if ra_epoch_id (sp_announcement_1 p) \<noteq> sp_epoch_id p then Inl EpochIdMismatch
      else if ra_epoch_id (sp_announcement_2 p) \<noteq> sp_epoch_id p then Inl EpochIdMismatch
      else if ra_liveness_root (sp_announcement_1 p) = ra_liveness_root (sp_announcement_2 p) then Inl SameRoot
      else Inr ())"

type_synonym slashing_registry = "bytes set"

definition process_proof :: "slashing_registry \<Rightarrow> slashing_proof \<Rightarrow> slashing_registry \<times> bool" where
  "process_proof r p =
     (case validate_slashing_proof p of Inr _ \<Rightarrow> (insert (sp_node_id p) r, True) | Inl _ \<Rightarrow> (r, False))"

definition is_blacklisted :: "slashing_registry \<Rightarrow> bytes \<Rightarrow> bool" where
  "is_blacklisted r node_id \<longleftrightarrow> node_id \<in> r"

text \<open>The maturity weights are a map, and the order in which a set is visited does not matter here.\<close>

definition apply_maturity_reset :: "slashing_registry \<Rightarrow> (bytes \<rightharpoonup> u64) \<Rightarrow> (bytes \<rightharpoonup> u64)" where
  "apply_maturity_reset r w = (\<lambda>n. if n \<in> r then Some 0 else w n)"

section \<open>Succession\<close>

definition SUCCESSION_ANTI_SPAM_FEE_SSCL :: u64 where
  "SUCCESSION_ANTI_SPAM_FEE_SSCL = 10000"

definition SUCCESSION_TIMELOCK_EPOCHS :: u64 where
  "SUCCESSION_TIMELOCK_EPOCHS = 1"

definition SUCCESSION_MATURITY_TRANSFER_FP :: u64 where
  "SUCCESSION_MATURITY_TRANSFER_FP = 850000"

definition SUCCESSION_BASIS :: u64 where
  "SUCCESSION_BASIS = 1000000"

record succession_proof =
  su_node_id_primary :: bytes
  su_node_id_backup :: bytes
  su_commitment_epoch :: u64
  su_sig_primary :: bytes
  su_sig_backup :: bytes

record succession_claim =
  cl_node_id_backup :: bytes
  cl_claim_epoch :: u64
  cl_succession_proof :: succession_proof
  cl_sig_claim :: bytes
  cl_fee_paid_sscl :: u64

datatype succession_error =
    InsufficientFee u64 u64 | BackupNodeMismatch | ClaimAlreadyExists | ClaimNotFound
  | TimelockNotExpired u64 u64 | ClaimWasCancelled | ClaimAlreadyExecuted

datatype claim_status = ClaimPending | ClaimCancelled | ClaimExecuted

record claim_entry =
  en_claim :: succession_claim
  en_status :: claim_status

type_synonym succession_store = "(bytes \<times> claim_entry) list"

definition submit_claim :: "succession_store \<Rightarrow> succession_claim \<Rightarrow> succession_store \<times> (succession_error + unit)" where
  "submit_claim s claim =
     (if cl_fee_paid_sscl claim < SUCCESSION_ANTI_SPAM_FEE_SSCL
      then (s, Inl (InsufficientFee (cl_fee_paid_sscl claim) SUCCESSION_ANTI_SPAM_FEE_SSCL))
      else if cl_node_id_backup claim \<noteq> su_node_id_backup (cl_succession_proof claim) then (s, Inl BackupNodeMismatch)
      else
        let primary_id = su_node_id_primary (cl_succession_proof claim)
        in if (case map_of s primary_id of Some existing \<Rightarrow> en_status existing = ClaimPending | None \<Rightarrow> False)
           then (s, Inl ClaimAlreadyExists)
           else (AList.update primary_id \<lparr>en_claim = claim, en_status = ClaimPending\<rparr> s, Inr ()))"

definition cancel_claim :: "succession_store \<Rightarrow> bytes \<Rightarrow> succession_store \<times> (succession_error + unit)" where
  "cancel_claim s primary_id =
     (case map_of s primary_id of
        None \<Rightarrow> (s, Inl ClaimNotFound)
      | Some e \<Rightarrow> (case en_status e of
          ClaimCancelled \<Rightarrow> (s, Inl ClaimWasCancelled)
        | ClaimExecuted \<Rightarrow> (s, Inl ClaimAlreadyExecuted)
        | ClaimPending \<Rightarrow> (AList.update primary_id (e\<lparr>en_status := ClaimCancelled\<rparr>) s, Inr ())))"

definition execute_succession ::
  "succession_store \<Rightarrow> bytes \<Rightarrow> u64 \<Rightarrow> (bytes \<rightharpoonup> u64) \<Rightarrow> (succession_store \<times> (bytes \<rightharpoonup> u64)) \<times> (succession_error + bytes)" where
  "execute_succession s primary_id current_epoch maturity =
     (case map_of s primary_id of
        None \<Rightarrow> ((s, maturity), Inl ClaimNotFound)
      | Some e \<Rightarrow> (case en_status e of
          ClaimCancelled \<Rightarrow> ((s, maturity), Inl ClaimWasCancelled)
        | ClaimExecuted \<Rightarrow> ((s, maturity), Inl ClaimAlreadyExecuted)
        | ClaimPending \<Rightarrow>
            let claim_epoch = cl_claim_epoch (en_claim e)
            in if current_epoch < claim_epoch + SUCCESSION_TIMELOCK_EPOCHS
               then ((s, maturity), Inl (TimelockNotExpired claim_epoch current_epoch))
               else
                 let backup_id = cl_node_id_backup (en_claim e);
                     primary_maturity = unwrap_or (maturity primary_id) 0;
                     transferred = saturating_mul primary_maturity SUCCESSION_MATURITY_TRANSFER_FP div SUCCESSION_BASIS;
                     m1 = maturity(primary_id \<mapsto> 0);
                     backup_current = unwrap_or (m1 backup_id) 0;
                     m2 = m1(backup_id \<mapsto> saturating_add backup_current transferred)
                 in ((AList.update primary_id (e\<lparr>en_status := ClaimExecuted\<rparr>) s, m2), Inr backup_id)))"

definition claim_status_of :: "succession_store \<Rightarrow> bytes \<Rightarrow> claim_status option" where
  "claim_status_of s primary_id = map_option en_status (map_of s primary_id)"

definition pending_claims :: "succession_store \<Rightarrow> nat" where
  "pending_claims s = length (filter (\<lambda>e. en_status (snd e) = ClaimPending) s)"

section \<open>Resumption\<close>

definition RESUMPTION_VALIDATION_QUORUM :: u32 where
  "RESUMPTION_VALIDATION_QUORUM = 2"

definition RESUMPTION_MAX_AUTO_SYNC_EPOCHS :: u64 where
  "RESUMPTION_MAX_AUTO_SYNC_EPOCHS = 100"

datatype resumption_fail_reason =
    GapTooLarge u64 u64 | ResumptionInsufficientPeers u32 u32 | ValidationQuorumFailed u32 u32 | InvalidEpochAnchor u64

datatype resumption_phase =
    Detection u32 u32 u64
  | ResyncPhase "u64 list" u32
  | StateRebuild u32 bytes
  | ValidationPhase bytes u32 u32
  | Resumed u32 u64
  | ResumptionFailed resumption_fail_reason

record resumption =
  rs_node_id :: bytes
  rs_phase :: resumption_phase

definition compute_gap_epochs :: "u32 \<Rightarrow> u32 \<Rightarrow> u64" where
  "compute_gap_epochs last_known_seq_num current_seq_num =
     (if current_seq_num \<le> last_known_seq_num then 0
      else ucast ((current_seq_num - last_known_seq_num) div EPOCH_HB_COUNT))"

definition resumption_new :: "bytes \<Rightarrow> u32 \<Rightarrow> u32 \<Rightarrow> resumption" where
  "resumption_new node_id last_known_seq_num current_seq_num =
     \<lparr>rs_node_id = node_id,
      rs_phase = Detection last_known_seq_num current_seq_num (compute_gap_epochs last_known_seq_num current_seq_num)\<rparr>"

definition start_sync :: "resumption \<Rightarrow> u64 list \<Rightarrow> resumption \<times> (resumption_fail_reason + unit)" where
  "start_sync r epochs_to_sync =
     (let gap_epochs = of_nat (length epochs_to_sync) :: u64
      in if gap_epochs > RESUMPTION_MAX_AUTO_SYNC_EPOCHS
         then (let reason = GapTooLarge gap_epochs RESUMPTION_MAX_AUTO_SYNC_EPOCHS
               in (r\<lparr>rs_phase := ResumptionFailed reason\<rparr>, Inl reason))
         else (r\<lparr>rs_phase := ResyncPhase epochs_to_sync 0\<rparr>, Inr ()))"

definition record_epoch_synced :: "resumption \<Rightarrow> resumption" where
  "record_epoch_synced r = (case rs_phase r of ResyncPhase es n \<Rightarrow> r\<lparr>rs_phase := ResyncPhase es (n + 1)\<rparr> | _ \<Rightarrow> r)"

definition start_state_rebuild :: "resumption \<Rightarrow> bytes \<Rightarrow> resumption" where
  "start_state_rebuild r smt_root = r\<lparr>rs_phase := StateRebuild 0 smt_root\<rparr>"

definition record_epoch_rebuilt :: "resumption \<Rightarrow> resumption" where
  "record_epoch_rebuilt r = (case rs_phase r of StateRebuild n root \<Rightarrow> r\<lparr>rs_phase := StateRebuild (n + 1) root\<rparr> | _ \<Rightarrow> r)"

definition start_validation :: "resumption \<Rightarrow> bytes \<Rightarrow> resumption" where
  "start_validation r state_hash = r\<lparr>rs_phase := ValidationPhase state_hash 0 RESUMPTION_VALIDATION_QUORUM\<rparr>"

definition record_peer_confirmation :: "resumption \<Rightarrow> bytes \<Rightarrow> resumption \<times> bool" where
  "record_peer_confirmation r peer_state_hash =
     (case rs_phase r of
        ValidationPhase state_hash confirmations required \<Rightarrow>
          (let c = (if peer_state_hash = state_hash then confirmations + 1 else confirmations)
           in (r\<lparr>rs_phase := ValidationPhase state_hash c required\<rparr>, c \<ge> required))
      | _ \<Rightarrow> (r, False))"

definition resume :: "resumption \<Rightarrow> u32 \<Rightarrow> u64 \<Rightarrow> resumption \<times> (resumption_fail_reason + unit)" where
  "resume r resume_seq_num resume_epoch =
     (let resumed = (r\<lparr>rs_phase := Resumed resume_seq_num resume_epoch\<rparr>, Inr ())
      in case rs_phase r of
          ValidationPhase _ confirmations required \<Rightarrow>
            (if confirmations < required
             then (let reason = ValidationQuorumFailed confirmations required
                   in (r\<lparr>rs_phase := ResumptionFailed reason\<rparr>, Inl reason))
             else resumed)
        | _ \<Rightarrow> resumed)"

definition is_resumed :: "resumption \<Rightarrow> bool" where
  "is_resumed r \<longleftrightarrow> (case rs_phase r of Resumed _ _ \<Rightarrow> True | _ \<Rightarrow> False)"

definition resumption_is_failed :: "resumption \<Rightarrow> bool" where
  "resumption_is_failed r \<longleftrightarrow> (case rs_phase r of ResumptionFailed _ \<Rightarrow> True | _ \<Rightarrow> False)"

definition compute_resumption_state_hash :: "(bytes \<Rightarrow> bytes) \<Rightarrow> bytes \<Rightarrow> u64 \<Rightarrow> bytes \<Rightarrow> bytes" where
  "compute_resumption_state_hash blake3 smt_root epoch node_id = blake3 (smt_root @ le_bytes 8 epoch @ node_id)"

section \<open>Institutions\<close>

definition MAX_OPERATORS :: nat where
  "MAX_OPERATORS = 7"

record operator_entry =
  oe_operator_id :: bytes
  oe_node_key_commitment :: bytes
  oe_added_epoch :: u64
  oe_is_active :: bool

record institutional_node =
  in_institution_id :: bytes
  in_institution_name_hash :: bytes
  in_operators :: "operator_entry list"
  in_m_of_n_threshold :: u8
  in_registered_epoch :: u64
  in_institution_commitment :: bytes

datatype institutional_error =
    TooManyOperators nat | InsufficientThreshold u8 u8 | ZeroThreshold | OperatorNotFound
  | InsufficientSignatures nat u8 | OperatorAlreadyExists

definition institution_new ::
  "bytes \<Rightarrow> bytes \<Rightarrow> operator_entry list \<Rightarrow> u8 \<Rightarrow> u64 \<Rightarrow> bytes \<Rightarrow> institutional_error + institutional_node" where
  "institution_new institution_id name_hash operators m_of_n_threshold registered_epoch commitment =
     (if length operators > MAX_OPERATORS then Inl (TooManyOperators (length operators))
      else if m_of_n_threshold = 0 then Inl ZeroThreshold
      else
        let n = of_nat (length operators) :: u8
        in if n > 0 \<and> m_of_n_threshold * 2 \<le> n then Inl (InsufficientThreshold m_of_n_threshold n)
           else Inr \<lparr>in_institution_id = institution_id, in_institution_name_hash = name_hash, in_operators = operators,
             in_m_of_n_threshold = m_of_n_threshold, in_registered_epoch = registered_epoch,
             in_institution_commitment = commitment\<rparr>)"

definition active_operator_count :: "institutional_node \<Rightarrow> nat" where
  "active_operator_count i = length (filter oe_is_active (in_operators i))"

definition institutional_uptime :: "institutional_node \<Rightarrow> (bytes \<rightharpoonup> u64) \<Rightarrow> u64" where
  "institutional_uptime i operator_uptimes =
     fold max (map (\<lambda>op. unwrap_or (operator_uptimes (oe_operator_id op)) 0) (filter oe_is_active (in_operators i))) 0"

definition institution_verify_quorum :: "institutional_node \<Rightarrow> bytes list \<Rightarrow> institutional_error + unit" where
  "institution_verify_quorum i signing_operators =
     (let valid_signatures = length (filter (\<lambda>sig_id. list_ex (\<lambda>op. oe_is_active op \<and> oe_operator_id op = sig_id) (in_operators i)) signing_operators)
      in if valid_signatures < unat (in_m_of_n_threshold i)
         then Inl (InsufficientSignatures valid_signatures (in_m_of_n_threshold i)) else Inr ())"

definition add_operator :: "institutional_node \<Rightarrow> operator_entry \<Rightarrow> bytes list \<Rightarrow> institutional_node \<times> (institutional_error + unit)" where
  "add_operator i new_operator signing_operators =
     (if list_ex (\<lambda>op. oe_operator_id op = oe_operator_id new_operator) (in_operators i) then (i, Inl OperatorAlreadyExists)
      else if length (in_operators i) \<ge> MAX_OPERATORS then (i, Inl (TooManyOperators (length (in_operators i) + 1)))
      else case institution_verify_quorum i signing_operators of
          Inl e \<Rightarrow> (i, Inl e)
        | Inr _ \<Rightarrow> (i\<lparr>in_operators := in_operators i @ [new_operator]\<rparr>, Inr ()))"

text \<open>\<open>iter_mut().find\<close> changes the first entry with the id.\<close>

primrec deactivate_first :: "bytes \<Rightarrow> operator_entry list \<Rightarrow> operator_entry list option" where
  "deactivate_first k [] = None"
| "deactivate_first k (op # ops) =
     (if oe_operator_id op = k then Some (op\<lparr>oe_is_active := False\<rparr> # ops) else map_option ((#) op) (deactivate_first k ops))"

definition deactivate_operator :: "institutional_node \<Rightarrow> bytes \<Rightarrow> bytes list \<Rightarrow> institutional_node \<times> (institutional_error + unit)" where
  "deactivate_operator i operator_id signing_operators =
     (case institution_verify_quorum i signing_operators of
        Inl e \<Rightarrow> (i, Inl e)
      | Inr _ \<Rightarrow> (case deactivate_first operator_id (in_operators i) of
          None \<Rightarrow> (i, Inl OperatorNotFound)
        | Some ops \<Rightarrow> (i\<lparr>in_operators := ops\<rparr>, Inr ())))"

type_synonym institutional_registry = "(bytes \<times> institutional_node) list"

definition institution_register :: "institutional_registry \<Rightarrow> institutional_node \<Rightarrow> institutional_registry" where
  "institution_register r node = AList.update (in_institution_id node) node r"

definition longevity_epochs :: "institutional_registry \<Rightarrow> bytes \<Rightarrow> u64 \<Rightarrow> u64" where
  "longevity_epochs r institution_id current_epoch =
     unwrap_or (map_option (\<lambda>node. saturating_sub current_epoch (in_registered_epoch node)) (map_of r institution_id)) 0"

section \<open>What slashing does\<close>

definition equivocates :: "slashing_proof \<Rightarrow> bool" where
  "equivocates p \<longleftrightarrow> list_all (\<lambda>a. ra_node_id a = sp_node_id p \<and> ra_epoch_id a = sp_epoch_id p) [sp_announcement_1 p, sp_announcement_2 p]
     \<and> ra_liveness_root (sp_announcement_1 p) \<noteq> ra_liveness_root (sp_announcement_2 p)"

lemma validate_slashing_proof_iff: "validate_slashing_proof p = Inr () \<longleftrightarrow> equivocates p"
  by (simp add: validate_slashing_proof_def equivocates_def)

lemma process_proof_eq: "process_proof r p = (if equivocates p then (insert (sp_node_id p) r, True) else (r, False))"
  using validate_slashing_proof_iff [of p] by (auto simp: process_proof_def split: sum.splits)

text \<open>The blacklist holds exactly the nodes for which a proof with two different roots for one epoch was seen:
  nothing else enters it, nothing leaves it, and the reset gives its nodes maturity zero and no other node.\<close>

theorem blacklist_exact:
  "fold (\<lambda>p r. fst (process_proof r p)) ps r = r \<union> sp_node_id ` {p \<in> set ps. equivocates p}
   \<and> apply_maturity_reset (fold (\<lambda>p r. fst (process_proof r p)) ps r) w n
     = (if n \<in> r \<or> list_ex (\<lambda>p. equivocates p \<and> sp_node_id p = n) ps then Some 0 else w n)"
proof -
  have "fold (\<lambda>p r. fst (process_proof r p)) ps r = r \<union> sp_node_id ` {p \<in> set ps. equivocates p}"
    by (induction ps arbitrary: r) (auto simp: process_proof_eq)
  then show ?thesis by (auto simp: apply_maturity_reset_def list_ex_iff)
qed

section \<open>What succession does\<close>

datatype succession_op = SubmitClaim succession_claim | CancelClaim bytes | ExecuteClaim bytes u64

type_synonym succession_state = "succession_store \<times> (bytes \<rightharpoonup> u64)"

fun succession_step :: "succession_state \<Rightarrow> succession_op \<Rightarrow> succession_state \<times> succession_error option" where
  "succession_step (s, m) (SubmitClaim c) = (case submit_claim s c of (s', r) \<Rightarrow> ((s', m), case r of Inl e \<Rightarrow> Some e | Inr _ \<Rightarrow> None))"
| "succession_step (s, m) (CancelClaim k) = (case cancel_claim s k of (s', r) \<Rightarrow> ((s', m), case r of Inl e \<Rightarrow> Some e | Inr _ \<Rightarrow> None))"
| "succession_step (s, m) (ExecuteClaim k e) = (case execute_succession s k e m of (st, r) \<Rightarrow> (st, case r of Inl e \<Rightarrow> Some e | Inr _ \<Rightarrow> None))"

text \<open>The life of a claim: submitted when none is pending, then cancelled or executed, and from there submitted anew.\<close>

inductive claim_moves :: "claim_status option \<Rightarrow> claim_status option \<Rightarrow> bool" where
  submit: "old \<noteq> Some ClaimPending \<Longrightarrow> claim_moves old (Some ClaimPending)"
| cancel: "claim_moves (Some ClaimPending) (Some ClaimCancelled)"
| execute: "claim_moves (Some ClaimPending) (Some ClaimExecuted)"

lemma status_update: "claim_status_of (AList.update k e s) q = (if q = k then Some (en_status e) else claim_status_of s q)"
  by (simp add: claim_status_of_def update_conv')

lemma status_moves:
  assumes "claim_moves (Some ClaimPending) (Some new)" "map_of s k = Some e" "en_status e = ClaimPending"
  shows "claim_status_of (AList.update k (e\<lparr>en_status := new\<rparr>) s) q = claim_status_of s q
    \<or> claim_moves (claim_status_of s q) (claim_status_of (AList.update k (e\<lparr>en_status := new\<rparr>) s) q)"
  using assms by (simp add: status_update claim_status_of_def [of s k])

text \<open>Every operation on claims moves the status of at most its own primary, along the life of a claim, and an
  operation that answers an error changes neither claims nor maturity.\<close>

theorem succession_lifecycle:
  "case succession_step st op of (st', r) \<Rightarrow> (if r = None then
      (\<forall>q. claim_status_of (fst st') q = claim_status_of (fst st) q \<or> claim_moves (claim_status_of (fst st) q) (claim_status_of (fst st') q))
    else st' = st)"
proof (cases st)
  case (Pair s m)
  show ?thesis
  proof (cases op)
    case (SubmitClaim c)
    let ?p = "su_node_id_primary (cl_succession_proof c)"
    have "(case map_of s ?p of Some e \<Rightarrow> en_status e = ClaimPending | None \<Rightarrow> False) \<longleftrightarrow> claim_status_of s ?p = Some ClaimPending"
      by (simp add: claim_status_of_def split: option.splits)
    then show ?thesis using Pair SubmitClaim by (simp add: submit_claim_def Let_def status_update claim_moves.submit)
  next
    case (CancelClaim k)
    then show ?thesis
      using Pair status_moves [OF claim_moves.cancel]
      by (auto simp: cancel_claim_def split: option.splits claim_status.splits)
  next
    case (ExecuteClaim k e)
    then show ?thesis
      using Pair status_moves [OF claim_moves.execute]
      by (auto simp: execute_succession_def Let_def split: option.splits claim_status.splits if_splits)
  qed
qed

definition maturity_of :: "(bytes \<rightharpoonup> u64) \<Rightarrow> bytes \<Rightarrow> nat" where
  "maturity_of m k = unat (unwrap_or (m k) 0)"

lemma transferred_le: "unat (saturating_mul v SUCCESSION_MATURITY_TRANSFER_FP div SUCCESSION_BASIS) \<le> unat v * 85 div 100"
proof -
  have "unat (saturating_mul v SUCCESSION_MATURITY_TRANSFER_FP) \<le> unat v * 850000"
    by (simp add: unat_saturating_mul SUCCESSION_MATURITY_TRANSFER_FP_def)
  then have "unat (saturating_mul v SUCCESSION_MATURITY_TRANSFER_FP) div 1000000 \<le> unat v * 850000 div 1000000" by (rule div_le_mono)
  also have "\<dots> = unat v * 85 div 100" using div_mult_mult2 [of 10000 "unat v * 85" 100] by simp
  finally show ?thesis by (simp add: unat_div SUCCESSION_BASIS_def)
qed

text \<open>Succession never creates maturity: when it is executed, the primary has none left unless it is its own
  backup, the backup gains at most 85 per cent of what the primary had, and no other node changes.\<close>

theorem succession_keeps_maturity:
  assumes "execute_succession s p cur m = ((s', m'), Inr b)"
  shows "maturity_of m' b \<le> (if b = p then 0 else maturity_of m b) + maturity_of m p * 85 div 100 \<and> (b = p \<or> maturity_of m' p = 0)
    \<and> (\<forall>q. q = p \<or> q = b \<or> m' q = m q)"
proof -
  let ?t = "saturating_mul (unwrap_or (m p) 0) SUCCESSION_MATURITY_TRANSFER_FP div SUCCESSION_BASIS"
  have m': "m' = (m(p \<mapsto> 0))(b \<mapsto> saturating_add (unwrap_or ((m(p \<mapsto> 0)) b) 0) ?t)"
    using assms by (auto simp: execute_succession_def Let_def split: option.splits claim_status.splits if_splits)
  have "maturity_of m' b \<le> (if b = p then 0 else maturity_of m b) + unat ?t"
    by (simp add: m' maturity_of_def unat_saturating_add)
  then show ?thesis using transferred_le [of "unwrap_or (m p) 0"] by (auto simp: m' maturity_of_def)
qed

text \<open>The time lock does not hold: the epoch of a claim is the claimant's own word, so a claim dated before the
  current epoch is executed in the epoch in which it is submitted, before the primary can cancel it.\<close>

theorem succession_timelock_bypassed:
  assumes "SUCCESSION_ANTI_SPAM_FEE_SSCL \<le> cl_fee_paid_sscl c" "cl_node_id_backup c = su_node_id_backup (cl_succession_proof c)"
    and "claim_status_of s (su_node_id_primary (cl_succession_proof c)) \<noteq> Some ClaimPending" "cl_claim_epoch c < current"
  shows "\<exists>s1 s2 m'. submit_claim s c = (s1, Inr ())
    \<and> execute_succession s1 (su_node_id_primary (cl_succession_proof c)) current m = ((s2, m'), Inr (cl_node_id_backup c))"
proof -
  let ?p = "su_node_id_primary (cl_succession_proof c)"
  let ?s = "AList.update ?p \<lparr>en_claim = c, en_status = ClaimPending\<rparr> s"
  have "submit_claim s c = (?s, Inr ())"
    using assms(1-3) by (auto simp: submit_claim_def Let_def claim_status_of_def not_less split: option.splits)
  moreover have "\<not> current < cl_claim_epoch c + 1" using assms(4) by (simp add: not_less inc_le)
  then have "\<exists>s2 m'. execute_succession ?s ?p current m = ((s2, m'), Inr (cl_node_id_backup c))"
    by (simp add: execute_succession_def SUCCESSION_TIMELOCK_EPOCHS_def Let_def)
  ultimately show ?thesis by blast
qed

theorem succession_keeps_maturity_witness:
  "maturity_of (snd (fst (execute_succession [([1], \<lparr>en_claim = \<lparr>cl_node_id_backup = [2], cl_claim_epoch = 5,
     cl_succession_proof = \<lparr>su_node_id_primary = [1], su_node_id_backup = [2], su_commitment_epoch = 1, su_sig_primary = [], su_sig_backup = []\<rparr>,
     cl_sig_claim = [], cl_fee_paid_sscl = 10000\<rparr>, en_status = ClaimPending\<rparr>)] [1] 6 [[1] \<mapsto> 100]))) [2] \<le> 85"
proof -
  define c where "c = \<lparr>cl_node_id_backup = [2::u8], cl_claim_epoch = 5,
     cl_succession_proof = \<lparr>su_node_id_primary = [1], su_node_id_backup = [2], su_commitment_epoch = 1, su_sig_primary = [], su_sig_backup = []\<rparr>,
     cl_sig_claim = [], cl_fee_paid_sscl = 10000\<rparr>"
  define s where "s = [([1::u8], \<lparr>en_claim = c, en_status = ClaimPending\<rparr>)]"
  obtain s' m' where x: "execute_succession s [1] 6 [[1] \<mapsto> 100] = ((s', m'), Inr [2])"
    by (simp add: s_def c_def execute_succession_def SUCCESSION_TIMELOCK_EPOCHS_def Let_def)
  have "maturity_of m' [2] \<le> maturity_of [[1] \<mapsto> 100] [2] + maturity_of [[1] \<mapsto> 100] [1] * 85 div 100"
    using succession_keeps_maturity [OF x] by simp
  then show ?thesis using x by (simp add: s_def c_def maturity_of_def)
qed

theorem succession_timelock_bypassed_witness:
  "snd (submit_claim [] \<lparr>cl_node_id_backup = [2], cl_claim_epoch = 0,
     cl_succession_proof = \<lparr>su_node_id_primary = [1], su_node_id_backup = [2], su_commitment_epoch = 1, su_sig_primary = [], su_sig_backup = []\<rparr>,
     cl_sig_claim = [], cl_fee_paid_sscl = 10000\<rparr>) = Inr ()"
  using succession_timelock_bypassed [of "\<lparr>cl_node_id_backup = [2], cl_claim_epoch = 0,
     cl_succession_proof = \<lparr>su_node_id_primary = [1], su_node_id_backup = [2], su_commitment_epoch = 1, su_sig_primary = [], su_sig_backup = []\<rparr>,
     cl_sig_claim = [], cl_fee_paid_sscl = 10000\<rparr>" "[]" 7 Map.empty]
  by (auto simp: SUCCESSION_ANTI_SPAM_FEE_SSCL_def claim_status_of_def)

section \<open>What resumption guarantees\<close>

text \<open>A node that follows the phases in order.\<close>

definition validated_by :: "resumption \<Rightarrow> bytes \<Rightarrow> bytes list \<Rightarrow> resumption" where
  "validated_by r state_hash peers = fold (\<lambda>h r. fst (record_peer_confirmation r h)) peers (start_validation r state_hash)"

lemma confirmations_fold:
  "rs_phase r = ValidationPhase h c q \<Longrightarrow>
   fold (\<lambda>h r. fst (record_peer_confirmation r h)) peers r = r\<lparr>rs_phase := ValidationPhase h (c + of_nat (count_list peers h)) q\<rparr>"
proof (induction peers arbitrary: r c)
  case Nil
  then show ?case by (cases r) simp
next
  case (Cons x xs)
  have "rs_phase (fst (record_peer_confirmation r x)) = ValidationPhase h (if x = h then c + 1 else c) q"
    using Cons.prems by (simp add: record_peer_confirmation_def Let_def)
  from Cons.IH [OF this] show ?case using Cons.prems by (simp add: record_peer_confirmation_def Let_def algebra_simps)
qed

text \<open>In the validation phase a node resumes exactly when at least two confirmations carry its own state hash, the
  same peer counting as often as it answers; a failed attempt is no end, because the attempt after it succeeds.\<close>

theorem resume_needs_two_confirmations:
  assumes "length peers < 2 ^ 32"
  shows "resume (validated_by r h peers) seq e =
    (if 2 \<le> count_list peers h then (r\<lparr>rs_phase := Resumed seq e\<rparr>, Inr ())
     else (r\<lparr>rs_phase := ResumptionFailed (ValidationQuorumFailed (of_nat (count_list peers h)) 2)\<rparr>,
           Inl (ValidationQuorumFailed (of_nat (count_list peers h)) 2)))
   \<and> is_resumed (fst (resume (fst (resume (validated_by r h peers) seq e)) seq e))"
proof -
  have v: "validated_by r h peers = r\<lparr>rs_phase := ValidationPhase h (of_nat (count_list peers h)) 2\<rparr>"
    using confirmations_fold [of "start_validation r h" h 0 2 peers]
    by (simp add: validated_by_def start_validation_def RESUMPTION_VALIDATION_QUORUM_def)
  have "count_list peers h < 2 ^ 32" using count_le_length [of peers h] assms by simp
  then have "(of_nat (count_list peers h) :: u32) < 2 \<longleftrightarrow> count_list peers h < 2"
    by (simp add: word_less_nat_alt unat_of_nat take_bit_nat_eq_self)
  then show ?thesis by (auto simp: v resume_def is_resumed_def Let_def not_le)
qed

theorem resume_needs_two_confirmations_witness:
  "snd (resume (validated_by (resumption_new [1] 10 2000) [9] [[9], [8], [9]]) 2000 5) = Inr ()"
  using resume_needs_two_confirmations [of "[[9], [8], [9]]" "resumption_new [1] 10 2000" "[9]" 2000 5] by simp

text \<open>Resuming is not tied to the phases before it: from every phase but validation the node is resumed at once, so
  a node that has only detected its gap, and one whose validation failed, both resume without any peer.\<close>

theorem resumption_skips_validation:
  "is_resumed (fst (resume (resumption_new n prev cur) seq e)) \<and> snd (resume (resumption_new n prev cur) seq e) = Inr ()
   \<and> snd (resume (r\<lparr>rs_phase := ResumptionFailed reason\<rparr>) seq e) = Inr ()
   \<and> snd (resume (fst (start_sync r es)) seq e) = Inr ()"
  by (simp add: resume_def resumption_new_def is_resumed_def start_sync_def Let_def)

section \<open>What an institution guarantees\<close>

lemma verify_quorum_iff:
  "institution_verify_quorum i sigs = Inr () \<longleftrightarrow>
   unat (in_m_of_n_threshold i) \<le> length (filter (\<lambda>s. s \<in> oe_operator_id ` {op \<in> set (in_operators i). oe_is_active op}) sigs)"
proof -
  have "(\<lambda>s. list_ex (\<lambda>op. oe_is_active op \<and> oe_operator_id op = s) (in_operators i))
      = (\<lambda>s. s \<in> oe_operator_id ` {op \<in> set (in_operators i). oe_is_active op})"
    by (auto simp: fun_eq_iff list_ex_iff)
  then show ?thesis by (simp add: institution_verify_quorum_def Let_def not_less)
qed

text \<open>The quorum of an institution is not one of operators: the signatures are counted and not the signers, so one
  active operator who signs often enough meets every threshold, admits a new operator alone and removes any other.\<close>

theorem one_operator_is_quorum:
  assumes "op \<in> set (in_operators i)" "oe_is_active op" "unat (in_m_of_n_threshold i) \<le> n"
  shows "institution_verify_quorum i (replicate n (oe_operator_id op)) = Inr ()
    \<and> (list_ex (\<lambda>o'. oe_operator_id o' = oe_operator_id new) (in_operators i) \<or> MAX_OPERATORS \<le> length (in_operators i)
       \<or> add_operator i new (replicate n (oe_operator_id op)) = (i\<lparr>in_operators := in_operators i @ [new]\<rparr>, Inr ()))"
proof -
  have "institution_verify_quorum i (replicate n (oe_operator_id op)) = Inr ()"
    using assms by (auto simp: verify_quorum_iff filter_replicate)
  then show ?thesis by (simp add: add_operator_def)
qed

definition sample_institution :: institutional_node where
  "sample_institution =
     \<lparr>in_institution_id = [1], in_institution_name_hash = [],
      in_operators = [\<lparr>oe_operator_id = [1], oe_node_key_commitment = [], oe_added_epoch = 0, oe_is_active = True\<rparr>,
        \<lparr>oe_operator_id = [2], oe_node_key_commitment = [], oe_added_epoch = 0, oe_is_active = True\<rparr>,
        \<lparr>oe_operator_id = [3], oe_node_key_commitment = [], oe_added_epoch = 0, oe_is_active = True\<rparr>],
      in_m_of_n_threshold = 2, in_registered_epoch = 0, in_institution_commitment = []\<rparr>"

theorem one_operator_is_quorum_witness:
  "institution_verify_quorum sample_institution [[1], [1]] = Inr ()"
  using one_operator_is_quorum [of "hd (in_operators sample_institution)" sample_institution 2]
  by (simp add: sample_institution_def numeral_2_eq_2)

definition majority_threshold :: "institutional_node \<Rightarrow> bool" where
  "majority_threshold i \<longleftrightarrow> length (in_operators i) \<le> MAX_OPERATORS \<and> 0 < unat (in_m_of_n_threshold i)
     \<and> (in_operators i = [] \<or> length (in_operators i) < 2 * unat (in_m_of_n_threshold i))"

lemma institution_new_majority:
  assumes "institution_new a b ops t e c = Inr i" "unat t < 128"
  shows "majority_threshold i \<and> in_operators i = ops \<and> in_m_of_n_threshold i = t"
proof -
  have i: "in_operators i = ops" "in_m_of_n_threshold i = t" "length ops \<le> 7" "t \<noteq> 0"
    and q: "\<not> ((of_nat (length ops) :: u8) > 0 \<and> t * 2 \<le> of_nat (length ops))"
    using assms(1) by (auto simp: institution_new_def Let_def MAX_OPERATORS_def split: if_splits)
  have n: "unat (of_nat (length ops) :: u8) = length ops" using i(3) by (simp add: unat_of_nat take_bit_nat_eq_self)
  have "unat (t * 2) = unat t * 2" using assms(2) by (simp add: unat_word_ariths)
  then have "ops = [] \<or> length ops < 2 * unat t" using q n by (auto simp: word_less_nat_alt word_le_nat_alt)
  moreover have "0 < unat t" using i(4) by (simp add: unat_gt_0)
  ultimately show ?thesis using i by (simp add: majority_threshold_def MAX_OPERATORS_def)
qed

text \<open>An institution starts with at most seven operators and a threshold above half of them, and never has more than
  seven; but the threshold is not checked again when an operator joins, and it stays above half exactly while fewer
  than twice the threshold are in the list.\<close>

theorem institution_majority_lost:
  assumes "institution_new a b ops t e c = Inr i" "unat t < 128" "add_operator i new sigs = (i', Inr ())"
  shows "majority_threshold i \<and> length (in_operators i') \<le> MAX_OPERATORS
    \<and> majority_threshold i' = (length ops + 1 < 2 * unat t)"
proof -
  have n: "majority_threshold i" "in_operators i = ops" "in_m_of_n_threshold i = t"
    using institution_new_majority [OF assms(1,2)] by auto
  have "in_operators i' = ops @ [new]" "in_m_of_n_threshold i' = t" "length ops < MAX_OPERATORS"
    using assms(3) n(2,3) by (auto simp: add_operator_def split: if_splits sum.splits)
  then show ?thesis using n(1,3) by (simp add: majority_threshold_def)
qed

theorem institution_majority_lost_witness:
  "\<exists>i'. fst (add_operator sample_institution \<lparr>oe_operator_id = [4], oe_node_key_commitment = [], oe_added_epoch = 1, oe_is_active = True\<rparr> [[1], [2]]) = i'
     \<and> \<not> majority_threshold i'"
proof -
  let ?new = "\<lparr>oe_operator_id = [4], oe_node_key_commitment = [], oe_added_epoch = 1, oe_is_active = True\<rparr>"
  have a: "institution_new [1] [] (in_operators sample_institution) 2 0 [] = Inr sample_institution"
    by (simp add: institution_new_def sample_institution_def MAX_OPERATORS_def)
  have b: "add_operator sample_institution ?new [[1], [2]] = (sample_institution\<lparr>in_operators := in_operators sample_institution @ [?new]\<rparr>, Inr ())"
    by (simp add: add_operator_def sample_institution_def MAX_OPERATORS_def institution_verify_quorum_def)
  show ?thesis using institution_majority_lost [OF a _ b] b by (simp add: sample_institution_def)
qed

end
