(* ===== verification/Genesis.thy ===== *)
theory Genesis
  imports Prelude Heartbeat
begin

text \<open>
  The genesis ceremony of \<open>core/scalar-emission/src/genesis_ceremony.rs\<close>: the keys of epoch 0, the three phases that
  lead from the parameters to the genesis hash, and the four verification points.  BLAKE3 is a parameter.  The text
  of a failed verification point is rendered by \<open>format!\<close>; the model keeps its kind and the two values it shows.
\<close>

section \<open>Keys of epoch 0\<close>

definition GENESIS_OBJECT_MAX_BYTES :: nat where
  "GENESIS_OBJECT_MAX_BYTES = 1024"

definition CEREMONY_EPOCH_ID :: u64 where
  "CEREMONY_EPOCH_ID = 0"

definition compute_node_key_epoch_0 :: "(bytes \<Rightarrow> bytes) \<Rightarrow> bytes \<Rightarrow> bytes" where
  "compute_node_key_epoch_0 blake3 node_key_0 = derive_node_key_epoch blake3 node_key_0 CEREMONY_EPOCH_ID"

definition compute_genesis_prev_hash :: "(bytes \<Rightarrow> bytes) \<Rightarrow> bytes \<Rightarrow> bytes" where
  "compute_genesis_prev_hash blake3 genesis_object_bytes = blake3 genesis_object_bytes"

definition compute_first_hb_prev_hash_epoch_0 :: "(bytes \<Rightarrow> bytes) \<Rightarrow> bytes \<Rightarrow> bytes" where
  "compute_first_hb_prev_hash_epoch_0 blake3 genesis_bytes = compute_genesis_prev_hash blake3 genesis_bytes"

record genesis_node_entry =
  ge_node_id :: bytes
  ge_pubkey :: bytes
  ge_mac_key :: bytes

definition genesis_node_entry_new :: "(bytes \<Rightarrow> bytes) \<Rightarrow> bytes \<Rightarrow> bytes \<Rightarrow> bytes \<Rightarrow> genesis_node_entry" where
  "genesis_node_entry_new blake3 node_id pubkey node_key_0 =
     \<lparr>ge_node_id = node_id, ge_pubkey = pubkey, ge_mac_key = compute_node_key_epoch_0 blake3 node_key_0\<rparr>"

definition verify_mac_key :: "(bytes \<Rightarrow> bytes) \<Rightarrow> genesis_node_entry \<Rightarrow> bytes \<Rightarrow> bool" where
  "verify_mac_key blake3 e node_key_0 \<longleftrightarrow> ge_mac_key e = compute_node_key_epoch_0 blake3 node_key_0"

datatype genesis_validation_result =
  GenesisValid u32 bytes | GenesisTooLarge nat nat | GenesisNoNodes | GenesisInvalidNodeEntry bytes

definition validate_genesis :: "(bytes \<Rightarrow> bytes) \<Rightarrow> bytes \<Rightarrow> genesis_node_entry list \<Rightarrow> genesis_validation_result" where
  "validate_genesis blake3 genesis_bytes node_entries =
     (if length genesis_bytes \<ge> GENESIS_OBJECT_MAX_BYTES then GenesisTooLarge (length genesis_bytes) GENESIS_OBJECT_MAX_BYTES
      else if node_entries = [] then GenesisNoNodes
      else GenesisValid (of_nat (length node_entries)) (compute_genesis_prev_hash blake3 genesis_bytes))"

section \<open>The ceremony\<close>

definition DOMAIN_GENESIS_BOOTSTRAP :: bytes where
  "DOMAIN_GENESIS_BOOTSTRAP = ascii ''scalar_genesis_bootstrap''"

record genesis_params =
  gp_s_max_sscl :: u64
  gp_s_e_sscl :: u64
  gp_s_r_sscl :: u64
  gp_fri_blowup :: u8
  gp_fri_queries :: u8
  gp_fri_grinding :: u8
  gp_crypto_version :: u8
  gp_genesis_timestamp :: u64
  gp_genesis_version :: bytes

definition canonical_params :: "u64 \<Rightarrow> genesis_params" where
  "canonical_params genesis_timestamp =
     \<lparr>gp_s_max_sscl = 2100000000000000, gp_s_e_sscl = 1890000000000000, gp_s_r_sscl = 210000000000000,
      gp_fri_blowup = 8, gp_fri_queries = 108, gp_fri_grinding = 0, gp_crypto_version = 1,
      gp_genesis_timestamp = genesis_timestamp,
      gp_genesis_version = ascii ''scalar-genesis-1.0'' @ replicate 14 0\<rparr>"

definition genesis_params_serialize :: "genesis_params \<Rightarrow> bytes" where
  "genesis_params_serialize p =
     le_bytes 8 (gp_s_max_sscl p) @ le_bytes 8 (gp_s_e_sscl p) @ le_bytes 8 (gp_s_r_sscl p)
     @ [gp_fri_blowup p, gp_fri_queries p, gp_fri_grinding p, gp_crypto_version p]
     @ le_bytes 8 (gp_genesis_timestamp p) @ gp_genesis_version p @ replicate 4 0"

definition compute_genesis_params_hash :: "(bytes \<Rightarrow> bytes) \<Rightarrow> genesis_params \<Rightarrow> bytes" where
  "compute_genesis_params_hash blake3 params = blake3 (DOMAIN_GENESIS_BOOTSTRAP @ genesis_params_serialize params)"

record registration_commitment =
  rg_pubkey :: bytes
  rg_commitment :: bytes

definition register_participant :: "(bytes \<Rightarrow> bytes) \<Rightarrow> bytes \<Rightarrow> bytes \<Rightarrow> bytes \<Rightarrow> registration_commitment" where
  "register_participant blake3 pubkey genesis_params_hash nonce =
     \<lparr>rg_pubkey = pubkey, rg_commitment = blake3 (pubkey @ genesis_params_hash @ nonce)\<rparr>"

definition commitment_root_message :: "bytes \<Rightarrow> registration_commitment list \<Rightarrow> bytes" where
  "commitment_root_message genesis_params_hash registrations =
     DOMAIN_GENESIS_BOOTSTRAP @ genesis_params_hash
     @ concat (map (\<lambda>reg. rg_pubkey reg @ rg_commitment reg) (sort_key rg_pubkey registrations))"

definition compute_genesis_commitment_root :: "(bytes \<Rightarrow> bytes) \<Rightarrow> bytes \<Rightarrow> registration_commitment list \<Rightarrow> bytes" where
  "compute_genesis_commitment_root blake3 genesis_params_hash registrations =
     blake3 (commitment_root_message genesis_params_hash registrations)"

record genesis_object =
  go_params_hash :: bytes
  go_commitment_root :: bytes
  go_participant_pubkeys :: "bytes list"
  go_initial_utxo_set_root :: bytes
  go_timestamp :: u64

definition genesis_object_serialize :: "genesis_object \<Rightarrow> bytes" where
  "genesis_object_serialize g =
     go_params_hash g @ go_commitment_root g @ le_bytes 8 (of_nat (length (go_participant_pubkeys g)) :: u64)
     @ concat (go_participant_pubkeys g) @ go_initial_utxo_set_root g @ le_bytes 8 (go_timestamp g)"

definition finalize_genesis :: "(bytes \<Rightarrow> bytes) \<Rightarrow> genesis_object \<Rightarrow> bytes" where
  "finalize_genesis blake3 g = blake3 (DOMAIN_GENESIS_BOOTSTRAP @ genesis_object_serialize g)"

section \<open>Verification points\<close>

datatype gvp_failure =
  Gvp1ParamsHash bytes bytes | Gvp2CommitmentRoot bytes bytes | Gvp3NoPubkeys | Gvp3ZeroTimestamp | Gvp3NotSorted
  | Gvp4GenesisHash bytes bytes

datatype gvp_result = GvpPass | GvpFail gvp_failure

definition gvp1_params_hash :: "(bytes \<Rightarrow> bytes) \<Rightarrow> bytes \<Rightarrow> genesis_params \<Rightarrow> gvp_result" where
  "gvp1_params_hash blake3 genesis_params_hash params =
     (let computed = compute_genesis_params_hash blake3 params
      in if computed = genesis_params_hash then GvpPass else GvpFail (Gvp1ParamsHash genesis_params_hash computed))"

definition gvp2_commitment_root :: "(bytes \<Rightarrow> bytes) \<Rightarrow> bytes \<Rightarrow> bytes \<Rightarrow> registration_commitment list \<Rightarrow> gvp_result" where
  "gvp2_commitment_root blake3 genesis_commitment_root genesis_params_hash registrations =
     (let computed = compute_genesis_commitment_root blake3 genesis_params_hash registrations
      in if computed = genesis_commitment_root then GvpPass
         else GvpFail (Gvp2CommitmentRoot genesis_commitment_root computed))"

definition gvp3_object_consistency :: "genesis_object \<Rightarrow> gvp_result" where
  "gvp3_object_consistency g =
     (if go_participant_pubkeys g = [] then GvpFail Gvp3NoPubkeys
      else if go_timestamp g = 0 then GvpFail Gvp3ZeroTimestamp
      else if sort (go_participant_pubkeys g) \<noteq> go_participant_pubkeys g then GvpFail Gvp3NotSorted
      else GvpPass)"

definition gvp4_genesis_hash :: "(bytes \<Rightarrow> bytes) \<Rightarrow> bytes \<Rightarrow> genesis_object \<Rightarrow> gvp_result" where
  "gvp4_genesis_hash blake3 expected_genesis_hash g =
     (let computed = finalize_genesis blake3 g
      in if computed = expected_genesis_hash then GvpPass else GvpFail (Gvp4GenesisHash expected_genesis_hash computed))"

primrec first_failure :: "gvp_result list \<Rightarrow> gvp_result" where
  "first_failure [] = GvpPass"
| "first_failure (check # checks) = (if check \<noteq> GvpPass then check else first_failure checks)"

definition run_all_gvp ::
  "(bytes \<Rightarrow> bytes) \<Rightarrow> bytes \<Rightarrow> genesis_params \<Rightarrow> bytes \<Rightarrow> registration_commitment list \<Rightarrow> bytes \<Rightarrow> genesis_object \<Rightarrow> gvp_result" where
  "run_all_gvp blake3 genesis_params_hash params genesis_commitment_root registrations expected_genesis_hash g =
     first_failure [gvp1_params_hash blake3 genesis_params_hash params,
       gvp2_commitment_root blake3 genesis_commitment_root genesis_params_hash registrations,
       gvp3_object_consistency g,
       gvp4_genesis_hash blake3 expected_genesis_hash g]"

section \<open>What the hashes bind\<close>

definition genesis_params_shaped :: "genesis_params \<Rightarrow> bool" where
  "genesis_params_shaped p \<longleftrightarrow> length (gp_genesis_version p) = 32"

definition genesis_object_shaped :: "genesis_object \<Rightarrow> bool" where
  "genesis_object_shaped g \<longleftrightarrow> length (go_params_hash g) = 32 \<and> length (go_commitment_root g) = 32
     \<and> list_all (\<lambda>k. length k = 32) (go_participant_pubkeys g) \<and> length (go_initial_utxo_set_root g) = 32"

definition registration_shaped :: "registration_commitment \<Rightarrow> bool" where
  "registration_shaped r \<longleftrightarrow> length (rg_pubkey r) = 32 \<and> length (rg_commitment r) = 32"

lemma genesis_params_serialize_inj:
  assumes "genesis_params_shaped p" "genesis_params_shaped q" "genesis_params_serialize p = genesis_params_serialize q"
  shows "p = q"
  using assms
  by (cases p; cases q) (auto simp: genesis_params_shaped_def genesis_params_serialize_def le_bytes_inject)

lemma length_canonical [simp]: "genesis_params_shaped (canonical_params t)"
  by (simp add: genesis_params_shaped_def canonical_params_def)

lemma length_params_serialize: "genesis_params_shaped p \<Longrightarrow> length (genesis_params_serialize p) = 72"
  by (simp add: genesis_params_shaped_def genesis_params_serialize_def)

lemma concat_uniform_inj:
  assumes "concat xs = concat ys" "0 < n" "\<And>x. x \<in> set xs \<union> set ys \<Longrightarrow> length x = n"
  shows "xs = ys"
proof -
  have "length xs * n = length ys * n"
    using assms length_concat_uniform [of xs "\<lambda>x. x" n] length_concat_uniform [of ys "\<lambda>x. x" n] by simp
  then have "length xs = length ys" using assms(2) by simp
  then show ?thesis by (rule concat_fixed_length_inj [OF assms(1) _ assms(3)])
qed

lemma genesis_object_serialize_inj:
  assumes g: "genesis_object_shaped g" and h: "genesis_object_shaped h"
    and eq: "genesis_object_serialize g = genesis_object_serialize h"
  shows "g = h"
proof -
  have e: "go_params_hash g = go_params_hash h" "go_commitment_root g = go_commitment_root h"
    and r: "concat (go_participant_pubkeys g) @ go_initial_utxo_set_root g @ le_bytes 8 (go_timestamp g)
          = concat (go_participant_pubkeys h) @ go_initial_utxo_set_root h @ le_bytes 8 (go_timestamp h)"
    using eq g h by (auto simp: genesis_object_serialize_def genesis_object_shaped_def)
  have t: "length (go_initial_utxo_set_root g @ le_bytes 8 (go_timestamp g)) = length (go_initial_utxo_set_root h @ le_bytes 8 (go_timestamp h))"
    using g h by (simp add: genesis_object_shaped_def)
  then have "concat (go_participant_pubkeys g) = concat (go_participant_pubkeys h)"
    and "go_initial_utxo_set_root g @ le_bytes 8 (go_timestamp g) = go_initial_utxo_set_root h @ le_bytes 8 (go_timestamp h)"
    using r append_eq_append_conv by blast+
  moreover have "go_participant_pubkeys g = go_participant_pubkeys h"
    by (rule concat_uniform_inj [OF calculation(1), of 32]) (use g h in \<open>auto simp: genesis_object_shaped_def list_all_iff\<close>)
  ultimately show ?thesis
    using e g h by (cases g; cases h) (auto simp: genesis_object_shaped_def le_bytes_inject)
qed

lemma sorted_registrations_eq:
  assumes "distinct (map rg_pubkey rs)" "mset rs = mset rs'"
  shows "sort_key rg_pubkey rs = sort_key rg_pubkey rs'"
  using assms by (intro sort_key_inj_key_eq) (simp_all add: distinct_map)

lemma commitment_root_message_inj:
  assumes "list_all registration_shaped rs" "list_all registration_shaped rs'"
    and "commitment_root_message h rs = commitment_root_message h rs'"
  shows "sort_key rg_pubkey rs = sort_key rg_pubkey rs'"
proof -
  let ?enc = "\<lambda>reg. rg_pubkey reg @ rg_commitment reg"
  have s: "registration_shaped r" if "r \<in> set rs \<union> set rs'" for r using assms(1,2) that by (auto simp: list_all_iff)
  have "map ?enc (sort_key rg_pubkey rs) = map ?enc (sort_key rg_pubkey rs')"
    by (rule concat_uniform_inj [of _ _ 64])
      (use assms(3) s in \<open>auto simp: commitment_root_message_def registration_shaped_def\<close>)
  moreover have "inj_on ?enc (set rs \<union> set rs')"
    using s by (auto simp: inj_on_def registration_shaped_def)
  ultimately show ?thesis by (simp add: inj_on_map_eq_map)
qed

text \<open>C21. The genesis hash binds the whole ceremony: two objects with the same hash are equal, and two lists of
  registrations with the same root, each key registered once, are the same registrations, whatever order they came in,
  as long as BLAKE3 has no collision on the messages hashed.\<close>

theorem genesis_hash_binds:
  assumes "genesis_object_shaped g" "genesis_object_shaped g'" "list_all registration_shaped rs" "list_all registration_shaped rs'"
    and "distinct (map rg_pubkey rs)"
    and "inj_on blake3 {DOMAIN_GENESIS_BOOTSTRAP @ genesis_object_serialize g, DOMAIN_GENESIS_BOOTSTRAP @ genesis_object_serialize g'}"
    and "inj_on blake3 {commitment_root_message h rs, commitment_root_message h rs'}"
  shows "(finalize_genesis blake3 g = finalize_genesis blake3 g') = (g = g')
    \<and> (compute_genesis_commitment_root blake3 h rs = compute_genesis_commitment_root blake3 h rs') = (mset rs = mset rs')"
proof
  have "g = g'" if "blake3 (DOMAIN_GENESIS_BOOTSTRAP @ genesis_object_serialize g) = blake3 (DOMAIN_GENESIS_BOOTSTRAP @ genesis_object_serialize g')"
    using genesis_object_serialize_inj [OF assms(1,2)] inj_onD [OF assms(6) that] by simp
  then show "(finalize_genesis blake3 g = finalize_genesis blake3 g') = (g = g')" by (auto simp: finalize_genesis_def)
  have "sort_key rg_pubkey rs = sort_key rg_pubkey rs'" if "blake3 (commitment_root_message h rs) = blake3 (commitment_root_message h rs')"
    using commitment_root_message_inj [OF assms(3,4)] inj_onD [OF assms(7) that] by simp
  then have "mset rs = mset rs'" if "blake3 (commitment_root_message h rs) = blake3 (commitment_root_message h rs')"
    using that by (metis mset_sort)
  moreover have "commitment_root_message h rs = commitment_root_message h rs'" if "mset rs = mset rs'"
    using sorted_registrations_eq [OF assms(5) that] by (simp add: commitment_root_message_def)
  ultimately show "(compute_genesis_commitment_root blake3 h rs = compute_genesis_commitment_root blake3 h rs') = (mset rs = mset rs')"
    by (auto simp: compute_genesis_commitment_root_def)
qed

theorem genesis_hash_binds_witness:
  "compute_genesis_commitment_root (\<lambda>m. m) [] [\<lparr>rg_pubkey = replicate 32 1, rg_commitment = replicate 32 5\<rparr>, \<lparr>rg_pubkey = replicate 32 0, rg_commitment = replicate 32 6\<rparr>]
   = compute_genesis_commitment_root (\<lambda>m. m) [] [\<lparr>rg_pubkey = replicate 32 0, rg_commitment = replicate 32 6\<rparr>, \<lparr>rg_pubkey = replicate 32 1, rg_commitment = replicate 32 5\<rparr>]"
  using genesis_hash_binds [of "\<lparr>go_params_hash = replicate 32 0, go_commitment_root = replicate 32 0, go_participant_pubkeys = [],
      go_initial_utxo_set_root = replicate 32 0, go_timestamp = 1\<rparr>" "\<lparr>go_params_hash = replicate 32 0, go_commitment_root = replicate 32 0,
      go_participant_pubkeys = [], go_initial_utxo_set_root = replicate 32 0, go_timestamp = 1\<rparr>"
      "[\<lparr>rg_pubkey = replicate 32 1, rg_commitment = replicate 32 5\<rparr>, \<lparr>rg_pubkey = replicate 32 0, rg_commitment = replicate 32 6\<rparr>]"
      "[\<lparr>rg_pubkey = replicate 32 0, rg_commitment = replicate 32 6\<rparr>, \<lparr>rg_pubkey = replicate 32 1, rg_commitment = replicate 32 5\<rparr>]" "\<lambda>m. m" "[]"]
  by (simp add: genesis_object_shaped_def registration_shaped_def replicate_eq_replicate)

section \<open>What the verification points check\<close>

lemma sort_eq_Nil [simp]: "sort xs = [] \<longleftrightarrow> xs = []"
  by (metis set_empty set_sort)

lemma gvp_pass_iff:
  "gvp1_params_hash blake3 h p = GvpPass \<longleftrightarrow> compute_genesis_params_hash blake3 p = h"
  "gvp2_commitment_root blake3 root h rs = GvpPass \<longleftrightarrow> compute_genesis_commitment_root blake3 h rs = root"
  "gvp3_object_consistency g = GvpPass \<longleftrightarrow> go_participant_pubkeys g \<noteq> [] \<and> go_timestamp g \<noteq> 0 \<and> sorted (go_participant_pubkeys g)"
  "gvp4_genesis_hash blake3 gh g = GvpPass \<longleftrightarrow> finalize_genesis blake3 g = gh"
proof -
  have "sort xs = xs \<longleftrightarrow> sorted xs" for xs :: "bytes list" by (metis sorted_sort sorted_sort_id)
  then show "gvp3_object_consistency g = GvpPass \<longleftrightarrow> go_participant_pubkeys g \<noteq> [] \<and> go_timestamp g \<noteq> 0 \<and> sorted (go_participant_pubkeys g)"
    by (simp add: gvp3_object_consistency_def)
qed (simp_all add: gvp1_params_hash_def gvp2_commitment_root_def gvp4_genesis_hash_def Let_def)

lemma run_all_gvp_iff:
  "run_all_gvp blake3 h p root rs gh g = GvpPass \<longleftrightarrow>
     compute_genesis_params_hash blake3 p = h \<and> compute_genesis_commitment_root blake3 h rs = root
     \<and> (go_participant_pubkeys g \<noteq> [] \<and> go_timestamp g \<noteq> 0 \<and> sorted (go_participant_pubkeys g)) \<and> finalize_genesis blake3 g = gh"
  by (simp add: run_all_gvp_def gvp_pass_iff)

text \<open>The object an honest ceremony ends with.\<close>

definition ceremony_object :: "(bytes \<Rightarrow> bytes) \<Rightarrow> genesis_params \<Rightarrow> registration_commitment list \<Rightarrow> bytes \<Rightarrow> genesis_object" where
  "ceremony_object blake3 p rs utxo_root =
     (let h = compute_genesis_params_hash blake3 p
      in \<lparr>go_params_hash = h, go_commitment_root = compute_genesis_commitment_root blake3 h rs,
          go_participant_pubkeys = sort (map rg_pubkey rs), go_initial_utxo_set_root = utxo_root,
          go_timestamp = gp_genesis_timestamp p\<rparr>)"

text \<open>The verification points accept every honest ceremony, in whatever order the registrations are presented; but
  they do not tie the object to the ceremony: with the same parameters and registrations they accept, under its own
  hash, every object with a sorted list of keys and a timestamp, whatever parameters, registrations and participants
  it names.\<close>

theorem gvp_accepts_unrelated_object:
  assumes "rs \<noteq> []" "gp_genesis_timestamp p \<noteq> 0" "distinct (map rg_pubkey rs)" "mset rs' = mset rs"
    and "other_keys \<noteq> []" "t \<noteq> 0"
  shows "let g = ceremony_object blake3 p rs utxo_root;
      other = \<lparr>go_params_hash = other_params, go_commitment_root = other_root, go_participant_pubkeys = sort other_keys,
        go_initial_utxo_set_root = other_utxos, go_timestamp = t\<rparr>
    in run_all_gvp blake3 (go_params_hash g) p (go_commitment_root g) rs' (finalize_genesis blake3 g) g = GvpPass
      \<and> run_all_gvp blake3 (go_params_hash g) p (go_commitment_root g) rs' (finalize_genesis blake3 other) other = GvpPass"
proof -
  have "sort_key rg_pubkey rs' = sort_key rg_pubkey rs" using sorted_registrations_eq [OF assms(3)] assms(4) by metis
  then have "compute_genesis_commitment_root blake3 h rs' = compute_genesis_commitment_root blake3 h rs" for h
    by (simp add: compute_genesis_commitment_root_def commitment_root_message_def)
  then show ?thesis using assms(1,2,5,6) by (simp add: run_all_gvp_iff ceremony_object_def Let_def)
qed

theorem gvp_accepts_unrelated_object_witness:
  "run_all_gvp (\<lambda>m. m) (compute_genesis_params_hash (\<lambda>m. m) (canonical_params 7)) (canonical_params 7)
     (compute_genesis_commitment_root (\<lambda>m. m) (compute_genesis_params_hash (\<lambda>m. m) (canonical_params 7)) [\<lparr>rg_pubkey = [1], rg_commitment = [2]\<rparr>])
     [\<lparr>rg_pubkey = [1], rg_commitment = [2]\<rparr>]
     (finalize_genesis (\<lambda>m. m) \<lparr>go_params_hash = [], go_commitment_root = [], go_participant_pubkeys = [[9]], go_initial_utxo_set_root = [], go_timestamp = 3\<rparr>)
     \<lparr>go_params_hash = [], go_commitment_root = [], go_participant_pubkeys = [[9]], go_initial_utxo_set_root = [], go_timestamp = 3\<rparr> = GvpPass"
  using gvp_accepts_unrelated_object [of "[\<lparr>rg_pubkey = [1], rg_commitment = [2]\<rparr>]" "canonical_params 7" "[\<lparr>rg_pubkey = [1], rg_commitment = [2]\<rparr>]"
      "[[9]]" 3 "\<lambda>m. m" "[]" "[]" "[]" "[]"]
  by (simp add: ceremony_object_def canonical_params_def Let_def)

text \<open>The serialisation of the parameters loses nothing, so the hash published in the first phase commits to all of
  them: a registration made for one set of parameters is one for no other, if BLAKE3 has no collision on the messages.\<close>

theorem params_committed_before_registration:
  assumes "genesis_params_shaped p" "genesis_params_shaped q" "\<And>m. length (blake3 m) = 32" "length pk = 32" "length pk' = 32"
    and "inj_on blake3 {DOMAIN_GENESIS_BOOTSTRAP @ genesis_params_serialize p, DOMAIN_GENESIS_BOOTSTRAP @ genesis_params_serialize q}"
    and "inj_on blake3 {pk @ compute_genesis_params_hash blake3 p @ nonce, pk' @ compute_genesis_params_hash blake3 q @ nonce'}"
    and "rg_commitment (register_participant blake3 pk (compute_genesis_params_hash blake3 p) nonce)
       = rg_commitment (register_participant blake3 pk' (compute_genesis_params_hash blake3 q) nonce')"
  shows "p = q \<and> pk = pk' \<and> nonce = nonce'"
proof -
  have "pk @ compute_genesis_params_hash blake3 p @ nonce = pk' @ compute_genesis_params_hash blake3 q @ nonce'"
    using inj_onD [OF assms(7) assms(8) [unfolded register_participant_def registration_commitment.select_convs]] by blast
  then have e: "pk = pk'" "compute_genesis_params_hash blake3 p = compute_genesis_params_hash blake3 q" "nonce = nonce'"
    using assms(3-5) by (simp_all add: compute_genesis_params_hash_def)
  have "genesis_params_serialize p = genesis_params_serialize q"
    using inj_onD [OF assms(6) e(2) [unfolded compute_genesis_params_hash_def]] by simp
  then show ?thesis using genesis_params_serialize_inj [OF assms(1,2)] e by simp
qed

text \<open>A function with 32-byte values for the witness.\<close>

definition byte_sum_hash :: "bytes \<Rightarrow> bytes" where
  "byte_sum_hash m = sum_list m # replicate 31 0"

lemma le_bytes_7_8: "le_bytes 8 (7 :: u64) = [7, 0, 0, 0, 0, 0, 0, 0]" "le_bytes 8 (8 :: u64) = [8, 0, 0, 0, 0, 0, 0, 0]"
  by code_simp+

lemma byte_sum_params:
  "compute_genesis_params_hash byte_sum_hash (canonical_params 7) \<noteq> compute_genesis_params_hash byte_sum_hash (canonical_params 8)"
  by (simp add: compute_genesis_params_hash_def byte_sum_hash_def genesis_params_serialize_def canonical_params_def le_bytes_7_8)

lemma inj_on_pair: "h x \<noteq> h y \<Longrightarrow> inj_on h {x, y}"
  by (auto simp: inj_on_def)

lemma byte_sum_registration:
  assumes "byte_sum_hash m \<noteq> byte_sum_hash m'"
  shows "byte_sum_hash (pk @ byte_sum_hash m @ n) \<noteq> byte_sum_hash (pk @ byte_sum_hash m' @ n)"
  using assms by (simp add: byte_sum_hash_def sum_list_replicate)

theorem params_committed_before_registration_witness:
  "rg_commitment (register_participant byte_sum_hash (replicate 32 1) (compute_genesis_params_hash byte_sum_hash (canonical_params 7)) [3])
   \<noteq> rg_commitment (register_participant byte_sum_hash (replicate 32 1) (compute_genesis_params_hash byte_sum_hash (canonical_params 8)) [3])"
proof
  let ?c = "\<lambda>t. rg_commitment (register_participant byte_sum_hash (replicate 32 1) (compute_genesis_params_hash byte_sum_hash (canonical_params t)) [3])"
  assume eq: "?c 7 = ?c 8"
  have a: "byte_sum_hash (DOMAIN_GENESIS_BOOTSTRAP @ genesis_params_serialize (canonical_params 7))
      \<noteq> byte_sum_hash (DOMAIN_GENESIS_BOOTSTRAP @ genesis_params_serialize (canonical_params 8))"
    using byte_sum_params unfolding compute_genesis_params_hash_def .
  have "canonical_params 7 = canonical_params 8 \<and> replicate 32 (1::u8) = replicate 32 1 \<and> [3::u8] = [3]"
  proof (rule params_committed_before_registration [OF _ _ _ _ _ _ _ eq])
    show "inj_on byte_sum_hash {DOMAIN_GENESIS_BOOTSTRAP @ genesis_params_serialize (canonical_params 7),
        DOMAIN_GENESIS_BOOTSTRAP @ genesis_params_serialize (canonical_params 8)}"
      by (rule inj_on_pair, rule a)
    show "inj_on byte_sum_hash {replicate 32 1 @ compute_genesis_params_hash byte_sum_hash (canonical_params 7) @ [3],
        replicate 32 1 @ compute_genesis_params_hash byte_sum_hash (canonical_params 8) @ [3]}"
      unfolding compute_genesis_params_hash_def by (rule inj_on_pair, rule byte_sum_registration, rule a)
  qed (simp_all add: byte_sum_hash_def)
  then show False by (simp add: canonical_params_def)
qed

end
