(* ===== verification/Score_Rules.thy ===== *)
theory Score_Rules
  imports Prelude Emission
begin

text \<open>
  The numbers that weigh a node and the run-time checks beside them, from \<open>core/scalar-emission/src\<close>: the window of root
  snapshots (\<open>root_alignment.rs\<close>), the longevity bonus (\<open>longevity.rs\<close>), two ways to compute a Gini coefficient and the
  boost made from it (\<open>equity.rs\<close>, \<open>equity_boost.rs\<close>) and the assertions of \<open>formal.rs\<close>.  A division by zero panics in
  Rust; a function in which one can happen returns an option, with \<open>None\<close> for the panic.
\<close>

section \<open>Root alignment\<close>

definition ALIGNMENT_WINDOW_SIZE :: nat where
  "ALIGNMENT_WINDOW_SIZE = 10"

definition ALIGNMENT_FP_BASIS :: u64 where
  "ALIGNMENT_FP_BASIS = 1000000"

record root_snapshot =
  sn_node_root :: bytes
  sn_majority_root :: bytes
  sn_seq_num :: u32

definition sn_is_aligned :: "root_snapshot \<Rightarrow> bool" where
  "sn_is_aligned s \<longleftrightarrow> sn_node_root s = sn_majority_root s"

record root_alignment_buffer =
  rb_snapshots :: "root_snapshot option list"
  rb_next_idx :: nat
  rb_total_inserted :: nat

definition rb_new :: root_alignment_buffer where
  "rb_new = \<lparr>rb_snapshots = replicate ALIGNMENT_WINDOW_SIZE None, rb_next_idx = 0, rb_total_inserted = 0\<rparr>"

definition rb_push :: "root_snapshot \<Rightarrow> root_alignment_buffer \<Rightarrow> root_alignment_buffer" where
  "rb_push s b =
     \<lparr>rb_snapshots = (rb_snapshots b)[rb_next_idx b := Some s],
      rb_next_idx = (rb_next_idx b + 1) mod ALIGNMENT_WINDOW_SIZE,
      rb_total_inserted = rb_total_inserted b + 1\<rparr>"

definition rb_count :: "root_alignment_buffer \<Rightarrow> nat" where
  "rb_count b = length (filter (\<lambda>s. s \<noteq> None) (rb_snapshots b))"

definition matched_count :: "root_alignment_buffer \<Rightarrow> nat" where
  "matched_count b = length (filter sn_is_aligned (List.map_filter (\<lambda>s. s) (rb_snapshots b)))"

definition alignment_score_fp :: "root_alignment_buffer \<Rightarrow> u64" where
  "alignment_score_fp b =
     (let total_snapshots = of_nat (rb_count b) :: u64
      in if total_snapshots = 0 then 0
         else unwrap_or (checked_div (saturating_mul (of_nat (matched_count b)) ALIGNMENT_FP_BASIS) total_snapshots) 0)"

definition rb_latest :: "root_alignment_buffer \<Rightarrow> root_snapshot option" where
  "rb_latest b = rb_snapshots b ! (if rb_next_idx b = 0 then ALIGNMENT_WINDOW_SIZE - 1 else rb_next_idx b - 1)"

definition rb_is_full :: "root_alignment_buffer \<Rightarrow> bool" where
  "rb_is_full b \<longleftrightarrow> rb_count b = ALIGNMENT_WINDOW_SIZE"

text \<open>The counts are a \<open>HashMap\<close>; \<open>iter\<close> is the order in which its entries are visited.\<close>

definition count_roots :: "(bytes \<times> bytes) list \<Rightarrow> (bytes \<times> nat) list" where
  "count_roots peer_roots =
     fold (\<lambda>(_, root) counts. AList.update root (unwrap_or (map_of counts root) 0 + 1) counts) peer_roots []"

definition compute_majority_root :: "((bytes \<times> nat) list \<Rightarrow> (bytes \<times> nat) list) \<Rightarrow> (bytes \<times> bytes) list \<Rightarrow> bytes option" where
  "compute_majority_root iter peer_roots =
     (if peer_roots = [] then None
      else
        let threshold = length peer_roots div 2 + 1
        in map_option fst (List.find (\<lambda>e. snd e \<ge> threshold) (iter (count_roots peer_roots))))"

section \<open>Longevity\<close>

definition LONGEVITY_BASIS :: u64 where
  "LONGEVITY_BASIS = 1000000"

definition LONGEVITY_GAIN_PER_EPOCH_FP :: u64 where
  "LONGEVITY_GAIN_PER_EPOCH_FP = 1000"

definition LONGEVITY_DECAY_PER_EPOCH_FP :: u64 where
  "LONGEVITY_DECAY_PER_EPOCH_FP = 4000"

definition LONGEVITY_CAP_FP :: u64 where
  "LONGEVITY_CAP_FP = 500000"

definition update_longevity_boost :: "u64 \<Rightarrow> bool \<Rightarrow> u64" where
  "update_longevity_boost current_boost_fp participated =
     (if participated then min (current_boost_fp + LONGEVITY_GAIN_PER_EPOCH_FP) LONGEVITY_CAP_FP
      else saturating_sub current_boost_fp LONGEVITY_DECAY_PER_EPOCH_FP)"

definition compute_longevity_boost :: "u64 \<Rightarrow> u64 \<Rightarrow> u64" where
  "compute_longevity_boost epochs_participated epochs_absent =
     (let after_gain = min (epochs_participated * LONGEVITY_GAIN_PER_EPOCH_FP) LONGEVITY_CAP_FP
      in saturating_sub after_gain (epochs_absent * LONGEVITY_DECAY_PER_EPOCH_FP))"

record longevity_result =
  lr_base_reward :: u64
  lr_longevity_bonus :: u64
  lr_remaining_fee_pool :: u64

definition apply_longevity_bonus :: "u64 \<Rightarrow> u64 \<Rightarrow> u64 \<Rightarrow> longevity_result" where
  "apply_longevity_bonus base_reward fee_pool longevity_boost_fp =
     (let capped_boost = min longevity_boost_fp LONGEVITY_CAP_FP;
          target_bonus = ucast (unwrap_or (checked_div
            (saturating_mul (ucast base_reward :: u128) (ucast capped_boost)) (ucast LONGEVITY_BASIS)) 0) :: u64;
          actual_bonus = min target_bonus fee_pool
      in \<lparr>lr_base_reward = base_reward, lr_longevity_bonus = actual_bonus,
          lr_remaining_fee_pool = saturating_sub fee_pool actual_bonus\<rparr>)"

section \<open>Equity\<close>

definition EQUITY_BASIS :: u64 where
  "EQUITY_BASIS = 1000000"

definition equity_compute_gini :: "u64 list \<Rightarrow> u64 option" where
  "equity_compute_gini distributions =
     (if distributions = [] then Some 0
      else
        let dists = sort distributions;
            n = of_nat (length dists) :: u64;
            sum_of_absolute_differences = sum_list (map (\<lambda>x. sum_list (map (abs_diff x) dists)) dists);
            total_sum = sum_list dists
        in if total_sum = 0 then Some 0
           else checked_div (sum_of_absolute_differences * EQUITY_BASIS) (2 * n * total_sum))"

definition equity_compute_boost :: "u64 \<Rightarrow> bool \<Rightarrow> u64" where
  "equity_compute_boost uptime_rank_percentile is_sybil =
     (if is_sybil then EQUITY_BASIS
      else
        let half = EQUITY_BASIS div 2;
            bonus = (if uptime_rank_percentile > half then saturating_sub uptime_rank_percentile half div 2 else 0)
        in EQUITY_BASIS + bonus)"

text \<open>\<open>enumerate().map(...).sum()\<close> of the sorted list.\<close>

definition weighted_sum :: "u64 list \<Rightarrow> u64" where
  "weighted_sum xs = sum_list (map (\<lambda>(i, x). (of_nat i + 1) * x) (enumerate 0 xs))"

definition boost_compute_gini :: "u64 list \<Rightarrow> u64 option" where
  "boost_compute_gini rewards =
     (if rewards = [] then Some 0
      else
        let n = of_nat (length rewards) :: u64;
            sorted_rewards = sort rewards;
            sum_total = sum_list sorted_rewards
        in if sum_total = 0 then Some 0
           else
             let numerator = 2 * weighted_sum sorted_rewards * 1000000
             in case checked_div numerator (n * sum_total) of
                  None \<Rightarrow> None
                | Some term1 \<Rightarrow> (case checked_div ((n + 1) * 1000000) n of
                    None \<Rightarrow> None
                  | Some term2 \<Rightarrow> Some (if term1 > term2 then saturating_sub term1 term2 else 0)))"

definition compute_uptime_rank_percentile :: "u64 \<Rightarrow> u64 list \<Rightarrow> u64" where
  "compute_uptime_rank_percentile node_weight all_weights =
     (if all_weights = [] then 0
      else of_nat (length (filter (\<lambda>w. w \<le> node_weight) all_weights)) * 1000000 div of_nat (length all_weights))"

definition boost_compute_boost :: "u64 \<Rightarrow> u64 \<Rightarrow> u64" where
  "boost_compute_boost gini_coefficient uptime_rank_percentile =
     (let half = 500000;
          ur_above_half = (if uptime_rank_percentile > half then saturating_sub uptime_rank_percentile half else 0);
          boost_component = gini_coefficient * ur_above_half * 2 div 1000000
      in 1000000 + boost_component)"

section \<open>Run-time assertions\<close>

definition FORMAL_MAX_RELEASE :: u64 where
  "FORMAL_MAX_RELEASE = E0_SSCL div 10"

definition FORMAL_MAX_EPOCHS :: u64 where
  "FORMAL_MAX_EPOCHS = 12"

record deferred_pool_state =
  ds_balance_sscl :: u64
  ds_total_residual_sscl :: u64
  ds_total_released_sscl :: u64
  ds_epochs_since_defer :: u64

definition ds_new :: deferred_pool_state where
  "ds_new = \<lparr>ds_balance_sscl = 0, ds_total_residual_sscl = 0, ds_total_released_sscl = 0, ds_epochs_since_defer = 0\<rparr>"

datatype deferred_pool_violation =
    NegativeBalance | ExceedsSupplyCap u64 u64 | ExceedsMaxRelease u64 u64 | ExceedsMaxDeferEpochs u64 u64
  | ConservationViolation u64 u64

definition assert_deferred_pool_invariants :: "deferred_pool_state \<Rightarrow> u64 \<Rightarrow> deferred_pool_violation + unit" where
  "assert_deferred_pool_invariants s release_this_epoch =
     (if ds_balance_sscl s > S_E_SSCL then Inl (ExceedsSupplyCap (ds_balance_sscl s) S_E_SSCL)
      else if release_this_epoch > FORMAL_MAX_RELEASE then Inl (ExceedsMaxRelease release_this_epoch FORMAL_MAX_RELEASE)
      else if ds_epochs_since_defer s > FORMAL_MAX_EPOCHS then Inl (ExceedsMaxDeferEpochs (ds_epochs_since_defer s) FORMAL_MAX_EPOCHS)
      else if ds_total_released_sscl s > ds_total_residual_sscl s
        then Inl (ConservationViolation (ds_total_released_sscl s) (ds_total_residual_sscl s))
      else Inr ())"

record supply_cap_violation =
  sv_total_minted_sscl :: u64
  sv_cap_sscl :: u64
  sv_context :: string

definition assert_inv_supply :: "u64 \<Rightarrow> string \<Rightarrow> supply_cap_violation + unit" where
  "assert_inv_supply total_minted_sscl ctxt =
     (if total_minted_sscl > S_E_SSCL
      then Inl \<lparr>sv_total_minted_sscl = total_minted_sscl, sv_cap_sscl = S_E_SSCL, sv_context = ctxt\<rparr> else Inr ())"

record reward_budget_violation =
  bv_sum_rewards_sscl :: u64
  bv_e_active_sscl :: u64
  bv_epoch_id :: u64

definition assert_inv_reward :: "u64 \<Rightarrow> u64 \<Rightarrow> u64 \<Rightarrow> reward_budget_violation + unit" where
  "assert_inv_reward sum_rewards_sscl e_active_sscl epoch_id =
     (if sum_rewards_sscl > e_active_sscl
      then Inl \<lparr>bv_sum_rewards_sscl = sum_rewards_sscl, bv_e_active_sscl = e_active_sscl, bv_epoch_id = epoch_id\<rparr> else Inr ())"

section \<open>The window\<close>

definition ring :: "root_alignment_buffer \<Rightarrow> root_snapshot option list" where
  "ring b = drop (rb_next_idx b) (rb_snapshots b) @ take (rb_next_idx b) (rb_snapshots b)"

definition rb_wf :: "root_alignment_buffer \<Rightarrow> bool" where
  "rb_wf b \<longleftrightarrow> length (rb_snapshots b) = ALIGNMENT_WINDOW_SIZE \<and> rb_next_idx b < ALIGNMENT_WINDOW_SIZE"

lemma ring_update:
  assumes "i < length s"
  shows "drop (Suc i mod length s) (s[i := v]) @ take (Suc i mod length s) (s[i := v]) = tl (drop i s @ take i s) @ [v]"
proof (cases "Suc i = length s")
  case True
  then have "s[i := v] = take i s @ [v]" by (simp add: upd_conv_take_nth_drop assms)
  moreover have "drop i s = [s ! i]" using True assms by (simp add: Cons_nth_drop_Suc [symmetric])
  ultimately show ?thesis using True by simp
next
  case False
  then show ?thesis using assms by (simp add: mod_less Cons_nth_drop_Suc [symmetric] take_Suc_conv_app_nth)
qed

lemma ring_push: "rb_wf b \<Longrightarrow> rb_wf (rb_push s b) \<and> ring (rb_push s b) = tl (ring b) @ [Some s]"
  using ring_update [of "rb_next_idx b" "rb_snapshots b" "Some s"]
  by (simp add: rb_wf_def rb_push_def ring_def ALIGNMENT_WINDOW_SIZE_def)

lemma tl_drop_snoc: "n < length l \<Longrightarrow> tl (drop n l) @ [y] = drop (Suc n) (l @ [y])"
  by (simp add: drop_Suc tl_drop)

lemma ring_fold:
  "rb_wf (fold rb_push xs rb_new)
   \<and> ring (fold rb_push xs rb_new) = replicate (10 - length xs) None @ map Some (drop (length xs - 10) xs)"
proof -
  have "rb_wf (fold rb_push xs rb_new) \<and> ring (fold rb_push xs rb_new) = drop (length xs) (replicate 10 None @ map Some xs)"
  proof (induction xs rule: rev_induct)
    case Nil
    show ?case by (simp add: rb_new_def rb_wf_def ring_def ALIGNMENT_WINDOW_SIZE_def)
  next
    case (snoc x xs)
    then show ?case
      using ring_push [of "fold rb_push xs rb_new" x] tl_drop_snoc [of "length xs" "replicate 10 None @ map Some xs" "Some x"]
      by (simp del: drop_append replicate_Suc)
  qed
  then show ?thesis by (simp add: drop_map)
qed

lemma window_counts:
  assumes "rb_wf b"
  shows "rb_count b = length (filter (\<lambda>s. s \<noteq> None) (ring b))"
    and "matched_count b = length (filter sn_is_aligned (List.map_filter (\<lambda>s. s) (ring b)))"
    and "rb_latest b = last (ring b)"
proof -
  let ?i = "rb_next_idx b" and ?s = "rb_snapshots b"
  have s: "?s = take ?i ?s @ drop ?i ?s" by simp
  show "rb_count b = length (filter (\<lambda>s. s \<noteq> None) (ring b))"
    unfolding rb_count_def ring_def by (subst s) (simp only: filter_append length_append)
  have m: "List.map_filter f (xs @ ys) = List.map_filter f xs @ List.map_filter f ys" for f :: "root_snapshot option \<Rightarrow> root_snapshot option" and xs ys
    by (simp add: List.map_filter_def)
  show "matched_count b = length (filter sn_is_aligned (List.map_filter (\<lambda>s. s) (ring b)))"
    unfolding matched_count_def ring_def by (subst s) (simp only: m filter_append length_append)
  show "rb_latest b = last (ring b)"
  proof (cases "?i = 0")
    case True
    then have "?s \<noteq> []" using assms by (auto simp: rb_wf_def ALIGNMENT_WINDOW_SIZE_def)
    then show ?thesis using True assms by (simp add: rb_latest_def ring_def rb_wf_def ALIGNMENT_WINDOW_SIZE_def last_conv_nth)
  next
    case False
    then show ?thesis using assms by (auto simp: rb_latest_def ring_def rb_wf_def ALIGNMENT_WINDOW_SIZE_def last_conv_nth nth_append)
  qed
qed

text \<open>C30. The ring buffer is the window of the last ten snapshots: after any sequence of snapshots its count, its matches
  and its latest entry are those of the last ten of the sequence, and the score is their share of matches, in parts
  per million rounded down.\<close>

theorem alignment_buffer_is_window:
  "let w = drop (length xs - 10) xs; b = fold rb_push xs rb_new
   in rb_count b = length w \<and> matched_count b = length (filter sn_is_aligned w) \<and> rb_is_full b = (10 \<le> length xs)
    \<and> rb_latest b = (if xs = [] then None else Some (last xs))
    \<and> unat (alignment_score_fp b) = (if xs = [] then 0 else length (filter sn_is_aligned w) * 1000000 div length w)"
proof -
  let ?w = "drop (length xs - 10) xs" and ?b = "fold rb_push xs rb_new"
  have wf: "rb_wf ?b" and r: "ring ?b = replicate (10 - length xs) None @ map Some ?w" using ring_fold [of xs] by auto
  have c: "rb_count ?b = length ?w" by (simp add: window_counts(1) [OF wf] r filter_map o_def)
  have m: "matched_count ?b = length (filter sn_is_aligned ?w)"
    by (simp add: window_counts(2) [OF wf] r List.map_filter_def filter_map o_def)
  have l: "rb_latest ?b = (if xs = [] then None else Some (last xs))"
  proof (cases "xs = []")
    case False
    then have "length xs - 10 < length xs" by simp
    then have "last ?w = last xs" "?w \<noteq> []" by (simp_all add: last_drop)
    then have "last (map Some ?w) = Some (last xs)" "map Some ?w \<noteq> []" by (simp_all add: last_map del: drop_eq_Nil)
    then show ?thesis using False by (simp only: window_counts(3) [OF wf] r last_append if_False)
  qed (simp add: rb_latest_def rb_new_def ALIGNMENT_WINDOW_SIZE_def)
  have le: "length (filter sn_is_aligned ?w) \<le> 10" "length ?w \<le> 10" using length_filter_le [of sn_is_aligned ?w] by auto
  have "length ?w = min 10 (length xs)" by simp
  then have z: "length ?w = 0 \<longleftrightarrow> xs = []" by (simp only:) (auto simp: min_def)
  have "unat (alignment_score_fp ?b) = (if xs = [] then 0 else length (filter sn_is_aligned ?w) * 1000000 div length ?w)"
  proof (cases "xs = []")
    case False
    have "unat (of_nat (length ?w) :: u64) = length ?w" "unat (of_nat (length (filter sn_is_aligned ?w)) :: u64) = length (filter sn_is_aligned ?w)"
      using le by (simp_all add: unat_of_nat_small del: length_drop)
    then show ?thesis using False le z
      by (auto simp: alignment_score_fp_def c m Let_def checked_div_def unat_saturating_mul unat_div_word ALIGNMENT_FP_BASIS_def unat_eq_0 simp del: length_drop)
  qed (use c in \<open>simp add: alignment_score_fp_def\<close>)
  then show ?thesis using c m l by (simp add: rb_is_full_def ALIGNMENT_WINDOW_SIZE_def Let_def) linarith
qed

lemma count_roots_spec:
  "unique_keys (count_roots prs) \<and> (\<forall>r. unwrap_or (map_of (count_roots prs) r) 0 = count_list (map snd prs) r)
   \<and> fst ` set (count_roots prs) = snd ` set prs"
proof (induction prs rule: rev_induct)
  case Nil
  show ?case by (simp add: count_roots_def)
next
  case (snoc p prs)
  obtain k r where p: "p = (k, r)" by (cases p)
  have step: "count_roots (prs @ [p]) = AList.update r (unwrap_or (map_of (count_roots prs) r) 0 + 1) (count_roots prs)"
    by (simp add: count_roots_def p)
  show ?case using snoc unfolding step by (auto simp: p update_conv')
qed

lemma count_roots_entry:
  assumes "(r, c) \<in> set (count_roots prs)"
  shows "c = count_list (map snd prs) r"
  using count_roots_spec [of prs] assms by (metis map_of_is_SomeI unique_keys_def unwrap_or_simps(1))

lemma majority_unique:
  assumes "length xs < 2 * count_list xs a" "length xs < 2 * count_list xs b"
  shows "a = b"
proof (rule ccontr)
  assume "a \<noteq> b"
  then have "count_list xs a + count_list xs b \<le> length xs" by (induction xs) auto
  then show False using assms by simp
qed

text \<open>The majority root is the root more than half of the peers announce and does not depend on the order in which
  the hash map is visited; with half or less for every root there is none.\<close>

theorem majority_root_iff:
  assumes "iteration_order iter"
  shows "(compute_majority_root iter prs = Some r) = (length prs < 2 * count_list (map snd prs) r)"
proof -
  have half: "length prs div 2 + 1 \<le> c \<longleftrightarrow> length prs < 2 * c" for c :: nat by presburger
  let ?find = "List.find (\<lambda>e. snd e \<ge> length prs div 2 + 1) (iter (count_roots prs))"
  have it: "set (iter (count_roots prs)) = set (count_roots prs)" by (rule iteration_order_set [OF assms])
  have "?find = None" if "prs = []" using it that by (simp add: count_roots_def)
  then have mr: "compute_majority_root iter prs = map_option fst ?find" by (auto simp: compute_majority_root_def Let_def)
  have sound: "length prs < 2 * count_list (map snd prs) (fst e)" if "?find = Some e" for e
  proof -
    have "e \<in> set (count_roots prs)" "length prs div 2 + 1 \<le> snd e"
      using that it by (auto simp: find_Some_iff)
    then show ?thesis using count_roots_entry [of "fst e" "snd e"] half by simp
  qed
  have complete: "?find \<noteq> None" if "length prs < 2 * count_list (map snd prs) r"
  proof -
    have "count_list (map snd prs) r \<noteq> 0" using that by auto
    then have "r \<in> snd ` set prs" by (metis count_list_0_iff set_map)
    then obtain c where c: "(r, c) \<in> set (count_roots prs)" using count_roots_spec [of prs] by (metis (no_types, lifting) imageE prod.collapse)
    then have "length prs div 2 + 1 \<le> snd (r, c)" using that count_roots_entry [OF c] half by simp
    then show ?thesis using c it unfolding find_None_iff by blast
  qed
  show ?thesis
  proof
    assume "compute_majority_root iter prs = Some r"
    then obtain e where "?find = Some e" "fst e = r" unfolding mr by blast
    then show "length prs < 2 * count_list (map snd prs) r" using sound by blast
  next
    assume r: "length prs < 2 * count_list (map snd prs) r"
    then obtain e where e: "?find = Some e" using complete by blast
    have "fst e = r" using majority_unique [of "map snd prs" "fst e" r] sound [OF e] r by simp
    then show "compute_majority_root iter prs = Some r" unfolding mr e by simp
  qed
qed

theorem majority_root_iff_witness: "compute_majority_root (\<lambda>m. m) [([1], [7]), ([2], [8]), ([3], [7])] = Some [7]"
  using majority_root_iff [of "\<lambda>m. m" "[([1], [7]), ([2], [8]), ([3], [7])]" "[7]"] by simp

section \<open>Longevity\<close>

text \<open>The rule applied epoch by epoch.\<close>

primrec longevity_after :: "bool list \<Rightarrow> u64 \<Rightarrow> u64" where
  "longevity_after [] b = b"
| "longevity_after (p # ps) b = longevity_after ps (update_longevity_boost b p)"

lemma longevity_after_append [simp]: "longevity_after (ps @ qs) b = longevity_after qs (longevity_after ps b)"
  by (induction ps arbitrary: b) simp_all

lemma unat_update_longevity:
  "unat b \<le> 500000 \<Longrightarrow> unat (update_longevity_boost b p) = (if p then min (unat b + 1000) 500000 else unat b - 4000)"
  by (simp add: update_longevity_boost_def LONGEVITY_GAIN_PER_EPOCH_FP_def LONGEVITY_CAP_FP_def LONGEVITY_DECAY_PER_EPOCH_FP_def
      unat_min_word unat_saturating_sub unat_add_no_overflow)

lemma longevity_within_cap: "unat b \<le> 500000 \<Longrightarrow> unat (longevity_after ps b) \<le> 500000"
proof (induction ps arbitrary: b)
  case (Cons p ps)
  have "unat (update_longevity_boost b p) \<le> 500000" using Cons.prems by (auto simp: unat_update_longevity)
  then show ?case using Cons.IH by simp
qed simp

lemma longevity_lower:
  "min (count_list ps True * 1000) 500000 - count_list ps False * 4000 \<le> unat (longevity_after ps 0)"
proof (induction ps rule: rev_induct)
  case (snoc p ps)
  then show ?case using longevity_within_cap [of 0 ps] by (cases p) (simp_all add: unat_update_longevity, linarith+)
qed simp

lemma unat_compute_longevity:
  assumes "unat p * 1000 < 2 ^ 64" "unat a * 4000 < 2 ^ 64"
  shows "unat (compute_longevity_boost p a) = min (unat p * 1000) 500000 - unat a * 4000"
  using assms by (simp add: compute_longevity_boost_def LONGEVITY_GAIN_PER_EPOCH_FP_def LONGEVITY_CAP_FP_def
      LONGEVITY_DECAY_PER_EPOCH_FP_def Let_def unat_min_word unat_saturating_sub unat_mult_no_overflow)

lemma longevity_gains: "unat (longevity_after (replicate n True) 0) = min (n * 1000) 500000"
proof (induction n)
  case (Suc n)
  have "longevity_after (replicate (Suc n) True) 0 = update_longevity_boost (longevity_after (replicate n True) 0) True"
    by (simp add: replicate_append_same [symmetric] del: replicate.simps add: replicate_Suc)
  then show ?case using Suc by (simp add: unat_update_longevity)
qed simp

lemma longevity_losses: "unat b \<le> 500000 \<Longrightarrow> unat (longevity_after (replicate n False) b) = unat b - n * 4000"
  by (induction n arbitrary: b) (simp_all add: unat_update_longevity)

text \<open>The closed formula for the longevity boost is exact for epochs of participation followed by epochs of absence,
  and never above the value the rule gives for the same epochs in another order; that value never leaves its cap.\<close>

theorem longevity_formula:
  assumes "length ps * 4000 < 2 ^ 64"
  shows "compute_longevity_boost (of_nat (count_list ps True)) (of_nat (count_list ps False)) \<le> longevity_after ps 0
    \<and> compute_longevity_boost (of_nat (count_list ps True)) (of_nat (count_list ps False))
      = longevity_after (replicate (count_list ps True) True @ replicate (count_list ps False) False) 0
    \<and> longevity_after ps 0 \<le> LONGEVITY_CAP_FP"
proof -
  let ?p = "count_list ps True" and ?a = "count_list ps False"
  have "?p \<le> length ps" "?a \<le> length ps" by (rule count_le_length)+
  then have "unat (compute_longevity_boost (of_nat ?p) (of_nat ?a)) = min (?p * 1000) 500000 - ?a * 4000"
    using assms by (subst unat_compute_longevity) (simp_all add: unat_of_nat_small)
  then show ?thesis
    using longevity_lower [of ps] longevity_within_cap [of 0 ps] longevity_losses [of "longevity_after (replicate ?p True) 0" ?a]
    by (simp add: word_le_nat_alt word_unat_eq_iff longevity_gains LONGEVITY_CAP_FP_def)
qed

theorem longevity_formula_witness:
  "compute_longevity_boost (of_nat (count_list [False, True, True, True, True, True] True)) (of_nat (count_list [False, True, True, True, True, True] False))
   \<le> longevity_after [False, True, True, True, True, True] 0"
  by (rule longevity_formula [of "[False, True, True, True, True, True]", THEN conjunct1]) simp

text \<open>The longevity bonus mints nothing: bonus and remaining pool add up to the fee pool, and the bonus is the boost's
  share of the reward, at most half of it, or the whole pool if that is less.\<close>

theorem longevity_bonus_from_pool:
  "let r = apply_longevity_bonus base pool boost in
     unat (lr_longevity_bonus r) + unat (lr_remaining_fee_pool r) = unat pool
     \<and> unat (lr_longevity_bonus r) = min (unat base * min (unat boost) 500000 div 1000000) (unat pool)
     \<and> 2 * unat (lr_longevity_bonus r) \<le> unat base"
proof -
  let ?t = "ucast (unwrap_or (checked_div (saturating_mul (ucast base :: u128) (ucast (min boost LONGEVITY_CAP_FP))) (ucast LONGEVITY_BASIS)) 0) :: u64"
  have b: "unat base < 2 ^ 64" using u64_bound [of base] by simp
  have le: "unat base * min (unat boost) 500000 \<le> unat base * 500000" by simp
  have "unat (saturating_mul (ucast base :: u128) (ucast (min boost LONGEVITY_CAP_FP))) = unat base * min (unat boost) 500000"
    using order_trans [OF le, of "340282366920938463463374607431768211455"] b
    by (simp only: unat_saturating_mul unat_u64_u128 unat_min_word LONGEVITY_CAP_FP_def) (simp add: min_absorb1)
  moreover have "unat base * min (unat boost) 500000 div 1000000 \<le> unat base div 2"
    using div_le_mono [OF le, of 1000000] by simp
  ultimately have "unat ?t = unat base * min (unat boost) 500000 div 1000000 \<and> 2 * unat ?t \<le> unat base"
    using b by (simp add: checked_div_def LONGEVITY_BASIS_def unat_u128_u64 unat_div_word)
  then show ?thesis by (auto simp: apply_longevity_bonus_def Let_def unat_min_word unat_saturating_sub)
qed

section \<open>The two Gini coefficients\<close>

text \<open>Exact sums over the integers: the position-weighted sum and the sum of all pairwise distances.\<close>

definition weighted_int :: "int list \<Rightarrow> int" where
  "weighted_int xs = sum_list (map (\<lambda>(i, x). (int i + 1) * x) (enumerate 0 xs))"

definition distances_int :: "int list \<Rightarrow> int" where
  "distances_int xs = sum_list (map (\<lambda>x. sum_list (map (\<lambda>y. \<bar>x - y\<bar>) xs)) xs)"

lemma distances_to_max: "\<forall>y\<in>set xs. y \<le> x \<Longrightarrow> sum_list (map (\<lambda>y. \<bar>x - y\<bar>) xs) = int (length xs) * x - sum_list xs"
  by (induction xs) (auto simp: algebra_simps)

lemma distances_formula: "sorted xs \<Longrightarrow> distances_int xs = 4 * weighted_int xs - 2 * (int (length xs) + 1) * sum_list xs"
proof (induction xs rule: rev_induct)
  case Nil
  show ?case by (simp add: distances_int_def weighted_int_def)
next
  case (snoc x xs)
  have s: "sorted xs" "\<forall>y\<in>set xs. y \<le> x" using snoc.prems by (auto simp: sorted_append)
  have sym: "sum_list (map (\<lambda>y. \<bar>y - x\<bar>) xs) = sum_list (map (\<lambda>y. \<bar>x - y\<bar>) xs)" by (simp add: abs_minus_commute)
  have "distances_int (xs @ [x]) = distances_int xs + 2 * (int (length xs) * x - sum_list xs)"
    by (simp add: distances_int_def sum_list_addf sym distances_to_max [OF s(2)])
  moreover have "weighted_int (xs @ [x]) = weighted_int xs + (int (length xs) + 1) * x"
    by (simp add: weighted_int_def enumerate_append_eq)
  ultimately show ?case using snoc.IH [OF s(1)] by (simp add: algebra_simps)
qed

lemma unat_abs_diff: "unat (abs_diff a b) = nat \<bar>int (unat a) - int (unat b)\<bar>"
  by (auto simp: abs_diff_def word_less_nat_alt unat_sub_if' simp del: of_nat_unat)

lemma weighted_int_bound: "\<forall>x\<in>set xs. 0 \<le> x \<Longrightarrow> 0 \<le> weighted_int xs \<and> weighted_int xs \<le> int (length xs) * sum_list xs"
proof (induction xs rule: rev_induct)
  case (snoc x xs)
  then have "0 \<le> sum_list xs" "0 \<le> x" "0 \<le> weighted_int xs" "weighted_int xs \<le> int (length xs) * sum_list xs"
    by (auto intro: sum_list_nonneg)
  then show ?case by (simp add: weighted_int_def enumerate_append_eq algebra_simps)
qed (simp add: weighted_int_def)

lemma div_of_difference:
  assumes "(v::nat) \<le> u" "0 < d"
  shows "(u - v) div d \<le> u div d - v div d \<and> u div d - v div d \<le> (u - v) div d + 1"
proof -
  have "(v + (u - v)) div d = v div d + (u - v) div d + (v mod d + (u - v) mod d) div d" by (rule div_add1_eq)
  moreover have "(v mod d + (u - v) mod d) div d \<le> 1"
    using mod_less_divisor [OF assms(2), of v] mod_less_divisor [OF assms(2), of "u - v"]
      less_mult_imp_div_less [of "v mod d + (u - v) mod d" 2 d] by linarith
  ultimately show ?thesis using assms(1) by simp
qed

lemma int_sum_list_map: "int (sum_list (map g xs)) = sum_list (map (\<lambda>x. int (g x)) xs)"
  by (induction xs) simp_all

lemma unat_sum_list_map:
  fixes f :: "'x \<Rightarrow> u64"
  assumes "\<And>x. x \<in> set xs \<Longrightarrow> unat (f x) = g x" "sum_list (map g xs) < 2 ^ 64"
  shows "unat (sum_list (map f xs)) = sum_list (map g xs)"
proof -
  have m: "map unat (map f xs) = map g xs" using assms(1) by simp
  show ?thesis using unat_sum_list_no_overflow [of "map f xs"] assms(2) unfolding m by simp
qed

lemma sorted_int_unat: "sorted (ds :: u64 list) \<Longrightarrow> sorted (map (\<lambda>d. int (unat d)) ds)"
  by (induction ds) (auto simp: word_le_nat_alt simp del: of_nat_unat)

text \<open>Nothing overflows: the word computations are the exact sums.\<close>

lemma gini_sums_exact:
  fixes ds :: "u64 list"
  assumes "sorted ds" and pos: "0 < sum_list (map unat ds)" and small: "2000000 * (length ds * sum_list (map unat ds)) < 2 ^ 64"
  defines "xs \<equiv> map (\<lambda>d. int (unat d)) ds"
  shows "unat (sum_list ds) = sum_list (map unat ds)"
    and "int (unat (weighted_sum ds)) = weighted_int xs"
    and "int (unat (sum_list (map (\<lambda>x. sum_list (map (abs_diff x) ds)) ds))) = distances_int xs"
proof -
  let ?T = "sum_list (map unat ds)" and ?n = "length ds"
  have nT: "?n * ?T < 2 ^ 44" using small by simp
  have "?n \<le> ?n * ?T" using pos by (simp add: Suc_le_eq)
  from le_less_trans [OF this nT] have n: "?n < 2 ^ 44" .
  have "?T \<le> ?n * ?T" using pos by (cases ds) simp_all
  from le_less_trans [OF this nT] have T: "?T < 2 ^ 44" .
  then show "unat (sum_list ds) = ?T" by (intro unat_sum_list_no_overflow) simp
  have xsT: "sum_list xs = int ?T" "length xs = ?n" by (simp_all add: xs_def int_sum_list_map comp_def)
  have xs: "sorted xs" "\<forall>x\<in>set xs. 0 \<le> x" using sorted_int_unat [OF assms(1)] by (auto simp: xs_def)
  have wb: "weighted_int xs \<le> int (?n * ?T)" using weighted_int_bound [OF xs(2)] xsT by simp
  let ?w = "\<lambda>(i, x). (i + 1) * unat x"
  have W: "int (sum_list (map ?w (enumerate 0 ds))) = weighted_int xs"
    by (simp add: weighted_int_def xs_def int_sum_list_map comp_def case_prod_unfold enumerate_map_upt enumerate_eq_zip zip_map2 algebra_simps del: of_nat_unat)
  have term_eq: "unat ((of_nat i + 1) * x) = (i + 1) * unat x" if "(i, x) \<in> set (enumerate 0 ds)" for i and x :: u64
  proof -
    have i: "i < ?n" "x \<in> set ds" using that by (auto simp: in_set_enumerate_eq)
    have "unat x \<le> ?T" using member_le_sum_list [of "unat x" "map unat ds"] i(2) by simp
    then have "(i + 1) * unat x \<le> ?n * ?T" using i(1) by (intro mult_le_mono) simp_all
    from le_less_trans [OF this nT] have "(i + 1) * unat x < 2 ^ 64" by simp
    moreover have e: "of_nat i + 1 = (of_nat (i + 1) :: u64)" by simp
    have u: "unat (of_nat (i + 1) :: u64) = i + 1" using i(1) n by (intro unat_of_nat_small) simp
    ultimately show ?thesis using unat_mult_no_overflow [of "of_nat (i + 1) :: u64" x] unfolding e u by simp
  qed
  have "int (sum_list (map ?w (enumerate 0 ds))) \<le> int (?n * ?T)" using wb unfolding W .
  then have "sum_list (map ?w (enumerate 0 ds)) \<le> ?n * ?T" by (simp only: of_nat_le_iff)
  from le_less_trans [OF this nT] have "sum_list (map ?w (enumerate 0 ds)) < 2 ^ 64" by simp
  then have "unat (weighted_sum ds) = sum_list (map ?w (enumerate 0 ds))"
    unfolding weighted_sum_def using term_eq by (intro unat_sum_list_map) auto
  then show "int (unat (weighted_sum ds)) = weighted_int xs" using W by simp
  let ?d = "\<lambda>x. sum_list (map (\<lambda>y. unat (abs_diff x y)) ds)"
  have D: "int (sum_list (map ?d ds)) = distances_int xs"
    by (simp add: distances_int_def xs_def int_sum_list_map unat_abs_diff comp_def del: of_nat_unat)
  have "distances_int xs \<le> 2 * int (?n * ?T)"
    using distances_formula [OF xs(1)] wb xsT by (simp add: algebra_simps)
  then have "int (sum_list (map ?d ds)) \<le> int (2 * (?n * ?T))" unfolding D by simp
  then have "sum_list (map ?d ds) \<le> 2 * (?n * ?T)" by (simp only: of_nat_le_iff)
  also have "\<dots> < 2 ^ 64" using nT by simp
  finally have lt: "sum_list (map ?d ds) < 2 ^ 64" .
  have "unat (sum_list (map (abs_diff x) ds)) = ?d x" if "x \<in> set ds" for x
    using lt member_le_sum_list [of "?d x" "map ?d ds"] that by (intro unat_sum_list_map) auto
  then show "int (unat (sum_list (map (\<lambda>x. sum_list (map (abs_diff x) ds)) ds))) = distances_int xs"
    using unat_sum_list_map [of ds "\<lambda>x. sum_list (map (abs_diff x) ds)" ?d] lt D by simp
qed

lemma checked_div_exact:
  assumes "unat (x :: u64) = u" "unat y = d" "0 < d"
  shows "\<exists>q. checked_div x y = Some q \<and> unat q = u div d"
  using assms by (auto simp: checked_div_def unat_div_word)

lemma unat_mult3:
  assumes "unat (x :: u64) * unat y * unat z < 2 ^ 64" "0 < unat z"
  shows "unat (x * y * z) = unat x * unat y * unat z"
proof -
  have "unat x * unat y \<le> unat x * unat y * unat z" using assms(2) by simp
  then have "unat x * unat y < 2 ^ 64" using assms(1) by (rule le_less_trans)
  then have "unat (x * y) = unat x * unat y" by (intro unat_mult_no_overflow) simp
  then show ?thesis using assms(1) by (subst unat_mult_no_overflow) simp_all
qed

lemma equity_gini_value:
  assumes "0 < T" "0 < n" "2000000 * (n * T) < 2 ^ 64" "length rewards = n" "unat (sum_list (sort rewards)) = T" "S \<le> 2 * (n * T)"
    and "unat (sum_list (map (\<lambda>x. sum_list (map (abs_diff x) (sort rewards))) (sort rewards))) = S"
  shows "\<exists>a. equity_compute_gini rewards = Some a \<and> unat a = S * 1000000 div (2 * (n * T))"
proof -
  have "2000000 * n \<le> 2000000 * (n * T)" using assms(1) by (simp add: Suc_le_eq)
  then have small: "2000000 * n < 2 ^ 64" using assms(3) by (rule le_less_trans)
  then have n: "unat (of_nat n :: u64) = n" by (intro unat_of_nat_small) simp
  have "unat (2 * of_nat n * sum_list (sort rewards)) = 2 * n * T"
    using assms(1,3,5) n by (subst unat_mult3) simp_all
  moreover have "S * 1000000 < 2 ^ 64" using assms(3,6) by linarith
  then have "unat (sum_list (map (\<lambda>x. sum_list (map (abs_diff x) (sort rewards))) (sort rewards)) * EQUITY_BASIS) = S * 1000000"
    using assms(7) by (subst unat_mult_no_overflow) (simp_all add: EQUITY_BASIS_def)
  moreover have "sum_list (sort rewards) \<noteq> 0" using assms(1,5) by auto
  ultimately show ?thesis
    using checked_div_exact [of _ "S * 1000000" _ "2 * n * T"] assms(1,2,4)
    by (auto simp: equity_compute_gini_def Let_def mult.assoc)
qed

lemma boost_gini_value:
  assumes "0 < T" "0 < n" "2000000 * (n * T) < 2 ^ 64" "length rewards = n" "unat (sum_list (sort rewards)) = T" "W \<le> n * T"
    and "unat (weighted_sum (sort rewards)) = W"
  shows "\<exists>b. boost_compute_gini rewards = Some b \<and> unat b = 2 * W * 1000000 div (n * T) - (n + 1) * 1000000 div n"
proof -
  have "2000000 * n \<le> 2000000 * (n * T)" using assms(1) by (simp add: Suc_le_eq)
  then have small: "2000000 * n < 2 ^ 64" using assms(3) by (rule le_less_trans)
  then have n: "unat (of_nat n :: u64) = n" by (intro unat_of_nat_small) simp
  have n1: "unat (of_nat n + 1 :: u64) = n + 1" using small n by (simp add: unat_add_no_overflow)
  obtain t1 where t1: "checked_div (2 * weighted_sum (sort rewards) * 1000000) (of_nat n * sum_list (sort rewards)) = Some t1"
      "unat t1 = 2 * W * 1000000 div (n * T)"
    using checked_div_exact [of "2 * weighted_sum (sort rewards) * 1000000" "2 * W * 1000000" "of_nat n * sum_list (sort rewards)" "n * T"]
      unat_mult3 [of 2 "weighted_sum (sort rewards)" 1000000] unat_mult_no_overflow [of "of_nat n :: u64" "sum_list (sort rewards)"] assms n by force
  obtain t2 :: u64 where t2: "checked_div ((of_nat n + 1) * 1000000) (of_nat n) = Some t2" "unat t2 = (n + 1) * 1000000 div n"
    using checked_div_exact [of "(of_nat n + 1) * 1000000" "(n + 1) * 1000000" "of_nat n" n]
      unat_mult_no_overflow [of "of_nat n + 1 :: u64" 1000000] n1 n small assms(2) by force
  have "sum_list (sort rewards) \<noteq> 0" using assms(1,5) by auto
  then show ?thesis using t1 t2 assms(2,4)
    by (auto simp: boost_compute_gini_def Let_def unat_saturating_sub word_less_nat_alt)
qed

text \<open>C29. The two implementations of the Gini coefficient agree up to one part per million: while two million times the
  number of entries times their sum fits in 64 bits, both return, and the second is the first or one more.\<close>

theorem gini_implementations_agree:
  assumes "2000000 * (length rewards * sum_list (map unat rewards)) < 2 ^ 64"
  shows "\<exists>a b. equity_compute_gini rewards = Some a \<and> boost_compute_gini rewards = Some b \<and> unat a \<le> unat b \<and> unat b \<le> unat a + 1"
proof (cases "sum_list (map unat rewards) = 0")
  case True
  have "sum_list (sort rewards) = sum_list rewards" by (metis mset_sort sum_mset_sum_list)
  also have "\<dots> = 0" using True unat_sum_list_no_overflow [of rewards] by (simp add: unat_eq_0 del: sum_list_eq_0_iff)
  finally show ?thesis by (simp add: equity_compute_gini_def boost_compute_gini_def Let_def)
next
  case False
  define ds where "ds = sort rewards"
  define n where "n = length rewards"
  define T where "T = sum_list (map unat rewards)"
  define W where "W = unat (weighted_sum ds)"
  define S where "S = unat (sum_list (map (\<lambda>x. sum_list (map (abs_diff x) ds)) ds))"
  define xs where "xs = map (\<lambda>d. int (unat d)) ds"
  have srt: "sorted ds" by (simp add: ds_def)
  have len: "length ds = n" by (simp add: ds_def n_def)
  have "mset (map unat ds) = mset (map unat rewards)" by (simp add: ds_def)
  then have T: "sum_list (map unat ds) = T" unfolding T_def by (metis sum_mset_sum_list)
  have pos: "0 < T" "0 < n" using False by (auto simp: T_def n_def simp del: sum_list_eq_0_iff)
  have small: "2000000 * (n * T) < 2 ^ 64" using assms by (simp add: n_def T_def)
  note ex = gini_sums_exact [of ds, unfolded len T, OF srt pos(1) small]
  have srt': "sorted xs" and nn: "\<forall>x\<in>set xs. 0 \<le> x"
    using sorted_int_unat [OF srt] by (auto simp: xs_def)
  have xsT: "sum_list xs = int T" "length xs = n" using T len by (simp_all add: xs_def int_sum_list_map comp_def flip: T)
  have "int S = 4 * int W - 2 * (int n + 1) * int T"
    using distances_formula [OF srt'] ex(2,3) xsT by (simp add: S_def W_def xs_def)
  then have "int (S + 2 * ((n + 1) * T)) = int (4 * W)" by (simp add: algebra_simps)
  then have SW: "S + 2 * ((n + 1) * T) = 4 * W" by (simp only: of_nat_eq_iff)
  have "int W \<le> int n * int T" using weighted_int_bound [OF nn] ex(2) xsT by (simp add: W_def xs_def)
  then have WT: "W \<le> n * T" by (metis of_nat_le_iff of_nat_mult)
  have ST: "S \<le> 2 * (n * T)" using SW WT by (simp add: algebra_simps)
  obtain a where a: "equity_compute_gini rewards = Some a" "unat a = S * 1000000 div (2 * (n * T))"
    using equity_gini_value [OF pos small n_def [symmetric] ex(1) [unfolded ds_def] ST S_def [unfolded ds_def, symmetric]] by blast
  obtain b where b: "boost_compute_gini rewards = Some b" "unat b = 2 * W * 1000000 div (n * T) - (n + 1) * 1000000 div n"
    using boost_gini_value [OF pos small n_def [symmetric] ex(1) [unfolded ds_def] WT W_def [unfolded ds_def, symmetric]] by blast
  have D: "0 < n * T" using pos by simp
  have t2: "(n + 1) * 1000000 div n = (n + 1) * T * 1000000 div (n * T)"
    using pos(1) div_mult_mult2 [of T "(n + 1) * 1000000" n] by (simp add: algebra_simps)
  have le: "(n + 1) * T * 1000000 \<le> 2 * W * 1000000" using SW by simp
  have "S * 1000000 div (2 * (n * T)) = (2 * W * 1000000 - (n + 1) * T * 1000000) div (n * T)"
  proof -
    have "S * 1000000 = 2 * (2 * W * 1000000 - (n + 1) * T * 1000000)" using SW by simp
    then show ?thesis by (simp only: div_mult_mult1)
  qed
  then show ?thesis using a b t2 div_of_difference [OF le D] by simp
qed

theorem gini_implementations_agree_witness:
  "\<exists>a b. equity_compute_gini [1, 3] = Some a \<and> boost_compute_gini [1, 3] = Some b \<and> unat a \<le> unat b \<and> unat b \<le> unat a + 1"
  by (rule gini_implementations_agree) simp

lemma percentile_bound: "length all_weights < 2 ^ 40 \<Longrightarrow> unat (compute_uptime_rank_percentile w all_weights) \<le> 1000000"
proof (cases "all_weights = []")
  case False
  assume small: "length all_weights < 2 ^ 40"
  let ?k = "length (filter (\<lambda>v. v \<le> w) all_weights)" and ?n = "length all_weights"
  have k: "?k \<le> ?n" by simp
  have n: "unat (of_nat ?n :: u64) = ?n" using small by (intro unat_of_nat_small) simp
  have kk: "unat (of_nat ?k :: u64) = ?k" using le_less_trans [OF k small] by (intro unat_of_nat_small) simp
  have "unat (of_nat ?k * 1000000 :: u64) = ?k * 1000000"
    using le_less_trans [OF k small] kk by (subst unat_mult_no_overflow) simp_all
  then have "unat (compute_uptime_rank_percentile w all_weights) = ?k * 1000000 div ?n"
    using False n by (simp add: compute_uptime_rank_percentile_def unat_div_word)
  also have "\<dots> \<le> ?n * 1000000 div ?n" using k by (intro div_le_mono mult_le_mono1)
  finally show ?thesis using False by simp
qed (simp add: compute_uptime_rank_percentile_def)

text \<open>The boost never takes from a node and is bounded: for a percentile computed from the weights, the fixed boost is
  between one and one and a quarter, and exactly one for a node marked as a Sybil; the one made from a Gini
  coefficient of at most one is between one and two.\<close>

theorem equity_boost_bounds:
  assumes "length all_weights < 2 ^ 40" "g \<le> 1000000"
  shows "let ur = compute_uptime_rank_percentile w all_weights in
      1000000 \<le> equity_compute_boost ur sybil \<and> equity_compute_boost ur sybil \<le> 1250000 \<and> equity_compute_boost ur True = 1000000
      \<and> 1000000 \<le> boost_compute_boost g ur \<and> boost_compute_boost g ur \<le> 2000000"
proof -
  define ur where "ur = compute_uptime_rank_percentile w all_weights"
  have ur: "unat ur \<le> 1000000" using percentile_bound [OF assms(1)] by (simp add: ur_def)
  define x where "x = (if ur > 500000 then saturating_sub ur 500000 else 0)"
  have x: "unat x \<le> 500000" using ur by (auto simp: x_def unat_saturating_sub)
  have "unat (1000000 + x div 2) = 1000000 + unat x div 2" using x by (simp add: unat_add_no_overflow unat_div_word)
  moreover have "equity_compute_boost ur sybil = (if sybil then 1000000 else 1000000 + x div 2)"
    by (simp add: equity_compute_boost_def EQUITY_BASIS_def x_def Let_def)
  ultimately have e: "1000000 \<le> equity_compute_boost ur sybil \<and> equity_compute_boost ur sybil \<le> 1250000"
    using div_le_mono [OF x, of 2] by (simp add: word_le_nat_alt)
  have g: "unat g \<le> 1000000" using assms(2) by (simp add: word_le_nat_alt)
  have gx: "unat g * unat x \<le> 1000000 * 500000" using g x by (rule mult_le_mono)
  then have "unat (g * x * 2) = unat g * unat x * 2" by (intro unat_mult3 [of g x 2, simplified]) simp
  then have "unat (1000000 + g * x * 2 div 1000000) = 1000000 + unat g * unat x * 2 div 1000000"
    using gx by (simp add: unat_add_no_overflow unat_div_word)
  moreover have "boost_compute_boost g ur = 1000000 + g * x * 2 div 1000000" by (simp add: boost_compute_boost_def x_def Let_def)
  moreover have "unat g * unat x * 2 div 1000000 \<le> 1000000" using gx by simp
  ultimately have "1000000 \<le> boost_compute_boost g ur \<and> boost_compute_boost g ur \<le> 2000000" by (simp add: word_le_nat_alt)
  then show ?thesis using e unfolding ur_def Let_def by (simp add: equity_compute_boost_def EQUITY_BASIS_def)
qed

theorem equity_boost_bounds_witness: "boost_compute_boost 1000000 (compute_uptime_rank_percentile 5 [1, 5, 9]) \<le> 2000000"
  using equity_boost_bounds [of "[1, 5, 9]" 1000000 5 False] by (auto simp: Let_def)

section \<open>The assertions on the deferred pool\<close>

text \<open>The state the assertions look at, read off a pool whose deposits and releases are booked.\<close>

definition monitored :: "deferred_emission_pool \<Rightarrow> u64 \<Rightarrow> u64 \<Rightarrow> u64 \<Rightarrow> deferred_pool_state" where
  "monitored p residual released current_epoch =
     \<lparr>ds_balance_sscl = dp_total_sscl p, ds_total_residual_sscl = residual, ds_total_released_sscl = released,
      ds_epochs_since_defer = fold max (map (\<lambda>e. saturating_sub current_epoch (de_deferred_epoch e)) (dp_entries p)) 0\<rparr>"

lemma drain_epochs: "de_deferred_epoch ` set (dp_drain r es) = de_deferred_epoch ` set es"
  by (induction r es rule: dp_drain.induct) (auto simp: image_iff)

lemma fold_max_le: "(\<And>x. x \<in> set xs \<Longrightarrow> f x \<le> c) \<Longrightarrow> a \<le> c \<Longrightarrow> fold max (map f xs) a \<le> (c :: u64)"
  by (induction xs arbitrary: a) auto

lemma release_ages:
  assumes "e \<in> set (dp_entries (fst (dp_release p ep)))"
  shows "saturating_sub ep (de_deferred_epoch e) \<le> 12"
proof -
  have "de_deferred_epoch e \<in> de_deferred_epoch ` set (dp_expire ep (dp_entries p))"
    using assms drain_epochs [of _ "dp_expire ep (dp_entries p)"]
    by (auto simp: dp_release_def Let_def split: if_splits)
  then show ?thesis by (auto simp: dp_expire_def DEFERRED_POOL_MAX_EPOCHS_def)
qed

text \<open>The run-time assertions never fire on the pool of the emission: if what was released and what the pool holds is
  covered by what was deposited, then so it is after a release, and all assertions hold of the state after it.\<close>

theorem release_passes_assertions:
  assumes "dp_wf p" "unat released + pool_sum (dp_entries p) \<le> unat residual"
  shows "let (p', r) = dp_release p ep in
      assert_deferred_pool_invariants (monitored p' residual (released + r) ep) r = Inr ()
      \<and> dp_wf p' \<and> unat (released + r) + pool_sum (dp_entries p') \<le> unat residual"
proof -
  obtain p' r where r: "dp_release p ep = (p', r)" by (cases "dp_release p ep")
  let ?kept = "dp_expire ep (dp_entries p)"
  have spec: "unat r = min (pool_sum ?kept) 1260000000000" "pool_sum (dp_entries p') = pool_sum ?kept - unat r" "dp_wf p'"
    using dp_release_spec [OF assms(1), of ep] r by simp_all
  have "pool_sum ?kept \<le> pool_sum (dp_entries p)" unfolding dp_expire_def by (rule pool_sum_filter_le)
  then have sum: "unat released + unat r + pool_sum (dp_entries p') \<le> unat residual" using spec(1,2) assms(2) by simp
  then have rel: "unat (released + r) = unat released + unat r"
    using u64_bound [of residual] by (intro unat_add_no_overflow) simp
  have "fold max (map (\<lambda>e. saturating_sub ep (de_deferred_epoch e)) (dp_entries p')) 0 \<le> 12"
    using release_ages [of _ p ep] r by (intro fold_max_le) auto
  moreover have "unat (dp_total_sscl p') \<le> 1890000000000000" using spec(3) by (simp add: dp_wf_def)
  moreover have "unat r \<le> 1260000000000" using spec(1) by simp
  ultimately have "assert_deferred_pool_invariants (monitored p' residual (released + r) ep) r = Inr ()"
    using sum rel by (auto simp: assert_deferred_pool_invariants_def monitored_def FORMAL_MAX_RELEASE_def FORMAL_MAX_EPOCHS_def
        word_less_nat_alt word_le_nat_alt unat_div_word)
  then show ?thesis using r rel sum spec(3) by simp
qed

theorem release_passes_assertions_witness:
  "let (p', r) = dp_release dp_new 3 in assert_deferred_pool_invariants (monitored p' 0 (0 + r) 3) r = Inr ()"
  using release_passes_assertions [OF dp_wf_new, of 0 0 3] by (auto simp: dp_new_def split: prod.splits)

end
