(* ===== verification/Peer_Routing.thy ===== *)
theory Peer_Routing
  imports Prelude
begin

text \<open>
  The S/Kademlia routing of \<open>core/scalar-network/src/skademlia.rs\<close>: the XOR metric, buckets and the routing table, the
  lookup on three paths and signed routing messages.  A node id is a list of 32 bytes, compared from the most
  significant byte on, as \<open>Ord\<close> on \<open>[u8; 32]\<close> does.  BLAKE3 and the signature verifier are parameters.
\<close>

section \<open>Node ids\<close>

definition SKADEMLIA_D :: nat where
  "SKADEMLIA_D = 3"

definition SKADEMLIA_K :: nat where
  "SKADEMLIA_K = 20"

definition KEY_BITS :: nat where
  "KEY_BITS = 256"

definition ALPHA :: nat where
  "ALPHA = 3"

definition DOMAIN_NODEID :: bytes where
  "DOMAIN_NODEID = ascii ''scalar_nodeid''"

definition nid_distance :: "bytes \<Rightarrow> bytes \<Rightarrow> bytes" where
  "nid_distance a b = map2 (\<lambda>x y. x XOR y) a b"

text \<open>\<open>u8::leading_zeros\<close>.\<close>

definition leading_zeros_u8 :: "u8 \<Rightarrow> nat" where
  "leading_zeros_u8 b = length (takeWhile Not (map (bit b) (rev [0..<8])))"

fun leading_zeros_from :: "nat \<Rightarrow> bytes \<Rightarrow> nat" where
  "leading_zeros_from i [] = KEY_BITS"
| "leading_zeros_from i (b # bs) = (if b \<noteq> 0 then i * 8 + leading_zeros_u8 b else leading_zeros_from (i + 1) bs)"

definition nid_leading_zeros :: "bytes \<Rightarrow> nat" where
  "nid_leading_zeros d = leading_zeros_from 0 d"

definition bucket_index :: "bytes \<Rightarrow> bytes \<Rightarrow> nat" where
  "bucket_index a b =
     (let lz = nid_leading_zeros (nid_distance a b)
      in if lz \<ge> KEY_BITS then 0 else KEY_BITS - 1 - lz)"

definition random_for_bucket :: "(bytes \<Rightarrow> bytes) \<Rightarrow> bytes \<Rightarrow> nat \<Rightarrow> bytes \<Rightarrow> bytes" where
  "random_for_bucket blake3 local_id bucket seed =
     blake3 (DOMAIN_NODEID @ local_id @ le_bytes 8 (of_nat bucket :: u64) @ seed)"

section \<open>Buckets and the routing table\<close>

record node_info =
  ni_id :: bytes
  ni_pubkey :: bytes
  ni_addr :: string
  ni_last_seen :: u64

type_synonym k_bucket = "node_info list"

text \<open>\<open>peers[pos] = node\<close> at the first position with the id.\<close>

primrec replace_first :: "node_info \<Rightarrow> k_bucket \<Rightarrow> k_bucket" where
  "replace_first node [] = []"
| "replace_first node (p # ps) = (if ni_id p = ni_id node then node # ps else p # replace_first node ps)"

definition kb_insert :: "node_info \<Rightarrow> k_bucket \<Rightarrow> k_bucket" where
  "kb_insert node peers =
     (if list_ex (\<lambda>p. ni_id p = ni_id node) peers then replace_first node peers
      else node # (if length peers \<ge> SKADEMLIA_K then butlast peers else peers))"

definition kb_remove :: "bytes \<Rightarrow> k_bucket \<Rightarrow> k_bucket" where
  "kb_remove k peers = filter (\<lambda>p. ni_id p \<noteq> k) peers"

record routing_table =
  rt_local_id :: bytes
  rt_buckets :: "k_bucket list"

definition rt_new :: "bytes \<Rightarrow> routing_table" where
  "rt_new local_id = \<lparr>rt_local_id = local_id, rt_buckets = replicate KEY_BITS []\<rparr>"

definition rt_insert :: "node_info \<Rightarrow> routing_table \<Rightarrow> routing_table \<times> bool" where
  "rt_insert node t =
     (if ni_id node = rt_local_id t then (t, False)
      else
        let bucket_idx = bucket_index (rt_local_id t) (ni_id node)
        in (t\<lparr>rt_buckets := (rt_buckets t)[bucket_idx := kb_insert node (rt_buckets t ! bucket_idx)]\<rparr>, True))"

definition bucket_index_for :: "routing_table \<Rightarrow> bytes \<Rightarrow> nat option" where
  "bucket_index_for t k = (if k = rt_local_id t then None else Some (bucket_index (rt_local_id t) k))"

definition rt_remove :: "bytes \<Rightarrow> routing_table \<Rightarrow> routing_table" where
  "rt_remove k t =
     (case bucket_index_for t k of
        None \<Rightarrow> t
      | Some bucket_idx \<Rightarrow> t\<lparr>rt_buckets := (rt_buckets t)[bucket_idx := kb_remove k (rt_buckets t ! bucket_idx)]\<rparr>)"

definition rt_all_peers :: "routing_table \<Rightarrow> node_info list" where
  "rt_all_peers t = concat (rt_buckets t)"

definition rt_peer_count :: "routing_table \<Rightarrow> nat" where
  "rt_peer_count t = sum_list (map length (rt_buckets t))"

definition closest_peers :: "routing_table \<Rightarrow> bytes \<Rightarrow> nat \<Rightarrow> node_info list" where
  "closest_peers t target n =
     map snd (take n (sort_key fst (map (\<lambda>p. (nid_distance (ni_id p) target, p)) (concat (rt_buckets t)))))"

section \<open>Lookup on disjoint paths\<close>

record lookup_path =
  lp_path_id :: nat
  lp_queried :: "bytes set"
  lp_candidates :: "node_info list"

definition lp_new :: "nat \<Rightarrow> node_info list \<Rightarrow> lookup_path" where
  "lp_new path_id seeds = \<lparr>lp_path_id = path_id, lp_queried = {}, lp_candidates = seeds\<rparr>"

definition next_to_query :: "lookup_path \<Rightarrow> nat \<Rightarrow> node_info list" where
  "next_to_query p alpha = take alpha (filter (\<lambda>c. ni_id c \<notin> lp_queried p) (lp_candidates p))"

definition mark_queried :: "bytes \<Rightarrow> lookup_path \<Rightarrow> lookup_path" where
  "mark_queried k p = p\<lparr>lp_queried := insert k (lp_queried p)\<rparr>"

definition push_candidate :: "bytes set \<Rightarrow> node_info \<Rightarrow> node_info list \<Rightarrow> node_info list" where
  "push_candidate queried peer cs =
     (if ni_id peer \<notin> queried \<and> \<not> list_ex (\<lambda>c. ni_id c = ni_id peer) cs then cs @ [peer] else cs)"

definition add_candidates :: "node_info list \<Rightarrow> bytes \<Rightarrow> lookup_path \<Rightarrow> lookup_path" where
  "add_candidates new_peers target p =
     p\<lparr>lp_candidates := take SKADEMLIA_K (sort_key (\<lambda>c. nid_distance (ni_id c) target)
         (fold (push_candidate (lp_queried p)) new_peers (lp_candidates p)))\<rparr>"

record disjoint_lookup =
  dl_target :: bytes
  dl_paths :: "lookup_path list"
  dl_found :: "node_info list"

definition path_seeds :: "node_info list \<Rightarrow> nat \<Rightarrow> node_info list" where
  "path_seeds all_closest path_id = map snd (filter (\<lambda>(i, p). i mod SKADEMLIA_D = path_id) (enumerate 0 all_closest))"

definition dl_new :: "bytes \<Rightarrow> routing_table \<Rightarrow> disjoint_lookup" where
  "dl_new target t =
     (let all_closest = closest_peers t target (SKADEMLIA_K * SKADEMLIA_D)
      in \<lparr>dl_target = target,
          dl_paths = map (\<lambda>path_id. lp_new path_id (path_seeds all_closest path_id)) [0..<SKADEMLIA_D],
          dl_found = []\<rparr>)"

definition next_queries :: "disjoint_lookup \<Rightarrow> (nat \<times> node_info list) list" where
  "next_queries d = filter (\<lambda>(_, peers). peers \<noteq> []) (map (\<lambda>p. (lp_path_id p, next_to_query p ALPHA)) (dl_paths d))"

definition update_path :: "nat \<Rightarrow> bytes \<Rightarrow> node_info list \<Rightarrow> disjoint_lookup \<Rightarrow> disjoint_lookup" where
  "update_path path_id queried responses d =
     (if path_id < length (dl_paths d)
      then d\<lparr>dl_paths := (dl_paths d)[path_id := add_candidates responses (dl_target d) (mark_queried queried (dl_paths d ! path_id))]\<rparr>
      else d)"

text \<open>\<open>retain(|p| seen.insert(p.id))\<close>.\<close>

fun retain_new :: "bytes set \<Rightarrow> node_info list \<Rightarrow> node_info list" where
  "retain_new seen [] = []"
| "retain_new seen (p # ps) = (if ni_id p \<in> seen then retain_new seen ps else p # retain_new (insert (ni_id p) seen) ps)"

definition dl_finalize :: "disjoint_lookup \<Rightarrow> disjoint_lookup \<times> node_info list" where
  "dl_finalize d =
     (let all = take SKADEMLIA_K (sort_key (\<lambda>p. nid_distance (ni_id p) (dl_target d))
                  (retain_new {} (concat (map lp_candidates (dl_paths d)))))
      in (d\<lparr>dl_found := all\<rparr>, all))"

definition dl_is_complete :: "disjoint_lookup \<Rightarrow> bool" where
  "dl_is_complete d \<longleftrightarrow> list_all (\<lambda>p. next_to_query p 1 = []) (dl_paths d)"

section \<open>Signed routing messages\<close>

datatype routing_msg_type = FindNode | FindNodeResponse | Ping | Pong

primrec routing_msg_byte :: "routing_msg_type \<Rightarrow> u8" where
  "routing_msg_byte FindNode = 1"
| "routing_msg_byte FindNodeResponse = 2"
| "routing_msg_byte Ping = 3"
| "routing_msg_byte Pong = 4"

record signed_routing_message =
  sm_msg_type :: routing_msg_type
  sm_sender_id :: bytes
  sm_payload :: bytes
  sm_signature :: bytes
  sm_public_key :: bytes

definition sm_canonical_bytes :: "signed_routing_message \<Rightarrow> bytes" where
  "sm_canonical_bytes m = [routing_msg_byte (sm_msg_type m)] @ sm_sender_id m @ sm_payload m"

definition sm_verify :: "(bytes \<Rightarrow> bytes \<Rightarrow> bytes \<Rightarrow> bool option) \<Rightarrow> signed_routing_message \<Rightarrow> bool" where
  "sm_verify verify_signature m =
     (if sm_public_key m = [] \<or> sm_signature m = [] then False
      else unwrap_or (verify_signature (sm_canonical_bytes m) (sm_signature m) (sm_public_key m)) False)"

section \<open>The metric\<close>

primrec be_nat :: "bytes \<Rightarrow> nat" where
  "be_nat [] = 0"
| "be_nat (b # bs) = unat b * 256 ^ length bs + be_nat bs"

lemma be_nat_bound: "be_nat bs < 256 ^ length bs"
proof (induction bs)
  case (Cons b bs)
  have "unat b \<le> 255" using unsigned_less [of b, where 'a = nat] by simp
  then have "unat b * 256 ^ length bs \<le> 255 * 256 ^ length bs" by (rule mult_le_mono1)
  then have "be_nat (b # bs) < 255 * 256 ^ length bs + 256 ^ length bs" using Cons unfolding be_nat.simps by linarith
  then show ?case by simp
qed simp

lemma leading_zeros_u8_table:
  "list_all (\<lambda>n. n = 0 \<or> leading_zeros_u8 (of_nat n) \<le> 7 \<and> 2 ^ (7 - leading_zeros_u8 (of_nat n)) \<le> n
      \<and> n < 2 * 2 ^ (7 - leading_zeros_u8 (of_nat n))) [0..<256]"
  by code_simp

lemma leading_zeros_u8_bounds:
  assumes "b \<noteq> 0"
  shows "leading_zeros_u8 b \<le> 7" "2 ^ (7 - leading_zeros_u8 b) \<le> unat b" "unat b < 2 * 2 ^ (7 - leading_zeros_u8 b)"
proof -
  have "unat b < 256" using unsigned_less [of b, where 'a = nat] by simp
  then have "unat b \<in> set [0..<256]" by simp
  then have "unat b = 0 \<or> leading_zeros_u8 (of_nat (unat b)) \<le> 7 \<and> 2 ^ (7 - leading_zeros_u8 (of_nat (unat b))) \<le> unat b
      \<and> unat b < 2 * 2 ^ (7 - leading_zeros_u8 (of_nat (unat b)))"
    using leading_zeros_u8_table unfolding list_all_iff by blast
  then show "leading_zeros_u8 b \<le> 7" "2 ^ (7 - leading_zeros_u8 b) \<le> unat b" "unat b < 2 * 2 ^ (7 - leading_zeros_u8 b)"
    using assms by (simp_all add: unat_eq_0)
qed

lemma leading_zeros_from_log:
  assumes "\<exists>b\<in>set bs. b \<noteq> 0"
  shows "\<exists>z. leading_zeros_from i bs = i * 8 + z \<and> z < 8 * length bs
    \<and> 2 ^ (8 * length bs - 1 - z) \<le> be_nat bs \<and> be_nat bs < 2 * 2 ^ (8 * length bs - 1 - z)"
  using assms
proof (induction bs arbitrary: i)
  case (Cons b bs)
  have p: "(256::nat) ^ length bs = 2 ^ (8 * length bs)" by (simp add: power_mult)
  show ?case
  proof (cases "b = 0")
    case True
    then have "\<exists>b\<in>set bs. b \<noteq> 0" using Cons.prems by simp
    from Cons.IH [OF this, of "i + 1"] obtain z where z: "leading_zeros_from (i + 1) bs = (i + 1) * 8 + z" "z < 8 * length bs"
        "2 ^ (8 * length bs - 1 - z) \<le> be_nat bs" "be_nat bs < 2 * 2 ^ (8 * length bs - 1 - z)"
      by blast
    have "8 * length (b # bs) - 1 - (8 + z) = 8 * length bs - 1 - z" by simp
    then show ?thesis using True z by (intro exI [of _ "8 + z"]) simp
  next
    case False
    note lz = leading_zeros_u8_bounds [OF False]
    let ?z = "leading_zeros_u8 b"
    have "8 * length (b # bs) - 1 - ?z = (7 - ?z) + 8 * length bs" using lz(1) by simp
    then have e: "(2::nat) ^ (8 * length (b # bs) - 1 - ?z) = 2 ^ (7 - ?z) * 256 ^ length bs" by (simp only: power_add p)
    have "2 ^ (7 - ?z) * 256 ^ length bs \<le> unat b * 256 ^ length bs" using lz(2) by (rule mult_le_mono1)
    then have lower: "2 ^ (8 * length (b # bs) - 1 - ?z) \<le> be_nat (b # bs)" unfolding e be_nat.simps by (rule trans_le_add1)
    have "(unat b + 1) * 256 ^ length bs \<le> (2 * 2 ^ (7 - ?z)) * 256 ^ length bs" using lz(3) by (intro mult_le_mono1) simp
    then have upper: "be_nat (b # bs) < 2 * 2 ^ (8 * length (b # bs) - 1 - ?z)"
      using be_nat_bound [of bs] unfolding e by simp
    have "leading_zeros_from i (b # bs) = i * 8 + ?z" using False by simp
    moreover have "?z < 8 * length (b # bs)" using lz(1) by simp
    ultimately show ?thesis using lower upper by blast
  qed
qed simp

lemma distance_zero_iff: "length a = length b \<Longrightarrow> (\<forall>x\<in>set (nid_distance a b). x = 0) \<longleftrightarrow> a = b"
  by (induction a b rule: list_induct2) (auto simp: nid_distance_def bit_eq_iff bit_xor_iff)

lemma length_distance [simp]: "length (nid_distance a b) = min (length a) (length b)"
  by (simp add: nid_distance_def)

text \<open>C27. The bucket of a peer is the binary logarithm of its XOR distance read as a number: bucket \<open>i\<close> holds the peers at
  a distance of at least \<open>2^i\<close> and below \<open>2^(i+1)\<close>, and the distance is symmetric and zero only for the node itself.\<close>

theorem bucket_index_is_log:
  assumes "length a = 32" "length b = 32" "a \<noteq> b"
  shows "bucket_index a b < 256 \<and> 2 ^ bucket_index a b \<le> be_nat (nid_distance a b) \<and> be_nat (nid_distance a b) < 2 ^ (bucket_index a b + 1)
    \<and> nid_distance a b = nid_distance b a"
proof -
  have "\<exists>x\<in>set (nid_distance a b). x \<noteq> 0" using distance_zero_iff [of a b] assms by auto
  then obtain z where "leading_zeros_from 0 (nid_distance a b) = z" "z < 256" "2 ^ (255 - z) \<le> be_nat (nid_distance a b)"
      "be_nat (nid_distance a b) < 2 * 2 ^ (255 - z)"
    using leading_zeros_from_log [of "nid_distance a b" 0] assms by auto
  moreover have "nid_distance a b = nid_distance b a"
    unfolding nid_distance_def by (rule nth_equalityI) (auto simp: assms xor.commute)
  ultimately show ?thesis by (simp add: bucket_index_def nid_leading_zeros_def Let_def KEY_BITS_def)
qed

theorem bucket_index_is_log_witness: "bucket_index (replicate 32 0) (replicate 32 5) < 256"
  using bucket_index_is_log [of "replicate 32 0" "replicate 32 5"] by simp

section \<open>The table\<close>

definition bucket_wf :: "bytes \<Rightarrow> nat \<Rightarrow> k_bucket \<Rightarrow> bool" where
  "bucket_wf local_id i b \<longleftrightarrow> length b \<le> SKADEMLIA_K \<and> distinct (map ni_id b)
     \<and> list_all (\<lambda>p. ni_id p \<noteq> local_id \<and> bucket_index local_id (ni_id p) = i) b"

definition rt_wf :: "routing_table \<Rightarrow> bool" where
  "rt_wf t \<longleftrightarrow> length (rt_buckets t) = KEY_BITS \<and> (\<forall>i<KEY_BITS. bucket_wf (rt_local_id t) i (rt_buckets t ! i))"

lemma bucket_index_lt: "bucket_index a b < KEY_BITS"
  by (auto simp: bucket_index_def Let_def KEY_BITS_def)

lemma map_id_replace_first [simp]: "map ni_id (replace_first node ps) = map ni_id ps"
  by (induction ps) auto

lemma length_replace_first [simp]: "length (replace_first node ps) = length ps"
  by (induction ps) auto

lemma has_id_iff: "list_ex (\<lambda>p. ni_id p = k) b \<longleftrightarrow> k \<in> ni_id ` set b"
  by (auto simp: list_ex_iff image_iff)

lemma kb_insert_ids:
  "map ni_id (kb_insert node b) =
     (if ni_id node \<in> ni_id ` set b then map ni_id b
      else ni_id node # map ni_id (if length b \<ge> SKADEMLIA_K then butlast b else b))"
  by (simp add: kb_insert_def has_id_iff)

lemma bucket_wf_ids:
  "bucket_wf l i b \<longleftrightarrow> length (map ni_id b) \<le> SKADEMLIA_K \<and> distinct (map ni_id b) \<and> list_all (\<lambda>k. k \<noteq> l \<and> bucket_index l k = i) (map ni_id b)"
  by (simp add: bucket_wf_def list_all_iff)

lemma bucket_wf_insert:
  assumes "bucket_wf l i b" "ni_id node \<noteq> l" "bucket_index l (ni_id node) = i"
  shows "bucket_wf l i (kb_insert node b)"
proof -
  have "distinct (map ni_id (butlast b))" "set (map ni_id (butlast b)) \<subseteq> set (map ni_id b)"
    using assms(1) by (auto simp: bucket_wf_def map_butlast distinct_butlast dest: in_set_butlastD)
  then show ?thesis
    using assms unfolding bucket_wf_ids [of l i "kb_insert node b"] kb_insert_ids
    by (auto simp: bucket_wf_ids list_all_iff SKADEMLIA_K_def dest: in_set_butlastD)
qed

lemma bucket_wf_remove: "bucket_wf l i b \<Longrightarrow> bucket_wf l i (kb_remove k b)"
  using length_filter_le [of "\<lambda>p. ni_id p \<noteq> k" b]
  by (auto simp: bucket_wf_def kb_remove_def distinct_map_filter list_all_iff simp del: length_filter_le)

datatype rt_op = RtInsert node_info | RtRemove bytes

primrec rt_step :: "rt_op \<Rightarrow> routing_table \<Rightarrow> routing_table" where
  "rt_step (RtInsert node) t = fst (rt_insert node t)"
| "rt_step (RtRemove k) t = rt_remove k t"

lemma rt_wf_step: "rt_wf t \<Longrightarrow> rt_wf (rt_step op t)"
  by (cases op) (auto simp: rt_wf_def rt_insert_def rt_remove_def bucket_index_for_def Let_def nth_list_update bucket_index_lt
      bucket_wf_insert bucket_wf_remove)

lemma rt_wf_new: "rt_wf (rt_new l)"
  by (simp add: rt_wf_def rt_new_def bucket_wf_def)

lemma rt_wf_run: "rt_wf (fold rt_step ops (rt_new l))"
proof -
  have "rt_wf t \<Longrightarrow> rt_wf (fold rt_step ops t)" for t by (induction ops arbitrary: t) (auto simp: rt_wf_step)
  then show ?thesis using rt_wf_new by blast
qed

lemma concat_distinct_buckets:
  assumes "\<And>i. i < length bs \<Longrightarrow> distinct (map f (bs ! i)) \<and> (\<forall>p\<in>set (bs ! i). g (f p) = i + k)"
  shows "distinct (map f (concat bs))"
  using assms
proof (induction bs arbitrary: k)
  case (Cons b bs)
  have "distinct (map f (concat bs))" using Cons.prems [of "Suc _"] by (intro Cons.IH [of "k + 1"]) auto
  moreover have "distinct (map f b)" "\<forall>p\<in>set b. g (f p) = k" using Cons.prems [of 0] by auto
  moreover have "g (f p) \<noteq> k" if p: "p \<in> set (concat bs)" for p
  proof -
    obtain x where "x \<in> set bs" "p \<in> set x" using p by auto
    then obtain i where "i < length bs" "p \<in> set (bs ! i)" by (metis in_set_conv_nth)
    then show ?thesis using Cons.prems [of "Suc i"] by auto
  qed
  ultimately show ?case by fastforce
qed simp

lemma rt_wf_distinct:
  assumes "rt_wf t"
  shows "distinct (map ni_id (rt_all_peers t))"
  unfolding rt_all_peers_def
  by (rule concat_distinct_buckets [where g = "bucket_index (rt_local_id t)" and k = 0])
    (use assms in \<open>auto simp: rt_wf_def bucket_wf_def list_all_iff\<close>)

text \<open>C26. Whatever peers are inserted and removed, the routing table keeps its shape: 256 buckets of at most twenty peers,
  every peer in the bucket of its distance, no id twice in the table and never the node itself.\<close>

theorem routing_table_invariant:
  "let t = fold rt_step ops (rt_new l) in
     rt_wf t \<and> distinct (map ni_id (rt_all_peers t)) \<and> l \<notin> ni_id ` set (rt_all_peers t) \<and> rt_peer_count t \<le> KEY_BITS * SKADEMLIA_K"
proof -
  define t where "t = fold rt_step ops (rt_new l)"
  have l: "rt_local_id t = l"
  proof -
    have "rt_local_id (rt_step op u) = rt_local_id u" for op u
      by (cases op) (auto simp: rt_insert_def rt_remove_def Let_def split: option.splits)
    then have "rt_local_id (fold rt_step ops u) = rt_local_id u" for u by (induction ops arbitrary: u) auto
    then show ?thesis by (simp add: t_def rt_new_def)
  qed
  have wf: "rt_wf t" unfolding t_def by (rule rt_wf_run)
  have "length x \<le> SKADEMLIA_K \<and> l \<notin> ni_id ` set x" if x: "x \<in> set (rt_buckets t)" for x
  proof -
    obtain i where "i < KEY_BITS" "x = rt_buckets t ! i" using x wf by (auto simp: in_set_conv_nth rt_wf_def)
    then have "bucket_wf l i x" using wf l by (auto simp: rt_wf_def)
    then show ?thesis by (auto simp: bucket_wf_def list_all_iff)
  qed
  then have "\<forall>x\<in>set (rt_buckets t). length x \<le> SKADEMLIA_K" "l \<notin> ni_id ` set (rt_all_peers t)" by (auto simp: rt_all_peers_def)
  then have "sum_list (map length (rt_buckets t)) \<le> length (rt_buckets t) * SKADEMLIA_K"
    using sum_list_mono [of "rt_buckets t" length "\<lambda>_. SKADEMLIA_K"] by (simp add: sum_list_triv)
  then show ?thesis using wf rt_wf_distinct [OF wf] \<open>l \<notin> ni_id ` set (rt_all_peers t)\<close>
    by (simp add: t_def [symmetric] rt_peer_count_def rt_wf_def)
qed

section \<open>Eviction\<close>

lemma kb_insert_new: "ni_id node \<notin> ni_id ` set b \<Longrightarrow> kb_insert node b = node # (if length b \<ge> SKADEMLIA_K then butlast b else b)"
  by (simp add: kb_insert_def has_id_iff)

lemma length_kb_insert_new: "ni_id node \<notin> ni_id ` set b \<Longrightarrow> length b \<le> SKADEMLIA_K \<Longrightarrow> kb_insert node b = take SKADEMLIA_K (node # b)"
  by (simp add: kb_insert_new SKADEMLIA_K_def butlast_conv_take)

lemma replace_first_ids: "ni_id ` set (replace_first node b) = ni_id ` set b"
  by (metis list.set_map map_id_replace_first)

text \<open>Being seen again does not protect a peer: an update keeps the peer's place in the bucket, so the peer in the last
  place of a full bucket is evicted by the next new id even if it has just been refreshed.\<close>

theorem refreshed_peer_evicted:
  assumes "length b = SKADEMLIA_K" "distinct (map ni_id b)" "ni_id fresh = ni_id (last b)" "ni_id new \<notin> ni_id ` set b"
  shows "ni_id fresh \<in> ni_id ` set (kb_insert fresh b) \<and> ni_id fresh \<notin> ni_id ` set (kb_insert new (kb_insert fresh b))"
proof -
  have ne: "b \<noteq> []" using assms(1) by (auto simp: SKADEMLIA_K_def)
  have mem: "ni_id fresh \<in> ni_id ` set b" using assms(3) ne by simp
  have ids: "map ni_id (kb_insert fresh b) = map ni_id b" using mem by (simp add: kb_insert_ids)
  then have s: "ni_id ` set (kb_insert fresh b) = ni_id ` set b" by (metis list.set_map)
  have "length (kb_insert fresh b) = SKADEMLIA_K" using ids assms(1) by (metis length_map)
  then have "map ni_id (kb_insert new (kb_insert fresh b)) = ni_id new # butlast (map ni_id b)"
    using assms(4) s ids by (simp add: kb_insert_ids map_butlast)
  then have "ni_id ` set (kb_insert new (kb_insert fresh b)) = insert (ni_id new) (set (butlast (map ni_id b)))"
    by (metis list.set_map list.simps(15))
  moreover have "map ni_id b = butlast (map ni_id b) @ [ni_id fresh]"
    using ne assms(3) by (metis append_butlast_last_id last_map map_is_Nil_conv)
  then have "distinct (butlast (map ni_id b) @ [ni_id fresh])" using assms(2) by metis
  then have "ni_id fresh \<notin> set (butlast (map ni_id b))" by simp
  ultimately show ?thesis using mem s assms(4) by auto
qed

definition sample_peer :: "u8 \<Rightarrow> u64 \<Rightarrow> node_info" where
  "sample_peer k seen = \<lparr>ni_id = replicate 32 k, ni_pubkey = [], ni_addr = [], ni_last_seen = seen\<rparr>"

definition sample_bucket :: k_bucket where
  "sample_bucket = map (\<lambda>i. sample_peer (of_nat i) 1) [0..<20]"

lemma sample_bucket_facts: "length sample_bucket = SKADEMLIA_K" "distinct (map ni_id sample_bucket)"
  "ni_id (sample_peer 19 9) = ni_id (last sample_bucket)" "ni_id (sample_peer 30 9) \<notin> ni_id ` set sample_bucket"
  by code_simp+

theorem refreshed_peer_evicted_witness:
  "ni_id (sample_peer 19 9) \<notin> ni_id ` set (kb_insert (sample_peer 30 9) (kb_insert (sample_peer 19 9) sample_bucket))"
  using refreshed_peer_evicted [OF sample_bucket_facts] by blast

text \<open>A bucket is flushed without a single ping: twenty new ids of one bucket, inserted one after the other, leave
  nothing of what the bucket held.\<close>

theorem bucket_flushed:
  assumes "length b \<le> SKADEMLIA_K" "length news = SKADEMLIA_K" "distinct (map ni_id news)" "ni_id ` set news \<inter> ni_id ` set b = {}"
  shows "fold kb_insert news b = rev news"
proof -
  have "fold kb_insert ns b = take SKADEMLIA_K (rev ns @ b)"
    if "distinct (map ni_id ns)" "ni_id ` set ns \<inter> ni_id ` set b = {}" for ns
    using that
  proof (induction ns rule: rev_induct)
    case Nil
    then show ?case using assms(1) by simp
  next
    case (snoc n ns)
    have "ni_id n \<notin> ni_id ` set (take SKADEMLIA_K (rev ns @ b))"
      using snoc.prems by (auto dest!: in_set_takeD)
    then have "kb_insert n (take SKADEMLIA_K (rev ns @ b)) = take SKADEMLIA_K (n # take SKADEMLIA_K (rev ns @ b))"
      by (intro length_kb_insert_new) simp_all
    then show ?case using snoc by (simp add: SKADEMLIA_K_def take_Cons' min_def)
  qed
  then show ?thesis using assms(2-4) by simp
qed

theorem bucket_flushed_witness: "fold kb_insert sample_bucket [sample_peer 30 9] = rev sample_bucket"
  by (rule bucket_flushed) (use sample_bucket_facts in \<open>auto simp: SKADEMLIA_K_def\<close>)

section \<open>Closest peers\<close>

lemma sort_key_pairs: "sort_key fst (map (\<lambda>p. (d p, p)) xs) = map (\<lambda>p. (d p, p)) (sort_key d xs)"
proof -
  have "insort_key fst (d x, x) (map (\<lambda>p. (d p, p)) ys) = map (\<lambda>p. (d p, p)) (insort_key d x ys)" for x ys
    by (induction ys) auto
  then show ?thesis by (induction xs) auto
qed

lemma closest_peers_eq: "closest_peers t target n = take n (sort_key (\<lambda>p. nid_distance (ni_id p) target) (rt_all_peers t))"
  by (simp add: closest_peers_def rt_all_peers_def sort_key_pairs take_map comp_def)

lemma take_sorted_closest:
  assumes "ys = sort_key d xs" "p \<in> set xs" "p \<notin> set (take n ys)" "q \<in> set (take n ys)"
  shows "d q \<le> d p"
proof -
  have "p \<in> set (take n ys @ drop n ys)" using assms(1,2) by simp
  then have p: "p \<in> set (drop n ys)" using assms(3) by (simp only: set_append) blast
  have "sorted (map d (take n ys @ drop n ys))" using assms(1) by simp
  then show ?thesis using assms(4) p unfolding map_append sorted_append by auto
qed

text \<open>The peers returned for a target are the closest known: as many as asked for or all there are, nearest first, and
  no peer left out is nearer than one returned.\<close>

theorem closest_peers_correct:
  "let r = closest_peers t target n; d = (\<lambda>p. nid_distance (ni_id p) target) in
     length r = min n (rt_peer_count t) \<and> sorted (map d r) \<and> mset r \<subseteq># mset (rt_all_peers t)
     \<and> (\<forall>p\<in>set (rt_all_peers t) - set r. \<forall>q\<in>set r. d q \<le> d p)"
proof -
  let ?d = "\<lambda>p. nid_distance (ni_id p) target"
  let ?ys = "sort_key ?d (rt_all_peers t)"
  have "mset (take n ?ys) \<subseteq># mset ?ys" by (metis append_take_drop_id mset_append mset_subset_eq_add_left)
  then have "mset (take n ?ys) \<subseteq># mset (rt_all_peers t)" by simp
  moreover have "sorted (map ?d (take n ?ys))" using sorted_wrt_take [of "(\<le>)" "map ?d ?ys" n] by (simp add: take_map)
  moreover have "length (rt_all_peers t) = rt_peer_count t" by (simp add: rt_all_peers_def rt_peer_count_def length_concat)
  ultimately show ?thesis using take_sorted_closest [of ?ys ?d "rt_all_peers t"] by (auto simp: closest_peers_eq Let_def min.commute)
qed

theorem closest_peers_correct_witness:
  "let r = closest_peers (rt_new (replicate 32 0)) (replicate 32 1) 5 in length r = min 5 (rt_peer_count (rt_new (replicate 32 0)))"
  using closest_peers_correct [of "rt_new (replicate 32 0)" "replicate 32 1" 5] by (simp add: Let_def)

section \<open>The three paths\<close>

lemma path_seeds_partition:
  "mset (path_seeds xs 0) + mset (path_seeds xs 1) + mset (path_seeds xs 2) = mset xs"
proof -
  have "mset (map snd (filter (\<lambda>(i, p). i mod 3 = 0) (enumerate k xs))) + mset (map snd (filter (\<lambda>(i, p). i mod 3 = 1) (enumerate k xs)))
      + mset (map snd (filter (\<lambda>(i, p). i mod 3 = 2) (enumerate k xs))) = mset xs" for k
  proof (induction xs arbitrary: k)
    case (Cons x xs)
    have "k mod 3 = 0 \<or> k mod 3 = 1 \<or> k mod 3 = 2" by linarith
    then show ?case using Cons.IH [of "Suc k"] by auto
  qed simp
  then show ?thesis by (simp add: path_seeds_def SKADEMLIA_D_def)
qed

text \<open>A lookup starts on three disjoint paths: together they hold the sixty closest known peers, and no id is on two of
  them.\<close>

theorem lookup_seeds_disjoint:
  assumes "rt_wf t"
  shows "let seeds = concat (map lp_candidates (dl_paths (dl_new target t))) in
     mset seeds = mset (closest_peers t target 60) \<and> distinct (map ni_id seeds)"
proof -
  let ?c = "closest_peers t target 60"
  have s: "concat (map lp_candidates (dl_paths (dl_new target t))) = path_seeds ?c 0 @ path_seeds ?c 1 @ path_seeds ?c 2"
    by (simp add: dl_new_def Let_def SKADEMLIA_D_def SKADEMLIA_K_def lp_new_def upt_rec numeral_2_eq_2)
  have m: "mset (path_seeds ?c 0 @ path_seeds ?c 1 @ path_seeds ?c 2) = mset ?c"
    using path_seeds_partition [of ?c] by (simp add: add.assoc)
  have "distinct (map ni_id (sort_key (\<lambda>p. nid_distance (ni_id p) target) (rt_all_peers t)))"
    using rt_wf_distinct [OF assms] by (metis distinct_map distinct_sort set_sort)
  then have "distinct (map ni_id ?c)" unfolding closest_peers_eq by (metis distinct_take take_map)
  moreover have "mset (map ni_id (path_seeds ?c 0 @ path_seeds ?c 1 @ path_seeds ?c 2)) = mset (map ni_id ?c)"
    using m by (metis mset_map)
  ultimately have "distinct (map ni_id (path_seeds ?c 0 @ path_seeds ?c 1 @ path_seeds ?c 2))" by (metis mset_eq_imp_distinct_iff)
  then show ?thesis using m unfolding s Let_def by blast
qed

theorem lookup_seeds_disjoint_witness:
  "distinct (map ni_id (concat (map lp_candidates (dl_paths (dl_new (replicate 32 1) (rt_new (replicate 32 0)))))))"
  using lookup_seeds_disjoint [OF rt_wf_new, of "replicate 32 1" "replicate 32 0"] by (simp add: Let_def)

lemma add_single_candidate:
  assumes "ni_id x \<notin> lp_queried p" "ni_id x \<notin> ni_id ` set (lp_candidates p)" "length (lp_candidates p) < SKADEMLIA_K"
  shows "set (lp_candidates (add_candidates [x] target p)) = insert x (set (lp_candidates p))"
proof -
  have "fold (push_candidate (lp_queried p)) [x] (lp_candidates p) = lp_candidates p @ [x]"
    using assms(1,2) by (simp add: push_candidate_def has_id_iff)
  then show ?thesis using assms(3) by (simp add: add_candidates_def)
qed

text \<open>The paths do not stay disjoint: an answer is compared with its own path only, so one peer named in answers on two
  paths is a candidate on both, and an attacker who answers on every path is found on every path.\<close>

theorem lookup_paths_overlap:
  assumes "i < length (dl_paths d)" "j < length (dl_paths d)" "i \<noteq> j" "ni_id x \<noteq> q" "ni_id x \<noteq> q'"
    and "\<forall>k\<in>{i, j}. ni_id x \<notin> lp_queried (dl_paths d ! k) \<and> ni_id x \<notin> ni_id ` set (lp_candidates (dl_paths d ! k))
           \<and> length (lp_candidates (dl_paths d ! k)) < SKADEMLIA_K"
  shows "\<forall>k\<in>{i, j}. x \<in> set (lp_candidates (dl_paths (update_path j q' [x] (update_path i q [x] d)) ! k))"
proof -
  have "x \<in> set (lp_candidates (add_candidates [x] (dl_target d) (mark_queried r (dl_paths d ! k))))" if "k \<in> {i, j}" "ni_id x \<noteq> r" for k r
    using assms(6) that add_single_candidate [of x "mark_queried r (dl_paths d ! k)" "dl_target d"] by (auto simp: mark_queried_def)
  then show ?thesis using assms(1-5) by (simp add: update_path_def)
qed

theorem lookup_paths_overlap_witness:
  "\<forall>k\<in>{0, 1}. sample_peer 7 1 \<in> set (lp_candidates (dl_paths (update_path 1 [2] [sample_peer 7 1]
     (update_path 0 [1] [sample_peer 7 1] (dl_new (replicate 32 1) (rt_new (replicate 32 0))))) ! k))"
proof (rule lookup_paths_overlap)
  have d: "dl_paths (dl_new (replicate 32 1) (rt_new (replicate 32 0))) = [lp_new 0 [], lp_new 1 [], lp_new 2 []]"
    by (simp add: dl_new_def Let_def SKADEMLIA_D_def upt_rec closest_peers_def rt_new_def path_seeds_def concat_replicate_trivial numeral_2_eq_2)
  show "\<forall>k\<in>{0, 1}. ni_id (sample_peer 7 1) \<notin> lp_queried (dl_paths (dl_new (replicate 32 1) (rt_new (replicate 32 0))) ! k)
      \<and> ni_id (sample_peer 7 1) \<notin> ni_id ` set (lp_candidates (dl_paths (dl_new (replicate 32 1) (rt_new (replicate 32 0))) ! k))
      \<and> length (lp_candidates (dl_paths (dl_new (replicate 32 1) (rt_new (replicate 32 0))) ! k)) < SKADEMLIA_K"
    by (simp add: d lp_new_def SKADEMLIA_K_def)
  have "length (ni_id (sample_peer 7 1)) = 32" by (simp add: sample_peer_def)
  then show "ni_id (sample_peer 7 1) \<noteq> [1]" "ni_id (sample_peer 7 1) \<noteq> [2]" by auto
qed (simp_all add: dl_new_def Let_def SKADEMLIA_D_def)

text \<open>A lookup is driven in rounds: the peers \<open>next_queries\<close> offers, up to \<open>ALPHA\<close> per path, are asked together, and
  each answer is handed to \<open>update_path\<close>, in the order of arrival.  \<open>answer\<close> is what a peer asked on a path names.\<close>

definition round_requests :: "disjoint_lookup \<Rightarrow> (nat \<times> bytes) list" where
  "round_requests d = concat (map (\<lambda>(path_id, peers). map (\<lambda>p. (path_id, ni_id p)) peers) (next_queries d))"

definition lookup_round ::
  "((nat \<times> bytes) list \<Rightarrow> (nat \<times> bytes) list) \<Rightarrow> (nat \<Rightarrow> bytes \<Rightarrow> node_info list) \<Rightarrow> disjoint_lookup \<Rightarrow> disjoint_lookup" where
  "lookup_round arrival answer d = fold (\<lambda>(path_id, k). update_path path_id k (answer path_id k)) (arrival (round_requests d)) d"

primrec lookup_rounds ::
  "(nat \<Rightarrow> (nat \<times> bytes) list \<Rightarrow> (nat \<times> bytes) list) \<Rightarrow> (nat \<Rightarrow> nat \<Rightarrow> bytes \<Rightarrow> node_info list) \<Rightarrow> nat \<Rightarrow> disjoint_lookup \<Rightarrow> disjoint_lookup" where
  "lookup_rounds arrival answer 0 d = d"
| "lookup_rounds arrival answer (Suc n) d = lookup_round (arrival n) (answer n) (lookup_rounds arrival answer n d)"

lemma add_candidates_ids:
  "ni_id ` set (lp_candidates (add_candidates rs target p)) \<subseteq> ni_id ` set (lp_candidates p) \<union> ni_id ` set rs"
proof -
  have "set (fold (push_candidate q) rs cs) \<subseteq> set cs \<union> set rs" for q cs
  proof (induction rs arbitrary: cs)
    case (Cons r rs)
    have "set (push_candidate q r cs) \<subseteq> insert r (set cs)" by (auto simp: push_candidate_def)
    then show ?case using Cons.IH [of "push_candidate q r cs"] by auto
  qed simp
  from this [of "lp_queried p" "lp_candidates p"]
  have "set (lp_candidates (add_candidates rs target p)) \<subseteq> set (lp_candidates p) \<union> set rs"
    by (auto simp: add_candidates_def dest!: in_set_takeD)
  then show ?thesis by blast
qed

text \<open>All ids of a lookup are in \<open>U\<close>, and the paths are numbered by their position.\<close>

definition lookup_within :: "bytes set \<Rightarrow> disjoint_lookup \<Rightarrow> bool" where
  "lookup_within U d \<longleftrightarrow> (\<forall>i<length (dl_paths d). lp_path_id (dl_paths d ! i) = i
     \<and> ni_id ` set (lp_candidates (dl_paths d ! i)) \<subseteq> U)"

lemma lookup_withinD:
  assumes "lookup_within U d" "i < length (dl_paths d)"
  shows "lp_path_id (dl_paths d ! i) = i" "c \<in> set (lp_candidates (dl_paths d ! i)) \<Longrightarrow> ni_id c \<in> U"
  using assms unfolding lookup_within_def by blast+

text \<open>The ids each path has not asked yet.\<close>

definition unasked :: "bytes set \<Rightarrow> disjoint_lookup \<Rightarrow> nat" where
  "unasked U d = (\<Sum>i<length (dl_paths d). card (U - lp_queried (dl_paths d ! i)))"

lemma update_path_queried:
  "j < length (dl_paths d) \<Longrightarrow> lp_queried (dl_paths (update_path i k rs d) ! j)
     = (if j = i then insert k (lp_queried (dl_paths d ! j)) else lp_queried (dl_paths d ! j))"
  by (auto simp: update_path_def add_candidates_def mark_queried_def nth_list_update)

lemma length_update_path [simp]: "length (dl_paths (update_path i k rs d)) = length (dl_paths d)"
  by (simp add: update_path_def)

lemma lookup_within_update:
  assumes "lookup_within U d" "ni_id ` set rs \<subseteq> U"
  shows "lookup_within U (update_path i k rs d)"
proof -
  have "ni_id ` set (lp_candidates (add_candidates rs (dl_target d) (mark_queried k (dl_paths d ! i)))) \<subseteq> U" if "i < length (dl_paths d)"
  proof -
    have "ni_id ` set (lp_candidates (mark_queried k (dl_paths d ! i))) \<subseteq> U"
      using lookup_withinD(2) [OF assms(1) that] by (auto simp: mark_queried_def)
    then show ?thesis using assms(2) by (intro subset_trans [OF add_candidates_ids] Un_least)
  qed
  moreover have "lp_path_id (add_candidates rs (dl_target d) (mark_queried k p)) = lp_path_id p" for p
    by (simp add: add_candidates_def mark_queried_def)
  ultimately show ?thesis using assms(1) unfolding lookup_within_def update_path_def by (simp add: nth_list_update)
qed

lemma unasked_update:
  assumes "finite U"
  shows "unasked U (update_path i k rs d) \<le> unasked U d"
    and "i < length (dl_paths d) \<Longrightarrow> k \<in> U - lp_queried (dl_paths d ! i) \<Longrightarrow> unasked U (update_path i k rs d) < unasked U d"
proof -
  have le: "card (U - lp_queried (dl_paths (update_path i k rs d) ! j)) \<le> card (U - lp_queried (dl_paths d ! j))"
    if "j < length (dl_paths d)" for j
    using assms that by (auto simp: update_path_queried intro!: card_mono)
  then show "unasked U (update_path i k rs d) \<le> unasked U d" by (auto simp: unasked_def intro!: sum_mono)
  assume i: "i < length (dl_paths d)" "k \<in> U - lp_queried (dl_paths d ! i)"
  have "card (U - insert k (lp_queried (dl_paths d ! i))) < card (U - lp_queried (dl_paths d ! i))"
    using i(2) assms by (intro psubset_card_mono) auto
  then show "unasked U (update_path i k rs d) < unasked U d"
    unfolding unasked_def length_update_path using le i(1) by (intro sum_strict_mono_ex1) (auto simp: update_path_queried)
qed

lemma fold_updates:
  assumes "finite U" "lookup_within U d" "\<And>i k. ni_id ` set (answer i k) \<subseteq> U"
  defines "run \<equiv> \<lambda>rs d. fold (\<lambda>(i, k). update_path i k (answer i k)) rs d"
  shows "lookup_within U (run rs d)" "length (dl_paths (run rs d)) = length (dl_paths d)" "unasked U (run rs d) \<le> unasked U d"
    "(i, k) \<in> set rs \<Longrightarrow> i < length (dl_paths d) \<Longrightarrow> k \<in> U - lp_queried (dl_paths d ! i) \<Longrightarrow> unasked U (run rs d) < unasked U d"
proof -
  have "lookup_within U (run rs d) \<and> length (dl_paths (run rs d)) = length (dl_paths d) \<and> unasked U (run rs d) \<le> unasked U d
      \<and> ((i, k) \<in> set rs \<and> i < length (dl_paths d) \<and> k \<in> U - lp_queried (dl_paths d ! i) \<longrightarrow> unasked U (run rs d) < unasked U d)"
    using assms(2)
  proof (induction rs arbitrary: d)
    case Nil
    then show ?case by (simp add: run_def)
  next
    case (Cons r rs)
    obtain j l where r: "r = (j, l)" by (cases r)
    let ?d = "update_path j l (answer j l) d"
    have run: "run (r # rs) d = run rs ?d" by (simp add: run_def r)
    have "lookup_within U ?d" using Cons.prems assms(3) by (rule lookup_within_update)
    note IH = Cons.IH [OF this]
    have le: "unasked U ?d \<le> unasked U d" using unasked_update(1) [OF assms(1)] .
    have "unasked U (run rs ?d) < unasked U d"
      if new: "(i, k) \<in> set (r # rs)" "i < length (dl_paths d)" "k \<in> U - lp_queried (dl_paths d ! i)"
    proof (cases "(i, k) = (j, l)")
      case True
      then show ?thesis using IH unasked_update(2) [OF assms(1) new(2,3), of "answer j l"] by auto
    next
      case False
      then have "k \<in> U - lp_queried (dl_paths ?d ! i)" "(i, k) \<in> set rs" using new by (auto simp: r update_path_queried)
      then show ?thesis using IH le new(2) by fastforce
    qed
    then show ?case unfolding run using IH le by auto
  qed
  then show "lookup_within U (run rs d)" "length (dl_paths (run rs d)) = length (dl_paths d)" "unasked U (run rs d) \<le> unasked U d"
    "(i, k) \<in> set rs \<Longrightarrow> i < length (dl_paths d) \<Longrightarrow> k \<in> U - lp_queried (dl_paths d ! i) \<Longrightarrow> unasked U (run rs d) < unasked U d"
    by blast+
qed

lemma complete_iff_no_queries: "dl_is_complete d \<longleftrightarrow> next_queries d = []"
  by (auto simp: dl_is_complete_def next_queries_def next_to_query_def list_all_iff filter_empty_conv ALPHA_def)

lemma round_asks_new:
  assumes "\<not> dl_is_complete d" "lookup_within U d"
  obtains i k where "(i, k) \<in> set (round_requests d)" "i < length (dl_paths d)" "k \<in> U - lp_queried (dl_paths d ! i)"
proof -
  obtain i where i: "i < length (dl_paths d)" "next_to_query (dl_paths d ! i) 1 \<noteq> []"
    using assms(1) by (auto simp: dl_is_complete_def list_all_iff in_set_conv_nth)
  then obtain c where c: "c \<in> set (next_to_query (dl_paths d ! i) ALPHA)"
    by (cases "filter (\<lambda>c. ni_id c \<notin> lp_queried (dl_paths d ! i)) (lp_candidates (dl_paths d ! i))")
      (auto simp: next_to_query_def ALPHA_def)
  have id: "lp_path_id (dl_paths d ! i) = i" using lookup_withinD(1) [OF assms(2) i(1)] .
  have "(i, next_to_query (dl_paths d ! i) ALPHA) \<in> set (next_queries d)"
    using i(1) c id by (force simp: next_queries_def in_set_conv_nth intro!: image_eqI [of _ _ "dl_paths d ! i"])
  then have "(i, ni_id c) \<in> set (round_requests d)" using c by (force simp: round_requests_def)
  moreover have "ni_id c \<in> U - lp_queried (dl_paths d ! i)"
    using c lookup_withinD(2) [OF assms(2) i(1)] by (auto simp: next_to_query_def dest!: in_set_takeD)
  ultimately show thesis using that i(1) by blast
qed

lemma lookup_round_progress:
  assumes "finite U" "lookup_within U d" "\<And>i k. ni_id ` set (answer i k) \<subseteq> U" "iteration_order arrival"
  shows "lookup_within U (lookup_round arrival answer d)"
    and "\<not> dl_is_complete d \<Longrightarrow> unasked U (lookup_round arrival answer d) < unasked U d"
proof -
  note run = fold_updates [OF assms(1-3), where rs = "arrival (round_requests d)"]
  show "lookup_within U (lookup_round arrival answer d)" unfolding lookup_round_def by (rule run(1))
  assume "\<not> dl_is_complete d"
  then obtain i k where "(i, k) \<in> set (round_requests d)" "i < length (dl_paths d)" "k \<in> U - lp_queried (dl_paths d ! i)"
    by (rule round_asks_new [OF _ assms(2)])
  then show "unasked U (lookup_round arrival answer d) < unasked U d"
    unfolding lookup_round_def using iteration_order_set [OF assms(4)] by (intro run(4)) auto
qed

lemma lookup_within_new:
  assumes "ni_id ` set (rt_all_peers t) \<subseteq> U"
  shows "lookup_within U (dl_new target t)" "unasked U (dl_new target t) = 3 * card U"
proof -
  have "set (path_seeds (closest_peers t target n) i) \<subseteq> set (rt_all_peers t)" for n i
  proof -
    have "set (path_seeds ps i) \<subseteq> set ps" for ps by (auto simp: path_seeds_def enumerate_eq_zip dest!: set_zip_rightD)
    moreover have "set (closest_peers t target n) \<subseteq> set (rt_all_peers t)"
      unfolding closest_peers_def rt_all_peers_def set_map by (rule image_subsetI) (auto dest!: in_set_takeD)
    ultimately show ?thesis by blast
  qed
  then show "lookup_within U (dl_new target t)"
    using assms by (fastforce simp: lookup_within_def dl_new_def Let_def lp_new_def)
  show "unasked U (dl_new target t) = 3 * card U"
    by (simp add: unasked_def dl_new_def Let_def lp_new_def SKADEMLIA_D_def)
qed

text \<open>C28. Every lookup ends, whatever the peers answer and in whatever order the answers of a round arrive: if the ids of
  the table and of all answers are among \<open>n\<close> ids, then after at most \<open>3 * n\<close> rounds no path has a peer left to ask and
  \<open>next_queries\<close> is empty.  As ids have 32 bytes there always is such an \<open>n\<close>, however many new ids the peers make up.\<close>

theorem lookup_terminates:
  assumes "finite U" "ni_id ` set (rt_all_peers t) \<subseteq> U" "\<And>n i k. ni_id ` set (answer n i k) \<subseteq> U"
    and "\<And>n. iteration_order (arrival n)"
  shows "\<exists>n \<le> 3 * card U. dl_is_complete (lookup_rounds arrival answer n (dl_new target t))
    \<and> next_queries (lookup_rounds arrival answer n (dl_new target t)) = []"
proof (rule ccontr)
  let ?d = "\<lambda>n. lookup_rounds arrival answer n (dl_new target t)"
  assume "\<not> ?thesis"
  then have never: "\<not> dl_is_complete (?d n)" if "n \<le> 3 * card U" for n using that complete_iff_no_queries by blast
  have within: "lookup_within U (?d n)" for n
    by (induction n) (auto intro: lookup_within_new(1) [OF assms(2)] lookup_round_progress(1) [OF assms(1) _ assms(3,4)])
  have "unasked U (?d n) + n \<le> 3 * card U" if "n \<le> Suc (3 * card U)" for n
    using that
  proof (induction n)
    case (Suc n)
    then have "\<not> dl_is_complete (?d n)" using never by simp
    from lookup_round_progress(2) [OF assms(1) within assms(3,4) this, of n "\<lambda>i k. n" "\<lambda>i k. i" "\<lambda>i k. k"] Suc
    show ?case by simp
  qed (simp add: lookup_within_new(2) [OF assms(2)])
  from this [of "Suc (3 * card U)"] show False by simp
qed

theorem lookup_terminates_witness:
  "\<exists>n \<le> 6. dl_is_complete (lookup_rounds (\<lambda>_. rev) (\<lambda>_ _ _. [sample_peer 1 5, sample_peer 2 5]) n
       (dl_new (replicate 32 9) (fst (rt_insert (sample_peer 1 1) (rt_new (replicate 32 0))))))"
proof -
  let ?t = "fst (rt_insert (sample_peer 1 1) (rt_new (replicate 32 0)))"
  have "bucket_index (replicate 32 0) (replicate 32 1) < KEY_BITS" by code_simp
  then have "\<exists>i. rt_buckets ?t = (rt_buckets (rt_new (replicate 32 0)))[i := [sample_peer 1 1]]"
    by (auto simp: rt_insert_def rt_new_def sample_peer_def kb_insert_def Let_def)
  then have "set (rt_all_peers ?t) \<subseteq> {sample_peer 1 1}"
    by (auto simp: rt_all_peers_def rt_new_def dest!: subsetD [OF set_update_subset_insert])
  then have "ni_id ` set (rt_all_peers ?t) \<subseteq> {replicate 32 1, replicate 32 2}" by (auto simp: sample_peer_def)
  from lookup_terminates [OF _ this, of "\<lambda>_ _ _. [sample_peer 1 5, sample_peer 2 5]" "\<lambda>_. rev"] show ?thesis
    by (auto simp: sample_peer_def card_insert_if split: if_splits)
qed

section \<open>Results and messages\<close>

lemma retain_new_ids: "distinct (map ni_id (retain_new seen ps)) \<and> ni_id ` set (retain_new seen ps) = ni_id ` set ps - seen
   \<and> set (retain_new seen ps) \<subseteq> set ps"
proof (induction seen ps rule: retain_new.induct)
  case (2 seen p ps)
  then show ?case by (cases "ni_id p \<in> seen") auto
qed simp

text \<open>The result of a lookup is the twenty nearest ids found on any path, each once and nearest first: an id found
  on a path and not in the result is at least as far away as every one in it.\<close>

theorem lookup_result_closest:
  "let r = snd (dl_finalize d); found = concat (map lp_candidates (dl_paths d)); dist = (\<lambda>p. nid_distance (ni_id p) (dl_target d)) in
     distinct (map ni_id r) \<and> sorted (map dist r) \<and> set r \<subseteq> set found \<and> length r = min 20 (card (ni_id ` set found))
     \<and> (\<forall>p\<in>set found. ni_id p \<in> ni_id ` set r \<or> (\<forall>q\<in>set r. dist q \<le> dist p))"
proof -
  let ?d = "\<lambda>p. nid_distance (ni_id p) (dl_target d)"
  let ?found = "concat (map lp_candidates (dl_paths d))"
  let ?u = "retain_new {} ?found"
  let ?ys = "sort_key ?d ?u"
  have u: "distinct (map ni_id ?u)" "ni_id ` set ?u = ni_id ` set ?found" "set ?u \<subseteq> set ?found"
    using retain_new_ids [of "{}" ?found] by auto
  have len: "length ?u = card (ni_id ` set ?found)" using u(1,2) by (metis distinct_card length_map list.set_map)
  have dy: "distinct (map ni_id ?ys)" using u(1) by (metis distinct_map distinct_sort set_sort)
  have dist: "distinct (map ni_id (take 20 ?ys))" using dy by (metis distinct_take take_map)
  have sub: "set (take 20 ?ys) \<subseteq> set ?u" using set_take_subset [of 20 ?ys] by simp
  have srt: "sorted (map ?d (take 20 ?ys))" using sorted_wrt_take [of "(\<le>)" "map ?d ?ys" 20] by (simp add: take_map)
  have far: "ni_id p \<in> ni_id ` set (take 20 ?ys) \<or> (\<forall>q\<in>set (take 20 ?ys). ?d q \<le> ?d p)" if p: "p \<in> set ?found" for p
  proof -
    obtain p' where p': "p' \<in> set ?u" "ni_id p' = ni_id p" using p u(2) by (metis imageE imageI)
    then show ?thesis using take_sorted_closest [of ?ys ?d ?u p' 20] by (metis imageI)
  qed
  show ?thesis using dist srt sub u(3) len far by (auto simp: dl_finalize_def Let_def SKADEMLIA_K_def)
qed

theorem lookup_result_closest_witness:
  "distinct (map ni_id (snd (dl_finalize (dl_new (replicate 32 1) (rt_new (replicate 32 0))))))"
  using lookup_result_closest [of "dl_new (replicate 32 1) (rt_new (replicate 32 0))"] by (simp add: Let_def)

text \<open>A routing message does not prove its sender: the key that is checked is the one in the message, which nothing ties
  to the sender id, so whoever can sign with a key of his own signs for any node.\<close>

theorem routing_sender_unbound:
  assumes "\<And>m. sign m \<noteq> [] \<and> verify_signature m (sign m) own_key = Some True" "own_key \<noteq> []"
  shows "\<exists>m. sm_verify verify_signature m \<and> sm_sender_id m = victim \<and> sm_msg_type m = ty \<and> sm_payload m = payload"
proof -
  let ?c = "[routing_msg_byte ty] @ victim @ payload"
  show ?thesis using assms
    by (intro exI [of _ "\<lparr>sm_msg_type = ty, sm_sender_id = victim, sm_payload = payload, sm_signature = sign ?c, sm_public_key = own_key\<rparr>"])
      (simp add: sm_verify_def sm_canonical_bytes_def)
qed

theorem routing_sender_unbound_witness:
  "\<exists>m. sm_verify (\<lambda>m s k. Some (s = k @ m)) m \<and> sm_sender_id m = [9] \<and> sm_msg_type m = FindNodeResponse \<and> sm_payload m = []"
  by (rule routing_sender_unbound [of "\<lambda>m. [1] @ m" _ "[1]"]) simp_all

end
