(* ===== verification/Peer_Trust.thy ===== *)
theory Peer_Trust
  imports Prelude Ordering
begin

text \<open>
  Whom a node trusts, from \<open>core/scalar-network/src\<close>: the defence against eclipses (\<open>eclipse.rs\<close>), the node score
  (\<open>node_score.rs\<close>), the store of peers in four tiers (\<open>hybrid_peer.rs\<close>), the checks on manifests and the limit on
  manifest requests (\<open>security.rs\<close>) and the onion packets (\<open>routing.rs\<close>).  The values of a \<open>HashMap\<close> come out as a set.
\<close>

section \<open>Eclipse defence\<close>

definition ECLIPSE_BASIS :: u64 where
  "ECLIPSE_BASIS = 1000000"

definition ECLIPSE_CRITICAL_THRESHOLD :: u64 where
  "ECLIPSE_CRITICAL_THRESHOLD = 800000"

definition ECLIPSE_WARNING_THRESHOLD :: u64 where
  "ECLIPSE_WARNING_THRESHOLD = 600000"

definition MIN_GEOGRAPHIC_REGIONS :: nat where
  "MIN_GEOGRAPHIC_REGIONS = 2"

datatype eclipse_status = EclipseClean | EclipseWarning u64 | EclipseCritical u64

text \<open>\<open>u64::leading_zeros\<close>.\<close>

definition leading_zeros_u64 :: "u64 \<Rightarrow> nat" where
  "leading_zeros_u64 w = length (takeWhile Not (map (bit w) (rev [0..<64])))"

definition log2_approx :: "u64 \<Rightarrow> u64" where
  "log2_approx w = saturating_sub 63 (of_nat (leading_zeros_u64 w))"

definition entropy_step :: "u64 \<Rightarrow> u64 \<Rightarrow> u64 \<Rightarrow> u64" where
  "entropy_step total_deposits d entropy_fp =
     (if d = 0 then entropy_fp
      else
        let p_fp = d * ECLIPSE_BASIS div total_deposits
        in if p_fp = 0 then entropy_fp
           else saturating_add entropy_fp (p_fp * log2_approx p_fp div ECLIPSE_BASIS))"

definition compute_pheromone_entropy_fp :: "u64 list \<Rightarrow> u64" where
  "compute_pheromone_entropy_fp deposits =
     (let total_deposits = sum_list deposits
      in if total_deposits = 0 \<or> deposits = [] then 0 else fold (entropy_step total_deposits) deposits 0)"

definition compute_ideal_entropy_fp :: "nat \<Rightarrow> u64" where
  "compute_ideal_entropy_fp num_senders =
     (if num_senders \<le> 1 then 0 else log2_approx (of_nat num_senders) * ECLIPSE_BASIS)"

definition detect_eclipse_via_entropy :: "u64 list \<Rightarrow> eclipse_status" where
  "detect_eclipse_via_entropy deposits =
     (let total_deposits = sum_list deposits
      in if total_deposits = 0 \<or> deposits = [] then EclipseClean
         else
           let max_deposit = fold max deposits 0;
               max_fraction_fp = max_deposit * ECLIPSE_BASIS div total_deposits
           in if max_fraction_fp > ECLIPSE_CRITICAL_THRESHOLD then EclipseCritical max_fraction_fp
              else if max_fraction_fp > ECLIPSE_WARNING_THRESHOLD then EclipseWarning max_fraction_fp
              else EclipseClean)"

datatype geo_region = Americas | Emea | AsiaPacific | UnknownRegion

definition check_geographic_diversity :: "geo_region list \<Rightarrow> bool" where
  "check_geographic_diversity peer_regions \<longleftrightarrow>
     card (set (filter (\<lambda>r. r \<noteq> UnknownRegion) peer_regions)) \<ge> MIN_GEOGRAPHIC_REGIONS"

datatype partition_status = Connected | Partitioned

definition evaluate_partition_status :: "nat \<Rightarrow> nat \<Rightarrow> partition_status" where
  "evaluate_partition_status connected_peers total_expected_peers =
     (if total_expected_peers = 0 then Partitioned
      else if connected_peers * 100 div total_expected_peers \<ge> 67 then Connected else Partitioned)"

record eclipse_report =
  er_entropy_status :: eclipse_status
  er_geographic_diversity_ok :: bool
  er_partition_status :: partition_status
  er_eclipse_detected :: bool

definition eclipse_evaluate :: "u64 list \<Rightarrow> geo_region list \<Rightarrow> nat \<Rightarrow> nat \<Rightarrow> eclipse_report" where
  "eclipse_evaluate pheromone_deposits peer_regions connected_peers total_expected_peers =
     (let entropy_status = detect_eclipse_via_entropy pheromone_deposits;
          geographic_diversity_ok = check_geographic_diversity peer_regions;
          ps = evaluate_partition_status connected_peers total_expected_peers
      in \<lparr>er_entropy_status = entropy_status, er_geographic_diversity_ok = geographic_diversity_ok, er_partition_status = ps,
          er_eclipse_detected = (entropy_status \<noteq> EclipseClean \<or> \<not> geographic_diversity_ok \<or> ps = Partitioned)\<rparr>)"

section \<open>Node score\<close>

definition NODE_NMT_THRESHOLD :: u64 where
  "NODE_NMT_THRESHOLD = 800000"

definition MAX_NODESCORE :: u64 where
  "MAX_NODESCORE = 1000000"

record node_score =
  ns_node_id_full :: bytes
  ns_raw_score :: u64

definition ns_score :: "node_score \<Rightarrow> u64" where
  "ns_score n = min (ns_raw_score n) MAX_NODESCORE"

definition ns_is_nmt_eligible :: "node_score \<Rightarrow> bool" where
  "ns_is_nmt_eligible n \<longleftrightarrow> ns_score n > NODE_NMT_THRESHOLD"

definition enforce_nodescore_cap :: "bytes \<Rightarrow> u64 \<Rightarrow> u64" where
  "enforce_nodescore_cap node_id_full score = min score MAX_NODESCORE"

definition filter_nmt_eligible :: "node_score list \<Rightarrow> node_score list" where
  "filter_nmt_eligible nodes = filter ns_is_nmt_eligible nodes"

section \<open>Peers in four tiers\<close>

datatype peer_tier = TierManifest | TierNMT | TierBootstrap | TierKademlia

definition is_consensus_eligible :: "peer_tier \<Rightarrow> bool" where
  "is_consensus_eligible tier \<longleftrightarrow> tier = TierManifest"

definition tier_is_nmt_eligible :: "peer_tier \<Rightarrow> bool" where
  "tier_is_nmt_eligible tier \<longleftrightarrow> tier = TierManifest \<or> tier = TierNMT"

definition is_sync_eligible :: "peer_tier \<Rightarrow> bool" where
  "is_sync_eligible tier \<longleftrightarrow> tier = TierManifest \<or> tier = TierNMT \<or> tier = TierBootstrap"

record peer_record =
  pr_node_id :: bytes
  pr_tier :: peer_tier
  pr_addr :: string
  pr_pubkey :: bytes
  pr_last_seen :: u64
  pr_node_score :: u64

definition peer_record_new :: "bytes \<Rightarrow> peer_tier \<Rightarrow> string \<Rightarrow> peer_record" where
  "peer_record_new node_id tier addr =
     \<lparr>pr_node_id = node_id, pr_tier = tier, pr_addr = addr, pr_pubkey = [], pr_last_seen = 0, pr_node_score = 0\<rparr>"

type_synonym peer_store = "bytes \<rightharpoonup> peer_record"

definition hp_upsert :: "peer_record \<Rightarrow> peer_store \<Rightarrow> peer_store" where
  "hp_upsert r s = s(pr_node_id r \<mapsto> r)"

definition hp_remove :: "bytes \<Rightarrow> peer_store \<Rightarrow> peer_store" where
  "hp_remove k s = s(k := None)"

definition peers_by_tier :: "peer_store \<Rightarrow> peer_tier \<Rightarrow> peer_record set" where
  "peers_by_tier s tier = {p \<in> ran s. pr_tier p = tier}"

definition consensus_peers :: "peer_store \<Rightarrow> peer_record set" where
  "consensus_peers s = peers_by_tier s TierManifest"

definition nmt_peers :: "peer_store \<Rightarrow> peer_record set" where
  "nmt_peers s = {p \<in> ran s. tier_is_nmt_eligible (pr_tier p)}"

definition sync_peers :: "peer_store \<Rightarrow> peer_record set" where
  "sync_peers s = {p \<in> ran s. is_sync_eligible (pr_tier p)}"

definition promote_to_manifest :: "bytes \<Rightarrow> peer_store \<Rightarrow> peer_store \<times> bool" where
  "promote_to_manifest k s =
     (case s k of Some p \<Rightarrow> (s(k \<mapsto> p\<lparr>pr_tier := TierManifest\<rparr>), True) | None \<Rightarrow> (s, False))"

text \<open>The two loops of \<open>sync_with_manifest\<close>: over the values of the map and over the ids of the manifest.\<close>

definition demote_missing :: "bytes set \<Rightarrow> peer_store \<Rightarrow> peer_store" where
  "demote_missing manifest_ids s =
     (\<lambda>k. map_option (\<lambda>p. if pr_tier p = TierManifest \<and> pr_node_id p \<notin> manifest_ids then p\<lparr>pr_tier := TierBootstrap\<rparr> else p) (s k))"

definition promote_present :: "bytes set \<Rightarrow> peer_store \<Rightarrow> peer_store" where
  "promote_present manifest_ids s =
     (\<lambda>k. map_option (\<lambda>p. if k \<in> manifest_ids then p\<lparr>pr_tier := TierManifest\<rparr> else p) (s k))"

definition sync_with_manifest :: "bytes set \<Rightarrow> peer_store \<Rightarrow> peer_store" where
  "sync_with_manifest manifest_ids s = promote_present manifest_ids (demote_missing manifest_ids s)"

definition filter_consensus_peers :: "peer_record list \<Rightarrow> peer_record list" where
  "filter_consensus_peers peers = filter (\<lambda>p. is_consensus_eligible (pr_tier p)) peers"

definition filter_nmt_peers :: "peer_record list \<Rightarrow> peer_record list" where
  "filter_nmt_peers peers = filter (\<lambda>p. tier_is_nmt_eligible (pr_tier p)) peers"

section \<open>Checks on manifests\<close>

datatype dmm_security_error = UnverifiedPeerData string | ManifestHashMismatch | BootstrapRequired

definition verify_dmm_source_integrity :: "bytes \<Rightarrow> bytes \<Rightarrow> dmm_security_error + unit" where
  "verify_dmm_source_integrity manifest_hash_local manifest_hash_claimed =
     (if manifest_hash_claimed = replicate 32 0 then Inl BootstrapRequired
      else if manifest_hash_local = replicate 32 0 then Inl BootstrapRequired
      else if manifest_hash_local \<noteq> manifest_hash_claimed then Inl ManifestHashMismatch
      else Inr ())"

definition assert_dmm_from_verified_source :: "bool \<Rightarrow> string \<Rightarrow> dmm_security_error + unit" where
  "assert_dmm_from_verified_source is_locally_verified ctxt =
     (if \<not> is_locally_verified then Inl (UnverifiedPeerData ctxt) else Inr ())"

datatype utxo_ordering_error = OrderingMismatch | NonDeterministicKey

definition verify_tx_ordering_key_deterministic :: "(bytes \<Rightarrow> bytes) \<Rightarrow> bytes \<Rightarrow> u64 \<Rightarrow> utxo_ordering_error + bytes" where
  "verify_tx_ordering_key_deterministic blake3 tx_hash epoch_id =
     (let key1 = compute_tx_ordering_key blake3 tx_hash epoch_id; key2 = compute_tx_ordering_key blake3 tx_hash epoch_id
      in if key1 \<noteq> key2 then Inl NonDeterministicKey else Inr key1)"

definition verify_ordering_consistency :: "bytes list \<Rightarrow> bytes list \<Rightarrow> utxo_ordering_error + unit" where
  "verify_ordering_consistency ordering_a ordering_b = (if ordering_a = ordering_b then Inr () else Inl OrderingMismatch)"

definition MAX_DMM_REQUESTS_PER_EPOCH :: u32 where
  "MAX_DMM_REQUESTS_PER_EPOCH = 10"

record dmm_rate_limiter =
  dr_request_counts :: "bytes \<rightharpoonup> u32"
  dr_current_epoch :: u64

definition dmm_limiter_new :: "u64 \<Rightarrow> dmm_rate_limiter" where
  "dmm_limiter_new epoch = \<lparr>dr_request_counts = Map.empty, dr_current_epoch = epoch\<rparr>"

definition dmm_check_and_record :: "bytes \<Rightarrow> u64 \<Rightarrow> dmm_rate_limiter \<Rightarrow> dmm_rate_limiter \<times> bool" where
  "dmm_check_and_record node_id_short epoch l =
     (let l1 = (if epoch \<noteq> dr_current_epoch l then \<lparr>dr_request_counts = Map.empty, dr_current_epoch = epoch\<rparr> else l);
          n = unwrap_or (dr_request_counts l1 node_id_short) 0
      in if n \<ge> MAX_DMM_REQUESTS_PER_EPOCH
         then (l1\<lparr>dr_request_counts := (dr_request_counts l1)(node_id_short \<mapsto> n)\<rparr>, False)
         else (l1\<lparr>dr_request_counts := (dr_request_counts l1)(node_id_short \<mapsto> n + 1)\<rparr>, True))"

definition dmm_request_count :: "dmm_rate_limiter \<Rightarrow> bytes \<Rightarrow> u32" where
  "dmm_request_count l k = unwrap_or (dr_request_counts l k) 0"

section \<open>Onion packets\<close>

definition onion_target_size :: "nat \<Rightarrow> nat option" where
  "onion_target_size payload_len =
     (if payload_len \<le> 1024 then Some 1024 else if payload_len \<le> 16384 then Some 16384
      else if payload_len \<le> 65536 then Some 65536 else if payload_len \<le> 262144 then Some 262144 else None)"

definition wrap_layers :: "bytes list \<Rightarrow> bytes \<Rightarrow> bytes" where
  "wrap_layers keys payload = fold (\<lambda>_ current. [170] @ current) keys payload"

definition build_3hop_onion_packet :: "bytes \<Rightarrow> bytes list \<Rightarrow> bytes option" where
  "build_3hop_onion_packet raw_payload route_keys =
     map_option (\<lambda>n. wrap_layers (rev route_keys) (raw_payload @ replicate (n - length raw_payload) 0))
       (onion_target_size (length raw_payload))"

section \<open>What the eclipse defence sees\<close>

lemma leading_zeros_small: "unat w < 2 ^ k \<Longrightarrow> k \<le> 64 \<Longrightarrow> 64 - k \<le> leading_zeros_u64 w"
proof -
  assume w: "unat w < 2 ^ k" and k: "k \<le> 64"
  have b: "\<not> bit w i" if "k \<le> i" for i
  proof -
    have "unat w < 2 ^ i" using w that by (meson less_le_trans one_le_numeral power_increasing)
    then have "\<not> bit (unat w) i" unfolding bit_iff_odd by simp
    then show ?thesis by (simp add: bit_unsigned_iff)
  qed
  have "[0..<64] = [0..<k] @ [k..<64]" using k by (metis le0 le_add_diff_inverse upt_add_eq_append)
  then have "leading_zeros_u64 w = length (map (bit w) (rev [k..<64])) + length (takeWhile Not (map (bit w) (rev [0..<k])))"
    unfolding leading_zeros_u64_def using b by (simp only: rev_append map_append, subst takeWhile_append2) auto
  then show ?thesis by simp
qed

lemma leading_zeros_bit:
  assumes "bit w i"
  shows "leading_zeros_u64 w \<le> 63 - i"
proof (rule ccontr)
  let ?xs = "map (bit w) (rev [0..<64])"
  have i: "i < 64" using assms bit_imp_le_length by fastforce
  assume "\<not> leading_zeros_u64 w \<le> 63 - i"
  then have lt: "63 - i < length (takeWhile Not ?xs)" by (simp add: leading_zeros_u64_def)
  then have "takeWhile Not ?xs ! (63 - i) = ?xs ! (63 - i)" by (rule takeWhile_nth)
  moreover have "?xs ! (63 - i) = bit w i" using i by (simp add: rev_nth)
  moreover have "Not (takeWhile Not ?xs ! (63 - i))" using nth_mem [OF lt] set_takeWhileD [of _ Not ?xs] by metis
  ultimately show False using assms by simp
qed

lemma log2_approx_le:
  assumes "unat w < 2 ^ k" "0 < k" "k \<le> 64"
  shows "unat (log2_approx w) \<le> k - 1"
proof -
  have "leading_zeros_u64 w \<le> 64" unfolding leading_zeros_u64_def
    using length_takeWhile_le [of Not "map (bit w) (rev [0..<64])"] by simp
  then have "unat (of_nat (leading_zeros_u64 w) :: u64) = leading_zeros_u64 w" by (intro unat_of_nat_small) simp
  then show ?thesis using leading_zeros_small [OF assms(1,3)] assms(2) by (simp add: log2_approx_def unat_saturating_sub)
qed

lemma entropy_step_bound:
  assumes "unat d * 1000000 < 2 ^ 64" "0 < unat T" "unat d \<le> unat T"
  shows "unat (entropy_step T d e) * unat T \<le> unat e * unat T + 19 * unat d"
proof -
  define p where "p = d * ECLIPSE_BASIS div T"
  have pu: "unat p = unat d * 1000000 div unat T"
    using assms(1) by (simp add: p_def unat_div_word unat_mult_no_overflow ECLIPSE_BASIS_def)
  have pT: "unat p * unat T \<le> unat d * 1000000" unfolding pu by (rule div_times_less_eq_dividend)
  have "unat p \<le> 1000000" unfolding pu using assms(2,3) div_le_mono [of "unat d * 1000000" "unat T * 1000000" "unat T"] by simp
  then have l: "unat (log2_approx p) \<le> 19" using log2_approx_le [of p 20] by simp
  let ?tm = "p * log2_approx p div ECLIPSE_BASIS"
  have pl: "unat p * unat (log2_approx p) \<le> 1000000 * 19" using \<open>unat p \<le> 1000000\<close> l by (rule mult_le_mono)
  then have tm_eq: "unat ?tm = unat p * unat (log2_approx p) div 1000000"
    by (simp add: unat_div_word unat_mult_no_overflow ECLIPSE_BASIS_def)
  have "unat ?tm * 1000000 \<le> unat p * unat (log2_approx p)" unfolding tm_eq by (rule div_times_less_eq_dividend)
  also have "\<dots> \<le> unat p * 19" using l by simp
  finally have "unat ?tm * 1000000 * unat T \<le> unat p * 19 * unat T" by (rule mult_le_mono1)
  also have "\<dots> \<le> 19 * (unat d * 1000000)" using mult_le_mono2 [OF pT, of 19] by (simp only: mult.commute mult.left_commute)
  finally have tm_le: "unat ?tm * unat T \<le> 19 * unat d" by (simp add: mult.commute)
  have "unat (saturating_add e ?tm) * unat T \<le> (unat e + unat ?tm) * unat T" by (intro mult_le_mono1) (simp add: unat_saturating_add)
  then have "unat (saturating_add e ?tm) * unat T \<le> unat e * unat T + 19 * unat d"
    using tm_le by (simp add: add_mult_distrib)
  then show ?thesis by (simp add: entropy_step_def p_def [symmetric] Let_def)
qed

lemma entropy_fold_bound:
  assumes "\<forall>d\<in>set ds. unat d * 1000000 < 2 ^ 64 \<and> unat d \<le> unat T" "0 < unat T"
  shows "unat (fold (entropy_step T) ds e) * unat T \<le> unat e * unat T + 19 * sum_list (map unat ds)"
  using assms(1)
proof (induction ds arbitrary: e)
  case (Cons d ds)
  have "unat (entropy_step T d e) * unat T \<le> unat e * unat T + 19 * unat d"
    using Cons.prems assms(2) by (intro entropy_step_bound) auto
  moreover have "unat (fold (entropy_step T) ds (entropy_step T d e)) * unat T
      \<le> unat (entropy_step T d e) * unat T + 19 * sum_list (map unat ds)"
    using Cons.prems by (intro Cons.IH) simp
  ultimately show ?case by simp
qed simp

lemma ideal_entropy_lower:
  assumes "2 \<le> n" "n < 2 ^ 64"
  shows "1000000 \<le> unat (compute_ideal_entropy_fp n)"
proof -
  let ?w = "of_nat n :: u64"
  have w: "unat ?w = n" using assms(2) by (intro unat_of_nat_small) simp
  have "drop_bit 1 ?w \<noteq> 0"
  proof
    assume "drop_bit 1 ?w = 0"
    then have "unat ?w div 2 = 0" by (metis drop_bit_eq_div power_one_right unat_0 unat_drop_bit_eq)
    then show False using assms(1) w by simp
  qed
  then obtain j where "bit (drop_bit 1 ?w) j" by (auto simp: bit_eq_iff)
  then have "bit ?w (1 + j)" by (simp add: bit_drop_bit_eq)
  then have lz: "leading_zeros_u64 ?w \<le> 62" using leading_zeros_bit [of ?w "1 + j"] by simp
  then have "unat (of_nat (leading_zeros_u64 ?w) :: u64) = leading_zeros_u64 ?w" by (intro unat_of_nat_small) simp
  then have l: "unat (log2_approx ?w) = 63 - leading_zeros_u64 ?w" by (simp add: log2_approx_def unat_saturating_sub)
  then have "unat (log2_approx ?w * ECLIPSE_BASIS) = (63 - leading_zeros_u64 ?w) * 1000000"
    by (subst unat_mult_no_overflow) (simp_all add: ECLIPSE_BASIS_def)
  then show ?thesis using assms(1) lz by (simp add: compute_ideal_entropy_fp_def)
qed

lemma entropy_examples: "compute_pheromone_entropy_fp [100] = 19" "compute_pheromone_entropy_fp [50, 50] = 18"
proof -
  have "leading_zeros_u64 1000000 = 44" "leading_zeros_u64 500000 = 45" by code_simp+
  then have "log2_approx 1000000 = 19" "log2_approx 500000 = 18" by (simp_all add: log2_approx_def saturating_sub_def)
  then show "compute_pheromone_entropy_fp [100] = 19" "compute_pheromone_entropy_fp [50, 50] = 18"
    by (simp_all add: compute_pheromone_entropy_fp_def entropy_step_def ECLIPSE_BASIS_def saturating_add_def Let_def)
qed

text \<open>The entropy the source computes is no entropy: whatever the deposits, it is at most 19, while the ideal for two or
  more senders is at least one million, so it lies below half of the ideal for every honest distribution as well; one
  sender who deposits everything reaches the maximum and two equal senders stay below it.\<close>

theorem entropy_below_every_threshold:
  assumes "sum_list (map unat deposits) * 1000000 < 2 ^ 64" "2 \<le> n" "n < 2 ^ 64"
  shows "unat (compute_pheromone_entropy_fp deposits) \<le> 19 \<and> 1000000 \<le> unat (compute_ideal_entropy_fp n)
    \<and> compute_pheromone_entropy_fp [100] = 19 \<and> compute_pheromone_entropy_fp [50, 50] = 18"
proof -
  let ?T = "sum_list (map unat deposits)"
  have T: "unat (sum_list deposits) = ?T" using assms(1) by (intro unat_sum_list_no_overflow) simp
  have m: "unat d \<le> ?T" if "d \<in> set deposits" for d using member_le_sum_list [of "unat d" "map unat deposits"] that by simp
  have "unat (compute_pheromone_entropy_fp deposits) \<le> 19"
  proof (cases "sum_list deposits = 0")
    case False
    then have pos: "0 < ?T" using T by (metis gr0I unat_eq_zero)
    have "unat d * 1000000 < 2 ^ 64 \<and> unat d \<le> unat (sum_list deposits)" if "d \<in> set deposits" for d
      using le_less_trans [OF mult_le_mono1 [OF m [OF that]] assms(1)] m [OF that] T by simp
    then have "unat (fold (entropy_step (sum_list deposits)) deposits 0) * ?T \<le> 19 * ?T"
      using entropy_fold_bound [of deposits "sum_list deposits" 0] pos T by simp
    then show ?thesis using pos False by (simp add: compute_pheromone_entropy_fp_def Let_def)
  qed (simp add: compute_pheromone_entropy_fp_def)
  moreover have "1000000 \<le> unat (compute_ideal_entropy_fp n)" using assms(2,3) by (rule ideal_entropy_lower)
  ultimately show ?thesis using entropy_examples by simp
qed

theorem entropy_below_every_threshold_witness:
  "unat (compute_pheromone_entropy_fp [3, 3, 3]) \<le> 19 \<and> 1000000 \<le> unat (compute_ideal_entropy_fp 3)"
  using entropy_below_every_threshold [of "[3, 3, 3]" 3] by simp

text \<open>A single peer that deposits everything escapes detection: up to 18446744073709 units the status is critical, as it
  should be, but from 30744573456183 units on the multiplication wraps and the status is clean.\<close>

theorem sole_depositor_hidden:
  "(if 0 < unat d \<and> unat d \<le> 18446744073709 then detect_eclipse_via_entropy [d] = EclipseCritical 1000000
    else if 30744573456183 \<le> unat d then detect_eclipse_via_entropy [d] = EclipseClean else True)"
proof -
  let ?f = "d * ECLIPSE_BASIS div d"
  have st: "detect_eclipse_via_entropy [d] = (if d = 0 then EclipseClean else if ?f > ECLIPSE_CRITICAL_THRESHOLD then EclipseCritical ?f
      else if ?f > ECLIPSE_WARNING_THRESHOLD then EclipseWarning ?f else EclipseClean)"
    by (simp add: detect_eclipse_via_entropy_def Let_def)
  have small: "?f = 1000000" if "0 < unat d" "unat d \<le> 18446744073709"
  proof -
    have "unat (d * ECLIPSE_BASIS) = unat d * 1000000" using that by (subst unat_mult_no_overflow) (simp_all add: ECLIPSE_BASIS_def)
    then have "unat ?f = 1000000" using that by (simp add: unat_div_word)
    then show ?thesis by (simp add: word_unat_eq_iff)
  qed
  have large: "unat ?f \<le> 600000" if "30744573456183 \<le> unat d"
  proof -
    have "unat (d * ECLIPSE_BASIS) div unat d \<le> 18446744073709551615 div unat d"
      using u64_bound [of "d * ECLIPSE_BASIS"] by (intro div_le_mono) simp
    also have "\<dots> \<le> 18446744073709551615 div 30744573456183" using that by (intro div_le_mono2) simp_all
    finally show ?thesis by (simp add: unat_div_word)
  qed
  show ?thesis
    using small large by (auto simp: st ECLIPSE_CRITICAL_THRESHOLD_def ECLIPSE_WARNING_THRESHOLD_def word_less_nat_alt)
qed

text \<open>The report warns exactly when it should by its own rule, up to the arithmetic of the shares: an eclipse is reported
  if one share passes sixty per cent, if fewer than two known regions are seen, or if fewer than 67 in a hundred of the
  expected peers are connected.\<close>

theorem eclipse_report_exact:
  assumes "sum_list (map unat deposits) * 1000000 < 2 ^ 64"
  shows "er_eclipse_detected (eclipse_evaluate deposits regions connected expected) =
    (600001 * sum_list (map unat deposits) \<le> 1000000 * fold max (map unat deposits) 0 \<and> 0 < sum_list (map unat deposits)
     \<or> card (set regions - {UnknownRegion}) < 2 \<or> 100 * connected < 67 * expected \<or> expected = 0)"
proof -
  let ?T = "sum_list (map unat deposits)" and ?M = "fold max (map unat deposits) 0"
  have T: "unat (sum_list deposits) = ?T" using assms by (intro unat_sum_list_no_overflow) simp
  have fm: "unat (fold max ds a) = fold max (map unat ds) (unat a)" for ds and a :: u64
    by (induction ds arbitrary: a) (simp_all add: unat_max_of)
  have "fold max ds a \<le> sum_list ds + a" for ds and a :: nat
  proof (induction ds arbitrary: a)
    case (Cons x xs)
    have "fold max xs (max x a) \<le> sum_list xs + max x a" by (rule Cons.IH)
    then show ?case by simp
  qed simp
  from this [of "map unat deposits" 0] have MT: "?M \<le> ?T" by simp
  have M: "unat (fold max deposits 0 * ECLIPSE_BASIS) = ?M * 1000000"
    using le_less_trans [OF mult_le_mono1 [OF MT] assms] fm [of deposits 0]
    by (subst unat_mult_no_overflow) (simp_all add: ECLIPSE_BASIS_def)
  have f: "600000 < ?M * 1000000 div ?T \<longleftrightarrow> 600001 * ?T \<le> 1000000 * ?M" if "0 < ?T"
    using less_eq_div_iff_mult_less_eq [OF that, of 600001 "?M * 1000000"] by (simp add: Suc_le_eq [symmetric] mult.commute)
  have z: "sum_list deposits = 0 \<longleftrightarrow> ?T = 0" unfolding T [symmetric] by (rule unat_eq_zero [symmetric])
  have ne: "0 < ?T \<Longrightarrow> deposits \<noteq> []" by auto
  have "(detect_eclipse_via_entropy deposits \<noteq> EclipseClean) =
      (sum_list deposits \<noteq> 0 \<and> deposits \<noteq> [] \<and> 600000 < unat (fold max deposits 0 * ECLIPSE_BASIS) div unat (sum_list deposits))"
    by (auto simp: detect_eclipse_via_entropy_def Let_def ECLIPSE_CRITICAL_THRESHOLD_def ECLIPSE_WARNING_THRESHOLD_def
        word_less_nat_alt unat_div_word)
  then have s: "(detect_eclipse_via_entropy deposits \<noteq> EclipseClean) = (600001 * ?T \<le> 1000000 * ?M \<and> 0 < ?T)"
    unfolding z M T using f ne by blast
  have g: "check_geographic_diversity regions \<longleftrightarrow> \<not> card (set regions - {UnknownRegion}) < 2"
    by (simp add: check_geographic_diversity_def MIN_GEOGRAPHIC_REGIONS_def set_filter set_diff_eq not_less)
  have p: "evaluate_partition_status connected expected = Partitioned \<longleftrightarrow> 100 * connected < 67 * expected \<or> expected = 0"
    using less_eq_div_iff_mult_less_eq [of expected 67 "connected * 100"] by (auto simp: evaluate_partition_status_def mult.commute)
  show ?thesis using s g p by (simp add: eclipse_evaluate_def Let_def) blast
qed

theorem eclipse_report_exact_witness:
  "er_eclipse_detected (eclipse_evaluate [5, 5, 5] [Americas, Emea] 8 10) = False"
  using eclipse_report_exact [of "[5, 5, 5]" "[Americas, Emea]" 8 10] by (simp add: insert_Diff_if)

section \<open>What the tiers guarantee\<close>

definition hp_wf :: "peer_store \<Rightarrow> bool" where
  "hp_wf s \<longleftrightarrow> (\<forall>k p. s k = Some p \<longrightarrow> pr_node_id p = k)"

lemma hp_wf_ops:
  "hp_wf Map.empty" "hp_wf s \<Longrightarrow> hp_wf (hp_upsert r s)" "hp_wf s \<Longrightarrow> hp_wf (hp_remove k s)"
  "hp_wf s \<Longrightarrow> hp_wf (fst (promote_to_manifest k s))" "hp_wf s \<Longrightarrow> hp_wf (sync_with_manifest M s)"
  by (auto simp: hp_wf_def hp_upsert_def hp_remove_def promote_to_manifest_def sync_with_manifest_def promote_present_def demote_missing_def
      split: option.splits if_splits)

text \<open>After the store is synchronised with a manifest the peers used for consensus are exactly the known peers of that
  manifest, whatever tiers they had before, and a peer that left the manifest serves for synchronisation only.\<close>

theorem consensus_peers_exact:
  assumes "hp_wf s"
  shows "pr_node_id ` consensus_peers (sync_with_manifest M s) = dom s \<inter> M
    \<and> (\<forall>p\<in>consensus_peers s. pr_node_id p \<notin> M \<longrightarrow> sync_with_manifest M s (pr_node_id p) = Some (p\<lparr>pr_tier := TierBootstrap\<rparr>))"
proof
  let ?s = "sync_with_manifest M s"
  have id: "pr_node_id p = k" if "s k = Some p" for k p using assms that by (simp add: hp_wf_def)
  have tier: "?s k = (case s k of None \<Rightarrow> None | Some p \<Rightarrow> Some (if k \<in> M then p\<lparr>pr_tier := TierManifest\<rparr>
      else if pr_tier p = TierManifest then p\<lparr>pr_tier := TierBootstrap\<rparr> else p))" for k
    using id by (auto simp: sync_with_manifest_def promote_present_def demote_missing_def split: option.splits)
  have "k \<in> pr_node_id ` consensus_peers ?s \<longleftrightarrow> k \<in> dom s \<inter> M" for k
  proof
    assume "k \<in> pr_node_id ` consensus_peers ?s"
    then obtain p j where "?s j = Some p" "pr_tier p = TierManifest" "pr_node_id p = k"
      by (auto simp: consensus_peers_def peers_by_tier_def ran_def)
    then show "k \<in> dom s \<inter> M" using id by (auto simp: tier split: option.splits if_splits)
  next
    assume "k \<in> dom s \<inter> M"
    then obtain p where "s k = Some p" "k \<in> M" by auto
    then have "p\<lparr>pr_tier := TierManifest\<rparr> \<in> consensus_peers ?s" "pr_node_id (p\<lparr>pr_tier := TierManifest\<rparr>) = k"
      using id by (auto simp: consensus_peers_def peers_by_tier_def ran_def tier intro!: exI [of _ k])
    then show "k \<in> pr_node_id ` consensus_peers ?s" by (metis imageI)
  qed
  then show "pr_node_id ` consensus_peers ?s = dom s \<inter> M" by blast
  show "\<forall>p\<in>consensus_peers s. pr_node_id p \<notin> M \<longrightarrow> ?s (pr_node_id p) = Some (p\<lparr>pr_tier := TierBootstrap\<rparr>)"
    using id by (auto simp: consensus_peers_def peers_by_tier_def ran_def tier)
qed

theorem consensus_peers_exact_witness:
  "pr_node_id ` consensus_peers (sync_with_manifest {[1], [2]} (hp_upsert (peer_record_new [1] TierKademlia '''') Map.empty)) = {[1]}"
  using consensus_peers_exact [of "hp_upsert (peer_record_new [1] TierKademlia '''') Map.empty" "{[1], [2]}"]
  by (simp add: hp_wf_ops) (simp add: hp_upsert_def peer_record_new_def)

text \<open>A discovery takes a peer out of consensus: a record for a known node replaces the stored one with its tier, so a
  single Kademlia answer about a manifest peer removes it from the consensus peers until the next manifest.\<close>

theorem discovery_demotes_peer:
  assumes "hp_wf s" "p \<in> consensus_peers s"
  shows "consensus_peers (hp_upsert (peer_record_new (pr_node_id p) TierKademlia addr) s) = consensus_peers s - {p}
    \<and> pr_node_id p \<notin> pr_node_id ` consensus_peers (hp_upsert (peer_record_new (pr_node_id p) TierKademlia addr) s)"
proof -
  have id: "pr_node_id q = k" if "s k = Some q" for k q using assms(1) that by (simp add: hp_wf_def)
  then have "consensus_peers (hp_upsert (peer_record_new (pr_node_id p) TierKademlia addr) s) = {q. s (pr_node_id q) = Some q \<and> pr_tier q = TierManifest \<and> pr_node_id q \<noteq> pr_node_id p}"
    by (auto simp: consensus_peers_def peers_by_tier_def ran_def hp_upsert_def peer_record_new_def split: if_splits)
  moreover have "consensus_peers s = {q. s (pr_node_id q) = Some q \<and> pr_tier q = TierManifest}"
    using id by (auto simp: consensus_peers_def peers_by_tier_def ran_def)
  ultimately show ?thesis using assms(2) by auto
qed

theorem discovery_demotes_peer_witness:
  "pr_node_id (peer_record_new [1] TierManifest '''') \<notin> pr_node_id ` consensus_peers (hp_upsert (peer_record_new (pr_node_id (peer_record_new [1] TierManifest '''')) TierKademlia ''x'')
     (hp_upsert (peer_record_new [1] TierManifest '''') Map.empty))"
  by (rule conjunct2 [OF discovery_demotes_peer [OF hp_wf_ops(2) [OF hp_wf_ops(1)]]])
    (simp add: consensus_peers_def peers_by_tier_def ran_def hp_upsert_def peer_record_new_def)

section \<open>What the request limit guarantees\<close>

fun dmm_run :: "(bytes \<times> u64) list \<Rightarrow> dmm_rate_limiter \<Rightarrow> bool list" where
  "dmm_run [] l = []"
| "dmm_run ((k, e) # rs) l = (case dmm_check_and_record k e l of (l', ok) \<Rightarrow> ok # dmm_run rs l')"

text \<open>Within an epoch every node gets its first ten requests answered and no more, whatever other nodes ask in between.\<close>

theorem dmm_rate_limit:
  "length (filter (\<lambda>(k', ok). k' = k \<and> ok) (zip ks (dmm_run (map (\<lambda>k. (k, e)) ks) (dmm_limiter_new e)))) = min (count_list ks k) 10"
proof -
  have "length (filter (\<lambda>(k', ok). k' = k \<and> ok) (zip ks (dmm_run (map (\<lambda>k. (k, e)) ks) l))) = min (count_list ks k) (10 - unat (dmm_request_count l k))"
    if "dr_current_epoch l = e" "unat (dmm_request_count l k) \<le> 10" for l
    using that
  proof (induction ks arbitrary: l)
    case (Cons x xs)
    let ?n = "unwrap_or (dr_request_counts l x) 0"
    obtain l' ok where l': "dmm_check_and_record x e l = (l', ok)" by (cases "dmm_check_and_record x e l")
    have ok: "ok \<longleftrightarrow> unat ?n < 10" "dr_current_epoch l' = e"
      "dmm_request_count l' x = (if unat ?n < 10 then ?n + 1 else ?n)" "y \<noteq> x \<Longrightarrow> dmm_request_count l' y = dmm_request_count l y" for y
      using l' Cons.prems(1)
      by (auto simp: dmm_check_and_record_def Let_def MAX_DMM_REQUESTS_PER_EPOCH_def word_le_nat_alt dmm_request_count_def split: if_splits)
    have inc: "unat (?n + 1) = unat ?n + 1" if "unat ?n < 10" using that unat_add_no_overflow [of ?n 1] by simp
    have "unat (dmm_request_count l' k) \<le> 10"
      using Cons.prems(2) ok(3) inc ok(4) [of k] by (cases "k = x") (auto simp: dmm_request_count_def)
    from Cons.IH [OF ok(2) this] show ?case
      using Cons.prems(2) ok inc ok(4) [of k] by (cases "k = x") (auto simp: l' dmm_request_count_def)
  qed simp
  from this [of "dmm_limiter_new e"] show ?thesis by (simp add: dmm_limiter_new_def dmm_request_count_def)
qed

text \<open>The limit is the requester's to lift: the epoch is taken from the request and every change of it clears all counts,
  so requests that alternate between two epochs are all answered.\<close>

theorem dmm_rate_limit_bypassed:
  assumes "successively (\<lambda>a b. a \<noteq> b) (dr_current_epoch l # es)"
  shows "dmm_run (map (\<lambda>e. (k, e)) es) l = replicate (length es) True"
  using assms
proof (induction es arbitrary: l)
  case (Cons e es)
  have "dmm_check_and_record k e l = (\<lparr>dr_request_counts = [k \<mapsto> 1], dr_current_epoch = e\<rparr>, True)"
    using Cons.prems by (auto simp: dmm_check_and_record_def Let_def MAX_DMM_REQUESTS_PER_EPOCH_def)
  then show ?case using Cons by simp
qed simp

theorem dmm_rate_limit_bypassed_witness:
  "dmm_run (map (\<lambda>e. ([1], e)) [2, 1, 2, 1, 2, 1, 2, 1, 2, 1, 2, 1]) (dmm_limiter_new 1) = replicate (length [2, 1, 2, 1, 2, 1, 2, 1, 2, 1, 2, 1 :: u64]) True"
  by (rule dmm_rate_limit_bypassed) (simp add: dmm_limiter_new_def)

section \<open>What an onion packet hides\<close>

text \<open>An onion packet hides its size class and nothing else: three layers are three marker bytes, the payload follows
  them in the clear and no key has any effect, so every hop reads it.\<close>

theorem onion_packet_in_clear:
  assumes "length keys = 3" "build_3hop_onion_packet payload keys = Some packet"
  shows "take (length payload) (drop 3 packet) = payload \<and> length packet \<in> {1027, 16387, 65539, 262147}
    \<and> (length keys' = 3 \<longrightarrow> build_3hop_onion_packet payload keys' = Some packet)"
proof -
  have w: "wrap_layers (rev ks) p = [170, 170, 170] @ p" if "length ks = 3" for ks p
    using that by (auto simp: wrap_layers_def numeral_3_eq_3 length_Suc_conv)
  obtain n where n: "onion_target_size (length payload) = Some n" "packet = [170, 170, 170] @ payload @ replicate (n - length payload) 0"
    using assms by (auto simp: build_3hop_onion_packet_def w)
  have "n \<in> {1024, 16384, 65536, 262144} \<and> length payload \<le> n" using n(1) by (auto simp: onion_target_size_def split: if_splits)
  then show ?thesis using n by (auto simp: build_3hop_onion_packet_def w)
qed

theorem onion_packet_in_clear_witness:
  "\<exists>packet. build_3hop_onion_packet [1, 2, 3] [[4], [5], [6]] = Some packet \<and> take 3 (drop 3 packet) = [1, 2, 3]"
proof -
  obtain packet where p: "build_3hop_onion_packet [1, 2, 3] [[4], [5], [6]] = Some packet"
    by (simp add: build_3hop_onion_packet_def onion_target_size_def)
  then show ?thesis using onion_packet_in_clear [OF _ p] by (simp add: numeral_3_eq_3)
qed

end
