(* ===== verification/Tx_Relay.thy ===== *)
theory Tx_Relay
  imports Prelude
begin

text \<open>
  How a transaction travels, from \<open>core/scalar-network/src\<close>: the stem and fluff phases (\<open>dandelion.rs\<close>), ordering by
  commitment and the redistribution of captured value (\<open>mev_protection.rs\<close>) and the relay (\<open>relay.rs\<close>).  BLAKE3 is a
  parameter.  A \<open>HashMap\<close> is an association list; where its values are collected they are sorted afterwards by
  numbers that are all different, so the order of the list has no effect.
\<close>

section \<open>Stem and fluff\<close>

definition STEM_TO_FLUFF_PROB_PERCENT :: u64 where
  "STEM_TO_FLUFF_PROB_PERCENT = 10"

definition MAX_STEM_HOPS :: u64 where
  "MAX_STEM_HOPS = 10"

definition MIN_BROADCAST_DELAY_MS :: u64 where
  "MIN_BROADCAST_DELAY_MS = 100"

definition MAX_BROADCAST_DELAY_MS :: u64 where
  "MAX_BROADCAST_DELAY_MS = 5000"

definition PADDING_SIZES :: "nat list" where
  "PADDING_SIZES = [1024, 16384, 65536, 262144]"

definition PROVING_TIME_TARGET_MS :: u64 where
  "PROVING_TIME_TARGET_MS = 300"

definition PROVING_TIME_TOLERANCE_MS :: u64 where
  "PROVING_TIME_TOLERANCE_MS = 10"

datatype dandelion_phase = Stem u64 | Fluff

definition new_stem :: dandelion_phase where
  "new_stem = Stem MAX_STEM_HOPS"

definition is_stem :: "dandelion_phase \<Rightarrow> bool" where
  "is_stem p \<longleftrightarrow> (case p of Stem _ \<Rightarrow> True | Fluff \<Rightarrow> False)"

definition is_fluff :: "dandelion_phase \<Rightarrow> bool" where
  "is_fluff p \<longleftrightarrow> p = Fluff"

definition select_padding_size :: "nat \<Rightarrow> nat" where
  "select_padding_size payload_size =
     (case List.find (\<lambda>s. payload_size \<le> s) PADDING_SIZES of Some s \<Rightarrow> s | None \<Rightarrow> last PADDING_SIZES)"

definition compute_padding_bytes :: "nat \<Rightarrow> nat" where
  "compute_padding_bytes payload_size = select_padding_size payload_size - payload_size"

definition is_proving_time_valid :: "u64 \<Rightarrow> bool" where
  "is_proving_time_valid proving_time_ms \<longleftrightarrow>
     proving_time_ms \<ge> saturating_sub PROVING_TIME_TARGET_MS PROVING_TIME_TOLERANCE_MS
     \<and> proving_time_ms \<le> PROVING_TIME_TARGET_MS + PROVING_TIME_TOLERANCE_MS"

definition is_broadcast_delay_valid :: "u64 \<Rightarrow> bool" where
  "is_broadcast_delay_valid delay_ms \<longleftrightarrow> MIN_BROADCAST_DELAY_MS \<le> delay_ms \<and> delay_ms \<le> MAX_BROADCAST_DELAY_MS"

datatype routing_decision = ForwardStem nat | Broadcast

definition simple_hash :: "u64 \<Rightarrow> u64 \<Rightarrow> u64" where
  "simple_hash a b =
     (let h = 14695981039346656037;
          h = h XOR a;
          h = h * 1099511628211;
          h = h XOR b
      in h * 1099511628211)"

definition decide_stem_routing :: "dandelion_phase \<Rightarrow> u64 \<Rightarrow> u64 \<Rightarrow> nat \<Rightarrow> routing_decision" where
  "decide_stem_routing phase tx_id hop_count num_peers =
     (case phase of
        Fluff \<Rightarrow> Broadcast
      | Stem hops_remaining \<Rightarrow>
          (if hops_remaining = 0 \<or> num_peers = 0 then Broadcast
           else if simple_hash tx_id hop_count mod 100 < STEM_TO_FLUFF_PROB_PERCENT then Broadcast
           else ForwardStem (unat (simple_hash tx_id (hop_count + 1)) mod num_peers)))"

definition advance_stem_phase :: "dandelion_phase \<Rightarrow> dandelion_phase" where
  "advance_stem_phase phase =
     (case phase of Stem hops_remaining \<Rightarrow> (if hops_remaining = 0 then Fluff else Stem (hops_remaining - 1)) | Fluff \<Rightarrow> Fluff)"

type_synonym stem_path_tracker = "u64 \<rightharpoonup> nat \<times> u64"

definition record_stem_hop :: "u64 \<Rightarrow> nat \<Rightarrow> stem_path_tracker \<Rightarrow> stem_path_tracker" where
  "record_stem_hop tx_id peer_idx t =
     (let (peer, hops) = unwrap_or (t tx_id) (peer_idx, 0) in t(tx_id \<mapsto> (peer, hops + 1)))"

definition stem_hop_count :: "stem_path_tracker \<Rightarrow> u64 \<Rightarrow> u64" where
  "stem_hop_count t tx_id = unwrap_or (map_option snd (t tx_id)) 0"

definition clear_tx :: "u64 \<Rightarrow> stem_path_tracker \<Rightarrow> stem_path_tracker" where
  "clear_tx tx_id t = t(tx_id := None)"

definition active_stem_count :: "stem_path_tracker \<Rightarrow> nat" where
  "active_stem_count t = card (dom t)"

subsection \<open>Small networks\<close>

definition DANDELION_FULL_THRESHOLD :: u64 where
  "DANDELION_FULL_THRESHOLD = 200"

definition DANDELION_REDUCED_STEM_PROB_FP :: u64 where
  "DANDELION_REDUCED_STEM_PROB_FP = 700000"

definition DANDELION_BATCH_WINDOW_S :: u64 where
  "DANDELION_BATCH_WINDOW_S = 60"

definition DANDELION_FP_BASIS :: u64 where
  "DANDELION_FP_BASIS = 1000000"

datatype dandelion_mode = DmFull | DmReduced

definition from_network_size :: "u64 \<Rightarrow> dandelion_mode" where
  "from_network_size known_nodes = (if known_nodes \<ge> DANDELION_FULL_THRESHOLD then DmFull else DmReduced)"

definition select_stem_peer_blake3 :: "(bytes \<Rightarrow> bytes) \<Rightarrow> u64 \<Rightarrow> u64 \<Rightarrow> nat \<Rightarrow> nat" where
  "select_stem_peer_blake3 blake3 tx_id epoch_seed num_peers =
     (if num_peers = 0 then 0
      else
        let hash = blake3 (ascii ''scalar_stem_sel'' @ le_bytes 8 tx_id @ le_bytes 8 epoch_seed)
        in unat (from_le_bytes (take 8 hash) :: u64) mod num_peers)"

definition decide_reduced_routing :: "(bytes \<Rightarrow> bytes) \<Rightarrow> u64 \<Rightarrow> u64 \<Rightarrow> nat \<Rightarrow> routing_decision" where
  "decide_reduced_routing blake3 tx_id nonce num_peers =
     (if num_peers = 0 then Broadcast
      else
        let hash = blake3 (ascii ''scalar_stem_sel'' @ le_bytes 8 tx_id @ le_bytes 8 nonce);
            rand_fp = (from_le_bytes (take 8 (drop 8 hash)) :: u64) mod DANDELION_FP_BASIS
        in if rand_fp < DANDELION_REDUCED_STEM_PROB_FP
           then ForwardStem (select_stem_peer_blake3 blake3 tx_id nonce num_peers)
           else Broadcast)"

record batch_entry =
  be_tx_id :: u64
  be_entered_at_s :: u64

record batch_window =
  bw_pending :: "batch_entry list"
  bw_window_started_at_s :: u64

definition bw_new :: "u64 \<Rightarrow> batch_window" where
  "bw_new now_s = \<lparr>bw_pending = [], bw_window_started_at_s = now_s\<rparr>"

definition bw_add :: "u64 \<Rightarrow> u64 \<Rightarrow> batch_window \<Rightarrow> batch_window" where
  "bw_add tx_id now_s w = w\<lparr>bw_pending := bw_pending w @ [\<lparr>be_tx_id = tx_id, be_entered_at_s = now_s\<rparr>]\<rparr>"

definition bw_is_expired :: "u64 \<Rightarrow> batch_window \<Rightarrow> bool" where
  "bw_is_expired now_s w \<longleftrightarrow> saturating_sub now_s (bw_window_started_at_s w) \<ge> DANDELION_BATCH_WINDOW_S"

definition batch_sort_key :: "(bytes \<Rightarrow> bytes) \<Rightarrow> u64 \<Rightarrow> u64 \<Rightarrow> u64" where
  "batch_sort_key blake3 window_seed tx_id =
     from_le_bytes (take 8 (blake3 (ascii ''scalar_batch_obs'' @ le_bytes 8 tx_id @ le_bytes 8 window_seed)))"

definition drain_ordered :: "(bytes \<Rightarrow> bytes) \<Rightarrow> u64 \<Rightarrow> u64 \<Rightarrow> batch_window \<Rightarrow> batch_window \<times> u64 list" where
  "drain_ordered blake3 window_seed now_s w =
     (let entries = sort_key (\<lambda>e. batch_sort_key blake3 window_seed (be_tx_id e)) (bw_pending w)
      in (w\<lparr>bw_pending := [], bw_window_started_at_s := now_s\<rparr>, map be_tx_id entries))"

section \<open>Commit and reveal\<close>

definition TX_ORDER_DOMAIN :: bytes where
  "TX_ORDER_DOMAIN = ascii ''scalar_tx_order''"

record tx_commitment =
  tc_commitment :: bytes
  tc_sequence :: u64
  tc_received_at_ms :: u64

definition compute_tx_commitment :: "(bytes \<Rightarrow> bytes) \<Rightarrow> bytes \<Rightarrow> bytes \<Rightarrow> bytes" where
  "compute_tx_commitment blake3 tx_hash nonce = blake3 (TX_ORDER_DOMAIN @ tx_hash @ nonce)"

datatype commit_status = CsCommitted | CsRevealed bytes | CsExpired | CsInvalid

record commit_entry =
  ce_commitment :: tx_commitment
  ce_encrypted_tx :: "bytes option"
  ce_status :: commit_status

datatype commit_reveal_error = CrNotFound bytes | CrAlreadyRevealed | CrCommitmentMismatch | CrExpired

record commit_reveal_pool =
  cp_entries :: "(bytes \<times> commit_entry) list"
  cp_next_seq :: u64
  cp_reveal_timeout_ms :: u64

definition cr_new :: "u64 \<Rightarrow> commit_reveal_pool" where
  "cr_new reveal_timeout_ms = \<lparr>cp_entries = [], cp_next_seq = 0, cp_reveal_timeout_ms = reveal_timeout_ms\<rparr>"

definition cr_commit :: "bytes \<Rightarrow> bytes option \<Rightarrow> u64 \<Rightarrow> commit_reveal_pool \<Rightarrow> commit_reveal_pool \<times> tx_commitment" where
  "cr_commit commitment_hash encrypted_tx now_ms p =
     (let tc = \<lparr>tc_commitment = commitment_hash, tc_sequence = cp_next_seq p, tc_received_at_ms = now_ms\<rparr>
      in (p\<lparr>cp_next_seq := cp_next_seq p + 1,
            cp_entries := AList.update commitment_hash
              \<lparr>ce_commitment = tc, ce_encrypted_tx = encrypted_tx, ce_status = CsCommitted\<rparr> (cp_entries p)\<rparr>, tc))"

definition set_status :: "bytes \<Rightarrow> commit_entry \<Rightarrow> commit_status \<Rightarrow> commit_reveal_pool \<Rightarrow> commit_reveal_pool" where
  "set_status k e st p = p\<lparr>cp_entries := AList.update k (e\<lparr>ce_status := st\<rparr>) (cp_entries p)\<rparr>"

definition cr_reveal ::
  "(bytes \<Rightarrow> bytes) \<Rightarrow> bytes \<Rightarrow> bytes \<Rightarrow> bytes \<Rightarrow> u64 \<Rightarrow> commit_reveal_pool \<Rightarrow> commit_reveal_pool \<times> (commit_reveal_error + u64)" where
  "cr_reveal blake3 commitment_hash tx_bytes nonce now_ms p =
     (case map_of (cp_entries p) commitment_hash of
        None \<Rightarrow> (p, Inl (CrNotFound commitment_hash))
      | Some e \<Rightarrow> (case ce_status e of
          CsRevealed _ \<Rightarrow> (p, Inl CrAlreadyRevealed)
        | CsExpired \<Rightarrow> (p, Inl CrExpired)
        | CsInvalid \<Rightarrow> (p, Inl CrExpired)
        | CsCommitted \<Rightarrow>
            if saturating_sub now_ms (tc_received_at_ms (ce_commitment e)) > cp_reveal_timeout_ms p
            then (set_status commitment_hash e CsExpired p, Inl CrExpired)
            else if compute_tx_commitment blake3 (blake3 tx_bytes) nonce \<noteq> commitment_hash
            then (set_status commitment_hash e CsInvalid p, Inl CrCommitmentMismatch)
            else (set_status commitment_hash e (CsRevealed tx_bytes) p, Inr (tc_sequence (ce_commitment e)))))"

definition expire_entry :: "u64 \<Rightarrow> u64 \<Rightarrow> commit_entry \<Rightarrow> commit_entry" where
  "expire_entry timeout_ms now_ms e =
     (if ce_status e = CsCommitted \<and> saturating_sub now_ms (tc_received_at_ms (ce_commitment e)) > timeout_ms
      then e\<lparr>ce_status := CsExpired\<rparr> else e)"

definition expire_stale :: "u64 \<Rightarrow> commit_reveal_pool \<Rightarrow> commit_reveal_pool" where
  "expire_stale now_ms p = p\<lparr>cp_entries := map (\<lambda>(k, e). (k, expire_entry (cp_reveal_timeout_ms p) now_ms e)) (cp_entries p)\<rparr>"

definition revealed_of :: "commit_entry \<Rightarrow> (u64 \<times> bytes) option" where
  "revealed_of e = (case ce_status e of CsRevealed tx_bytes \<Rightarrow> Some (tc_sequence (ce_commitment e), tx_bytes) | _ \<Rightarrow> None)"

definition drain_revealed :: "commit_reveal_pool \<Rightarrow> commit_reveal_pool \<times> (u64 \<times> bytes) list" where
  "drain_revealed p =
     (p\<lparr>cp_entries := filter (\<lambda>(_, e). revealed_of e = None) (cp_entries p)\<rparr>,
      sort_key fst (List.map_filter (\<lambda>(_, e). revealed_of e) (cp_entries p)))"

definition committed_count :: "commit_reveal_pool \<Rightarrow> nat" where
  "committed_count p = length (filter (\<lambda>(_, e). ce_status e = CsCommitted) (cp_entries p))"

section \<open>Redistribution\<close>

record mev_redistribution =
  mv_total_captured_sscl :: u64
  mv_total_redistributed_sscl :: u64

definition mev_new :: mev_redistribution where
  "mev_new = \<lparr>mv_total_captured_sscl = 0, mv_total_redistributed_sscl = 0\<rparr>"

definition record_capture :: "u64 \<Rightarrow> mev_redistribution \<Rightarrow> mev_redistribution" where
  "record_capture amount_sscl m = m\<lparr>mv_total_captured_sscl := saturating_add (mv_total_captured_sscl m) amount_sscl\<rparr>"

definition pending_sscl :: "mev_redistribution \<Rightarrow> u64" where
  "pending_sscl m = saturating_sub (mv_total_captured_sscl m) (mv_total_redistributed_sscl m)"

definition redistribute :: "mev_redistribution \<Rightarrow> mev_redistribution \<times> u64" where
  "redistribute m =
     (m\<lparr>mv_total_redistributed_sscl := saturating_add (mv_total_redistributed_sscl m) (pending_sscl m)\<rparr>, pending_sscl m)"

definition mev_invariant_holds :: "mev_redistribution \<Rightarrow> bool" where
  "mev_invariant_holds m \<longleftrightarrow> mv_total_captured_sscl m \<ge> mv_total_redistributed_sscl m"

section \<open>Relay\<close>

record relay_node =
  rn_seq_nums :: "bytes \<rightharpoonup> u64"
  rn_rate_limits :: "bytes \<rightharpoonup> u64 list"
  rn_phase2_run_count :: u64

datatype relay_error = SeqNotMonotonic | RelayRateLimited

definition relay_new :: relay_node where
  "relay_new = \<lparr>rn_seq_nums = Map.empty, rn_rate_limits = Map.empty, rn_phase2_run_count = 0\<rparr>"

definition validate_and_relay :: "bytes \<Rightarrow> u64 \<Rightarrow> u64 \<Rightarrow> relay_node \<Rightarrow> relay_node \<times> (relay_error + unit)" where
  "validate_and_relay node_id seq_num timestamp_ms r =
     (if (case rn_seq_nums r node_id of Some last_seq \<Rightarrow> seq_num \<le> last_seq | None \<Rightarrow> False) then (r, Inl SeqNotMonotonic)
      else
        let timestamps = filter (\<lambda>ts. saturating_sub timestamp_ms ts < 60000) (unwrap_or (rn_rate_limits r node_id) []);
            r1 = r\<lparr>rn_rate_limits := (rn_rate_limits r)(node_id \<mapsto> timestamps)\<rparr>
        in if length timestamps \<ge> 10 then (r1, Inl RelayRateLimited)
           else (r1\<lparr>rn_seq_nums := (rn_seq_nums r)(node_id \<mapsto> seq_num),
                    rn_rate_limits := (rn_rate_limits r)(node_id \<mapsto> timestamps @ [timestamp_ms]),
                    rn_phase2_run_count := rn_phase2_run_count r + 1\<rparr>, Inr ()))"

section \<open>What the stem guarantees\<close>

lemma advance_stem_iterate: "n \<le> 10 \<Longrightarrow> (advance_stem_phase ^^ n) new_stem = Stem (of_nat (10 - n))"
proof (induction n)
  case 0
  show ?case by (simp add: new_stem_def MAX_STEM_HOPS_def)
next
  case (Suc n)
  have "(of_nat (10 - n) :: u64) = of_nat (10 - Suc n) + 1" using Suc.prems by (simp flip: of_nat_Suc add: Suc_diff_Suc Suc_le_eq)
  moreover have "unat (of_nat (10 - n) :: u64) = 10 - n" by (intro unat_of_nat_small) simp
  then have "(of_nat (10 - n) :: u64) \<noteq> 0" using Suc.prems by (auto simp: unat_eq_0 [symmetric])
  ultimately show ?case using Suc by (simp add: advance_stem_phase_def)
qed

text \<open>No transaction stays in the stem: a new stem is left after exactly eleven advances, whatever is decided on the
  way, and the phase never goes back; without peers or hops left the decision is to broadcast, and a forward goes to an
  existing peer.\<close>

theorem stem_always_ends:
  "((advance_stem_phase ^^ n) new_stem = Fluff) = (11 \<le> n)
   \<and> (case decide_stem_routing phase tx hop peers of ForwardStem i \<Rightarrow> i < peers \<and> is_stem phase | Broadcast \<Rightarrow> True)"
proof
  have 11: "(advance_stem_phase ^^ 11) new_stem = Fluff"
    using advance_stem_iterate [of 10] by (simp add: advance_stem_phase_def eval_nat_numeral)
  have stay: "(advance_stem_phase ^^ k) Fluff = Fluff" for k by (induction k) (simp_all add: advance_stem_phase_def)
  show "((advance_stem_phase ^^ n) new_stem = Fluff) = (11 \<le> n)"
  proof (cases "11 \<le> n")
    case True
    then have "(advance_stem_phase ^^ n) new_stem = (advance_stem_phase ^^ (n - 11)) ((advance_stem_phase ^^ 11) new_stem)"
      by (metis funpow_add le_add_diff_inverse2 o_apply)
    then show ?thesis using True stay 11 by simp
  next
    case False
    then show ?thesis using advance_stem_iterate [of n] by simp
  qed
  show "case decide_stem_routing phase tx hop peers of ForwardStem i \<Rightarrow> i < peers \<and> is_stem phase | Broadcast \<Rightarrow> True"
    by (auto simp: decide_stem_routing_def is_stem_def split: dandelion_phase.splits)
qed

text \<open>Padding hides the length within its size class: the padded length is the smallest of four sizes that fits, so two
  payloads of one class look alike; a payload above 256 KB gets no padding at all and shows its length.\<close>

theorem padding_hides_length:
  "payload + compute_padding_bytes payload =
     (if payload \<le> 1024 then 1024 else if payload \<le> 16384 then 16384 else if payload \<le> 65536 then 65536
      else if payload \<le> 262144 then 262144 else payload)"
  by (simp add: compute_padding_bytes_def select_padding_size_def PADDING_SIZES_def)

definition bw_fill :: "(u64 \<times> u64) list \<Rightarrow> batch_window \<Rightarrow> batch_window" where
  "bw_fill txs = fold (\<lambda>(tx_id, now_s). bw_add tx_id now_s) txs"

lemma bw_pending_fill: "map be_tx_id (bw_pending (bw_fill txs w)) = map be_tx_id (bw_pending w) @ map fst txs"
  by (induction txs arbitrary: w) (auto simp: bw_fill_def bw_add_def)

lemma drain_ordered_sort_key:
  "snd (drain_ordered blake3 seed now w) = sort_key (batch_sort_key blake3 seed) (map be_tx_id (bw_pending w))"
proof -
  have "map g (insort_key (\<lambda>e. f (g e)) x xs) = insort_key f (g x) (map g xs)" for f :: "u64 \<Rightarrow> u64" and g :: "batch_entry \<Rightarrow> u64" and x xs
    by (induction xs) auto
  then have "map g (sort_key (\<lambda>e. f (g e)) xs) = sort_key f (map g xs)" for f :: "u64 \<Rightarrow> u64" and g :: "batch_entry \<Rightarrow> u64" and xs
    by (induction xs) auto
  then show ?thesis by (simp add: drain_ordered_def Let_def)
qed

text \<open>The batch of a small network hides who came first: as long as the sort keys of its transactions differ, the order
  in which a window is emptied depends on the set of transactions and the seed only, not on the order or the times of
  arrival; every transaction leaves exactly once and the window starts again empty.\<close>

theorem batch_hides_arrival_order:
  assumes "mset (map fst arrivals) = mset (map fst arrivals')" "inj_on (batch_sort_key blake3 seed) (fst ` set arrivals)"
  shows "snd (drain_ordered blake3 seed now (bw_fill arrivals (bw_new t))) = snd (drain_ordered blake3 seed now' (bw_fill arrivals' (bw_new t')))
    \<and> mset (snd (drain_ordered blake3 seed now (bw_fill arrivals (bw_new t)))) = mset (map fst arrivals)
    \<and> fst (drain_ordered blake3 seed now (bw_fill arrivals (bw_new t))) = bw_new now"
proof -
  have out: "snd (drain_ordered blake3 seed now (bw_fill as (bw_new t))) = sort_key (batch_sort_key blake3 seed) (map fst as)" for as now t
    by (simp add: drain_ordered_sort_key bw_pending_fill) (simp add: bw_new_def)
  have "sort_key (batch_sort_key blake3 seed) (map fst arrivals) = sort_key (batch_sort_key blake3 seed) (map fst arrivals')"
    using assms by (intro sort_key_inj_key_eq) simp_all
  then show ?thesis using assms(1) by (simp add: out) (simp add: drain_ordered_def Let_def bw_new_def)
qed

theorem batch_hides_arrival_order_witness:
  "snd (drain_ordered (drop 16) 0 0 (bw_fill [(1, 10), (2, 20)] (bw_new 0))) = snd (drain_ordered (drop 16) 0 0 (bw_fill [(2, 11), (1, 22)] (bw_new 0)))"
proof -
  have "batch_sort_key (drop 16) 0 1 = 1" "batch_sort_key (drop 16) 0 2 = 2" by code_simp+
  then show ?thesis using batch_hides_arrival_order [of "[(1, 10), (2, 20)]" "[(2, 11), (1, 22)]" "drop 16" 0 0 0 0 0] by simp
qed

section \<open>What commit and reveal guarantee\<close>

abbreviation entry_seq :: "bytes \<times> commit_entry \<Rightarrow> u64" where
  "entry_seq x \<equiv> tc_sequence (ce_commitment (snd x))"

definition entry_ok :: "(bytes \<Rightarrow> bytes) \<Rightarrow> u64 \<Rightarrow> bytes \<times> commit_entry \<Rightarrow> bool" where
  "entry_ok blake3 next_seq x \<longleftrightarrow> entry_seq x < next_seq
     \<and> (case ce_status (snd x) of CsRevealed tx \<Rightarrow> (\<exists>nonce. compute_tx_commitment blake3 (blake3 tx) nonce = fst x) | _ \<Rightarrow> True)"

definition cr_wf :: "(bytes \<Rightarrow> bytes) \<Rightarrow> commit_reveal_pool \<Rightarrow> bool" where
  "cr_wf blake3 p \<longleftrightarrow> unique_keys (cp_entries p) \<and> inj_on entry_seq (set (cp_entries p))
     \<and> list_all (entry_ok blake3 (cp_next_seq p)) (cp_entries p)"

lemma set_alist_update: "unique_keys m \<Longrightarrow> set (AList.update k v m) = insert (k, v) {x \<in> set m. fst x \<noteq> k}"
  by (induction m) (auto simp: unique_keys_def image_iff)

lemma cr_wf_update:
  assumes "cr_wf blake3 p" "entry_ok blake3 n (k, e)" "cp_next_seq p \<le> n"
    and "\<forall>x\<in>set (cp_entries p). fst x \<noteq> k \<longrightarrow> entry_seq x \<noteq> entry_seq (k, e)"
  shows "cr_wf blake3 (p\<lparr>cp_next_seq := n, cp_entries := AList.update k e (cp_entries p)\<rparr>)"
proof -
  have u: "unique_keys (cp_entries p)" and inj: "inj_on entry_seq (set (cp_entries p))"
    and ok: "\<And>x. x \<in> set (cp_entries p) \<Longrightarrow> entry_ok blake3 (cp_next_seq p) x"
    using assms(1) by (auto simp: cr_wf_def list_all_iff)
  have "entry_ok blake3 n x" if "x \<in> set (cp_entries p)" for x
    using ok [OF that] assms(3) by (auto simp: entry_ok_def dest: less_le_trans)
  moreover have "inj_on entry_seq {x \<in> set (cp_entries p). fst x \<noteq> k}" using inj by (rule inj_on_subset) blast
  then have "inj_on entry_seq (insert (k, e) {x \<in> set (cp_entries p). fst x \<noteq> k})"
    using assms(4) by (auto simp: inj_on_insert)
  ultimately show ?thesis using u assms(2) by (auto simp: cr_wf_def list_all_iff set_alist_update)
qed

lemma cr_wf_set_status:
  assumes "cr_wf blake3 p" "map_of (cp_entries p) k = Some e" "entry_ok blake3 (cp_next_seq p) (k, e\<lparr>ce_status := st\<rparr>)"
  shows "cr_wf blake3 (set_status k e st p)"
proof -
  have mem: "(k, e) \<in> set (cp_entries p)" using assms(2) by (rule map_of_SomeD)
  have "x = (k, e)" if "x \<in> set (cp_entries p)" "entry_seq x = entry_seq (k, e)" for x
    using assms(1) that mem inj_onD [of entry_seq "set (cp_entries p)" x "(k, e)"] by (simp add: cr_wf_def)
  then have "\<forall>x\<in>set (cp_entries p). fst x \<noteq> k \<longrightarrow> entry_seq x \<noteq> entry_seq (k, e\<lparr>ce_status := st\<rparr>)" by auto
  from cr_wf_update [OF assms(1,3) order_refl this] show ?thesis by (simp add: set_status_def)
qed

lemma cr_wf_commit: "cr_wf blake3 p \<Longrightarrow> unat (cp_next_seq p) + 1 < 2 ^ 64 \<Longrightarrow> cr_wf blake3 (fst (cr_commit h enc now p))"
proof -
  assume wf: "cr_wf blake3 p" and small: "unat (cp_next_seq p) + 1 < 2 ^ 64"
  have inc: "unat (cp_next_seq p + 1) = unat (cp_next_seq p) + 1" using small unat_add_no_overflow [of "cp_next_seq p" 1] by simp
  have "entry_seq x \<noteq> cp_next_seq p" if "x \<in> set (cp_entries p)" for x
    using wf that by (auto simp: cr_wf_def list_all_iff entry_ok_def)
  then show "cr_wf blake3 (fst (cr_commit h enc now p))" unfolding cr_commit_def Let_def fst_conv
    using inc by (intro cr_wf_update [OF wf]) (auto simp: entry_ok_def word_less_nat_alt word_le_nat_alt)
qed

lemma cr_wf_reveal: "cr_wf blake3 p \<Longrightarrow> cr_wf blake3 (fst (cr_reveal blake3 h tx nonce now p))"
proof -
  assume wf: "cr_wf blake3 p"
  have seq: "entry_seq (h, e) < cp_next_seq p" if "map_of (cp_entries p) h = Some e" for e
    using wf map_of_SomeD [OF that] by (auto simp: entry_ok_def cr_wf_def list_all_iff)
  have "cr_wf blake3 (set_status h e st p)" if e: "map_of (cp_entries p) h = Some e" and st: "st = CsExpired \<or> st = CsInvalid" for e st
    using seq [OF e] st by (intro cr_wf_set_status [OF wf e]) (auto simp: entry_ok_def)
  moreover have "cr_wf blake3 (set_status h e (CsRevealed tx) p)"
    if e: "map_of (cp_entries p) h = Some e" and c: "compute_tx_commitment blake3 (blake3 tx) nonce = h" for e
    using seq [OF e] c by (intro cr_wf_set_status [OF wf e]) (auto simp: entry_ok_def)
  ultimately show ?thesis using wf by (auto simp: cr_reveal_def split: option.splits commit_status.splits)
qed

lemma expire_entry_simps [simp]: "ce_commitment (expire_entry t now e) = ce_commitment e"
  "ce_status (expire_entry t now e) = CsRevealed tx \<longleftrightarrow> ce_status e = CsRevealed tx"
  by (auto simp: expire_entry_def)

lemma cr_wf_expire: "cr_wf blake3 p \<Longrightarrow> cr_wf blake3 (expire_stale now p)"
proof -
  assume wf: "cr_wf blake3 p"
  let ?f = "\<lambda>(k, e). (k, expire_entry (cp_reveal_timeout_ms p) now e)"
  have "entry_ok blake3 n (?f x)" if "entry_ok blake3 n x" for n x
    using that by (cases x) (auto simp: entry_ok_def expire_entry_def split: commit_status.splits)
  then have "list_all (entry_ok blake3 (cp_next_seq p)) (map ?f (cp_entries p))" using wf by (auto simp: cr_wf_def list_all_iff)
  moreover have "map fst (map ?f (cp_entries p)) = map fst (cp_entries p)" by (simp add: case_prod_unfold)
  then have "unique_keys (map ?f (cp_entries p))" using wf unfolding cr_wf_def unique_keys_def by metis
  moreover have "inj_on entry_seq (?f ` set (cp_entries p))"
    using wf by (auto simp: cr_wf_def inj_on_def) (metis (no_types, lifting) snd_conv Pair_inject)+
  ultimately show ?thesis by (simp add: cr_wf_def expire_stale_def)
qed

lemma cr_wf_drain: "cr_wf blake3 p \<Longrightarrow> cr_wf blake3 (fst (drain_revealed p))"
  by (auto simp: cr_wf_def drain_revealed_def unique_keys_def list_all_iff distinct_map_filter inj_on_def)

datatype cr_op = CrCommit bytes "bytes option" u64 | CrReveal bytes bytes bytes u64 | CrExpire u64 | CrDrain

primrec cr_step :: "(bytes \<Rightarrow> bytes) \<Rightarrow> cr_op \<Rightarrow> commit_reveal_pool \<Rightarrow> commit_reveal_pool" where
  "cr_step blake3 (CrCommit h enc now) p = fst (cr_commit h enc now p)"
| "cr_step blake3 (CrReveal h tx nonce now) p = fst (cr_reveal blake3 h tx nonce now p)"
| "cr_step blake3 (CrExpire now) p = expire_stale now p"
| "cr_step blake3 CrDrain p = fst (drain_revealed p)"

text \<open>What a run hands out, drain after drain.\<close>

definition cr_output :: "cr_op \<Rightarrow> commit_reveal_pool \<Rightarrow> (u64 \<times> bytes) list" where
  "cr_output op p = (if op = CrDrain then snd (drain_revealed p) else [])"

fun cr_drained :: "(bytes \<Rightarrow> bytes) \<Rightarrow> cr_op list \<Rightarrow> commit_reveal_pool \<Rightarrow> (u64 \<times> bytes) list" where
  "cr_drained blake3 [] p = []"
| "cr_drained blake3 (op # ops) p = cr_output op p @ cr_drained blake3 ops (cr_step blake3 op p)"

lemma cr_drained_snoc: "cr_drained blake3 (ops @ [op]) p = cr_drained blake3 ops p @ cr_output op (fold (cr_step blake3) ops p)"
  by (induction ops arbitrary: p) simp_all

lemma set_update_subset: "set (AList.update k v xs) \<subseteq> insert (k, v) (set xs)"
  by (induction xs) auto

lemma next_seq_step:
  assumes "unat (cp_next_seq p) + 1 < 2 ^ 64"
  shows "unat (cp_next_seq (cr_step blake3 op p)) \<le> unat (cp_next_seq p) + 1" "cp_next_seq p \<le> cp_next_seq (cr_step blake3 op p)"
proof -
  have inc: "unat (cp_next_seq p + 1) = unat (cp_next_seq p) + 1" using assms unat_add_no_overflow [of "cp_next_seq p" 1] by simp
  have cases: "cp_next_seq (cr_step blake3 op p) \<in> {cp_next_seq p, cp_next_seq p + 1}"
    by (cases op) (auto simp: cr_commit_def cr_reveal_def set_status_def expire_stale_def drain_revealed_def Let_def
        split: option.splits commit_status.splits)
  then show "unat (cp_next_seq (cr_step blake3 op p)) \<le> unat (cp_next_seq p) + 1" using inc by auto
  show "cp_next_seq p \<le> cp_next_seq (cr_step blake3 op p)" using cases inc by (auto simp: word_le_nat_alt)
qed

lemma cr_wf_step: "cr_wf blake3 p \<Longrightarrow> unat (cp_next_seq p) + 1 < 2 ^ 64 \<Longrightarrow> cr_wf blake3 (cr_step blake3 op p)"
  by (cases op) (auto intro: cr_wf_commit cr_wf_reveal cr_wf_expire cr_wf_drain)

lemma entry_seqs_step:
  "entry_seq ` set (cp_entries (cr_step blake3 op p)) \<subseteq> insert (cp_next_seq p) (entry_seq ` set (cp_entries p))"
proof -
  have "entry_seq ` set (cp_entries (set_status h e st p)) \<subseteq> entry_seq ` set (cp_entries p)"
    if "map_of (cp_entries p) h = Some e" for h e st
  proof -
    have "entry_seq (h, e\<lparr>ce_status := st\<rparr>) = entry_seq (h, e)" by simp
    then show ?thesis using map_of_SomeD [OF that] set_update_subset [of h "e\<lparr>ce_status := st\<rparr>" "cp_entries p"]
      by (fastforce simp: set_status_def)
  qed
  then have reveal: "entry_seq ` set (cp_entries (fst (cr_reveal blake3 h tx nonce now p))) \<subseteq> entry_seq ` set (cp_entries p)" for h tx nonce now
    by (auto simp: cr_reveal_def split: option.splits commit_status.splits)
  show ?thesis
  proof (cases op)
    case (CrCommit h enc now)
    then show ?thesis using set_update_subset by (fastforce simp: cr_commit_def Let_def)
  next
    case (CrReveal h tx nonce now)
    then show ?thesis using reveal [of h tx nonce now] by auto
  next
    case (CrExpire now)
    have "entry_seq ` set (map (\<lambda>(k, e). (k, expire_entry t now e)) es) = entry_seq ` set es" for t es
      by (induction es) auto
    then show ?thesis using CrExpire by (simp add: expire_stale_def) blast
  next
    case CrDrain
    then show ?thesis by (auto simp: drain_revealed_def)
  qed
qed

lemma entry_seqs_below:
  "cr_wf blake3 p \<Longrightarrow> x \<in> set (cp_entries p) \<Longrightarrow> entry_seq x < cp_next_seq p"
  by (auto simp: cr_wf_def list_all_iff entry_ok_def)

lemma revealed_of_Some: "revealed_of e = Some (s, tx) \<longleftrightarrow> ce_status e = CsRevealed tx \<and> s = tc_sequence (ce_commitment e)"
  by (auto simp: revealed_of_def split: commit_status.splits)

lemma drained_sequences:
  "map fst (List.map_filter (\<lambda>(_, e). revealed_of e) es) = map entry_seq (filter (\<lambda>x. revealed_of (snd x) \<noteq> None) es)"
  by (induction es) (auto simp: List.map_filter_simps revealed_of_def split: option.splits commit_status.splits)

lemma drained_iff:
  "(s, tx) \<in> set (snd (drain_revealed p)) \<longleftrightarrow>
     (\<exists>k e. (k, e) \<in> set (cp_entries p) \<and> ce_status e = CsRevealed tx \<and> tc_sequence (ce_commitment e) = s)"
proof -
  have "x \<in> set (List.map_filter f es) \<longleftrightarrow> (\<exists>a\<in>set es. f a = Some x)" for x and f :: "bytes \<times> commit_entry \<Rightarrow> (u64 \<times> bytes) option" and es
    by (induction es) (auto simp: List.map_filter_simps split: option.splits)
  then show ?thesis by (simp add: drain_revealed_def revealed_of_Some Bex_def eq_commute [of s])
qed

lemma drained_sorted:
  assumes "cr_wf blake3 p"
  shows "sorted_wrt (<) (map fst (snd (drain_revealed p)))"
proof -
  let ?L = "List.map_filter (\<lambda>(_, e). revealed_of e) (cp_entries p)"
  have "distinct (cp_entries p)" "inj_on entry_seq (set (cp_entries p))" using assms by (auto simp: cr_wf_def unique_keys_def distinct_map)
  then have "distinct (map entry_seq (filter (\<lambda>x. revealed_of (snd x) \<noteq> None) (cp_entries p)))"
    by (simp add: distinct_map inj_on_def)
  then have "distinct (map fst ?L)" by (simp only: drained_sequences)
  moreover have "mset (map fst (sort_key fst ?L)) = mset (map fst ?L)" by simp
  ultimately have "distinct (map fst (sort_key fst ?L))" by (metis mset_eq_imp_distinct_iff)
  moreover have "sorted (map fst (sort_key fst ?L))" by simp
  ultimately show ?thesis by (simp add: strict_sorted_iff drain_revealed_def)
qed

lemma drained_removed:
  assumes "cr_wf blake3 p" "s \<in> fst ` set (snd (drain_revealed p))"
  shows "s < cp_next_seq p" "s \<in> entry_seq ` set (cp_entries p)" "s \<notin> entry_seq ` set (cp_entries (fst (drain_revealed p)))"
proof -
  obtain k e tx where e: "(k, e) \<in> set (cp_entries p)" "ce_status e = CsRevealed tx" "s = entry_seq (k, e)"
    using assms(2) by (auto simp: drained_iff)
  then show "s < cp_next_seq p" "s \<in> entry_seq ` set (cp_entries p)" using entry_seqs_below [OF assms(1)] by blast+
  have "x = (k, e)" if "x \<in> set (cp_entries p)" "entry_seq x = s" for x
    using assms(1) that e inj_onD [of entry_seq "set (cp_entries p)" x "(k, e)"] by (simp add: cr_wf_def)
  then show "s \<notin> entry_seq ` set (cp_entries (fst (drain_revealed p)))"
    using e(2) by (auto simp: drain_revealed_def revealed_of_def split: commit_status.splits)
qed

text \<open>The invariant of a run: the numbers handed out so far are distinct, below the next one and no longer in the pool.\<close>

lemma cr_run_inv:
  fixes blake3 :: "bytes \<Rightarrow> bytes" and timeout :: u64
  assumes "length ops < 2 ^ 64"
  defines "p \<equiv> fold (cr_step blake3) ops (cr_new timeout)" and "out \<equiv> map fst (cr_drained blake3 ops (cr_new timeout))"
  shows "cr_wf blake3 p \<and> unat (cp_next_seq p) \<le> length ops \<and> distinct out
    \<and> (\<forall>s\<in>set out. s < cp_next_seq p \<and> s \<notin> entry_seq ` set (cp_entries p))"
  using assms(1) unfolding p_def out_def
proof (induction ops rule: rev_induct)
  case Nil
  show ?case by (simp add: cr_new_def cr_wf_def)
next
  case (snoc op ops)
  let ?p = "fold (cr_step blake3) ops (cr_new timeout)" and ?out = "map fst (cr_drained blake3 ops (cr_new timeout))"
  have p: "cr_wf blake3 ?p" "unat (cp_next_seq ?p) \<le> length ops" "distinct ?out"
    "\<forall>s\<in>set ?out. s < cp_next_seq ?p \<and> s \<notin> entry_seq ` set (cp_entries ?p)" using snoc by auto
  have small: "unat (cp_next_seq ?p) + 1 < 2 ^ 64" using p(2) snoc.prems by simp
  note next_seq = next_seq_step [OF small, of blake3 op]
  have old: "s < cp_next_seq (cr_step blake3 op ?p) \<and> s \<notin> entry_seq ` set (cp_entries (cr_step blake3 op ?p))" if "s \<in> set ?out" for s
  proof -
    have s: "s < cp_next_seq ?p" "s \<notin> entry_seq ` set (cp_entries ?p)" using p(4) that by blast+
    then have "s \<notin> insert (cp_next_seq ?p) (entry_seq ` set (cp_entries ?p))" by blast
    then show ?thesis using s(1) next_seq(2) entry_seqs_step [of blake3 op ?p] by (meson less_le_trans subsetD)
  qed
  have new: "s < cp_next_seq (cr_step blake3 op ?p) \<and> s \<notin> entry_seq ` set (cp_entries (cr_step blake3 op ?p)) \<and> s \<notin> set ?out"
    if "s \<in> set (map fst (cr_output op ?p))" for s
  proof -
    have op: "op = CrDrain" "s \<in> fst ` set (snd (drain_revealed ?p))" using that by (auto simp: cr_output_def split: if_splits)
    then show ?thesis using drained_removed [OF p(1) op(2)] p(4) next_seq(2) by fastforce
  qed
  have "distinct (map fst (cr_output op ?p))"
    using drained_sorted [OF p(1)] by (simp add: cr_output_def strict_sorted_iff)
  then have "distinct (map fst (cr_drained blake3 (ops @ [op]) (cr_new timeout)))"
    using p(3) new by (auto simp: cr_drained_snoc)
  moreover have "unat (cp_next_seq (cr_step blake3 op ?p)) \<le> length (ops @ [op])" using next_seq(1) p(2) by simp
  moreover have "set (map fst (cr_drained blake3 (ops @ [op]) (cr_new timeout))) = set ?out \<union> set (map fst (cr_output op ?p))"
    by (simp add: cr_drained_snoc image_Un)
  then have "\<forall>s\<in>set (map fst (cr_drained blake3 (ops @ [op]) (cr_new timeout))).
      s < cp_next_seq (cr_step blake3 op ?p) \<and> s \<notin> entry_seq ` set (cp_entries (cr_step blake3 op ?p))"
    using old new by blast
  ultimately show ?case using cr_wf_step [OF p(1) small, of op] by simp
qed

lemma cr_run_wf: "length ops < 2 ^ 64 \<Longrightarrow> cr_wf blake3 (fold (cr_step blake3) ops (cr_new timeout))"
  using cr_run_inv by blast

lemma reveal_then_drained:
  assumes "cr_wf blake3 p" "cr_reveal blake3 h tx nonce now p = (p', Inr s)"
  shows "(s, tx) \<in> set (snd (drain_revealed p'))"
proof -
  obtain e where e: "p' = set_status h e (CsRevealed tx) p" "s = tc_sequence (ce_commitment e)"
    using assms(2) by (auto simp: cr_reveal_def split: option.splits commit_status.splits if_splits)
  let ?e = "e\<lparr>ce_status := CsRevealed tx\<rparr>"
  have "map_of (cp_entries p') h = Some ?e" by (simp add: e(1) set_status_def)
  then have "(h, ?e) \<in> set (cp_entries p')" by (rule map_of_SomeD)
  moreover have "ce_status ?e = CsRevealed tx" "tc_sequence (ce_commitment ?e) = s" by (simp_all add: e(2))
  ultimately show ?thesis unfolding drained_iff by blast
qed

text \<open>C20. Transactions come out in the order of their commitments: after any operations on a new pool, fewer than \<open>2 ^ 64\<close>
  of them, a drain hands out exactly the revealed transactions of the pool, strictly ordered by the number given when they were committed; each
  opens the commitment it was stored under, and the drain leaves exactly the other entries.  A reveal that was accepted
  is handed out by the next drain, and over the whole run no number is handed out twice.  (A commitment made again
  gets a new number.)\<close>

theorem drain_in_commit_order:
  assumes "length ops + 1 < 2 ^ 64"
  shows "let p = fold (cr_step blake3) ops (cr_new timeout); drained = snd (drain_revealed p) in
     sorted_wrt (<) (map fst drained)
     \<and> (\<forall>s tx. (s, tx) \<in> set drained \<longleftrightarrow>
          (\<exists>k e. map_of (cp_entries p) k = Some e \<and> ce_status e = CsRevealed tx \<and> tc_sequence (ce_commitment e) = s))
     \<and> (\<forall>(s, tx)\<in>set drained. \<exists>k e nonce. map_of (cp_entries p) k = Some e \<and> tc_sequence (ce_commitment e) = s
          \<and> compute_tx_commitment blake3 (blake3 tx) nonce = k)
     \<and> set (cp_entries (fst (drain_revealed p))) = {(k, e) \<in> set (cp_entries p). \<forall>tx. ce_status e \<noteq> CsRevealed tx}
     \<and> (\<forall>h tx nonce now p' s. cr_reveal blake3 h tx nonce now p = (p', Inr s) \<longrightarrow> (s, tx) \<in> set (snd (drain_revealed p')))
     \<and> distinct (map fst (cr_drained blake3 (ops @ [CrDrain]) (cr_new timeout)))"
proof -
  let ?p = "fold (cr_step blake3) ops (cr_new timeout)" and ?run = "ops @ [CrDrain]"
  have wf: "cr_wf blake3 ?p" using assms by (intro cr_run_wf) simp
  have mem: "(k, e) \<in> set (cp_entries ?p) \<longleftrightarrow> map_of (cp_entries ?p) k = Some e" for k e
    using wf by (simp add: cr_wf_def unique_keys_def)
  have opens: "\<exists>nonce. compute_tx_commitment blake3 (blake3 tx) nonce = k"
    if "map_of (cp_entries ?p) k = Some e" "ce_status e = CsRevealed tx" for k e tx
    using that(2) that(1) [folded mem] wf by (auto simp: cr_wf_def list_all_iff entry_ok_def split: commit_status.splits)
  have rest: "set (cp_entries (fst (drain_revealed ?p))) = {(k, e) \<in> set (cp_entries ?p). \<forall>tx. ce_status e \<noteq> CsRevealed tx}"
    by (auto simp: drain_revealed_def revealed_of_def split: commit_status.splits)
  have once: "distinct (map fst (cr_drained blake3 ?run (cr_new timeout)))"
    using cr_run_inv [of ?run blake3 timeout] assms by simp
  have "(s, tx) \<in> set (snd (drain_revealed ?p)) \<longleftrightarrow>
      (\<exists>k e. map_of (cp_entries ?p) k = Some e \<and> ce_status e = CsRevealed tx \<and> tc_sequence (ce_commitment e) = s)" for s tx
    by (simp only: drained_iff mem)
  then show ?thesis unfolding Let_def
    using drained_sorted [OF wf] opens rest once reveal_then_drained [OF wf] by (intro conjI) blast+
qed

text \<open>Two commitments, revealed in the opposite order.\<close>

definition sample_ops :: "cr_op list" where
  "sample_ops = [CrCommit (TX_ORDER_DOMAIN @ [1]) None 5, CrCommit (TX_ORDER_DOMAIN @ [2]) None 6,
     CrReveal (TX_ORDER_DOMAIN @ [2]) [2] [] 7, CrReveal (TX_ORDER_DOMAIN @ [1]) [1] [] 8]"

theorem drain_in_commit_order_witness:
  "snd (drain_revealed (fold (cr_step (\<lambda>m. m)) sample_ops (cr_new 100))) = [(0, [1]), (1, [2])]
   \<and> sorted_wrt (<) (map fst (snd (drain_revealed (fold (cr_step (\<lambda>m. m)) sample_ops (cr_new 100)))))
   \<and> distinct (map fst (cr_drained (\<lambda>m. m) (sample_ops @ [CrDrain]) (cr_new 100)))"
proof -
  have "length sample_ops + 1 < 2 ^ 64" by (simp add: sample_ops_def)
  moreover have "snd (drain_revealed (fold (cr_step (\<lambda>m. m)) sample_ops (cr_new 100))) = [(0, [1]), (1, [2])]" by code_simp
  ultimately show ?thesis using drain_in_commit_order [of sample_ops "\<lambda>m. m" 100] unfolding Let_def by blast
qed

text \<open>A commitment can be destroyed by anyone who sees it: a reveal that does not match is not just refused but makes the
  entry invalid, so the reveal of the owner that follows fails.\<close>

theorem reveal_denied_by_stranger:
  assumes "map_of (cp_entries p) h = Some e" "ce_status e = CsCommitted"
    and "saturating_sub now (tc_received_at_ms (ce_commitment e)) \<le> cp_reveal_timeout_ms p"
    and "compute_tx_commitment blake3 (blake3 junk) junk_nonce \<noteq> h"
  shows "snd (cr_reveal blake3 h tx nonce later (fst (cr_reveal blake3 h junk junk_nonce now p))) = Inl CrExpired
    \<and> snd (cr_reveal blake3 h junk junk_nonce now p) = Inl CrCommitmentMismatch"
  using assms by (simp add: cr_reveal_def set_status_def)

theorem reveal_denied_by_stranger_witness:
  "snd (cr_reveal (\<lambda>m. m) [1] [7] [8] 6 (fst (cr_reveal (\<lambda>m. m) [1] [] [] 6 (fst (cr_commit [1] None 5 (cr_new 100)))))) = Inl CrExpired"
  by (rule conjunct1 [OF reveal_denied_by_stranger])
    (auto simp: cr_commit_def cr_new_def Let_def saturating_sub_def compute_tx_commitment_def TX_ORDER_DOMAIN_def ascii_def)

text \<open>The order is not fixed at commit time: committing a known hash again replaces its entry, so anyone can move the
  transaction of another behind all others and undo its reveal.\<close>

theorem recommit_loses_place:
  assumes "length ops < 2 ^ 64" "p = fold (cr_step blake3) ops (cr_new timeout)" "map_of (cp_entries p) h = Some e"
  shows "\<exists>e'. map_of (cp_entries (fst (cr_commit h None now p))) h = Some e' \<and> ce_status e' = CsCommitted
    \<and> (\<forall>x\<in>set (cp_entries p). entry_seq x < tc_sequence (ce_commitment e'))"
proof -
  have "cr_wf blake3 p" unfolding assms(2) by (rule cr_run_wf [OF assms(1)])
  then have "\<forall>x\<in>set (cp_entries p). entry_seq x < cp_next_seq p" by (auto simp: cr_wf_def list_all_iff entry_ok_def)
  then show ?thesis by (simp add: cr_commit_def Let_def)
qed

theorem recommit_loses_place_witness:
  "\<exists>e'. map_of (cp_entries (fst (cr_commit [1] None 9 (fst (cr_commit [1] None 5 (cr_new 100)))))) [1] = Some e' \<and> ce_status e' = CsCommitted"
  using recommit_loses_place [of "[CrCommit [1] None 5]" "fst (cr_commit [1] None 5 (cr_new 100))" "\<lambda>m. m" 100 "[1]" _ 9]
  by (auto simp: cr_commit_def Let_def)

section \<open>What redistribution guarantees\<close>

datatype mev_op = MevCapture u64 | MevRedistribute

fun mev_run :: "mev_op list \<Rightarrow> mev_redistribution \<Rightarrow> mev_redistribution \<times> u64 list" where
  "mev_run [] m = (m, [])"
| "mev_run (MevCapture a # ops) m = mev_run ops (record_capture a m)"
| "mev_run (MevRedistribute # ops) m = (let (m1, paid) = redistribute m; (m2, rest) = mev_run ops m1 in (m2, paid # rest))"

definition captures :: "mev_op list \<Rightarrow> nat" where
  "captures ops = sum_list (map (\<lambda>op. case op of MevCapture a \<Rightarrow> unat a | MevRedistribute \<Rightarrow> 0) ops)"

lemma mev_run_sums:
  assumes "mev_invariant_holds m" "unat (mv_total_captured_sscl m) + captures ops < 2 ^ 64" "mev_run ops m = (m', paid)"
  shows "mev_invariant_holds m' \<and> unat (mv_total_captured_sscl m') = unat (mv_total_captured_sscl m) + captures ops
    \<and> unat (mv_total_redistributed_sscl m') = unat (mv_total_redistributed_sscl m) + sum_list (map unat paid)"
  using assms
proof (induction ops m arbitrary: m' paid rule: mev_run.induct)
  case (2 a ops m)
  have c: "unat (mv_total_captured_sscl (record_capture a m)) = unat (mv_total_captured_sscl m) + unat a"
    using "2.prems"(2) by (simp add: record_capture_def unat_saturating_add captures_def)
  have "mev_invariant_holds (record_capture a m)" "mv_total_redistributed_sscl (record_capture a m) = mv_total_redistributed_sscl m"
    using "2.prems"(1) c by (simp_all add: mev_invariant_holds_def word_le_nat_alt record_capture_def)
  then show ?case using "2.IH" [of m' paid] "2.prems" c by (simp add: captures_def)
next
  case (3 ops m)
  obtain m1 p1 where r: "redistribute m = (m1, p1)" by (cases "redistribute m")
  obtain rest where rest: "mev_run ops m1 = (m', rest)" "paid = p1 # rest"
    using "3.prems"(3) r by (auto simp: Let_def split: prod.splits)
  have le: "unat (mv_total_redistributed_sscl m) \<le> unat (mv_total_captured_sscl m)"
    using "3.prems"(1) by (simp add: mev_invariant_holds_def word_le_nat_alt)
  have m1: "unat p1 = unat (mv_total_captured_sscl m) - unat (mv_total_redistributed_sscl m)"
    "unat (mv_total_redistributed_sscl m1) = unat (mv_total_captured_sscl m)" "mv_total_captured_sscl m1 = mv_total_captured_sscl m"
    using r le u64_bound [of "mv_total_captured_sscl m"]
    by (auto simp: redistribute_def pending_sscl_def unat_saturating_add unat_saturating_sub)
  then have "mev_invariant_holds m1" by (simp add: mev_invariant_holds_def word_le_nat_alt)
  then show ?case using "3.IH" [OF r [symmetric] refl, of m' rest] "3.prems"(2) rest m1 le by (simp add: captures_def)
qed (simp add: captures_def)

text \<open>Captured value is handed on exactly once: over any sequence of captures and redistributions the amounts paid add up
  to the total redistributed, together with what is pending to the total captured, and a redistribution leaves nothing
  pending.\<close>

theorem mev_conservation:
  assumes "captures ops < 2 ^ 64" "mev_run ops mev_new = (m, paid)"
  shows "sum_list (map unat paid) + unat (pending_sscl m) = captures ops \<and> mev_invariant_holds m
    \<and> pending_sscl (fst (redistribute m)) = 0"
proof -
  have s: "mev_invariant_holds m" "unat (mv_total_captured_sscl m) = captures ops" "unat (mv_total_redistributed_sscl m) = sum_list (map unat paid)"
    using mev_run_sums [of mev_new ops m paid] assms by (simp_all add: mev_new_def mev_invariant_holds_def)
  then have "unat (mv_total_redistributed_sscl m) \<le> unat (mv_total_captured_sscl m)" by (simp add: mev_invariant_holds_def word_le_nat_alt)
  moreover have "unat (pending_sscl (fst (redistribute m))) = 0"
    using calculation u64_bound [of "mv_total_captured_sscl m"]
    by (simp add: redistribute_def pending_sscl_def unat_saturating_add unat_saturating_sub)
  then have "pending_sscl (fst (redistribute m)) = 0" by (simp only: unat_eq_zero)
  ultimately show ?thesis using s by (simp add: pending_sscl_def unat_saturating_sub)
qed

theorem mev_conservation_witness:
  "sum_list (map unat (snd (mev_run [MevCapture 5, MevRedistribute, MevCapture 7] mev_new)))
   + unat (pending_sscl (fst (mev_run [MevCapture 5, MevRedistribute, MevCapture 7] mev_new))) = 12"
  using mev_conservation [of "[MevCapture 5, MevRedistribute, MevCapture 7]", OF _ prod.collapse [symmetric]] by (simp add: captures_def)

section \<open>What the relay guarantees\<close>

fun relay_run :: "(bytes \<times> u64 \<times> u64) list \<Rightarrow> relay_node \<Rightarrow> bool list" where
  "relay_run [] r = []"
| "relay_run ((k, seq, ts) # ms) r = (case validate_and_relay k seq ts r of (r', res) \<Rightarrow> (res = Inr ()) # relay_run ms r')"

definition relayed :: "bytes \<Rightarrow> (bytes \<times> u64 \<times> u64) list \<Rightarrow> relay_node \<Rightarrow> u64 list" where
  "relayed k ms r = map (\<lambda>((_, seq, _), _). seq) (filter (\<lambda>((k', _, _), ok). k' = k \<and> ok) (zip ms (relay_run ms r)))"

lemma relayed_Cons:
  "relayed k ((j, seq, ts) # ms) r = (if j = k \<and> snd (validate_and_relay j seq ts r) = Inr () then [seq] else [])
     @ relayed k ms (fst (validate_and_relay j seq ts r))"
  by (auto simp: relayed_def split: prod.splits)

lemma relay_seq_after:
  "rn_seq_nums (fst (validate_and_relay j seq ts r)) k = (if j = k \<and> snd (validate_and_relay j seq ts r) = Inr () then Some seq else rn_seq_nums r k)"
  by (auto simp: validate_and_relay_def Let_def split: option.splits)

lemma relay_accepts_larger: "snd (validate_and_relay k seq ts r) = Inr () \<Longrightarrow> rn_seq_nums r k = Some s \<Longrightarrow> s < seq"
  by (auto simp: validate_and_relay_def split: if_splits)

text \<open>The relay never passes a message twice: the sequence numbers it relays for a node are strictly increasing, whatever
  the node and others send and in which order.\<close>

theorem relay_strictly_increasing: "sorted_wrt (<) (relayed k ms relay_new)"
proof -
  have "sorted_wrt (<) (relayed k ms r) \<and> (\<forall>s. rn_seq_nums r k = Some s \<longrightarrow> (\<forall>x\<in>set (relayed k ms r). s < x))" for r
  proof (induction ms arbitrary: r)
    case Nil
    show ?case by (simp add: relayed_def)
  next
    case (Cons m ms)
    obtain j seq ts where m: "m = (j, seq, ts)" by (cases m)
    let ?r = "fst (validate_and_relay j seq ts r)"
    show ?case
    proof (cases "j = k \<and> snd (validate_and_relay j seq ts r) = Inr ()")
      case True
      then have "rn_seq_nums ?r k = Some seq" by (auto simp: relay_seq_after)
      then show ?thesis using True Cons.IH [of ?r] relay_accepts_larger [of k seq ts r] by (fastforce simp: m relayed_Cons)
    next
      case False
      then have "rn_seq_nums ?r k = rn_seq_nums r k" by (auto simp: relay_seq_after)
      then show ?thesis using False Cons.IH [of ?r] by (auto simp: m relayed_Cons)
    qed
  qed
  then show ?thesis by blast
qed

lemma relay_accepts:
  assumes "\<not> (case rn_seq_nums r k of Some last_seq \<Rightarrow> seq \<le> last_seq | None \<Rightarrow> False)"
    and "filter (\<lambda>t. saturating_sub ts t < 60000) (unwrap_or (rn_rate_limits r k) []) = []"
  shows "\<exists>r'. validate_and_relay k seq ts r = (r', Inr ()) \<and> rn_seq_nums r' k = Some seq \<and> rn_rate_limits r' k = Some [ts]"
  using assms by (simp add: validate_and_relay_def Let_def)

text \<open>The limit of ten messages a minute is one of the sender's clock: a node whose messages are stamped a minute apart has
  all of them relayed, however fast they arrive.\<close>

theorem relay_limit_bypassed:
  assumes "60000 * n < 2 ^ 64"
  shows "relay_run (map (\<lambda>i. (k, of_nat (i + 1), of_nat (60000 * i))) [0..<n]) relay_new = replicate n True"
proof -
  let ?m = "\<lambda>i. (k, of_nat (i + 1), of_nat (60000 * i))"
  have "relay_run (map ?m [i..<n]) r = replicate (n - i) True"
    if "\<forall>s. rn_seq_nums r k = Some s \<longrightarrow> unat s \<le> i" "list_all (\<lambda>t. unat t + 60000 \<le> 60000 * i) (unwrap_or (rn_rate_limits r k) [])" for i r
    using that
  proof (induction "n - i" arbitrary: i r)
    case (Suc d)
    then have i: "i < n" by simp
    let ?ts = "of_nat (60000 * i) :: u64" and ?seq = "of_nat (i + 1) :: u64"
    have ts: "unat ?ts = 60000 * i" using i assms by (intro unat_of_nat_small) simp
    have seq: "unat ?seq = i + 1" using i assms by (intro unat_of_nat_small) simp
    have fresh: "\<not> (case rn_seq_nums r k of Some last_seq \<Rightarrow> ?seq \<le> last_seq | None \<Rightarrow> False)"
      using Suc.prems(1) seq by (auto simp: word_le_nat_alt split: option.splits)
    have "filter (\<lambda>t. saturating_sub ?ts t < 60000) (unwrap_or (rn_rate_limits r k) []) = []"
      using Suc.prems(2) ts by (auto simp: filter_empty_conv list_all_iff word_less_nat_alt unat_saturating_sub)
    from relay_accepts [OF fresh this]
    obtain r' where r': "validate_and_relay k ?seq ?ts r = (r', Inr ())" "rn_seq_nums r' k = Some ?seq" "rn_rate_limits r' k = Some [?ts]"
      by blast
    have "relay_run (map ?m [Suc i..<n]) r' = replicate (n - Suc i) True"
      using Suc.hyps i r'(2,3) seq ts by (intro Suc.hyps(1)) (auto simp del: of_nat_add of_nat_mult of_nat_Suc)
    moreover have "[i..<n] = i # [Suc i..<n]" "n - i = Suc (n - Suc i)" using i by (simp_all add: upt_conv_Cons)
    ultimately show ?case using r'(1) by (simp del: of_nat_add of_nat_mult of_nat_Suc)
  qed simp
  from this [of relay_new 0] show ?thesis by (simp add: relay_new_def del: of_nat_add of_nat_mult of_nat_Suc)
qed

theorem relay_limit_bypassed_witness:
  "relay_run (map (\<lambda>i. ([1], of_nat (i + 1), of_nat (60000 * i))) [0..<50]) relay_new = replicate 50 True"
  by (rule relay_limit_bypassed) simp

end
