(* ===== verification/Adaptive_Mux.thy ===== *)
theory Adaptive_Mux
  imports Prelude
begin

text \<open>
  The choice of a transport by conductivity, \<open>core/scalar-network/src/adaptive_mux.rs\<close>.  The first guess of the fifth root
  is computed in floating point, \<open>(x as f64).powf(0.2)\<close>; it is a parameter of the model, and so is the order in which
  \<open>sort_unstable_by_key\<close> leaves tiers of equal probability.
\<close>

section \<open>Powers\<close>

definition DECAY_RATE_FP :: u64 where
  "DECAY_RATE_FP = 10000"

definition MUX_BASIS :: u64 where
  "MUX_BASIS = 1000000"

definition CONDUCTIVITY_MIN :: u64 where
  "CONDUCTIVITY_MIN = 1000"

definition CONDUCTIVITY_MAX :: u64 where
  "CONDUCTIVITY_MAX = 10000000"

datatype transport_tier = TtInternet | TtLoRa | TtHfRadio | TtLocalMesh | TtVisualQr

definition all_tiers :: "transport_tier list" where
  "all_tiers = [TtInternet, TtLoRa, TtHfRadio, TtLocalMesh, TtVisualQr]"

text \<open>\<open>saturating_pow(4)\<close>.\<close>

definition saturating_pow4 :: "'a::len word \<Rightarrow> 'a word" where
  "saturating_pow4 w = (if unat w ^ 4 < 2 ^ LENGTH('a) then w ^ 4 else - 1)"

primrec newton_root5 :: "nat \<Rightarrow> 'a::len word \<Rightarrow> 'a word \<Rightarrow> 'a word" where
  "newton_root5 0 x g = g"
| "newton_root5 (Suc n) x g =
     (let g4 = saturating_pow4 g
      in if g4 = 0 then g
         else
           let g' = (4 * g + x div g4) div 5
           in if g' \<ge> g then g else newton_root5 n x g')"

definition fifth_root_u64 :: "(u64 \<Rightarrow> u64) \<Rightarrow> u64 \<Rightarrow> u64" where
  "fifth_root_u64 powf x =
     (if x = 0 then 0 else if x = 1 then 1 else newton_root5 5 x (if powf x = 0 then 1 else powf x))"

definition fifth_root_u128 :: "(u128 \<Rightarrow> u128) \<Rightarrow> u128 \<Rightarrow> u128" where
  "fifth_root_u128 powf x =
     (if x = 0 then 0 else if x = 1 then 1 else newton_root5 8 x (if powf x = 0 then 1 else powf x))"

definition pow_gamma_fp :: "(u64 \<Rightarrow> u64) \<Rightarrow> (u128 \<Rightarrow> u128) \<Rightarrow> u64 \<Rightarrow> u64" where
  "pow_gamma_fp powf powf128 flow_fp =
     (if flow_fp = 0 then 0
      else if flow_fp \<le> MUX_BASIS then fifth_root_u64 powf (saturating_pow4 flow_fp)
      else
        let f = ucast flow_fp :: u128;
            flow4 = saturating_mul (saturating_mul (saturating_mul f f) f) f
        in ucast (min (fifth_root_u128 powf128 flow4) (ucast CONDUCTIVITY_MAX)))"

section \<open>Channels\<close>

record channel_conductivity =
  cc_conductivity_fp :: u64

definition cc_new :: channel_conductivity where
  "cc_new = \<lparr>cc_conductivity_fp = CONDUCTIVITY_MIN\<rparr>"

definition clamp_u64 :: "u64 \<Rightarrow> u64 \<Rightarrow> u64 \<Rightarrow> u64" where
  "clamp_u64 x lo hi = (if x < lo then lo else if x > hi then hi else x)"

definition cc_update :: "(u64 \<Rightarrow> u64) \<Rightarrow> (u128 \<Rightarrow> u128) \<Rightarrow> u64 \<Rightarrow> u64 \<Rightarrow> channel_conductivity \<Rightarrow> channel_conductivity" where
  "cc_update powf powf128 flow_fp elapsed_secs_fp c =
     (let flow_gamma = pow_gamma_fp powf powf128 flow_fp;
          decay_term = saturating_mul (cc_conductivity_fp c) DECAY_RATE_FP div MUX_BASIS;
          delta = (if flow_gamma \<ge> decay_term
                   then saturating_mul (saturating_sub flow_gamma decay_term) elapsed_secs_fp div MUX_BASIS else 0);
          decay_delta = (if decay_term > flow_gamma
                         then saturating_mul (saturating_sub decay_term flow_gamma) elapsed_secs_fp div MUX_BASIS else 0)
      in \<lparr>cc_conductivity_fp = clamp_u64 (saturating_sub (saturating_add (cc_conductivity_fp c) delta) decay_delta)
            CONDUCTIVITY_MIN CONDUCTIVITY_MAX\<rparr>)"

type_synonym adaptive_mux = "bytes \<times> transport_tier \<rightharpoonup> channel_conductivity"

definition record_flow ::
  "(u64 \<Rightarrow> u64) \<Rightarrow> (u128 \<Rightarrow> u128) \<Rightarrow> bytes \<Rightarrow> transport_tier \<Rightarrow> u64 \<Rightarrow> u64 \<Rightarrow> adaptive_mux \<Rightarrow> adaptive_mux" where
  "record_flow powf powf128 peer_id tier flow_fp elapsed_secs_fp m =
     m((peer_id, tier) \<mapsto> cc_update powf powf128 flow_fp elapsed_secs_fp (unwrap_or (m (peer_id, tier)) cc_new))"

definition tier_conductivity :: "adaptive_mux \<Rightarrow> bytes \<Rightarrow> transport_tier \<Rightarrow> u64" where
  "tier_conductivity m peer_id tier = unwrap_or (map_option cc_conductivity_fp (m (peer_id, tier))) CONDUCTIVITY_MIN"

definition conductivity_squared :: "adaptive_mux \<Rightarrow> bytes \<Rightarrow> transport_tier \<Rightarrow> u64" where
  "conductivity_squared m peer_id tier =
     (let d = ucast (tier_conductivity m peer_id tier) :: u128
      in ucast (min (saturating_mul d d) (ucast (- 1 :: u64))))"

definition unsorted_probabilities :: "adaptive_mux \<Rightarrow> bytes \<Rightarrow> (transport_tier \<times> u64) list" where
  "unsorted_probabilities m peer_id =
     (let d_squared = map (\<lambda>tier. (tier, conductivity_squared m peer_id tier)) all_tiers;
          sum_d2 = sum_list (map snd d_squared)
      in if sum_d2 = 0 then map (\<lambda>t. (t, MUX_BASIS div of_nat (length all_tiers))) all_tiers
         else map (\<lambda>(tier, d2). (tier, ucast (saturating_mul (ucast d2 :: u128) (ucast MUX_BASIS) div ucast sum_d2))) d_squared)"

text \<open>The equal distribution is returned as it is; otherwise the list is sorted by falling probability.\<close>

definition tier_probabilities ::
  "((transport_tier \<times> u64) list \<Rightarrow> (transport_tier \<times> u64) list) \<Rightarrow> adaptive_mux \<Rightarrow> bytes \<Rightarrow> (transport_tier \<times> u64) list" where
  "tier_probabilities sort_unstable m peer_id =
     (if sum_list (map (conductivity_squared m peer_id) all_tiers) = 0 then unsorted_probabilities m peer_id
      else sort_unstable (unsorted_probabilities m peer_id))"

definition best_tier :: "((transport_tier \<times> u64) list \<Rightarrow> (transport_tier \<times> u64) list) \<Rightarrow> adaptive_mux \<Rightarrow> bytes \<Rightarrow> transport_tier" where
  "best_tier sort_unstable m peer_id =
     (case tier_probabilities sort_unstable m peer_id of [] \<Rightarrow> TtInternet | (tier, _) # _ \<Rightarrow> tier)"

section \<open>What is guaranteed\<close>

text \<open>What the standard library promises of \<open>sort_unstable_by_key(|b| Reverse(b.1))\<close>.\<close>

definition sorts_descending :: "((transport_tier \<times> u64) list \<Rightarrow> (transport_tier \<times> u64) list) \<Rightarrow> bool" where
  "sorts_descending srt \<longleftrightarrow> (\<forall>xs. mset (srt xs) = mset xs \<and> sorted_wrt (\<ge>) (map snd (srt xs)))"

lemma saturating_pow4_max: "65536 \<le> unat (w :: u64) \<Longrightarrow> saturating_pow4 w = - 1"
proof -
  assume "65536 \<le> unat w"
  then have "(65536::nat) ^ 4 \<le> unat w ^ 4" by (rule power_mono) simp
  then show ?thesis by (simp add: saturating_pow4_def)
qed

text \<open>The power law is lost between 0.065536 and 1: the fourth power of such a flow saturates, so all of them have the
  same weight, whatever root the floating-point guess leads to.\<close>

theorem flow_power_saturates:
  assumes "65536 \<le> unat f" "unat f \<le> 1000000"
  shows "pow_gamma_fp powf powf128 f = fifth_root_u64 powf (- 1)"
  using assms by (auto simp: pow_gamma_fp_def saturating_pow4_max MUX_BASIS_def word_le_nat_alt)

theorem flow_power_saturates_witness: "pow_gamma_fp (\<lambda>x. x) (\<lambda>x. x) 100000 = pow_gamma_fp (\<lambda>x. x) (\<lambda>x. x) 900000"
  using flow_power_saturates [of 100000 "\<lambda>x. x" "\<lambda>x. x"] flow_power_saturates [of 900000 "\<lambda>x. x" "\<lambda>x. x"] by simp

definition mux_wf :: "adaptive_mux \<Rightarrow> bool" where
  "mux_wf m \<longleftrightarrow> (\<forall>k c. m k = Some c \<longrightarrow> CONDUCTIVITY_MIN \<le> cc_conductivity_fp c \<and> cc_conductivity_fp c \<le> CONDUCTIVITY_MAX)"

lemma mux_wf_record: "mux_wf m \<Longrightarrow> mux_wf (record_flow powf powf128 peer tier flow dt m)"
  by (auto simp: mux_wf_def record_flow_def cc_update_def Let_def clamp_u64_def CONDUCTIVITY_MIN_def CONDUCTIVITY_MAX_def)

lemma tier_conductivity_range:
  assumes "mux_wf m"
  shows "1000 \<le> unat (tier_conductivity m p t)" "unat (tier_conductivity m p t) \<le> 10000000"
  using assms by (cases "m (p, t)"; auto simp: tier_conductivity_def mux_wf_def CONDUCTIVITY_MIN_def CONDUCTIVITY_MAX_def word_le_nat_alt)+

lemma conductivity_squared_value:
  assumes "mux_wf m"
  shows "unat (conductivity_squared m p t) = unat (tier_conductivity m p t) ^ 2"
proof -
  let ?d = "tier_conductivity m p t"
  have "unat ?d * unat ?d \<le> 10000000 * 10000000" using tier_conductivity_range(2) [OF assms] by (rule mult_le_mono) (rule tier_conductivity_range(2) [OF assms])
  then show ?thesis
    by (simp add: conductivity_squared_def Let_def unat_u128_u64 unat_min_word unat_saturating_mul unat_max_word power2_eq_square)
qed

definition total_square :: "adaptive_mux \<Rightarrow> bytes \<Rightarrow> nat" where
  "total_square m p = sum_list (map (\<lambda>t. unat (tier_conductivity m p t) ^ 2) all_tiers)"

lemma total_square_facts:
  assumes "mux_wf m"
  shows "unat (sum_list (map (conductivity_squared m p) all_tiers)) = total_square m p" "0 < total_square m p"
    "total_square m p \<le> 500000000000000" "t \<in> set all_tiers \<Longrightarrow> unat (tier_conductivity m p t) ^ 2 \<le> total_square m p"
proof -
  let ?q = "\<lambda>t. unat (tier_conductivity m p t) ^ 2"
  have hi: "?q t \<le> 100000000000000" for t using power_mono [OF tier_conductivity_range(2) [OF assms, of p t], of 2] by simp
  have lo: "1000000 \<le> ?q t" for t using power_mono [OF tier_conductivity_range(1) [OF assms, of p t], of 2] by simp
  have e: "total_square m p = ?q TtInternet + (?q TtLoRa + (?q TtHfRadio + (?q TtLocalMesh + ?q TtVisualQr)))"
    by (simp add: total_square_def all_tiers_def)
  show le: "total_square m p \<le> 500000000000000"
    unfolding e using hi [of TtInternet] hi [of TtLoRa] hi [of TtHfRadio] hi [of TtLocalMesh] hi [of TtVisualQr] by linarith
  show "0 < total_square m p" unfolding e using lo [of TtInternet] by linarith
  have m: "map unat (map (conductivity_squared m p) all_tiers) = map ?q all_tiers" using conductivity_squared_value [OF assms] by simp
  have "sum_list (map unat (map (conductivity_squared m p) all_tiers)) < 2 ^ 64" unfolding m using le by (simp add: total_square_def)
  then have "unat (sum_list (map (conductivity_squared m p) all_tiers)) = sum_list (map unat (map (conductivity_squared m p) all_tiers))"
    by (intro unat_sum_list_no_overflow) simp
  then show "unat (sum_list (map (conductivity_squared m p) all_tiers)) = total_square m p" unfolding m total_square_def .
  show "?q t \<le> total_square m p" if "t \<in> set all_tiers"
    unfolding total_square_def using that by (intro member_le_sum_list) auto
qed

lemma probabilities_value:
  assumes "mux_wf m"
  shows "map (\<lambda>(t, pr). (t, unat pr)) (unsorted_probabilities m p)
    = map (\<lambda>t. (t, unat (tier_conductivity m p t) ^ 2 * 1000000 div total_square m p)) all_tiers"
proof -
  let ?s = "sum_list (map (conductivity_squared m p) all_tiers)"
  note f = total_square_facts [OF assms, where p = p]
  have ne: "?s \<noteq> 0" using f(1,2) by (metis less_irrefl unat_0)
  have "unat (ucast (saturating_mul (ucast (conductivity_squared m p t) :: u128) (ucast MUX_BASIS) div ucast ?s) :: u64)
      = unat (tier_conductivity m p t) ^ 2 * 1000000 div total_square m p" if "t \<in> set all_tiers" for t
  proof -
    have q: "unat (tier_conductivity m p t) ^ 2 \<le> total_square m p" by (rule f(4) [OF that])
    have "unat (tier_conductivity m p t) ^ 2 * 1000000 \<le> 500000000000000 * 1000000" using q f(3) by (intro mult_le_mono1) simp
    then have "unat (saturating_mul (ucast (conductivity_squared m p t) :: u128) (ucast MUX_BASIS)) = unat (tier_conductivity m p t) ^ 2 * 1000000"
      using conductivity_squared_value [OF assms, of p t] by (simp add: unat_saturating_mul MUX_BASIS_def)
    moreover have "unat (tier_conductivity m p t) ^ 2 * 1000000 div total_square m p \<le> 1000000"
      using div_le_mono [OF mult_le_mono1 [OF q, of 1000000], of "total_square m p"] f(2) by simp
    ultimately show ?thesis using f(1) by (subst unat_u128_u64) (simp_all add: unat_div_word)
  qed
  then show ?thesis using ne by (simp add: unsorted_probabilities_def Let_def comp_def)
qed

lemma div_sum_lower:
  fixes d :: nat
  assumes "0 < d"
  shows "sum_list xs < (sum_list (map (\<lambda>x. x div d) xs) + length xs) * d \<or> xs = []"
proof (induction xs)
  case (Cons x xs)
  have "x < (x div d + 1) * d" using assms by (metis add.commute dividend_less_times_div mult.commute plus_1_eq_Suc mult_Suc)
  then show ?case using Cons by (cases "xs = []") (simp_all add: algebra_simps)
qed simp

text \<open>The probabilities are a distribution up to rounding: over the five transports they add up to one million less at most
  four, and the transport chosen has the largest.\<close>

theorem tier_probabilities_distribution:
  assumes "mux_wf m" "sorts_descending srt"
  shows "sum_list (map (\<lambda>x. unat (snd x)) (tier_probabilities srt m p)) \<in> {999996..1000000}
    \<and> (\<exists>pr. (best_tier srt m p, pr) \<in> set (tier_probabilities srt m p) \<and> (\<forall>x\<in>set (tier_probabilities srt m p). snd x \<le> pr))"
proof -
  note f = total_square_facts [OF assms(1), where p = p]
  let ?u = "unsorted_probabilities m p" and ?S = "total_square m p"
  let ?ws = "map (\<lambda>t. unat (tier_conductivity m p t) ^ 2 * 1000000) all_tiers"
  have "sum_list (map (conductivity_squared m p) all_tiers) \<noteq> 0" using f(1,2) by (metis less_irrefl unat_0)
  then have tp: "tier_probabilities srt m p = srt ?u" by (simp add: tier_probabilities_def)
  have ms: "mset (srt ?u) = mset ?u" and sd: "sorted_wrt (\<ge>) (map snd (srt ?u))" using assms(2) by (auto simp: sorts_descending_def)
  have "sum_list (map (\<lambda>x. unat (snd x)) (srt ?u)) = sum_list (map (\<lambda>x. unat (snd x)) ?u)"
    by (simp add: ms flip: sum_mset_sum_list)
  also have "map (\<lambda>x. unat (snd x)) ?u = map snd (map (\<lambda>(t, pr). (t, unat pr)) ?u)" by (simp add: case_prod_unfold)
  also have "\<dots> = map (\<lambda>x. x div ?S) ?ws" by (simp add: probabilities_value [OF assms(1)])
  finally have s: "sum_list (map (\<lambda>x. unat (snd x)) (srt ?u)) = sum_list (map (\<lambda>x. x div ?S) ?ws)" .
  have w: "sum_list ?ws = ?S * 1000000" by (simp add: total_square_def sum_list_mult_const)
  have "sum_list (map (\<lambda>x. x div ?S) ?ws) \<le> ?S * 1000000 div ?S" using sum_list_div_le [of ?S ?ws] unfolding w .
  moreover have "?S * 1000000 < (sum_list (map (\<lambda>x. x div ?S) ?ws) + 5) * ?S"
    using div_sum_lower [OF f(2), of ?ws] unfolding w by (simp add: all_tiers_def)
  then have "1000000 < sum_list (map (\<lambda>x. x div ?S) ?ws) + 5" using f(2) by (simp add: mult.commute)
  ultimately have A: "sum_list (map (\<lambda>x. unat (snd x)) (tier_probabilities srt m p)) \<in> {999996..1000000}" using f(2) s tp by simp
  have "length ?u = 5" using arg_cong [OF probabilities_value [OF assms(1), of p], of length] by (simp add: all_tiers_def)
  then have "srt ?u \<noteq> []" using mset_eq_length [OF ms] by (metis length_0_conv zero_neq_numeral)
  then obtain t pr xs where c: "srt ?u = (t, pr) # xs" by (cases "srt ?u") auto
  then have "best_tier srt m p = t" "\<forall>x\<in>set (srt ?u). snd x \<le> pr" using sd by (auto simp: best_tier_def tp)
  then show ?thesis using A c tp by (metis list.set_intros(1))
qed

definition sort_descending :: "(transport_tier \<times> u64) list \<Rightarrow> (transport_tier \<times> u64) list" where
  "sort_descending xs = rev (sort_key snd xs)"

lemma sort_descending_sorts: "sorts_descending sort_descending"
  by (simp add: sorts_descending_def sort_descending_def sorted_wrt_rev rev_map [symmetric])

theorem tier_probabilities_distribution_witness:
  "sum_list (map (\<lambda>x. unat (snd x)) (tier_probabilities sort_descending Map.empty [])) \<in> {999996..1000000}"
  using tier_probabilities_distribution [OF _ sort_descending_sorts, of Map.empty "[]"] by (simp add: mux_wf_def)

text \<open>A transport that has carried nothing is starved, although its conductivity is kept at its minimum so that it can
  still be explored: once another transport has reached conductivity one, its probability is rounded to zero.\<close>

theorem idle_tier_starved:
  assumes "mux_wf m" "t \<in> set all_tiers" "s \<in> set all_tiers" "t \<noteq> s"
    "tier_conductivity m p t = CONDUCTIVITY_MIN" "1000000 \<le> unat (tier_conductivity m p s)"
  shows "(t, 0) \<in> set (unsorted_probabilities m p)"
proof -
  let ?q = "\<lambda>t. unat (tier_conductivity m p t) ^ 2"
  have "distinct all_tiers" by (simp add: all_tiers_def)
  then have "total_square m p = sum ?q (set all_tiers)" by (simp add: total_square_def sum_list_distinct_conv_sum_set)
  moreover have "sum ?q {t, s} \<le> sum ?q (set all_tiers)" using assms(2,3) by (intro sum_mono2) auto
  moreover have "(1000000::nat) ^ 2 \<le> ?q s" using assms(6) by (rule power_mono) simp
  moreover have "?q t = 1000000" using assms(5) by (simp add: CONDUCTIVITY_MIN_def)
  ultimately have "?q t * 1000000 div total_square m p = 0" using assms(4) by simp
  then have "(t, 0) \<in> set (map (\<lambda>(t, pr). (t, unat pr)) (unsorted_probabilities m p))"
    unfolding probabilities_value [OF assms(1)] using assms(2) by force
  then show ?thesis by (auto simp: unat_eq_zero)
qed

theorem idle_tier_starved_witness:
  "(TtLoRa, 0) \<in> set (unsorted_probabilities [([], TtInternet) \<mapsto> \<lparr>cc_conductivity_fp = 1000000\<rparr>] [])"
  by (rule idle_tier_starved [where s = TtInternet])
    (simp_all add: mux_wf_def all_tiers_def tier_conductivity_def CONDUCTIVITY_MIN_def CONDUCTIVITY_MAX_def)

end
