(* ===== verification/Quaternary_SMT.thy ===== *)
theory Quaternary_SMT
  imports Nullifier_SMT Merkle_IMT
begin

text \<open>
  The quaternary sparse Merkle tree of \<open>core/scalar-nullifier/src/smt_quaternary.rs\<close>: four children per node, sixteen
  levels, two bits of the key per level, hashed with the chained width-8 Poseidon2 of \<open>Merkle_IMT\<close>.
\<close>

section \<open>Hashing\<close>

definition QSMT_ARITY :: nat where
  "QSMT_ARITY = 4"

definition QSMT_DEPTH :: nat where
  "QSMT_DEPTH = 16"

definition QSMT_BITS_PER_LEVEL :: nat where
  "QSMT_BITS_PER_LEVEL = 2"

definition QSMT_EMPTY_ROOT :: bytes where
  "QSMT_EMPTY_ROOT = replicate 32 0"

definition child_index_at :: "bytes \<Rightarrow> nat \<Rightarrow> nat" where
  "child_index_at key level =
     (let bit_offset = level * QSMT_BITS_PER_LEVEL;
          byte_idx = bit_offset div 8;
          bit_idx = 6 - bit_offset mod 8
      in unat (drop_bit bit_idx (key ! byte_idx) AND 3))"

text \<open>The domain separator has 17 bytes and takes three words, the last with one byte.\<close>

definition qsmt_domain :: "u64 list" where
  "qsmt_domain =
     map (\<lambda>c. field_reduce (from_le_bytes c))
       [take 8 DOMAIN_SMT_ACTIVE, take 8 (drop 8 DOMAIN_SMT_ACTIVE), [DOMAIN_SMT_ACTIVE ! 16] @ replicate 7 0]"

definition limbs :: "bytes \<Rightarrow> u64 list" where
  "limbs b = map (\<lambda>chunk. field_reduce (from_le_bytes (chunk @ replicate (8 - length chunk) 0))) (chunks 8 b)"

definition hash_qsmt_node :: "(u64 list \<Rightarrow> u64 list) \<Rightarrow> bytes list \<Rightarrow> bytes" where
  "hash_qsmt_node perm children =
     (if list_all (\<lambda>c. c = QSMT_EMPTY_ROOT) children then QSMT_EMPTY_ROOT
      else poseidon2_hash_chained_bytes32 perm (qsmt_domain @ concat (map limbs children)))"

definition hash_qsmt_leaf :: "(u64 list \<Rightarrow> u64 list) \<Rightarrow> bytes \<Rightarrow> u64 \<Rightarrow> bytes" where
  "hash_qsmt_leaf perm nullifier epoch_id =
     poseidon2_hash_chained_bytes32 perm
       (qsmt_domain @ [field_reduce (from_le_bytes (ascii ''leaf'' @ replicate 4 0))] @ limbs nullifier @ [field_reduce epoch_id])"

section \<open>Proofs\<close>

record quaternary_smt_proof =
  qp_siblings :: "bytes list"
  qp_is_member :: bool
  qp_key :: bytes

text \<open>The child on the path is the current hash, the others are read from the 96 bytes of the level in order.\<close>

definition qsmt_children :: "nat \<Rightarrow> bytes \<Rightarrow> bytes \<Rightarrow> bytes list" where
  "qsmt_children child_idx current sibling_bytes =
     map (\<lambda>i. if i = child_idx then current
              else take 32 (drop ((if child_idx < i then i - 1 else i) * 32) sibling_bytes)) [0..<QSMT_ARITY]"

definition qsmt_climb :: "(u64 list \<Rightarrow> u64 list) \<Rightarrow> bytes \<Rightarrow> bytes list \<Rightarrow> nat list \<Rightarrow> bytes \<Rightarrow> bytes" where
  "qsmt_climb perm key siblings levels current =
     fold (\<lambda>level cur. hash_qsmt_node perm (qsmt_children (child_index_at key level) cur (siblings ! level))) levels current"

definition qsmt_proof_verify :: "(u64 list \<Rightarrow> u64 list) \<Rightarrow> quaternary_smt_proof \<Rightarrow> bytes \<Rightarrow> bool" where
  "qsmt_proof_verify perm p root \<longleftrightarrow>
     length (qp_siblings p) = QSMT_DEPTH
     \<and> (let current = (if qp_is_member p then QSMT_EMPTY_ROOT else QSMT_EMPTY_ROOT)
        in qsmt_climb perm (qp_key p) (qp_siblings p) (rev [0..<QSMT_DEPTH]) current = root)"

section \<open>The tree\<close>

text \<open>As in \<open>Nullifier_SMT\<close>, the last level hashes \<open>leaves[0]\<close> whatever the number of leaves.\<close>

function qsubtree_root :: "(u64 list \<Rightarrow> u64 list) \<Rightarrow> leaf list \<Rightarrow> nat \<Rightarrow> nat \<Rightarrow> bytes" where
  "qsubtree_root perm leaves level max_depth =
     (if leaves = [] then QSMT_EMPTY_ROOT
      else if max_depth \<le> level then hash_qsmt_leaf perm (fst (hd leaves)) (snd (hd leaves))
      else
        let groups = map (\<lambda>i. filter (\<lambda>(key, _). child_index_at key level = i) leaves) [0..<QSMT_ARITY]
        in hash_qsmt_node perm (map (\<lambda>g. qsubtree_root perm g (Suc level) max_depth) groups))"
  by pat_completeness auto
termination
  by (relation "measure (\<lambda>(_, _, level, max_depth). max_depth - level)") auto

declare qsubtree_root.simps [simp del]

record quaternary_smt =
  qt_root :: bytes
  qt_leaves :: "leaf list"

definition qsmt_new :: quaternary_smt where
  "qsmt_new = \<lparr>qt_root = replicate 32 0, qt_leaves = []\<rparr>"

definition qsmt_entries_sorted :: "quaternary_smt \<Rightarrow> leaf list" where
  "qsmt_entries_sorted t = sort_key fst (qt_leaves t)"

definition qsmt_recompute_root :: "(u64 list \<Rightarrow> u64 list) \<Rightarrow> quaternary_smt \<Rightarrow> quaternary_smt" where
  "qsmt_recompute_root perm t =
     (if qt_leaves t = [] then t\<lparr>qt_root := QSMT_EMPTY_ROOT\<rparr>
      else t\<lparr>qt_root := qsubtree_root perm (qsmt_entries_sorted t) 0 QSMT_DEPTH\<rparr>)"

definition qsmt_insert :: "(u64 list \<Rightarrow> u64 list) \<Rightarrow> bytes \<Rightarrow> u64 \<Rightarrow> quaternary_smt \<Rightarrow> quaternary_smt" where
  "qsmt_insert perm nullifier epoch_id t = qsmt_recompute_root perm (t\<lparr>qt_leaves := AList.update nullifier epoch_id (qt_leaves t)\<rparr>)"

definition qsmt_remove :: "(u64 list \<Rightarrow> u64 list) \<Rightarrow> bytes \<Rightarrow> quaternary_smt \<Rightarrow> quaternary_smt" where
  "qsmt_remove perm nullifier t = qsmt_recompute_root perm (t\<lparr>qt_leaves := AList.delete nullifier (qt_leaves t)\<rparr>)"

definition qsmt_contains :: "quaternary_smt \<Rightarrow> bytes \<Rightarrow> bool" where
  "qsmt_contains t nullifier \<longleftrightarrow> map_of (qt_leaves t) nullifier \<noteq> None"

definition qsmt_verify_non_membership :: "quaternary_smt \<Rightarrow> bytes \<Rightarrow> bool" where
  "qsmt_verify_non_membership t nullifier \<longleftrightarrow> \<not> qsmt_contains t nullifier"

definition qsmt_nullifiers_older_than :: "(leaf list \<Rightarrow> leaf list) \<Rightarrow> quaternary_smt \<Rightarrow> u64 \<Rightarrow> u64 \<Rightarrow> bytes list" where
  "qsmt_nullifiers_older_than iter t current_epoch max_epochs =
     map fst (filter (\<lambda>(_, epoch). saturating_sub current_epoch epoch > max_epochs) (iter (qt_leaves t)))"

section \<open>The leaf slot of a key\<close>

lemma two_bits:
  fixes a b :: u8
  assumes "k \<le> 6"
  shows "unat (drop_bit k a AND 3) = unat (drop_bit k b AND 3) \<longleftrightarrow> bit a (Suc k) = bit b (Suc k) \<and> bit a k = bit b k"
proof -
  have 3: "(3 :: u8) = mask 2" by code_simp
  have b3: "bit (3 :: u8) n \<longleftrightarrow> n < 2" for n by (subst 3, subst bit_mask_iff) auto
  have "x AND 3 = y AND 3 \<longleftrightarrow> (\<forall>n<2. bit x n = bit y n)" for x y :: u8
  proof
    assume e: "x AND 3 = y AND 3"
    show "\<forall>n<2. bit x n = bit y n" using arg_cong [OF e, of "\<lambda>w. bit w 0"] arg_cong [OF e, of "\<lambda>w. bit w 1"]
      by (simp add: bit_and_iff b3 less_2_cases_iff)
  next
    assume "\<forall>n<2. bit x n = bit y n"
    then show "x AND 3 = y AND 3" unfolding bit_eq_iff [of "x AND 3" "y AND 3"] bit_and_iff b3 by blast
  qed
  then show ?thesis unfolding word_unat_eq_iff [symmetric] by (auto simp: bit_drop_bit_eq less_2_cases_iff)
qed

lemma bit_at_bit: "bit_at key d = bit (key ! (d div 8)) (7 - d mod 8)"
  by (simp add: bit_at_def Let_def bit_iff_odd_drop_bit and_one_eq odd_iff_mod_2_eq_one)

lemma child_index_bits:
  "child_index_at a l = child_index_at b l \<longleftrightarrow> bit_at a (2 * l) = bit_at b (2 * l) \<and> bit_at a (2 * l + 1) = bit_at b (2 * l + 1)"
proof -
  define q m where "q = 2 * l div 8" and "m = 2 * l mod 8"
  have "even m" unfolding m_def by presburger
  moreover have "m < 8" unfolding m_def by simp
  ultimately have m: "m \<le> 6" by presburger
  have "(2 * l + 1) div 8 = q" "(2 * l + 1) mod 8 = m + 1" unfolding q_def m_def by presburger+
  then have "bit_at k (2 * l) = bit (k ! q) (Suc (6 - m))" "bit_at k (2 * l + 1) = bit (k ! q) (6 - m)" for k
    using m Suc_diff_le [OF m] by (simp_all add: bit_at_bit q_def [symmetric] m_def [symmetric])
  then show ?thesis using two_bits [of "6 - m" "a ! q" "b ! q"]
    by (simp add: child_index_at_def Let_def QSMT_BITS_PER_LEVEL_def mult.commute [of l] flip: q_def m_def)
qed

definition qsmt_same_slot :: "bytes \<Rightarrow> bytes \<Rightarrow> bool" where
  "qsmt_same_slot a b \<longleftrightarrow> (\<forall>l < QSMT_DEPTH. child_index_at a l = child_index_at b l)"

text \<open>The quaternary tree has the leaf slots of the binary one: two keys meet in a leaf of one tree exactly if they meet
  in a leaf of the other.\<close>

theorem qsmt_slots_are_smt_slots: "qsmt_same_slot a b = same_path a b"
proof -
  have "(\<forall>l<16. P (2 * l) \<and> P (2 * l + 1)) = (\<forall>d<32. P d)" for P :: "nat \<Rightarrow> bool"
  proof safe
    fix d :: nat assume *: "\<forall>l<16. P (2 * l) \<and> P (2 * l + 1)" "d < 32"
    then show "P d" by (cases "even d") (auto elim!: evenE oddE)
  qed simp_all
  from this [of "\<lambda>d. bit_at a d = bit_at b d"] show ?thesis
    by (simp add: qsmt_same_slot_def same_path_def prefix_matches_except_def child_index_bits QSMT_DEPTH_def SMT_DEPTH_def Ball_def)
qed

section \<open>Proofs of membership\<close>

definition qsmt_on_path :: "bytes \<Rightarrow> nat \<Rightarrow> leaf list \<Rightarrow> leaf list" where
  "qsmt_on_path key d ls = filter (\<lambda>(k, _). \<forall>l<d. child_index_at k l = child_index_at key l) ls"

text \<open>The sibling hashes of a key in a tree with the given leaves.\<close>

definition honest_siblings :: "(u64 list \<Rightarrow> u64 list) \<Rightarrow> leaf list \<Rightarrow> bytes \<Rightarrow> bytes list" where
  "honest_siblings perm ls key =
     map (\<lambda>l. concat (map (\<lambda>i. qsubtree_root perm (filter (\<lambda>(k, _). child_index_at k l = i) (qsmt_on_path key l ls)) (Suc l) QSMT_DEPTH)
       (filter (\<lambda>i. i \<noteq> child_index_at key l) [0..<QSMT_ARITY]))) [0..<QSMT_DEPTH]"

lemma child_index_lt: "child_index_at key l < 4"
proof -
  have "unat (w AND 3) \<le> 3" for w :: u8 using word_and_le1 [of w 3] by (simp add: word_le_nat_alt)
  then show ?thesis unfolding child_index_at_def Let_def by (rule le_less_trans) simp
qed

lemma length_qsmt_hash:
  assumes "\<forall>xs. length xs = 8 \<longrightarrow> length (perm xs) = 8"
  shows "length (poseidon2_hash_chained_bytes32 perm xs) = 32"
proof -
  have "length (fold (absorb_t8 perm) cs st) = 8" if "length st = 8" for cs st
    using that by (induction cs arbitrary: st) (simp_all add: absorb_t8_def poseidon2_permute_t8_def assms)
  then show ?thesis by (simp add: poseidon2_hash_chained_bytes32_def poseidon2_hash_chained_def WIDTH_T8_def length_concat o_def sum_list_triv)
qed

lemma length_qsubtree_root:
  assumes "\<forall>xs. length xs = 8 \<longrightarrow> length (perm xs) = 8"
  shows "length (qsubtree_root perm ls l m) = 32"
  by (subst qsubtree_root.simps) (simp add: QSMT_EMPTY_ROOT_def hash_qsmt_leaf_def hash_qsmt_node_def Let_def length_qsmt_hash [OF assms])

lemma qsubtree_root_node:
  assumes "l < m"
  shows "qsubtree_root perm ls l m =
    hash_qsmt_node perm (map (\<lambda>i. qsubtree_root perm (filter (\<lambda>(k, _). child_index_at k l = i) ls) (Suc l) m) [0..<4])"
proof (cases "ls = []")
  case True
  then show ?thesis by (simp add: qsubtree_root.simps [of perm "[]"] hash_qsmt_node_def list_all_iff)
next
  case False
  then show ?thesis using assms by (subst qsubtree_root.simps) (simp add: Let_def QSMT_ARITY_def o_def)
qed

lemma qsmt_children_honest:
  assumes "c < 4" "\<forall>i. length (f i) = 32"
  shows "qsmt_children c (f c) (concat (map f (filter (\<lambda>i. i \<noteq> c) [0..<QSMT_ARITY]))) = map f [0..<4]"
proof -
  have up: "[0..<4] = [0, 1, 2, 3 :: nat]" by (simp add: upt_rec)
  have "c = 0 \<or> c = 1 \<or> c = 2 \<or> c = 3" using assms(1) by auto
  then show ?thesis using assms(2) by (auto simp: qsmt_children_def QSMT_ARITY_def up)
qed

lemma qsmt_on_path_step:
  "qsmt_on_path key (Suc l) ls = filter (\<lambda>(k, _). child_index_at k l = child_index_at key l) (qsmt_on_path key l ls)"
  by (auto simp: qsmt_on_path_def less_Suc_eq intro!: filter_cong)

lemma qsmt_climb_honest:
  assumes "\<forall>xs. length xs = 8 \<longrightarrow> length (perm xs) = 8" "qsmt_on_path key QSMT_DEPTH ls = []" "d \<le> QSMT_DEPTH"
  shows "qsmt_climb perm key (honest_siblings perm ls key) (rev [d..<QSMT_DEPTH]) QSMT_EMPTY_ROOT
    = qsubtree_root perm (qsmt_on_path key d ls) d QSMT_DEPTH"
  using assms(3)
proof (induction d rule: inc_induct)
  case base
  then show ?case by (simp add: qsmt_climb_def assms(2) qsubtree_root.simps)
next
  case (step l)
  let ?f = "\<lambda>i. qsubtree_root perm (filter (\<lambda>(k, _). child_index_at k l = i) (qsmt_on_path key l ls)) (Suc l) QSMT_DEPTH"
  have "rev [l..<QSMT_DEPTH] = rev [Suc l..<QSMT_DEPTH] @ [l]" using step.hyps by (simp add: upt_conv_Cons)
  then have "qsmt_climb perm key (honest_siblings perm ls key) (rev [l..<QSMT_DEPTH]) QSMT_EMPTY_ROOT
      = hash_qsmt_node perm (qsmt_children (child_index_at key l) (?f (child_index_at key l))
          (concat (map ?f (filter (\<lambda>i. i \<noteq> child_index_at key l) [0..<QSMT_ARITY]))))"
    using step by (simp add: qsmt_climb_def qsmt_on_path_step honest_siblings_def)
  also have "\<dots> = hash_qsmt_node perm (map ?f [0..<4])"
    by (subst qsmt_children_honest) (simp_all add: child_index_lt length_qsubtree_root [OF assms(1)])
  finally show ?case using step.hyps by (simp add: qsubtree_root_node)
qed

definition qsmt_wf :: "(u64 list \<Rightarrow> u64 list) \<Rightarrow> quaternary_smt \<Rightarrow> bool" where
  "qsmt_wf perm t \<longleftrightarrow> unique_keys (qt_leaves t) \<and> qt_root t = qsubtree_root perm (qsmt_entries_sorted t) 0 QSMT_DEPTH"

lemma qsmt_recompute_wf: "unique_keys (qt_leaves t) \<Longrightarrow> qsmt_wf perm (qsmt_recompute_root perm t)"
  by (simp add: qsmt_wf_def qsmt_recompute_root_def qsmt_entries_sorted_def qsubtree_root.simps [of perm "[]"])

lemma qsmt_wf_ops [simp]:
  "qsmt_wf perm qsmt_new"
  "qsmt_wf perm t \<Longrightarrow> qsmt_wf perm (qsmt_insert perm n e t)"
  "qsmt_wf perm t \<Longrightarrow> qsmt_wf perm (qsmt_remove perm n t)"
  by (simp_all add: qsmt_insert_def qsmt_remove_def qsmt_recompute_wf qsmt_wf_def [of perm t])
    (simp add: qsmt_wf_def qsmt_new_def qsmt_entries_sorted_def qsubtree_root.simps [of perm "[]"] QSMT_EMPTY_ROOT_def)

text \<open>A proof of membership proves absence.  The verifier starts from the empty leaf whether the proof claims membership
  or not; so for every nullifier whose leaf slot is free there is a proof with \<open>is_member\<close> set that verifies against the
  root of the tree.\<close>

theorem qsmt_absent_member_proved:
  assumes "\<forall>xs. length xs = 8 \<longrightarrow> length (perm xs) = 8" "qsmt_wf perm t" "\<forall>k\<in>fst ` set (qt_leaves t). \<not> qsmt_same_slot k n"
  shows "\<not> qsmt_contains t n
    \<and> qsmt_proof_verify perm \<lparr>qp_siblings = honest_siblings perm (qsmt_entries_sorted t) n, qp_is_member = True, qp_key = n\<rparr> (qt_root t)"
proof
  show "\<not> qsmt_contains t n" using assms(3) by (force simp: qsmt_contains_def qsmt_same_slot_def map_of_eq_None_iff)
  have "qsmt_on_path n QSMT_DEPTH (qsmt_entries_sorted t) = []"
    using assms(3) by (force simp: qsmt_on_path_def qsmt_entries_sorted_def qsmt_same_slot_def filter_empty_conv)
  from qsmt_climb_honest [OF assms(1) this, of 0] show "qsmt_proof_verify perm
      \<lparr>qp_siblings = honest_siblings perm (qsmt_entries_sorted t) n, qp_is_member = True, qp_key = n\<rparr> (qt_root t)"
    using assms(2) by (simp add: qsmt_proof_verify_def qsmt_wf_def qsmt_on_path_def honest_siblings_def)
qed

theorem qsmt_absent_member_proved_witness:
  "qsmt_proof_verify (map field_reduce)
     \<lparr>qp_siblings = honest_siblings (map field_reduce) [] (replicate 32 1), qp_is_member = True, qp_key = replicate 32 1\<rparr> (replicate 32 0)"
  using qsmt_absent_member_proved [OF _ qsmt_wf_ops(1), of "map field_reduce" "replicate 32 1"] by (simp add: qsmt_new_def qsmt_entries_sorted_def)

text \<open>The root is a function of the nullifiers and their epochs: trees reached by different insertions and removals have
  the same root as soon as they hold the same leaves, whatever the order of their tables.\<close>

theorem qsmt_root_deterministic:
  assumes "qsmt_wf perm s" "qsmt_wf perm t" "map_of (qt_leaves s) = map_of (qt_leaves t)"
  shows "qt_root s = qt_root t"
  using assms sort_key_fst_unique [OF _ unique_keys_mset_eq [of "qt_leaves s" "qt_leaves t"]]
  by (simp add: qsmt_wf_def qsmt_entries_sorted_def)

theorem qsmt_root_deterministic_witness:
  "qt_root (qsmt_insert (map field_reduce) [1] 5 (qsmt_insert (map field_reduce) [2] 6 qsmt_new))
    = qt_root (qsmt_insert (map field_reduce) [2] 6 (qsmt_insert (map field_reduce) [1] 5 qsmt_new))"
proof (rule qsmt_root_deterministic [of "map field_reduce"])
  show "map_of (qt_leaves (qsmt_insert (map field_reduce) [1] 5 (qsmt_insert (map field_reduce) [2] 6 qsmt_new)))
      = map_of (qt_leaves (qsmt_insert (map field_reduce) [2] 6 (qsmt_insert (map field_reduce) [1] 5 qsmt_new)))"
    by (auto simp: qsmt_insert_def qsmt_recompute_root_def qsmt_new_def)
qed simp_all

end
