(* ===== verification/Crypto_Suite.thy ===== *)
theory Crypto_Suite
  imports Merkle_IMT
begin

text \<open>
  The agility and privacy layer of \<open>core/scalar-crypto/src\<close>: the registry of crypto suites, version negotiation and the
  dual-version window (\<open>crypto_agility.rs\<close>, \<open>version.rs\<close>), value commitments, stealth addresses and compliance
  credentials (\<open>privacy.rs\<close>), and the encrypted channel (\<open>channel.rs\<close>).  BLAKE3, the width-8 permutation and the AEAD are
  parameters.
\<close>

section \<open>Suites\<close>

definition DUAL_VERSION_WINDOW_EPOCHS :: u64 where
  "DUAL_VERSION_WINDOW_EPOCHS = 12"

definition SUITE_V1 :: u8 where
  "SUITE_V1 = 1"

datatype hash_function = Poseidon2Goldilocks
datatype signature_scheme = SlhDsa
datatype proof_system = Plonky3Fri
datatype p2p_key_exchange = HybridX25519MlKem768

record crypto_suite_descriptor =
  cs_version :: u8
  cs_hash_function :: hash_function
  cs_signature_scheme :: signature_scheme
  cs_proof_system :: proof_system
  cs_p2p_key_exchange :: p2p_key_exchange
  cs_label :: string

definition suite_v1 :: crypto_suite_descriptor where
  "suite_v1 = \<lparr>cs_version = SUITE_V1, cs_hash_function = Poseidon2Goldilocks, cs_signature_scheme = SlhDsa,
     cs_proof_system = Plonky3Fri, cs_p2p_key_exchange = HybridX25519MlKem768, cs_label = ''CRYPTO_SUITE_V1 (GENESIS)''\<rparr>"

datatype registry_error = DowngradeForbidden u8 u8 | CannotRemoveV1 | RegistryNotFound u8 | RegistryEmpty

type_synonym crypto_suite_registry = "crypto_suite_descriptor list"

definition registry_new :: crypto_suite_registry where
  "registry_new = [suite_v1]"

text \<open>\<open>iter().max().unwrap_or(d)\<close>.\<close>

definition max_or :: "u8 \<Rightarrow> u8 list \<Rightarrow> u8" where
  "max_or d xs = (if xs = [] then d else Max (set xs))"

definition registry_append :: "crypto_suite_descriptor \<Rightarrow> crypto_suite_registry \<Rightarrow> registry_error + crypto_suite_registry" where
  "registry_append suite r =
     (let max_version = max_or 0 (map cs_version r)
      in if cs_version suite \<le> max_version then Inl (DowngradeForbidden (cs_version suite) max_version)
         else Inr (r @ [suite]))"

definition registry_get :: "crypto_suite_registry \<Rightarrow> u8 \<Rightarrow> crypto_suite_descriptor option" where
  "registry_get r version = List.find (\<lambda>s. cs_version s = version) r"

definition active_version :: "crypto_suite_registry \<Rightarrow> u8" where
  "active_version r = max_or SUITE_V1 (map cs_version r)"

definition all_versions :: "crypto_suite_registry \<Rightarrow> u8 list" where
  "all_versions r = sort (map cs_version r)"

definition has_v1 :: "crypto_suite_registry \<Rightarrow> bool" where
  "has_v1 r \<longleftrightarrow> list_ex (\<lambda>s. cs_version s = SUITE_V1) r"

definition negotiate_version :: "u8 list \<Rightarrow> u8 list \<Rightarrow> u8 option" where
  "negotiate_version local_versions remote_versions =
     (let vs = filter (\<lambda>v. v \<in> set remote_versions) local_versions in if vs = [] then None else Some (Max (set vs)))"

record dual_version_window =
  dw_old_version :: u8
  dw_new_version :: u8
  dw_transition_started_epoch :: u64

definition dual_window_new :: "u8 \<Rightarrow> u8 \<Rightarrow> u64 \<Rightarrow> registry_error + dual_version_window" where
  "dual_window_new old_version new_version current_epoch =
     (if new_version \<le> old_version then Inl (DowngradeForbidden new_version old_version)
      else Inr \<lparr>dw_old_version = old_version, dw_new_version = new_version, dw_transition_started_epoch = current_epoch\<rparr>)"

definition is_version_valid :: "u8 \<Rightarrow> u64 \<Rightarrow> dual_version_window \<Rightarrow> bool" where
  "is_version_valid version current_epoch w \<longleftrightarrow>
     (if version = dw_new_version w then True
      else if version = dw_old_version w
           then saturating_sub current_epoch (dw_transition_started_epoch w) < DUAL_VERSION_WINDOW_EPOCHS
           else False)"

definition epochs_remaining :: "u64 \<Rightarrow> dual_version_window \<Rightarrow> u64" where
  "epochs_remaining current_epoch w =
     saturating_sub DUAL_VERSION_WINDOW_EPOCHS (saturating_sub current_epoch (dw_transition_started_epoch w))"

definition dw_is_expired :: "u64 \<Rightarrow> dual_version_window \<Rightarrow> bool" where
  "dw_is_expired current_epoch w \<longleftrightarrow> epochs_remaining current_epoch w = 0"

definition CURRENT_VERSION :: u8 where
  "CURRENT_VERSION = 1"

definition verify_proof_version :: "u8 \<Rightarrow> bool" where
  "verify_proof_version version_id \<longleftrightarrow> version_id = CURRENT_VERSION"

section \<open>Value commitments and stealth addresses\<close>

record value_commitment_opening =
  vo_value :: u64
  vo_blinding_factor :: u64
  vo_salt :: u64

definition value_commit :: "(u64 list \<Rightarrow> u64 list) \<Rightarrow> value_commitment_opening \<Rightarrow> u64 list" where
  "value_commit perm opening = take 4 (poseidon2_permute_t8 perm [vo_value opening, vo_blinding_factor opening, vo_salt opening, 0, 0, 0, 0, 0])"

definition opening_verify :: "(u64 list \<Rightarrow> u64 list) \<Rightarrow> value_commitment_opening \<Rightarrow> u64 list \<Rightarrow> bool" where
  "opening_verify perm opening commitment \<longleftrightarrow> value_commit perm opening = commitment"

record stealth_key_pair =
  sk_viewing_key :: bytes
  sk_spending_key :: bytes

definition stealth_derive :: "(bytes \<Rightarrow> bytes) \<Rightarrow> bytes \<Rightarrow> bytes \<Rightarrow> stealth_key_pair" where
  "stealth_derive blake3 master_key nonce =
     \<lparr>sk_viewing_key = blake3 (ascii ''scalar_view'' @ master_key @ nonce),
      sk_spending_key = blake3 (ascii ''scalar_spend'' @ master_key @ nonce)\<rparr>"

definition stealth_generate :: "(bytes \<Rightarrow> bytes) \<Rightarrow> bytes \<Rightarrow> u64 \<Rightarrow> bytes" where
  "stealth_generate blake3 recipient_viewing_key tx_counter =
     blake3 (ascii ''scalar_stealth'' @ recipient_viewing_key @ le_bytes 8 tx_counter)"

definition stealth_matches :: "(bytes \<Rightarrow> bytes) \<Rightarrow> bytes \<Rightarrow> stealth_key_pair \<Rightarrow> u64 \<Rightarrow> bool" where
  "stealth_matches blake3 address keys tx_counter \<longleftrightarrow> address = stealth_generate blake3 (sk_viewing_key keys) tx_counter"

section \<open>Compliance credentials\<close>

datatype compliance_property = NotSanctioned | ApprovedJurisdiction u32 | AmlScreeningPassed | AgeVerified u8

record zk_kyc_credential =
  zk_holder_id_commitment :: bytes
  zk_issuer_pubkey :: bytes
  zk_expiry_epoch :: u64
  zk_properties :: "compliance_property list"
  zk_issuer_signature :: bytes

definition commit_holder_identity :: "(bytes \<Rightarrow> bytes) \<Rightarrow> bytes \<Rightarrow> bytes \<Rightarrow> bytes" where
  "commit_holder_identity blake3 identity_secret salt = blake3 (ascii ''scalar_kyc_id'' @ identity_secret @ salt)"

fun encode_property :: "compliance_property \<Rightarrow> bytes" where
  "encode_property NotSanctioned = [1]"
| "encode_property (ApprovedJurisdiction jurisdiction_id) = 2 # le_bytes 4 jurisdiction_id"
| "encode_property AmlScreeningPassed = [3]"
| "encode_property (AgeVerified min_age) = [4, min_age]"

definition credential_message :: "bytes \<Rightarrow> u64 \<Rightarrow> compliance_property list \<Rightarrow> bytes" where
  "credential_message holder_id_commitment expiry_epoch properties =
     ascii ''scalar_kyc_sig'' @ holder_id_commitment @ le_bytes 8 expiry_epoch @ concat (map encode_property properties)"

definition credential_signing_bytes :: "(bytes \<Rightarrow> bytes) \<Rightarrow> bytes \<Rightarrow> u64 \<Rightarrow> compliance_property list \<Rightarrow> bytes" where
  "credential_signing_bytes blake3 holder_id_commitment expiry_epoch properties =
     blake3 (credential_message holder_id_commitment expiry_epoch properties)"

datatype kyc_error = KycExpired u64 u64 | UnapprovedIssuer | MissingProperty compliance_property | KycInvalidSignature

definition verify_credential_properties ::
  "(bytes \<Rightarrow> bytes) \<Rightarrow> zk_kyc_credential \<Rightarrow> u64 \<Rightarrow> compliance_property \<Rightarrow> bytes list \<Rightarrow> kyc_error + unit" where
  "verify_credential_properties blake3 c current_epoch required_property approved_issuers =
     (if current_epoch > zk_expiry_epoch c then Inl (KycExpired (zk_expiry_epoch c) current_epoch)
      else if blake3 (zk_issuer_pubkey c) \<notin> set approved_issuers then Inl UnapprovedIssuer
      else if required_property \<notin> set (zk_properties c) then Inl (MissingProperty required_property)
      else Inr ())"

section \<open>Channel\<close>

text \<open>The AEAD is a parameter: \<open>seal key nonce data\<close> and \<open>unseal key nonce ciphertext\<close>, with \<open>None\<close> for a failure.\<close>

datatype channel_error = SigningFailed | InvalidData | VerificationFailed

definition channel_send ::
  "(bytes \<Rightarrow> bytes \<Rightarrow> bytes \<Rightarrow> bytes option) \<Rightarrow> bytes \<Rightarrow> bytes \<Rightarrow> bytes \<Rightarrow> channel_error + bytes" where
  "channel_send seal shared_secret nonce_bytes data =
     (case seal shared_secret nonce_bytes data of
        None \<Rightarrow> Inl SigningFailed
      | Some ciphertext \<Rightarrow> Inr (nonce_bytes @ ciphertext))"

definition channel_receive ::
  "(bytes \<Rightarrow> bytes \<Rightarrow> bytes \<Rightarrow> bytes option) \<Rightarrow> bytes \<Rightarrow> bytes \<Rightarrow> channel_error + bytes" where
  "channel_receive unseal shared_secret encrypted_payload =
     (if length encrypted_payload < 12 then Inl InvalidData
      else
        case unseal shared_secret (take 12 encrypted_payload) (drop 12 encrypted_payload) of
          None \<Rightarrow> Inl VerificationFailed
        | Some data \<Rightarrow> Inr data)"

section \<open>What the registry guarantees\<close>

fun registry_run :: "crypto_suite_descriptor list \<Rightarrow> crypto_suite_registry \<Rightarrow> crypto_suite_registry" where
  "registry_run [] r = r"
| "registry_run (s # ss) r = registry_run ss (case registry_append s r of Inl _ \<Rightarrow> r | Inr r' \<Rightarrow> r')"

definition registry_wf :: "crypto_suite_registry \<Rightarrow> bool" where
  "registry_wf r \<longleftrightarrow> r \<noteq> [] \<and> hd r = suite_v1 \<and> sorted_wrt (<) (map cs_version r)"

lemma max_or_last:
  assumes "sorted_wrt (<) (map cs_version r)" "r \<noteq> []"
  shows "max_or d (map cs_version r) = cs_version (List.last r)"
proof -
  obtain ys y where r: "r = ys @ [y]" using assms(2) by (cases r rule: rev_cases) auto
  have "Max (cs_version ` set r) = cs_version y"
    using assms(1) by (intro Max_eqI) (auto simp: r sorted_wrt_append)
  then show ?thesis using r by (simp add: max_or_def)
qed

lemma registry_append_Inr:
  assumes "registry_wf r" "registry_append s r = Inr r'"
  shows "registry_wf r' \<and> r' = r @ [s] \<and> SUITE_V1 < cs_version s"
proof -
  have m: "max_or 0 (map cs_version r) = Max (cs_version ` set r)" using assms(1) by (simp add: max_or_def registry_wf_def)
  then have s: "r' = r @ [s]" "Max (cs_version ` set r) < cs_version s"
    using assms(2) by (auto simp: registry_append_def Let_def split: if_splits)
  then have lt: "\<forall>x\<in>set r. cs_version x < cs_version s" using assms(1) by (auto simp: registry_wf_def)
  have "suite_v1 \<in> set r" using assms(1) by (metis registry_wf_def hd_in_set)
  then have "SUITE_V1 < cs_version s" using lt by (force simp: suite_v1_def)
  then show ?thesis using assms(1) s(1) lt by (auto simp: registry_wf_def sorted_wrt_append)
qed

lemma registry_run_wf: "registry_wf r \<Longrightarrow> registry_wf (registry_run ss r) \<and> (\<exists>ys. registry_run ss r = r @ ys)"
proof (induction ss arbitrary: r)
  case (Cons s ss)
  then show ?case
    using registry_append_Inr [of r s] Cons.IH by (auto split: sum.splits) (metis append.assoc)
qed simp

lemma registry_new_wf [simp]: "registry_wf registry_new"
  by (simp add: registry_wf_def registry_new_def)

lemma registry_run_append: "registry_run (ss @ ts) r = registry_run ts (registry_run ss r)"
  by (induction ss arbitrary: r) simp_all

lemma sort_versions: "registry_wf r \<Longrightarrow> all_versions r = map cs_version r"
  by (auto simp: all_versions_def registry_wf_def intro!: sorted_sort_id strict_sorted_imp_sorted)

text \<open>The registry is append-only: whatever suites are offered, the genesis suite stays first, the versions are strictly
  increasing, and what has been registered keeps its place; the active version is the last one registered.\<close>

theorem suite_registry_invariant:
  "hd (registry_run ss registry_new) = suite_v1 \<and> has_v1 (registry_run ss registry_new)
   \<and> sorted_wrt (<) (all_versions (registry_run ss registry_new))
   \<and> take (length (registry_run ss registry_new)) (registry_run (ss @ ts) registry_new) = registry_run ss registry_new
   \<and> active_version (registry_run ss registry_new) = cs_version (List.last (registry_run ss registry_new))"
proof -
  let ?r = "registry_run ss registry_new"
  have wf: "registry_wf ?r" using registry_run_wf [of registry_new ss] by simp
  then have "suite_v1 \<in> set ?r" by (metis registry_wf_def hd_in_set)
  then have "has_v1 ?r" unfolding has_v1_def list_ex_iff by (rule rev_bexI) (simp add: suite_v1_def)
  moreover have "take (length ?r) (registry_run (ss @ ts) registry_new) = ?r"
    using registry_run_wf [OF wf, of ts] by (auto simp: registry_run_append)
  ultimately show ?thesis using wf sort_versions [OF wf] max_or_last [of ?r SUITE_V1] by (auto simp: registry_wf_def active_version_def)
qed

text \<open>Negotiation is symmetric and finds the largest common version, or reports that there is none.\<close>

theorem negotiation_correct:
  "negotiate_version vs ws = (if set vs \<inter> set ws = {} then None else Some (Max (set vs \<inter> set ws)))
   \<and> negotiate_version vs ws = negotiate_version ws vs"
proof -
  have *: "negotiate_version vs ws = (if set vs \<inter> set ws = {} then None else Some (Max (set vs \<inter> set ws)))" for vs ws
  proof -
    have "set (filter (\<lambda>v. v \<in> set ws) vs) = set vs \<inter> set ws" by auto
    moreover have "filter (\<lambda>v. v \<in> set ws) vs = [] \<longleftrightarrow> set vs \<inter> set ws = {}" by (auto simp: filter_empty_conv)
    ultimately show ?thesis by (simp add: negotiate_version_def Let_def)
  qed
  show ?thesis by (simp add: * Int_commute)
qed

text \<open>The registry and the proof check contradict each other: as soon as a suite has been appended, the active version is
  one that \<open>verify_proof_version\<close> refuses, and within the window both versions count as valid.\<close>

theorem appended_suite_refused:
  assumes "registry_append s (registry_run ss registry_new) = Inr r"
  shows "active_version r = cs_version s \<and> \<not> verify_proof_version (active_version r)"
proof -
  have "registry_wf (registry_run ss registry_new)" using registry_run_wf [of registry_new ss] by simp
  note a = registry_append_Inr [OF this assms]
  have "active_version r = cs_version (List.last r)"
    unfolding active_version_def using a by (intro max_or_last) (auto simp: registry_wf_def)
  then have "active_version r = cs_version s" using a by simp
  then show ?thesis using a by (auto simp: verify_proof_version_def CURRENT_VERSION_def SUITE_V1_def)
qed

theorem appended_suite_refused_witness:
  "\<not> verify_proof_version (active_version (registry_new @ [suite_v1\<lparr>cs_version := 2\<rparr>]))"
proof -
  have "registry_append (suite_v1\<lparr>cs_version := 2\<rparr>) (registry_run [] registry_new) = Inr (registry_new @ [suite_v1\<lparr>cs_version := 2\<rparr>])"
    by (simp add: registry_append_def registry_new_def max_or_def suite_v1_def SUITE_V1_def word_le_nat_alt)
  then show ?thesis using appended_suite_refused by blast
qed

text \<open>The outgoing suite is accepted for exactly twelve epochs from the start of the transition: it is valid as long as
  some epochs remain, and the incoming one always is.\<close>

theorem dual_window_exact:
  assumes "dual_window_new old new started = Inr w"
  shows "is_version_valid new now w \<and> (is_version_valid old now w \<longleftrightarrow> unat now < unat started + 12)
    \<and> (is_version_valid old now w \<longleftrightarrow> \<not> dw_is_expired now w)"
  using assms
  by (auto simp: dual_window_new_def is_version_valid_def dw_is_expired_def epochs_remaining_def DUAL_VERSION_WINDOW_EPOCHS_def
      word_less_nat_alt word_le_nat_alt unat_saturating_sub unat_eq_zero [symmetric] split: if_splits)

theorem dual_window_exact_witness:
  "\<not> is_version_valid 1 22 \<lparr>dw_old_version = 1, dw_new_version = 2, dw_transition_started_epoch = 10\<rparr>"
  using dual_window_exact [of 1 2 10 "\<lparr>dw_old_version = 1, dw_new_version = 2, dw_transition_started_epoch = 10\<rparr>" 22]
  by (simp add: dual_window_new_def word_le_nat_alt)

section \<open>What commitments and credentials bind\<close>

lemma field_reduce_wrap: "unat v < 2 ^ 32 - 1 \<Longrightarrow> field_reduce (v + GOLDILOCKS_PRIME) = field_reduce v"
  by (simp add: field_reduce_def GOLDILOCKS_PRIME_def word_le_nat_alt unat_add_no_overflow)

text \<open>A value commitment does not bind small values: an amount below \<open>2 ^ 32 - 1\<close> and the same amount plus the field
  prime, more than \<open>2 ^ 63\<close>, have the same commitment under every blinding factor, and both openings verify.\<close>

theorem value_commitment_ambiguous:
  assumes "unat v < 2 ^ 32 - 1"
  shows "opening_verify perm \<lparr>vo_value = v + GOLDILOCKS_PRIME, vo_blinding_factor = b, vo_salt = s\<rparr>
      (value_commit perm \<lparr>vo_value = v, vo_blinding_factor = b, vo_salt = s\<rparr>)
    \<and> 2 ^ 63 < unat (v + GOLDILOCKS_PRIME)"
  using assms field_reduce_wrap [OF assms]
  by (simp add: opening_verify_def value_commit_def poseidon2_permute_t8_def GOLDILOCKS_PRIME_def unat_add_no_overflow)

theorem value_commitment_ambiguous_witness:
  "opening_verify (map field_reduce) \<lparr>vo_value = 5 + GOLDILOCKS_PRIME, vo_blinding_factor = 1, vo_salt = 2\<rparr>
     (value_commit (map field_reduce) \<lparr>vo_value = 5, vo_blinding_factor = 1, vo_salt = 2\<rparr>)"
  using value_commitment_ambiguous [of 5 "map field_reduce" 1 2] by simp

lemma encode_property_prefix_free:
  assumes "encode_property p @ xs = encode_property q @ ys"
  shows "p = q \<and> xs = ys"
  using assms le_bytes_inject [of 4, where ?'a = 32]
  by (cases p; cases q) auto

lemma encode_properties_inj: "concat (map encode_property ps) = concat (map encode_property qs) \<Longrightarrow> ps = qs"
proof (induction ps arbitrary: qs)
  case Nil
  then show ?case by (cases qs; cases "hd qs") auto
next
  case (Cons p ps)
  show ?case
  proof (cases qs)
    case Nil
    then show ?thesis using Cons.prems by (cases p) auto
  next
    case c: (Cons q qs')
    then show ?thesis using Cons encode_property_prefix_free [of p "concat (map encode_property ps)" q "concat (map encode_property qs')"] by simp
  qed
qed

text \<open>What the issuer of a credential signs determines the holder, the expiry and the list of properties: the encoding of
  properties is prefix-free, so their concatenation has one reading.\<close>

theorem credential_message_binds:
  assumes "length h = 32" "length h' = 32" "credential_message h e ps = credential_message h' e' ps'"
  shows "h = h' \<and> e = e' \<and> ps = ps'"
proof -
  have "h = h'" "le_bytes 8 e = le_bytes 8 e'" "concat (map encode_property ps) = concat (map encode_property ps')"
    using assms by (simp_all add: credential_message_def)
  then show ?thesis using le_bytes_inject [of 8 e e'] encode_properties_inj by simp
qed

theorem credential_message_binds_witness:
  "credential_message (replicate 32 0) 1 [NotSanctioned, AmlScreeningPassed] \<noteq> credential_message (replicate 32 0) 1 [NotSanctioned]"
  using credential_message_binds [of "replicate 32 0" "replicate 32 0" 1 "[NotSanctioned, AmlScreeningPassed]" 1 "[NotSanctioned]"] by auto

text \<open>The credential check looks at expiry, issuer and property only: it accepts exactly the unexpired credentials that
  name an approved issuer and list the property, with any holder and any signature.\<close>

theorem credential_check_exact:
  "(verify_credential_properties blake3 c now prop issuers = Inr ()) =
     (now \<le> zk_expiry_epoch c \<and> blake3 (zk_issuer_pubkey c) \<in> set issuers \<and> prop \<in> set (zk_properties c))
   \<and> verify_credential_properties blake3 (c\<lparr>zk_holder_id_commitment := h, zk_issuer_signature := s\<rparr>) now prop issuers
     = verify_credential_properties blake3 c now prop issuers"
  by (auto simp: verify_credential_properties_def not_less)

text \<open>A message sent over the channel is received unchanged by the holder of the same secret, for every twelve-byte nonce,
  as far as the AEAD decrypts what it encrypted.\<close>

theorem channel_roundtrip:
  assumes "\<And>k n d c. seal k n d = Some c \<Longrightarrow> unseal k n c = Some d"
    "length nonce = 12" "channel_send seal k nonce data = Inr payload"
  shows "channel_receive unseal k payload = Inr data"
  using assms by (auto simp: channel_send_def channel_receive_def split: option.splits)

theorem channel_roundtrip_witness:
  "channel_receive (\<lambda>k n c. Some (rev c)) [] (replicate 12 7 @ [3, 2, 1]) = Inr [1, 2, 3]"
  by (rule channel_roundtrip [of "\<lambda>k n d. Some (rev d)" _ "replicate 12 7"]) (auto simp: channel_send_def)

end
