(* ===== verification/Gossip_Node.thy ===== *)
theory Gossip_Node
  imports Proof_Batch State_Sync Heartbeat
begin

text \<open>
  What a node checks before it passes a message on: nullifier deltas (\<open>core/scalar-node/src/gossip.rs\<close>), heartbeats and
  state beacons (\<open>gossip_production.rs\<close>), and the fan-out and framing of \<open>core/scalar-network/src/gossip.rs\<close>.  The proof
  system and the \<open>postcard\<close> decoding of a batch proof are parameters.
\<close>

section \<open>Deltas\<close>

record delta_nullifier =
  dn_nullifier :: bytes
  dn_spend_proof :: bytes
  dn_new_commitment :: bytes

record scalar_gossip_message =
  gm_timestamp :: u64
  gm_smt_root :: bytes
  gm_delta_nullifiers :: "delta_nullifier list"
  gm_sender_signature :: bytes

datatype relay_decision = ProofWellFormed | GossipRejected string

definition should_relay :: "relay_decision \<Rightarrow> bool" where
  "should_relay d \<longleftrightarrow> d = ProofWellFormed"

text \<open>The public inputs every proof is checked against.\<close>

definition pi_for_verify :: transfer_public_inputs where
  "pi_for_verify = \<lparr>tp_fee_total_sscl = 40, tp_sum_inputs_sscl = 40, tp_sum_outputs_sscl = 0, tp_crypto_version = 1,
     tp_current_subepoch_id = 0, tp_target_subepoch_id = 0, tp_utxo_set_root = replicate 32 0, tp_cb_membership_verified = True,
     tp_nullifier_active_root = replicate 32 0, tp_nullifier_archived_root = replicate 32 0, tp_cc_nonmembership_verified = True,
     tp_output_nonzero = True, tp_single_utxo_source = True, tp_commitment_hash = replicate 4 0, tp_nullifier_hash = replicate 4 0\<rparr>"

text \<open>One round of the loop: the reason for which the delta is refused, if any.\<close>

definition delta_refusal ::
  "(bytes \<Rightarrow> batch_transfer_proof option) \<Rightarrow> (bytes \<Rightarrow> 'proof option) \<Rightarrow> (row_air \<Rightarrow> nat \<Rightarrow> 'proof \<Rightarrow> gl list \<Rightarrow> bool)
   \<Rightarrow> delta_nullifier \<Rightarrow> string option" where
  "delta_refusal from_bytes decode verify delta =
     (if dn_spend_proof delta = [] then Some ''empty spend_proof''
      else if dn_new_commitment delta = replicate 32 0 then Some ''zero new_commitment''
      else
        case from_bytes (dn_spend_proof delta) of
          None \<Rightarrow> Some ''proof deserialize failed''
        | Some zkp \<Rightarrow>
            (if bt_ca_proof zkp = [] then Some ''empty ca_proof''
             else if bt_cb_proof zkp = [] then Some ''empty cb_proof''
             else if bt_cc_proof zkp = [] then Some ''empty cc_proof''
             else if bt_cdcecg_proof zkp = [] then Some ''empty cdcecg_proof''
             else
               case verify_transfer_p3 decode verify (bt_cdcecg_proof zkp) pi_for_verify of
                 Inl _ \<Rightarrow> Some ''cdcecg STARK verify failed''
               | Inr _ \<Rightarrow> None))"

fun first_refusal :: "('d \<Rightarrow> string option) \<Rightarrow> 'd list \<Rightarrow> relay_decision" where
  "first_refusal check [] = ProofWellFormed"
| "first_refusal check (d # ds) = (case check d of Some reason \<Rightarrow> GossipRejected reason | None \<Rightarrow> first_refusal check ds)"

definition gossip_validate_and_relay ::
  "(bytes \<Rightarrow> batch_transfer_proof option) \<Rightarrow> (bytes \<Rightarrow> 'proof option) \<Rightarrow> (row_air \<Rightarrow> nat \<Rightarrow> 'proof \<Rightarrow> gl list \<Rightarrow> bool)
   \<Rightarrow> scalar_gossip_message \<Rightarrow> relay_decision" where
  "gossip_validate_and_relay from_bytes decode verify msg =
     (if gm_delta_nullifiers msg = [] then GossipRejected ''empty delta_nullifiers''
      else first_refusal (delta_refusal from_bytes decode verify) (gm_delta_nullifiers msg))"

section \<open>Heartbeats\<close>

record gossip_layer =
  gl_rate_limiter :: hb_rate_limiter
  gl_received_count :: u64
  gl_rejected_count :: u64
  gl_forwarded_count :: u64

definition gossip_layer_new :: gossip_layer where
  "gossip_layer_new = \<lparr>gl_rate_limiter = rl_new, gl_received_count = 0, gl_rejected_count = 0, gl_forwarded_count = 0\<rparr>"

datatype gossip_decision = GdForward | GdRateLimited bytes

definition process_incoming_heartbeat :: "bytes \<Rightarrow> u32 \<Rightarrow> gossip_layer \<Rightarrow> gossip_layer \<times> gossip_decision" where
  "process_incoming_heartbeat node_id timestamp g =
     (let g1 = g\<lparr>gl_received_count := gl_received_count g + 1\<rparr>;
          (rl, ok) = rl_check_and_update (gl_rate_limiter g) node_id timestamp;
          g2 = g1\<lparr>gl_rate_limiter := rl\<rparr>
      in if \<not> ok then (g2\<lparr>gl_rejected_count := gl_rejected_count g + 1\<rparr>, GdRateLimited node_id)
         else (g2\<lparr>gl_forwarded_count := gl_forwarded_count g + 1\<rparr>, GdForward))"

definition MAX_FANOUT :: nat where
  "MAX_FANOUT = 15"

definition compute_adaptive_fanout :: "u64 \<Rightarrow> nat" where
  "compute_adaptive_fanout gss_fp =
     (if gss_fp > 900000 then 3 else if gss_fp > 750000 then 5 else if gss_fp > 600000 then 7
      else if gss_fp > 400000 then 10 else MAX_FANOUT)"

definition deserialize_heartbeat :: "bytes \<Rightarrow> heartbeat_unit option" where
  "deserialize_heartbeat bs = (if length bs \<noteq> 148 then None else Some (hb_from_bytes bs))"

section \<open>Beacons\<close>

record beacon_broadcaster =
  bb_node_key_epoch :: bytes
  bb_broadcast_count :: u64
  bb_received_valid_count :: u64
  bb_received_invalid_count :: u64

definition broadcaster_new :: "bytes \<Rightarrow> beacon_broadcaster" where
  "broadcaster_new node_key_epoch =
     \<lparr>bb_node_key_epoch = node_key_epoch, bb_broadcast_count = 0, bb_received_valid_count = 0, bb_received_invalid_count = 0\<rparr>"

definition create_beacon :: "(bytes \<Rightarrow> bytes) \<Rightarrow> u64 \<Rightarrow> bytes \<Rightarrow> beacon_broadcaster \<Rightarrow> beacon_broadcaster \<times> bytes" where
  "create_beacon blake3 epoch smt_root b =
     (b\<lparr>bb_broadcast_count := bb_broadcast_count b + 1\<rparr>, beacon_to_bytes (state_beacon_new blake3 epoch smt_root (replicate 32 0)))"

definition receive_and_verify_beacon ::
  "(bytes \<Rightarrow> bytes) \<Rightarrow> bytes \<Rightarrow> beacon_broadcaster \<Rightarrow> beacon_broadcaster \<times> state_beacon option" where
  "receive_and_verify_beacon blake3 beacon_bytes b =
     (if length beacon_bytes \<noteq> STATE_BEACON_WIRE_SIZE
      then (b\<lparr>bb_received_invalid_count := bb_received_invalid_count b + 1\<rparr>, None)
      else
        let beacon = beacon_from_bytes beacon_bytes
        in if \<not> beacon_verify blake3 beacon (replicate 32 0)
           then (b\<lparr>bb_received_invalid_count := bb_received_invalid_count b + 1\<rparr>, None)
           else (b\<lparr>bb_received_valid_count := bb_received_valid_count b + 1\<rparr>, Some beacon))"

section \<open>What the delta check guarantees\<close>

lemma first_refusal_iff: "first_refusal check ds = ProofWellFormed \<longleftrightarrow> (\<forall>d\<in>set ds. check d = None)"
  by (induction ds) (auto split: option.splits)

definition delta_ok ::
  "(bytes \<Rightarrow> batch_transfer_proof option) \<Rightarrow> (bytes \<Rightarrow> 'proof option) \<Rightarrow> (row_air \<Rightarrow> nat \<Rightarrow> 'proof \<Rightarrow> gl list \<Rightarrow> bool)
   \<Rightarrow> delta_nullifier \<Rightarrow> bool" where
  "delta_ok from_bytes decode verify d \<longleftrightarrow> dn_spend_proof d \<noteq> [] \<and> dn_new_commitment d \<noteq> replicate 32 0
     \<and> (\<exists>zkp. from_bytes (dn_spend_proof d) = Some zkp
         \<and> [] \<notin> {bt_ca_proof zkp, bt_cb_proof zkp, bt_cc_proof zkp, bt_cdcecg_proof zkp}
         \<and> verify_transfer_p3 decode verify (bt_cdcecg_proof zkp) pi_for_verify = Inr ())"

lemma delta_refusal_None: "delta_refusal from_bytes decode verify d = None \<longleftrightarrow> delta_ok from_bytes decode verify d"
proof (cases "from_bytes (dn_spend_proof d)")
  case (Some pf)
  then show ?thesis
    by (cases "verify_transfer_p3 decode verify (bt_cdcecg_proof pf) pi_for_verify") (auto simp: delta_refusal_def delta_ok_def)
qed (simp add: delta_refusal_def delta_ok_def)

text \<open>A message is passed on exactly if it is not empty and each delta has a non-zero commitment and a batch proof whose
  four parts are present and whose last part verifies against one fixed statement; the nullifier, the commitment itself, the
  sender's signature and the roots play no part.\<close>

theorem gossip_relayed_iff:
  "gossip_validate_and_relay from_bytes decode verify msg = ProofWellFormed \<longleftrightarrow>
     gm_delta_nullifiers msg \<noteq> []
     \<and> list_all (\<lambda>d. dn_spend_proof d \<noteq> [] \<and> dn_new_commitment d \<noteq> replicate 32 0
         \<and> (\<exists>zkp. from_bytes (dn_spend_proof d) = Some zkp
             \<and> [] \<notin> {bt_ca_proof zkp, bt_cb_proof zkp, bt_cc_proof zkp, bt_cdcecg_proof zkp}
             \<and> verify_transfer_p3 decode verify (bt_cdcecg_proof zkp) pi_for_verify = Inr ()))
       (gm_delta_nullifiers msg)"
  unfolding delta_ok_def [symmetric]
  by (simp add: gossip_validate_and_relay_def first_refusal_iff delta_refusal_None list_all_iff)

lemma hd_canonical: "hd (map as_canonical_u64 (to_goldilocks pi)) = field_reduce (tp_fee_total_sscl pi)"
  by (simp add: to_goldilocks_def)

lemma pi_for_verify_fee: "tp_fee_total_sscl pi_for_verify = 40"
  by (simp add: pi_for_verify_def)

lemma pi_for_verify_wf: "tpi_wf pi_for_verify"
  by (simp add: tpi_wf_def pi_for_verify_def)

text \<open>C31. One proof opens the gossip layer: with a complete proof system, and an encoding in which every batch proof has a non-empty
  byte string, there is a proof of the fixed statement, and every message with at least one delta whose deltas all carry it and have a new commitment other than zero is passed on,
  whatever its nullifiers, roots and signatures are and whatever else the new commitments are.\<close>

theorem gossip_universal_proof:
  fixes verify :: "row_air \<Rightarrow> nat \<Rightarrow> 'proof \<Rightarrow> gl list \<Rightarrow> bool"
  assumes "stark decode prove verify" "decode [] = None" "\<And>p. \<exists>sp. sp \<noteq> [] \<and> from_bytes sp = Some p"
  shows "\<exists>sp. \<forall>msg. gm_delta_nullifiers msg \<noteq> []
      \<and> (\<forall>d\<in>set (gm_delta_nullifiers msg). dn_spend_proof d = sp \<and> dn_new_commitment d \<noteq> replicate 32 0)
    \<longrightarrow> gossip_validate_and_relay from_bytes decode verify msg = ProofWellFormed"
proof -
  have "pi_statement pi_for_verify" by (simp add: pi_statement_def pi_for_verify_def Let_def)
  then obtain trace where "air_accepts transfer_eval TRANSFER_TRACE_WIDTH trace (to_goldilocks pi_for_verify)"
    using transfer_language_pi(1) [OF pi_for_verify_wf] by blast
  then have "air_accepts transfer_eval TRANSFER_TRACE_WIDTH [hd trace] (to_goldilocks pi_for_verify)" by (rule air_accepts_hd)
  from starkD(1) [OF assms(1) this] obtain b p where
    b: "decode b = Some p" "verify transfer_eval TRANSFER_TRACE_WIDTH p (to_goldilocks pi_for_verify)" by (auto simp: is_power_of_two_1)
  then have "b \<noteq> []" using assms(2) by auto
  let ?zkp = "\<lparr>bt_ca_proof = [0], bt_cb_proof = [0], bt_cc_proof = [0], bt_cdcecg_proof = b\<rparr>"
  obtain sp where sp: "sp \<noteq> []" "from_bytes sp = Some ?zkp" using assms(3) by blast
  have "delta_refusal from_bytes decode verify d = None" if "dn_spend_proof d = sp" "dn_new_commitment d \<noteq> replicate 32 0" for d
    using that b \<open>b \<noteq> []\<close> sp by (simp add: delta_refusal_def verify_transfer_p3_def)
  then show ?thesis by (intro exI [of _ sp]) (auto simp: gossip_validate_and_relay_def first_refusal_iff)
qed

text \<open>Honest transfers are not passed on: a proof that verifies for its own public values and, as the transcript binds it,
  for no others is refused whenever these are not the fixed ones, for instance for every fee other than the minimum of 40.\<close>

theorem gossip_refuses_other_fees:
  assumes "\<And>e w p pv pv'. verify e w p pv \<Longrightarrow> verify e w p pv' \<Longrightarrow> map as_canonical_u64 pv = map as_canonical_u64 pv'"
    "d \<in> set (gm_delta_nullifiers msg)" "from_bytes (dn_spend_proof d) = Some zkp"
    "verify_transfer_p3 decode verify (bt_cdcecg_proof zkp) pi = Inr ()" "field_reduce (tp_fee_total_sscl pi) \<noteq> 40"
  shows "gossip_validate_and_relay from_bytes decode verify msg \<noteq> ProofWellFormed"
proof
  assume "gossip_validate_and_relay from_bytes decode verify msg = ProofWellFormed"
  then have "delta_refusal from_bytes decode verify d = None"
    using assms(2) by (auto simp: gossip_validate_and_relay_def first_refusal_iff split: if_splits)
  then have "verify_transfer_p3 decode verify (bt_cdcecg_proof zkp) pi_for_verify = Inr ()"
    using assms(3) by (auto simp: delta_refusal_def split: if_splits sum.splits)
  then obtain p where "verify transfer_eval TRANSFER_TRACE_WIDTH p (to_goldilocks pi)"
    "verify transfer_eval TRANSFER_TRACE_WIDTH p (to_goldilocks pi_for_verify)"
    using assms(4) by (auto simp: verify_transfer_p3_def split: option.splits if_splits)
  then have "map as_canonical_u64 (to_goldilocks pi) = map as_canonical_u64 (to_goldilocks pi_for_verify)" by (rule assms(1))
  then have "field_reduce (tp_fee_total_sscl pi) = field_reduce 40"
    using arg_cong [of _ _ hd] hd_canonical [of pi] hd_canonical [of pi_for_verify] by (metis pi_for_verify_fee)
  then show False using assms(5) by (simp add: field_reduce_def GOLDILOCKS_PRIME_def word_le_nat_alt)
qed

text \<open>A decoder that reaches every batch proof, and the ideal proof system with the empty string left out.\<close>

definition any_batch :: "bytes \<Rightarrow> batch_transfer_proof option" where
  "any_batch b =
     (case from_nat (length b - 1) :: nat list \<times> nat list \<times> nat list \<times> nat list of (w, x, y, z) \<Rightarrow>
        Some \<lparr>bt_ca_proof = map of_nat w, bt_cb_proof = map of_nat x, bt_cc_proof = map of_nat y, bt_cdcecg_proof = map of_nat z\<rparr>)"

definition any_trace :: "bytes \<Rightarrow> gl list list option" where
  "any_trace b = (if b = [] then None else Some (from_nat (length b - 1)))"

lemma any_batch_surj: "\<exists>sp. sp \<noteq> [] \<and> any_batch sp = Some p"
proof -
  let ?n = "to_nat (map unat (bt_ca_proof p), map unat (bt_cb_proof p), map unat (bt_cc_proof p), map unat (bt_cdcecg_proof p))"
  have "any_batch (replicate (Suc ?n) 0) = Some p" by (cases p) (simp add: any_batch_def o_def)
  moreover have "replicate (Suc ?n) (0 :: u8) \<noteq> []" by simp
  ultimately show ?thesis by blast
qed

lemma any_trace_stark: "stark any_trace (\<lambda>_ trace _. Some (replicate (Suc (to_nat trace)) 0)) air_accepts"
  by (auto simp: stark_def any_trace_def)

theorem gossip_universal_proof_witness:
  "\<exists>sp. gossip_validate_and_relay any_batch any_trace air_accepts
     \<lparr>gm_timestamp = 0, gm_smt_root = replicate 32 3,
       gm_delta_nullifiers = [\<lparr>dn_nullifier = replicate 32 7, dn_spend_proof = sp, dn_new_commitment = replicate 32 9\<rparr>],
       gm_sender_signature = []\<rparr> = ProofWellFormed"
  using gossip_universal_proof [OF any_trace_stark _ any_batch_surj] by (force simp: any_trace_def)

text \<open>A proof system in which the proof is the statement.\<close>

definition sample_fee_pi :: transfer_public_inputs where
  "sample_fee_pi = pi_for_verify\<lparr>tp_fee_total_sscl := 50, tp_sum_inputs_sscl := 50\<rparr>"

definition sample_delta :: delta_nullifier where
  "sample_delta = \<lparr>dn_nullifier = [1], dn_spend_proof = [1], dn_new_commitment = [1]\<rparr>"

theorem gossip_refuses_other_fees_witness:
  "gossip_validate_and_relay (\<lambda>_. Some \<lparr>bt_ca_proof = [0], bt_cb_proof = [0], bt_cc_proof = [0], bt_cdcecg_proof = [0]\<rparr>)
     (\<lambda>_. Some (to_goldilocks sample_fee_pi)) (\<lambda>_ _ p pv. p = pv)
     \<lparr>gm_timestamp = 0, gm_smt_root = [], gm_delta_nullifiers = [sample_delta], gm_sender_signature = []\<rparr> \<noteq> ProofWellFormed"
proof (rule gossip_refuses_other_fees [of "\<lambda>_ _ p pv. p = pv" sample_delta _ _ _ _ sample_fee_pi])
  show "verify_transfer_p3 (\<lambda>_. Some (to_goldilocks sample_fee_pi)) (\<lambda>_ _ p pv. p = pv)
      (bt_cdcecg_proof \<lparr>bt_ca_proof = [0], bt_cb_proof = [0], bt_cc_proof = [0], bt_cdcecg_proof = [0]\<rparr>) sample_fee_pi = Inr ()"
    by (simp add: verify_transfer_p3_def)
  show "field_reduce (tp_fee_total_sscl sample_fee_pi) \<noteq> 40"
    by (simp add: sample_fee_pi_def pi_for_verify_def field_reduce_def GOLDILOCKS_PRIME_def word_le_nat_alt)
qed simp_all

section \<open>What the heartbeat and beacon layers guarantee\<close>

definition gossip_step :: "gossip_layer \<Rightarrow> bytes \<times> u32 \<Rightarrow> gossip_layer \<times> bool" where
  "gossip_step g i = (let (g', d) = process_incoming_heartbeat (fst i) (snd i) g in (g', d = GdForward))"

fun gossip_run :: "(bytes \<times> u32) list \<Rightarrow> gossip_layer \<Rightarrow> gossip_layer" where
  "gossip_run [] g = g"
| "gossip_run (i # is) g = gossip_run is (fst (gossip_step g i))"

interpretation gossip: node_gate "\<lambda>g. rl_last (gl_rate_limiter g)" gossip_step fst snd hb_spaced "\<lambda>_ _. True"
  by unfold_locales
    (auto simp: gossip_step_def process_incoming_heartbeat_def rl_check_and_update_eq rl_last_def map_of_update_neq Let_def
      split: if_splits prod.splits)

text \<open>The gossip layer counts every heartbeat exactly once, as forwarded or as refused, and the heartbeats it forwards for
  one node are at least 300 seconds apart, whatever arrives in between.\<close>

theorem gossip_layer_correct:
  "gl_received_count (gossip_run is gossip_layer_new)
     = gl_forwarded_count (gossip_run is gossip_layer_new) + gl_rejected_count (gossip_run is gossip_layer_new)
   \<and> successively (\<lambda>a b. unat a + 300 \<le> unat b) (accepted_vals gossip_step fst snd n gossip_layer_new is)"
proof
  have "gl_received_count (gossip_run is g) - gl_forwarded_count (gossip_run is g) - gl_rejected_count (gossip_run is g)
      = gl_received_count g - gl_forwarded_count g - gl_rejected_count g" for g
  proof (induction "is" arbitrary: g)
    case (Cons i "is")
    have "gl_received_count (fst (gossip_step g i)) - gl_forwarded_count (fst (gossip_step g i)) - gl_rejected_count (fst (gossip_step g i))
        = gl_received_count g - gl_forwarded_count g - gl_rejected_count g"
      by (simp add: gossip_step_def process_incoming_heartbeat_def Let_def split: prod.splits)
    then show ?case using Cons by simp
  qed simp
  from this [of gossip_layer_new] show "gl_received_count (gossip_run is gossip_layer_new)
      = gl_forwarded_count (gossip_run is gossip_layer_new) + gl_rejected_count (gossip_run is gossip_layer_new)"
    by (simp add: gossip_layer_new_def algebra_simps)
  show "successively (\<lambda>a b. unat a + 300 \<le> unat b) (accepted_vals gossip_step fst snd n gossip_layer_new is)"
    using gossip.accepted_chain [of "is" n gossip_layer_new] by (simp add: hb_spaced_def [abs_def])
qed

text \<open>Beacons are not authenticated: both ends use the zero key, so a beacon that anyone makes for any epoch and root is
  accepted, and a beacon made with a node's own key is accepted only if its four-byte MAC happens to be that of the zero
  key.\<close>

theorem beacon_anyone_can_send:
  assumes "\<And>m. length (blake3 m) = 32" "length root = 32"
  shows "snd (receive_and_verify_beacon blake3 (snd (create_beacon blake3 epoch root b)) b') \<noteq> None
    \<and> (snd (receive_and_verify_beacon blake3 (beacon_to_bytes (state_beacon_new blake3 epoch root key)) b') \<noteq> None
       \<longleftrightarrow> sb_mac (state_beacon_new blake3 epoch root key) = sb_mac (state_beacon_new blake3 epoch root (replicate 32 0)))"
proof -
  let ?b = "\<lambda>k. state_beacon_new blake3 epoch root k"
  have rt: "length (beacon_to_bytes (?b k)) = STATE_BEACON_WIRE_SIZE" "beacon_from_bytes (beacon_to_bytes (?b k)) = ?b k" for k
    using beacon_wire [OF assms] by simp_all
  show ?thesis by (simp add: receive_and_verify_beacon_def create_beacon_def rt Let_def) (simp add: state_beacon_new_def beacon_verify_def)
qed

theorem beacon_anyone_can_send_witness:
  "snd (receive_and_verify_beacon (\<lambda>_. replicate 32 7) (snd (create_beacon (\<lambda>_. replicate 32 7) 5 (replicate 32 1) (broadcaster_new [1]))) (broadcaster_new [2])) \<noteq> None"
  using beacon_anyone_can_send [of "\<lambda>_. replicate 32 7" "replicate 32 1" 5 "broadcaster_new [1]" "broadcaster_new [2]"] by simp

end
