(* ===== verification/Client_Sdk.thy ===== *)
theory Client_Sdk
  imports Subepoch Manifest Ordering
begin

text \<open>
  The client layer: the wallet's pool of pending transactions, supply queries, reports, local proofs and write-once records
  (\<open>client/scalar-sdk/src\<close>), the auditor's inspection of manifests and nullifiers (\<open>client/scalar-audit/src\<close>), and the note
  a reward is turned into (\<open>client/scalar-wallet-core/src/reward_utxo.rs\<close>).  BLAKE3 is a parameter.
\<close>

section \<open>Pending transactions\<close>

definition MAX_RETRY_COUNT :: u32 where
  "MAX_RETRY_COUNT = 3"

datatype pending_outcome = PoAccepted | PoRetained u32 | DroppedMaxRetry | DroppedInvalid

record transaction_subepoch_ref =
  sr_epoch_id :: u64
  sr_subepoch_id :: u32
  sr_subepoch_hash :: bytes

record pending_tx =
  pt_txid :: bytes
  pt_subepoch_ref :: transaction_subepoch_ref
  pt_retry_count :: u32

definition pending_tx_new :: "bytes \<Rightarrow> transaction_subepoch_ref \<Rightarrow> pending_tx" where
  "pending_tx_new txid r = \<lparr>pt_txid = txid, pt_subepoch_ref = r, pt_retry_count = 0\<rparr>"

type_synonym pending_tx_pool = "pending_tx list"

definition pool_add :: "pending_tx \<Rightarrow> pending_tx_pool \<Rightarrow> pending_tx_pool" where
  "pool_add tx p = p @ [tx]"

definition pool_contains :: "pending_tx_pool \<Rightarrow> bytes \<Rightarrow> bool" where
  "pool_contains p txid \<longleftrightarrow> list_ex (\<lambda>t. pt_txid t = txid) p"

text \<open>\<open>Vec::remove\<close>.\<close>

definition remove_at :: "nat \<Rightarrow> 'x list \<Rightarrow> 'x list" where
  "remove_at i xs = take i xs @ drop (Suc i) xs"

text \<open>\<open>iter().position(..)\<close>.\<close>

fun position :: "('x \<Rightarrow> bool) \<Rightarrow> 'x list \<Rightarrow> nat option" where
  "position P [] = None"
| "position P (x # xs) = (if P x then Some 0 else map_option Suc (position P xs))"

definition apply_result :: "bytes \<Rightarrow> verification_result \<Rightarrow> pending_tx_pool \<Rightarrow> pending_tx_pool \<times> pending_outcome" where
  "apply_result txid result p =
     (case position (\<lambda>t. pt_txid t = txid) p of
        None \<Rightarrow> (p, DroppedInvalid)
      | Some pos \<Rightarrow>
          (let retry =
             (let n = pt_retry_count (p ! pos) + 1; p' = p[pos := (p ! pos)\<lparr>pt_retry_count := n\<rparr>]
              in if n > MAX_RETRY_COUNT then (remove_at pos p', DroppedMaxRetry) else (p', PoRetained n))
           in case result of
                Valid \<Rightarrow> (remove_at pos p, PoAccepted)
              | SubEpochNotFound \<Rightarrow> retry
              | SubEpochQuorumFailed _ \<Rightarrow> retry
              | SubEpochHashMismatch \<Rightarrow> (remove_at pos p, DroppedInvalid)
              | IMTFrontierMismatch \<Rightarrow> (remove_at pos p, DroppedInvalid)
              | IMTCountMismatch \<Rightarrow> (remove_at pos p, DroppedInvalid)
              | EpochMismatch _ _ \<Rightarrow> (remove_at pos p, DroppedInvalid)))"

definition detect_epoch_boundary_drop :: "u64 \<Rightarrow> pending_tx_pool \<Rightarrow> pending_tx_pool \<times> bytes list" where
  "detect_epoch_boundary_drop current_epoch_id p =
     (let stale = (\<lambda>t. sr_epoch_id (pt_subepoch_ref t) < current_epoch_id)
      in (filter (\<lambda>t. \<not> stale t) p, map pt_txid (filter stale p)))"

section \<open>Supply queries and reports\<close>

record accounting_snapshot =
  an_total_pou_minted_sscl :: u64
  an_deferred_emission_pool_sscl :: u64
  an_security_fund_accumulator_sscl :: u64
  an_total_reserve_released_sscl :: u64
  an_snapshot_epoch :: u64

definition SDK_S_MAX_SSCL :: u64 where
  "SDK_S_MAX_SSCL = 2100000000000000"

definition verify_supply_conservation :: "accounting_snapshot \<Rightarrow> bool" where
  "verify_supply_conservation s \<longleftrightarrow>
     saturating_add (saturating_add (an_total_pou_minted_sscl s) (an_deferred_emission_pool_sscl s))
       (an_security_fund_accumulator_sscl s) \<le> SDK_S_MAX_SSCL"

definition SDK_S_E_SSCL :: u64 where
  "SDK_S_E_SSCL = 1890000000000000"

definition SDK_E0_SSCL :: u64 where
  "SDK_E0_SSCL = 12600000000000"

record scarcity_proof =
  sp_total_minted_sscl :: u64
  sp_supply_cap_sscl :: u64
  sp_epoch :: u64
  sp_is_valid :: bool

definition query_scarcity_proof :: "u64 \<Rightarrow> u64 \<Rightarrow> scarcity_proof" where
  "query_scarcity_proof total_minted_sscl epoch =
     \<lparr>sp_total_minted_sscl = total_minted_sscl, sp_supply_cap_sscl = SDK_S_E_SSCL, sp_epoch = epoch,
      sp_is_valid = (total_minted_sscl \<le> SDK_S_E_SSCL)\<rparr>"

record mpas_report =
  mp_emission_actual_sscl :: u64
  mp_emission_projected_sscl :: u64
  mp_deviation_fp :: u64
  mp_epoch :: u64

definition query_monetary_policy_score :: "u64 \<Rightarrow> u64 \<Rightarrow> mpas_report" where
  "query_monetary_policy_score emission_actual_sscl epoch =
     (let diff = (if emission_actual_sscl \<ge> SDK_E0_SSCL then emission_actual_sscl - SDK_E0_SSCL
                  else SDK_E0_SSCL - emission_actual_sscl)
      in \<lparr>mp_emission_actual_sscl = emission_actual_sscl, mp_emission_projected_sscl = SDK_E0_SSCL,
          mp_deviation_fp = ucast (unwrap_or (checked_div (saturating_mul (ucast diff :: u128) 1000000) (ucast SDK_E0_SSCL)) 1000000),
          mp_epoch = epoch\<rparr>)"

datatype sdk_error = SdkSupplyCapExceeded u64 u64 | InvalidNodeId | ThresholdNotMet | SdkInvalidInput

record sla_report =
  sl_node_id :: bytes
  sl_uptime_actual_fp :: u64
  sl_uptime_committed_fp :: u64
  sl_sla_met :: bool
  sl_epoch :: u64

definition query_uptime_sla :: "bytes \<Rightarrow> u64 \<Rightarrow> u64 \<Rightarrow> u64 \<Rightarrow> sdk_error + sla_report" where
  "query_uptime_sla node_id uptime_actual_fp uptime_committed_fp epoch =
     (if node_id = replicate 32 0 then Inl InvalidNodeId
      else Inr \<lparr>sl_node_id = node_id, sl_uptime_actual_fp = uptime_actual_fp, sl_uptime_committed_fp = uptime_committed_fp,
        sl_sla_met = (uptime_actual_fp \<ge> uptime_committed_fp), sl_epoch = epoch\<rparr>)"

record payment_proof =
  pp_proof_hash :: bytes
  pp_tx_epoch :: u64
  pp_amount_sscl :: u64

definition build_payment_proof :: "(bytes \<Rightarrow> bytes) \<Rightarrow> bytes \<Rightarrow> u64 \<Rightarrow> u64 \<Rightarrow> payment_proof" where
  "build_payment_proof blake3 tx_commitment tx_epoch amount_sscl =
     \<lparr>pp_proof_hash = blake3 (tx_commitment @ le_bytes 8 tx_epoch @ le_bytes 8 amount_sscl), pp_tx_epoch = tx_epoch,
      pp_amount_sscl = amount_sscl\<rparr>"

section \<open>Local proofs and records\<close>

record threshold_proof =
  tp_balance_commitment :: bytes
  tp_threshold_sscl :: u64
  tp_result :: bool

definition build_threshold_proof :: "(bytes \<Rightarrow> bytes) \<Rightarrow> u64 \<Rightarrow> u64 \<Rightarrow> bytes \<Rightarrow> sdk_error + threshold_proof" where
  "build_threshold_proof blake3 balance_sscl threshold_sscl nonce =
     Inr \<lparr>tp_balance_commitment = blake3 (le_bytes 8 balance_sscl @ le_bytes 8 threshold_sscl @ nonce),
       tp_threshold_sscl = threshold_sscl, tp_result = (balance_sscl \<ge> threshold_sscl)\<rparr>"

record ncp_proof =
  nc_origin_commitment :: bytes
  nc_exclusion_set_hash :: bytes
  nc_is_compliant :: bool

definition build_negative_compliance_proof :: "(bytes \<Rightarrow> bytes) \<Rightarrow> bytes \<Rightarrow> bytes list \<Rightarrow> bytes \<Rightarrow> sdk_error + ncp_proof" where
  "build_negative_compliance_proof blake3 coin_nullifier excluded_addresses nonce =
     (if excluded_addresses = [] then Inl SdkInvalidInput
      else
        let sorted_addresses = sort excluded_addresses
        in Inr \<lparr>nc_origin_commitment = blake3 (coin_nullifier @ nonce),
             nc_exclusion_set_hash = blake3 (concat sorted_addresses),
             nc_is_compliant = (coin_nullifier \<notin> set sorted_addresses)\<rparr>)"

record credential_proof =
  cp_credential_commitment :: bytes
  cp_issuer_hash :: bytes
  cp_epoch :: u64

definition build_credential_proof :: "(bytes \<Rightarrow> bytes) \<Rightarrow> bytes \<Rightarrow> bytes \<Rightarrow> bytes \<Rightarrow> u64 \<Rightarrow> sdk_error + credential_proof" where
  "build_credential_proof blake3 credential_data issuer_id nonce epoch =
     (if credential_data = [] then Inl SdkInvalidInput
      else Inr \<lparr>cp_credential_commitment = blake3 (credential_data @ nonce), cp_issuer_hash = blake3 issuer_id, cp_epoch = epoch\<rparr>)"

record dead_man_switch_record =
  dm_primary_node_key :: bytes
  dm_backup_node_id :: bytes
  dm_succession_commitment :: bytes
  dm_created_epoch :: u64

definition build_dead_man_switch :: "(bytes \<Rightarrow> bytes) \<Rightarrow> bytes \<Rightarrow> bytes \<Rightarrow> u64 \<Rightarrow> sdk_error + dead_man_switch_record" where
  "build_dead_man_switch blake3 primary_node_key backup_node_id created_epoch =
     (if backup_node_id = replicate 32 0 then Inl InvalidNodeId
      else Inr \<lparr>dm_primary_node_key = primary_node_key, dm_backup_node_id = backup_node_id,
        dm_succession_commitment = blake3 (primary_node_key @ backup_node_id @ le_bytes 8 created_epoch), dm_created_epoch = created_epoch\<rparr>)"

record timestamp_record =
  tr_document_hash :: bytes
  tr_commitment :: bytes
  tr_epoch :: u64

definition build_timestamp_record :: "(bytes \<Rightarrow> bytes) \<Rightarrow> bytes \<Rightarrow> u64 \<Rightarrow> sdk_error + timestamp_record" where
  "build_timestamp_record blake3 document_hash epoch =
     (if document_hash = replicate 32 0 then Inl SdkInvalidInput
      else Inr \<lparr>tr_document_hash = document_hash, tr_commitment = blake3 (document_hash @ le_bytes 8 epoch), tr_epoch = epoch\<rparr>)"

record indelible_record =
  ir_data_hash :: bytes
  ir_nullifier_commitment :: bytes
  ir_epoch :: u64

definition build_indelible_record :: "(bytes \<Rightarrow> bytes) \<Rightarrow> bytes \<Rightarrow> u64 \<Rightarrow> sdk_error + indelible_record" where
  "build_indelible_record blake3 data_hash epoch =
     (if data_hash = replicate 32 0 then Inl SdkInvalidInput
      else Inr \<lparr>ir_data_hash = data_hash, ir_nullifier_commitment = blake3 (data_hash @ le_bytes 8 epoch), ir_epoch = epoch\<rparr>)"

section \<open>Audit\<close>

datatype nullifier_status = NsUnspent | NsSpent u64 | NsUnknown

definition inspect_nullifier_state :: "bytes \<Rightarrow> bytes list \<Rightarrow> nullifier_status" where
  "inspect_nullifier_state nullifier spent_nullifiers =
     (case position (\<lambda>s. s = nullifier) spent_nullifiers of Some i \<Rightarrow> NsSpent (of_nat i) | None \<Rightarrow> NsUnspent)"

datatype manifest_audit_result =
    AuditValid nat u64
  | AuditHashMismatch bytes bytes
  | AuditInvalidSpecVersion u8 u8
  | AuditEmptyManifest

definition audit_manifest_hash :: "(bytes \<Rightarrow> bytes) \<Rightarrow> epoch_reward_manifest \<Rightarrow> manifest_audit_result" where
  "audit_manifest_hash blake3 m =
     (if em_spec_version m \<noteq> SPEC_VERSION_MANIFEST then AuditInvalidSpecVersion (em_spec_version m) SPEC_VERSION_MANIFEST
      else if em_node_list m = [] \<and> em_total_emission_sscl m > 0 then AuditEmptyManifest
      else if compute_manifest_hash blake3 m \<noteq> em_manifest_hash m
           then AuditHashMismatch (em_manifest_hash m) (compute_manifest_hash blake3 m)
      else AuditValid (length (em_node_list m)) (em_total_emission_sscl m))"

datatype proof_verification_result = PvValid | PvUnverifiable | PvInvalid | PvMalformed

text \<open>\<open>from_bytes\<close> is the third-party decoding of the proof.\<close>

definition audit_transfer_proof :: "(bytes \<Rightarrow> 'p option) \<Rightarrow> bytes \<Rightarrow> proof_verification_result" where
  "audit_transfer_proof from_bytes prf =
     (if prf = [] then PvMalformed else case from_bytes prf of None \<Rightarrow> PvMalformed | Some _ \<Rightarrow> PvUnverifiable)"

section \<open>Reward notes\<close>

definition DOMAIN_COMMITMENT_V2 :: bytes where
  "DOMAIN_COMMITMENT_V2 = ascii ''scalar_utxo_set''"

definition DOMAIN_SALT_V1 :: bytes where
  "DOMAIN_SALT_V1 = ascii ''scalar_salt_v1''"

record reward_utxo =
  ru_commitment :: bytes
  ru_value_sscl :: u64
  ru_epoch_id :: u64
  ru_node_id_full :: bytes
  ru_mint_nullifier :: u64

definition derive_utxo_salt :: "(bytes \<Rightarrow> bytes) \<Rightarrow> bytes \<Rightarrow> bytes" where
  "derive_utxo_salt blake3 secret = blake3 (DOMAIN_SALT_V1 @ secret)"

definition compute_utxo_commitment :: "(bytes \<Rightarrow> bytes) \<Rightarrow> u64 \<Rightarrow> bytes \<Rightarrow> bytes \<Rightarrow> bytes \<Rightarrow> bytes" where
  "compute_utxo_commitment blake3 value_sscl owner_pubkey secret salt =
     blake3 (DOMAIN_COMMITMENT_V2 @ le_bytes 8 value_sscl @ owner_pubkey @ secret @ salt)"

definition build_reward_utxo ::
  "(bytes \<Rightarrow> bytes) \<Rightarrow> bytes \<Rightarrow> u64 \<Rightarrow> u64 \<Rightarrow> bytes \<Rightarrow> bytes \<Rightarrow> mint_nullifier_set \<Rightarrow> mint_nullifier_set \<times> (emission_error + reward_utxo)" where
  "build_reward_utxo blake3 node_id_full epoch_id reward_amount_sscl owner_pubkey spending_secret nullifier_set =
     (if reward_amount_sscl = 0 then (nullifier_set, Inl ZeroTotalWeight)
      else
        case record_claim nullifier_set node_id_full epoch_id of
          (s, Inl e) \<Rightarrow> (s, Inl e)
        | (s, Inr mint_nullifier) \<Rightarrow>
            (let salt = derive_utxo_salt blake3 spending_secret
             in (s, Inr \<lparr>ru_commitment = compute_utxo_commitment blake3 reward_amount_sscl owner_pubkey spending_secret salt,
                  ru_value_sscl = reward_amount_sscl, ru_epoch_id = epoch_id, ru_node_id_full = node_id_full,
                  ru_mint_nullifier = mint_nullifier\<rparr>)))"

section \<open>What the pool guarantees\<close>

lemma position_Some: "position P xs = Some i \<Longrightarrow> i < length xs \<and> P (xs ! i)"
  by (induction xs arbitrary: i) (auto split: if_splits)

lemma position_None: "position P xs = None \<longleftrightarrow> \<not> list_ex P xs"
  by (induction xs) auto

lemma sum_list_remove_at: "i < length xs \<Longrightarrow> sum_list (map f xs) = (f (xs ! i) :: nat) + sum_list (map f (remove_at i xs))"
  unfolding remove_at_def by (subst id_take_nth_drop [of i xs]) simp_all

lemma sum_list_update_nat:
  "i < length xs \<Longrightarrow> sum_list (map f (xs[i := x])) + f (xs ! i) = sum_list (map f xs) + (f x :: nat)"
  by (induction xs arbitrary: i) (auto split: nat.splits)

text \<open>How many more answers a pool can absorb: a transaction is dropped at the fourth failure.\<close>

definition pool_budget :: "pending_tx_pool \<Rightarrow> nat" where
  "pool_budget p = sum_list (map (\<lambda>t. 4 - unat (pt_retry_count t)) p)"

definition pool_wf :: "pending_tx_pool \<Rightarrow> bool" where
  "pool_wf p \<longleftrightarrow> list_all (\<lambda>t. pt_retry_count t \<le> MAX_RETRY_COUNT) p"

lemma pool_wf_nth: "pool_wf p \<Longrightarrow> i < length p \<Longrightarrow> unat (pt_retry_count (p ! i)) \<le> 3"
  by (simp add: pool_wf_def list_all_length MAX_RETRY_COUNT_def word_le_nat_alt)

lemma pool_wf_remove: "pool_wf p \<Longrightarrow> pool_wf (remove_at i p)"
  by (auto simp: pool_wf_def remove_at_def list_all_iff dest: in_set_takeD in_set_dropD)

lemma apply_result_step:
  assumes "pool_wf p" "pool_contains p txid"
  shows "pool_budget (fst (apply_result txid r p)) < pool_budget p \<and> pool_wf (fst (apply_result txid r p))"
proof -
  obtain i where i: "position (\<lambda>t. pt_txid t = txid) p = Some i"
    using assms(2) position_None [of "\<lambda>t. pt_txid t = txid" p] by (auto simp: pool_contains_def)
  then have len: "i < length p" using position_Some by blast
  let ?n = "pt_retry_count (p ! i) + 1" and ?f = "\<lambda>t. 4 - unat (pt_retry_count t)"
  have c: "unat (pt_retry_count (p ! i)) \<le> 3" by (rule pool_wf_nth [OF assms(1) len])
  then have n: "unat ?n = Suc (unat (pt_retry_count (p ! i)))" by (simp add: unat_add_no_overflow)
  have rem: "pool_budget (remove_at i p) < pool_budget p" unfolding pool_budget_def using sum_list_remove_at [OF len, of ?f] c by linarith
  let ?p = "p[i := (p ! i)\<lparr>pt_retry_count := ?n\<rparr>]"
  have "pool_budget ?p + ?f (p ! i) = pool_budget p + (4 - unat ?n)"
    unfolding pool_budget_def using sum_list_update_nat [OF len, of ?f "(p ! i)\<lparr>pt_retry_count := ?n\<rparr>"] by simp
  then have upd: "pool_budget ?p < pool_budget p" using c n by linarith
  have rem2: "remove_at i ?p = remove_at i p" by (simp add: remove_at_def)
  have wf: "pool_wf ?p" if "\<not> MAX_RETRY_COUNT < ?n"
    using assms(1) that by (auto simp: pool_wf_def list_all_iff dest!: set_update_subset_insert [THEN subsetD])
  show ?thesis
    using i rem upd wf pool_wf_remove [OF assms(1), of i] unfolding apply_result_def by (cases r) (simp_all add: Let_def rem2)
qed

text \<open>Answers for transactions that are pending when they arrive.\<close>

inductive pool_answers :: "pending_tx_pool \<Rightarrow> nat \<Rightarrow> pending_tx_pool \<Rightarrow> bool" where
  "pool_answers p 0 p"
| "pool_answers p n q \<Longrightarrow> pool_contains q txid \<Longrightarrow> pool_answers p (Suc n) (fst (apply_result txid r q))"

lemma pool_answers_budget: "pool_answers p n q \<Longrightarrow> pool_wf p \<Longrightarrow> pool_wf q \<and> n + pool_budget q \<le> pool_budget p"
proof (induction rule: pool_answers.induct)
  case (2 p n q txid r)
  then show ?case using apply_result_step [of q txid r] by auto
qed simp

text \<open>C32. No transaction waits for ever: in a pool of new transactions at most four answers per transaction can find their
  transaction still pending, whatever the answers are; after that many the pool is empty or the answers go elsewhere.\<close>

theorem pending_pool_drains:
  assumes "pool_answers (map (\<lambda>(txid, r). pending_tx_new txid r) txs) n q"
  shows "n + pool_budget q \<le> 4 * length txs \<and> pool_wf q"
proof -
  let ?p = "map (\<lambda>(txid, r). pending_tx_new txid r) txs"
  have "pool_budget ?p = 4 * length txs" by (induction txs) (auto simp: pool_budget_def pending_tx_new_def)
  moreover have "pool_wf ?p" by (auto simp: pool_wf_def list_all_iff pending_tx_new_def MAX_RETRY_COUNT_def)
  ultimately show ?thesis using pool_answers_budget [OF assms] by simp
qed

theorem pending_pool_drains_witness:
  "pool_budget (fst (apply_result [1] SubEpochNotFound [pending_tx_new [1] \<lparr>sr_epoch_id = 1, sr_subepoch_id = 0, sr_subepoch_hash = []\<rparr>])) \<le> 3"
proof -
  let ?r = "\<lparr>sr_epoch_id = 1, sr_subepoch_id = 0, sr_subepoch_hash = []\<rparr>"
  have "pool_answers [pending_tx_new [1] ?r] (Suc 0) (fst (apply_result [1] SubEpochNotFound [pending_tx_new [1] ?r]))"
    by (intro pool_answers.intros) (simp add: pool_contains_def pending_tx_new_def)
  then show ?thesis using pending_pool_drains [of "[([1], ?r)]" "Suc 0"] by simp
qed

text \<open>What the pool drops at an epoch boundary could not have been accepted any more: against no chain does the source
  check of a dropped transaction answer \<open>Valid\<close>, in the new epoch or in any later one; and nothing else is dropped.\<close>

theorem boundary_drop_sound:
  assumes "t \<in> set p" "current \<le> later"
  shows "(t \<notin> set (fst (detect_epoch_boundary_drop current p)) \<longrightarrow>
      verify_imt_source ch (sr_subepoch_id (pt_subepoch_ref t)) frontier hash n (sr_epoch_id (pt_subepoch_ref t)) later \<noteq> Valid)
    \<and> (t \<in> set (fst (detect_epoch_boundary_drop current p)) \<longleftrightarrow> current \<le> sr_epoch_id (pt_subepoch_ref t))"
  using assms by (auto simp: detect_epoch_boundary_drop_def Let_def verify_imt_source_def not_less split: option.splits)

theorem boundary_drop_sound_witness:
  "verify_imt_source (subepoch_chain_new 2) 0 [] [] 0 1 3 \<noteq> Valid"
proof -
  let ?t = "pending_tx_new [1] \<lparr>sr_epoch_id = 1, sr_subepoch_id = 0, sr_subepoch_hash = []\<rparr>"
  show ?thesis using boundary_drop_sound [of ?t "[?t]" 2 3 "subepoch_chain_new 2" "[]" "[]" 0]
    by (simp add: detect_epoch_boundary_drop_def Let_def pending_tx_new_def word_le_nat_alt word_less_nat_alt)
qed

section \<open>What the reports guarantee\<close>

text \<open>The conservation check is exact for the three amounts it reads, without an effect of saturation, and does not read
  the released reserve.\<close>

theorem supply_conservation_exact:
  "(verify_supply_conservation s = (unat (an_total_pou_minted_sscl s) + unat (an_deferred_emission_pool_sscl s)
      + unat (an_security_fund_accumulator_sscl s) \<le> 2100000000000000))
   \<and> verify_supply_conservation (s\<lparr>an_total_reserve_released_sscl := x\<rparr>) = verify_supply_conservation s"
  by (auto simp: verify_supply_conservation_def SDK_S_MAX_SSCL_def word_le_nat_alt unat_saturating_add min_def)

text \<open>The monetary policy score reports correct emission as a deviation: it measures the distance from the first epoch's
  emission, not from the formula, so when half of the supply has been minted an emission that follows the formula exactly
  is reported with a deviation of 75 per cent.\<close>

theorem policy_score_flags_correct_emission:
  "mp_deviation_fp (query_monetary_policy_score (emission_this_epoch \<lparr>ea_total_minted = 945000000000000\<rparr>) k) = 750000"
proof -
  have "unat (emission_this_epoch \<lparr>ea_total_minted = 945000000000000\<rparr>) = 3150000000000"
    by (simp add: unat_emission_this_epoch emission_nat_def)
  then have e: "emission_this_epoch \<lparr>ea_total_minted = 945000000000000\<rparr> = 3150000000000" by (simp add: word_unat_eq_iff)
  have "unat (mp_deviation_fp (query_monetary_policy_score 3150000000000 k)) = 750000"
    by (simp add: query_monetary_policy_score_def Let_def SDK_E0_SSCL_def word_le_nat_alt checked_div_unat unat_saturating_mul unat_u128_u64)
  then show ?thesis unfolding e by (simp add: word_unat_eq_iff)
qed

lemma concat_sorted_inj:
  fixes xs ys :: "bytes list"
  assumes "list_all (\<lambda>a. length a = 32) xs" "list_all (\<lambda>a. length a = 32) ys" "concat (sort xs) = concat (sort ys)"
  shows "mset xs = mset ys"
proof -
  have len: "length (concat (sort zs)) = length zs * 32" if "list_all (\<lambda>a. length a = 32) zs" for zs :: "bytes list"
    using length_concat_uniform [of "sort zs" "\<lambda>a. a" 32] that by (simp add: list_all_iff)
  have "length (sort xs) = length (sort ys)" using len [OF assms(1)] len [OF assms(2)] assms(3) by simp
  then have "sort xs = sort ys"
    using concat_fixed_length_inj [OF assms(3), where n = 32] assms(1,2) by (auto simp: list_all_iff)
  then show ?thesis by (metis mset_sort)
qed

text \<open>The hash of an exclusion list stands for the list up to order: two lists of addresses have the same hash exactly if
  one is a rearrangement of the other, as far as the hash has no collision on the two messages; and the verdict does not
  depend on the order either.\<close>

theorem exclusion_hash_binds:
  assumes "list_all (\<lambda>a. length a = 32) xs" "list_all (\<lambda>a. length a = 32) ys" "inj_on blake3 {concat (sort xs), concat (sort ys)}"
    "build_negative_compliance_proof blake3 coin xs nonce = Inr p" "build_negative_compliance_proof blake3 coin ys nonce' = Inr q"
  shows "(nc_exclusion_set_hash p = nc_exclusion_set_hash q \<longleftrightarrow> mset xs = mset ys)
    \<and> (mset xs = mset ys \<longrightarrow> nc_is_compliant p = nc_is_compliant q)"
proof -
  have p: "nc_exclusion_set_hash p = blake3 (concat (sort xs))" "nc_is_compliant p = (coin \<notin> set xs)"
    and q: "nc_exclusion_set_hash q = blake3 (concat (sort ys))" "nc_is_compliant q = (coin \<notin> set ys)"
    using assms(4,5) by (auto simp: build_negative_compliance_proof_def Let_def split: if_splits)
  have s: "sort xs = sort ys" if "mset xs = mset ys" using that by (intro properties_for_sort) simp_all
  have "blake3 (concat (sort xs)) = blake3 (concat (sort ys)) \<longleftrightarrow> concat (sort xs) = concat (sort ys)"
    using assms(3) by (auto dest: inj_onD)
  then have "nc_exclusion_set_hash p = nc_exclusion_set_hash q \<longleftrightarrow> mset xs = mset ys"
    using concat_sorted_inj [OF assms(1,2)] s by (auto simp: p q)
  moreover have "mset xs = mset ys \<longrightarrow> nc_is_compliant p = nc_is_compliant q" by (auto simp: p q dest: mset_eq_setD)
  ultimately show ?thesis by blast
qed

definition sample_addresses :: "bytes list" where
  "sample_addresses = [replicate 32 1, replicate 32 2]"

theorem exclusion_hash_binds_witness:
  "nc_exclusion_set_hash \<lparr>nc_origin_commitment = [9, 0], nc_exclusion_set_hash = concat (sort sample_addresses), nc_is_compliant = True\<rparr>
    = nc_exclusion_set_hash \<lparr>nc_origin_commitment = [9, 0], nc_exclusion_set_hash = concat (sort (rev sample_addresses)), nc_is_compliant = True\<rparr>"
proof -
  have c: "build_negative_compliance_proof (\<lambda>x. x) [9] xs [0] =
      Inr \<lparr>nc_origin_commitment = [9, 0], nc_exclusion_set_hash = concat (sort xs), nc_is_compliant = True\<rparr>"
    if "xs = sample_addresses \<or> xs = rev sample_addresses" for xs
    using that by (auto simp: build_negative_compliance_proof_def sample_addresses_def Let_def numeral_eq_Suc)
  have "mset sample_addresses = mset (rev sample_addresses)" by simp
  then show ?thesis
    using exclusion_hash_binds [OF _ _ _ c c, of sample_addresses "rev sample_addresses"]
    by (simp add: sample_addresses_def inj_on_def)
qed

text \<open>Records are not separated by their purpose: the timestamp record and the indelible record of one hash in one epoch
  have the same commitment, so the nullifier of one is the output commitment of the other.\<close>

theorem record_commitments_coincide:
  assumes "build_timestamp_record blake3 h epoch = Inr t" "build_indelible_record blake3 h epoch = Inr i"
  shows "tr_commitment t = ir_nullifier_commitment i"
  using assms by (auto simp: build_timestamp_record_def build_indelible_record_def split: if_splits)

theorem record_commitments_coincide_witness:
  "tr_commitment \<lparr>tr_document_hash = [1], tr_commitment = 1 # le_bytes 8 (5 :: u64), tr_epoch = 5\<rparr>
    = ir_nullifier_commitment \<lparr>ir_data_hash = [1], ir_nullifier_commitment = 1 # le_bytes 8 (5 :: u64), ir_epoch = 5\<rparr>"
  by (rule record_commitments_coincide [of "\<lambda>x. x" "[1]" 5])
    (simp_all add: build_timestamp_record_def build_indelible_record_def numeral_eq_Suc)

section \<open>What audits and reward notes guarantee\<close>

text \<open>The auditor accepts a manifest exactly if its version is current, it lists nodes or mints nothing, and its hash is
  the one the consensus code verifies; it reports the number of nodes and the emission of the manifest.\<close>

theorem audit_manifest_iff:
  "audit_manifest_hash blake3 m = AuditValid n e \<longleftrightarrow>
     em_spec_version m = SPEC_VERSION_MANIFEST \<and> (em_total_emission_sscl m = 0 \<or> em_node_list m \<noteq> [])
     \<and> verify_manifest_hash blake3 m \<and> n = length (em_node_list m) \<and> e = em_total_emission_sscl m"
  by (auto simp: audit_manifest_hash_def verify_manifest_hash_def word_gt_0)

fun notes_run :: "(bytes \<Rightarrow> bytes) \<Rightarrow> (bytes \<times> u64 \<times> u64 \<times> bytes \<times> bytes) list \<Rightarrow> mint_nullifier_set \<Rightarrow> mint_nullifier_set" where
  "notes_run blake3 [] s = s"
| "notes_run blake3 ((n, e, r, pk, k) # cs) s = notes_run blake3 cs (fst (build_reward_utxo blake3 n e r pk k s))"

lemma build_reward_spent:
  "mn_spent (fst (build_reward_utxo blake3 n e r pk k s)) = (if r = 0 then mn_spent s else insert (compute_nullifier n e) (mn_spent s))"
  by (auto simp: build_reward_utxo_def record_claim_def Let_def)

lemma notes_run_spent: "mn_spent s \<subseteq> mn_spent (notes_run blake3 cs s)"
proof (induction cs arbitrary: s)
  case (Cons c cs)
  obtain n e r pk k where c: "c = (n, e, r, pk, k)" by (cases c)
  show ?case using Cons [of "fst (build_reward_utxo blake3 n e r pk k s)"] by (auto simp: c build_reward_spent split: if_splits)
qed simp

text \<open>A reward becomes a note at most once: after a note has been built for a node and an epoch, whatever is claimed in
  between, a second one is refused as claimed already; a zero reward is refused without using up the claim.\<close>

theorem reward_note_once:
  assumes "snd (build_reward_utxo blake3 n e r pk k s) = Inr u" "r' \<noteq> 0"
  shows "snd (build_reward_utxo blake3 n e r' pk' k' (notes_run blake3 cs (fst (build_reward_utxo blake3 n e r pk k s)))) = Inl (AlreadyClaimed e)
    \<and> build_reward_utxo blake3 n e 0 pk k s = (s, Inl ZeroTotalWeight)"
proof -
  have "r \<noteq> 0" using assms(1) by (auto simp: build_reward_utxo_def)
  then have "compute_nullifier n e \<in> mn_spent (notes_run blake3 cs (fst (build_reward_utxo blake3 n e r pk k s)))"
    using notes_run_spent by (fastforce simp: build_reward_spent)
  then show ?thesis using assms(2) by (simp add: build_reward_utxo_def record_claim_def Let_def)
qed

theorem reward_note_once_witness:
  "snd (build_reward_utxo (\<lambda>x. x) [1] 2 7 [3] [4] (notes_run (\<lambda>x. x) [] (fst (build_reward_utxo (\<lambda>x. x) [1] 2 5 [3] [4] mint_new)))) = Inl (AlreadyClaimed 2)"
proof -
  have "\<exists>u. snd (build_reward_utxo (\<lambda>x. x) [1] 2 5 [3] [4] mint_new) = Inr u"
    by (simp add: build_reward_utxo_def record_claim_def mint_new_def Let_def)
  then show ?thesis using reward_note_once [of "\<lambda>x. x" "[1]" 2 5 "[3]" "[4]" mint_new _ 7 "[3]" "[4]" "[]"] by auto
qed

text \<open>A note binds its value, its owner and its secret: two notes with the same commitment agree on all three, as far as
  the hash has no collision on the two messages.\<close>

theorem reward_commitment_binds:
  assumes "list_all (\<lambda>x. length x = 32) [pk, k, salt, pk', k', salt']"
    "inj_on blake3 {DOMAIN_COMMITMENT_V2 @ le_bytes 8 v @ pk @ k @ salt, DOMAIN_COMMITMENT_V2 @ le_bytes 8 v' @ pk' @ k' @ salt'}"
    "compute_utxo_commitment blake3 v pk k salt = compute_utxo_commitment blake3 v' pk' k' salt'"
  shows "v = v' \<and> pk = pk' \<and> k = k' \<and> salt = salt'"
proof -
  have "le_bytes 8 v @ pk @ k @ salt = le_bytes 8 v' @ pk' @ k' @ salt'"
    using assms(2,3) by (auto simp: compute_utxo_commitment_def dest: inj_onD)
  then show ?thesis using assms(1) le_bytes_inject [of 8 v v'] by simp
qed

theorem reward_commitment_binds_witness:
  "compute_utxo_commitment (\<lambda>x. x) 5 (replicate 32 1) (replicate 32 2) (replicate 32 3)
    \<noteq> compute_utxo_commitment (\<lambda>x. x) 6 (replicate 32 1) (replicate 32 2) (replicate 32 3)"
  using reward_commitment_binds [of "replicate 32 1" "replicate 32 2" "replicate 32 3" "replicate 32 1" "replicate 32 2" "replicate 32 3" "\<lambda>x. x" 5 6]
  by (auto simp: inj_on_def)

end
