(* ===== verification/Key_Chain.thy ===== *)
theory Key_Chain
  imports Prelude
begin

text \<open>
  How keys are derived and kept: the wallet's key chain (\<open>client/scalar-wallet-core/src/seed.rs\<close>, \<open>key_management.rs\<close>), the
  node's key store and identity (\<open>core/scalar-node/src/keystore.rs\<close>, \<open>node_id.rs\<close>), and the duress vault and key
  splitting (\<open>physical_security.rs\<close>).  BLAKE3, Argon2id, the AEAD, the SLH-DSA key generation and the BIP-39 word list are
  parameters.  Mnemonics are ASCII strings.
\<close>

section \<open>Mnemonics\<close>

definition is_whitespace :: "char \<Rightarrow> bool" where
  "is_whitespace c \<longleftrightarrow> (let n = of_char c :: nat in (9 \<le> n \<and> n \<le> 13) \<or> n = 32)"

text \<open>\<open>split_whitespace\<close>.\<close>

function split_words :: "string \<Rightarrow> string list" where
  "split_words s =
     (let t = dropWhile is_whitespace s
      in if t = [] then []
         else takeWhile (\<lambda>c. \<not> is_whitespace c) t # split_words (dropWhile (\<lambda>c. \<not> is_whitespace c) t))"
  by pat_completeness auto
termination
proof (relation "measure length", goal_cases)
  case (2 s t)
  then have "\<not> is_whitespace (hd t)" using hd_dropWhile by blast
  then obtain c u where t: "t = c # u" "\<not> is_whitespace c" using 2(2) by (cases t) auto
  have "length (dropWhile (\<lambda>c. \<not> is_whitespace c) t) \<le> length u" using t by (simp add: length_dropWhile_le)
  also have "\<dots> < length t" using t by simp
  also have "\<dots> \<le> length s" using 2(1) by (simp add: length_dropWhile_le)
  finally show ?case by simp
qed simp

declare split_words.simps [simp del]

datatype seed_error = InvalidMnemonicFirstWord | EmptyMnemonic | Argon2Params | Argon2Hash

definition MNEMONIC_FIRST_WORD :: string where
  "MNEMONIC_FIRST_WORD = ''scalar''"

definition seed_validate_mnemonic :: "string \<Rightarrow> seed_error + unit" where
  "seed_validate_mnemonic mnemonic =
     (case split_words mnemonic of
        [] \<Rightarrow> Inl EmptyMnemonic
      | first_word # _ \<Rightarrow> if first_word \<noteq> MNEMONIC_FIRST_WORD then Inl InvalidMnemonicFirstWord else Inr ())"

datatype keystore_error =
    KsInvalidParams
  | KsEncryptionFailed
  | KsDecryptionFailed
  | KsInvalidFormat
  | KsUnsupportedVersion u8
  | KsInvalidMnemonic

definition keystore_validate_mnemonic :: "string set \<Rightarrow> string \<Rightarrow> keystore_error + unit" where
  "keystore_validate_mnemonic wordset mnemonic =
     (let words = split_words mnemonic
      in if length words \<noteq> 24 then Inl KsInvalidMnemonic
         else if hd words \<noteq> ''scalar'' then Inl KsInvalidMnemonic
         else if list_all (\<lambda>w. w \<in> wordset) (tl words) then Inr () else Inl KsInvalidMnemonic)"

section \<open>The wallet's chain\<close>

text \<open>\<open>argon2id memory iterations parallelism len password salt\<close>, with \<open>None\<close> for an error.\<close>

type_synonym argon2id = "u32 \<Rightarrow> u32 \<Rightarrow> u32 \<Rightarrow> nat \<Rightarrow> bytes \<Rightarrow> bytes \<Rightarrow> bytes option"

definition SEED_ARGON2_MEMORY_KIB :: u32 where
  "SEED_ARGON2_MEMORY_KIB = 65536"

definition SEED_ARGON2_ITERATIONS :: u32 where
  "SEED_ARGON2_ITERATIONS = 3"

definition SEED_ARGON2_PARALLEL :: u32 where
  "SEED_ARGON2_PARALLEL = 1"

definition SEED_ARGON2_OUTPUT_LEN :: nat where
  "SEED_ARGON2_OUTPUT_LEN = 64"

definition SEED_SALT_PREFIX :: bytes where
  "SEED_SALT_PREFIX = ascii ''scalar_wallet_kdf''"

record seed_material =
  sm_seed :: bytes
  sm_master_key :: bytes

definition derive_seed :: "(bytes \<Rightarrow> bytes) \<Rightarrow> argon2id \<Rightarrow> string \<Rightarrow> bytes \<Rightarrow> seed_error + seed_material" where
  "derive_seed blake3 argon2id mnemonic genesis_hash =
     (case seed_validate_mnemonic mnemonic of
        Inl e \<Rightarrow> Inl e
      | Inr _ \<Rightarrow>
          (case argon2id SEED_ARGON2_MEMORY_KIB SEED_ARGON2_ITERATIONS SEED_ARGON2_PARALLEL SEED_ARGON2_OUTPUT_LEN
                  (ascii mnemonic) (SEED_SALT_PREFIX @ genesis_hash) of
             None \<Rightarrow> Inl Argon2Hash
           | Some seed \<Rightarrow> Inr \<lparr>sm_seed = seed, sm_master_key = blake3 (seed @ ascii ''scalar_master'')\<rparr>))"

definition derive_account_key :: "(bytes \<Rightarrow> bytes) \<Rightarrow> bytes \<Rightarrow> u64 \<Rightarrow> bytes" where
  "derive_account_key blake3 master_key account_index = blake3 (master_key @ ascii ''account'' @ le_bytes 8 account_index)"

definition derive_spend_key :: "(bytes \<Rightarrow> bytes) \<Rightarrow> bytes \<Rightarrow> bytes" where
  "derive_spend_key blake3 account_key = blake3 (account_key @ ascii ''spend'')"

definition derive_view_key :: "(bytes \<Rightarrow> bytes) \<Rightarrow> bytes \<Rightarrow> bytes" where
  "derive_view_key blake3 account_key = blake3 (account_key @ ascii ''view'')"

definition wallet_node_key :: "(bytes \<Rightarrow> bytes) \<Rightarrow> bytes \<Rightarrow> bytes" where
  "wallet_node_key blake3 account_key = blake3 (account_key @ ascii ''node'')"

definition derive_duress_key :: "(bytes \<Rightarrow> bytes) \<Rightarrow> bytes \<Rightarrow> u64 \<Rightarrow> bytes" where
  "derive_duress_key blake3 account_key index = blake3 (account_key @ ascii ''duress'' @ le_bytes 8 index)"

definition derive_governance_seed :: "(bytes \<Rightarrow> bytes) \<Rightarrow> bytes \<Rightarrow> bytes" where
  "derive_governance_seed blake3 account_key = blake3 (account_key @ ascii ''governance'')"

text \<open>\<open>keygen\<close> is the public half of the SLH-DSA key pair of a seed.\<close>

definition derive_governance_id :: "(bytes \<Rightarrow> bytes) \<Rightarrow> (bytes \<Rightarrow> bytes) \<Rightarrow> bytes \<Rightarrow> bytes" where
  "derive_governance_id blake3 keygen account_key = keygen (derive_governance_seed blake3 account_key)"

record wallet_keys =
  wk_spend_key :: bytes
  wk_view_key :: bytes
  wk_node_key :: bytes
  wk_governance_id :: bytes

definition blake3_derive :: "(bytes \<Rightarrow> bytes) \<Rightarrow> bytes \<Rightarrow> bytes \<Rightarrow> bytes" where
  "blake3_derive blake3 key domain = blake3 (key @ domain)"

definition derive_all_keys :: "(bytes \<Rightarrow> bytes) \<Rightarrow> (bytes \<Rightarrow> bytes) \<Rightarrow> bytes \<Rightarrow> wallet_keys" where
  "derive_all_keys blake3 keygen account_key =
     \<lparr>wk_spend_key = blake3_derive blake3 account_key (ascii ''spend''),
      wk_view_key = blake3_derive blake3 account_key (ascii ''view''),
      wk_node_key = blake3_derive blake3 account_key (ascii ''node''),
      wk_governance_id = keygen (blake3_derive blake3 account_key (ascii ''governance''))\<rparr>"

section \<open>The node's key store\<close>

definition KEYSTORE_VERSION :: u8 where
  "KEYSTORE_VERSION = 1"

definition KDF_SALT_LEN :: nat where
  "KDF_SALT_LEN = 16"

definition NONCE_LEN :: nat where
  "NONCE_LEN = 24"

definition PAYLOAD_LEN :: nat where
  "PAYLOAD_LEN = 64"

definition AEAD_TAG_LEN :: nat where
  "AEAD_TAG_LEN = 16"

definition KEYSTORE_FILE_LEN :: nat where
  "KEYSTORE_FILE_LEN = 1 + KDF_SALT_LEN + NONCE_LEN + PAYLOAD_LEN + AEAD_TAG_LEN"

definition DOMAIN_SEED_KDF :: bytes where
  "DOMAIN_SEED_KDF = ascii ''scalar_wallet_kdf''"

record node_keystore =
  nk_node_id_full :: bytes
  nk_node_key :: bytes

definition passphrase_kdf :: "argon2id \<Rightarrow> bytes \<Rightarrow> bytes \<Rightarrow> keystore_error + bytes" where
  "passphrase_kdf argon2id passphrase salt =
     (case argon2id (64 * 1024) 3 1 32 passphrase salt of None \<Rightarrow> Inl KsInvalidParams | Some key \<Rightarrow> Inr key)"

text \<open>The contents written to the file; the salt and the nonce are drawn from the operating system.\<close>

definition keystore_encrypt ::
  "argon2id \<Rightarrow> (bytes \<Rightarrow> bytes \<Rightarrow> bytes \<Rightarrow> bytes option) \<Rightarrow> bytes \<Rightarrow> bytes \<Rightarrow> bytes \<Rightarrow> node_keystore \<Rightarrow> keystore_error + bytes" where
  "keystore_encrypt argon2id seal kdf_salt nonce_bytes passphrase ks =
     (case passphrase_kdf argon2id passphrase kdf_salt of
        Inl e \<Rightarrow> Inl e
      | Inr kdf_key \<Rightarrow>
          (case seal kdf_key nonce_bytes (nk_node_id_full ks @ nk_node_key ks) of
             None \<Rightarrow> Inl KsEncryptionFailed
           | Some ciphertext \<Rightarrow> Inr ([KEYSTORE_VERSION] @ kdf_salt @ nonce_bytes @ ciphertext)))"

definition keystore_decrypt ::
  "argon2id \<Rightarrow> (bytes \<Rightarrow> bytes \<Rightarrow> bytes \<Rightarrow> bytes option) \<Rightarrow> bytes \<Rightarrow> bytes \<Rightarrow> keystore_error + node_keystore" where
  "keystore_decrypt argon2id unseal passphrase file_data =
     (if length file_data < KEYSTORE_FILE_LEN then Inl KsInvalidFormat
      else if hd file_data \<noteq> KEYSTORE_VERSION then Inl (KsUnsupportedVersion (hd file_data))
      else
        let kdf_salt = take KDF_SALT_LEN (drop 1 file_data);
            nonce_bytes = take NONCE_LEN (drop (1 + KDF_SALT_LEN) file_data);
            ciphertext = drop (1 + KDF_SALT_LEN + NONCE_LEN) file_data
        in case passphrase_kdf argon2id passphrase kdf_salt of
             Inl e \<Rightarrow> Inl e
           | Inr kdf_key \<Rightarrow>
               (case unseal kdf_key nonce_bytes ciphertext of
                  None \<Rightarrow> Inl KsDecryptionFailed
                | Some plaintext \<Rightarrow>
                    if length plaintext \<noteq> PAYLOAD_LEN then Inl KsInvalidFormat
                    else Inr \<lparr>nk_node_id_full = take 32 plaintext, nk_node_key = drop 32 plaintext\<rparr>))"

definition keystore_node_key :: "(bytes \<Rightarrow> bytes) \<Rightarrow> argon2id \<Rightarrow> bytes \<Rightarrow> bytes \<Rightarrow> keystore_error + bytes" where
  "keystore_node_key blake3 argon2id mnemonic genesis_hash =
     (case argon2id (64 * 1024) 3 1 64 mnemonic (DOMAIN_SEED_KDF @ genesis_hash) of
        None \<Rightarrow> Inl KsInvalidParams
      | Some seed \<Rightarrow>
          (let master_key = blake3 (seed @ ascii ''scalar_master'');
               account_key = blake3 (master_key @ ascii ''account'' @ le_bytes 8 (0 :: u64))
           in Inr (blake3 (account_key @ ascii ''node''))))"

definition derive_node_id :: "(bytes \<Rightarrow> bytes) \<Rightarrow> string \<Rightarrow> bytes \<Rightarrow> bytes" where
  "derive_node_id blake3 mnemonic genesis_hash = blake3 (ascii ''scalar_nodeid'' @ ascii mnemonic @ genesis_hash)"

section \<open>Duress vault, key splitting and time locks\<close>

record duress_vault =
  dv_main_seed :: bytes
  dv_duress_seed :: bytes
  dv_main_password_hash :: string
  dv_duress_password_hash :: string

definition vault_new :: "bytes \<Rightarrow> bytes \<Rightarrow> string \<Rightarrow> string \<Rightarrow> duress_vault" where
  "vault_new main_seed duress_seed main_pass duress_pass =
     \<lparr>dv_main_seed = main_seed, dv_duress_seed = duress_seed, dv_main_password_hash = ''hashed_'' @ main_pass,
      dv_duress_password_hash = ''hashed_'' @ duress_pass\<rparr>"

definition vault_unlock :: "string \<Rightarrow> duress_vault \<Rightarrow> bytes option" where
  "vault_unlock password_input v =
     (let input_hash = ''hashed_'' @ password_input
      in if input_hash = dv_main_password_hash v then Some (dv_main_seed v)
         else if input_hash = dv_duress_password_hash v then Some (dv_duress_seed v)
         else None)"

definition split_secret :: "bytes \<Rightarrow> u8 \<Rightarrow> u8 \<Rightarrow> bytes list" where
  "split_secret secret threshold total_shares = map (\<lambda>i. replicate 32 (of_nat i)) [0..<unat total_shares]"

definition reconstruct_secret :: "bytes list \<Rightarrow> u8 \<Rightarrow> bytes option" where
  "reconstruct_secret shares threshold = (if length shares < unat threshold then None else Some (replicate 32 0))"

definition timelock_is_executable :: "u64 \<Rightarrow> u64 \<Rightarrow> bool" where
  "timelock_is_executable unlock_timestamp current_network_time \<longleftrightarrow> current_network_time \<ge> unlock_timestamp"

section \<open>What the key chain guarantees\<close>

text \<open>The wallet and the node derive the same node key: for every mnemonic the node's key generation accepts, the wallet
  accepts it too, and the first account's node key of the wallet, the one of \<open>derive_all_keys\<close> and the one in the key store
  are equal.\<close>

theorem node_key_paths_agree:
  assumes "keystore_validate_mnemonic wordset mnemonic = Inr ()" "keystore_node_key blake3 argon2id (ascii mnemonic) genesis = Inr k"
  shows "\<exists>m. derive_seed blake3 argon2id mnemonic genesis = Inr m
    \<and> wallet_node_key blake3 (derive_account_key blake3 (sm_master_key m) 0) = k
    \<and> wk_node_key (derive_all_keys blake3 keygen (derive_account_key blake3 (sm_master_key m) 0)) = k"
proof -
  have "length (split_words mnemonic) = 24" "hd (split_words mnemonic) = ''scalar''"
    using assms(1) by (auto simp: keystore_validate_mnemonic_def Let_def split: if_splits)
  then have "seed_validate_mnemonic mnemonic = Inr ()"
    by (cases "split_words mnemonic") (auto simp: seed_validate_mnemonic_def MNEMONIC_FIRST_WORD_def)
  then show ?thesis using assms(2)
    by (auto simp: derive_seed_def keystore_node_key_def SEED_ARGON2_MEMORY_KIB_def SEED_ARGON2_ITERATIONS_def SEED_ARGON2_PARALLEL_def
        SEED_ARGON2_OUTPUT_LEN_def SEED_SALT_PREFIX_def DOMAIN_SEED_KDF_def derive_account_key_def wallet_node_key_def derive_all_keys_def
        blake3_derive_def Let_def split: option.splits)
qed

definition sample_mnemonic :: string where
  "sample_mnemonic = ''scalar'' @ concat (replicate 23 '' a'')"

lemma split_words_sample: "split_words sample_mnemonic = ''scalar'' # replicate 23 ''a''"
  unfolding sample_mnemonic_def by code_simp

theorem node_key_paths_agree_witness:
  "\<exists>m. derive_seed (\<lambda>x. x) (\<lambda>_ _ _ _ p s. Some (p @ s)) sample_mnemonic [7] = Inr m"
proof -
  have "keystore_validate_mnemonic {''a''} sample_mnemonic = Inr ()"
    by (simp add: keystore_validate_mnemonic_def split_words_sample Let_def list_all_iff)
  moreover have "\<exists>k. keystore_node_key (\<lambda>x. x) (\<lambda>_ _ _ _ p s. Some (p @ s)) (ascii sample_mnemonic) [7] = Inr k"
    by (simp add: keystore_node_key_def Let_def)
  ultimately show ?thesis using node_key_paths_agree [of "{''a''}" sample_mnemonic "\<lambda>x. x" "\<lambda>_ _ _ _ p s. Some (p @ s)" "[7]" _ "\<lambda>x. x"] by blast
qed

text \<open>The keys of an account are separated by their purpose: as far as the hash has no collision on the messages of the
  chain, spending, viewing, node, governance and duress keys are all different, and different duress indices give
  different keys.\<close>

theorem account_keys_distinct:
  assumes "inj_on blake3 {a @ ascii ''spend'', a @ ascii ''view'', a @ ascii ''node'', a @ ascii ''governance'',
      a @ ascii ''duress'' @ le_bytes 8 i, a @ ascii ''duress'' @ le_bytes 8 j}" "i \<noteq> j"
  shows "distinct [derive_spend_key blake3 a, derive_view_key blake3 a, wallet_node_key blake3 a, derive_governance_seed blake3 a,
    derive_duress_key blake3 a i, derive_duress_key blake3 a j]"
proof -
  have e: "ascii ''view'' \<noteq> ascii ''node''" by code_simp
  have ij: "le_bytes 8 i \<noteq> le_bytes 8 j" using assms(2) le_bytes_inject [of 8 i j] by simp
  have ne: "xs \<noteq> ys" if "length xs \<noteq> length ys" for xs ys :: bytes using that by auto
  have "distinct [a @ ascii ''spend'', a @ ascii ''view'', a @ ascii ''node'', a @ ascii ''governance'',
      a @ ascii ''duress'' @ le_bytes 8 i, a @ ascii ''duress'' @ le_bytes 8 j]"
    using e ij by (auto intro!: ne)
  then have "distinct (map blake3 [a @ ascii ''spend'', a @ ascii ''view'', a @ ascii ''node'', a @ ascii ''governance'',
      a @ ascii ''duress'' @ le_bytes 8 i, a @ ascii ''duress'' @ le_bytes 8 j])"
    using assms(1) by (subst distinct_map) simp
  then show ?thesis
    by (simp only: list.map derive_spend_key_def derive_view_key_def wallet_node_key_def derive_governance_seed_def derive_duress_key_def)
qed

theorem account_keys_distinct_witness: "derive_spend_key (\<lambda>x. x) [1] \<noteq> derive_view_key (\<lambda>x. x) [1]"
  using account_keys_distinct [of "\<lambda>x. x" "[1]" 0 1] by (auto simp: inj_on_def)

text \<open>The key store comes back from its file: what is encrypted under a passphrase is 121 bytes and decrypts to the same
  keys under the same passphrase, for every salt and nonce, as far as the AEAD decrypts what it encrypted and adds a
  sixteen-byte tag.\<close>

theorem keystore_roundtrip:
  assumes "\<And>k n d c. seal k n d = Some c \<Longrightarrow> unseal k n c = Some d \<and> length c = length d + AEAD_TAG_LEN"
    "length salt = KDF_SALT_LEN" "length nonce = NONCE_LEN" "length (nk_node_id_full ks) = 32" "length (nk_node_key ks) = 32"
    "keystore_encrypt argon2id seal salt nonce pass ks = Inr file"
  shows "length file = 121 \<and> keystore_decrypt argon2id unseal pass file = Inr ks"
proof -
  obtain key c where k: "passphrase_kdf argon2id pass salt = Inr key" "seal key nonce (nk_node_id_full ks @ nk_node_key ks) = Some c"
    "file = [KEYSTORE_VERSION] @ salt @ nonce @ c"
    using assms(6) by (auto simp: keystore_encrypt_def split: sum.splits option.splits)
  then show ?thesis using assms(1) [OF k(2)] assms(2-5)
    by (simp add: keystore_decrypt_def KEYSTORE_FILE_LEN_def KDF_SALT_LEN_def NONCE_LEN_def PAYLOAD_LEN_def AEAD_TAG_LEN_def Let_def)
qed

theorem keystore_roundtrip_witness:
  "keystore_decrypt (\<lambda>_ _ _ _ p s. Some (p @ s)) (\<lambda>k n c. Some (take (length c - 16) c)) [1]
     (1 # replicate 16 2 @ replicate 24 3 @ replicate 32 4 @ replicate 32 5 @ replicate 16 0)
   = Inr \<lparr>nk_node_id_full = replicate 32 4, nk_node_key = replicate 32 5\<rparr>"
proof -
  let ?ks = "\<lparr>nk_node_id_full = replicate 32 4, nk_node_key = replicate 32 5\<rparr>"
  have "keystore_encrypt (\<lambda>_ _ _ _ p s. Some (p @ s)) (\<lambda>k n d. Some (d @ replicate 16 0)) (replicate 16 2) (replicate 24 3) [1] ?ks
      = Inr (1 # replicate 16 2 @ replicate 24 3 @ replicate 32 4 @ replicate 32 5 @ replicate 16 0)"
    by (simp add: keystore_encrypt_def passphrase_kdf_def KEYSTORE_VERSION_def)
  then show ?thesis
    using keystore_roundtrip [of "\<lambda>k n d. Some (d @ replicate 16 0)" "\<lambda>k n c. Some (take (length c - 16) c)" "replicate 16 2" "replicate 24 3" ?ks
        "\<lambda>_ _ _ _ p s. Some (p @ s)" "[1]"]
    by (simp add: AEAD_TAG_LEN_def KDF_SALT_LEN_def NONCE_LEN_def)
qed

text \<open>The vault opens exactly for its two passwords, with the main seed first, and does not protect them: both are read
  off the stored record, which is the password behind a fixed prefix.\<close>

theorem vault_unlock_exact:
  "vault_unlock pw (vault_new m d main_pass duress_pass) =
     (if pw = main_pass then Some m else if pw = duress_pass then Some d else None)
   \<and> drop 7 (dv_main_password_hash (vault_new m d main_pass duress_pass)) = main_pass
   \<and> drop 7 (dv_duress_password_hash (vault_new m d main_pass duress_pass)) = duress_pass"
  by (simp add: vault_unlock_def vault_new_def)

text \<open>Splitting a secret loses it: the shares do not depend on the secret, and any sufficient number of shares, genuine or
  not, is reconstructed to zeros.\<close>

theorem split_secret_lost:
  "split_secret secret t n = split_secret secret' t n
   \<and> reconstruct_secret shares t = (if unat t \<le> length shares then Some (replicate 32 0) else None)"
  by (simp add: split_secret_def reconstruct_secret_def)

end
