(* ===== verification/Spec2Isabelle.thy ===== *)
theory Spec2Isabelle
  imports Nullifier_Set Checkpoint_WAL Emission Poseidon2 Merkle_IMT Fees Manifest Ordering Heartbeat Subepoch
    Anchor_Limits Micro_Commit Fork_Protocol Wallet Governance Proof_Batch Node_Epoch Commit_Stark Network_Time State_Sync Node_Rules Genesis Score_Rules Peer_Routing Peer_Trust Tx_Relay Adaptive_Mux
    Quaternary_SMT Crypto_Suite Gossip_Node Client_Sdk Key_Chain
begin

text \<open>
  \<^bold>\<open>Scalar core: a verification development.\<close>

  Scalar is a proof-of-uptime payment network.  Nodes send heartbeats; an epoch's heartbeats decide
  the rewards, which a reward manifest fixes and a quorum finalizes; transactions spend notes by
  publishing nullifiers, note commitments are kept in an incremental Merkle tree, and sub-epoch
  commitments give finality to batches of transactions.  The theories below model the crates that
  hold this logic and prove what makes each part correct, what the parts give together, and where
  the code departs from its own documentation.

  \<^bold>\<open>Reading the model.\<close>  A Rust struct is a record, an enum a datatype, \<open>u64\<close> is \<open>64 word\<close> with
  wrap-around as in the release profile, \<open>saturating_\<dots>\<close> and \<open>checked_\<dots>\<close> are those of the standard
  library (\<open>Prelude\<close>).  \<open>&mut self\<close> is state passing: an operation returns the new state with its
  result, \<open>Result\<close> is a sum with the error on the left.  A \<open>HashMap\<close> is an association list with
  unique keys; where the code iterates over one, the order is a parameter \<open>iter\<close> constrained only to
  be a permutation, so that a theorem holds for every order or says that it does not.  BLAKE3 and the
  third-party Poseidon2 permutation of width 8 are parameters of the definitions; theorems that need
  collision resistance ask for injectivity on the finite set of messages that is actually hashed.
  Every definition that models code is executable; loops are structural recursion, folds, or functions with a
  termination proof, so no fuel is used anywhere.

  \<^bold>\<open>Theories and the code they model.\<close>
  \<^item> \<open>Prelude\<close>: machine integers, byte strings, little-endian encoding, maps and their iteration order.
  \<^item> \<open>Nullifier_SMT\<close> (\<open>core/scalar-nullifier/src/smt.rs\<close>): the sparse Merkle tree of active nullifiers; its
    root, proofs and verifiers.  Accepted non-membership proofs are sound, the verifier accepts exactly
    the absent nullifiers whose leaf slot is free, and nullifiers that share a slot shadow each other.
  \<^item> \<open>Nullifier_Set\<close> (\<open>nullifier_set.rs\<close>, \<open>formal.rs\<close>): the two-layer nullifier set with its checkpoint; locale
    \<open>wal_backend\<close> is the interface to the write-ahead log.  The pair of layers refines one growing set,
    no crash point of a checkpoint loses a nullifier, every outcome of a checkpoint is characterised.
  \<^item> \<open>Checkpoint_WAL\<close> (\<open>core/scalar-node/src/wal.rs\<close>): the log itself; committed entries had all their phases
    and stay.
  \<^item> \<open>Emission\<close> (\<open>core/scalar-emission/src/accumulator.rs\<close>, \<open>accounting.rs\<close>, \<open>pou.rs\<close>): the emission formula against
    its real-number meaning, the supply cap, rewards, the deferred pool.
  \<^item> \<open>Goldilocks\<close>, \<open>Poseidon2\<close> (\<open>core/scalar-crypto/src/poseidon2.rs\<close>): field operations against arithmetic
    modulo the prime (whose primality is proved), the permutation is a bijection (locale
    \<open>keyed_rounds\<close>), the sponge padding is injective, the byte packing in front of it is not.
  \<^item> \<open>Merkle_IMT\<close> (\<open>poseidon2_t8.rs\<close>, \<open>imt.rs\<close>): the append-only tree; every proof it hands out verifies, and the
    verifier's encodings are malleable in two ways.
  \<^item> \<open>Fees\<close> (\<open>core/scalar-fees/src\<close>): floor, padding, distribution, batches, proof of inclusion.
  \<^item> \<open>Manifest\<close> (\<open>dmm.rs\<close>, \<open>types.rs\<close>, \<open>consensus.rs\<close>): the reward manifest, its hash, the deterministic fallback
    manifest, quorum counting, fallback and finalization.
  \<^item> \<open>Ordering\<close> (\<open>ordering.rs\<close>, \<open>mint_nullifier.rs\<close>, \<open>epoch.rs\<close>): transaction ids and order, double claims,
    equivocation.
  \<^item> \<open>Heartbeat\<close> (\<open>liveness.rs\<close>, \<open>protocol_params.rs\<close>, \<open>core/scalar-network/src/heartbeat_verifier.rs\<close>,
    \<open>time_security.rs\<close>): wire format, verifier, maturity, time rules; locale \<open>node_gate\<close> is the contract the
    verifier, the heartbeat rate limiter and the anchor limiter share (remember the last accepted
    value per node, accept only related ones), and gives chains of accepted values.
  \<^item> \<open>Subepoch\<close> (\<open>subepoch.rs\<close>): finality commitments; locale \<open>hash_log\<close> is the contract of a hash-linked log
    and gives agreement on the history from agreement on one hash.
  \<^item> \<open>Anchor_Limits\<close> (\<open>anchor_rate_limit.rs\<close>): the anchor limiter as a state machine over all its operations.
  \<^item> \<open>Micro_Commit\<close> (\<open>micro_commit.rs\<close>): micro-commitments over a batch of ordering keys; every inclusion proof
    handed out verifies, an accepted one is about a key of the batch, the quorum counts distinct
    validators with a verified signature.
  \<^item> \<open>Fork_Protocol\<close> (\<open>fork.rs\<close>, \<open>state_machine.rs\<close>): fork proposals as a state machine over signals and
    evaluations; activation needs a commitment with its quorum and the activation epoch; what a vote's
    signature does not bind.
  \<^item> \<open>Wallet\<close> (\<open>client/scalar-wallet-core/src/denomination.rs\<close>, \<open>coin_selection.rs\<close>): denominations and the fee
    adequacy step against a specification of coin selection.
  \<^item> \<open>Governance\<close> (\<open>client/scalar-governance/src\<close>): the conviction table, governance power over the maturity store of
    \<open>Heartbeat\<close>, participant registration, proposal checks.
  \<^item> \<open>Circuit\<close>, \<open>Transfer_Circuit\<close> (\<open>core/scalar-stark-p3/src/transfer_air_p3.rs\<close>, \<open>transfer_public_inputs.rs\<close>,
    \<open>cg_arith.rs\<close>, \<open>core/scalar-stark-p3-verify/src\<close>): a constraint system is the list of expressions asserted to
    vanish modulo the Goldilocks prime on every row; locale \<open>transfer_air\<close> is what the two implementations
    share.  Exactly which public inputs the circuit accepts, that the trace builder's rows satisfy it, and
    what it fails to enforce.
  \<^item> \<open>Mint_Circuit\<close> (\<open>mint_air_p3.rs\<close>, \<open>mint_air_v2.rs\<close>): the same for the mint circuit.
  \<^item> \<open>Subproof_Circuits\<close> (\<open>ownership_air_p3.rs\<close>, \<open>membership_air_p3.rs\<close>, \<open>nonmembership_air_p3.rs\<close>, the nullifier proof of
    \<open>mint_air_p3.rs\<close>): the circuits around the third-party Poseidon2 circuit, which is a parameter with its contract
    \<open>poseidon2_circuit\<close>; the membership pipeline computes the root of \<open>Merkle_IMT\<close>, and what the circuits leave unbound.
  \<^item> \<open>Proof_Batch\<close> (\<open>batch_transfer_p3.rs\<close>, \<open>starkpack_p3.rs\<close>): the four sub-proofs of a transfer and the aggregation
    transcript.  The honest pipeline is complete, what an accepted batch means, the transcript binds.
  \<^item> \<open>Node_Epoch\<close> (\<open>core/scalar-node/src/heartbeat_service.rs\<close>, \<open>epoch_anchor.rs\<close>, \<open>epoch_orchestrator.rs\<close>,
    \<open>state_machine.rs\<close>, \<open>utxo_set_smt.rs\<close>): honest heartbeats are accepted, anchors survive the wire, the epoch
    transition as a state machine with its invariant.
  \<^item> \<open>Commit_Stark\<close> (\<open>core/scalar-consensus/src\<close>, \<open>core/scalar-node/src/cg_window.rs\<close>): level-2 finality; locale
    \<open>check_and_set\<close> is the contract of batches, votes and the engine (nothing is claimed twice by two
    requests), the key store refines a map, repetitions inside one batch are not seen.
  \<^item> \<open>Network_Time\<close> (\<open>nmt.rs\<close>, \<open>nmt_hybrid.rs\<close>, \<open>time.rs\<close>, \<open>core/scalar-node/src/nmt_production.rs\<close>): the median time, who can
    move it, the choice of sources and the sample store of the node.
  \<^item> \<open>State_Sync\<close> (\<open>sync.rs\<close>, \<open>gss.rs\<close>, \<open>state_beacon.rs\<close>, \<open>reconciliation.rs\<close>): beacons on the wire, the stability score
    bounded by the agreeing peers, synchronisation and its genesis check, reconciliation by two thirds.
  \<^item> \<open>Node_Rules\<close>, \<open>Score_Rules\<close>, \<open>Genesis\<close> (\<open>slashing.rs\<close>, \<open>succession.rs\<close>, \<open>institutional.rs\<close>, \<open>resumption.rs\<close>;
    \<open>root_alignment.rs\<close>, \<open>equity.rs\<close>, \<open>equity_boost.rs\<close>, \<open>longevity.rs\<close>, \<open>formal.rs\<close>; \<open>genesis_ceremony.rs\<close>): the rules beside the
    emission as state machines with their invariants; the ring buffer of root snapshots refines the window of the
    last snapshots, two implementations of the Gini coefficient agree, the genesis hash binds the genesis object.
  \<^item> \<open>Peer_Routing\<close>, \<open>Peer_Trust\<close> (\<open>skademlia.rs\<close>; \<open>hybrid_peer.rs\<close>, \<open>node_score.rs\<close>, \<open>eclipse.rs\<close>, \<open>security.rs\<close>, \<open>routing.rs\<close>): the bucket of an
    identifier is the logarithm of its distance, the routing table keeps its invariant, lookups end; peer tiers,
    eclipse detection and request limits.
  \<^item> \<open>Tx_Relay\<close>, \<open>Adaptive_Mux\<close> (\<open>dandelion.rs\<close>, \<open>mev_protection.rs\<close>, \<open>relay.rs\<close>; \<open>adaptive_mux.rs\<close>): stem and fluff phases, the
    commit and reveal pool hands out transactions in the order of their commitments, the relay limit, the
    conductivities and probabilities of the transport tiers.
  \<^item> \<open>Quaternary_SMT\<close> (\<open>smt_quaternary.rs\<close>): the four-ary tree shares its slots with the binary tree of \<open>Nullifier_SMT\<close>.
  \<^item> \<open>Crypto_Suite\<close> (\<open>crypto_agility.rs\<close>, \<open>version.rs\<close>, \<open>privacy.rs\<close>, \<open>channel.rs\<close>): registry and negotiation of suites, value
    commitments and credentials, the encrypted channel over key encapsulation and encryption as parameters.
  \<^item> \<open>Gossip_Node\<close> (\<open>core/scalar-node/src/gossip.rs\<close>, \<open>gossip_production.rs\<close>, \<open>core/scalar-network/src/gossip.rs\<close>): which messages a
    node relays, a further interpretation of \<open>node_gate\<close>, and what the fixed public inputs and keys leave open.
  \<^item> \<open>Client_Sdk\<close> (\<open>client/scalar-sdk/src\<close>, \<open>client/scalar-audit/src\<close>, \<open>reward_utxo.rs\<close>): the pending pool drains, the views on supply
    and policy, records, the audit of manifests, reward notes.
  \<^item> \<open>Key_Chain\<close> (\<open>seed.rs\<close>, \<open>key_management.rs\<close>, \<open>physical_security.rs\<close>, \<open>core/scalar-node/src/keystore.rs\<close>, \<open>node_id.rs\<close>): key derivation
    of wallet and node, the encrypted key file, the vault and the secret split.
  This theory holds the properties that span components: a fallback manifest built from the
  accumulator's emission stays within it and within the supply cap, and the two implementations of the fee split
  agree below it.

  \<^bold>\<open>Not modelled.\<close>  Sockets, radio and Tor transports, libp2p, HTTP, the file system and process start-up (\<open>main.rs\<close>,
  \<open>api.rs\<close>, \<open>swarm.rs\<close>, \<open>transport\<close>); the third-party ML-KEM, SLH-DSA, AEAD, Argon2, BLAKE3 and Plonky3 code and the
  thin wrappers around it (\<open>ml_kem.rs\<close>, \<open>hybrid_kem.rs\<close>, \<open>sphincs.rs\<close>, \<open>encryption.rs\<close>, \<open>hybrid_hash.rs\<close>, \<open>governance_key.rs\<close>,
  \<open>governance_id.rs\<close>, \<open>sybil.rs\<close>, \<open>config.rs\<close>): the circuits are modelled as the constraints they hand to the builder, the
  Poseidon2 circuit, FRI and the proof system behind it are not; placeholders without behaviour (\<open>onion.rs\<close>,
  \<open>tor.rs\<close>, \<open>tor_backup.rs\<close>, \<open>message.rs\<close>, \<open>peer_discovery.rs\<close>, \<open>hardware.rs\<close>, \<open>hw_wallet.rs\<close>); \<open>transaction.rs\<close> of the wallet, which
  refers to crates that are no longer in the repository; the interactive key generation dialogue; the C
  bindings; tests, examples and tools.
  The debug assertions of the sources are not executed by the release build and are not modelled.

  \<^bold>\<open>State.\<close>  The development covers every crate that holds protocol logic.  What remains are the parts
  listed above as not modelled: they contain no decisions of the program that are not taken by a modelled
  function, or only placeholders.
\<close>

text \<open>C5. Composition of the fallback manifest with the emission account: when \<open>build_dmm\<close> is given the
  emission an accumulator within the cap allows for this epoch and the anchored weights do not overflow, the
  manifest it returns is marked deferred, its total is exactly the sum of the rewards it lists and at
  most that emission, and the total as well as every single reward passes the supply cap check.
  \<open>commit_epoch\<close> is documented not to be called for a deferred epoch, but neither it nor its argument
  knows the mark: committing the total of the deferred manifest would be accepted, within the cap.\<close>

theorem dmm_manifest_within_cap:
  assumes "ea_total_minted ea \<le> S_E_SSCL"
    and "build_dmm blake3 k (Some prev) d config = Inr m"
    and "dc_e_active_sscl config = emission_this_epoch ea"
    and "sum_list (map unat (dmm_weights d (cm_node_list prev))) < 2 ^ 64"
  shows "em_deferred m \<and> em_status m = StatusDeferred
    \<and> unat (em_total_emission_sscl m) = sum_list (map (unat \<circ> nr_reward_sscl) (em_node_list m))
    \<and> em_total_emission_sscl m \<le> emission_this_epoch ea
    \<and> check_supply_cap ea (em_total_emission_sscl m) = Inr ()
    \<and> (\<forall>n\<in>set (em_node_list m). check_supply_cap ea (nr_reward_sscl n) = Inr ())
    \<and> (\<exists>ea'. commit_epoch ea (em_total_emission_sscl m) = (ea', Inr ())
         \<and> unat (ea_total_minted ea') = unat (ea_total_minted ea) + unat (em_total_emission_sscl m)
         \<and> ea_total_minted ea' \<le> S_E_SSCL)"
proof -
  let ?r = "em_total_emission_sscl m"
  have r: "unat ?r = sum_list (map (unat \<circ> nr_reward_sscl) (em_node_list m))" "?r \<le> emission_this_epoch ea"
    using build_dmm_emission_bound [OF assms(2,4)] assms(3) by (simp_all add: word_le_nat_alt)
  have "nr_reward_sscl n \<le> emission_this_epoch ea" if "n \<in> set (em_node_list m)" for n
  proof -
    have "unat (nr_reward_sscl n) \<le> unat ?r"
      unfolding r(1) using that by (intro member_le_sum_list) (auto intro: image_eqI [of _ _ n])
    then show ?thesis using r(2) by (simp add: word_le_nat_alt)
  qed
  moreover have "cm_manifest_hash prev \<noteq> zero32" using assms(2) by (auto simp: build_dmm_def)
  then have "em_deferred m" "em_status m = StatusDeferred"
    using assms(2) build_dmm_Inr [of prev blake3 k d config] by (metis sum.inject(2))+
  ultimately show ?thesis using r supply_cap_room [OF assms(1)] by blast
qed

theorem dmm_manifest_within_cap_witness:
  "\<exists>m. build_dmm (\<lambda>b. replicate 32 1) 5 (Some sample_prev) sample_heartbeats
      \<lparr>dc_e_active_sscl = emission_this_epoch ea_new, dc_fee_pool_sscl = 0, dc_txids = []\<rparr> = Inr m
    \<and> em_deferred m \<and> check_supply_cap ea_new (em_total_emission_sscl m) = Inr ()"
proof -
  obtain m where m: "build_dmm (\<lambda>b. replicate 32 1) 5 (Some sample_prev) sample_heartbeats
      \<lparr>dc_e_active_sscl = emission_this_epoch ea_new, dc_fee_pool_sscl = 0, dc_txids = []\<rparr> = Inr m"
    using sample_dmm(1) by blast
  show ?thesis
    using dmm_manifest_within_cap [OF _ m _ sample_dmm(2), of ea_new] m by (auto simp: ea_new_def)
qed

text \<open>The fee split exists twice: \<open>FeeAccumulator::distribute\<close> multiplies in 128 bits, \<open>distribute_fee\<close> of
  the fee crate in 64 bits with wrap-around.  For every total up to the supply cap the two agree to the
  last unit; the first total for which the 64-bit product wraps (about 92 times the cap) they differ.\<close>

theorem fee_paths_agree:
  assumes "fee \<le> S_MAX_SSCL"
  shows "(fd_node_pool (distribute_fee fee), fd_security_fund (distribute_fee fee))
           = fee_distribution \<lparr>fa_total_fee = fee\<rparr>
    \<and> fd_node_pool (distribute_fee 194176253407468965) \<noteq> fst (fee_distribution \<lparr>fa_total_fee = 194176253407468965\<rparr>)"
proof -
  have le: "unat fee \<le> 2100000000000000" using assms by (simp add: word_le_nat_alt S_MAX_SSCL_def)
  have "unat (fee * FEE_NODE_POOL_PERCENT) = unat fee * 95"
    using le by (simp add: FEE_NODE_POOL_PERCENT_def unat_mult_no_overflow)
  then have "unat (fee * FEE_NODE_POOL_PERCENT div 100) = unat fee * 95 div 100"
    by (simp add: unat_div)
  moreover have "unat (ucast (ucast fee * 95 div 100 :: u128) :: u64) = unat fee * 95 div 100"
    using le by (simp add: unat_u128_u64 unat_div unat_mult_no_overflow)
  ultimately have "fee * FEE_NODE_POOL_PERCENT div 100 = ucast (ucast fee * 95 div 100 :: u128)"
    by (simp add: word_unat_eq_iff)
  then show ?thesis
    by (simp add: distribute_fee_def fee_distribution_def Let_def FEE_NODE_POOL_PERCENT_def)
qed

theorem fee_paths_agree_witness:
  "(fd_node_pool (distribute_fee 1000001), fd_security_fund (distribute_fee 1000001))
           = fee_distribution \<lparr>fa_total_fee = 1000001\<rparr>
    \<and> fd_node_pool (distribute_fee 194176253407468965) \<noteq> fst (fee_distribution \<lparr>fa_total_fee = 194176253407468965\<rparr>)"
  by (rule fee_paths_agree) (simp add: S_MAX_SSCL_def)

end
